(* ===== verification/Orca_Prelude.thy ===== *)
theory Orca_Prelude
  imports Complex_Main
begin

text \<open>
  Shared vocabulary of the development.  A Go call that can fail has an outcome:
  \<open>Ok\<close> with its value, \<open>Err\<close> with the text of the returned \<open>error\<close>, \<open>Panic\<close> when the
  goroutine panics, or \<open>Blocked\<close> when the call has not returned (it waits for another goroutine
  or for input that has not arrived).  A call with side effects is a state transformer that returns its outcome
  and the new state; \<open>bind_act\<close> sequences two calls and stops at the first error or panic, as the
  \<open>if err != nil { return err }\<close> pattern of the sources does.  \<open>wrap_err\<close> is
  \<open>fmt.Errorf("prefix%v", err)\<close> and \<open>recover_err\<close> is the code path that logs an error and goes on.
\<close>

named_theorems act_defs "the state-transformer combinators"
named_theorems run "one step of a sequence of calls on a given state"
named_theorems ok_iff "when a combinator returns Ok, and with which state"

type_synonym bytes = string

datatype 'a outcome = Ok 'a | Err string | Panic string | Blocked

type_synonym ('s, 'a) act = "'s \<Rightarrow> 'a outcome \<times> 's"

definition ret_act :: "'a \<Rightarrow> ('s, 'a) act" where
  "ret_act x = (\<lambda>s. (Ok x, s))"

definition fail_act :: "string \<Rightarrow> ('s, 'a) act" where
  "fail_act e = (\<lambda>s. (Err e, s))"

definition panic_act :: "string \<Rightarrow> ('s, 'a) act" where
  "panic_act e = (\<lambda>s. (Panic e, s))"

definition blocked_act :: "('s, 'a) act" where
  "blocked_act = (\<lambda>s. (Blocked, s))"

definition bind_act :: "('s, 'a) act \<Rightarrow> ('a \<Rightarrow> ('s, 'b) act) \<Rightarrow> ('s, 'b) act" where
  "bind_act m f = (\<lambda>s. case m s of
      (Ok x, s') \<Rightarrow> f x s'
    | (Err e, s') \<Rightarrow> (Err e, s')
    | (Panic e, s') \<Rightarrow> (Panic e, s')
    | (Blocked, s') \<Rightarrow> (Blocked, s'))"

definition get_act :: "('s \<Rightarrow> 'a) \<Rightarrow> ('s, 'a) act" where
  "get_act f = (\<lambda>s. (Ok (f s), s))"

definition upd_act :: "('s \<Rightarrow> 's) \<Rightarrow> ('s, unit) act" where
  "upd_act f = (\<lambda>s. (Ok (), f s))"

definition lift_out :: "'a outcome \<Rightarrow> ('s, 'a) act" where
  "lift_out r = (\<lambda>s. (r, s))"

definition lift_err :: "string option \<Rightarrow> ('s, unit) act" where
  "lift_err r = (case r of None \<Rightarrow> ret_act () | Some e \<Rightarrow> fail_act e)"

definition wrap_err :: "string \<Rightarrow> ('s, 'a) act \<Rightarrow> ('s, 'a) act" where
  "wrap_err p m = (\<lambda>s. case m s of
      (Err e, s') \<Rightarrow> (Err (p @ e), s')
    | r \<Rightarrow> r)"

definition recover_err :: "(string \<Rightarrow> ('s, 'a) act) \<Rightarrow> ('s, 'a) act \<Rightarrow> ('s, 'a) act" where
  "recover_err h m = (\<lambda>s. case m s of
      (Err e, s') \<Rightarrow> h e s'
    | r \<Rightarrow> r)"

definition ignore_err :: "('s, unit) act \<Rightarrow> ('s, unit) act" where
  "ignore_err m = recover_err (\<lambda>_. ret_act ()) m"

text \<open>\<open>catch_act m\<close> hands the outcome of \<open>m\<close> on as a value: \<open>Inl\<close> the error, \<open>Inr\<close> the result.\<close>

definition catch_act :: "('s, 'a) act \<Rightarrow> ('s, string + 'a) act" where
  "catch_act m = (\<lambda>s. case m s of
      (Ok x, s') \<Rightarrow> (Ok (Inr x), s')
    | (Err e, s') \<Rightarrow> (Ok (Inl e), s')
    | (Panic e, s') \<Rightarrow> (Panic e, s')
    | (Blocked, s') \<Rightarrow> (Blocked, s'))"

declare ret_act_def [act_defs] fail_act_def [act_defs] panic_act_def [act_defs]
  blocked_act_def [act_defs]
  get_act_def [act_defs] upd_act_def [act_defs] lift_out_def [act_defs]

lemma bind_act_simps [simp]:
  "bind_act (ret_act x) f = f x"
  "bind_act (fail_act e) f = fail_act e"
  "bind_act (panic_act e) f = panic_act e"
  "bind_act blocked_act f = blocked_act"
  by (simp_all add: bind_act_def act_defs)

lemma bind_act_ret [simp]: "bind_act m ret_act = m"
  by (rule ext) (simp add: bind_act_def act_defs split: prod.split outcome.split)

lemma bind_act_assoc: "bind_act (bind_act m f) g = bind_act m (\<lambda>x. bind_act (f x) g)"
  by (rule ext) (simp add: bind_act_def split: prod.split outcome.split)

lemma bind_act_apply:
  "m s = (Ok x, s') \<Longrightarrow> bind_act m f s = f x s'"
  "m s = (Err e, s') \<Longrightarrow> bind_act m f s = (Err e, s')"
  "m s = (Panic e, s') \<Longrightarrow> bind_act m f s = (Panic e, s')"
  "m s = (Blocked, s') \<Longrightarrow> bind_act m f s = (Blocked, s')"
  by (simp_all add: bind_act_def)

lemma bind_act_run [run]:
  "bind_act (upd_act h) f s = f () (h s)"
  "bind_act (get_act g) f' s = f' (g s) s"
  "bind_act (lift_out (Ok x)) f'' s = f'' x s"
  "bind_act (lift_out (Err e)) f'' s = (Err e, s)"
  "bind_act (lift_err None) f s = f () s"
  "bind_act (lift_err (Some e)) f s = (Err e, s)"
  by (simp_all add: bind_act_def act_defs lift_err_def)

lemma ignore_err_run [run]:
  "m s = (Ok (), s') \<Longrightarrow> ignore_err m s = (Ok (), s')"
  "m s = (Err e, s') \<Longrightarrow> ignore_err m s = (Ok (), s')"
  by (simp_all add: ignore_err_def recover_err_def act_defs)

text \<open>Inversion of a successful run: what must have happened for a combinator to return \<open>Ok\<close>.\<close>

lemma ok_bind [ok_iff]:
  "bind_act m f s = (Ok y, s') \<longleftrightarrow> (\<exists>x s1. m s = (Ok x, s1) \<and> f x s1 = (Ok y, s'))"
  by (auto simp: bind_act_def split: prod.splits outcome.splits)

lemma ok_wrap [ok_iff]: "wrap_err w m s = (Ok y, s') \<longleftrightarrow> m s = (Ok y, s')"
  by (auto simp: wrap_err_def split: prod.splits outcome.splits)

lemma ok_lift_err [ok_iff]: "lift_err r s = (Ok y, s') \<longleftrightarrow> r = None \<and> s' = s"
  by (cases r) (auto simp: lift_err_def act_defs)

lemma ok_ignore [ok_iff]:
  "ignore_err m s = (Ok (), s') \<longleftrightarrow> m s = (Ok (), s') \<or> (\<exists>e. m s = (Err e, s'))"
  by (auto simp: ignore_err_def recover_err_def act_defs split: prod.splits outcome.splits)

lemma ok_catch [ok_iff]:
  "catch_act m s = (Ok y, s') \<longleftrightarrow>
     (\<exists>x. m s = (Ok x, s') \<and> y = Inr x) \<or> (\<exists>e. m s = (Err e, s') \<and> y = Inl e)"
  by (auto simp: catch_act_def split: prod.splits outcome.splits)

lemma ok_basic [ok_iff]:
  "ret_act x s = (Ok y, s') \<longleftrightarrow> y = x \<and> s' = s"
  "fail_act e s \<noteq> (Ok y, s')"
  "panic_act e s \<noteq> (Ok y, s')"
  "blocked_act s \<noteq> (Ok y, s')"
  "get_act g s = (Ok z, s') \<longleftrightarrow> z = g s \<and> s' = s"
  "upd_act h s = (Ok u, s') \<longleftrightarrow> s' = h s"
  "lift_out r s = (Ok y, s') \<longleftrightarrow> r = Ok y \<and> s' = s"
  by (auto simp: act_defs)

text \<open>A relation between the states before and after that every step respects.\<close>

definition act_rel :: "('s \<Rightarrow> 's \<Rightarrow> bool) \<Rightarrow> ('s, 'a) act \<Rightarrow> bool" where
  "act_rel R m \<longleftrightarrow> (\<forall>s. R s (snd (m s)))"

text \<open>Combinator laws of \<open>act_rel\<close> for a reflexive and transitive relation: this is how a frame
  property of a long handler is derived from the calls it makes.\<close>

locale frame_relation =
  fixes R :: "'s \<Rightarrow> 's \<Rightarrow> bool"
  assumes refl: "R s s"
    and trans: "R s t \<Longrightarrow> R t u \<Longrightarrow> R s u"
begin

lemma rel_ret: "act_rel R (ret_act x)"
  and rel_fail: "act_rel R (fail_act e)"
  and rel_panic: "act_rel R (panic_act e)"
  and rel_blocked: "act_rel R blocked_act"
  and rel_get: "act_rel R (get_act f)"
  and rel_lift: "act_rel R (lift_out r)"
  by (simp_all add: act_rel_def act_defs refl)

lemma rel_lift_err: "act_rel R (lift_err r)"
  by (cases r) (simp_all add: lift_err_def rel_ret rel_fail)

lemma rel_upd: "(\<And>s. R s (f s)) \<Longrightarrow> act_rel R (upd_act f)"
  by (simp add: act_rel_def act_defs)

lemma rel_bind:
  assumes "act_rel R m" and "\<And>x. act_rel R (f x)"
  shows "act_rel R (bind_act m f)"
  unfolding act_rel_def
proof
  fix s
  have step: "R s (snd (m s))" using assms(1) by (simp add: act_rel_def)
  show "R s (snd (bind_act m f s))"
  proof (cases "m s")
    case (Pair r s')
    have "R s' (snd (f x s'))" for x using assms(2) by (simp add: act_rel_def)
    with step Pair show ?thesis
      by (cases r) (auto simp: bind_act_def intro: trans)
  qed
qed

lemma rel_wrap: "act_rel R m \<Longrightarrow> act_rel R (wrap_err p m)"
  by (auto simp: act_rel_def wrap_err_def split: prod.split outcome.split dest: spec)
    (metis snd_conv)+

lemma rel_catch: "act_rel R m \<Longrightarrow> act_rel R (catch_act m)"
  by (auto simp: act_rel_def catch_act_def split: prod.split outcome.split)
    (metis snd_conv)+

lemma rel_recover:
  assumes "act_rel R m" and "\<And>e. act_rel R (h e)"
  shows "act_rel R (recover_err h m)"
  unfolding act_rel_def
proof
  fix s
  have step: "R s (snd (m s))" using assms(1) by (simp add: act_rel_def)
  show "R s (snd (recover_err h m s))"
  proof (cases "m s")
    case (Pair r s')
    have "R s' (snd (h e s'))" for e using assms(2) by (simp add: act_rel_def)
    with step Pair show ?thesis
      by (cases r) (auto simp: recover_err_def intro: trans)
  qed
qed

lemma rel_ignore: "act_rel R m \<Longrightarrow> act_rel R (ignore_err m)"
  unfolding ignore_err_def by (intro rel_recover rel_ret)

lemma rel_option:
  "act_rel R m \<Longrightarrow> (\<And>x. act_rel R (f x)) \<Longrightarrow> act_rel R (case z of None \<Rightarrow> m | Some x \<Rightarrow> f x)"
  by (cases z) simp_all

lemma rel_sum:
  "(\<And>x. act_rel R (f x)) \<Longrightarrow> (\<And>y. act_rel R (g y)) \<Longrightarrow> act_rel R (case z of Inl x \<Rightarrow> f x | Inr y \<Rightarrow> g y)"
  by (cases z) simp_all

lemma rel_if: "act_rel R m \<Longrightarrow> act_rel R n \<Longrightarrow> act_rel R (if b then m else n)"
  by simp

lemmas rel_cases = rel_option rel_sum rel_if

lemmas rel_intros = rel_ret rel_fail rel_panic rel_blocked rel_get rel_lift rel_lift_err rel_bind
  rel_wrap rel_catch rel_recover rel_ignore

end

text \<open>The simplest frame relation: a component \<open>f\<close> of the state keeps its value.\<close>

definition keeps :: "('s \<Rightarrow> 'b) \<Rightarrow> 's \<Rightarrow> 's \<Rightarrow> bool" where
  "keeps f s s' \<longleftrightarrow> f s' = f s"

interpretation keep: frame_relation "keeps f" for f
  by unfold_locales (simp_all add: keeps_def)

lemma keeps_run: "act_rel (keeps f) m \<Longrightarrow> m s = (r, s') \<Longrightarrow> f s' = f s"
  unfolding act_rel_def keeps_def by (metis snd_conv)

lemma keeps_snd: "act_rel (keeps f) m \<Longrightarrow> f (snd (m s)) = f s"
  by (simp add: act_rel_def keeps_def)

text \<open>Keeping a predicate of the state is one as well.\<close>

definition preserves :: "('s \<Rightarrow> bool) \<Rightarrow> 's \<Rightarrow> 's \<Rightarrow> bool" where
  "preserves P s s' \<longleftrightarrow> (P s \<longrightarrow> P s')"

interpretation preserve: frame_relation "preserves P" for P
  by unfold_locales (simp_all add: preserves_def)

lemma preserves_run: "act_rel (preserves P) m \<Longrightarrow> P s \<Longrightarrow> P (snd (m s))"
  by (simp add: act_rel_def preserves_def)

subsection \<open>Maps\<close>

text \<open>Go's \<open>m[k]\<close> on a missing key is the zero value of the element type.\<close>

definition map_get :: "'v \<Rightarrow> ('k \<rightharpoonup> 'v) \<Rightarrow> 'k \<Rightarrow> 'v" where
  "map_get z m k = (case m k of None \<Rightarrow> z | Some v \<Rightarrow> v)"

lemma map_get_simps [simp]:
  "map_get z (m(k \<mapsto> v)) k = v"
  "k' \<noteq> k \<Longrightarrow> map_get z (m(k \<mapsto> v)) k' = map_get z m k'"
  "map_get z Map.empty k = z"
  by (simp_all add: map_get_def)

end
