(* ===== verification/Go_Strings.thy ===== *)
theory Go_Strings
  imports Orca_Prelude "HOL-Library.Sublist" "HOL-Library.Multiset"
begin

text \<open>
  The functions of Go's \<open>strings\<close> and \<open>fmt\<close> packages that the sources call, on strings as byte
  lists: \<open>Split\<close> by a one-byte separator, \<open>Join\<close>, \<open>HasPrefix\<close>, \<open>TrimPrefix\<close>, \<open>Contains\<close>,
  \<open>TrimSpace\<close> (with the UTF-8 encodings of every Unicode white-space rune), \<open>Fields\<close>, \<open>ToUpper\<close>,
  and decimal rendering of integers.  The laws proved here (split and join are inverse, split
  pieces hold no separator, trimming is idempotent) carry the proofs of the provider lists, the
  configuration file and the command lines.
\<close>

subsection \<open>Split and Join\<close>

fun go_split :: "char \<Rightarrow> string \<Rightarrow> string list" where
  "go_split c [] = [[]]"
| "go_split c (x # xs) =
     (if x = c then [] # go_split c xs
      else (case go_split c xs of [] \<Rightarrow> [[x]] | w # ws \<Rightarrow> (x # w) # ws))"

fun go_join :: "string \<Rightarrow> string list \<Rightarrow> string" where
  "go_join sep [] = []"
| "go_join sep [w] = w"
| "go_join sep (w # ws) = w @ sep @ go_join sep ws"

lemma go_split_neq_Nil [simp]: "go_split c s \<noteq> []"
  by (cases s) (auto split: list.split)

lemma go_split_cases: obtains w ws where "go_split c s = w # ws"
  by (cases "go_split c s") auto

lemma go_join_Cons: "ws \<noteq> [] \<Longrightarrow> go_join sep (w # ws) = w @ sep @ go_join sep ws"
  by (cases ws) auto

lemma go_join_split: "go_join [c] (go_split c s) = s"
proof (induction s)
  case Nil
  then show ?case by simp
next
  case (Cons x xs)
  obtain w ws where sp: "go_split c xs = w # ws" by (rule go_split_cases)
  show ?case
  proof (cases "x = c")
    case True
    then show ?thesis using Cons by (simp add: go_join_Cons)
  next
    case False
    then show ?thesis using Cons sp by (cases ws) auto
  qed
qed

lemma go_split_no_sep: "w \<in> set (go_split c s) \<Longrightarrow> c \<notin> set w"
proof (induction s arbitrary: w)
  case (Cons x xs)
  obtain v vs where "go_split c xs = v # vs" by (rule go_split_cases)
  with Cons show ?case by (auto split: if_splits)
qed simp

lemma go_split_append_sep:
  "c \<notin> set w \<Longrightarrow> go_split c (w @ c # s) = w # go_split c s"
  by (induction w) auto

lemma go_split_atomic: "c \<notin> set w \<Longrightarrow> go_split c w = [w]"
  by (induction w) auto

lemma go_split_join:
  "ws \<noteq> [] \<Longrightarrow> (\<forall>w \<in> set ws. c \<notin> set w) \<Longrightarrow> go_split c (go_join [c] ws) = ws"
proof (induction ws rule: induct_list012)
  case (3 x y zs)
  then show ?case by (simp add: go_split_append_sep)
qed (simp_all add: go_split_atomic)

subsection \<open>Prefixes and substrings\<close>

definition has_prefix :: "string \<Rightarrow> string \<Rightarrow> bool" where
  "has_prefix s p = (take (length p) s = p)"

definition trim_prefix :: "string \<Rightarrow> string \<Rightarrow> string" where
  "trim_prefix s p = (if has_prefix s p then drop (length p) s else s)"

fun go_contains :: "string \<Rightarrow> string \<Rightarrow> bool" where
  "go_contains [] sub = (sub = [])"
| "go_contains (x # xs) sub = (has_prefix (x # xs) sub \<or> go_contains xs sub)"

lemma has_prefix_iff: "has_prefix s p \<longleftrightarrow> (\<exists>t. s = p @ t)"
  by (auto simp: has_prefix_def) (metis append_take_drop_id)

lemma has_prefix_append [simp]: "has_prefix (p @ t) p"
  by (simp add: has_prefix_def)

lemma trim_prefix_append [simp]: "trim_prefix (p @ t) p = t"
  by (simp add: trim_prefix_def)

lemma go_contains_iff: "go_contains s sub \<longleftrightarrow> (\<exists>u v. s = u @ sub @ v)"
proof (induction s)
  case Nil
  then show ?case by auto
next
  case (Cons x xs)
  have "(\<exists>u v. x # xs = u @ sub @ v) \<longleftrightarrow>
        (\<exists>v. x # xs = sub @ v) \<or> (\<exists>u v. xs = u @ sub @ v)"
    by (metis append_Cons append_Nil list.exhaust list.sel(3))
  with Cons show ?case by (auto simp: has_prefix_iff)
qed

subsection \<open>Paths\<close>

text \<open>\<open>filepath.Clean\<close> on a rooted path: empty and \<open>.\<close> components vanish, \<open>..\<close> removes the component
  before it and stops at the root.  \<open>resolve\<close> is how the operating system reads a path of a process
  whose working directory is the root, which is what the container image sets.\<close>

fun clean_comps :: "string list \<Rightarrow> string list \<Rightarrow> string list" where
  "clean_comps acc [] = rev acc"
| "clean_comps acc (c # cs) =
     (if c = [] \<or> c = ''.'' then clean_comps acc cs
      else if c = ''..'' then clean_comps (tl acc) cs
      else clean_comps (c # acc) cs)"

definition resolve :: "string \<Rightarrow> string" where
  "resolve p = CHR ''/'' # go_join ''/'' (clean_comps [] (go_split CHR ''/'' p))"

text \<open>A plain file name stays inside the directory it is appended to.\<close>

definition plain_name :: "string \<Rightarrow> bool" where
  "plain_name f = (f \<noteq> [] \<and> f \<noteq> ''.'' \<and> f \<noteq> ''..'' \<and> CHR ''/'' \<notin> set f)"

lemma resolve_in_dir:
  assumes "plain_name d" and "plain_name f"
  shows "resolve (d @ ''/'' @ f) = ''/'' @ d @ ''/'' @ f"
    and "resolve (''/'' @ d @ ''/'' @ f) = ''/'' @ d @ ''/'' @ f"
  using assms by (simp_all add: resolve_def plain_name_def go_split_append_sep go_split_atomic)

subsection \<open>White space\<close>

text \<open>The UTF-8 encodings of the runes \<open>unicode.IsSpace\<close> accepts.\<close>

definition space_runes :: "string list" where
  "space_runes =
     [[CHR 0x09], [CHR 0x0A], [CHR 0x0B], [CHR 0x0C], [CHR 0x0D], [CHR 0x20],
      [CHR 0xC2, CHR 0x85], [CHR 0xC2, CHR 0xA0], [CHR 0xE1, CHR 0x9A, CHR 0x80],
      [CHR 0xE2, CHR 0x80, CHR 0x80], [CHR 0xE2, CHR 0x80, CHR 0x81],
      [CHR 0xE2, CHR 0x80, CHR 0x82], [CHR 0xE2, CHR 0x80, CHR 0x83],
      [CHR 0xE2, CHR 0x80, CHR 0x84], [CHR 0xE2, CHR 0x80, CHR 0x85],
      [CHR 0xE2, CHR 0x80, CHR 0x86], [CHR 0xE2, CHR 0x80, CHR 0x87],
      [CHR 0xE2, CHR 0x80, CHR 0x88], [CHR 0xE2, CHR 0x80, CHR 0x89],
      [CHR 0xE2, CHR 0x80, CHR 0x8A], [CHR 0xE2, CHR 0x80, CHR 0xA8],
      [CHR 0xE2, CHR 0x80, CHR 0xA9], [CHR 0xE2, CHR 0x80, CHR 0xAF],
      [CHR 0xE2, CHR 0x81, CHR 0x9F], [CHR 0xE3, CHR 0x80, CHR 0x80]]"

function trim_by :: "string list \<Rightarrow> string \<Rightarrow> string" where
  "trim_by ps s = (case List.find (\<lambda>p. p \<noteq> [] \<and> has_prefix s p) ps of
      None \<Rightarrow> s
    | Some p \<Rightarrow> trim_by ps (drop (length p) s))"
  by pat_completeness auto
termination
proof (relation "measure (length \<circ> snd)")
  fix ps :: "string list" and s p
  assume "List.find (\<lambda>p. p \<noteq> [] \<and> has_prefix s p) ps = Some p"
  then have "p \<noteq> []" "has_prefix s p" by (auto simp: find_Some_iff)
  then show "((ps, drop (length p) s), ps, s) \<in> measure (length \<circ> snd)"
    by (auto simp: has_prefix_iff)
qed simp

declare trim_by.simps [simp del]

definition trim_left_space :: "string \<Rightarrow> string" where
  "trim_left_space s = trim_by space_runes s"

definition trim_right_space :: "string \<Rightarrow> string" where
  "trim_right_space s = rev (trim_by (map rev space_runes) (rev s))"

definition trim_space :: "string \<Rightarrow> string" where
  "trim_space s = trim_right_space (trim_left_space s)"

lemma trim_by_fixed: "(\<forall>p \<in> set ps. p = [] \<or> \<not> has_prefix s p) \<Longrightarrow> trim_by ps s = s"
  by (subst trim_by.simps) (auto simp: find_Some_iff split: option.split)

lemma trim_by_suffix: "\<exists>u. s = u @ trim_by ps s"
proof (induction ps s rule: trim_by.induct)
  case (1 ps s)
  show ?case
  proof (cases "List.find (\<lambda>p. p \<noteq> [] \<and> has_prefix s p) ps")
    case None
    then show ?thesis by (subst trim_by.simps) simp
  next
    case (Some p)
    then obtain u where "drop (length p) s = u @ trim_by ps (drop (length p) s)"
      using "1.IH" by blast
    then have "s = (take (length p) s @ u) @ trim_by ps (drop (length p) s)"
      by (metis append_assoc append_take_drop_id)
    moreover have "trim_by ps s = trim_by ps (drop (length p) s)"
      using Some by (simp add: trim_by.simps [of ps s])
    ultimately show ?thesis by metis
  qed
qed

text \<open>A string none of whose bytes occurs in a white-space rune is left alone.\<close>

definition plain :: "string \<Rightarrow> bool" where
  "plain s = list_all (\<lambda>c. \<not> list_ex (\<lambda>p. c \<in> set p) space_runes) s"

lemma space_runes_nonempty: "p \<in> set space_runes \<Longrightarrow> p \<noteq> []"
  by (auto simp: space_runes_def)

lemma trim_by_hd:
  assumes "\<And>p. p \<in> set ps \<Longrightarrow> p \<noteq> []" and "s \<noteq> [] \<Longrightarrow> \<forall>p \<in> set ps. hd s \<notin> set p"
  shows "trim_by ps s = s"
proof (rule trim_by_fixed, intro ballI)
  fix p assume p: "p \<in> set ps"
  show "p = [] \<or> \<not> has_prefix s p"
  proof (cases p)
    case (Cons c q)
    have "hd s = c" and "s \<noteq> []" if "has_prefix s p"
      using that Cons by (auto simp: has_prefix_iff)
    with assms(2) p Cons show ?thesis by (metis list.set_intros(1))
  qed simp
qed

lemma plain_trim_space: "plain s \<Longrightarrow> trim_space s = s"
proof -
  assume pl: "plain s"
  have all: "\<forall>p \<in> set space_runes. c \<notin> set p" if "c \<in> set s" for c
    using pl that by (auto simp: plain_def list_all_iff list_ex_iff)
  have l: "trim_left_space s = s"
    unfolding trim_left_space_def
    by (rule trim_by_hd) (auto dest: space_runes_nonempty simp: all)
  have "trim_by (map rev space_runes) (rev s) = rev s"
    by (rule trim_by_hd) (auto dest: space_runes_nonempty simp: all hd_rev)
  then have "trim_right_space s = s" by (simp add: trim_right_space_def)
  with l show ?thesis by (simp add: trim_space_def)
qed

text \<open>\<open>strings.Fields\<close>: the maximal runs of bytes outside white-space runes.\<close>

function go_fields :: "string \<Rightarrow> string \<Rightarrow> string list" where
  "go_fields acc [] = (if acc = [] then [] else [acc])"
| "go_fields acc (x # xs) =
     (case List.find (\<lambda>p. p \<noteq> [] \<and> has_prefix (x # xs) p) space_runes of
        None \<Rightarrow> go_fields (acc @ [x]) xs
      | Some p \<Rightarrow> (if acc = [] then [] else [acc]) @ go_fields [] (drop (length p) (x # xs)))"
  by pat_completeness auto
termination
proof (relation "measure (length \<circ> snd)")
  fix acc x and xs :: string and p
  assume "List.find (\<lambda>p. p \<noteq> [] \<and> has_prefix (x # xs) p) space_runes = Some p"
  then have "p \<noteq> []" by (auto simp: find_Some_iff)
  then show "(([], drop (length p) (x # xs)), acc, x # xs) \<in> measure (length \<circ> snd)"
    by (cases p) auto
qed auto

lemma go_fields_nonempty: "w \<in> set (go_fields acc s) \<Longrightarrow> w \<noteq> []"
  by (induction acc s rule: go_fields.induct) (auto split: if_splits option.splits)

subsection \<open>Upper case\<close>

text \<open>\<open>strings.ToUpper\<close> maps ASCII letters; a string with other bytes goes through the Unicode
  tables of the Go library, which is the parameter \<open>uni\<close>.\<close>

definition is_ascii :: "string \<Rightarrow> bool" where
  "is_ascii s = list_all (\<lambda>c. (of_char c :: nat) < 128) s"

definition upper_char :: "char \<Rightarrow> char" where
  "upper_char c = (let n = of_char c :: nat in if 97 \<le> n \<and> n \<le> 122 then char_of (n - 32) else c)"

definition to_upper :: "(string \<Rightarrow> string) \<Rightarrow> string \<Rightarrow> string" where
  "to_upper uni s = (if is_ascii s then map upper_char s else uni s)"

subsection \<open>Decimal rendering\<close>

definition digit_char :: "nat \<Rightarrow> char" where
  "digit_char d = char_of (48 + d mod 10)"

fun show_nat :: "nat \<Rightarrow> string" where
  "show_nat n = (if n < 10 then [digit_char n] else show_nat (n div 10) @ [digit_char n])"

declare show_nat.simps [simp del]

definition show_int :: "int \<Rightarrow> string" where
  "show_int i = (if i < 0 then CHR ''-'' # show_nat (nat (- i)) else show_nat (nat i))"

definition digit_val :: "char \<Rightarrow> nat option" where
  "digit_val c = (let n = of_char c :: nat in if 48 \<le> n \<and> n \<le> 57 then Some (n - 48) else None)"

fun read_nat_acc :: "nat \<Rightarrow> string \<Rightarrow> nat option" where
  "read_nat_acc a [] = Some a"
| "read_nat_acc a (c # cs) =
     (case digit_val c of None \<Rightarrow> None | Some d \<Rightarrow> read_nat_acc (10 * a + d) cs)"

lemma digit_val_char [simp]: "digit_val (digit_char d) = Some (d mod 10)"
  by (simp add: digit_val_def digit_char_def Let_def)

lemma read_nat_acc_append:
  "read_nat_acc a (s @ t) = (case read_nat_acc a s of None \<Rightarrow> None | Some b \<Rightarrow> read_nat_acc b t)"
  by (induction s arbitrary: a) (auto split: option.split)

lemma read_show_nat: "read_nat_acc 0 (show_nat n) = Some n"
proof (induction n rule: show_nat.induct)
  case (1 n)
  show ?case
    by (subst show_nat.simps) (use "1.IH" in \<open>auto simp: read_nat_acc_append\<close>)
qed

lemma show_nat_inj: "show_nat m = show_nat n \<longleftrightarrow> m = n"
  by (metis option.inject read_show_nat)

lemma show_nat_digits: "c \<in> set (show_nat n) \<Longrightarrow> \<exists>d < 10. c = digit_char d"
proof (induction n rule: show_nat.induct)
  case (1 n)
  show ?case
  proof (cases "n < 10")
    case True
    with "1.prems" show ?thesis by (auto simp: show_nat.simps [of n])
  next
    case False
    have "digit_char n = digit_char (n mod 10)" by (simp add: digit_char_def)
    moreover have "n mod 10 < 10" by simp
    ultimately have "\<exists>d < 10. digit_char n = digit_char d" by blast
    then show ?thesis
      using "1.IH" "1.prems" False by (auto simp: show_nat.simps [of n])
  qed
qed

lemma show_nat_no_space: "CHR '' '' \<notin> set (show_nat n)"
proof
  assume "CHR '' '' \<in> set (show_nat n)"
  then obtain d where "d < 10" "CHR '' '' = digit_char d" using show_nat_digits by blast
  then have "digit_val (CHR '' '') = Some (d mod 10)" by simp
  then show False by (simp add: digit_val_def)
qed

lemma show_nat_nonempty [simp]: "show_nat n \<noteq> []"
  by (subst show_nat.simps) simp

subsection \<open>File names\<close>

text \<open>The name \<open>os.File.Stat\<close> reports (the last path component) and \<open>filepath.Ext\<close>.\<close>

definition go_base :: "string \<Rightarrow> string" where
  "go_base s = (if s = [] then [] else
     let t = rev (dropWhile (\<lambda>c. c = CHR ''/'') (rev s))
     in if t = [] then ''/'' else last (go_split CHR ''/'' t))"

definition go_ext :: "string \<Rightarrow> string" where
  "go_ext p = (let c = last (go_split CHR ''/'' p) in
     if CHR ''.'' \<in> set c then CHR ''.'' # last (go_split CHR ''.'' c) else [])"

subsection \<open>Durations\<close>

text \<open>\<open>time.Duration.String\<close>: hours, minutes and seconds with the fraction's trailing zeros removed, and
  smaller units below one second.\<close>

fun frac_digits :: "nat \<Rightarrow> nat \<Rightarrow> string" where
  "frac_digits 0 v = []"
| "frac_digits (Suc k) v = frac_digits k (v div 10) @ [digit_char v]"

definition show_frac :: "nat \<Rightarrow> nat \<Rightarrow> string" where
  "show_frac k v = (let ds = rev (dropWhile (\<lambda>c. c = CHR ''0'') (rev (frac_digits k v)))
     in if ds = [] then [] else CHR ''.'' # ds)"

definition show_hms :: "nat \<Rightarrow> string" where
  "show_hms sec = (let m = sec div 60; h = m div 60 in
     (if h > 0 then show_nat h @ ''h'' else []) @
     (if m > 0 then show_nat (m mod 60) @ ''m'' else []) @ show_nat (sec mod 60))"

definition duration_string :: "int \<Rightarrow> string" where
  "duration_string d = (let u = nat \<bar>d\<bar> in
     if u = 0 then ''0s'' else
     (if d < 0 then ''-'' else []) @
     (if u < 1000 then show_nat u @ ''ns''
      else if u < 1000000 then show_nat (u div 1000) @ show_frac 3 (u mod 1000) @
             [CHR 0xC2, CHR 0xB5, CHR ''s'']
      else if u < 1000000000 then show_nat (u div 1000000) @ show_frac 6 (u mod 1000000) @ ''ms''
      else show_hms (u div 1000000000) @ show_frac 9 (u mod 1000000000) @ ''s''))"

end
