(* ===== verification/Go_Floats.thy ===== *)
theory Go_Floats
  imports Go_Strings "HOL-Library.Log_Nat"
begin

text \<open>
  Go's \<open>float32\<close> and \<open>float64\<close> as the sources use them: a value is not-a-number, an infinity or
  an exact rational; \<open>fl_round\<close> rounds a rational to the nearest representable value (ties to
  even, gradual underflow, overflow to infinity), so conversions, division, comparison,
  \<open>strconv.ParseFloat\<close> on decimal literals, and the \<open>%.2f\<close> verb of \<open>fmt\<close> compute the value the
  program computes.  The sign of zero is not kept: no expression of the sources divides by a
  float zero of negative sign or prints one.  Syntax of \<open>ParseFloat\<close> other than plain decimals
  (exponents, hexadecimal, \<open>Inf\<close>, \<open>NaN\<close>) is handled by the parameter \<open>other\<close>.
\<close>

datatype gofloat = NaN | Inf bool | Fin rat

subsection \<open>Rounding\<close>

definition pow2 :: "int \<Rightarrow> rat" where
  "pow2 e = (if 0 \<le> e then 2 ^ nat e else 1 / 2 ^ nat (- e))"

definition ilog2 :: "rat \<Rightarrow> int" where
  "ilog2 q = (let (a, b) = quotient_of q; e = bitlen a - bitlen b
              in if q < pow2 e then e - 1 else e)"

definition round_even :: "rat \<Rightarrow> int" where
  "round_even q = (let f = \<lfloor>q\<rfloor>; d = q - of_int f in
     if d < 1/2 then f else if d > 1/2 then f + 1 else if even f then f else f + 1)"

definition fl_round :: "int \<Rightarrow> int \<Rightarrow> rat \<Rightarrow> gofloat" where
  "fl_round p emax q = (if q = 0 then Fin 0 else
     let e = max (ilog2 \<bar>q\<bar>) (1 - emax); u = pow2 (e - (p - 1));
         r = of_int (round_even (q / u)) * u
     in if pow2 (emax + 1) \<le> \<bar>r\<bar> then Inf (q < 0) else Fin r)"

definition f32 :: "rat \<Rightarrow> gofloat" where "f32 q = fl_round 24 127 q"

definition f64 :: "rat \<Rightarrow> gofloat" where "f64 q = fl_round 53 1023 q"

fun to_f32 :: "gofloat \<Rightarrow> gofloat" where
  "to_f32 (Fin q) = f32 q"
| "to_f32 x = x"

lemma round_even_of_int [simp]: "round_even (of_int i) = i"
  by (simp add: round_even_def)

lemma f32_0 [simp]: "f32 0 = Fin 0" and f64_0 [simp]: "f64 0 = Fin 0"
  by (simp_all add: f32_def f64_def fl_round_def)

lemma round_even_mono: "p \<le> q \<Longrightarrow> round_even p \<le> round_even q"
proof -
  assume le: "p \<le> q"
  show ?thesis
  proof (cases "\<lfloor>p\<rfloor> = \<lfloor>q\<rfloor>")
    case True
    then show ?thesis using le by (auto simp: round_even_def Let_def)
  next
    case False
    with le have "\<lfloor>p\<rfloor> + 1 \<le> \<lfloor>q\<rfloor>" by (metis floor_mono less_le zless_imp_add1_zle)
    then show ?thesis by (auto simp: round_even_def Let_def)
  qed
qed

subsection \<open>Comparison\<close>

fun fl_lt :: "gofloat \<Rightarrow> gofloat \<Rightarrow> bool" where
  "fl_lt (Fin a) (Fin b) = (a < b)"
| "fl_lt (Fin a) (Inf neg) = (\<not> neg)"
| "fl_lt (Inf neg) (Fin b) = neg"
| "fl_lt (Inf n1) (Inf n2) = (n1 \<and> \<not> n2)"
| "fl_lt _ _ = False"

definition fl_ge :: "gofloat \<Rightarrow> gofloat \<Rightarrow> bool" where
  "fl_ge a b = (a \<noteq> NaN \<and> b \<noteq> NaN \<and> \<not> fl_lt a b)"

lemma fl_lt_irrefl [simp]: "\<not> fl_lt a a"
  by (cases a) auto

lemma fl_lt_NaN [simp]: "\<not> fl_lt NaN a" "\<not> fl_lt a NaN"
  by (cases a; simp)+

lemma fl_lt_trans: "fl_lt a b \<Longrightarrow> fl_lt b c \<Longrightarrow> fl_lt a c"
  by (cases a; cases b; cases c) auto

subsection \<open>Arithmetic\<close>

text \<open>Division of two floats, with IEEE results for a zero or infinite operand.\<close>

fun fl_div :: "(rat \<Rightarrow> gofloat) \<Rightarrow> gofloat \<Rightarrow> gofloat \<Rightarrow> gofloat" where
  "fl_div rnd (Fin a) (Fin b) =
     (if b = 0 then (if a = 0 then NaN else Inf (a < 0)) else rnd (a / b))"
| "fl_div rnd (Fin a) (Inf n) = Fin 0"
| "fl_div rnd (Inf n) (Fin b) = Inf (n \<noteq> (b < 0))"
| "fl_div rnd _ _ = NaN"

fun fl_add :: "(rat \<Rightarrow> gofloat) \<Rightarrow> gofloat \<Rightarrow> gofloat \<Rightarrow> gofloat" where
  "fl_add rnd (Fin a) (Fin b) = rnd (a + b)"
| "fl_add rnd (Inf n) (Inf m) = (if n = m then Inf n else NaN)"
| "fl_add rnd (Inf n) (Fin b) = Inf n"
| "fl_add rnd (Fin a) (Inf m) = Inf m"
| "fl_add rnd _ _ = NaN"

text \<open>\<open>int64(x)\<close> truncates towards zero; outside the range it has the value of the amd64 conversion
  instruction.\<close>

fun to_int64 :: "gofloat \<Rightarrow> int" where
  "to_int64 (Fin q) =
     (let t = (if q < 0 then - \<lfloor>- q\<rfloor> else \<lfloor>q\<rfloor>) in
      if - (2 ^ 63) \<le> t \<and> t < 2 ^ 63 then t else - (2 ^ 63))"
| "to_int64 _ = - (2 ^ 63)"

text \<open>Two's-complement wrap-around of \<open>int64\<close> and Go's truncated division.\<close>

definition wrap64 :: "int \<Rightarrow> int" where
  "wrap64 i = (i + 2 ^ 63) mod 2 ^ 64 - 2 ^ 63"

definition go_div :: "int \<Rightarrow> int \<Rightarrow> int" where
  "go_div a b = sgn a * sgn b * (\<bar>a\<bar> div \<bar>b\<bar>)"

lemma wrap64_id: "- (2 ^ 63) \<le> i \<Longrightarrow> i < 2 ^ 63 \<Longrightarrow> wrap64 i = i"
  by (simp add: wrap64_def)

lemma wrap64_bounds: "- (2 ^ 63) \<le> wrap64 i \<and> wrap64 i < 2 ^ 63"
proof -
  have "0 \<le> (i + 2 ^ 63) mod 2 ^ 64 \<and> (i + 2 ^ 63) mod 2 ^ 64 < 2 ^ 64" by simp
  then show ?thesis by (simp add: wrap64_def)
qed

lemma wrap64_add: "wrap64 (wrap64 a + b) = wrap64 (a + b)"
  by (simp add: wrap64_def mod_simps ac_simps)

lemma go_div_nonneg: "0 \<le> a \<Longrightarrow> 0 < b \<Longrightarrow> go_div a b = a div b"
  by (cases "a = 0") (simp_all add: go_div_def)

lemma to_int64_small: "0 \<le> q \<Longrightarrow> q < 1 \<Longrightarrow> to_int64 (Fin q) = 0"
  by (simp add: Let_def floor_eq_iff)

subsection \<open>Printing and parsing\<close>

definition pad2 :: "nat \<Rightarrow> string" where
  "pad2 n = (if n < 10 then CHR ''0'' # show_nat n else show_nat n)"

fun fmt_2f :: "gofloat \<Rightarrow> string" where
  "fmt_2f (Fin q) =
     (let n = nat (round_even (\<bar>q\<bar> * 100)) in
      (if q < 0 then ''-'' else '''') @ show_nat (n div 100) @ ''.'' @ pad2 (n mod 100))"
| "fmt_2f (Inf neg) = (if neg then ''-Inf'' else ''+Inf'')"
| "fmt_2f NaN = ''NaN''"

definition parse_frac :: "string \<Rightarrow> string \<Rightarrow> rat option" where
  "parse_frac ip fp = (if ip = [] \<and> fp = [] then None else
     (case read_nat_acc 0 (ip @ fp) of None \<Rightarrow> None
      | Some n \<Rightarrow> Some (of_nat n / 10 ^ length fp)))"

definition parse_unsigned :: "string \<Rightarrow> rat option" where
  "parse_unsigned s = (case go_split CHR ''.'' s of
      [ip] \<Rightarrow> parse_frac ip []
    | [ip, fp] \<Rightarrow> parse_frac ip fp
    | _ \<Rightarrow> None)"

definition parse_dec :: "string \<Rightarrow> rat option" where
  "parse_dec s = (case s of [] \<Rightarrow> None
    | c # cs \<Rightarrow> if c = CHR ''-'' then map_option uminus (parse_unsigned cs)
                else if c = CHR ''+'' then parse_unsigned cs else parse_unsigned s)"

definition parse_float64 ::
  "(string \<Rightarrow> gofloat \<times> string option) \<Rightarrow> string \<Rightarrow> gofloat \<times> string option" where
  "parse_float64 other s = (case parse_dec s of
      None \<Rightarrow> (if s = [] then (Fin 0, Some ''strconv.ParseFloat: parsing \"\": invalid syntax'')
               else other s)
    | Some q \<Rightarrow> (case f64 q of
        Inf n \<Rightarrow> (Inf n, Some (''strconv.ParseFloat: parsing \"'' @ s @ ''\": value out of range''))
      | x \<Rightarrow> (x, None)))"

lemma round_even_half: "0 \<le> q \<Longrightarrow> q < 1/2 \<Longrightarrow> round_even q = 0"
proof -
  assume q: "0 \<le> q" "q < 1/2"
  then have "\<lfloor>q\<rfloor> = 0" by (simp add: floor_eq_iff)
  with q show ?thesis by (simp add: round_even_def)
qed

lemma show_nat_0: "show_nat 0 = ''0''"
  by code_simp

lemma fmt_2f_tiny:
  assumes "0 \<le> q" and "q < 1/200"
  shows "fmt_2f (Fin q) = ''0.00''"
proof -
  have "round_even (\<bar>q\<bar> * 100) = 0" by (rule round_even_half) (use assms in auto)
  moreover have "\<not> q < 0" using assms by simp
  ultimately show ?thesis
    by (simp add: pad2_def Let_def show_nat_0)
qed

subsection \<open>JSON values\<close>

text \<open>What \<open>encoding/json\<close> decodes into an \<open>interface{}\<close>.\<close>

datatype jval = JNull | JBool bool | JNum gofloat | JStr string | JArr "jval list"
  | JObj "(string \<times> jval) list"

end
