(* ===== verification/Bitshare_Types.thy ===== *)
theory Bitshare_Types
  imports Go_Floats
begin

text \<open>
  Data of the file-sharing node (\<open>src/fileshare/bitshare_structs.go\<close>, the globals of
  \<open>src/fileshare/main.go\<close>) and its environment.  Go structs are records whose fields carry a short
  prefix; the package-level variables of the node are the fields of \<open>node\<close>, together with the disk
  of the container and the list of effects the node has had on the outside world, oldest first.
  An instant is the number of nanoseconds since the zero \<open>time.Time\<close>.

  What is outside the repository (libp2p hosts and streams, the JSON and gob codecs, the wallet's
  HTTP server, failures of the operating system) is the record \<open>p2p\<close>: one field per question the
  code asks.  The fields that answer for the network take the number of effects so far, so that two
  attempts of one handler may have different results.
\<close>

record FileDataHeader =
  fh_FileName :: string
  fh_FileSize :: int
  fh_FileHash :: string
  fh_FileExtension :: string
  fh_Multiaddress :: string
  fh_PeerID :: string
  fh_Price :: gofloat
  fh_MiningAddress :: string
  fh_RequestID :: string
  fh_Provided :: bool

record FileTransaction =
  ft_RequestID :: string
  ft_FileHash :: string
  ft_FileMetaData :: FileDataHeader
  ft_DownloadProgress :: gofloat
  ft_DownloadSpeed :: gofloat
  ft_DownloadStart :: int
  ft_RemainingTime :: string
  ft_BytesDownloaded :: int

record FileRequest =
  fr_RequestID :: string
  fr_FileHash :: string
  fr_RequesterID :: string
  fr_RequesterMultiAddress :: string
  fr_TimeSent :: int
  fr_Complete :: bool

record MetaDataRequest =
  mr_FileHash :: string
  mr_RequesterID :: string
  mr_RequesterMultiAddress :: string
  mr_TimeSent :: int

record PauseDownloadRequest =
  pr_RequestID :: string
  pr_Status :: bool
  pr_TimeSent :: int

record ErrorMsg =
  em_ErrorMessage :: string
  em_RequestID :: string

record AppState =
  as_SBU_ID :: string
  as_DOWNLOAD_DIRECTORY :: string
  as_FileHashToPath :: "string \<rightharpoonup> string"
  as_IsFileHashProvided :: "string \<rightharpoonup> bool"
  as_DownloadStatus :: "string \<rightharpoonup> bool"
  as_LastDownloadStatus :: int
  as_MetadataResponse :: "string \<rightharpoonup> FileDataHeader"
  as_DownloadHistory :: "string \<rightharpoonup> FileTransaction"
  as_FileRequests :: "FileRequest list"
  as_ProvidedFiles :: "FileDataHeader list"

definition zeroHeader :: FileDataHeader where
  "zeroHeader = \<lparr>fh_FileName = '''', fh_FileSize = 0, fh_FileHash = '''', fh_FileExtension = '''',
     fh_Multiaddress = '''', fh_PeerID = '''', fh_Price = Fin 0, fh_MiningAddress = '''',
     fh_RequestID = '''', fh_Provided = False\<rparr>"

definition zeroTransaction :: FileTransaction where
  "zeroTransaction = \<lparr>ft_RequestID = '''', ft_FileHash = '''', ft_FileMetaData = zeroHeader,
     ft_DownloadProgress = Fin 0, ft_DownloadSpeed = Fin 0, ft_DownloadStart = 0,
     ft_RemainingTime = '''', ft_BytesDownloaded = 0\<rparr>"

subsection \<open>The node\<close>

text \<open>What the node does to the outside: dialling a peer, opening a stream, writing to a stream,
  storing a DHT record, announcing a DHT key, paying through the wallet server, reserving a slot on the
  relay, printing on the terminal.\<close>

datatype effect =
    Dial string
  | Open string string
  | Write string string bytes
  | DhtPut string bytes
  | DhtProvide string
  | Pay string string
  | Reserve
  | Print string

record node =
  SBU_ID :: string
  DOWNLOAD_DIRECTORY :: string
  fileHashToPath :: "string \<rightharpoonup> string"
  isFileHashProvided :: "string \<rightharpoonup> bool"
  downloadStatus :: "string \<rightharpoonup> bool"
  lastDownloadStatus :: int
  metadataResponse :: "string \<rightharpoonup> FileDataHeader"
  downloadHistory :: "string \<rightharpoonup> FileTransaction"
  fileRequests :: "FileRequest list"
  providedFiles :: "FileDataHeader list"
  disk :: "string \<rightharpoonup> bytes"
  effects :: "effect list"

text \<open>The initial values of the package variables; \<open>main\<close> assigns them again.\<close>

definition initNode :: "string \<Rightarrow> (string \<rightharpoonup> bytes) \<Rightarrow> node" where
  "initNode sbu d = \<lparr>SBU_ID = sbu, DOWNLOAD_DIRECTORY = ''downloadstation'',
     fileHashToPath = Map.empty, isFileHashProvided = Map.empty, downloadStatus = Map.empty,
     lastDownloadStatus = 0, metadataResponse = Map.empty, downloadHistory = Map.empty,
     fileRequests = [], providedFiles = [], disk = d, effects = []\<rparr>"

subsection \<open>The environment\<close>

text \<open>One step of an incremental gob decoder on the bytes it has buffered: it wants more, it has a
  header that used the given number of bytes, or the bytes are not a gob encoding.\<close>

datatype gob_result = NeedMore | Done FileDataHeader nat | Bad string

record p2p =
  peerID :: string
  nodeAddrs :: "string list"
  relayAddrErr :: "string option"
  circuit_ok :: "string \<Rightarrow> bool"
  addrInfoErr :: "string \<Rightarrow> string option"
  connectErr :: "nat \<Rightarrow> string \<Rightarrow> string option"
  streamErr :: "nat \<Rightarrow> string \<Rightarrow> string \<Rightarrow> string option"
  writeErr :: "nat \<Rightarrow> string \<Rightarrow> string \<Rightarrow> string option"
  closeErr :: "string \<Rightarrow> string \<Rightarrow> string option"
  jsonFileRequest :: "FileRequest \<Rightarrow> bytes outcome"
  unjsonFileRequest :: "bytes \<Rightarrow> FileRequest outcome"
  jsonMetaRequest :: "MetaDataRequest \<Rightarrow> bytes outcome"
  jsonPause :: "PauseDownloadRequest \<Rightarrow> bytes outcome"
  unjsonPause :: "bytes \<Rightarrow> PauseDownloadRequest outcome"
  jsonError :: "ErrorMsg \<Rightarrow> bytes outcome"
  unjsonError :: "bytes \<Rightarrow> ErrorMsg outcome"
  jsonHeader :: "FileDataHeader \<Rightarrow> bytes outcome"
  gobHeader :: "FileDataHeader \<Rightarrow> bytes outcome"
  gobParse :: "bytes \<Rightarrow> gob_result"
  jsonState :: "AppState \<Rightarrow> bytes \<times> string option"
  unjsonState :: "bytes \<Rightarrow> AppState outcome"
  openErr :: "string \<Rightarrow> string option"
  createErr :: "string \<Rightarrow> string option"
  readErr :: "string \<Rightarrow> nat \<Rightarrow> string option"
  fileWriteErr :: "nat \<Rightarrow> string option"
  copyErr :: "string \<Rightarrow> string option"

definition log_effect :: "effect \<Rightarrow> node \<Rightarrow> node" where
  "log_effect e s = s\<lparr>effects := effects s @ [e]\<rparr>"

lemma log_effect_fields [simp]:
  "effects (log_effect e s) = effects s @ [e]"
  "SBU_ID (log_effect e s) = SBU_ID s"
  "DOWNLOAD_DIRECTORY (log_effect e s) = DOWNLOAD_DIRECTORY s"
  "fileHashToPath (log_effect e s) = fileHashToPath s"
  "isFileHashProvided (log_effect e s) = isFileHashProvided s"
  "downloadStatus (log_effect e s) = downloadStatus s"
  "lastDownloadStatus (log_effect e s) = lastDownloadStatus s"
  "metadataResponse (log_effect e s) = metadataResponse s"
  "downloadHistory (log_effect e s) = downloadHistory s"
  "fileRequests (log_effect e s) = fileRequests s"
  "providedFiles (log_effect e s) = providedFiles s"
  "disk (log_effect e s) = disk s"
  by (simp_all add: log_effect_def)

text \<open>\<open>os.Open\<close> and \<open>os.Create\<close>; a path that cannot be opened fails, creating a file truncates it.\<close>

definition open_file :: "p2p \<Rightarrow> string \<Rightarrow> (node, bytes) act" where
  "open_file env p s = (case openErr env p of
      Some e \<Rightarrow> (Err e, s)
    | None \<Rightarrow> (case disk s (resolve p) of
        None \<Rightarrow> (Err (''open '' @ p @ '': no such file or directory''), s)
      | Some c \<Rightarrow> (Ok c, s)))"

definition create_file :: "p2p \<Rightarrow> string \<Rightarrow> (node, unit) act" where
  "create_file env p s = (case createErr env p of
      Some e \<Rightarrow> (Err e, s)
    | None \<Rightarrow> (Ok (), s\<lparr>disk := (disk s)(resolve p \<mapsto> [])\<rparr>))"

text \<open>\<open>file.Write\<close> appends to what this handle has written since it created the file.\<close>

definition write_file :: "string \<Rightarrow> bytes \<Rightarrow> node \<Rightarrow> node" where
  "write_file p bs s = s\<lparr>disk := (disk s)(resolve p \<mapsto> map_get [] (disk s) (resolve p) @ bs)\<rparr>"

text \<open>Network calls ask the environment with the number of effects so far.\<close>

definition attempt :: "(nat \<Rightarrow> string option) \<Rightarrow> (node, unit) act" where
  "attempt f s = (case f (length (effects s)) of None \<Rightarrow> (Ok (), s) | Some e \<Rightarrow> (Err e, s))"

definition addr0 :: "p2p \<Rightarrow> (node, string) act" where
  "addr0 env = (case nodeAddrs env of
      [] \<Rightarrow> panic_act ''runtime error: index out of range [0] with length 0''
    | a # _ \<Rightarrow> ret_act a)"

end
