(* ===== verification/Bitshare_Net.thy ===== *)
theory Bitshare_Net
  imports Bitshare_Types
begin

text \<open>
  The peer-to-peer messages of the file-sharing node: \<open>createStream\<close> and every sender of
  \<open>src/fileshare/bitshare.go\<close> but the file transfer itself, \<open>connectToNodeUsingRelay\<close> of
  \<open>src/fileshare/main.go\<close>, and the stream handlers that do not move file data.  A handler is a
  function of what arrived on its stream: the bytes \<open>io.ReadAll\<close> returned, or its error.
  The lemmas show what each call may do to the node (nothing but append to the effects) and where a
  peer identity that is no multiaddress makes the call panic.
\<close>

subsection \<open>Connecting\<close>

definition connectToNodeUsingRelay :: "p2p \<Rightarrow> string \<Rightarrow> (node, unit) act" where
  "connectToNodeUsingRelay env targetPeerID =
    (let tid = trim_space targetPeerID in
     bind_act (wrap_err ''failed to create relay multiaddr: '' (lift_err (relayAddrErr env))) (\<lambda>_.
     if \<not> circuit_ok env tid then panic_act (''failed to parse multiaddr /p2p-circuit/p2p/'' @ tid)
     else
     bind_act (wrap_err ''failed to get relayed AddrInfo: '' (lift_err (addrInfoErr env tid))) (\<lambda>_.
     bind_act (upd_act (log_effect (Dial tid))) (\<lambda>_.
     wrap_err ''failed to connect to peer through relay: ''
       (attempt (\<lambda>n. connectErr env n tid))))))"

definition createStream :: "p2p \<Rightarrow> string \<Rightarrow> string \<Rightarrow> (node, string \<times> string) act" where
  "createStream env targetNodeId proto =
    (let tid = trim_space targetNodeId in
     bind_act (wrap_err ''failed to create relay multiaddr: '' (lift_err (relayAddrErr env))) (\<lambda>_.
     if \<not> circuit_ok env tid then panic_act (''failed to parse multiaddr /p2p-circuit/p2p/'' @ tid)
     else
     bind_act (wrap_err ''failed to parse peer address: '' (lift_err (addrInfoErr env tid))) (\<lambda>_.
     bind_act (upd_act (log_effect (Dial tid))) (\<lambda>_.
     bind_act (wrap_err (''failed to connect to peer '' @ tid @ '' via relay: '')
       (attempt (\<lambda>n. connectErr env n tid))) (\<lambda>_.
     bind_act (wrap_err (''failed to open stream to '' @ tid @ '': '')
       (attempt (\<lambda>n. streamErr env n tid proto))) (\<lambda>_.
     bind_act (upd_act (log_effect (Open tid proto))) (\<lambda>_. ret_act (tid, proto))))))))"

definition stream_write :: "p2p \<Rightarrow> string \<times> string \<Rightarrow> bytes \<Rightarrow> (node, unit) act" where
  "stream_write env st bs =
    bind_act (attempt (\<lambda>n. writeErr env n (fst st) (snd st)))
      (\<lambda>_. upd_act (log_effect (Write (fst st) (snd st) bs)))"

subsection \<open>Senders\<close>

text \<open>The common shape of a sender: open the stream, encode the message, write it; every error gets
  the sender's prefix.\<close>

definition send_message ::
  "p2p \<Rightarrow> string \<Rightarrow> string \<Rightarrow> string \<Rightarrow> bytes outcome \<Rightarrow> (node, unit) act" where
  "send_message env pre target proto enc =
    wrap_err pre
      (bind_act (createStream env target proto) (\<lambda>st.
       bind_act (lift_out enc) (\<lambda>bs. stream_write env st bs)))"

definition sendFileNotFoundToPeer :: "p2p \<Rightarrow> string \<Rightarrow> string \<Rightarrow> (node, unit) act" where
  "sendFileNotFoundToPeer env targetNodeId requestID =
    send_message env ''sendFileNotFoundToPeer: '' targetNodeId ''/error/p2p''
      (jsonError env \<lparr>em_ErrorMessage = ''File not found'', em_RequestID = requestID\<rparr>)"

definition sendFileNotCurrentlyProvidedToPeer :: "p2p \<Rightarrow> string \<Rightarrow> string \<Rightarrow> (node, unit) act" where
  "sendFileNotCurrentlyProvidedToPeer env targetNodeId requestID =
    send_message env ''sendFileNotCurrentlyProvided: '' targetNodeId ''/senddata/p2p''
      (jsonHeader env (zeroHeader\<lparr>fh_RequestID := requestID,
                                   fh_FileHash := ''FILE NOT CURRENTLY PROVIDED''\<rparr>))"

definition sendInsufficientFundsToPeer :: "p2p \<Rightarrow> string \<Rightarrow> (node, unit) act" where
  "sendInsufficientFundsToPeer env targetNodeId =
    send_message env ''sendInsufficientFundsToPeer: '' targetNodeId ''/sendmessage/p2p''
      (jsonError env \<lparr>em_ErrorMessage = ''Insufficient funds'', em_RequestID = ''''\<rparr>)"

text \<open>The two prefixes of this sender differ in the source: opening the stream and the later steps.\<close>

definition sendNodeStoppedProvidingFileToPeer :: "p2p \<Rightarrow> string \<Rightarrow> (node, unit) act" where
  "sendNodeStoppedProvidingFileToPeer env targetNodeId =
    bind_act (wrap_err ''sendNodeStoppedProvidingFileToPeer: ''
      (createStream env targetNodeId ''/sendmessage/p2p'')) (\<lambda>st.
    wrap_err ''sendUserStoppedProvidingFileToPeer: ''
      (bind_act (lift_out (jsonError env
         \<lparr>em_ErrorMessage = ''Node stopped providing file'', em_RequestID = ''''\<rparr>))
       (\<lambda>bs. stream_write env st bs)))"

definition sendTransactionErrorToPeer :: "p2p \<Rightarrow> string \<Rightarrow> (node, unit) act" where
  "sendTransactionErrorToPeer env targetNodeId =
    send_message env ''sendTransactionErrorToPeer: '' targetNodeId ''/sendmessage/p2p''
      (jsonError env \<lparr>em_ErrorMessage = ''Transaction error'', em_RequestID = ''''\<rparr>)"

definition sendFileRequestToPeer ::
  "p2p \<Rightarrow> int \<Rightarrow> string \<Rightarrow> string \<Rightarrow> string \<Rightarrow> (node, unit) act" where
  "sendFileRequestToPeer env now targetNodeId fileHash requestID =
    bind_act (wrap_err ''sendFileRequestToPeer: '' (createStream env targetNodeId ''/sendmessage/p2p''))
    (\<lambda>st. bind_act (addr0 env) (\<lambda>a.
      bind_act (wrap_err ''sendFileRequestToPeer:  '' (lift_out (jsonFileRequest env
        \<lparr>fr_RequestID = requestID, fr_FileHash = fileHash, fr_RequesterID = peerID env,
         fr_RequesterMultiAddress = a, fr_TimeSent = now, fr_Complete = False\<rparr>)))
      (\<lambda>bs. wrap_err ''sendFileRequestToPeer: '' (stream_write env st bs))))"

definition sendFileMetaDataRequestToPeer :: "p2p \<Rightarrow> int \<Rightarrow> string \<Rightarrow> string \<Rightarrow> (node, unit) act" where
  "sendFileMetaDataRequestToPeer env now targetNodeId fileHash =
    bind_act (wrap_err ''sendFileMetadataRequestToPeer: ''
      (createStream env targetNodeId ''/sendmetadatarequest/p2p''))
    (\<lambda>st. bind_act (addr0 env) (\<lambda>a.
      bind_act (wrap_err ''sendFileMetadataRequestToPeer:  '' (lift_out (jsonMetaRequest env
        \<lparr>mr_FileHash = fileHash, mr_RequesterID = peerID env,
         mr_RequesterMultiAddress = a, mr_TimeSent = now\<rparr>)))
      (\<lambda>bs. wrap_err ''sendFileMetadataRequestToPeer: '' (stream_write env st bs))))"

definition sendPauseRequestToPeer ::
  "p2p \<Rightarrow> int \<Rightarrow> string \<Rightarrow> string \<Rightarrow> bool \<Rightarrow> (node, unit) act" where
  "sendPauseRequestToPeer env now targetNodeId requestID status =
    send_message env ''sendPauseRequestToPeer: '' targetNodeId ''/sendpause/p2p''
      (jsonPause env \<lparr>pr_RequestID = requestID, pr_Status = status, pr_TimeSent = now\<rparr>)"

text \<open>The metadata of a hash is the last matching entry of \<open>providedFiles\<close>, or the zero header.\<close>

fun find_header :: "string \<Rightarrow> FileDataHeader \<Rightarrow> FileDataHeader list \<Rightarrow> FileDataHeader" where
  "find_header h acc [] = acc"
| "find_header h acc (x # xs) = find_header h (if fh_FileHash x = h then x else acc) xs"

definition sendFileMetaDataToPeer ::
  "p2p \<Rightarrow> string \<Rightarrow> string \<Rightarrow> string \<Rightarrow> (node, unit) act" where
  "sendFileMetaDataToPeer env targetNodeId filepath filehash =
    wrap_err ''sendFileMetaDataToPeer: ''
      (bind_act (createStream env targetNodeId ''/sendmetadata/p2p'') (\<lambda>st.
       bind_act (get_act (\<lambda>s. (find_header filehash zeroHeader (providedFiles s))
                 \<lparr>fh_Provided := map_get False (isFileHashProvided s) filehash\<rparr>)) (\<lambda>h.
       bind_act (lift_out (gobHeader env h)) (\<lambda>bs.
       bind_act (stream_write env st bs) (\<lambda>_.
       lift_err (closeErr env (fst st) (snd st)))))))"

subsection \<open>Stream handlers\<close>

definition receiveFileMetaDataRequests :: "p2p \<Rightarrow> bytes outcome \<Rightarrow> (node, unit) act" where
  "receiveFileMetaDataRequests env data =
    ignore_err (bind_act (lift_out data) (\<lambda>bs.
      bind_act (lift_out (unjsonFileRequest env bs)) (\<lambda>req.
      bind_act (get_act (\<lambda>s. fileHashToPath s (fr_FileHash req))) (\<lambda>path.
      case path of
        None \<Rightarrow> sendFileNotFoundToPeer env (fr_RequesterID req) (fr_RequestID req)
      | Some p \<Rightarrow> sendFileMetaDataToPeer env (fr_RequesterID req) p (fr_FileHash req)))))"

definition receivePauseDownload :: "p2p \<Rightarrow> bytes outcome \<Rightarrow> (node, unit) act" where
  "receivePauseDownload env data =
    ignore_err (bind_act (lift_out data) (\<lambda>bs.
      bind_act (lift_out (unjsonPause env bs)) (\<lambda>req.
      upd_act (\<lambda>s. s\<lparr>downloadStatus := (downloadStatus s)(pr_RequestID req \<mapsto> pr_Status req)\<rparr>))))"

definition receiveErrorMessages :: "p2p \<Rightarrow> bytes outcome \<Rightarrow> (node, unit) act" where
  "receiveErrorMessages env data =
    ignore_err (bind_act (lift_out data) (\<lambda>bs.
      bind_act (lift_out (unjsonError env bs)) (\<lambda>_. ret_act ())))"

text \<open>The decoder of \<open>encoding/gob\<close> wraps a stream that is no byte reader in a \<open>bufio.Reader\<close> of 4096
  bytes: it asks the stream for up to 4096 bytes at a time and keeps what it does not use.  The
  stream is the list of segments its reads deliver, \<open>fin\<close> how it ends (\<open>None\<close> is \<open>io.EOF\<close>).\<close>

definition rest_segs :: "nat \<Rightarrow> bytes \<Rightarrow> bytes list \<Rightarrow> bytes list" where
  "rest_segs n seg segs = (if n < length seg then drop n seg # segs else segs)"

function gob_decode ::
  "(bytes \<Rightarrow> gob_result) \<Rightarrow> string option \<Rightarrow> bytes \<Rightarrow> bytes list
     \<Rightarrow> (FileDataHeader \<times> bytes list) outcome" where
  "gob_decode parse fin buf segs = (case parse buf of
      Done h k \<Rightarrow> Ok (h, segs)
    | Bad e \<Rightarrow> Err e
    | NeedMore \<Rightarrow> (case segs of
        [] \<Rightarrow> Err (case fin of None \<Rightarrow> ''EOF'' | Some e \<Rightarrow> e)
      | seg # ss \<Rightarrow> gob_decode parse fin (buf @ take 4096 seg) (rest_segs 4096 seg ss)))"
  by pat_completeness auto
termination
  by (relation "measure (\<lambda>(parse, fin, buf, segs). length (concat segs) + length segs)")
    (auto simp: rest_segs_def)

declare gob_decode.simps [simp del]

definition receiveFileMetaData :: "p2p \<Rightarrow> bytes list \<Rightarrow> string option \<Rightarrow> (node, unit) act" where
  "receiveFileMetaData env segs fin =
    ignore_err (bind_act (lift_out (gob_decode (gobParse env) fin [] segs)) (\<lambda>(h, _).
      upd_act (\<lambda>s. s\<lparr>metadataResponse :=
        (metadataResponse s)(fh_FileHash h @ fh_PeerID h \<mapsto> h)\<rparr>)))"

subsection \<open>What a sender may do\<close>

text \<open>\<open>talks t ps s s'\<close>: from \<open>s\<close> to \<open>s'\<close> the node has only dialled \<open>t\<close>, opened streams to \<open>t\<close> with a
  protocol of \<open>ps\<close> and written to them; no field of the node but the effects has changed.\<close>

definition talk_effect :: "string \<Rightarrow> string set \<Rightarrow> effect \<Rightarrow> bool" where
  "talk_effect t ps e = (case e of Dial u \<Rightarrow> u = t | Open u p \<Rightarrow> u = t \<and> p \<in> ps
     | Write u p _ \<Rightarrow> u = t \<and> p \<in> ps | _ \<Rightarrow> False)"

definition talks :: "string \<Rightarrow> string set \<Rightarrow> node \<Rightarrow> node \<Rightarrow> bool" where
  "talks t ps s s' \<longleftrightarrow>
     (\<exists>es. s' = s\<lparr>effects := effects s @ es\<rparr> \<and> (\<forall>e \<in> set es. talk_effect t ps e))"

lemma talks_log: "talk_effect t ps e \<Longrightarrow> talks t ps s (log_effect e s)"
  by (auto simp: talks_def log_effect_def intro!: exI [of _ "[e]"])

lemma talks_refl: "talks t ps s s"
  by (auto simp: talks_def intro!: exI [of _ "[]"])

lemma talks_trans:
  assumes "talks t ps s u" and "talks t ps u v"
  shows "talks t ps s v"
proof -
  obtain es fs where "u = s\<lparr>effects := effects s @ es\<rparr>" "\<forall>e \<in> set es. talk_effect t ps e"
    and "v = u\<lparr>effects := effects u @ fs\<rparr>" "\<forall>e \<in> set fs. talk_effect t ps e"
    using assms by (auto simp: talks_def)
  then show ?thesis by (auto simp: talks_def intro!: exI [of _ "es @ fs"])
qed

interpretation talk: frame_relation "talks t ps" for t ps
  by unfold_locales (auto intro: talks_refl talks_trans)

lemma talk_effect_mono: "talk_effect t ps e \<Longrightarrow> ps \<subseteq> qs \<Longrightarrow> talk_effect t qs e"
  by (cases e) (auto simp: talk_effect_def)

lemma talks_mono: "talks t ps s s' \<Longrightarrow> ps \<subseteq> qs \<Longrightarrow> talks t qs s s'"
  unfolding talks_def using talk_effect_mono by blast

lemma rel_attempt: "act_rel (talks t ps) (attempt f)"
  by (auto simp: act_rel_def attempt_def talks_refl split: option.split)

lemma rel_addr0: "act_rel (talks t ps) (addr0 env)"
  unfolding addr0_def by (cases "nodeAddrs env") (auto intro: talk.rel_intros)

lemma rel_connect: "act_rel (talks (trim_space t) ps) (connectToNodeUsingRelay env t)"
  unfolding connectToNodeUsingRelay_def Let_def
  by (auto intro!: talk.rel_intros talk.rel_upd rel_attempt talks_log simp: talk_effect_def)

lemma rel_createStream:
  "p \<in> ps \<Longrightarrow> act_rel (talks (trim_space t) ps) (createStream env t p)"
  unfolding createStream_def Let_def
  by (auto intro!: talk.rel_intros talk.rel_upd rel_attempt talks_log simp: talk_effect_def)

lemma createStream_handle:
  "createStream env t p s = (Ok st, s') \<Longrightarrow> st = (trim_space t, p)"
  by (simp add: createStream_def Let_def bind_act_def act_defs wrap_err_def attempt_def lift_err_def
      split: if_splits option.splits)

lemma rel_stream_write:
  "fst st = t \<Longrightarrow> snd st \<in> ps \<Longrightarrow> act_rel (talks t ps) (stream_write env st bs)"
  unfolding stream_write_def
  by (auto intro!: talk.rel_intros talk.rel_upd rel_attempt talks_log simp: talk_effect_def)

text \<open>A continuation of \<open>createStream\<close> only ever sees the handle of the stream just opened.\<close>

lemma createStream_bind_cong:
  assumes "\<And>s. f (trim_space t, p) s = g (trim_space t, p) s"
  shows "bind_act (createStream env t p) f = bind_act (createStream env t p) g"
proof (rule ext)
  fix s
  show "bind_act (createStream env t p) f s = bind_act (createStream env t p) g s"
    using createStream_handle [of env t p s] assms
    by (cases "createStream env t p s") (auto simp: bind_act_def split: outcome.splits)
qed

lemma rel_createStream_bind:
  assumes "p \<in> ps" and "act_rel (talks (trim_space t) ps) (f (trim_space t, p))"
  shows "act_rel (talks (trim_space t) ps) (bind_act (createStream env t p) f)"
proof -
  have "bind_act (createStream env t p) f =
        bind_act (createStream env t p) (\<lambda>_. f (trim_space t, p))"
    by (rule createStream_bind_cong) simp
  with assms show ?thesis by (simp add: talk.rel_bind rel_createStream)
qed

lemma rel_wrapped_createStream_bind:
  assumes "p \<in> ps" and "act_rel (talks (trim_space t) ps) (f (trim_space t, p))"
  shows "act_rel (talks (trim_space t) ps) (bind_act (wrap_err w (createStream env t p)) f)"
proof -
  have *: "bind_act (wrap_err w (createStream env t p)) f =
        bind_act (wrap_err w (createStream env t p)) (\<lambda>_. f (trim_space t, p))"
    using createStream_handle [of env t p]
    by (fastforce simp: fun_eq_iff bind_act_def wrap_err_def split: prod.splits outcome.splits)
  show ?thesis
    unfolding * using assms by (intro talk.rel_bind talk.rel_wrap rel_createStream) auto
qed

lemmas talk_intros = talk.rel_intros talk.rel_upd rel_attempt rel_addr0 rel_stream_write

lemma rel_send_message:
  "p \<in> ps \<Longrightarrow> act_rel (talks (trim_space t) ps) (send_message env pre t p enc)"
  unfolding send_message_def
  by (intro talk.rel_wrap rel_createStream_bind) (auto intro!: talk_intros)

lemma rel_senders:
  "act_rel (talks (trim_space t) {''/error/p2p''}) (sendFileNotFoundToPeer env t r)"
  "act_rel (talks (trim_space t) {''/senddata/p2p''}) (sendFileNotCurrentlyProvidedToPeer env t r)"
  "act_rel (talks (trim_space t) {''/sendmessage/p2p''}) (sendInsufficientFundsToPeer env t)"
  "act_rel (talks (trim_space t) {''/sendmessage/p2p''}) (sendTransactionErrorToPeer env t)"
  "act_rel (talks (trim_space t) {''/sendpause/p2p''}) (sendPauseRequestToPeer env now t r b)"
  unfolding sendFileNotFoundToPeer_def sendFileNotCurrentlyProvidedToPeer_def
    sendInsufficientFundsToPeer_def sendTransactionErrorToPeer_def sendPauseRequestToPeer_def
  by (simp_all add: rel_send_message)

lemma rel_sendStopped:
  "act_rel (talks (trim_space t) {''/sendmessage/p2p''}) (sendNodeStoppedProvidingFileToPeer env t)"
  unfolding sendNodeStoppedProvidingFileToPeer_def
  by (intro rel_wrapped_createStream_bind) (auto intro!: talk_intros)

lemma rel_sendRequests:
  "act_rel (talks (trim_space t) {''/sendmessage/p2p''}) (sendFileRequestToPeer env now t h r)"
  "act_rel (talks (trim_space t) {''/sendmetadatarequest/p2p''})
     (sendFileMetaDataRequestToPeer env now t h)"
  unfolding sendFileRequestToPeer_def sendFileMetaDataRequestToPeer_def
  by (rule rel_wrapped_createStream_bind; auto intro!: talk_intros)+

lemma rel_sendMetaData:
  "act_rel (talks (trim_space t) {''/sendmetadata/p2p''}) (sendFileMetaDataToPeer env t p h)"
  unfolding sendFileMetaDataToPeer_def
  by (intro talk.rel_wrap rel_createStream_bind) (auto intro!: talk_intros)

end
