(* ===== verification/Bitshare_Transfer.thy ===== *)
theory Bitshare_Transfer
  imports Bitshare_Net "HOL-Library.Sublist"
begin

text \<open>
  The transfer of a file between two nodes: \<open>sendFileToPeer\<close> with its pause loop,
  \<open>receiveFileRequests\<close>, \<open>receiveFileData\<close> (\<open>src/fileshare/bitshare.go\<close>) and \<open>copyFromContainer\<close>
  (\<open>src/fileshare/utils.go\<close>).  The sender's pause loop reads \<open>downloadStatus[requestID]\<close>, which other
  goroutines change: its successive values are the argument \<open>polls\<close>, and a sender that has read all
  of them without finishing is \<open>Blocked\<close>.  The receiver's stream is the list of segments its reads
  deliver; \<open>clock i\<close> is the time after the i-th read.

  The lemmas show that the sender writes the file and nothing else, in pieces of at most 1024 bytes,
  that it finishes when it is polled as running often enough, and which bytes the receiver stores.
\<close>

subsection \<open>The sender\<close>

fun sendLoop ::
  "p2p \<Rightarrow> string \<times> string \<Rightarrow> string \<Rightarrow> nat \<Rightarrow> bytes \<Rightarrow> bool list \<Rightarrow> (node, unit) act" where
  "sendLoop env st path off rest [] = blocked_act"
| "sendLoop env st path off rest (p # ps) =
    (if \<not> p then sendLoop env st path off rest ps
     else (case readErr env path off of
       Some e \<Rightarrow> fail_act (''sendFileToPeer: failed to read file: '' @ e)
     | None \<Rightarrow> if rest = [] then ret_act ()
         else bind_act (wrap_err ''sendFileToPeer: failed to write buffer to stream: ''
                (stream_write env st (take 1024 rest)))
              (\<lambda>_. sendLoop env st path (off + 1024) (drop 1024 rest) ps)))"

definition sendFileToPeer ::
  "p2p \<Rightarrow> bool list \<Rightarrow> string \<Rightarrow> string \<Rightarrow> string \<Rightarrow> string \<Rightarrow> (node, unit) act" where
  "sendFileToPeer env polls targetNodeId filepath filehash requestID =
    bind_act (wrap_err ''sendFileToPeer: '' (createStream env targetNodeId ''/senddata/p2p'')) (\<lambda>st.
    bind_act (wrap_err ''sendFileToPeer: '' (open_file env filepath)) (\<lambda>content.
    bind_act (get_act (\<lambda>s. (find_header filehash zeroHeader (providedFiles s))
                \<lparr>fh_RequestID := requestID\<rparr>)) (\<lambda>h.
    bind_act (wrap_err ''sendFileToPeer: ''
      (bind_act (lift_out (gobHeader env h)) (\<lambda>bs. stream_write env st bs))) (\<lambda>_.
    bind_act (sendLoop env st filepath 0 content polls) (\<lambda>_.
    wrap_err ''sendFileToPeer: '' (lift_err (closeErr env (fst st) (snd st))))))))"

definition allowDownload :: "FileRequest \<Rightarrow> node \<Rightarrow> node" where
  "allowDownload req s =
    (if lastDownloadStatus s = 0 \<or> lastDownloadStatus s < fr_TimeSent req
     then s\<lparr>downloadStatus := (downloadStatus s)(fr_RequestID req \<mapsto> True)\<rparr> else s)"

definition receiveFileRequests :: "p2p \<Rightarrow> bool list \<Rightarrow> bytes outcome \<Rightarrow> (node, unit) act" where
  "receiveFileRequests env polls data =
    ignore_err (bind_act (lift_out data) (\<lambda>bs.
      bind_act (lift_out (unjsonFileRequest env bs)) (\<lambda>req.
      bind_act (get_act (\<lambda>s. fileHashToPath s (fr_FileHash req))) (\<lambda>path.
      case path of
        None \<Rightarrow> sendFileNotFoundToPeer env (fr_RequesterID req) (fr_RequestID req)
      | Some p \<Rightarrow>
          bind_act (get_act (\<lambda>s. map_get False (isFileHashProvided s) (fr_FileHash req))) (\<lambda>prov.
          if \<not> prov then
            sendFileNotCurrentlyProvidedToPeer env (fr_RequesterID req) (fr_RequestID req)
          else
            bind_act (upd_act (allowDownload req)) (\<lambda>_.
            sendFileToPeer env polls (fr_RequesterID req) p (fr_FileHash req) (fr_RequestID req)))))))"

subsection \<open>The receiver\<close>

text \<open>The pieces that successive reads with a buffer of \<open>n\<close> bytes return from a stream.\<close>

function reads :: "nat \<Rightarrow> bytes list \<Rightarrow> bytes list" where
  "reads n [] = []"
| "reads n (s # ss) = (if n = 0 \<or> length s \<le> n then s # reads n ss
                       else take n s # reads n (drop n s # ss))"
  by pat_completeness auto
termination
  by (relation "measure (\<lambda>(n, ss). length (concat ss) + length ss)") auto

text \<open>\<open>time.Duration.Seconds\<close>: whole seconds plus the fraction, in \<open>float64\<close>.\<close>

definition duration_seconds :: "int \<Rightarrow> gofloat" where
  "duration_seconds d = fl_add f64 (f64 (of_int (go_div d 1000000000)))
     (fl_div f64 (f64 (of_int (d - 1000000000 * go_div d 1000000000))) (Fin 1000000000))"

definition updateProgress ::
  "FileDataHeader \<Rightarrow> int \<Rightarrow> int \<Rightarrow> int \<Rightarrow> int \<Rightarrow> node \<Rightarrow> node" where
  "updateProgress h cur tot lastT lastB s =
    (let rid = fh_RequestID h;
         ft = map_get zeroTransaction (downloadHistory s) rid;
         speed = fl_div f32 (f32 (of_int (tot - lastB))) (to_f32 (duration_seconds (cur - lastT)))
     in s\<lparr>downloadHistory := (downloadHistory s)(rid \<mapsto> ft\<lparr>
            ft_BytesDownloaded := tot,
            ft_DownloadSpeed := fl_div f32 speed (Fin 1048576),
            ft_DownloadProgress := fl_div f32 (f32 (of_int tot)) (f32 (of_int (fh_FileSize h)))\<rparr>)\<rparr>)"

fun recvLoop ::
  "p2p \<Rightarrow> FileDataHeader \<Rightarrow> string \<Rightarrow> (nat \<Rightarrow> int) \<Rightarrow> string option \<Rightarrow> nat \<Rightarrow> bytes list
     \<Rightarrow> int \<Rightarrow> int \<Rightarrow> int \<Rightarrow> (node, int) act" where
  "recvLoop env h path clock fin i [] tot lastT lastB =
    (case fin of None \<Rightarrow> ret_act tot | Some e \<Rightarrow> fail_act e)"
| "recvLoop env h path clock fin i (b # bs) tot lastT lastB =
    bind_act (lift_err (fileWriteErr env i)) (\<lambda>_.
    bind_act (upd_act (write_file path b)) (\<lambda>_.
    (let cur = clock i; tot' = tot + int (length b) in
     if cur - lastT \<ge> 1000000000
     then bind_act (upd_act (updateProgress h cur tot' lastT lastB)) (\<lambda>_.
            recvLoop env h path clock fin (Suc i) bs tot' cur tot')
     else recvLoop env h path clock fin (Suc i) bs tot' lastT lastB)))"

fun markComplete :: "string \<Rightarrow> FileRequest list \<Rightarrow> FileRequest list" where
  "markComplete rid [] = []"
| "markComplete rid (x # xs) =
    (if fr_RequestID x = rid then x\<lparr>fr_Complete := True\<rparr> # xs else x # markComplete rid xs)"

definition finishDownload :: "FileDataHeader \<Rightarrow> int \<Rightarrow> node \<Rightarrow> node" where
  "finishDownload h tot s =
    (let rid = fh_RequestID h; ft = map_get zeroTransaction (downloadHistory s) rid
     in s\<lparr>downloadHistory := (downloadHistory s)(rid \<mapsto>
            ft\<lparr>ft_DownloadProgress := Fin 1, ft_BytesDownloaded := tot\<rparr>),
          fileRequests := markComplete rid (fileRequests s)\<rparr>)"

definition copyFromContainer :: "p2p \<Rightarrow> string \<Rightarrow> string \<Rightarrow> (node, unit) act" where
  "copyFromContainer env sourcePath filename =
    bind_act (open_file env sourcePath) (\<lambda>c.
    let destPath = resolve (''/downloads/'' @ filename) in
    bind_act (create_file env destPath) (\<lambda>_.
    bind_act (lift_err (copyErr env filename)) (\<lambda>_. upd_act (write_file destPath c))))"

definition startDownload :: "FileDataHeader \<Rightarrow> int \<Rightarrow> node \<Rightarrow> node" where
  "startDownload h now s = s\<lparr>downloadHistory := (downloadHistory s)(fh_RequestID h \<mapsto>
     \<lparr>ft_RequestID = fh_RequestID h, ft_FileHash = fh_FileHash h, ft_FileMetaData = h,
      ft_DownloadProgress = Fin 0, ft_DownloadSpeed = Fin 0, ft_DownloadStart = now,
      ft_RemainingTime = '''', ft_BytesDownloaded = 0\<rparr>)\<rparr>"

definition notProvided :: "FileDataHeader \<Rightarrow> node \<Rightarrow> node" where
  "notProvided h s = s\<lparr>downloadHistory := (downloadHistory s)(fh_RequestID h \<mapsto>
     zeroTransaction\<lparr>ft_RequestID := fh_RequestID h, ft_FileHash := fh_FileHash h\<rparr>)\<rparr>"

definition storeDownload ::
  "p2p \<Rightarrow> FileDataHeader \<Rightarrow> int \<Rightarrow> int \<Rightarrow> (nat \<Rightarrow> int) \<Rightarrow> bytes list \<Rightarrow> string option
     \<Rightarrow> (node, unit) act" where
  "storeDownload env h now startTime clock segs fin =
    bind_act (upd_act (startDownload h now)) (\<lambda>_.
    bind_act (get_act (\<lambda>s. DOWNLOAD_DIRECTORY s)) (\<lambda>dir.
    bind_act (create_file env (dir @ ''/'' @ fh_FileName h)) (\<lambda>_.
    bind_act (recvLoop env h (dir @ ''/'' @ fh_FileName h) clock fin 0 (reads 1024 segs)
                0 startTime 0) (\<lambda>tot.
    bind_act (upd_act (finishDownload h tot)) (\<lambda>_.
    copyFromContainer env (''/'' @ dir @ ''/'' @ fh_FileName h) (fh_FileName h))))))"

definition receiveFileData ::
  "p2p \<Rightarrow> int \<Rightarrow> int \<Rightarrow> (nat \<Rightarrow> int) \<Rightarrow> bytes list \<Rightarrow> string option \<Rightarrow> (node, unit) act" where
  "receiveFileData env now startTime clock segs fin =
    ignore_err (bind_act (lift_out (gob_decode (gobParse env) fin [] segs)) (\<lambda>(h, segs').
      if fh_FileHash h = ''FILE NOT CURRENTLY PROVIDED'' then upd_act (notProvided h)
      else storeDownload env h now startTime clock segs' fin))"

subsection \<open>Messages on the wire\<close>

fun msgs :: "effect list \<Rightarrow> (string \<times> string \<times> bytes) list" where
  "msgs [] = []"
| "msgs (Write t p b # es) = (t, p, b) # msgs es"
| "msgs (_ # es) = msgs es"

lemma msgs_append [simp]: "msgs (es @ fs) = msgs es @ msgs fs"
  by (induction es rule: msgs.induct) auto

lemma msgs_map_Write [simp]: "msgs (map (Write t p) bs) = map (\<lambda>b. (t, p, b)) bs"
  by (induction bs) auto

lemma attempt_cases:
  "attempt f s = (r, s') \<Longrightarrow> s' = s \<and> (r = Ok () \<and> f (length (effects s)) = None \<or>
     (\<exists>e. r = Err e \<and> f (length (effects s)) = Some e))"
  by (auto simp: attempt_def split: option.splits)

lemma createStream_state:
  assumes "createStream env t p s = (r, s')"
  shows "s' = s\<lparr>effects := effects s'\<rparr> \<and> msgs (effects s') = msgs (effects s)"
  using assms
  by (simp add: createStream_def Let_def bind_act_def act_defs wrap_err_def attempt_def lift_err_def
      log_effect_def split: if_splits option.splits) (auto simp: log_effect_def)

lemma stream_write_cases:
  assumes "stream_write env st bs s = (r, s')"
  shows "(r = Ok () \<and> s' = log_effect (Write (fst st) (snd st) bs) s) \<or> (\<exists>e. r = Err e \<and> s' = s)"
  using assms
  by (auto simp: stream_write_def bind_act_def act_defs attempt_def split: option.splits)

text \<open>A sender that answers \<open>Ok\<close> has written its message once; any other outcome has written none.\<close>

lemma send_message_msgs:
  assumes "send_message env pre t p enc s = (r, s')"
  shows "s' = s\<lparr>effects := effects s'\<rparr> \<and>
    msgs (effects s') = msgs (effects s) @
      (case (r, enc) of (Ok _, Ok bs) \<Rightarrow> [(trim_space t, p, bs)] | _ \<Rightarrow> []) \<and>
    (r = Ok () \<longrightarrow> (\<exists>bs. enc = Ok bs))"
proof -
  obtain r1 s1 where c: "createStream env t p s = (r1, s1)" by fastforce
  have st: "s1 = s\<lparr>effects := effects s1\<rparr>" "msgs (effects s1) = msgs (effects s)"
    using createStream_state [OF c] by auto
  show ?thesis
  proof (cases "\<exists>x bs. r1 = Ok x \<and> enc = Ok bs")
    case True
    then obtain bs where r1: "r1 = Ok (trim_space t, p)" and enc: "enc = Ok bs"
      using createStream_handle c by blast
    obtain r2 s2 where w: "stream_write env (trim_space t, p) bs s1 = (r2, s2)" by fastforce
    have res: "(r, s') = (case r2 of Err e \<Rightarrow> Err (pre @ e) | _ \<Rightarrow> r2, s2)"
      using assms c r1 enc w
      by (cases r2) (auto simp: send_message_def wrap_err_def bind_act_def act_defs)
    show ?thesis
      using stream_write_cases [OF w] res st enc
      by (auto simp: log_effect_def) (metis node.select_convs(12) node.surjective node.update_convs(12))+
  next
    case False
    then show ?thesis
      using assms c st
      by (cases r1; cases enc) (auto simp: send_message_def wrap_err_def bind_act_def act_defs)
  qed
qed

subsection \<open>The sender writes the file\<close>

function chunks :: "bytes \<Rightarrow> bytes list" where
  "chunks xs = (if xs = [] then [] else take 1024 xs # chunks (drop 1024 xs))"
  by pat_completeness auto
termination by (relation "measure length") auto

declare chunks.simps [simp del]

lemma chunks_Nil [simp]: "chunks [] = []"
  by (simp add: chunks.simps)

lemma chunks_Cons: "xs \<noteq> [] \<Longrightarrow> chunks xs = take 1024 xs # chunks (drop 1024 xs)"
  by (simp add: chunks.simps [of xs])

lemma concat_chunks [simp]: "concat (chunks xs) = xs"
  by (induction xs rule: chunks.induct) (metis append_take_drop_id chunks.simps concat.simps)

lemma chunks_bounds: "b \<in> set (chunks xs) \<Longrightarrow> b \<noteq> [] \<and> length b \<le> 1024"
proof (induction xs rule: chunks.induct)
  case (1 xs)
  then show ?case by (cases "xs = []") (auto simp: chunks_Cons)
qed

lemma length_chunks: "length (chunks xs) = (length xs + 1023) div 1024"
proof (induction xs rule: chunks.induct)
  case (1 xs)
  show ?case
  proof (cases "xs = []")
    case False
    then have "length (chunks xs) = Suc (length (chunks (drop 1024 xs)))"
      by (simp add: chunks_Cons)
    also have "\<dots> = Suc ((length xs - 1024 + 1023) div 1024)" using "1.IH" False by simp
    also have "\<dots> = (length xs + 1023) div 1024"
    proof (cases "length xs \<le> 1024")
      case True
      moreover have "1 \<le> length xs" using False by (cases xs) auto
      ultimately have "(length xs + 1023) div 1024 = 1" by (simp add: div_nat_eqI)
      with True show ?thesis by simp
    next
      case False
      then obtain m where "length xs = 1024 + m" by (metis le_iff_add nat_le_linear)
      then show ?thesis by simp
    qed
    finally show ?thesis .
  qed simp
qed

lemma sendLoop_prefix:
  assumes "sendLoop env st path off rest polls s = (r, s')"
  shows "\<exists>k. s' = s\<lparr>effects := effects s @ map (Write (fst st) (snd st)) (take k (chunks rest))\<rparr> \<and>
    (r = Ok () \<longrightarrow> length (chunks rest) \<le> k)"
  using assms
proof (induction polls arbitrary: off rest s)
  case Nil
  then show ?case by (auto simp: act_defs intro!: exI [of _ 0])
next
  case (Cons p ps)
  show ?case
  proof (cases "p \<and> readErr env path off = None \<and> rest \<noteq> []")
    case False
    then show ?thesis
      using Cons by (auto simp: act_defs split: if_splits option.splits intro!: exI [of _ 0])
  next
    case True
    obtain r1 s1 where w: "stream_write env st (take 1024 rest) s = (r1, s1)" by fastforce
    from stream_write_cases [OF w] show ?thesis
    proof
      assume ok: "r1 = Ok () \<and> s1 = log_effect (Write (fst st) (snd st) (take 1024 rest)) s"
      with Cons.prems True w
      have "sendLoop env st path (off + 1024) (drop 1024 rest) ps s1 = (r, s')"
        by (simp add: bind_act_def wrap_err_def)
      from Cons.IH [OF this] obtain k where
        "s' = s1\<lparr>effects := effects s1 @ map (Write (fst st) (snd st)) (take k (chunks (drop 1024 rest)))\<rparr>"
        "r = Ok () \<longrightarrow> length (chunks (drop 1024 rest)) \<le> k" by blast
      with ok True show ?thesis
        by (intro exI [of _ "Suc k"]) (auto simp: log_effect_def chunks_Cons)
    next
      assume "\<exists>e. r1 = Err e \<and> s1 = s"
      with Cons.prems True w show ?thesis
        by (auto simp: bind_act_def wrap_err_def intro!: exI [of _ 0])
    qed
  qed
qed

lemma sendLoop_completes:
  assumes "\<And>i. readErr env path i = None" and "\<And>n. writeErr env n (fst st) (snd st) = None"
    and "length (chunks rest) < length (filter (\<lambda>b. b) polls)"
  shows "sendLoop env st path off rest polls s =
    (Ok (), s\<lparr>effects := effects s @ map (Write (fst st) (snd st)) (chunks rest)\<rparr>)"
  using assms(3)
proof (induction polls arbitrary: off rest s)
  case (Cons p ps)
  show ?case
  proof (cases "p \<and> rest \<noteq> []")
    case True
    then have "length (chunks (drop 1024 rest)) < length (filter (\<lambda>b. b) ps)"
      using Cons.prems by (simp add: chunks_Cons)
    from Cons.IH [OF this] True show ?thesis
      by (simp add: assms stream_write_def bind_act_def wrap_err_def attempt_def act_defs
          log_effect_def chunks_Cons)
  next
    case False
    then show ?thesis using Cons assms by (auto simp: act_defs)
  qed
qed simp

lemma open_file_cases:
  assumes "open_file env p s = (r, s')"
  shows "s' = s \<and> (\<forall>c. r = Ok c \<longrightarrow> disk s (resolve p) = Some c) \<and>
    r \<noteq> Blocked \<and> (\<forall>e. r \<noteq> Panic e)"
  using assms by (auto simp: open_file_def split: option.splits)

lemma ok_open_file [ok_iff]:
  "open_file env p s = (Ok c, s') \<longleftrightarrow> openErr env p = None \<and> disk s (resolve p) = Some c \<and> s' = s"
  by (auto simp: open_file_def split: option.splits)

lemma ok_create_file [ok_iff]:
  "create_file env p s = (Ok u, s') \<longleftrightarrow>
     createErr env p = None \<and> s' = s\<lparr>disk := (disk s)(resolve p \<mapsto> [])\<rparr>"
  by (auto simp: create_file_def split: option.splits)

lemma ok_stream_write [ok_iff]:
  "stream_write env st bs s = (Ok u, s') \<longleftrightarrow>
     writeErr env (length (effects s)) (fst st) (snd st) = None \<and>
     s' = log_effect (Write (fst st) (snd st) bs) s"
  by (auto simp: stream_write_def ok_iff attempt_def split: option.splits)

text \<open>A transfer that ends without an error has sent one header and the whole file, in order.\<close>

lemma sendFileToPeer_msgs:
  assumes "sendFileToPeer env polls t path hash rid s = (Ok (), s')"
  obtains content hb where "disk s (resolve path) = Some content"
    and "gobHeader env ((find_header hash zeroHeader (providedFiles s))\<lparr>fh_RequestID := rid\<rparr>) = Ok hb"
    and "msgs (effects s') = msgs (effects s) @
           map (\<lambda>b. (trim_space t, ''/senddata/p2p'', b)) (hb # chunks content)"
    and "s' = s\<lparr>effects := effects s'\<rparr>"
proof -
  let ?h = "(find_header hash zeroHeader (providedFiles s))\<lparr>fh_RequestID := rid\<rparr>"
  from assms obtain st s1 content hb where
    c: "createStream env t ''/senddata/p2p'' s = (Ok st, s1)" and
    content: "disk s1 (resolve path) = Some content" and
    hb: "gobHeader env ((find_header hash zeroHeader (providedFiles s1))\<lparr>fh_RequestID := rid\<rparr>) = Ok hb" and
    loop: "sendLoop env st path 0 content polls (log_effect (Write (fst st) (snd st) hb) s1) = (Ok (), s')"
    by (auto simp: sendFileToPeer_def ok_iff)
  note s1 = createStream_state [OF c] and st = createStream_handle [OF c]
  have same: "providedFiles s1 = providedFiles s" "disk s1 = disk s"
    by (subst conjunct1 [OF s1], simp)+
  have s': "s' = s1\<lparr>effects := effects s1 @ Write (fst st) (snd st) hb #
      map (Write (fst st) (snd st)) (chunks content)\<rparr>"
    using sendLoop_prefix [OF loop] by (auto simp: log_effect_def)
  then have "msgs (effects s') = msgs (effects s) @
      map (\<lambda>b. (trim_space t, ''/senddata/p2p'', b)) (hb # chunks content)"
    using s1 st by simp
  moreover have "s' = s\<lparr>effects := effects s'\<rparr>"
    by (subst s', subst conjunct1 [OF s1], simp add: s')
  ultimately show thesis using that content hb same by simp
qed

subsection \<open>What the receiver stores\<close>

declare reads.simps(2) [simp del]

lemma reads_Cons:
  "n = 0 \<or> length s \<le> n \<Longrightarrow> reads n (s # ss) = s # reads n ss"
  "\<not> (n = 0 \<or> length s \<le> n) \<Longrightarrow> reads n (s # ss) = take n s # reads n (drop n s # ss)"
  by (simp_all add: reads.simps(2) [of n s ss])

lemma concat_reads [simp]: "concat (reads n ss) = concat ss"
proof (induction n ss rule: reads.induct)
  case (2 n s ss)
  show ?case
  proof (cases "n = 0 \<or> length s \<le> n")
    case False
    with 2 have "concat (reads n (s # ss)) = take n s @ drop n s @ concat ss"
      by (simp add: reads_Cons(2))
    then show ?thesis by (simp flip: append_assoc)
  qed (simp add: 2 reads_Cons(1))
qed simp

lemma reads_bounded: "0 < n \<Longrightarrow> b \<in> set (reads n ss) \<Longrightarrow> length b \<le> n"
proof (induction n ss rule: reads.induct)
  case (2 n s ss)
  then show ?case by (cases "length s \<le> n") (auto simp: reads_Cons)
qed simp

text \<open>The bookkeeping of a download never touches the identity of its transaction.\<close>

definition same_download :: "FileTransaction \<Rightarrow> FileTransaction \<Rightarrow> bool" where
  "same_download t t' \<longleftrightarrow> ft_RequestID t' = ft_RequestID t \<and> ft_FileHash t' = ft_FileHash t \<and>
     ft_FileMetaData t' = ft_FileMetaData t \<and> ft_DownloadStart t' = ft_DownloadStart t"

lemma same_download_refl [simp]: "same_download t t"
  by (simp add: same_download_def)

lemma same_download_trans: "same_download t u \<Longrightarrow> same_download u v \<Longrightarrow> same_download t v"
  by (simp add: same_download_def)

lemma updateProgress_eq:
  assumes "downloadHistory s (fh_RequestID h) = Some t"
  obtains t' where "updateProgress h cur tot lt lb s =
      s\<lparr>downloadHistory := (downloadHistory s)(fh_RequestID h \<mapsto> t')\<rparr>" and "same_download t t'"
proof
  let ?t' = "t\<lparr>ft_BytesDownloaded := tot,
    ft_DownloadSpeed := fl_div f32 (fl_div f32 (f32 (of_int (tot - lb)))
      (to_f32 (duration_seconds (cur - lt)))) (Fin 1048576),
    ft_DownloadProgress := fl_div f32 (f32 (of_int tot)) (f32 (of_int (fh_FileSize h)))\<rparr>"
  show "updateProgress h cur tot lt lb s =
      s\<lparr>downloadHistory := (downloadHistory s)(fh_RequestID h \<mapsto> ?t')\<rparr>"
    using assms by (simp add: updateProgress_def Let_def map_get_def)
  show "same_download t ?t'" by (simp add: same_download_def)
qed

lemma recvLoop_ok:
  assumes "\<And>i. fileWriteErr env i = None" and "disk s (resolve path) = Some old"
    and "downloadHistory s (fh_RequestID h) = Some t"
  shows "\<exists>t'. same_download t t' \<and> recvLoop env h path clock None i bs tot lt lb s =
    (Ok (tot + int (length (concat bs))),
     s\<lparr>disk := (disk s)(resolve path \<mapsto> old @ concat bs),
       downloadHistory := (downloadHistory s)(fh_RequestID h \<mapsto> t')\<rparr>)"
  using assms(2,3)
proof (induction bs arbitrary: i tot lt lb s old t)
  case Nil
  then have "(disk s)(resolve path \<mapsto> old) = disk s"
    and "(downloadHistory s)(fh_RequestID h \<mapsto> t) = downloadHistory s"
    by (simp_all add: map_upd_triv)
  then show ?case by (intro exI [of _ t]) (simp add: act_defs)
next
  case (Cons b bs)
  let ?s1 = "write_file path b s" and ?tot = "tot + int (length b)"
  have s1: "?s1 = s\<lparr>disk := (disk s)(resolve path \<mapsto> old @ b)\<rparr>"
    using Cons.prems by (simp add: write_file_def map_get_def)
  have d1: "disk ?s1 (resolve path) = Some (old @ b)" and
    h1: "downloadHistory ?s1 (fh_RequestID h) = Some t" using Cons.prems s1 by auto
  show ?case
  proof (cases "clock i - lt \<ge> 1000000000")
    case True
    obtain t1 where t1: "updateProgress h (clock i) ?tot lt lb ?s1 =
        ?s1\<lparr>downloadHistory := (downloadHistory ?s1)(fh_RequestID h \<mapsto> t1)\<rparr>" "same_download t t1"
      by (rule updateProgress_eq [OF h1])
    let ?s2 = "?s1\<lparr>downloadHistory := (downloadHistory ?s1)(fh_RequestID h \<mapsto> t1)\<rparr>"
    have d2: "disk ?s2 (resolve path) = Some (old @ b)" and
      h2: "downloadHistory ?s2 (fh_RequestID h) = Some t1" using d1 by simp_all
    from Cons.IH [OF d2 h2, of "Suc i" ?tot "clock i" ?tot] obtain t2 where
      "same_download t1 t2" and "recvLoop env h path clock None (Suc i) bs ?tot (clock i) ?tot ?s2 =
        (Ok (?tot + int (length (concat bs))),
         ?s2\<lparr>disk := (disk ?s2)(resolve path \<mapsto> (old @ b) @ concat bs),
             downloadHistory := (downloadHistory ?s2)(fh_RequestID h \<mapsto> t2)\<rparr>)" by blast
    moreover have "recvLoop env h path clock None i (b # bs) tot lt lb s =
        recvLoop env h path clock None (Suc i) bs ?tot (clock i) ?tot ?s2"
      using True t1(1) by (simp add: assms(1) run Let_def)
    ultimately show ?thesis
      using t1(2) s1 same_download_trans
      by (intro exI [of _ t2]) (fastforce simp: fun_upd_def cong: if_cong)
  next
    case False
    from Cons.IH [OF d1 h1, of "Suc i" ?tot lt lb] obtain t2 where
      "same_download t t2" and "recvLoop env h path clock None (Suc i) bs ?tot lt lb ?s1 =
        (Ok (?tot + int (length (concat bs))),
         ?s1\<lparr>disk := (disk ?s1)(resolve path \<mapsto> (old @ b) @ concat bs),
             downloadHistory := (downloadHistory ?s1)(fh_RequestID h \<mapsto> t2)\<rparr>)" by blast
    moreover have "recvLoop env h path clock None i (b # bs) tot lt lb s =
        recvLoop env h path clock None (Suc i) bs ?tot lt lb ?s1"
      using False by (simp add: assms(1) run Let_def)
    ultimately show ?thesis
      using s1 by (intro exI [of _ t2]) (simp add: fun_upd_def cong: if_cong)
  qed
qed

text \<open>No failure of the local file system, and names that stay in their directory.\<close>

definition disk_ok :: "p2p \<Rightarrow> string \<Rightarrow> string \<Rightarrow> bool" where
  "disk_ok env dir name \<longleftrightarrow> (\<forall>i. fileWriteErr env i = None) \<and> copyErr env name = None \<and>
     (\<forall>p. createErr env p = None) \<and> (\<forall>p. openErr env p = None) \<and>
     plain_name dir \<and> plain_name name \<and> dir \<noteq> ''downloads''"

lemma resolve_downloads:
  assumes "plain_name name"
  shows "resolve (''/downloads/'' @ name) = ''/downloads/'' @ name"
    and "resolve (resolve (''/downloads/'' @ name)) = ''/downloads/'' @ name"
proof -
  have pn: "plain_name ''downloads''" by (simp add: plain_name_def)
  show "resolve (''/downloads/'' @ name) = ''/downloads/'' @ name"
    using resolve_in_dir(2) [OF pn assms] by simp
  then show "resolve (resolve (''/downloads/'' @ name)) = ''/downloads/'' @ name" by simp
qed

lemma receiveFileData_stores:
  assumes dec: "gob_decode (gobParse env) None [] segs = Ok (h, segs')"
    and hash: "fh_FileHash h \<noteq> ''FILE NOT CURRENTLY PROVIDED''"
    and disk: "disk_ok env (DOWNLOAD_DIRECTORY s) (fh_FileName h)"
    and run: "receiveFileData env now startTime clock segs None s = (r, s')"
  shows "r = Ok () \<and>
    disk s' (''/downloads/'' @ fh_FileName h) = Some (concat segs') \<and>
    fileRequests s' = markComplete (fh_RequestID h) (fileRequests s) \<and>
    (\<exists>t. downloadHistory s' (fh_RequestID h) = Some t \<and> ft_RequestID t = fh_RequestID h \<and>
      ft_FileHash t = fh_FileHash h \<and> ft_FileMetaData t = h \<and> ft_DownloadProgress t = Fin 1 \<and>
      ft_BytesDownloaded t = int (length (concat segs')))"
proof -
  let ?dir = "DOWNLOAD_DIRECTORY s" and ?name = "fh_FileName h" and ?rid = "fh_RequestID h"
  let ?path = "?dir @ ''/'' @ ?name"
  note ok = disk [unfolded disk_ok_def]
  have res: "resolve ?path = ''/'' @ ?dir @ ''/'' @ ?name"
    "resolve (''/'' @ ?dir @ ''/'' @ ?name) = ''/'' @ ?dir @ ''/'' @ ?name"
    using ok by (simp_all only: resolve_in_dir)
  have neq: "''/downloads/'' @ ?name \<noteq> ''/'' @ ?dir @ ''/'' @ ?name"
  proof
    assume "''/downloads/'' @ ?name = ''/'' @ ?dir @ ''/'' @ ?name"
    then have "''downloads'' @ ''/'' @ ?name = ?dir @ ''/'' @ ?name" by simp
    with ok show False by (metis append_same_eq)
  qed
  define s0 where "s0 = startDownload h now s"
  define s1 where "s1 = s0\<lparr>disk := (disk s0)(resolve ?path \<mapsto> [])\<rparr>"
  obtain t0 where t0: "downloadHistory s1 ?rid = Some t0" "ft_RequestID t0 = ?rid"
    "ft_FileHash t0 = fh_FileHash h" "ft_FileMetaData t0 = h"
    by (auto simp: s1_def s0_def startDownload_def)
  have d1: "disk s1 (resolve ?path) = Some []" by (simp add: s1_def)
  obtain t' where t': "same_download t0 t'" and loop:
    "recvLoop env h ?path clock None 0 (reads 1024 segs') 0 startTime 0 s1 =
      (Ok (int (length (concat segs'))),
       s1\<lparr>disk := (disk s1)(resolve ?path \<mapsto> concat segs'),
          downloadHistory := (downloadHistory s1)(?rid \<mapsto> t')\<rparr>)"
    using recvLoop_ok [of env s1 ?path "[]" h t0 clock 0 "reads 1024 segs'" 0 startTime 0] ok d1 t0
    by auto
  define s2 where "s2 = finishDownload h (int (length (concat segs')))
    (s1\<lparr>disk := (disk s1)(resolve ?path \<mapsto> concat segs'),
        downloadHistory := (downloadHistory s1)(?rid \<mapsto> t')\<rparr>)"
  have src: "disk s2 (resolve (''/'' @ ?dir @ ''/'' @ ?name)) = Some (concat segs')"
    using res by (simp add: s2_def finishDownload_def Let_def)
  have copy: "copyFromContainer env (''/'' @ ?dir @ ''/'' @ ?name) ?name s2 =
    (Ok (), s2\<lparr>disk := (disk s2)(''/downloads/'' @ ?name \<mapsto> concat segs')\<rparr>)"
    using src ok resolve_downloads [of ?name]
    by (simp add: copyFromContainer_def bind_act_def open_file_def create_file_def lift_err_def
        act_defs write_file_def map_get_def Let_def)
  have dir: "DOWNLOAD_DIRECTORY (startDownload h now s) = ?dir" by (simp add: startDownload_def)
  have "storeDownload env h now startTime clock segs' None s =
    bind_act (recvLoop env h ?path clock None 0 (reads 1024 segs') 0 startTime 0)
      (\<lambda>tot. bind_act (upd_act (finishDownload h tot)) (\<lambda>_.
        copyFromContainer env (''/'' @ ?dir @ ''/'' @ ?name) ?name)) s1"
    unfolding storeDownload_def bind_act_run dir
    by (rule bind_act_apply(1)) (simp add: create_file_def ok s1_def s0_def)
  also have "\<dots> = copyFromContainer env (''/'' @ ?dir @ ''/'' @ ?name) ?name s2"
    by (simp only: bind_act_def loop prod.case outcome.case upd_act_def s2_def)
  finally have "storeDownload env h now startTime clock segs' None s =
    (Ok (), s2\<lparr>disk := (disk s2)(''/downloads/'' @ ?name \<mapsto> concat segs')\<rparr>)"
    using copy by simp
  then have "receiveFileData env now startTime clock segs None s =
    (Ok (), s2\<lparr>disk := (disk s2)(''/downloads/'' @ ?name \<mapsto> concat segs')\<rparr>)"
    unfolding receiveFileData_def dec
    by (intro ignore_err_run(1)) (simp add: bind_act_run hash)
  with run show ?thesis
    using t' t0 by (auto simp: s2_def s1_def s0_def finishDownload_def startDownload_def Let_def
        same_download_def map_get_def)
qed

subsection \<open>The header codec\<close>

text \<open>What the program relies on of \<open>encoding/gob\<close>: the decoder recovers the header the encoder wrote,
  whatever follows it, and asks for more as long as it has only a proper prefix of the encoding.\<close>

definition gob_laws :: "p2p \<Rightarrow> bool" where
  "gob_laws env \<longleftrightarrow> (\<forall>h hb. gobHeader env h = Ok hb \<longrightarrow>
     (\<forall>r. gobParse env (hb @ r) = Done h (length hb)) \<and>
     (\<forall>b. strict_prefix b hb \<longrightarrow> gobParse env b = NeedMore))"

lemma gob_decode_Done: "parse buf = Done h k \<Longrightarrow> gob_decode parse fin buf segs = Ok (h, segs)"
  by (subst gob_decode.simps) simp

lemma gob_decode_NeedMore:
  "parse buf = NeedMore \<Longrightarrow> length seg \<le> 4096 \<Longrightarrow>
   gob_decode parse fin buf (seg # segs) = gob_decode parse fin (buf @ seg) segs"
  by (subst gob_decode.simps) (simp add: rest_segs_def)

text \<open>A header that arrives in segments of its own leaves the rest of the stream untouched.\<close>

lemma gob_decode_segs:
  assumes "gob_laws env" and "gobHeader env h = Ok hb"
  shows "buf @ concat hs = hb \<Longrightarrow> \<forall>x \<in> set hs. x \<noteq> [] \<and> length x \<le> 4096 \<Longrightarrow>
    gob_decode (gobParse env) fin buf (hs @ ds) = Ok (h, ds)"
proof (induction hs arbitrary: buf)
  case Nil
  then have "gobParse env (buf @ []) = Done h (length hb)"
    using assms unfolding gob_laws_def by (metis append.right_neutral concat.simps(1))
  then show ?case by (simp add: gob_decode_Done)
next
  case (Cons x hs)
  then have "strict_prefix buf hb" by (force simp: strict_prefix_def prefix_def)
  then have "gobParse env buf = NeedMore" using assms by (simp add: gob_laws_def)
  then show ?case using Cons by (simp add: gob_decode_NeedMore)
qed

text \<open>Whatever shares the decoder's last read with the header is gone.\<close>

lemma gob_decode_readahead:
  assumes "gob_laws env" and "gobHeader env h = Ok hb" and "hb \<noteq> []" and "length (hb @ p) \<le> 4096"
  shows "gob_decode (gobParse env) fin [] ((hb @ p) # ds) = Ok (h, ds)"
proof -
  have "strict_prefix [] hb" using assms(3) by (simp add: strict_prefix_def)
  then have "gobParse env [] = NeedMore" and "gobParse env (hb @ p) = Done h (length hb)"
    using assms(1,2) by (simp_all add: gob_laws_def)
  then show ?thesis using assms(4) by (simp add: gob_decode_NeedMore gob_decode_Done)
qed

text \<open>A stream no prefix of which is a header ends in an error.\<close>

lemma gob_decode_rejects:
  assumes "\<And>b. prefix b (buf @ concat segs) \<Longrightarrow> \<forall>h k. parse b \<noteq> Done h k"
  shows "\<exists>e. gob_decode parse fin buf segs = Err e"
  using assms
proof (induction parse fin buf segs rule: gob_decode.induct)
  case (1 parse fin buf segs)
  have nd: "\<forall>h k. parse buf \<noteq> Done h k" using "1.prems" by simp
  show ?case
  proof (cases segs)
    case Nil
    then show ?thesis using nd by (subst gob_decode.simps) (auto split: gob_result.split)
  next
    case (Cons x xs)
    have eq: "(buf @ take 4096 x) @ concat (rest_segs 4096 x xs) = buf @ concat segs"
      using Cons by (simp add: rest_segs_def)
    show ?thesis
    proof (cases "parse buf")
      case NeedMore
      have "\<exists>e. gob_decode parse fin (buf @ take 4096 x) (rest_segs 4096 x xs) = Err e"
        by (rule "1.IH" [OF NeedMore Cons]) (use "1.prems" eq in auto)
      then show ?thesis using NeedMore Cons by (subst gob_decode.simps) simp
    qed (use nd in \<open>auto simp: gob_decode.simps [of parse fin buf segs]\<close>)
  qed
qed

subsection \<open>Properties of the transfer\<close>

definition link_ok :: "p2p \<Rightarrow> string \<Rightarrow> string \<Rightarrow> bool" where
  "link_ok env t p \<longleftrightarrow> relayAddrErr env = None \<and> circuit_ok env (trim_space t) \<and>
     addrInfoErr env (trim_space t) = None \<and> (\<forall>n. connectErr env n (trim_space t) = None) \<and>
     (\<forall>n. streamErr env n (trim_space t) p = None) \<and> (\<forall>n. writeErr env n (trim_space t) p = None) \<and>
     closeErr env (trim_space t) p = None"

lemma createStream_link_ok:
  "link_ok env t p \<Longrightarrow> createStream env t p s =
     (Ok (trim_space t, p), log_effect (Open (trim_space t) p) (log_effect (Dial (trim_space t)) s))"
  by (simp add: createStream_def link_ok_def Let_def bind_act_def act_defs wrap_err_def attempt_def
      lift_err_def)

text \<open>C34: A node whose links and disk work finishes sending a file as soon as its pause loop has seen
  the download running once per 1024-byte piece and once more, whatever pauses come in between: the
  call returns without an error.\<close>

theorem sendFileToPeer_completes:
  assumes "link_ok env t ''/senddata/p2p''" and "openErr env path = None"
    and "disk s (resolve path) = Some content" and "\<And>i. readErr env path i = None"
    and "gobHeader env ((find_header hash zeroHeader (providedFiles s))\<lparr>fh_RequestID := rid\<rparr>) = Ok hb"
    and "(length content + 1023) div 1024 < length (filter (\<lambda>b. b) polls)"
  shows "fst (sendFileToPeer env polls t path hash rid s) = Ok ()"
proof -
  let ?st = "(trim_space t, ''/senddata/p2p'')"
  have w: "writeErr env n (fst ?st) (snd ?st) = None" for n using assms(1) by (simp add: link_ok_def)
  have c: "closeErr env (fst ?st) (snd ?st) = None" using assms(1) by (simp add: link_ok_def)
  have len: "length (chunks content) < length (filter (\<lambda>b. b) polls)"
    using assms(6) by (simp add: length_chunks)
  note loop = sendLoop_completes [of env path ?st content polls, OF assms(4) w len]
  show ?thesis
    unfolding sendFileToPeer_def
    using assms(2,3,5) w c loop
    by (simp add: createStream_link_ok [OF assms(1)] wrap_err_def bind_act_def open_file_def act_defs
        stream_write_def attempt_def lift_err_def)
qed

text \<open>C1: End to end.  When a transfer ends without an error at the sender, and the network delivers
  the header in segments of its own and then the file pieces cut in any way, the receiver's download
  directory holds exactly the file the sender had on disk, its transaction shows full progress and the
  number of bytes of the file, and its request is marked complete.\<close>

theorem transfer_roundtrip:
  assumes send: "sendFileToPeer senv polls t path hash rid s = (Ok (), s')"
    and wire: "msgs (effects s') = msgs (effects s) @ m # ms"
    and hsegs: "concat hsegs = snd (snd m)" "\<forall>x \<in> set hsegs. x \<noteq> [] \<and> length x \<le> 4096"
    and dsegs: "concat dsegs = concat (map (snd \<circ> snd) ms)"
    and codec: "gob_laws renv" "gobHeader renv = gobHeader senv"
    and hash: "fh_FileHash (find_header hash zeroHeader (providedFiles s))
      \<noteq> ''FILE NOT CURRENTLY PROVIDED''"
    and name: "name = fh_FileName (find_header hash zeroHeader (providedFiles s))"
    and disk: "disk_ok renv (DOWNLOAD_DIRECTORY n) name"
    and recv: "receiveFileData renv now startTime clock (hsegs @ dsegs) None n = (r, n')"
  shows "r = Ok () \<and> disk n' (''/downloads/'' @ name) = disk s (resolve path) \<and>
    fileRequests n' = markComplete rid (fileRequests n) \<and>
    (\<exists>tr. downloadHistory n' rid = Some tr \<and> ft_DownloadProgress tr = Fin 1 \<and>
       Some (ft_BytesDownloaded tr) = map_option (int \<circ> length) (disk s (resolve path)))"
proof -
  let ?h = "(find_header hash zeroHeader (providedFiles s))\<lparr>fh_RequestID := rid\<rparr>"
  obtain content hb where onDisk: "disk s (resolve path) = Some content"
    and hb: "gobHeader senv ?h = Ok hb"
    and out: "msgs (effects s') = msgs (effects s) @
           map (\<lambda>b. (trim_space t, ''/senddata/p2p'', b)) (hb # chunks content)"
    using sendFileToPeer_msgs [OF send] by blast
  have m: "snd (snd m) = hb" and "ms = map (\<lambda>b. (trim_space t, ''/senddata/p2p'', b)) (chunks content)"
    using out wire by auto
  then have content: "concat dsegs = content" using dsegs by (simp add: comp_def)
  have "gob_decode (gobParse renv) None [] (hsegs @ dsegs) = Ok (?h, dsegs)"
    by (rule gob_decode_segs [OF codec(1)]) (use codec(2) hb hsegs m in auto)
  from receiveFileData_stores [OF this _ _ recv] hash disk name content onDisk
  show ?thesis by auto
qed

text \<open>The header decoder reads ahead.  When the first segment of a transfer holds the header and the
  first bytes \<open>p\<close> of the file, those bytes are lost: the stored file is the rest of the stream, while
  the transaction still reports full progress and the request counts as complete.\<close>

theorem header_readahead_loses_bytes:
  assumes "gob_laws env" and "gobHeader env h = Ok hb" and "hb \<noteq> []" and "p \<noteq> []"
    and "length (hb @ p) \<le> 4096" and "fh_FileHash h \<noteq> ''FILE NOT CURRENTLY PROVIDED''"
    and "disk_ok env (DOWNLOAD_DIRECTORY n) (fh_FileName h)"
    and "receiveFileData env now startTime clock ((hb @ p) # ds) None n = (r, n')"
  shows "r = Ok () \<and> disk n' (''/downloads/'' @ fh_FileName h) = Some (concat ds) \<and>
    concat ds \<noteq> p @ concat ds \<and>
    fileRequests n' = markComplete (fh_RequestID h) (fileRequests n) \<and>
    (\<exists>tr. downloadHistory n' (fh_RequestID h) = Some tr \<and> ft_DownloadProgress tr = Fin 1)"
  using receiveFileData_stores [OF gob_decode_readahead [OF assms(1,2,3,5)] assms(6,7,8)] assms(4)
  by auto

lemma closed_request:
  assumes "unjsonFileRequest env bs = Ok req"
    and "fileHashToPath s (fr_FileHash req) = None \<or>
      \<not> map_get False (isFileHashProvided s) (fr_FileHash req)"
  shows "receiveFileRequests env polls (Ok bs) s = ignore_err
    (if fileHashToPath s (fr_FileHash req) = None
     then sendFileNotFoundToPeer env (fr_RequesterID req) (fr_RequestID req)
     else sendFileNotCurrentlyProvidedToPeer env (fr_RequesterID req) (fr_RequestID req)) s"
  using assms
  by (auto simp: receiveFileRequests_def ignore_err_def recover_err_def bind_act_run
      split: option.split)

text \<open>C27: A node gives no file away that it does not currently provide.  A request for a hash that is
  unknown or not provided leaves every table of the node as it was and puts at most one message on
  the wire: the error \<open>File not found\<close> or the notice that the file is not currently provided.\<close>

theorem unprovided_file_not_served:
  assumes req: "unjsonFileRequest env bs = Ok req"
    and closed: "fileHashToPath s (fr_FileHash req) = None \<or>
      \<not> map_get False (isFileHashProvided s) (fr_FileHash req)"
    and run: "receiveFileRequests env polls (Ok bs) s = (r, s')"
  shows "s' = s\<lparr>effects := effects s'\<rparr> \<and> (\<exists>ms. msgs (effects s') = msgs (effects s) @ ms \<and>
    length ms \<le> 1 \<and> (\<forall>(t, p, b) \<in> set ms. t = trim_space (fr_RequesterID req) \<and>
      (p = ''/error/p2p'' \<and>
         jsonError env \<lparr>em_ErrorMessage = ''File not found'', em_RequestID = fr_RequestID req\<rparr> = Ok b \<or>
       p = ''/senddata/p2p'' \<and>
         jsonHeader env (zeroHeader\<lparr>fh_RequestID := fr_RequestID req,
           fh_FileHash := ''FILE NOT CURRENTLY PROVIDED''\<rparr>) = Ok b)))"
proof -
  let ?t = "fr_RequesterID req" and ?r = "fr_RequestID req"
  let ?send = "if fileHashToPath s (fr_FileHash req) = None then sendFileNotFoundToPeer env ?t ?r
    else sendFileNotCurrentlyProvidedToPeer env ?t ?r"
  have "receiveFileRequests env polls (Ok bs) s = ignore_err ?send s"
    by (rule closed_request [OF req closed])
  with run have "ignore_err ?send s = (r, s')" by simp
  then obtain r1 where r1: "?send s = (r1, s')"
    by (auto simp: ignore_err_def recover_err_def act_defs split: prod.splits outcome.splits)
  show ?thesis
  proof (cases "fileHashToPath s (fr_FileHash req) = None")
    case True
    with r1 have "sendFileNotFoundToPeer env ?t ?r s = (r1, s')" by simp
    from send_message_msgs [OF this [unfolded sendFileNotFoundToPeer_def]] show ?thesis
      by (auto split: outcome.splits)
  next
    case False
    with r1 have "sendFileNotCurrentlyProvidedToPeer env ?t ?r s = (r1, s')" by simp
    from send_message_msgs [OF this [unfolded sendFileNotCurrentlyProvidedToPeer_def]] show ?thesis
      by (auto split: outcome.splits)
  qed
qed

text \<open>The notice that a file is not currently provided never arrives: the sender encodes it as JSON
  and the receiver decodes the stream with gob.  When no prefix of the JSON text is a gob header, the
  handler fails at the header and the requester's state stays as it was.\<close>

theorem not_provided_notice_is_dropped:
  assumes "jsonHeader env (zeroHeader\<lparr>fh_RequestID := rid,
      fh_FileHash := ''FILE NOT CURRENTLY PROVIDED''\<rparr>) = Ok jb"
    and "\<And>b. prefix b jb \<Longrightarrow> \<forall>h k. gobParse env b \<noteq> Done h k"
    and "concat segs = jb"
  shows "receiveFileData env now startTime clock segs fin n = (Ok (), n)"
proof -
  obtain e where "gob_decode (gobParse env) fin [] segs = Err e"
    using gob_decode_rejects [of "[]" segs "gobParse env" fin] assms by auto
  then show ?thesis
    unfolding receiveFileData_def by (intro ignore_err_run(2)) (simp add: bind_act_run)
qed

text \<open>A request whose sender identity is no multiaddress component makes the handler panic, for any
  file hash: \<open>createStream\<close> passes the identity to \<open>StringCast\<close> before anything checks it.\<close>

theorem bad_requester_panics:
  assumes "unjsonFileRequest env bs = Ok req" and "relayAddrErr env = None"
    and "\<not> circuit_ok env (trim_space (fr_RequesterID req))"
  shows "\<exists>e. fst (receiveFileRequests env polls (Ok bs) s) = Panic e"
proof -
  have "createStream env (fr_RequesterID req) p s' =
      (Panic (''failed to parse multiaddr /p2p-circuit/p2p/'' @ trim_space (fr_RequesterID req)), s')"
    for p s'
    using assms(2,3) by (simp add: createStream_def Let_def bind_act_def act_defs wrap_err_def lift_err_def)
  then show ?thesis
    using assms(1)
    by (cases "fileHashToPath s (fr_FileHash req)")
      (auto simp: receiveFileRequests_def ignore_err_def recover_err_def bind_act_def act_defs
        sendFileNotFoundToPeer_def sendFileNotCurrentlyProvidedToPeer_def send_message_def
        sendFileToPeer_def wrap_err_def)
qed

subsection \<open>A concrete network\<close>

text \<open>A small environment with a one-header codec, in which every link works; the witnesses run the
  model in it.\<close>

definition demoHeader :: FileDataHeader where
  "demoHeader = zeroHeader\<lparr>fh_FileName := ''f.txt'', fh_FileSize := 3, fh_FileHash := ''h'',
     fh_PeerID := ''P'', fh_Price := Fin 2, fh_MiningAddress := ''addr'', fh_RequestID := ''r''\<rparr>"

definition demoRequest :: FileRequest where
  "demoRequest = \<lparr>fr_RequestID = ''r'', fr_FileHash = ''h'', fr_RequesterID = ''Q'',
     fr_RequesterMultiAddress = ''/q'', fr_TimeSent = 5, fr_Complete = False\<rparr>"

definition demoEnv :: p2p where
  "demoEnv = \<lparr>peerID = ''P'', nodeAddrs = [''/a''], relayAddrErr = None,
     circuit_ok = (\<lambda>t. t \<noteq> []), addrInfoErr = (\<lambda>_. None), connectErr = (\<lambda>_ _. None),
     streamErr = (\<lambda>_ _ _. None), writeErr = (\<lambda>_ _ _. None), closeErr = (\<lambda>_ _. None),
     jsonFileRequest = (\<lambda>_. Ok ''request''), unjsonFileRequest = (\<lambda>_. Ok demoRequest),
     jsonMetaRequest = (\<lambda>_. Ok ''meta''), jsonPause = (\<lambda>_. Ok ''pause''),
     unjsonPause = (\<lambda>_. Ok \<lparr>pr_RequestID = ''r'', pr_Status = False, pr_TimeSent = 6\<rparr>),
     jsonError = (\<lambda>_. Ok ''error''), unjsonError = (\<lambda>_. Err ''bad''), jsonHeader = (\<lambda>_. Ok ''{}''),
     gobHeader = (\<lambda>h. if h = demoHeader then Ok ''G'' else Err ''unsupported''),
     gobParse = (\<lambda>b. case b of [] \<Rightarrow> NeedMore
       | c # _ \<Rightarrow> if c = CHR ''G'' then Done demoHeader 1 else Bad ''not a header''),
     jsonState = (\<lambda>_. (''state'', None)), unjsonState = (\<lambda>_. Err ''bad''),
     openErr = (\<lambda>_. None), createErr = (\<lambda>_. None), readErr = (\<lambda>_ _. None),
     fileWriteErr = (\<lambda>_. None), copyErr = (\<lambda>_. None)\<rparr>"

definition demoNode :: node where
  "demoNode = (initNode ''1'' [''/f.txt'' \<mapsto> ''abc''])
     \<lparr>fileHashToPath := [''h'' \<mapsto> ''/f.txt''], isFileHashProvided := [''h'' \<mapsto> True],
      providedFiles := [demoHeader\<lparr>fh_RequestID := []\<rparr>]\<rparr>"

lemma demo_gob_laws: "gob_laws demoEnv"
  by (auto simp: gob_laws_def demoEnv_def strict_prefix_def prefix_Cons split: if_splits)

lemma demo_disk_ok: "disk_ok demoEnv (DOWNLOAD_DIRECTORY demoNode) ''f.txt''"
  by (simp add: disk_ok_def demoEnv_def demoNode_def initNode_def plain_name_def)

lemma demo_header:
  "(find_header ''h'' zeroHeader (providedFiles demoNode))\<lparr>fh_RequestID := ''r''\<rparr> = demoHeader"
  by (simp add: demoNode_def initNode_def demoHeader_def)

lemma demo_link_ok: "link_ok demoEnv ''Q'' ''/senddata/p2p''"
proof -
  have "trim_space ''Q'' = ''Q''" by code_simp
  then show ?thesis by (simp add: link_ok_def demoEnv_def)
qed

lemma demo_file: "disk demoNode (resolve ''/f.txt'') = Some ''abc''"
proof -
  have "resolve ''/f.txt'' = ''/f.txt''" by code_simp
  then show ?thesis by (simp add: demoNode_def initNode_def)
qed

theorem sendFileToPeer_completes_witness:
  "fst (sendFileToPeer demoEnv [True, False, True] ''Q'' ''/f.txt'' ''h'' ''r'' demoNode) = Ok ()"
  by (rule sendFileToPeer_completes [OF demo_link_ok _ demo_file, where hb = "''G''"])
    (simp_all add: demo_header, simp_all add: demoEnv_def)

theorem transfer_roundtrip_witness:
  "disk (snd (receiveFileData demoEnv 1 2 int ([''G''] @ [''a'', ''bc'']) None (initNode ''2'' Map.empty)))
     (''/downloads/'' @ ''f.txt'') = Some ''abc''"
proof -
  let ?send = "sendFileToPeer demoEnv [True, True] ''Q'' ''/f.txt'' ''h'' ''r'' demoNode"
  let ?recv = "receiveFileData demoEnv 1 2 int ([''G''] @ [''a'', ''bc'']) None (initNode ''2'' Map.empty)"
  have run: "?send = (Ok (), snd ?send)"
    by (rule prod_eqI, simp_all,
        rule sendFileToPeer_completes [OF demo_link_ok _ demo_file, where hb = "''G''"])
      (simp_all add: demo_header, simp_all add: demoEnv_def)
  have wire: "msgs (effects (snd ?send)) =
      msgs (effects demoNode) @ (''Q'', ''/senddata/p2p'', ''G'') # [(''Q'', ''/senddata/p2p'', ''abc'')]"
    by code_simp
  have name: "''f.txt'' = fh_FileName (find_header ''h'' zeroHeader (providedFiles demoNode))"
    by (simp add: demoNode_def initNode_def demoHeader_def)
  have hash: "fh_FileHash (find_header ''h'' zeroHeader (providedFiles demoNode))
      \<noteq> ''FILE NOT CURRENTLY PROVIDED''"
    by (simp add: demoNode_def initNode_def demoHeader_def)
  have ok: "disk_ok demoEnv (DOWNLOAD_DIRECTORY (initNode ''2'' Map.empty)) ''f.txt''"
    using demo_disk_ok by (simp add: demoNode_def initNode_def)
  have "disk (snd ?recv) (''/downloads/'' @ ''f.txt'') = disk demoNode (resolve ''/f.txt'')"
    using transfer_roundtrip [OF run wire, of "[''G'']" "[''a'', ''bc'']" demoEnv, OF _ _ _
        demo_gob_laws refl hash name ok, of 1 2 int "fst ?recv" "snd ?recv"] by simp
  then show ?thesis by (simp only: demo_file)
qed

theorem header_readahead_loses_bytes_witness:
  "disk (snd (receiveFileData demoEnv 1 2 int [''G'' @ ''a'', ''bc''] None demoNode))
     (''/downloads/'' @ ''f.txt'') = Some ''bc''"
proof -
  let ?recv = "receiveFileData demoEnv 1 2 int [''G'' @ ''a'', ''bc''] None demoNode"
  have enc: "gobHeader demoEnv demoHeader = Ok ''G''" by (simp add: demoEnv_def)
  have name: "fh_FileName demoHeader = ''f.txt''" and
    hash: "fh_FileHash demoHeader \<noteq> ''FILE NOT CURRENTLY PROVIDED''"
    by (simp_all add: demoHeader_def)
  from header_readahead_loses_bytes [OF demo_gob_laws enc, of "''a''" demoNode 1 2 int "[''bc'']"
      "fst ?recv" "snd ?recv"] demo_disk_ok hash
  show ?thesis by (simp add: name)
qed

theorem unprovided_file_not_served_witness:
  "\<exists>ms. msgs (effects (snd (receiveFileRequests demoEnv [True]
      (Ok ''x'') (demoNode\<lparr>isFileHashProvided := [''h'' \<mapsto> False]\<rparr>)))) = ms \<and> length ms \<le> 1"
proof -
  let ?s = "demoNode\<lparr>isFileHashProvided := [''h'' \<mapsto> False]\<rparr>"
  let ?run = "receiveFileRequests demoEnv [True] (Ok ''x'') ?s"
  have req: "unjsonFileRequest demoEnv ''x'' = Ok demoRequest" by (simp add: demoEnv_def)
  have closed: "fileHashToPath ?s (fr_FileHash demoRequest) = None \<or>
      \<not> map_get False (isFileHashProvided ?s) (fr_FileHash demoRequest)"
    by (simp add: demoRequest_def map_get_def)
  have "?run = (fst ?run, snd ?run)" by simp
  from unprovided_file_not_served [OF req closed this] obtain ms where
    "msgs (effects (snd ?run)) = msgs (effects ?s) @ ms" "length ms \<le> 1" by blast
  then show ?thesis by (simp add: demoNode_def initNode_def)
qed

theorem not_provided_notice_is_dropped_witness:
  "receiveFileData demoEnv 1 2 int [''{}''] None demoNode = (Ok (), demoNode)"
proof (rule not_provided_notice_is_dropped [where rid = "''r''" and jb = "''{}''"])
  fix b assume "prefix b ''{}''"
  then show "\<forall>h k. gobParse demoEnv b \<noteq> Done h k"
    by (cases b) (auto simp: demoEnv_def)
qed (simp_all add: demoEnv_def)

theorem bad_requester_panics_witness:
  "\<exists>e. fst (receiveFileRequests (demoEnv\<lparr>circuit_ok := (\<lambda>_. False)\<rparr>) [True] (Ok ''x'') demoNode) = Panic e"
  by (rule bad_requester_panics [where req = demoRequest]) (simp_all add: demoEnv_def)

end
