(* ===== verification/Bitshare_State.thy ===== *)
theory Bitshare_State
  imports Bitshare_Transfer
begin

text \<open>
  Persistence of the node (\<open>saveState\<close>, \<open>loadState\<close> and the state part of \<open>main\<close> in
  \<open>src/fileshare/main.go\<close>).  The state file is written to the node's disk under a name that holds the
  user's SBU identity.  The lemmas say exactly which variables survive a restart.
\<close>

definition stateFile :: "string \<Rightarrow> string" where
  "stateFile sbu = ''state'' @ sbu @ ''.json''"

definition snapshot :: "node \<Rightarrow> AppState" where
  "snapshot s = \<lparr>as_SBU_ID = SBU_ID s, as_DOWNLOAD_DIRECTORY = DOWNLOAD_DIRECTORY s,
     as_FileHashToPath = fileHashToPath s, as_IsFileHashProvided = isFileHashProvided s,
     as_DownloadStatus = downloadStatus s, as_LastDownloadStatus = lastDownloadStatus s,
     as_MetadataResponse = metadataResponse s, as_DownloadHistory = downloadHistory s,
     as_FileRequests = fileRequests s, as_ProvidedFiles = providedFiles s\<rparr>"

definition saveState :: "p2p \<Rightarrow> (node, unit) act" where
  "saveState env =
    bind_act (get_act (\<lambda>s. (snapshot s, stateFile (SBU_ID s)))) (\<lambda>(state, file).
    bind_act (wrap_err ''error occured while creating state file: '' (create_file env file)) (\<lambda>_.
    bind_act (upd_act (write_file file (fst (jsonState env state)))) (\<lambda>_.
    wrap_err ''error occured while encoding state: '' (lift_err (snd (jsonState env state))))))"

definition loadState :: "p2p \<Rightarrow> (node, unit) act" where
  "loadState env =
    bind_act (get_act (\<lambda>s. stateFile (SBU_ID s))) (\<lambda>file.
    bind_act (wrap_err ''error occured while opening state file: '' (open_file env file)) (\<lambda>bs.
    bind_act (wrap_err ''error occured while decoding state: '' (lift_out (unjsonState env bs)))
      (\<lambda>state. upd_act (\<lambda>s. s\<lparr>SBU_ID := as_SBU_ID state,
         metadataResponse := as_MetadataResponse state,
         downloadHistory := as_DownloadHistory state,
         fileRequests := as_FileRequests state\<rparr>))))"

text \<open>The state part of \<open>main\<close>: fresh variables, then the state file if it can be read.\<close>

definition startState :: "p2p \<Rightarrow> string \<Rightarrow> (string \<rightharpoonup> bytes) \<Rightarrow> unit outcome \<times> node" where
  "startState env sbu d =
    bind_act (catch_act (open_file env (stateFile sbu))) (\<lambda>r.
      case r of Inl _ \<Rightarrow> ret_act () | Inr _ \<Rightarrow> ignore_err (loadState env)) (initNode sbu d)"

subsection \<open>Text\<close>

text \<open>What \<open>utf8.ValidString\<close> accepts: no stray continuation byte, no overlong form, no surrogate, nothing above
  U+10FFFF.\<close>

definition in_range :: "nat \<Rightarrow> nat \<Rightarrow> char \<Rightarrow> bool" where
  "in_range lo hi c \<longleftrightarrow> lo \<le> of_char c \<and> of_char c \<le> hi"

fun valid_utf8 :: "string \<Rightarrow> bool" where
  "valid_utf8 [] = True"
| "valid_utf8 (a # s) =
    (if in_range 0 0x7f a then valid_utf8 s
     else case s of [] \<Rightarrow> False | b # s \<Rightarrow>
       if in_range 0xc2 0xdf a then in_range 0x80 0xbf b \<and> valid_utf8 s
       else case s of [] \<Rightarrow> False | c # s \<Rightarrow>
         if in_range 0xe0 0xef a
         then in_range (if of_char a = (0xe0::nat) then 0xa0 else 0x80) (if of_char a = (0xed::nat) then 0x9f else 0xbf) b \<and>
           in_range 0x80 0xbf c \<and> valid_utf8 s
         else case s of [] \<Rightarrow> False | d # s \<Rightarrow>
           in_range 0xf0 0xf4 a \<and>
           in_range (if of_char a = (0xf0::nat) then 0x90 else 0x80) (if of_char a = (0xf4::nat) then 0x8f else 0xbf) b \<and>
           in_range 0x80 0xbf c \<and> in_range 0x80 0xbf d \<and> valid_utf8 s)"

definition header_text :: "FileDataHeader \<Rightarrow> bool" where
  "header_text h \<longleftrightarrow> (\<forall>t \<in> {fh_FileName h, fh_FileHash h, fh_FileExtension h, fh_Multiaddress h, fh_PeerID h,
     fh_MiningAddress h, fh_RequestID h}. valid_utf8 t)"

definition transaction_text :: "FileTransaction \<Rightarrow> bool" where
  "transaction_text t \<longleftrightarrow> valid_utf8 (ft_RequestID t) \<and> valid_utf8 (ft_FileHash t) \<and>
     header_text (ft_FileMetaData t) \<and> valid_utf8 (ft_RemainingTime t)"

definition request_text :: "FileRequest \<Rightarrow> bool" where
  "request_text r \<longleftrightarrow> (\<forall>t \<in> {fr_RequestID r, fr_FileHash r, fr_RequesterID r, fr_RequesterMultiAddress r}. valid_utf8 t)"

definition map_text :: "('a \<Rightarrow> bool) \<Rightarrow> (string \<rightharpoonup> 'a) \<Rightarrow> bool" where
  "map_text P m \<longleftrightarrow> (\<forall>k \<in> dom m. valid_utf8 k \<and> P (the (m k)))"

text \<open>Every string of the state, the keys of its maps included, is text.\<close>

definition state_text :: "AppState \<Rightarrow> bool" where
  "state_text st \<longleftrightarrow> valid_utf8 (as_SBU_ID st) \<and> valid_utf8 (as_DOWNLOAD_DIRECTORY st) \<and>
     map_text valid_utf8 (as_FileHashToPath st) \<and> map_text (\<lambda>_. True) (as_IsFileHashProvided st) \<and>
     map_text (\<lambda>_. True) (as_DownloadStatus st) \<and> map_text header_text (as_MetadataResponse st) \<and>
     map_text transaction_text (as_DownloadHistory st) \<and> (\<forall>r \<in> set (as_FileRequests st). request_text r) \<and>
     (\<forall>h \<in> set (as_ProvidedFiles st). header_text h)"

text \<open>What is relied on of the JSON codec: a state whose strings are text and that was written without an error
  reads back.  Other strings do not: the encoder replaces each invalid byte by U+FFFD.\<close>

definition state_codec :: "p2p \<Rightarrow> bool" where
  "state_codec env \<longleftrightarrow>
     (\<forall>st bs. state_text st \<longrightarrow> jsonState env st = (bs, None) \<longrightarrow> unjsonState env bs = Ok st)"

subsection \<open>Restart\<close>

text \<open>C28: Restart.  Let every string of the node's state be valid UTF-8.  After a save that reports no error,
  starting the node again with the same identity and disk restores the metadata table, the download history and the
  file requests, and nothing else: the shared files, what is provided and the pause flags start empty.  The JSON
  codec is assumed to read back what it wrote without an error for such states only, since the encoder replaces invalid
  bytes; nothing in the node checks the strings that peers send.\<close>

theorem save_then_restart:
  assumes "state_codec env" and "state_text (snapshot s)" and "saveState env s = (Ok (), s')"
    and "openErr env (stateFile (SBU_ID s)) = None"
  shows "startState env (SBU_ID s) (disk s') =
    (Ok (), (initNode (SBU_ID s) (disk s'))\<lparr>metadataResponse := metadataResponse s,
       downloadHistory := downloadHistory s, fileRequests := fileRequests s\<rparr>)"
proof -
  let ?f = "stateFile (SBU_ID s)"
  obtain bs e where js0: "jsonState env (snapshot s) = (bs, e)" by fastforce
  then have js: "jsonState env (snapshot s) = (bs, None)" and
    onDisk: "disk s' (resolve ?f) = Some bs"
    using assms(3) by (auto simp: saveState_def ok_iff write_file_def map_get_def)
  have un: "unjsonState env bs = Ok (snapshot s)" using assms(1,2) js by (simp add: state_codec_def)
  show ?thesis
    using assms(4) onDisk un
    by (simp add: startState_def loadState_def catch_act_def open_file_def bind_act_def
        ignore_err_def recover_err_def wrap_err_def act_defs snapshot_def initNode_def)
qed

text \<open>Saving touches the disk only.\<close>

lemma saveState_frame: "saveState env s = (r, s') \<Longrightarrow> s' = s\<lparr>disk := disk s'\<rparr>"
  by (auto simp: saveState_def bind_act_def act_defs wrap_err_def create_file_def lift_err_def
      write_file_def split: option.splits)

text \<open>A codec that knows one state, for concrete runs.  The state holds the metadata of a
  file whose name is the letter U+00E9.\<close>

definition savedNode :: node where
  "savedNode = demoNode\<lparr>metadataResponse := [''hP'' \<mapsto> demoHeader\<lparr>fh_FileName := [CHR 0xc3, CHR 0xa9]\<rparr>]\<rparr>"

definition demoSave :: p2p where
  "demoSave = demoEnv\<lparr>jsonState := (\<lambda>st. if st = snapshot savedNode then (''S'', None)
       else ('''', Some ''unsupported'')),
     unjsonState := (\<lambda>b. if b = ''S'' then Ok (snapshot savedNode) else Err ''bad'')\<rparr>"

lemma utf8_examples: "valid_utf8 [CHR 0xc3, CHR 0xa9]" "\<not> valid_utf8 [CHR 0xff]" "\<not> valid_utf8 [CHR 0xc0, CHR 0x80]"
  "list_all valid_utf8 [''1'', ''h'', ''hP'', ''f.txt'', ''/f.txt'', ''P'', ''addr'', ''r'', ''downloadstation'']"
  by code_simp+

lemma saved_text: "state_text (snapshot savedNode)"
  using utf8_examples
  by (simp add: state_text_def map_text_def header_text_def snapshot_def savedNode_def demoNode_def initNode_def demoHeader_def
      zeroHeader_def del: valid_utf8.simps(2))

theorem save_then_restart_witness:
  "metadataResponse (snd (startState demoSave ''1'' (disk (snd (saveState demoSave savedNode))))) =
     metadataResponse savedNode"
proof -
  have codec: "state_codec demoSave" by (simp add: state_codec_def demoSave_def)
  have "fst (saveState demoSave savedNode) = Ok ()"
    by (simp add: saveState_def demoSave_def demoEnv_def bind_act_def act_defs wrap_err_def
        create_file_def lift_err_def)
  then have saved: "saveState demoSave savedNode = (Ok (), snd (saveState demoSave savedNode))"
    by (metis prod.collapse)
  have sbu: "SBU_ID savedNode = ''1''" by (simp add: savedNode_def demoNode_def initNode_def)
  show ?thesis
    using save_then_restart [OF codec saved_text saved] sbu by (simp add: demoSave_def demoEnv_def)
qed

end
