(* ===== verification/Bitshare_Rpc.thy ===== *)
theory Bitshare_Rpc
  imports Bitshare_State
begin

text \<open>
  The JSON-RPC service of the file-sharing node (\<open>src/fileshare/rpcserver.go\<close>) and the helpers it
  calls (\<open>src/fileshare/utils.go\<close>, \<open>provideKey\<close> of \<open>src/fileshare/main.go\<close>).  A handler returns its
  reply and the \<open>error\<close> the RPC layer reports, if any.  The DHT, the wallet's HTTP server, SHA-256 and
  the random request identity are the record \<open>services\<close>; \<open>mapOrder\<close> is the order in which the
  runtime walks the keys of a Go map.
\<close>

subsection \<open>Requests and replies\<close>

record GetFileReply =
  gf_Success :: bool
  gf_Message :: string
  gf_RequestID :: string
  gf_FileHash :: string
  gf_Txid :: string

record GetFileMetaDataReply =
  gm_Success :: bool
  gm_FileMetaData :: FileDataHeader

record GetProvidersReply =
  gp_Success :: bool
  gp_Providers :: "string list"

record GetHistoryReply =
  gh_Success :: bool
  gh_RequestedFiles :: "FileRequest list"
  gh_DownloadHistory :: "FileTransaction list"

record GetNodeInfoReply =
  ni_Success :: bool
  ni_PeerID :: string
  ni_MultiAddr :: string
  ni_Status :: string
  ni_Providing :: "FileDataHeader list"

record GetUpdatesReply =
  gu_Success :: bool
  gu_PeerID :: string
  gu_MultiAddr :: string
  gu_Status :: string
  gu_PrivateIP :: bool
  gu_Providing :: "FileDataHeader list"
  gu_IsFileProvided :: "string \<rightharpoonup> bool"
  gu_RequestedFiles :: "FileRequest list"
  gu_Downloads :: "FileTransaction list"

record ProvideFileReply =
  pf_Success :: bool
  pf_Message :: string
  pf_FileHash :: string

record StopProvidingFileReply =
  sp_Success :: bool
  sp_Message :: string

record PauseDownloadReply =
  pd_Success :: bool
  pd_Progress :: string

subsection \<open>Services\<close>

record http_resp =
  statusCode :: int
  statusText :: string
  respBody :: "bytes outcome"

record services =
  dhtGet :: "string \<Rightarrow> bytes outcome"
  dhtPutErr :: "string \<Rightarrow> bytes \<Rightarrow> string option"
  multihashErr :: "string \<Rightarrow> string option"
  dhtProvideErr :: "string \<Rightarrow> string option"
  mapOrder :: "string list \<Rightarrow> string list"
  sha256hex :: "bytes \<Rightarrow> string"
  hashErr :: "string \<Rightarrow> string option"
  statErr :: "string \<Rightarrow> string option"
  newUUID :: string
  routingSize :: int
  parseOther :: "string \<Rightarrow> gofloat \<times> string option"
  reqErr :: "string \<Rightarrow> string option"
  httpGet :: "string \<Rightarrow> http_resp outcome"
  httpSend :: "string \<Rightarrow> string \<Rightarrow> http_resp outcome"
  unjsonMap :: "bytes \<Rightarrow> (string \<rightharpoonup> string) outcome"

subsection \<open>Helpers\<close>

definition generateFileHash :: "p2p \<Rightarrow> services \<Rightarrow> string \<Rightarrow> (node, string) act" where
  "generateFileHash env srv filepath =
    bind_act (open_file env filepath) (\<lambda>content.
    bind_act (lift_err (hashErr srv filepath)) (\<lambda>_. ret_act (sha256hex srv content)))"

definition generateRequestID :: "services \<Rightarrow> string" where
  "generateRequestID srv = newUUID srv"

definition uniqueProviders :: "string list \<Rightarrow> string list" where
  "uniqueProviders ps = fold (\<lambda>p acc. if p \<in> set acc then acc else acc @ [p]) ps []"

definition searchFileOnDHT :: "services \<Rightarrow> string \<Rightarrow> (node, string) act" where
  "searchFileOnDHT srv fileHash =
    (case dhtGet srv (''/orcanet/'' @ fileHash) of
       Ok res \<Rightarrow> ret_act (go_join '','' (mapOrder srv (uniqueProviders (go_split CHR '','' res))))
     | Err _ \<Rightarrow> ret_act []
     | Panic e \<Rightarrow> panic_act e
     | Blocked \<Rightarrow> blocked_act)"

definition provideKey :: "services \<Rightarrow> string \<Rightarrow> (node, unit) act" where
  "provideKey srv key =
    bind_act (wrap_err ''error encoding multihash: '' (lift_err (multihashErr srv key))) (\<lambda>_.
    bind_act (wrap_err ''failed to start providing key: '' (lift_err (dhtProvideErr srv key))) (\<lambda>_.
    upd_act (log_effect (DhtProvide key))))"

definition dhtPutValue :: "services \<Rightarrow> string \<Rightarrow> bytes \<Rightarrow> (node, unit) act" where
  "dhtPutValue srv key val =
    bind_act (lift_err (dhtPutErr srv key val)) (\<lambda>_. upd_act (log_effect (DhtPut key val)))"

definition provideFileOnDHT :: "services \<Rightarrow> string \<Rightarrow> string \<Rightarrow> (node, unit) act" where
  "provideFileOnDHT srv fileHash pid =
    bind_act (searchFileOnDHT srv fileHash) (\<lambda>res.
    let providers = go_split CHR '','' res @ [pid] in
    bind_act (dhtPutValue srv (''/orcanet/'' @ fileHash) (go_join '','' providers)) (\<lambda>_.
    provideKey srv fileHash))"

definition connectAndRequestFileFromPeer ::
  "p2p \<Rightarrow> int \<Rightarrow> string \<Rightarrow> string \<Rightarrow> string \<Rightarrow> (node, unit) act" where
  "connectAndRequestFileFromPeer env now fileHash requestID pid =
    bind_act (connectToNodeUsingRelay env pid)
      (\<lambda>_. sendFileRequestToPeer env now pid fileHash requestID)"

definition connectAndRequestFileMetaDataFromPeer ::
  "p2p \<Rightarrow> int \<Rightarrow> string \<Rightarrow> string \<Rightarrow> (node, unit) act" where
  "connectAndRequestFileMetaDataFromPeer env now fileHash pid =
    bind_act (connectToNodeUsingRelay env pid)
      (\<lambda>_. sendFileMetaDataRequestToPeer env now pid fileHash)"

definition connectAndPauseRequestFromPeer :: "p2p \<Rightarrow> int \<Rightarrow> string \<Rightarrow> bool \<Rightarrow> (node, unit) act" where
  "connectAndPauseRequestFromPeer env now requestID status =
    bind_act (get_act (\<lambda>s. downloadHistory s requestID)) (\<lambda>r. case r of
      None \<Rightarrow> fail_act (''transaction does not exist for requestID '' @ requestID)
    | Some transaction \<Rightarrow>
        bind_act (connectToNodeUsingRelay env (fh_PeerID (ft_FileMetaData transaction))) (\<lambda>_.
        sendPauseRequestToPeer env now (fh_PeerID (ft_FileMetaData transaction)) requestID status))"

text \<open>The common tail of the wallet calls: check the status, read the body, pick a key of the JSON
  object.\<close>

definition walletAnswer :: "services \<Rightarrow> string \<Rightarrow> string \<Rightarrow> http_resp \<Rightarrow> (node, string) act" where
  "walletAnswer srv failure key resp =
    (if statusCode resp \<noteq> 200 then fail_act (failure @ statusText resp)
     else bind_act (lift_out (respBody resp)) (\<lambda>body.
          bind_act (lift_out (unjsonMap srv body)) (\<lambda>result.
          ret_act (map_get [] result key))))"

definition sendCoinToAddress :: "services \<Rightarrow> string \<Rightarrow> gofloat \<Rightarrow> (node, string) act" where
  "sendCoinToAddress srv miningAddress amount =
    bind_act (lift_err (reqErr srv ''/sendToAddress'')) (\<lambda>_.
    bind_act (upd_act (log_effect (Pay miningAddress (fmt_2f amount)))) (\<lambda>_.
    bind_act (lift_out (httpSend srv miningAddress (fmt_2f amount))) (\<lambda>resp.
    walletAnswer srv ''failed to send coin: '' ''txid'' resp)))"

definition checkBalance :: "services \<Rightarrow> (node, string) act" where
  "checkBalance srv =
    bind_act (lift_err (reqErr srv ''/getBalance'')) (\<lambda>_.
    bind_act (lift_out (httpGet srv ''/getBalance'')) (\<lambda>resp.
    walletAnswer srv ''failed to get balance: '' ''balance'' resp))"

definition getMiningAddress :: "services \<Rightarrow> (node, string) act" where
  "getMiningAddress srv =
    bind_act (lift_err (reqErr srv ''/getMiningAddress'')) (\<lambda>_.
    bind_act (lift_out (httpGet srv ''/getMiningAddress'')) (\<lambda>resp.
    walletAnswer srv ''failed to get mining address: '' ''miningAddress'' resp))"

subsection \<open>The service\<close>

definition getFileFailed :: "string \<Rightarrow> GetFileReply" where
  "getFileFailed msg = \<lparr>gf_Success = False, gf_Message = msg, gf_RequestID = [], gf_FileHash = [],
     gf_Txid = []\<rparr>"

text \<open>\<open>walletBalance\<close> is the first part of \<open>GetFile\<close>: a balance that cannot be fetched or parsed does
  not stop the handler, it counts as whatever \<open>strconv.ParseFloat\<close> returns beside its error.\<close>

definition walletBalance :: "services \<Rightarrow> (node, gofloat) act" where
  "walletBalance srv =
    bind_act (catch_act (checkBalance srv)) (\<lambda>b.
    let balance = (case b of Inl _ \<Rightarrow> [] | Inr x \<Rightarrow> x)
    in ret_act (to_f32 (fst (parse_float64 (parseOther srv) balance))))"

definition addFileRequest :: "p2p \<Rightarrow> int \<Rightarrow> string \<Rightarrow> string \<Rightarrow> string \<Rightarrow> node \<Rightarrow> node" where
  "addFileRequest env now requestID fileHash addr s =
    s\<lparr>fileRequests := fileRequests s @
      [\<lparr>fr_RequestID = requestID, fr_FileHash = fileHash, fr_RequesterID = peerID env,
        fr_RequesterMultiAddress = addr, fr_TimeSent = now, fr_Complete = False\<rparr>]\<rparr>"

text \<open>What the metadata receiver, a goroutine of its own, does to the table when the headers of the list reach
  it one after the other.  The key comes from the received header, so any peer may replace any entry.\<close>

definition arriveMetaData ::
  "FileDataHeader list \<Rightarrow> (string \<rightharpoonup> FileDataHeader) \<Rightarrow> (string \<rightharpoonup> FileDataHeader)" where
  "arriveMetaData hs m = fold (\<lambda>h m. m(fh_FileHash h @ fh_PeerID h \<mapsto> h)) hs m"

text \<open>\<open>GetFile\<close> reads the table of metadata twice, for the comparison with the balance and, after the request to
  the peer, for the amount of the payment; \<open>arrived\<close> are the headers that other goroutines receive while
  the request waits for the network, in between.\<close>

definition GetFile ::
  "p2p \<Rightarrow> services \<Rightarrow> int \<Rightarrow> int \<Rightarrow> FileDataHeader list \<Rightarrow> string \<Rightarrow> string \<Rightarrow> (node, GetFileReply \<times> string option) act" where
  "GetFile env srv now now' arrived fileHash pid =
    bind_act (walletBalance srv) (\<lambda>balance.
    bind_act (get_act (\<lambda>s. metadataResponse s (fileHash @ pid))) (\<lambda>meta. case meta of
      None \<Rightarrow> ret_act (getFileFailed
          ''File price metadata does not exist. Request file metadata first'',
        Some ''file price metadata does not exist. Request file metadata first'')
    | Some fileMetaData \<Rightarrow>
        if fl_lt balance (fh_Price fileMetaData)
        then ret_act (getFileFailed ''Insufficient balance to download file'', None)
        else
          let requestID = generateRequestID srv in
          bind_act (addr0 env) (\<lambda>addr.
          bind_act (upd_act (addFileRequest env now requestID fileHash addr)) (\<lambda>_.
          bind_act (catch_act (connectAndRequestFileFromPeer env now' fileHash requestID pid)) (\<lambda>r.
          case r of
            Inl e \<Rightarrow> ret_act (getFileFailed ''Failed to get file. No response from peer'', Some e)
          | Inr _ \<Rightarrow>
              bind_act (upd_act (\<lambda>s. s\<lparr>metadataResponse := arriveMetaData arrived (metadataResponse s)\<rparr>)) (\<lambda>_.
              bind_act (get_act (\<lambda>s. fh_Price (map_get zeroHeader (metadataResponse s) (fileHash @ pid))))
              (\<lambda>price.
              bind_act (catch_act (sendCoinToAddress srv (fh_MiningAddress fileMetaData) price)) (\<lambda>t.
              bind_act (ignore_err (saveState env)) (\<lambda>_.
              ret_act (\<lparr>gf_Success = True, gf_Message = ''File dowloaded successfully'',
                 gf_RequestID = requestID, gf_FileHash = fileHash,
                 gf_Txid = (case t of Inl _ \<Rightarrow> [] | Inr x \<Rightarrow> x)\<rparr>, None))))))))))"

text \<open>The select loop of \<open>GetFileMetaData\<close>: each event is the ten-second timeout or a two-second tick
  with the metadata table as the receiving goroutine has left it by then; both cases return.\<close>

datatype select_event = Timeout | Tick "string \<rightharpoonup> FileDataHeader"

definition metaFailed :: GetFileMetaDataReply where
  "metaFailed = \<lparr>gm_Success = False, gm_FileMetaData = zeroHeader\<rparr>"

fun awaitMetaData ::
  "p2p \<Rightarrow> string \<Rightarrow> string \<Rightarrow> select_event list \<Rightarrow> (node, GetFileMetaDataReply \<times> string option) act"
where
  "awaitMetaData env fileHash pid [] = blocked_act"
| "awaitMetaData env fileHash pid (Timeout # es) =
    bind_act (ignore_err (saveState env))
      (\<lambda>_. ret_act (metaFailed, Some ''timeout while waiting for file meta data''))"
| "awaitMetaData env fileHash pid (Tick m # es) =
    bind_act (upd_act (\<lambda>s. s\<lparr>metadataResponse := m\<rparr>)) (\<lambda>_.
    case m (fileHash @ pid) of
      None \<Rightarrow> ret_act (metaFailed, None)
    | Some metaData \<Rightarrow>
        bind_act (ignore_err (saveState env))
          (\<lambda>_. ret_act (\<lparr>gm_Success = True, gm_FileMetaData = metaData\<rparr>, None)))"

definition GetFileMetaData ::
  "p2p \<Rightarrow> int \<Rightarrow> select_event list \<Rightarrow> string \<Rightarrow> string
     \<Rightarrow> (node, GetFileMetaDataReply \<times> string option) act" where
  "GetFileMetaData env now evs fileHash pid =
    bind_act (catch_act (connectAndRequestFileMetaDataFromPeer env now fileHash pid)) (\<lambda>r. case r of
      Inl e \<Rightarrow> ret_act (metaFailed, Some e)
    | Inr _ \<Rightarrow> awaitMetaData env fileHash pid evs)"

definition GetProviders ::
  "p2p \<Rightarrow> services \<Rightarrow> string \<Rightarrow> (node, GetProvidersReply \<times> string option) act" where
  "GetProviders env srv fileHash =
    bind_act (catch_act (searchFileOnDHT srv fileHash)) (\<lambda>r. case r of
      Inl e \<Rightarrow> ret_act (\<lparr>gp_Success = False, gp_Providers = []\<rparr>, Some e)
    | Inr res \<Rightarrow>
        bind_act (ignore_err (saveState env))
          (\<lambda>_. ret_act (\<lparr>gp_Success = True, gp_Providers = go_split CHR '','' res\<rparr>, None)))"

text \<open>\<open>order\<close> is the order in which the handler's loop walks the download history.\<close>

definition GetHistory :: "p2p \<Rightarrow> string list \<Rightarrow> (node, GetHistoryReply \<times> string option) act" where
  "GetHistory env order =
    bind_act (get_act (\<lambda>s. \<lparr>gh_Success = True, gh_RequestedFiles = fileRequests s,
       gh_DownloadHistory = List.map_filter (downloadHistory s) order\<rparr>)) (\<lambda>reply.
    bind_act (ignore_err (saveState env)) (\<lambda>_. ret_act (reply, None)))"

definition GetNodeInfo :: "p2p \<Rightarrow> (node, GetNodeInfoReply \<times> string option) act" where
  "GetNodeInfo env =
    bind_act (addr0 env) (\<lambda>a.
    bind_act (ignore_err (saveState env)) (\<lambda>_.
    ret_act (\<lparr>ni_Success = True, ni_PeerID = peerID env, ni_MultiAddr = a, ni_Status = ''Online'',
      ni_Providing = []\<rparr>, None)))"

definition updateTransaction :: "FileTransaction \<Rightarrow> FileTransaction" where
  "updateTransaction t =
    (let remainingBytes = wrap64 (fh_FileSize (ft_FileMetaData t) - ft_BytesDownloaded t);
         bps = wrap64 (to_int64 (ft_DownloadSpeed t) * 1024 * 1024);
         t1 = (if bps > 0 \<and> fl_lt (ft_DownloadProgress t) (Fin 1) \<and> remainingBytes > 0
               then t\<lparr>ft_RemainingTime :=
                 duration_string (wrap64 (go_div remainingBytes bps * 1000000000))\<rparr> else t);
         t2 = (if remainingBytes < 0
               then t1\<lparr>ft_DownloadSpeed := Fin 0, ft_RemainingTime := ''Finishing Download...''\<rparr>
               else t1)
     in if fl_ge (ft_DownloadProgress t2) (Fin 1)
        then t2\<lparr>ft_RemainingTime := ''Download Completed''\<rparr> else t2)"

definition isPrivateAddr :: "string \<Rightarrow> bool" where
  "isPrivateAddr a = (has_prefix a ''172.16.'' \<or> has_prefix a ''10.'' \<or> has_prefix a ''192.168.'')"

definition GetUpdates ::
  "p2p \<Rightarrow> services \<Rightarrow> string list \<Rightarrow> (node, GetUpdatesReply \<times> string option) act" where
  "GetUpdates env srv order =
    bind_act (addr0 env) (\<lambda>a.
    bind_act (get_act (\<lambda>s. \<lparr>gu_Success = True, gu_PeerID = peerID env, gu_MultiAddr = a,
       gu_Status = (if routingSize srv > 0 then ''Online'' else ''Offline''),
       gu_PrivateIP = list_ex isPrivateAddr (nodeAddrs env),
       gu_Providing = providedFiles s, gu_IsFileProvided = isFileHashProvided s,
       gu_RequestedFiles = fileRequests s,
       gu_Downloads = map updateTransaction (List.map_filter (downloadHistory s) order)\<rparr>)) (\<lambda>reply.
    bind_act (ignore_err (saveState env)) (\<lambda>_. ret_act (reply, None))))"

definition markProvided :: "string \<Rightarrow> string \<Rightarrow> node \<Rightarrow> node" where
  "markProvided fileHash filepath s =
    s\<lparr>fileHashToPath := (fileHashToPath s)(fileHash \<mapsto> filepath),
      isFileHashProvided := (isFileHashProvided s)(fileHash \<mapsto> True)\<rparr>"

definition addProvidedFile :: "FileDataHeader \<Rightarrow> node \<Rightarrow> node" where
  "addProvidedFile h s = s\<lparr>providedFiles := providedFiles s @ [h]\<rparr>"

definition announceFile ::
  "p2p \<Rightarrow> services \<Rightarrow> string \<Rightarrow> gofloat \<Rightarrow> string \<Rightarrow> bytes \<Rightarrow> (node, ProvideFileReply \<times> string option) act"
where
  "announceFile env srv filepath price fileHash content =
    bind_act (catch_act (getMiningAddress srv)) (\<lambda>m.
    bind_act (addr0 env) (\<lambda>a.
    bind_act (upd_act (addProvidedFile \<lparr>fh_FileName = go_base filepath,
      fh_FileSize = int (length content), fh_FileHash = fileHash, fh_FileExtension = go_ext filepath,
      fh_Multiaddress = a, fh_PeerID = peerID env, fh_Price = to_f32 price,
      fh_MiningAddress = (case m of Inl _ \<Rightarrow> [] | Inr x \<Rightarrow> x), fh_RequestID = [],
      fh_Provided = False\<rparr>)) (\<lambda>_.
    bind_act (ignore_err (saveState env)) (\<lambda>_.
    ret_act (\<lparr>pf_Success = True, pf_Message = ''File is now available on OrcaNet'',
      pf_FileHash = fileHash\<rparr>, None)))))"

definition publishFile ::
  "p2p \<Rightarrow> services \<Rightarrow> string \<Rightarrow> gofloat \<Rightarrow> string \<Rightarrow> (node, ProvideFileReply \<times> string option) act" where
  "publishFile env srv filepath price fileHash =
    bind_act (upd_act (markProvided fileHash filepath)) (\<lambda>_.
    bind_act (catch_act (wrap_err ''sendFileToPeer: '' (bind_act (open_file env filepath)
      (\<lambda>content. bind_act (lift_err (statErr srv filepath)) (\<lambda>_. ret_act content))))) (\<lambda>f. case f of
      Inl e \<Rightarrow> ret_act (\<lparr>pf_Success = False, pf_Message = [], pf_FileHash = []\<rparr>, Some e)
    | Inr content \<Rightarrow> announceFile env srv filepath price fileHash content))"

definition ProvideFile ::
  "p2p \<Rightarrow> services \<Rightarrow> string \<Rightarrow> gofloat \<Rightarrow> (node, ProvideFileReply \<times> string option) act" where
  "ProvideFile env srv filepath price =
    bind_act (catch_act (generateFileHash env srv filepath)) (\<lambda>r. case r of
      Inl e \<Rightarrow> ret_act (\<lparr>pf_Success = False, pf_Message = ''Failed to generate file hash'',
                 pf_FileHash = []\<rparr>, Some e)
    | Inr fileHash \<Rightarrow>
        bind_act (catch_act (provideFileOnDHT srv fileHash (peerID env))) (\<lambda>p. case p of
          Inl e \<Rightarrow> ret_act (\<lparr>pf_Success = False, pf_Message = ''Failed to provide file'',
                     pf_FileHash = []\<rparr>, Some e)
        | Inr _ \<Rightarrow> publishFile env srv filepath price fileHash))"

definition setProvided ::
  "p2p \<Rightarrow> bool \<Rightarrow> string \<Rightarrow> string \<Rightarrow> (node, StopProvidingFileReply \<times> string option) act" where
  "setProvided env b msg fileHash =
    bind_act (get_act (\<lambda>s. isFileHashProvided s fileHash)) (\<lambda>r. case r of
      None \<Rightarrow> ret_act (\<lparr>sp_Success = False,
        sp_Message = ''File hash not provided by node. Check file hash.''\<rparr>, None)
    | Some _ \<Rightarrow>
        bind_act (upd_act (\<lambda>s. s\<lparr>isFileHashProvided := (isFileHashProvided s)(fileHash \<mapsto> b)\<rparr>)) (\<lambda>_.
        bind_act (ignore_err (saveState env)) (\<lambda>_.
        ret_act (\<lparr>sp_Success = True, sp_Message = msg\<rparr>, None))))"

definition StopProvidingFile ::
  "p2p \<Rightarrow> string \<Rightarrow> (node, StopProvidingFileReply \<times> string option) act" where
  "StopProvidingFile env fileHash =
    setProvided env False ''File is no longer available on OrcaNet'' fileHash"

definition ResumeProvidingFile ::
  "p2p \<Rightarrow> string \<Rightarrow> (node, StopProvidingFileReply \<times> string option) act" where
  "ResumeProvidingFile env fileHash =
    setProvided env True ''File is now available on OrcaNet'' fileHash"

definition setDownload ::
  "p2p \<Rightarrow> int \<Rightarrow> bool \<Rightarrow> string \<Rightarrow> (node, PauseDownloadReply \<times> string option) act" where
  "setDownload env now status requestID =
    bind_act (catch_act (connectAndPauseRequestFromPeer env now requestID status)) (\<lambda>r. case r of
      Inl e \<Rightarrow> ret_act (\<lparr>pd_Success = False, pd_Progress = []\<rparr>, Some e)
    | Inr _ \<Rightarrow> bind_act (ignore_err (saveState env))
        (\<lambda>_. ret_act (\<lparr>pd_Success = True, pd_Progress = []\<rparr>, None)))"

definition PauseDownload ::
  "p2p \<Rightarrow> int \<Rightarrow> string \<Rightarrow> (node, PauseDownloadReply \<times> string option) act" where
  "PauseDownload env now requestID = setDownload env now False requestID"

definition ResumeDownload ::
  "p2p \<Rightarrow> int \<Rightarrow> string \<Rightarrow> (node, PauseDownloadReply \<times> string option) act" where
  "ResumeDownload env now requestID = setDownload env now True requestID"

subsection \<open>Payments\<close>

fun pays :: "effect list \<Rightarrow> (string \<times> string) list" where
  "pays [] = []"
| "pays (Pay a v # es) = (a, v) # pays es"
| "pays (_ # es) = pays es"

lemma pays_append [simp]: "pays (es @ fs) = pays es @ pays fs"
  by (induction es rule: pays.induct) auto

lemma pays_talk: "\<forall>e \<in> set es. talk_effect t ps e \<Longrightarrow> pays es = []"
  by (induction es rule: pays.induct) (auto simp: talk_effect_def)

lemma talks_pays: "talks t ps s s' \<Longrightarrow> pays (effects s') = pays (effects s)"
  by (auto simp: talks_def dest: pays_talk)

lemma talks_fields:
  assumes "talks t ps s s'"
  shows "metadataResponse s' = metadataResponse s" "fileRequests s' = fileRequests s"
    "isFileHashProvided s' = isFileHashProvided s" "fileHashToPath s' = fileHashToPath s"
    "providedFiles s' = providedFiles s" "downloadHistory s' = downloadHistory s"
    "downloadStatus s' = downloadStatus s" "disk s' = disk s"
    "DOWNLOAD_DIRECTORY s' = DOWNLOAD_DIRECTORY s" "SBU_ID s' = SBU_ID s"
  using assms by (auto simp: talks_def)

lemma talks_request:
  "act_rel (talks (trim_space pid) {''/sendmessage/p2p''})
     (connectAndRequestFileFromPeer env now h rid pid)"
  unfolding connectAndRequestFileFromPeer_def by (intro talk.rel_bind rel_connect rel_sendRequests)

lemma saveState_pays: "pays (effects (snd (ignore_err (saveState env) s))) = pays (effects s)"
proof -
  obtain r s' where r: "saveState env s = (r, s')" by fastforce
  then have "effects s' = effects s"
    using saveState_frame [OF r] by (metis node.ext_inject node.surjective node.update_convs(11))
  with r show ?thesis
    by (auto simp: ignore_err_def recover_err_def act_defs split: outcome.splits)
qed

text \<open>Saving, its error ignored, always returns.\<close>

lemma saveState_ignored: "\<exists>s'. ignore_err (saveState env) s = (Ok (), s') \<and> s' = s\<lparr>disk := disk s'\<rparr>"
proof -
  obtain r s' where r: "saveState env s = (r, s')" by fastforce
  then have "(\<exists>e. r = Err e) \<or> r = Ok ()"
    by (auto simp: saveState_def bind_act_def act_defs wrap_err_def create_file_def lift_err_def
        split: option.splits)
  with r saveState_frame [OF r] show ?thesis
    by (auto simp: ignore_err_def recover_err_def act_defs)
qed

lemma walletAnswer_state: "snd (walletAnswer srv f k resp s) = s"
  by (auto simp: walletAnswer_def bind_act_def act_defs split: outcome.splits prod.splits)

lemma walletBalance_state: "snd (walletBalance srv s) = s"
proof -
  have "snd (checkBalance srv s) = s"
    using walletAnswer_state
    by (auto simp: checkBalance_def bind_act_def act_defs lift_err_def
        split: option.splits outcome.splits prod.splits)
  then show ?thesis
    by (auto simp: walletBalance_def bind_act_def catch_act_def act_defs Let_def
        split: outcome.splits prod.splits)
qed

lemma sendCoin_pays:
  assumes "sendCoinToAddress srv a v s = (r, s')"
  shows "s' = s\<lparr>effects := effects s'\<rparr> \<and> msgs (effects s') = msgs (effects s) \<and>
    (pays (effects s') = pays (effects s) @ [(a, fmt_2f v)] \<or>
     reqErr srv ''/sendToAddress'' \<noteq> None \<and> pays (effects s') = pays (effects s))"
proof (cases "reqErr srv ''/sendToAddress''")
  case None
  have "s' = log_effect (Pay a (fmt_2f v)) s"
  proof (cases "httpSend srv a (fmt_2f v)")
    case (Ok resp)
    with None assms have "walletAnswer srv ''failed to send coin: '' ''txid'' resp
        (log_effect (Pay a (fmt_2f v)) s) = (r, s')"
      by (simp add: sendCoinToAddress_def run)
    then show ?thesis using walletAnswer_state by (metis snd_conv)
  qed (use None assms in \<open>auto simp: sendCoinToAddress_def bind_act_def act_defs lift_err_def\<close>)
  then show ?thesis by (simp add: log_effect_def)
next
  case (Some e)
  with assms show ?thesis by (simp add: sendCoinToAddress_def run)
qed

text \<open>A file request that was sent is on the wire.\<close>

lemma request_sent:
  assumes "connectAndRequestFileFromPeer env now h rid pid s = (Ok (), s')"
  shows "\<exists>a bs. nodeAddrs env \<noteq> [] \<and> a = hd (nodeAddrs env) \<and>
    jsonFileRequest env \<lparr>fr_RequestID = rid, fr_FileHash = h, fr_RequesterID = peerID env,
      fr_RequesterMultiAddress = a, fr_TimeSent = now, fr_Complete = False\<rparr> = Ok bs \<and>
    msgs (effects s') = msgs (effects s) @ [(trim_space pid, ''/sendmessage/p2p'', bs)]"
proof -
  obtain s1 st s2 a bs where c: "connectToNodeUsingRelay env pid s = (Ok (), s1)"
    and o: "createStream env pid ''/sendmessage/p2p'' s1 = (Ok st, s2)"
    and a: "nodeAddrs env \<noteq> []" "a = hd (nodeAddrs env)"
    and js: "jsonFileRequest env \<lparr>fr_RequestID = rid, fr_FileHash = h, fr_RequesterID = peerID env,
      fr_RequesterMultiAddress = a, fr_TimeSent = now, fr_Complete = False\<rparr> = Ok bs"
    and s': "s' = log_effect (Write (fst st) (snd st) bs) s2"
    using assms
    by (auto simp: connectAndRequestFileFromPeer_def sendFileRequestToPeer_def ok_iff addr0_def
        split: list.splits)
  have "msgs (effects s1) = msgs (effects s)"
    using c by (auto simp: connectToNodeUsingRelay_def Let_def ok_iff attempt_def
        split: if_splits option.splits)
  with a js s' createStream_handle [OF o] createStream_state [OF o] show ?thesis by auto
qed

text \<open>The price that \<open>GetFile\<close> reads for the payment: the one it has compared, or that of a header for the
  same key that arrived in between.\<close>

abbreviation latePrice :: "FileDataHeader list \<Rightarrow> node \<Rightarrow> string \<Rightarrow> gofloat" where
  "latePrice arrived s k \<equiv> fh_Price (map_get zeroHeader (arriveMetaData arrived (metadataResponse s)) k)"

lemma arriveMetaData_lookup:
  "arriveMetaData hs m k = m k \<or>
   (\<exists>h \<in> set hs. fh_FileHash h @ fh_PeerID h = k \<and> arriveMetaData hs m k = Some h)"
  unfolding arriveMetaData_def by (induction hs rule: rev_induct) auto

lemma latePrice_cases:
  assumes "metadataResponse s k = Some md"
  shows "latePrice arrived s k = fh_Price md \<or>
    (\<exists>h \<in> set arrived. fh_FileHash h @ fh_PeerID h = k \<and> latePrice arrived s k = fh_Price h)"
  using arriveMetaData_lookup [of arrived "metadataResponse s" k] assms by (auto simp: map_get_def)

lemma arriveMetaData_last: "arriveMetaData (hs @ [h]) m (fh_FileHash h @ fh_PeerID h) = Some h"
  by (simp add: arriveMetaData_def)

text \<open>The last part of \<open>GetFile\<close>, once the request is out: pay, save, report success.  Nothing after
  the payment adds an effect.\<close>

lemma metadata_after_request:
  assumes "connectAndRequestFileFromPeer env now' h rid pid (addFileRequest env now rid h a s) = (r, s1)"
  shows "metadataResponse s1 = metadataResponse s"
proof -
  have "talks (trim_space pid) {''/sendmessage/p2p''} (addFileRequest env now rid h a s) s1"
    using talks_request assms unfolding act_rel_def by (metis snd_conv)
  from talks_fields(1) [OF this] show ?thesis by (simp add: addFileRequest_def)
qed

lemma GetFile_paid:
  assumes bal: "walletBalance srv s = (Ok b, s)" and meta: "metadataResponse s (h @ pid) = Some md"
    and price: "\<not> fl_lt b (fh_Price md)" and addr: "nodeAddrs env = a # as"
    and sent: "connectAndRequestFileFromPeer env now' h (newUUID srv) pid
      (addFileRequest env now (newUUID srv) h a s) = (Ok (), s1)"
    and pay: "sendCoinToAddress srv (fh_MiningAddress md) (latePrice arrived s (h @ pid))
      (s1\<lparr>metadataResponse := arriveMetaData arrived (metadataResponse s)\<rparr>) = (r, s2)"
  shows "\<exists>s3. GetFile env srv now now' arrived h pid s = ((case r of
        Panic e \<Rightarrow> Panic e | Blocked \<Rightarrow> Blocked
      | _ \<Rightarrow> Ok (\<lparr>gf_Success = True, gf_Message = ''File dowloaded successfully'',
          gf_RequestID = newUUID srv, gf_FileHash = h,
          gf_Txid = (case r of Ok x \<Rightarrow> x | _ \<Rightarrow> [])\<rparr>, None)), s3) \<and>
      s3 = s2\<lparr>disk := disk s3\<rparr>"
proof -
  obtain s3 where "ignore_err (saveState env) s2 = (Ok (), s3)" "s3 = s2\<lparr>disk := disk s3\<rparr>"
    using saveState_ignored by blast
  then show ?thesis
    using assms metadata_after_request [OF sent]
    by (cases r) (auto simp: GetFile_def bind_act_def act_defs addr0_def catch_act_def
        generateRequestID_def Let_def intro!: exI [of _ s2])
qed

lemma GetFile_pays:
  "pays (effects (snd (GetFile env srv now now' arrived h pid s))) = pays (effects s) \<or>
   (\<exists>md b bs price. metadataResponse s (h @ pid) = Some md \<and> walletBalance srv s = (Ok b, s) \<and>
     \<not> fl_lt b (fh_Price md) \<and>
     (trim_space pid, ''/sendmessage/p2p'', bs)
       \<in> set (msgs (effects (snd (GetFile env srv now now' arrived h pid s)))) \<and>
     jsonFileRequest env \<lparr>fr_RequestID = newUUID srv, fr_FileHash = h, fr_RequesterID = peerID env,
       fr_RequesterMultiAddress = hd (nodeAddrs env), fr_TimeSent = now', fr_Complete = False\<rparr> = Ok bs \<and>
     (price = fh_Price md \<or>
      (\<exists>md' \<in> set arrived. fh_FileHash md' @ fh_PeerID md' = h @ pid \<and> price = fh_Price md')) \<and>
     pays (effects (snd (GetFile env srv now now' arrived h pid s))) =
       pays (effects s) @ [(fh_MiningAddress md, fmt_2f price)])"
proof -
  let ?G = "GetFile env srv now now' arrived h pid s"
  obtain rb where rb: "walletBalance srv s = (rb, s)"
    using walletBalance_state [of srv s] by (metis prod.collapse)
  show ?thesis
  proof (cases "\<exists>b md a as. rb = Ok b \<and> metadataResponse s (h @ pid) = Some md \<and>
      \<not> fl_lt b (fh_Price md) \<and> nodeAddrs env = a # as")
    case False
    then show ?thesis using rb
      by (cases rb; cases "metadataResponse s (h @ pid)"; cases "nodeAddrs env")
        (auto simp: GetFile_def bind_act_def act_defs addr0_def Let_def)
  next
    case True
    then obtain b md a as where T: "rb = Ok b" "metadataResponse s (h @ pid) = Some md"
      "\<not> fl_lt b (fh_Price md)" "nodeAddrs env = a # as" by blast
    let ?s0 = "addFileRequest env now (newUUID srv) h a s" and ?p = "latePrice arrived s (h @ pid)"
    obtain rc s1 where c: "connectAndRequestFileFromPeer env now' h (newUUID srv) pid ?s0 = (rc, s1)"
      by fastforce
    have tk: "talks (trim_space pid) {''/sendmessage/p2p''} ?s0 s1"
      using talks_request c unfolding act_rel_def by (metis snd_conv)
    have p1: "pays (effects s1) = pays (effects s)"
      using talks_pays [OF tk] by (simp add: addFileRequest_def)
    show ?thesis
    proof (cases "rc = Ok ()")
      case False
      then have "snd ?G = s1"
        using rb T c by (cases rc) (auto simp: GetFile_def bind_act_def act_defs addr0_def
            catch_act_def generateRequestID_def Let_def)
      with p1 show ?thesis by simp
    next
      case ok: True
      let ?s1 = "s1\<lparr>metadataResponse := arriveMetaData arrived (metadataResponse s)\<rparr>"
      obtain r s2 where pay: "sendCoinToAddress srv (fh_MiningAddress md) ?p ?s1 = (r, s2)" by fastforce
      obtain s3 where s3: "snd ?G = s3" "s3 = s2\<lparr>disk := disk s3\<rparr>"
        using GetFile_paid [OF rb [unfolded T(1)] T(2,3,4) c [unfolded ok] pay] by (metis snd_conv)
      have eff: "effects s3 = effects s2" by (subst s3(2)) simp
      obtain bs where "jsonFileRequest env \<lparr>fr_RequestID = newUUID srv, fr_FileHash = h, fr_RequesterID = peerID env,
          fr_RequesterMultiAddress = hd (nodeAddrs env), fr_TimeSent = now', fr_Complete = False\<rparr> = Ok bs"
        "(trim_space pid, ''/sendmessage/p2p'', bs) \<in> set (msgs (effects (snd ?G)))"
        using request_sent [OF c [unfolded ok]] sendCoin_pays [OF pay] s3(1) eff by auto
      moreover have "pays (effects (snd ?G)) = pays (effects s) \<or>
          pays (effects (snd ?G)) = pays (effects s) @ [(fh_MiningAddress md, fmt_2f ?p)]"
        using sendCoin_pays [OF pay] s3(1) eff p1 by auto
      ultimately show ?thesis using T rb latePrice_cases [OF T(2), of arrived] by blast
    qed
  qed
qed


text \<open>C39: The price is read twice.  Let the balance pass the comparison with the price of the known metadata and the
  request go out, and let the payment request be built without an error.  If the last header that arrives meanwhile has the same hash and peer, then the node pays
  the price of that header, to the address of the old one, whatever the balance is: the sender of a header chooses
  what is paid after the check.\<close>

theorem GetFile_pays_unchecked_price:
  assumes "walletBalance srv s = (Ok b, s)" and "metadataResponse s (h @ pid) = Some md"
    and "\<not> fl_lt b (fh_Price md)" and "nodeAddrs env = a # as"
    and "fst (connectAndRequestFileFromPeer env now' h (newUUID srv) pid
      (addFileRequest env now (newUUID srv) h a s)) = Ok ()"
    and "reqErr srv ''/sendToAddress'' = None" and "fh_FileHash md' @ fh_PeerID md' = h @ pid"
  shows "pays (effects (snd (GetFile env srv now now' (arrived @ [md']) h pid s))) =
    pays (effects s) @ [(fh_MiningAddress md, fmt_2f (fh_Price md'))]"
proof -
  obtain s1 where sent: "connectAndRequestFileFromPeer env now' h (newUUID srv) pid
      (addFileRequest env now (newUUID srv) h a s) = (Ok (), s1)"
    using assms(5) by (metis prod.collapse)
  have "talks (trim_space pid) {''/sendmessage/p2p''} (addFileRequest env now (newUUID srv) h a s) s1"
    using talks_request sent unfolding act_rel_def by (metis snd_conv)
  then have p1: "pays (effects s1) = pays (effects s)" using talks_pays by (fastforce simp: addFileRequest_def)
  have price: "latePrice (arrived @ [md']) s (h @ pid) = fh_Price md'"
    using arriveMetaData_last [of arrived md'] assms(7) by (simp add: map_get_def)
  let ?s1 = "s1\<lparr>metadataResponse := arriveMetaData (arrived @ [md']) (metadataResponse s)\<rparr>"
  obtain r s2 where pay: "sendCoinToAddress srv (fh_MiningAddress md) (latePrice (arrived @ [md']) s (h @ pid)) ?s1 = (r, s2)"
    by fastforce
  obtain s3 where s3: "snd (GetFile env srv now now' (arrived @ [md']) h pid s) = s3" "s3 = s2\<lparr>disk := disk s3\<rparr>"
    using GetFile_paid [OF assms(1-4) sent pay] by (metis snd_conv)
  have "effects s3 = effects s2" by (subst s3(2)) simp
  then show ?thesis using sendCoin_pays [OF pay] price p1 s3(1) assms(6) by auto
qed

text \<open>C38: \<open>GetFile\<close> reports success although nothing was paid.  When the request went out and the wallet
  server cannot be reached for the payment, the reply still says that the file was downloaded
  successfully, with an empty transaction identity and no error.\<close>

theorem GetFile_success_without_payment:
  assumes "walletBalance srv s = (Ok b, s)" and "metadataResponse s (h @ pid) = Some md"
    and "\<not> fl_lt b (fh_Price md)" and "nodeAddrs env = a # as"
    and "fst (connectAndRequestFileFromPeer env now' h (newUUID srv) pid
      (addFileRequest env now (newUUID srv) h a s)) = Ok ()"
    and "httpSend srv (fh_MiningAddress md) (fmt_2f (latePrice arrived s (h @ pid))) = Err e"
  shows "fst (GetFile env srv now now' arrived h pid s) =
    Ok (\<lparr>gf_Success = True, gf_Message = ''File dowloaded successfully'', gf_RequestID = newUUID srv,
         gf_FileHash = h, gf_Txid = []\<rparr>, None)"
proof -
  obtain s1 where sent: "connectAndRequestFileFromPeer env now' h (newUUID srv) pid
      (addFileRequest env now (newUUID srv) h a s) = (Ok (), s1)"
    using assms(5) by (metis prod.collapse)
  obtain e' s2 where "sendCoinToAddress srv (fh_MiningAddress md) (latePrice arrived s (h @ pid))
      (s1\<lparr>metadataResponse := arriveMetaData arrived (metadataResponse s)\<rparr>) = (Err e', s2)"
    using assms(6)
    by (cases "reqErr srv ''/sendToAddress''") (auto simp: sendCoinToAddress_def run)
  from GetFile_paid [OF assms(1-4) sent this] show ?thesis by auto
qed

text \<open>Prices below half a cent are free: the amount of the payment request is printed with two
  decimals, so it reads \<open>0.00\<close>.\<close>

theorem tiny_price_pays_nothing:
  assumes "0 \<le> q" and "q < 1/200" and "reqErr srv ''/sendToAddress'' = None"
  shows "effects (snd (sendCoinToAddress srv a (Fin q) s)) = effects s @ [Pay a ''0.00'']"
proof -
  have "snd (sendCoinToAddress srv a (Fin q) s) = log_effect (Pay a (fmt_2f (Fin q))) s"
    using assms(3) walletAnswer_state
    by (cases "httpSend srv a (fmt_2f (Fin q))")
      (auto simp del: fmt_2f.simps simp: sendCoinToAddress_def bind_act_def act_defs lift_err_def)
  then show ?thesis using fmt_2f_tiny [OF assms(1,2)] by (simp del: fmt_2f.simps)
qed

subsection \<open>Providers\<close>

lemma uniqueProviders_aux:
  "distinct acc \<Longrightarrow>
   distinct (fold (\<lambda>p acc. if p \<in> set acc then acc else acc @ [p]) ps acc) \<and>
   set (fold (\<lambda>p acc. if p \<in> set acc then acc else acc @ [p]) ps acc) = set acc \<union> set ps"
  by (induction ps arbitrary: acc) auto

lemma uniqueProviders: "distinct (uniqueProviders ps)" "set (uniqueProviders ps) = set ps"
  using uniqueProviders_aux [of "[]" ps] by (simp_all add: uniqueProviders_def)

text \<open>The runtime walks each key of a map once.\<close>

definition fair_order :: "services \<Rightarrow> bool" where
  "fair_order srv \<longleftrightarrow> (\<forall>ks. mset (mapOrder srv ks) = mset ks)"

lemma search_result:
  assumes "fair_order srv" and "dhtGet srv (''/orcanet/'' @ h) = Ok res"
  obtains v where "searchFileOnDHT srv h s = (Ok v, s)" and "distinct (go_split CHR '','' v)"
    and "set (go_split CHR '','' v) = set (go_split CHR '','' res)"
proof -
  let ?ks = "uniqueProviders (go_split CHR '','' res)"
  have m: "mset (mapOrder srv ?ks) = mset ?ks" using assms(1) by (simp add: fair_order_def)
  then have st: "set (mapOrder srv ?ks) = set (go_split CHR '','' res)"
    using uniqueProviders(2) by (metis set_mset_mset)
  have d: "distinct (mapOrder srv ?ks)" using m uniqueProviders(1) by (metis mset_eq_imp_distinct_iff)
  have "mapOrder srv ?ks \<noteq> []" using st by (metis empty_set go_split_neq_Nil set_empty)
  then have "go_split CHR '','' (go_join '','' (mapOrder srv ?ks)) = mapOrder srv ?ks"
    by (rule go_split_join) (use st go_split_no_sep in auto)
  with that assms(2) st d show thesis by (simp add: searchFileOnDHT_def act_defs)
qed

lemma search_nothing:
  "dhtGet srv (''/orcanet/'' @ h) = Err e \<Longrightarrow> searchFileOnDHT srv h s = (Ok [], s)"
  by (simp add: searchFileOnDHT_def act_defs)

lemma provideFileOnDHT_record:
  assumes "fair_order srv" and "CHR '','' \<notin> set pid"
    and "provideFileOnDHT srv h pid s = (Ok (), s')"
  obtains v where "effects s' = effects s @ [DhtPut (''/orcanet/'' @ h) v, DhtProvide h]"
    and "\<And>res. dhtGet srv (''/orcanet/'' @ h) = Ok res \<Longrightarrow>
      set (go_split CHR '','' v) = insert pid (set (go_split CHR '','' res))"
    and "\<And>e. dhtGet srv (''/orcanet/'' @ h) = Err e \<Longrightarrow> set (go_split CHR '','' v) = {[], pid}"
    and "\<exists>res e. dhtGet srv (''/orcanet/'' @ h) \<in> {Ok res, Err e}"
proof -
  obtain res where sr: "searchFileOnDHT srv h s = (Ok res, s)"
    and ok: "\<And>x. dhtGet srv (''/orcanet/'' @ h) = Ok x \<Longrightarrow> set (go_split CHR '','' res) = set (go_split CHR '','' x)"
    and err: "\<And>e. dhtGet srv (''/orcanet/'' @ h) = Err e \<Longrightarrow> res = []"
    and some: "\<exists>x e. dhtGet srv (''/orcanet/'' @ h) \<in> {Ok x, Err e}"
  proof (cases "dhtGet srv (''/orcanet/'' @ h)")
    case (Ok x)
    obtain v where "searchFileOnDHT srv h s = (Ok v, s)"
      "set (go_split CHR '','' v) = set (go_split CHR '','' x)"
      using search_result [OF assms(1) Ok] by blast
    with that Ok show thesis by simp
  next
    case (Err e)
    with that search_nothing [OF Err] show thesis by simp
  qed (use assms(3) in \<open>auto simp: provideFileOnDHT_def ok_iff searchFileOnDHT_def\<close>)
  let ?v = "go_join '','' (go_split CHR '','' res @ [pid])"
  have eff: "effects s' = effects s @ [DhtPut (''/orcanet/'' @ h) ?v, DhtProvide h]"
    using assms(3) sr by (auto simp: provideFileOnDHT_def dhtPutValue_def provideKey_def ok_iff Let_def)
  have split: "go_split CHR '','' ?v = go_split CHR '','' res @ [pid]"
    by (rule go_split_join) (use assms(2) go_split_no_sep in auto)
  show thesis
  proof (rule that [OF eff])
    show "set (go_split CHR '','' ?v) = insert pid (set (go_split CHR '','' x))"
      if "dhtGet srv (''/orcanet/'' @ h) = Ok x" for x using split ok [OF that] by simp
    show "set (go_split CHR '','' ?v) = {[], pid}" if "dhtGet srv (''/orcanet/'' @ h) = Err e" for e
      unfolding split by (simp add: err [OF that] insert_commute)
  qed (rule some)
qed

text \<open>C35: Provide, then look up.  Let a node provide a file and a later \<open>GetProviders\<close> read the record it stored.
  Then \<open>GetProviders\<close> succeeds and lists each provider of the record once.  If the lookup before the record was stored
  returned a record, these are exactly the names in that record and the node.  If that lookup failed, they are the
  node and the empty name: a file without a record gets an empty provider, and when the lookup failed for
  another reason every provider that was recorded before is lost.  The name of the node has no comma, and
  the runtime enumerates each key of a map once.\<close>

theorem provide_then_GetProviders:
  assumes "fair_order srv" and "fair_order srv'" and "CHR '','' \<notin> set pid"
    and "provideFileOnDHT srv h pid s = (Ok (), s')"
    and "\<And>v. effects s' = effects s @ [DhtPut (''/orcanet/'' @ h) v, DhtProvide h] \<Longrightarrow>
           dhtGet srv' (''/orcanet/'' @ h) = Ok v"
  shows "\<exists>rep. fst (GetProviders env srv' h n) = Ok (rep, None) \<and> gp_Success rep \<and>
    distinct (gp_Providers rep) \<and>
    ((\<exists>res. dhtGet srv (''/orcanet/'' @ h) = Ok res \<and>
        set (gp_Providers rep) = insert pid (set (go_split CHR '','' res))) \<or>
     (\<exists>e. dhtGet srv (''/orcanet/'' @ h) = Err e \<and> set (gp_Providers rep) = {[], pid}))"
proof -
  obtain v where v: "effects s' = effects s @ [DhtPut (''/orcanet/'' @ h) v, DhtProvide h]"
    and named: "\<And>res. dhtGet srv (''/orcanet/'' @ h) = Ok res \<Longrightarrow>
      set (go_split CHR '','' v) = insert pid (set (go_split CHR '','' res))"
      "\<And>e. dhtGet srv (''/orcanet/'' @ h) = Err e \<Longrightarrow> set (go_split CHR '','' v) = {[], pid}"
      "\<exists>res e. dhtGet srv (''/orcanet/'' @ h) \<in> {Ok res, Err e}"
    using provideFileOnDHT_record [OF assms(1,3,4)] by blast
  obtain w where w: "searchFileOnDHT srv' h n = (Ok w, n)" "distinct (go_split CHR '','' w)"
    "set (go_split CHR '','' w) = set (go_split CHR '','' v)"
    by (rule search_result [OF assms(2) assms(5) [OF v]])
  obtain n' where n': "ignore_err (saveState env) n = (Ok (), n')" using saveState_ignored by blast
  have "fst (GetProviders env srv' h n) = Ok (\<lparr>gp_Success = True, gp_Providers = go_split CHR '','' w\<rparr>, None)"
    using w(1) n' by (simp add: GetProviders_def bind_act_def catch_act_def act_defs)
  moreover have "(\<exists>res. dhtGet srv (''/orcanet/'' @ h) = Ok res \<and>
        set (go_split CHR '','' w) = insert pid (set (go_split CHR '','' res))) \<or>
     (\<exists>e. dhtGet srv (''/orcanet/'' @ h) = Err e \<and> set (go_split CHR '','' w) = {[], pid})"
    using named w(3) by (metis insertE singletonD)
  ultimately show ?thesis using w(2) by auto
qed

text \<open>The first provider of a file leaves an empty name in the record: providing a hash without a
  record stores a comma followed by the node's identity.\<close>

theorem first_provider_record:
  assumes "dhtGet srv (''/orcanet/'' @ h) = Err e"
    and "dhtPutErr srv (''/orcanet/'' @ h) ('','' @ pid) = None"
  shows "DhtPut (''/orcanet/'' @ h) ('','' @ pid) \<in> set (effects (snd (provideFileOnDHT srv h pid s)))"
  using assms
  by (auto simp: provideFileOnDHT_def searchFileOnDHT_def dhtPutValue_def provideKey_def run Let_def
      bind_act_def act_defs lift_err_def wrap_err_def split: option.splits)

subsection \<open>Metadata, status and sharing\<close>

text \<open>The first tick decides.  Once the metadata request is out, \<open>GetFileMetaData\<close> answers at the first
  two-second tick, whatever happens later: with the metadata if it has arrived, and otherwise with a
  failed reply and no error.  The ten-second timeout is reached only if it comes before any tick.\<close>

theorem GetFileMetaData_first_tick:
  assumes "fst (connectAndRequestFileMetaDataFromPeer env now h pid s) = Ok ()"
  shows "fst (GetFileMetaData env now (Tick m # es) h pid s) = Ok (case m (h @ pid) of
      None \<Rightarrow> (\<lparr>gm_Success = False, gm_FileMetaData = zeroHeader\<rparr>, None)
    | Some md \<Rightarrow> (\<lparr>gm_Success = True, gm_FileMetaData = md\<rparr>, None))"
proof -
  obtain s1 where s1: "connectAndRequestFileMetaDataFromPeer env now h pid s = (Ok (), s1)"
    using assms by (metis prod.collapse)
  obtain s2 where "ignore_err (saveState env) (s1\<lparr>metadataResponse := m\<rparr>) = (Ok (), s2)"
    using saveState_ignored by blast
  with s1 show ?thesis
    by (auto simp: GetFileMetaData_def metaFailed_def bind_act_def catch_act_def act_defs
        split: option.split)
qed

text \<open>No estimate below one megabyte per second.  The estimate of the remaining time divides by the
  integer part of the speed in MB/s: for a running download slower than 1 MB/s whose size is not yet
  exceeded, the status report leaves the transaction, and so its remaining time, as it was.\<close>

theorem slow_download_has_no_estimate:
  assumes "ft_DownloadSpeed t = Fin v" and "0 \<le> v" and "v < 1"
    and "fl_lt (ft_DownloadProgress t) (Fin 1)"
    and "0 \<le> wrap64 (fh_FileSize (ft_FileMetaData t) - ft_BytesDownloaded t)"
  shows "updateTransaction t = t"
proof -
  have "to_int64 (ft_DownloadSpeed t) = 0" using to_int64_small [OF assms(2,3)] assms(1) by simp
  moreover have "\<not> fl_ge (ft_DownloadProgress t) (Fin 1)" using assms(4) by (simp add: fl_ge_def)
  ultimately show ?thesis using assms(5) by (simp add: updateTransaction_def Let_def wrap64_id)
qed

text \<open>At or above one megabyte per second the estimate is the whole number of seconds the remaining
  bytes take at the integer part of the speed, and a finished download is reported as completed.\<close>

theorem download_estimate:
  assumes "ft_DownloadSpeed t = Fin v" and "1 \<le> v" and "v < 2 ^ 42"
    and "fl_lt (ft_DownloadProgress t) (Fin 1)"
    and "0 < fh_FileSize (ft_FileMetaData t) - ft_BytesDownloaded t"
    and "fh_FileSize (ft_FileMetaData t) - ft_BytesDownloaded t < 2 ^ 53"
  shows "ft_RemainingTime (updateTransaction t) = duration_string
      ((fh_FileSize (ft_FileMetaData t) - ft_BytesDownloaded t) div (\<lfloor>v\<rfloor> * 1048576) * 1000000000)"
    (is "_ = duration_string (?q * 1000000000)")
proof -
  let ?rem = "fh_FileSize (ft_FileMetaData t) - ft_BytesDownloaded t"
  have v: "1 \<le> \<lfloor>v\<rfloor>" "\<lfloor>v\<rfloor> < 2 ^ 42" using assms(2,3) by (simp_all add: floor_less_iff)
  have i: "to_int64 (ft_DownloadSpeed t) = \<lfloor>v\<rfloor>" using assms(1,2) v by (simp add: Let_def)
  have bps: "wrap64 (\<lfloor>v\<rfloor> * 1024 * 1024) = \<lfloor>v\<rfloor> * 1048576" using v by (subst wrap64_id) auto
  have rem: "wrap64 ?rem = ?rem" using assms(5,6) by (subst wrap64_id) auto
  have q0: "0 \<le> ?q" using assms(5) v by (simp add: pos_imp_zdiv_nonneg_iff)
  have "?q \<le> ?rem div 1048576" using assms(5) v by (intro zdiv_mono2) auto
  also have "\<dots> < 2 ^ 33" using assms(6) by simp
  finally have "?q * 1000000000 < 2 ^ 63" by simp
  with q0 have dur: "wrap64 (?q * 1000000000) = ?q * 1000000000" by (subst wrap64_id) auto
  have "go_div ?rem (\<lfloor>v\<rfloor> * 1048576) = ?q" using assms(5) v by (intro go_div_nonneg) auto
  then show ?thesis
    using assms(4,5) v i bps rem dur by (simp add: updateTransaction_def Let_def fl_ge_def)
qed

text \<open>The private-address flag is never set: multiaddresses start with a slash, and the flag looks for
  addresses that start with the digits of a private network.\<close>

theorem privateIP_never_set:
  assumes "\<forall>a \<in> set (nodeAddrs env). \<exists>r. a = CHR ''/'' # r"
    and "fst (GetUpdates env srv order s) = Ok (rep, e)"
  shows "\<not> gu_PrivateIP rep"
proof -
  have "\<not> isPrivateAddr a" if "a \<in> set (nodeAddrs env)" for a
    using assms(1) that by (auto simp: isPrivateAddr_def has_prefix_def)
  then have "\<not> list_ex isPrivateAddr (nodeAddrs env)" by (auto simp: list_ex_iff)
  moreover obtain s' where "GetUpdates env srv order s = (Ok (rep, e), s')"
    using assms(2) by (metis prod.collapse)
  ultimately show ?thesis by (auto simp: GetUpdates_def ok_iff)
qed

lemma getMiningAddress_state: "catch_act (getMiningAddress srv) s = (r, s') \<Longrightarrow> s' = s"
proof -
  have "snd (getMiningAddress srv s) = s"
    using walletAnswer_state
    by (auto simp: getMiningAddress_def bind_act_def act_defs lift_err_def
        split: option.splits outcome.splits prod.splits)
  then show "catch_act (getMiningAddress srv) s = (r, s') \<Longrightarrow> s' = s"
    by (auto simp: catch_act_def split: outcome.splits prod.splits)
qed

lemma saveState_ignored_state:
  "ignore_err (saveState env) s = (r, s') \<Longrightarrow> s' = s\<lparr>disk := disk s'\<rparr>"
  using saveState_ignored [of env s] by auto

lemma announceFile_ok:
  assumes "announceFile env srv path price hash content s = (Ok (rep, e), s')"
  obtains h where "s' = (addProvidedFile h s)\<lparr>disk := disk s'\<rparr>" "pf_Success rep" "pf_FileHash rep = hash"
    "fh_FileHash h = hash" "fh_FileName h = go_base path" "fh_FileSize h = int (length content)"
    "fh_Price h = to_f32 price" "fh_PeerID h = peerID env"
proof -
  obtain m s1 a s2 u where m: "catch_act (getMiningAddress srv) s = (Ok m, s1)"
    and a: "addr0 env s1 = (Ok a, s2)"
    and tail: "ignore_err (saveState env) (addProvidedFile \<lparr>fh_FileName = go_base path,
      fh_FileSize = int (length content), fh_FileHash = hash, fh_FileExtension = go_ext path,
      fh_Multiaddress = a, fh_PeerID = peerID env, fh_Price = to_f32 price,
      fh_MiningAddress = (case m of Inl _ \<Rightarrow> [] | Inr x \<Rightarrow> x), fh_RequestID = [],
      fh_Provided = False\<rparr> s2) = (Ok u, s')"
    and rep: "rep = \<lparr>pf_Success = True, pf_Message = ''File is now available on OrcaNet'',
      pf_FileHash = hash\<rparr>"
    using assms unfolding announceFile_def ok_bind ok_basic prod.inject by blast
  have "s1 = s" by (rule getMiningAddress_state [OF m])
  moreover have "s2 = s1" using a by (auto simp: addr0_def ok_iff split: list.splits)
  ultimately show thesis
    using rep saveState_ignored_state [OF tail] by (intro that) (assumption | simp)+
qed

lemma publishFile_ok:
  assumes "publishFile env srv path price hash s = (Ok (rep, None), s')"
  obtains content where "disk s (resolve path) = Some content"
    and "announceFile env srv path price hash content (markProvided hash path s) = (Ok (rep, None), s')"
  using assms
  by (cases "openErr env path"; cases "disk s (resolve path)"; cases "statErr srv path")
    (simp_all add: publishFile_def run catch_act_def wrap_err_def bind_act_def open_file_def act_defs
      lift_err_def markProvided_def)

lemma provideFileOnDHT_frame:
  "provideFileOnDHT srv h pid s = (r, s') \<Longrightarrow> s' = s\<lparr>effects := effects s'\<rparr>"
  by (auto simp: provideFileOnDHT_def searchFileOnDHT_def dhtPutValue_def provideKey_def bind_act_def
      act_defs lift_err_def wrap_err_def Let_def log_effect_def split: outcome.splits option.splits)

lemma find_header_last:
  "fh_FileHash h = k \<Longrightarrow> find_header k z (xs @ [h]) = h"
  by (induction k z xs rule: find_header.induct) auto

text \<open>Sharing a file.  If \<open>ProvideFile\<close> reports no error, the file was readable and the reply carries
  its SHA-256; that hash now maps to the path and counts as provided, exactly one header with the
  file's name, size and price has been added to the shared files, and it is the header that a metadata
  request or a download of this hash will be answered with.\<close>

theorem ProvideFile_registers:
  assumes "ProvideFile env srv path price s = (Ok (rep, None), s')"
  shows "\<exists>content h. disk s (resolve path) = Some content \<and> pf_Success rep \<and>
    pf_FileHash rep = sha256hex srv content \<and>
    fileHashToPath s' (sha256hex srv content) = Some path \<and>
    isFileHashProvided s' (sha256hex srv content) = Some True \<and>
    providedFiles s' = providedFiles s @ [h] \<and> fh_FileName h = go_base path \<and>
    fh_FileSize h = int (length content) \<and> fh_Price h = to_f32 price \<and>
    find_header (sha256hex srv content) zeroHeader (providedFiles s') = h"
proof -
  obtain content s1 where c: "disk s (resolve path) = Some content"
    and dht: "provideFileOnDHT srv (sha256hex srv content) (peerID env) s = (Ok (), s1)"
    and pub: "publishFile env srv path price (sha256hex srv content) s1 = (Ok (rep, None), s')"
    using assms
    by (cases "openErr env path"; cases "disk s (resolve path)"; cases "hashErr srv path")
      (auto simp: ProvideFile_def generateFileHash_def open_file_def ok_iff)
  have s1: "disk s1 = disk s" "providedFiles s1 = providedFiles s"
    by (subst provideFileOnDHT_frame [OF dht], simp)+
  obtain content' where "disk s1 (resolve path) = Some content'" and ann: "announceFile env srv path price
      (sha256hex srv content) content' (markProvided (sha256hex srv content) path s1) = (Ok (rep, None), s')"
    by (rule publishFile_ok [OF pub])
  then have same: "content' = content" using c s1 by simp
  obtain h where h: "s' = (addProvidedFile h (markProvided (sha256hex srv content) path s1))\<lparr>disk := disk s'\<rparr>"
    and "pf_Success rep" "pf_FileHash rep = sha256hex srv content"
    "fh_FileHash h = sha256hex srv content" "fh_FileName h = go_base path"
    "fh_FileSize h = int (length content')" "fh_Price h = to_f32 price"
    by (rule announceFile_ok [OF ann])
  moreover have "providedFiles s' = providedFiles s @ [h]"
    "fileHashToPath s' (sha256hex srv content) = Some path"
    "isFileHashProvided s' (sha256hex srv content) = Some True"
    by (subst h, simp add: addProvidedFile_def markProvided_def s1)+
  ultimately show ?thesis using c same find_header_last by auto
qed

subsection \<open>Concrete services\<close>

text \<open>A wallet server without a balance route and an empty DHT that accepts every record; the witnesses
  of this theory run in it.\<close>

definition demoSrv :: services where
  "demoSrv = \<lparr>dhtGet = (\<lambda>_. Err ''routing: not found''), dhtPutErr = (\<lambda>_ _. None),
     multihashErr = (\<lambda>_. None), dhtProvideErr = (\<lambda>_. None), mapOrder = (\<lambda>ks. ks),
     sha256hex = (\<lambda>b. ''h'' @ b), hashErr = (\<lambda>_. None), statErr = (\<lambda>_. None), newUUID = ''u1'',
     routingSize = 1, parseOther = (\<lambda>_. (Fin 0, Some ''invalid syntax'')), reqErr = (\<lambda>_. None),
     httpGet = (\<lambda>_. Err ''connection refused''), httpSend = (\<lambda>_ _. Err ''connection refused''),
     unjsonMap = (\<lambda>_. Ok Map.empty)\<rparr>"

lemma demo_trim: "trim_space ''Q'' = ''Q''"
  by code_simp

lemma demo_balance: "walletBalance demoSrv s = (Ok (Fin 0), s)"
proof -
  have "to_f32 (fst (parse_float64 (\<lambda>_. (Fin 0, Some ''invalid syntax'')) [])) = Fin 0" by code_simp
  then show ?thesis
    by (simp add: walletBalance_def checkBalance_def demoSrv_def catch_act_def bind_act_def act_defs
        lift_err_def)
qed

lemma demo_fair: "fair_order demoSrv"
  by (simp add: fair_order_def demoSrv_def)

lemma demo_request: "fst (connectAndRequestFileFromPeer demoEnv n h r ''Q'' s) = Ok ()"
  by (simp add: connectAndRequestFileFromPeer_def connectToNodeUsingRelay_def sendFileRequestToPeer_def
      createStream_def stream_write_def demo_trim demoEnv_def bind_act_def act_defs wrap_err_def
      lift_err_def addr0_def attempt_def Let_def)

lemma demo_provide: "provideFileOnDHT demoSrv ''h'' ''P'' s =
    (Ok (), log_effect (DhtProvide ''h'') (log_effect (DhtPut ''/orcanet/h'' '',P'') s))"
  by (simp add: provideFileOnDHT_def searchFileOnDHT_def dhtPutValue_def provideKey_def demoSrv_def
      bind_act_def act_defs wrap_err_def lift_err_def Let_def)

theorem GetFile_success_without_payment_witness:
  "fst (GetFile demoEnv demoSrv 1 2 [] ''h'' ''Q''
      (demoNode\<lparr>metadataResponse := [''hQ'' \<mapsto> demoHeader\<lparr>fh_Price := Fin 0\<rparr>]\<rparr>)) =
    Ok (\<lparr>gf_Success = True, gf_Message = ''File dowloaded successfully'', gf_RequestID = ''u1'',
         gf_FileHash = ''h'', gf_Txid = []\<rparr>, None)"
proof -
  let ?n = "demoNode\<lparr>metadataResponse := [''hQ'' \<mapsto> demoHeader\<lparr>fh_Price := Fin 0\<rparr>]\<rparr>"
  have "metadataResponse ?n (''h'' @ ''Q'') = Some (demoHeader\<lparr>fh_Price := Fin 0\<rparr>)" by simp
  from GetFile_success_without_payment [OF demo_balance this, of demoEnv "''/a''" "[]"
      2 1 "[]" "''connection refused''"] demo_request show ?thesis
    by (simp add: demoSrv_def demoEnv_def)
qed

text \<open>The balance of the example wallet cannot be read and counts as zero; the price was zero when it was compared
  and is 1000 when it is paid.\<close>

theorem GetFile_pays_unchecked_price_witness:
  "pays (effects (snd (GetFile demoEnv demoSrv 1 2 [demoHeader\<lparr>fh_FileHash := ''h'', fh_PeerID := ''Q'', fh_Price := Fin 1000\<rparr>]
      ''h'' ''Q'' (demoNode\<lparr>metadataResponse := [''hQ'' \<mapsto> demoHeader\<lparr>fh_Price := Fin 0\<rparr>]\<rparr>)))) =
    [(''addr'', fmt_2f (Fin 1000))]"
proof -
  let ?n = "demoNode\<lparr>metadataResponse := [''hQ'' \<mapsto> demoHeader\<lparr>fh_Price := Fin 0\<rparr>]\<rparr>"
  let ?h = "demoHeader\<lparr>fh_FileHash := ''h'', fh_PeerID := ''Q'', fh_Price := Fin 1000\<rparr>"
  have n: "metadataResponse ?n (''h'' @ ''Q'') = Some (demoHeader\<lparr>fh_Price := Fin 0\<rparr>)" by simp
  have "pays (effects demoNode) = []" by (simp add: demoNode_def initNode_def)
  then show ?thesis
    using GetFile_pays_unchecked_price [OF demo_balance n, of demoEnv "''/a''" "[]" 2 1 ?h "[]"] demo_request
    by (simp add: demoSrv_def demoEnv_def demoHeader_def del: fmt_2f.simps)
qed

theorem tiny_price_pays_nothing_witness:
  "effects (snd (sendCoinToAddress demoSrv ''addr'' (Fin (1/300)) demoNode)) = [Pay ''addr'' ''0.00'']"
  using tiny_price_pays_nothing [of "1/300" demoSrv "''addr''" demoNode]
  by (simp add: demoSrv_def demoNode_def initNode_def)

theorem provide_then_GetProviders_witness:
  "(\<exists>rep. fst (GetProviders demoEnv (demoSrv\<lparr>dhtGet := (\<lambda>_. Ok '',P'')\<rparr>) ''h'' demoNode) = Ok (rep, None) \<and>
     gp_Success rep \<and> set (gp_Providers rep) = {[], ''P''}) \<and>
   (\<exists>rep. fst (GetProviders demoEnv (demoSrv\<lparr>dhtGet := (\<lambda>_. Ok ''A,P'')\<rparr>) ''h'' demoNode) = Ok (rep, None) \<and>
     gp_Success rep \<and> set (gp_Providers rep) = {''A'', ''P''})"
proof -
  have fair: "fair_order (demoSrv\<lparr>dhtGet := (\<lambda>_. Ok v)\<rparr>)" for v
    by (simp add: fair_order_def demoSrv_def)
  let ?A = "demoSrv\<lparr>dhtGet := (\<lambda>_. Ok ''A'')\<rparr>"
  have "provideFileOnDHT ?A ''h'' ''P'' demoNode =
      (Ok (), log_effect (DhtProvide ''h'') (log_effect (DhtPut ''/orcanet/h'' ''A,P'') demoNode))"
    by (simp add: provideFileOnDHT_def searchFileOnDHT_def dhtPutValue_def provideKey_def demoSrv_def
        uniqueProviders_def bind_act_def act_defs wrap_err_def lift_err_def Let_def)
  from provide_then_GetProviders [OF fair fair _ this, of "''A,P''" demoEnv demoNode]
    provide_then_GetProviders [OF demo_fair fair _ demo_provide, of demoNode "'',P''" demoEnv demoNode]
  show ?thesis by (auto simp: demoSrv_def)
qed

theorem first_provider_record_witness:
  "DhtPut ''/orcanet/h'' '',P'' \<in> set (effects (snd (provideFileOnDHT demoSrv ''h'' ''P'' demoNode)))"
  using first_provider_record [of demoSrv "''h''" "''routing: not found''" "''P''" demoNode]
  by (simp add: demoSrv_def)

theorem GetFileMetaData_first_tick_witness:
  "fst (GetFileMetaData demoEnv 1 [Tick [''hQ'' \<mapsto> demoHeader], Timeout] ''h'' ''Q'' demoNode) =
     Ok (\<lparr>gm_Success = True, gm_FileMetaData = demoHeader\<rparr>, None)"
proof -
  have "fst (connectAndRequestFileMetaDataFromPeer demoEnv 1 ''h'' ''Q'' demoNode) = Ok ()"
    by (simp add: connectAndRequestFileMetaDataFromPeer_def connectToNodeUsingRelay_def
        sendFileMetaDataRequestToPeer_def createStream_def stream_write_def demo_trim demoEnv_def
        bind_act_def act_defs wrap_err_def lift_err_def addr0_def attempt_def Let_def)
  from GetFileMetaData_first_tick [OF this, of "[''hQ'' \<mapsto> demoHeader]" "[Timeout]"]
  show ?thesis by simp
qed

theorem slow_download_has_no_estimate_witness:
  "updateTransaction (zeroTransaction\<lparr>ft_DownloadSpeed := Fin (1/2), ft_BytesDownloaded := 10,
      ft_FileMetaData := demoHeader\<lparr>fh_FileSize := 20\<rparr>\<rparr>) =
   zeroTransaction\<lparr>ft_DownloadSpeed := Fin (1/2), ft_BytesDownloaded := 10,
      ft_FileMetaData := demoHeader\<lparr>fh_FileSize := 20\<rparr>\<rparr>"
  by (rule slow_download_has_no_estimate [where v = "1/2"])
    (simp_all add: zeroTransaction_def wrap64_id)

theorem download_estimate_witness:
  "ft_RemainingTime (updateTransaction (zeroTransaction\<lparr>ft_DownloadSpeed := Fin 2,
      ft_FileMetaData := demoHeader\<lparr>fh_FileSize := 209715200\<rparr>\<rparr>)) = ''1m40s''"
proof -
  have "ft_RemainingTime (updateTransaction (zeroTransaction\<lparr>ft_DownloadSpeed := Fin 2,
      ft_FileMetaData := demoHeader\<lparr>fh_FileSize := 209715200\<rparr>\<rparr>)) =
    duration_string ((209715200 - 0) div (\<lfloor>2 :: rat\<rfloor> * 1048576) * 1000000000)"
    by (subst download_estimate [where v = 2]) (simp_all add: zeroTransaction_def)
  also have "\<dots> = duration_string 100000000000" by simp
  also have "\<dots> = ''1m40s''"
  proof -
    have "show_nat 1 = ''1''" "show_nat 40 = ''40''" "show_frac 9 0 = []" by code_simp+
    then show ?thesis by (simp add: duration_string_def show_hms_def)
  qed
  finally show ?thesis .
qed

theorem privateIP_never_set_witness:
  "\<exists>rep. fst (GetUpdates demoEnv demoSrv [] demoNode) = Ok (rep, None) \<and> \<not> gu_PrivateIP rep"
proof -
  obtain s' where "ignore_err (saveState demoEnv) demoNode = (Ok (), s')"
    using saveState_ignored by blast
  then obtain rep where rep: "fst (GetUpdates demoEnv demoSrv [] demoNode) = Ok (rep, None)"
    by (simp add: GetUpdates_def bind_act_def act_defs addr0_def demoEnv_def)
  have "\<not> gu_PrivateIP rep"
    by (rule privateIP_never_set [OF _ rep]) (simp add: demoEnv_def)
  with rep show ?thesis by blast
qed

lemma demo_provided:
  "\<exists>rep. fst (ProvideFile demoEnv demoSrv ''/f.txt'' (Fin 2) demoNode) = Ok (rep, None)"
proof -
  have mine: "getMiningAddress demoSrv s = (Err ''connection refused'', s)" for s
    by (simp add: getMiningAddress_def demoSrv_def bind_act_def act_defs lift_err_def)
  have ann: "\<exists>rep. fst (announceFile demoEnv demoSrv p q h c s) = Ok (rep, None)" for p q h c s
  proof -
    have "\<exists>s'. ignore_err (saveState demoEnv) s2 = (Ok (), s')" for s2 using saveState_ignored by blast
    then show ?thesis
      by (simp add: announceFile_def catch_act_def mine addr0_def demoEnv_def bind_act_def act_defs
          split: prod.split outcome.split) (metis Pair_inject outcome.distinct(1,3,5))
  qed
  have opened: "open_file demoEnv ''/f.txt'' s = (Ok ''abc'', s)" if "disk s = disk demoNode" for s
    unfolding open_file_def that demo_file by (simp add: demoEnv_def)
  have none: "hashErr demoSrv p = None" "statErr demoSrv p = None" "sha256hex demoSrv b = ''h'' @ b" for p b
    by (simp_all add: demoSrv_def)
  have hash: "generateFileHash demoEnv demoSrv ''/f.txt'' demoNode = (Ok ''habc'', demoNode)"
    by (simp add: generateFileHash_def bind_act_def opened none lift_err_def act_defs)
  obtain s1 where dht: "provideFileOnDHT demoSrv ''habc'' (peerID demoEnv) demoNode = (Ok (), s1)"
    and s1: "disk s1 = disk demoNode"
    by (simp add: provideFileOnDHT_def searchFileOnDHT_def dhtPutValue_def provideKey_def demoSrv_def
      bind_act_def act_defs wrap_err_def lift_err_def Let_def)
  have "disk (markProvided h p s1) = disk demoNode" for h p using s1 by (simp add: markProvided_def)
  then have "fst (publishFile demoEnv demoSrv ''/f.txt'' q h s1) =
      fst (announceFile demoEnv demoSrv ''/f.txt'' q h ''abc'' (markProvided h ''/f.txt'' s1))" for q h
    by (simp add: publishFile_def run catch_act_def wrap_err_def bind_act_def opened none lift_err_def
        act_defs)
  with ann show ?thesis by (simp add: ProvideFile_def catch_act_def bind_act_def hash dht)
qed

theorem ProvideFile_registers_witness:
  "fileHashToPath (snd (ProvideFile demoEnv demoSrv ''/f.txt'' (Fin 2) demoNode)) ''habc'' = Some ''/f.txt''"
proof -
  obtain rep where "fst (ProvideFile demoEnv demoSrv ''/f.txt'' (Fin 2) demoNode) = Ok (rep, None)"
    using demo_provided by blast
  then have "ProvideFile demoEnv demoSrv ''/f.txt'' (Fin 2) demoNode =
      (Ok (rep, None), snd (ProvideFile demoEnv demoSrv ''/f.txt'' (Fin 2) demoNode))"
    by (metis prod.collapse)
  from ProvideFile_registers [OF this] show ?thesis
    by (auto simp: demo_file) (simp add: demoSrv_def)
qed

end
