(* ===== verification/Bitshare_Node.thy ===== *)
theory Bitshare_Node
  imports Bitshare_Rpc
begin

text \<open>
  The rest of \<open>src/fileshare/main.go\<close> and \<open>src/fileshare/validator.go\<close>: start of the node, the
  connection to the relay and its reservation, the peers the relay announces, and the command line.
  The libp2p constructors, the JSON decoder of the relay's message and the DHT's provider search are
  the record \<open>boot\<close>.  \<open>log.Fatalf\<close> ends the process, as a panic does.
\<close>

subsection \<open>The DHT validator\<close>

definition Validate :: "string \<Rightarrow> bytes \<Rightarrow> string option" where
  "Validate key val = None"

definition Select :: "string \<Rightarrow> bytes list \<Rightarrow> int \<times> string option" where
  "Select key vals = (0, None)"

subsection \<open>Environment of the start\<close>

record boot =
  keyErr :: "string \<Rightarrow> string option"
  multiaddrErr :: "string \<Rightarrow> string option"
  infoErr :: "string \<Rightarrow> string option"
  hostErr :: "string option"
  relayErr :: "string option"
  dhtErr :: "string option"
  bootstrapErr :: "string option"
  dialErr :: "nat \<Rightarrow> string \<Rightarrow> string option"
  reserveErr :: "nat \<Rightarrow> string option"
  relayRawID :: bytes
  unjsonObject :: "bytes \<Rightarrow> (string \<times> jval) list \<times> string option"
  readAllErr :: "string \<Rightarrow> string option"
  hashedBytes :: "string \<Rightarrow> nat"
  upperOther :: "string \<Rightarrow> string"
  findProviders :: "string \<Rightarrow> (string \<times> string list) list"

definition RELAY_NODE_MULTIADDR :: string where
  "RELAY_NODE_MULTIADDR =
    ''/ip4/130.245.173.221/tcp/4001/p2p/12D3KooWDpJ7As7BWAwRMfu1VU2WCqNjvq387JEYKDBj4kx6nXTN''"

definition BOOTSTRAP_NODE_MULTIADDR :: string where
  "BOOTSTRAP_NODE_MULTIADDR =
    ''/ip4/130.245.173.222/tcp/61020/p2p/12D3KooWM8uovScE5NPihSCKhXe8sbgdJAi88i2aXT2MmwjGWoSX''"

subsection \<open>Creating and connecting the node\<close>

definition generatePrivateKeyFromSeed :: "boot \<Rightarrow> string \<Rightarrow> (node, unit) act" where
  "generatePrivateKeyFromSeed bt seed =
    wrap_err ''error occured while generating private key: '' (lift_err (keyErr bt seed))"

definition createNode :: "boot \<Rightarrow> (node, unit) act" where
  "createNode bt =
    bind_act (get_act SBU_ID) (\<lambda>sbu.
    bind_act (generatePrivateKeyFromSeed bt sbu) (\<lambda>_.
    bind_act (lift_err (multiaddrErr bt ''/ip4/0.0.0.0/tcp/0'')) (\<lambda>_.
    bind_act (lift_err (multiaddrErr bt RELAY_NODE_MULTIADDR)) (\<lambda>_.
    bind_act (lift_err (infoErr bt RELAY_NODE_MULTIADDR)) (\<lambda>_.
    bind_act (wrap_err ''error occured while creating node: '' (lift_err (hostErr bt))) (\<lambda>_.
    bind_act (wrap_err ''error occured while creating relay: '' (lift_err (relayErr bt))) (\<lambda>_.
    bind_act (wrap_err ''error occured while creating DHT: '' (lift_err (dhtErr bt))) (\<lambda>_.
    wrap_err ''error occured while bootstrapping DHT: '' (lift_err (bootstrapErr bt))))))))))"

definition connectToNode :: "boot \<Rightarrow> string \<Rightarrow> (node, unit) act" where
  "connectToNode bt targetNodeAddress =
    bind_act (wrap_err ''error occured while creating multi address: ''
      (lift_err (multiaddrErr bt targetNodeAddress))) (\<lambda>_.
    bind_act (wrap_err ''error occured while creating peer address info: ''
      (lift_err (infoErr bt targetNodeAddress))) (\<lambda>_.
    bind_act (upd_act (log_effect (Dial targetNodeAddress))) (\<lambda>_.
    wrap_err ''error occured while connecting to target node: ''
      (attempt (\<lambda>n. dialErr bt n targetNodeAddress)))))"

definition makeReservation :: "boot \<Rightarrow> (node, unit) act" where
  "makeReservation bt =
    bind_act (wrap_err ''failed to create relay multiaddr: ''
      (lift_err (multiaddrErr bt RELAY_NODE_MULTIADDR))) (\<lambda>_.
    bind_act (wrap_err ''failed to create relay address: ''
      (lift_err (infoErr bt RELAY_NODE_MULTIADDR))) (\<lambda>_.
    bind_act (upd_act (log_effect Reserve)) (\<lambda>_.
    wrap_err ''failed to make reservation on relay: '' (attempt (reserveErr bt)))))"

text \<open>The refresher's select loop: a tick of the five-minute ticker or the cancelled context.  With no
  further event it waits.\<close>

datatype refresh_event = RefreshTick | Cancelled

fun refreshReservation :: "boot \<Rightarrow> refresh_event list \<Rightarrow> (node, unit) act" where
  "refreshReservation bt [] = blocked_act"
| "refreshReservation bt (Cancelled # es) = ret_act ()"
| "refreshReservation bt (RefreshTick # es) =
    bind_act (recover_err (\<lambda>e. panic_act (''Failed to refresh reservation: '' @ e)) (makeReservation bt))
      (\<lambda>_. refreshReservation bt es)"

subsection \<open>Peers announced by the relay\<close>

definition knownPeers :: "(string \<times> jval) list \<Rightarrow> jval list" where
  "knownPeers d = (case map_of d ''known_peers'' of Some (JArr ps) \<Rightarrow> ps | _ \<Rightarrow> [])"

definition peerIdOf :: "jval \<Rightarrow> string option" where
  "peerIdOf j = (case j of
      JObj kvs \<Rightarrow> (case map_of kvs ''peer_id'' of Some (JStr p) \<Rightarrow> Some p | _ \<Rightarrow> None)
    | _ \<Rightarrow> None)"

fun dialPeers :: "p2p \<Rightarrow> boot \<Rightarrow> jval list \<Rightarrow> (node, unit) act" where
  "dialPeers env bt [] = ret_act ()"
| "dialPeers env bt (j # js) =
    bind_act (case peerIdOf j of
        None \<Rightarrow> ret_act ()
      | Some p \<Rightarrow> if p \<noteq> relayRawID bt then ignore_err (connectToNodeUsingRelay env p) else ret_act ())
      (\<lambda>_. dialPeers env bt js)"

text \<open>The handler of \<open>/orcanet/p2p\<close>: \<open>line\<close> is what \<open>ReadString\<close> returned, whatever its error was.\<close>

definition handlePeerExhangeWithRelay :: "p2p \<Rightarrow> boot \<Rightarrow> string \<Rightarrow> (node, unit) act" where
  "handlePeerExhangeWithRelay env bt line =
    bind_act (wrap_err ''failed to create relay multiaddr: ''
      (lift_err (multiaddrErr bt RELAY_NODE_MULTIADDR))) (\<lambda>_.
    bind_act (wrap_err ''failed to get relay AddrInfo: ''
      (lift_err (infoErr bt RELAY_NODE_MULTIADDR))) (\<lambda>_.
    dialPeers env bt (knownPeers (fst (unjsonObject bt (trim_space line))))))"

subsection \<open>The command line\<close>

definition println :: "string \<Rightarrow> (node, unit) act" where
  "println t = upd_act (log_effect (Print (t @ [CHR 0x0A])))"

fun printProviders :: "(string \<times> string list) list \<Rightarrow> (node, unit) act" where
  "printProviders [] = ret_act ()"
| "printProviders ((p, addrs) # ps) =
    (if p = [] then ret_act ()
     else bind_act (println (''Found provider: '' @ p)) (\<lambda>_.
          bind_act (fold (\<lambda>a m. bind_act m (\<lambda>_. println ('' - Address: '' @ a))) addrs (ret_act ()))
            (\<lambda>_. printProviders ps)))"

text \<open>The hash of \<open>PROVIDE_FILE\<close>: a file that cannot be opened, or is read only in part, is hashed as far
  as it was read; both errors are printed and the command goes on.\<close>

definition hashForProvide :: "p2p \<Rightarrow> services \<Rightarrow> boot \<Rightarrow> string \<Rightarrow> (node, string) act" where
  "hashForProvide env srv bt filepath =
    bind_act (catch_act (open_file env filepath)) (\<lambda>r. case r of
      Inl e \<Rightarrow> bind_act (println (''Error opening file:  '' @ e)) (\<lambda>_.
               bind_act (println ''Error copying file contents:  invalid argument'')
                 (\<lambda>_. ret_act (sha256hex srv [])))
    | Inr content \<Rightarrow> (case readAllErr bt filepath of
        None \<Rightarrow> ret_act (sha256hex srv content)
      | Some e \<Rightarrow> bind_act (println (''Error copying file contents:  '' @ e))
          (\<lambda>_. ret_act (sha256hex srv (take (hashedBytes bt filepath) content)))))"

definition cmdProvideFile :: "p2p \<Rightarrow> services \<Rightarrow> boot \<Rightarrow> string \<Rightarrow> (node, unit) act" where
  "cmdProvideFile env srv bt filepath =
    bind_act (hashForProvide env srv bt filepath) (\<lambda>fileHash.
    bind_act (println (''Updating DHT with file hash:  '' @ ''/orcanet/'' @ fileHash)) (\<lambda>_.
    bind_act (recover_err (\<lambda>e. println (''Error providing file:  '' @ e))
      (dhtPutValue srv (''/orcanet/'' @ fileHash) (peerID env))) (\<lambda>_.
    bind_act (ignore_err (provideKey srv fileHash)) (\<lambda>_.
    bind_act (upd_act (\<lambda>s. s\<lparr>fileHashToPath := (fileHashToPath s)(fileHash \<mapsto> filepath)\<rparr>)) (\<lambda>_.
    println ''File provided successfully'')))))"

definition cmdGetFile :: "p2p \<Rightarrow> services \<Rightarrow> int \<Rightarrow> string \<Rightarrow> (node, unit) act" where
  "cmdGetFile env srv now fileHash =
    bind_act (catch_act (lift_out (dhtGet srv (''/orcanet/'' @ fileHash)))) (\<lambda>r.
    bind_act (case r of Inl e \<Rightarrow> println (''Failed to get record: '' @ e) | Inr _ \<Rightarrow> ret_act ()) (\<lambda>_.
    let res = (case r of Inl _ \<Rightarrow> [] | Inr v \<Rightarrow> v) in
    bind_act (println (''File found at peerID: '' @ res)) (\<lambda>_.
    bind_act (recover_err (\<lambda>e. println (''Failed to connect to peer: '' @ e))
      (connectToNodeUsingRelay env res)) (\<lambda>_.
    recover_err (\<lambda>e. println (''Failed to request file from peer: '' @ e))
      (sendFileRequestToPeer env now res fileHash (generateRequestID srv))))))"

definition cmdGet :: "services \<Rightarrow> string \<Rightarrow> (node, unit) act" where
  "cmdGet srv key =
    bind_act (catch_act (lift_out (dhtGet srv (''/orcanet/'' @ key)))) (\<lambda>r. case r of
      Inl e \<Rightarrow> println (''Failed to get record: '' @ e)
    | Inr v \<Rightarrow> println (''Record: '' @ v))"

definition cmdGetProviders :: "services \<Rightarrow> boot \<Rightarrow> string \<Rightarrow> (node, unit) act" where
  "cmdGetProviders srv bt key = (case multihashErr srv key of
      Some e \<Rightarrow> println (''Error encoding multihash: '' @ e)
    | None \<Rightarrow> bind_act (println ''Searching for providers...'')
        (\<lambda>_. printProviders (findProviders bt key)))"

definition cmdPut :: "services \<Rightarrow> string \<Rightarrow> string \<Rightarrow> (node, unit) act" where
  "cmdPut srv key val =
    bind_act (catch_act (dhtPutValue srv (''/orcanet/'' @ key) val)) (\<lambda>r. case r of
      Inl e \<Rightarrow> println (''Failed to put record: '' @ e)
    | Inr _ \<Rightarrow> bind_act (ignore_err (provideKey srv key)) (\<lambda>_. println ''Record stored successfully''))"

definition handleCommand :: "p2p \<Rightarrow> services \<Rightarrow> boot \<Rightarrow> int \<Rightarrow> string \<Rightarrow> (node, unit) act" where
  "handleCommand env srv bt now input =
    (let args = go_split CHR '' '' (trim_space input); command = to_upper (upperOther bt) (hd args) in
     if command = ''GET'' then
       (if length args < 2 then println ''Expected key'' else cmdGet srv (args ! 1))
     else if command = ''GET_PROVIDERS'' then
       (if length args < 2 then println ''Expected key'' else cmdGetProviders srv bt (args ! 1))
     else if command = ''PUT'' then
       (if length args < 3 then println ''Expected key and value'' else cmdPut srv (args ! 1) (args ! 2))
     else if command = ''PUT_PROVIDER'' then
       (if length args < 2 then println ''Expected key'' else ignore_err (provideKey srv (args ! 1)))
     else if command = ''PROVIDE_FILE'' then
       (if length args < 2 then println ''Expected file path'' else cmdProvideFile env srv bt (args ! 1))
     else if command = ''PROVIDE_FILE_META'' then
       (if length args < 2 then println ''Expected file path'' else ret_act ())
     else if command = ''GET_FILE'' then
       (if length args < 2 then println ''Expected file hash'' else cmdGetFile env srv now (args ! 1))
     else if command = ''GET_FILE_META'' then
       (if length args < 2 then println ''Expected file hash'' else ret_act ())
     else ret_act ())"

text \<open>The loop over the standard input; it never returns, and waits when there is no further line.\<close>

fun handleInput :: "p2p \<Rightarrow> services \<Rightarrow> boot \<Rightarrow> (int \<times> string) list \<Rightarrow> (node, unit) act" where
  "handleInput env srv bt [] = blocked_act"
| "handleInput env srv bt ((now, l) # ls) =
    bind_act (handleCommand env srv bt now l) (\<lambda>_. handleInput env srv bt ls)"

subsection \<open>Start\<close>

text \<open>\<open>main\<close> up to the point where the handlers and the services are started: \<open>Ok True\<close> says that they run,
  \<open>Ok False\<close> that \<open>main\<close> returned before.  \<open>args\<close> are the command-line arguments after the program's
  name; the second one replaces the bootstrap address only when there are exactly two.  The
  notices printed when the download directory exists or the state file does not are left out.\<close>

definition main_start :: "p2p \<Rightarrow> boot \<Rightarrow> string list \<Rightarrow> (string \<rightharpoonup> bytes) \<Rightarrow> bool outcome \<times> node" where
  "main_start env bt args d = (case args of
      [] \<Rightarrow> (Ok False, log_effect (Print (''Expected SBU ID'' @ [CHR 0x0A])) (initNode [] d))
    | sbu # rest \<Rightarrow>
        let bootstrap = (case rest of [b] \<Rightarrow> b | _ \<Rightarrow> BOOTSTRAP_NODE_MULTIADDR)
        in bind_act (\<lambda>_. startState env sbu d) (\<lambda>_. recover_err (\<lambda>_. ret_act False)
          (bind_act (createNode bt) (\<lambda>_.
           bind_act (connectToNode bt RELAY_NODE_MULTIADDR) (\<lambda>_.
           bind_act (makeReservation bt) (\<lambda>_.
           bind_act (connectToNode bt bootstrap) (\<lambda>_. ret_act True)))))) (initNode sbu d))"

subsection \<open>What the command line and the relay can do\<close>

lemma ok_println [ok_iff]: "println t s = (Ok u, s') \<longleftrightarrow> s' = log_effect (Print (t @ [CHR 0x0A])) s"
  by (simp add: println_def ok_iff)

text \<open>What the terminal, the DHT and the file reads leave alone: everything but the effects.\<close>

definition tables :: "node \<Rightarrow> node" where
  "tables s = s\<lparr>effects := []\<rparr>"

lemma tables_log [simp]: "tables (log_effect e s) = tables s"
  by (simp add: tables_def log_effect_def)

lemma tables_fields:
  assumes "tables s' = tables s"
  shows "fileHashToPath s' = fileHashToPath s" "isFileHashProvided s' = isFileHashProvided s"
    "providedFiles s' = providedFiles s" "disk s' = disk s"
  using assms unfolding tables_def by (cases s; cases s'; simp)+

lemma keep_println: "act_rel (keeps tables) (println t)"
  unfolding println_def by (intro keep.rel_upd) (simp add: keeps_def)

lemma keep_open: "act_rel (keeps tables) (open_file env p)"
  by (simp add: act_rel_def keeps_def open_file_def split: option.split)

lemma keep_put: "act_rel (keeps tables) (dhtPutValue srv k v)"
  unfolding dhtPutValue_def by (intro keep.rel_intros keep.rel_upd) (simp add: keeps_def)

lemma keep_provideKey: "act_rel (keeps tables) (provideKey srv k)"
  unfolding provideKey_def by (intro keep.rel_intros keep.rel_upd) (simp add: keeps_def)

lemmas keep_tables = keep_println keep_open keep_put keep_provideKey

lemma keep_hashForProvide: "act_rel (keeps tables) (hashForProvide env srv bt p)"
  unfolding hashForProvide_def
  by (auto intro!: keep.rel_intros keep_tables split: sum.split option.split)

text \<open>The tables after \<open>PROVIDE_FILE\<close>: the path is known, the provided flags are as before.\<close>

lemma cmdProvideFile_tables:
  assumes "cmdProvideFile env srv bt p s = (Ok (), s')"
  obtains h where "fst (hashForProvide env srv bt p s) = Ok h"
    and "fileHashToPath s' = (fileHashToPath s)(h \<mapsto> p)"
    and "isFileHashProvided s' = isFileHashProvided s" and "providedFiles s' = providedFiles s"
proof -
  obtain h s1 s2 u s3 v where h: "hashForProvide env srv bt p s = (Ok h, s1)"
    and "recover_err (\<lambda>e. println (''Error providing file:  '' @ e))
        (dhtPutValue srv (''/orcanet/'' @ h) (peerID env))
        (log_effect (Print ((''Updating DHT with file hash:  '' @ ''/orcanet/'' @ h) @ [CHR 0x0A])) s1) = (Ok u, s2)"
    and "ignore_err (provideKey srv h) s2 = (Ok v, s3)"
    and s': "s' = log_effect (Print (''File provided successfully'' @ [CHR 0x0A]))
        (s3\<lparr>fileHashToPath := (fileHashToPath s3)(h \<mapsto> p)\<rparr>)"
    using assms unfolding cmdProvideFile_def ok_bind ok_println ok_basic by blast
  then have t: "tables s3 = tables s"
    using keeps_run [OF keep_hashForProvide h]
      keeps_run [OF keep.rel_recover [OF keep_put keep_println]] keeps_run [OF keep.rel_ignore [OF keep_provideKey]]
    by (metis tables_log)
  show thesis using that [of h] h s' tables_fields [OF t] by simp
qed

text \<open>The command \<open>PROVIDE_FILE\<close> announces a file that the node then refuses to give.  The command
  records the path of the hash but not that the hash is provided, so unless the RPC service has provided
  the same hash before, a request for it is answered with the notice that it is not currently provided.\<close>

theorem cli_provided_file_is_refused:
  assumes "cmdProvideFile env srv bt p s = (Ok (), s')"
    and "fst (hashForProvide env srv bt p s) = Ok (fr_FileHash req)"
    and "isFileHashProvided s (fr_FileHash req) = None"
    and "unjsonFileRequest env bs = Ok req"
  shows "fileHashToPath s' (fr_FileHash req) = Some p \<and> receiveFileRequests env polls (Ok bs) s' =
    ignore_err (sendFileNotCurrentlyProvidedToPeer env (fr_RequesterID req) (fr_RequestID req)) s'"
proof -
  obtain h where h: "fst (hashForProvide env srv bt p s) = Ok h"
    "fileHashToPath s' = (fileHashToPath s)(h \<mapsto> p)" "isFileHashProvided s' = isFileHashProvided s"
    by (rule cmdProvideFile_tables [OF assms(1)])
  with assms(2,3) have "fileHashToPath s' (fr_FileHash req) = Some p"
    "\<not> map_get False (isFileHashProvided s') (fr_FileHash req)" by (simp_all add: map_get_def)
  with closed_request [OF assms(4), of s' polls] show ?thesis by simp
qed

text \<open>The node dials the relay through the relay.  The handler of the relay's peer list compares each
  peer's textual identity with the raw bytes of the relay's identity, which begin with a zero byte; the
  relay's own entry is therefore not skipped.\<close>

theorem relay_dialled_through_itself:
  assumes "relayRawID bt = CHR 0x00 # raw" and "relayID = CHR ''1'' # text"
    and "knownPeers (fst (unjsonObject bt (trim_space line))) = [JObj [(''peer_id'', JStr relayID)]]"
    and "multiaddrErr bt RELAY_NODE_MULTIADDR = None" and "infoErr bt RELAY_NODE_MULTIADDR = None"
    and "relayAddrErr env = None" and "circuit_ok env (trim_space relayID)"
    and "addrInfoErr env (trim_space relayID) = None"
  shows "Dial (trim_space relayID) \<in> set (effects (snd (handlePeerExhangeWithRelay env bt line s)))"
proof -
  have differ: "relayID \<noteq> relayRawID bt" using assms(1,2) by simp
  have conn: "effects (snd (ignore_err (connectToNodeUsingRelay env relayID) s)) =
      effects s @ [Dial (trim_space relayID)]"
    using assms(6,7,8)
    by (simp add: connectToNodeUsingRelay_def ignore_err_def recover_err_def bind_act_def wrap_err_def
        lift_err_def act_defs attempt_def Let_def split: option.split)
  obtain r s1 where r: "ignore_err (connectToNodeUsingRelay env relayID) s = (r, s1)" by fastforce
  have "snd (handlePeerExhangeWithRelay env bt line s) = s1"
    using r differ assms(3,4,5)
    by (cases r) (simp_all add: handlePeerExhangeWithRelay_def bind_act_def wrap_err_def lift_err_def act_defs
        peerIdOf_def)
  with conn r show ?thesis by simp
qed

lemma ok_attempt [ok_iff]:
  "attempt f s = (Ok u, s') \<longleftrightarrow> f (length (effects s)) = None \<and> s' = s"
  by (auto simp: attempt_def split: option.splits)

lemma ok_recover_ret [ok_iff]:
  "recover_err (\<lambda>_. ret_act x) m s = (Ok y, s') \<longleftrightarrow>
     m s = (Ok y, s') \<or> (\<exists>e. m s = (Err e, s') \<and> y = x)"
  by (auto simp: recover_err_def act_defs split: prod.splits outcome.splits)

lemma connectToNode_ok:
  "connectToNode bt a s = (Ok u, s') \<Longrightarrow> s' = log_effect (Dial a) s"
  by (auto simp: connectToNode_def ok_iff)

lemma makeReservation_ok: "makeReservation bt s = (Ok u, s') \<Longrightarrow> s' = log_effect Reserve s"
  by (auto simp: makeReservation_def ok_iff)

lemma startState_effects: "startState env sbu d = (Ok u, s) \<Longrightarrow> effects s = []"
proof -
  have op: "act_rel (keeps effects) (open_file env p)" for p
    by (simp add: act_rel_def keeps_def open_file_def split: option.split)
  have "act_rel (keeps effects) (loadState env)"
    unfolding loadState_def by (intro keep.rel_intros keep.rel_upd op) (simp add: keeps_def)
  then have "act_rel (keeps effects) (bind_act (catch_act (open_file env (stateFile sbu))) (\<lambda>r.
      case r of Inl _ \<Rightarrow> ret_act () | Inr _ \<Rightarrow> ignore_err (loadState env)))"
    by (auto intro!: keep.rel_intros op split: sum.split)
  from keeps_run [OF this, of "initNode sbu d"] show "startState env sbu d = (Ok u, s) \<Longrightarrow> effects s = []"
    by (simp add: startState_def initNode_def)
qed

text \<open>Start.  The handlers and services run only when every step of the start has succeeded; the
  node has then dialled the relay, reserved a slot on it and dialled the bootstrap node, in this order.\<close>

theorem main_start_order:
  assumes "main_start env bt (sbu # rest) d = (Ok True, s)"
  shows "effects s = [Dial RELAY_NODE_MULTIADDR, Reserve,
      Dial (if length rest = 1 then hd rest else BOOTSTRAP_NODE_MULTIADDR)]"
proof -
  let ?b = "case rest of [b] \<Rightarrow> b | _ \<Rightarrow> BOOTSTRAP_NODE_MULTIADDR"
  obtain u s0 where st: "startState env sbu d = (Ok u, s0)"
    and main: "bind_act (createNode bt) (\<lambda>_.
           bind_act (connectToNode bt RELAY_NODE_MULTIADDR) (\<lambda>_.
           bind_act (makeReservation bt) (\<lambda>_.
           bind_act (connectToNode bt ?b) (\<lambda>_. ret_act True)))) s0 = (Ok True, s)"
    using assms by (auto simp: main_start_def Let_def ok_bind ok_recover_ret)
  have "s0' = s0" if "createNode bt s0 = (Ok v, s0')" for v s0'
    using that by (auto simp: createNode_def generatePrivateKeyFromSeed_def ok_iff)
  with main have "s = log_effect (Dial ?b) (log_effect Reserve (log_effect (Dial RELAY_NODE_MULTIADDR) s0))"
    by (auto simp: ok_bind ok_basic dest!: connectToNode_ok makeReservation_ok)
  then show ?thesis using startState_effects [OF st] by (auto split: list.splits)
qed

text \<open>The reservation loop returns only when the context is cancelled, and then it has refreshed the
  reservation once per tick.  A refresh that fails is not an error of the loop: it ends the process.\<close>

theorem refreshReservation_returns:
  assumes "refreshReservation bt es s = (r, s')" and "\<not> (\<exists>e. r = Panic e)" and "r \<noteq> Blocked"
  shows "\<exists>n rest. r = Ok () \<and> es = replicate n RefreshTick @ Cancelled # rest \<and>
      effects s' = effects s @ replicate n Reserve"
  using assms
proof (induction bt es arbitrary: s rule: refreshReservation.induct)
  case (3 bt es)
  obtain q s1 where q: "makeReservation bt s = (q, s1)" by fastforce
  with 3 obtain u where u: "q = Ok u" and run: "refreshReservation bt es s1 = (r, s')"
    by (cases q) (auto simp: bind_act_def recover_err_def act_defs)
  from 3(1) [OF run 3(3,4)] obtain n rest where "r = Ok ()"
    "es = replicate n RefreshTick @ Cancelled # rest" "effects s' = effects s1 @ replicate n Reserve" by blast
  with makeReservation_ok [OF q [unfolded u]] show ?case
    by (intro exI [of _ "Suc n"] exI [of _ rest]) simp
qed (auto simp: act_defs intro: exI [of _ "0::nat"])

subsection \<open>Concrete runs\<close>

definition demoBoot :: boot where
  "demoBoot = \<lparr>keyErr = (\<lambda>_. None), multiaddrErr = (\<lambda>_. None), infoErr = (\<lambda>_. None), hostErr = None,
     relayErr = None, dhtErr = None, bootstrapErr = None, dialErr = (\<lambda>_ _. None), reserveErr = (\<lambda>_. None),
     relayRawID = [CHR 0x00, CHR 0x24],
     unjsonObject = (\<lambda>_. ([(''known_peers'', JArr [JObj [(''peer_id'', JStr ''12D3'')]])], None)),
     readAllErr = (\<lambda>_. None), hashedBytes = (\<lambda>_. 0), upperOther = (\<lambda>s. s), findProviders = (\<lambda>_. [])\<rparr>"

theorem cli_provided_file_is_refused_witness:
  "\<exists>s'. cmdProvideFile demoEnv (demoSrv\<lparr>sha256hex := (\<lambda>_. ''h'')\<rparr>) demoBoot ''nofile'' (initNode ''1'' Map.empty)
      = (Ok (), s') \<and>
    receiveFileRequests demoEnv [] (Ok ''x'') s' = ignore_err (sendFileNotCurrentlyProvidedToPeer demoEnv ''Q'' ''r'') s'"
proof -
  let ?srv = "demoSrv\<lparr>sha256hex := (\<lambda>_. ''h'')\<rparr>" and ?n = "initNode ''1'' Map.empty"
  have hash: "fst (hashForProvide demoEnv ?srv demoBoot ''nofile'' ?n) = Ok (fr_FileHash demoRequest)"
    by (simp add: hashForProvide_def catch_act_def open_file_def demoEnv_def initNode_def bind_act_def
        println_def act_defs demoRequest_def)
  obtain s' where run: "cmdProvideFile demoEnv ?srv demoBoot ''nofile'' ?n = (Ok (), s')"
    by (simp add: cmdProvideFile_def hashForProvide_def catch_act_def open_file_def demoEnv_def initNode_def
        bind_act_def println_def act_defs recover_err_def ignore_err_def dhtPutValue_def provideKey_def
        demoSrv_def lift_err_def wrap_err_def)
  have "isFileHashProvided ?n (fr_FileHash demoRequest) = None" by (simp add: initNode_def)
  moreover have "unjsonFileRequest demoEnv ''x'' = Ok demoRequest" by (simp add: demoEnv_def)
  ultimately show ?thesis
    using cli_provided_file_is_refused [OF run hash, of "''x''" "[]"] run by (auto simp: demoRequest_def)
qed

theorem relay_dialled_through_itself_witness:
  "Dial ''12D3'' \<in> set (effects (snd (handlePeerExhangeWithRelay demoEnv demoBoot ''{}'' demoNode)))"
proof -
  have t: "trim_space ''12D3'' = ''12D3''" by code_simp
  show ?thesis
    using relay_dialled_through_itself [of demoBoot "[CHR 0x24]" "''12D3''" "''2D3''" "''{}''" demoEnv demoNode]
    by (simp add: t demoBoot_def demoEnv_def knownPeers_def)
qed

theorem main_start_order_witness:
  "\<exists>s. main_start demoEnv demoBoot [''1''] Map.empty = (Ok True, s) \<and>
     effects s = [Dial RELAY_NODE_MULTIADDR, Reserve, Dial BOOTSTRAP_NODE_MULTIADDR]"
proof -
  have "\<exists>s. main_start demoEnv demoBoot [''1''] Map.empty = (Ok True, s)"
    by (simp add: main_start_def startState_def createNode_def connectToNode_def makeReservation_def
        generatePrivateKeyFromSeed_def demoBoot_def demoEnv_def catch_act_def open_file_def initNode_def
        bind_act_def act_defs recover_err_def wrap_err_def lift_err_def attempt_def Let_def)
  then obtain s where "main_start demoEnv demoBoot [''1''] Map.empty = (Ok True, s)" by blast
  with main_start_order [OF this] show ?thesis by simp
qed

theorem refreshReservation_returns_witness:
  "effects (snd (refreshReservation demoBoot [RefreshTick, Cancelled] demoNode)) = [Reserve]"
proof -
  have run: "refreshReservation demoBoot [RefreshTick, Cancelled] demoNode = (Ok (), log_effect Reserve demoNode)"
    by (simp add: makeReservation_def bind_act_def act_defs recover_err_def wrap_err_def lift_err_def
        attempt_def demoBoot_def)
  from refreshReservation_returns [OF run] obtain n rest where
    "[RefreshTick, Cancelled] = replicate n RefreshTick @ Cancelled # rest"
    "effects (log_effect Reserve demoNode) = effects demoNode @ replicate n Reserve" by auto
  then show ?thesis using run by (simp add: demoNode_def initNode_def)
qed

end
