(* ===== verification/Bitshare_System.thy ===== *)
theory Bitshare_System
  imports Bitshare_Node
begin

text \<open>
  The node as a whole.  An \<open>event\<close> is one run of a stream handler, of an RPC handler or of a command
  with everything the outside contributed to it; \<open>react\<close> runs it and \<open>runs\<close> is a sequence of events.
  Handlers run to completion one after the other, except where a handler depends on what another
  goroutine does while it waits: the polls of a sender, the ticks of a metadata request and the metadata that
  arrives while \<open>GetFile\<close> waits for the peer are part of the event.

  The locale \<open>node_frame\<close> derives, for any reflexive and transitive relation between node states that
  tolerates network traffic and disk writes, that every handler respects it as soon as its own updates
  do.  It is instantiated with the invariant of the node, with the tables of the shared files and with
  the payments.
\<close>

subsection \<open>Events\<close>

datatype event =
    FileRequestIn "bool list" "bytes outcome"
  | FileDataIn int int "nat \<Rightarrow> int" "bytes list" "string option"
  | MetaRequestIn "bytes outcome"
  | MetaDataIn "bytes list" "string option"
  | PauseIn "bytes outcome"
  | ErrorIn "bytes outcome"
  | PeersIn boot string
  | RpcGetFile services int int "FileDataHeader list" string string
  | RpcGetFileMetaData int "select_event list" string string
  | RpcGetProviders services string
  | RpcGetHistory "string list"
  | RpcGetNodeInfo
  | RpcGetUpdates services "string list"
  | RpcProvideFile services string gofloat
  | RpcStopProviding string
  | RpcResumeProviding string
  | RpcPauseDownload int string
  | RpcResumeDownload int string
  | CliLine services boot int string

fun react :: "p2p \<Rightarrow> event \<Rightarrow> node \<Rightarrow> node" where
  "react env (FileRequestIn polls bs) s = snd (receiveFileRequests env polls bs s)"
| "react env (FileDataIn now t0 clock segs fin) s = snd (receiveFileData env now t0 clock segs fin s)"
| "react env (MetaRequestIn bs) s = snd (receiveFileMetaDataRequests env bs s)"
| "react env (MetaDataIn segs fin) s = snd (receiveFileMetaData env segs fin s)"
| "react env (PauseIn bs) s = snd (receivePauseDownload env bs s)"
| "react env (ErrorIn bs) s = snd (receiveErrorMessages env bs s)"
| "react env (PeersIn bt line) s = snd (handlePeerExhangeWithRelay env bt line s)"
| "react env (RpcGetFile srv now now' arrived h pid) s = snd (GetFile env srv now now' arrived h pid s)"
| "react env (RpcGetFileMetaData now evs h pid) s = snd (GetFileMetaData env now evs h pid s)"
| "react env (RpcGetProviders srv h) s = snd (GetProviders env srv h s)"
| "react env (RpcGetHistory order) s = snd (GetHistory env order s)"
| "react env RpcGetNodeInfo s = snd (GetNodeInfo env s)"
| "react env (RpcGetUpdates srv order) s = snd (GetUpdates env srv order s)"
| "react env (RpcProvideFile srv path price) s = snd (ProvideFile env srv path price s)"
| "react env (RpcStopProviding h) s = snd (StopProvidingFile env h s)"
| "react env (RpcResumeProviding h) s = snd (ResumeProvidingFile env h s)"
| "react env (RpcPauseDownload now r) s = snd (PauseDownload env now r s)"
| "react env (RpcResumeDownload now r) s = snd (ResumeDownload env now r s)"
| "react env (CliLine srv bt now line) s = snd (handleCommand env srv bt now line s)"

inductive runs :: "p2p \<Rightarrow> event list \<Rightarrow> node \<Rightarrow> node \<Rightarrow> bool" for env :: p2p where
  runs_none: "runs env [] s s"
| runs_more: "runs env es (react env e s) s' \<Longrightarrow> runs env (e # es) s s'"

inductive_cases runs_ConsE: "runs env (e # es) s s'"
inductive_simps runs_Nil_iff: "runs env [] s s'"

subsection \<open>Frame relations of the node\<close>

fun is_pay :: "effect \<Rightarrow> bool" where
  "is_pay (Pay a v) = True"
| "is_pay _ = False"

locale node_frame = frame_relation R for R :: "node \<Rightarrow> node \<Rightarrow> bool" +
  assumes quiet: "\<not> is_pay e \<Longrightarrow> R s (log_effect e s)"
    and disk_only: "R s (s\<lparr>disk := d\<rparr>)"
begin

lemma nf_log: "\<not> is_pay e \<Longrightarrow> act_rel R (upd_act (log_effect e))"
  by (intro rel_upd quiet)

lemma nf_attempt: "act_rel R (attempt f)"
  by (auto simp: act_rel_def attempt_def refl split: option.split)

lemma nf_open: "act_rel R (open_file env p)"
  by (auto simp: act_rel_def open_file_def refl split: option.split)

lemma nf_create: "act_rel R (create_file env p)"
  by (auto simp: act_rel_def create_file_def refl disk_only split: option.split)

lemma nf_write: "act_rel R (upd_act (write_file p bs))"
  by (intro rel_upd) (simp add: write_file_def disk_only)

lemma nf_addr0: "act_rel R (addr0 env)"
  unfolding addr0_def by (auto intro!: rel_intros split: list.split)

lemmas nf_basic = rel_ret rel_fail rel_panic rel_blocked rel_get rel_lift rel_lift_err nf_log nf_attempt
  nf_open nf_create nf_write nf_addr0

lemmas nf_intros = nf_basic rel_bind rel_wrap rel_catch rel_recover rel_ignore

lemma nf_connect: "act_rel R (connectToNodeUsingRelay env t)"
  unfolding connectToNodeUsingRelay_def Let_def by (auto intro!: nf_intros)

lemma nf_createStream: "act_rel R (createStream env t p)"
  unfolding createStream_def Let_def by (auto intro!: nf_intros)

lemma nf_stream_write: "act_rel R (stream_write env st bs)"
  unfolding stream_write_def by (auto intro!: nf_intros)

lemma nf_send_message: "act_rel R (send_message env pre t p enc)"
  unfolding send_message_def by (intro nf_intros nf_createStream nf_stream_write)

lemma nf_senders: "act_rel R (sendFileNotFoundToPeer env t r)"
  "act_rel R (sendFileNotCurrentlyProvidedToPeer env t r)"
  "act_rel R (sendPauseRequestToPeer env now t r b)"
  unfolding sendFileNotFoundToPeer_def sendFileNotCurrentlyProvidedToPeer_def sendPauseRequestToPeer_def
  by (rule nf_send_message)+

lemma nf_requests: "act_rel R (sendFileRequestToPeer env now t h r)"
  "act_rel R (sendFileMetaDataRequestToPeer env now t h)" "act_rel R (sendFileMetaDataToPeer env t p h)"
  unfolding sendFileRequestToPeer_def sendFileMetaDataRequestToPeer_def sendFileMetaDataToPeer_def
  by (intro nf_intros nf_createStream nf_stream_write)+

lemma nf_sendLoop: "act_rel R (sendLoop env st path off rest ps)"
  by (induction env st path off rest ps rule: sendLoop.induct)
    (auto intro!: nf_intros nf_stream_write split: option.split)

lemma nf_sendFile: "act_rel R (sendFileToPeer env polls t p h r)"
  unfolding sendFileToPeer_def
  by (intro nf_intros nf_createStream nf_stream_write nf_sendLoop)

lemma nf_saveState: "act_rel R (saveState env)"
  unfolding saveState_def by (auto intro!: nf_intros split: prod.split)

lemma nf_dht: "act_rel R (searchFileOnDHT srv h)" "act_rel R (dhtPutValue srv k v)"
  "act_rel R (provideKey srv k)"
  unfolding searchFileOnDHT_def dhtPutValue_def provideKey_def
  by (auto intro!: nf_intros split: outcome.split)

lemma nf_provideDHT: "act_rel R (provideFileOnDHT srv h pid)"
  unfolding provideFileOnDHT_def Let_def by (intro nf_intros nf_dht)

lemma nf_wallet: "act_rel R (walletAnswer srv f k resp)"
  unfolding walletAnswer_def by (auto intro!: nf_intros)

lemma nf_walletCalls: "act_rel R (checkBalance srv)" "act_rel R (getMiningAddress srv)"
  "act_rel R (walletBalance srv)"
  unfolding walletBalance_def checkBalance_def getMiningAddress_def Let_def by (intro nf_intros nf_wallet)+

lemmas nf_calls = nf_connect nf_createStream nf_stream_write nf_senders nf_requests nf_sendFile nf_saveState
  nf_dht nf_provideDHT nf_walletCalls

text \<open>Handlers without updates of their own.\<close>

lemma nf_metaRequests: "act_rel R (receiveFileMetaDataRequests env bs)"
  unfolding receiveFileMetaDataRequests_def by (auto intro!: nf_intros nf_calls split: option.split)

lemma nf_errors: "act_rel R (receiveErrorMessages env bs)"
  unfolding receiveErrorMessages_def by (intro nf_intros)

lemma nf_dialPeers: "act_rel R (dialPeers env bt js)"
  by (induction env bt js rule: dialPeers.induct) (auto intro!: nf_intros nf_calls split: option.split)

lemma nf_peers: "act_rel R (handlePeerExhangeWithRelay env bt line)"
  unfolding handlePeerExhangeWithRelay_def by (intro nf_intros nf_dialPeers)

lemma nf_queries: "act_rel R (GetProviders env srv h)" "act_rel R (GetHistory env order)"
  "act_rel R (GetNodeInfo env)" "act_rel R (GetUpdates env srv order)"
  unfolding GetProviders_def GetHistory_def GetNodeInfo_def GetUpdates_def
  by (auto intro!: nf_intros nf_calls split: sum.split)

lemma nf_setDownload: "act_rel R (PauseDownload env now r)" "act_rel R (ResumeDownload env now r)"
  unfolding PauseDownload_def ResumeDownload_def setDownload_def connectAndPauseRequestFromPeer_def
  by (auto intro!: nf_intros nf_calls split: sum.split option.split)

text \<open>Handlers with updates: each is respected when its updates are.\<close>

lemma nf_fileRequests:
  assumes "\<And>req s. R s (allowDownload req s)"
  shows "act_rel R (receiveFileRequests env polls bs)"
  unfolding receiveFileRequests_def
  by (auto intro!: nf_intros nf_calls rel_upd assms split: option.split)

lemma nf_metaData:
  assumes "\<And>m s. R s (s\<lparr>metadataResponse := m\<rparr>)"
  shows "act_rel R (receiveFileMetaData env segs fin)" "act_rel R (GetFileMetaData env now evs h pid)"
proof -
  show "act_rel R (receiveFileMetaData env segs fin)"
    unfolding receiveFileMetaData_def by (auto intro!: nf_intros rel_upd assms split: prod.split)
  have "act_rel R (awaitMetaData env h pid evs)"
    by (induction env h pid evs rule: awaitMetaData.induct)
      (auto intro!: nf_intros nf_calls rel_upd assms split: option.split)
  then show "act_rel R (GetFileMetaData env now evs h pid)"
    unfolding GetFileMetaData_def connectAndRequestFileMetaDataFromPeer_def
    by (auto intro!: nf_intros nf_calls split: sum.split)
qed

lemma nf_pause:
  assumes "\<And>m s. R s (s\<lparr>downloadStatus := m\<rparr>)"
  shows "act_rel R (receivePauseDownload env bs)"
  unfolding receivePauseDownload_def by (intro nf_intros rel_upd assms)

lemma nf_recvLoop:
  assumes "\<And>cur tot lt lb s. R s (updateProgress h cur tot lt lb s)"
  shows "act_rel R (recvLoop env h path clock fin i bs tot lastT lastB)"
  by (induction bs arbitrary: i tot lastT lastB)
    (auto intro!: nf_intros rel_upd assms simp: Let_def split: option.split)

lemma nf_setProvided:
  assumes "\<And>s. isFileHashProvided s h \<noteq> None \<Longrightarrow>
      R s (s\<lparr>isFileHashProvided := (isFileHashProvided s)(h \<mapsto> b)\<rparr>)"
  shows "act_rel R (setProvided env b msg h)"
  unfolding act_rel_def
proof
  fix s
  have "act_rel R (bind_act (ignore_err (saveState env)) (\<lambda>_. ret_act x))" for x :: "StopProvidingFileReply \<times> string option"
    by (intro nf_intros nf_calls)
  then show "R s (snd (setProvided env b msg h s))"
    using assms [of s]
    by (cases "isFileHashProvided s h")
      (auto simp: setProvided_def run ret_act_def refl act_rel_def intro: trans)
qed

lemma nf_sendCoin:
  assumes "\<And>a v s. R s (log_effect (Pay a v) s)"
  shows "act_rel R (sendCoinToAddress srv a v)"
  unfolding sendCoinToAddress_def by (intro nf_intros nf_wallet rel_upd assms)

lemma nf_GetFile:
  assumes "\<And>rid h a s. R s (addFileRequest env now rid h a s)" and "\<And>a v s. R s (log_effect (Pay a v) s)"
    and "\<And>m s. R s (s\<lparr>metadataResponse := m\<rparr>)"
  shows "act_rel R (GetFile env srv now now' arrived h pid)"
  unfolding GetFile_def connectAndRequestFileFromPeer_def Let_def
  by (intro rel_cases nf_intros nf_calls rel_upd assms(1,3) nf_sendCoin [OF assms(2)])

lemma nf_println: "act_rel R (println t)"
  unfolding println_def by (intro nf_log) simp

lemma nf_printProviders: "act_rel R (printProviders ps)"
proof (induction ps rule: printProviders.induct)
  case (2 p addrs ps)
  have "act_rel R m \<Longrightarrow> act_rel R (fold (\<lambda>a m. bind_act m (\<lambda>_. println ('' - Address: '' @ a))) addrs m)" for m
    by (induction addrs arbitrary: m) (simp_all del: append_Cons add: rel_bind nf_println)
  with 2 show ?case by (auto intro!: nf_intros nf_println)
qed (simp add: rel_ret)

lemma nf_hashForProvide: "act_rel R (hashForProvide env srv bt p)"
  unfolding hashForProvide_def by (auto intro!: nf_intros nf_println split: sum.split option.split)

lemma nf_command:
  assumes "\<And>h p s. R s (s\<lparr>fileHashToPath := (fileHashToPath s)(h \<mapsto> p)\<rparr>)"
  shows "act_rel R (handleCommand env srv bt now line)"
  unfolding handleCommand_def cmdGet_def cmdGetProviders_def cmdPut_def cmdProvideFile_def cmdGetFile_def Let_def
  by (intro rel_cases nf_intros nf_calls nf_println nf_printProviders nf_hashForProvide rel_upd assms)

lemma nf_storeTail:
  assumes "\<And>cur tot lt lb s. R s (updateProgress h cur tot lt lb s)" and "\<And>tot s. R s (finishDownload h tot s)"
  shows "act_rel R (bind_act (get_act (\<lambda>s. DOWNLOAD_DIRECTORY s)) (\<lambda>dir.
    bind_act (create_file env (dir @ ''/'' @ fh_FileName h)) (\<lambda>_.
    bind_act (recvLoop env h (dir @ ''/'' @ fh_FileName h) clock fin 0 (reads 1024 segs) 0 t0 0) (\<lambda>tot.
    bind_act (upd_act (finishDownload h tot)) (\<lambda>_.
    copyFromContainer env (''/'' @ dir @ ''/'' @ fh_FileName h) (fh_FileName h))))))"
  unfolding copyFromContainer_def Let_def
  by (intro nf_intros nf_recvLoop assms(1) rel_upd assms(2))

lemma nf_announce:
  assumes "\<And>hd s. fh_FileHash hd = h \<Longrightarrow> R s (addProvidedFile hd s)"
  shows "act_rel R (announceFile env srv p q h c)"
  unfolding announceFile_def by (intro nf_intros nf_calls rel_upd assms) simp

lemma nf_receiveFileData:
  assumes "\<And>h s. R s (notProvided h s)" and "\<And>h s. R s (startDownload h now s)"
    and "\<And>h cur tot lt lb s. R s (updateProgress h cur tot lt lb s)" and "\<And>h tot s. R s (finishDownload h tot s)"
  shows "act_rel R (receiveFileData env now t0 clock segs fin)"
proof -
  have "act_rel R (storeDownload env h now t0 clock sg fin)" for h sg
    unfolding storeDownload_def
    by (rule rel_bind [OF rel_upd [OF assms(2)]]) (rule nf_storeTail [OF assms(3,4)])
  then show ?thesis
    unfolding receiveFileData_def by (auto intro!: nf_intros rel_upd assms(1) split: prod.split)
qed

lemma nf_ProvideFile:
  assumes "\<And>h p s. R s (markProvided h p s)" and "\<And>hd s. R s (addProvidedFile hd s)"
  shows "act_rel R (ProvideFile env srv p q)"
  unfolding ProvideFile_def generateFileHash_def publishFile_def
  by (intro rel_sum nf_intros nf_calls nf_announce rel_upd assms)

end

subsection \<open>Invariants as frame relations\<close>

locale node_inv =
  fixes P :: "node \<Rightarrow> bool"
  assumes P_log: "P s \<Longrightarrow> P (log_effect e s)"
    and P_disk: "P s \<Longrightarrow> P (s\<lparr>disk := d\<rparr>)"

sublocale node_inv \<subseteq> node_frame "preserves P"
  by unfold_locales (auto simp: preserves_def P_log P_disk)

text \<open>An invariant that the updates of the handlers keep is kept by every event.\<close>

context node_inv
begin

lemma P_react:
  assumes "\<And>req s. P s \<Longrightarrow> P (allowDownload req s)"
    and "\<And>m s. P s \<Longrightarrow> P (s\<lparr>metadataResponse := m\<rparr>)" and "\<And>m s. P s \<Longrightarrow> P (s\<lparr>downloadStatus := m\<rparr>)"
    and "\<And>h p s. P s \<Longrightarrow> P (s\<lparr>fileHashToPath := (fileHashToPath s)(h \<mapsto> p)\<rparr>)"
    and "\<And>env now rid h a s. P s \<Longrightarrow> P (addFileRequest env now rid h a s)"
    and "\<And>h. e = RpcStopProviding h \<Longrightarrow> P (snd (StopProvidingFile env h s))"
    and "\<And>h. e = RpcResumeProviding h \<Longrightarrow> P (snd (ResumeProvidingFile env h s))"
    and "\<And>srv p q. e = RpcProvideFile srv p q \<Longrightarrow> P (snd (ProvideFile env srv p q s))"
    and "\<And>now t0 clock segs fin. P (snd (receiveFileData env now t0 clock segs fin s))"
    and "P s"
  shows "P (react env e s)"
proof -
  have upds: "preserves P s (allowDownload req s)" "preserves P s (s\<lparr>metadataResponse := m\<rparr>)"
    "preserves P s (s\<lparr>downloadStatus := n\<rparr>)" "preserves P s (s\<lparr>fileHashToPath := (fileHashToPath s)(h \<mapsto> p)\<rparr>)"
    "preserves P s (addFileRequest en now rid h a s)" "preserves P s (log_effect eff s)"
    for req m n h p en now rid a eff s
    using assms(1-5) P_log by (auto simp: preserves_def)
  note steps = nf_fileRequests [OF upds(1)] nf_metaData [OF upds(2)] nf_pause [OF upds(3)]
    nf_command [OF upds(4)] nf_GetFile [OF upds(5,6,2)] nf_metaRequests nf_errors nf_peers nf_queries
    nf_setDownload
  show ?thesis
    using steps [THEN preserves_run, OF assms(10)] assms(6-9) by (cases e) auto
qed

end

subsection \<open>The invariant of the node\<close>

text \<open>Every provided hash has a path; every shared header's hash has a provided flag; a download is filed
  under its request; the time of the last pause is never set.\<close>

definition node_ok :: "node \<Rightarrow> bool" where
  "node_ok s \<longleftrightarrow> dom (isFileHashProvided s) \<subseteq> dom (fileHashToPath s) \<and>
     (\<forall>h \<in> set (providedFiles s). fh_FileHash h \<in> dom (isFileHashProvided s)) \<and>
     (\<forall>k t. downloadHistory s k = Some t \<longrightarrow> ft_RequestID t = k) \<and>
     lastDownloadStatus s = 0"

lemma node_ok_log [simp]: "node_ok (log_effect e s) = node_ok s"
  by (simp add: node_ok_def)

lemma node_ok_disk [simp]: "node_ok (s\<lparr>disk := d\<rparr>) = node_ok s"
  by (simp add: node_ok_def)

interpretation ok: node_inv node_ok
  by unfold_locales simp_all

text \<open>Inside a handler more is known: the hash just registered, the download just begun.\<close>

interpretation shared: node_inv "\<lambda>s. node_ok s \<and> h \<in> dom (isFileHashProvided s)" for h
  by unfold_locales auto

interpretation begun: node_inv "\<lambda>s. node_ok s \<and> r \<in> dom (downloadHistory s)" for r
  by unfold_locales auto

lemma node_ok_ProvideFile: "node_ok s \<Longrightarrow> node_ok (snd (ProvideFile env srv p q s))"
proof -
  have add: "preserves (\<lambda>s. node_ok s \<and> h \<in> dom (isFileHashProvided s)) s (addProvidedFile hd s)"
    if "fh_FileHash hd = h" for h hd s
    using that by (auto simp: preserves_def node_ok_def addProvidedFile_def)
  have ann: "act_rel (preserves (\<lambda>s. node_ok s \<and> h \<in> dom (isFileHashProvided s)))
      (bind_act (catch_act (wrap_err ''sendFileToPeer: '' (bind_act (open_file env p)
      (\<lambda>content. bind_act (lift_err (statErr srv p)) (\<lambda>_. ret_act content))))) (\<lambda>f. case f of
      Inl e \<Rightarrow> ret_act (\<lparr>pf_Success = False, pf_Message = [], pf_FileHash = []\<rparr>, Some e)
    | Inr content \<Rightarrow> announceFile env srv p q h content))" for h
    by (intro preserve.rel_sum shared.nf_intros shared.nf_announce add)
  have pub: "act_rel (preserves node_ok) (publishFile env srv p q h)" for h
    unfolding act_rel_def preserves_def
  proof (intro allI impI)
    fix s assume "node_ok s"
    then have "node_ok (markProvided h p s) \<and> h \<in> dom (isFileHashProvided (markProvided h p s))"
      by (auto simp: node_ok_def markProvided_def)
    from preserves_run [OF ann, of "markProvided h p s", OF this] show "node_ok (snd (publishFile env srv p q h s))"
      by (simp add: publishFile_def run)
  qed
  have "act_rel (preserves node_ok) (ProvideFile env srv p q)"
    unfolding ProvideFile_def generateFileHash_def
    by (intro preserve.rel_sum ok.nf_intros ok.nf_calls pub)
  from preserves_run [OF this] show "node_ok s \<Longrightarrow> node_ok (snd (ProvideFile env srv p q s))" .
qed

lemma node_ok_receiveFileData:
  "node_ok s \<Longrightarrow> node_ok (snd (receiveFileData env now t0 clock segs fin s))"
proof -
  let ?B = "\<lambda>h s. node_ok s \<and> fh_RequestID h \<in> dom (downloadHistory s)"
  have upd: "preserves (?B h) s (updateProgress h cur tot lt lb s)" "preserves (?B h) s (finishDownload h tot s)"
    for h cur tot lt lb s
    by (auto simp: preserves_def node_ok_def updateProgress_def finishDownload_def Let_def map_get_def
        split: if_splits option.splits)
  have store: "act_rel (preserves node_ok) (storeDownload env h now t0 clock sg fin)" for h sg
    unfolding act_rel_def preserves_def
  proof (intro allI impI)
    fix s assume "node_ok s"
    then have "?B h (startDownload h now s)" by (auto simp: node_ok_def startDownload_def)
    from preserves_run [OF begun.nf_storeTail [OF upd], of "startDownload h now s", OF this]
    show "node_ok (snd (storeDownload env h now t0 clock sg fin s))"
      by (auto simp: storeDownload_def bind_act_run)
  qed
  have "preserves node_ok s (notProvided h s)" for h s
    by (auto simp: preserves_def node_ok_def notProvided_def)
  then have "act_rel (preserves node_ok) (receiveFileData env now t0 clock segs fin)"
    unfolding receiveFileData_def
    by (auto intro!: ok.nf_intros preserve.rel_upd store split: prod.split)
  from preserves_run [OF this] show "node_ok s \<Longrightarrow> node_ok (snd (receiveFileData env now t0 clock segs fin s))" .
qed

lemma node_ok_setProvided: "node_ok s \<Longrightarrow> node_ok (snd (setProvided env b msg h s))"
  by (rule preserves_run [OF ok.nf_setProvided]) (auto simp: preserves_def node_ok_def)

lemma node_ok_react: "node_ok s \<Longrightarrow> node_ok (react env e s)"
  by (rule ok.P_react)
    (simp_all add: node_ok_receiveFileData node_ok_ProvideFile node_ok_setProvided StopProvidingFile_def
      ResumeProvidingFile_def, auto simp: node_ok_def allowDownload_def addFileRequest_def)

text \<open>C9: The node's tables stay consistent.  From a fresh start, whatever sequence of peer messages, RPC calls
  and commands the node handles and whatever fails on the way: every hash with a provided flag has a path,
  every shared header's hash has a provided flag, every download is filed under its own request identity,
  and the time of the last pause, which the acceptance of file requests depends on, is never set.\<close>

theorem runs_keep_node_ok:
  assumes "runs env es (initNode sbu d) s"
  shows "node_ok s"
proof -
  have "runs env es s0 s \<Longrightarrow> node_ok s0 \<Longrightarrow> node_ok s" for s0
    by (induction rule: runs.induct) (simp_all add: node_ok_react)
  moreover have "node_ok (initNode sbu d)" by (simp add: node_ok_def initNode_def)
  ultimately show ?thesis using assms by blast
qed

subsection \<open>A stopped file stays closed\<close>

text \<open>The events that may open the hash \<open>h\<close> again: resuming it, or providing a file with this hash.\<close>

fun reopens :: "string \<Rightarrow> node \<Rightarrow> event \<Rightarrow> bool" where
  "reopens h s (RpcResumeProviding h') = (h' = h)"
| "reopens h s (RpcProvideFile srv p q) =
    (case disk s (resolve p) of None \<Rightarrow> False | Some c \<Rightarrow> sha256hex srv c = h)"
| "reopens h s _ = False"

inductive runs_closed :: "p2p \<Rightarrow> string \<Rightarrow> event list \<Rightarrow> node \<Rightarrow> node \<Rightarrow> bool" for env :: p2p and h :: string
where
  "runs_closed env h [] s s"
| "\<not> reopens h s e \<Longrightarrow> runs_closed env h es (react env e s) s' \<Longrightarrow> runs_closed env h (e # es) s s'"

inductive_simps runs_closed_iff: "runs_closed env h [] s s'" "runs_closed env h (e # es) s s'"

definition closed_for :: "string \<Rightarrow> node \<Rightarrow> bool" where
  "closed_for h s \<longleftrightarrow> isFileHashProvided s h = Some False"

interpretation shut: node_inv "closed_for h" for h
  by unfold_locales (simp_all add: closed_for_def)

lemma closed_ProvideFile:
  assumes "closed_for h s" and "\<not> reopens h s (RpcProvideFile srv p q)"
  shows "closed_for h (snd (ProvideFile env srv p q s))"
proof -
  have pub: "act_rel (preserves (closed_for h)) (publishFile env srv p q h')" if "h' \<noteq> h" for h'
    unfolding publishFile_def
    by (intro preserve.rel_sum shut.nf_intros shut.nf_announce preserve.rel_upd)
      (use that in \<open>auto simp: preserves_def closed_for_def addProvidedFile_def markProvided_def\<close>)
  show ?thesis
  proof (cases "catch_act (generateFileHash env srv p) s")
    case (Pair r s1)
    have gen: "act_rel (preserves (closed_for h)) (catch_act (generateFileHash env srv p))"
      unfolding generateFileHash_def by (intro shut.nf_intros)
    have s1: "closed_for h s1" using preserves_run [OF gen assms(1)] Pair by simp
    have differ: "h' \<noteq> h" if "r = Ok (Inr h')" for h'
      using assms(2) Pair that by (auto simp: generateFileHash_def ok_iff)
    show ?thesis
    proof (cases r)
      case (Ok v)
      show ?thesis
      proof (cases v)
        case (Inr h')
        have "act_rel (preserves (closed_for h)) (bind_act (catch_act (provideFileOnDHT srv h' (peerID env)))
          (\<lambda>p'. case p' of Inl e \<Rightarrow> ret_act (\<lparr>pf_Success = False, pf_Message = ''Failed to provide file'',
                     pf_FileHash = []\<rparr>, Some e) | Inr _ \<Rightarrow> publishFile env srv p q h'))"
          by (intro preserve.rel_sum shut.nf_intros shut.nf_calls pub differ) (simp add: Ok Inr)
        from preserves_run [OF this s1] Pair Ok Inr show ?thesis by (simp add: ProvideFile_def bind_act_def [of "catch_act (generateFileHash env srv p)"])
      qed (use Pair Ok s1 in \<open>simp add: ProvideFile_def bind_act_def act_defs\<close>)
    qed (use Pair s1 in \<open>simp_all add: ProvideFile_def bind_act_def\<close>)
  qed
qed

lemma closed_react:
  assumes "closed_for h s" and "\<not> reopens h s e"
  shows "closed_for h (react env e s)"
proof (rule shut.P_react)
  show "closed_for h (snd (receiveFileData env now t0 clock segs fin s))" for now t0 clock segs fin
    by (rule preserves_run [OF shut.nf_receiveFileData assms(1)])
      (simp_all add: preserves_def closed_for_def notProvided_def startDownload_def updateProgress_def
        finishDownload_def Let_def)
  show "closed_for h (snd (ProvideFile env srv p q s))" if "e = RpcProvideFile srv p q" for srv p q
    using closed_ProvideFile assms that by blast
  have set: "closed_for h (snd (setProvided env b msg h' s))" if "b \<longrightarrow> h' \<noteq> h" for b msg h'
    by (rule preserves_run [OF shut.nf_setProvided assms(1)]) (use that in \<open>auto simp: preserves_def closed_for_def\<close>)
  show "closed_for h (snd (StopProvidingFile env h' s))" for h'
    unfolding StopProvidingFile_def by (rule set) simp
  show "closed_for h (snd (ResumeProvidingFile env h' s))" if "e = RpcResumeProviding h'" for h'
    unfolding ResumeProvidingFile_def by (rule set) (use assms(2) that in simp)
qed (use assms(1) in \<open>simp_all add: closed_for_def allowDownload_def addFileRequest_def\<close>)

lemma runs_closed_closed: "runs_closed env h es s s' \<Longrightarrow> closed_for h s \<Longrightarrow> closed_for h s'"
  by (induction rule: runs_closed.induct) (simp_all add: closed_react)

lemma runs_closed_ok: "runs_closed env h es s s' \<Longrightarrow> node_ok s \<Longrightarrow> node_ok s'"
  by (induction rule: runs_closed.induct) (simp_all add: node_ok_react)

lemma setProvided_ok:
  assumes "setProvided env b msg h s = (Ok (rep, None), s')" and "sp_Success rep"
  shows "s' = s\<lparr>isFileHashProvided := (isFileHashProvided s)(h \<mapsto> b), disk := disk s'\<rparr>"
proof -
  obtain s1 where s1: "ignore_err (saveState env) (s\<lparr>isFileHashProvided := (isFileHashProvided s)(h \<mapsto> b)\<rparr>) = (Ok (), s1)"
    "s1 = s\<lparr>isFileHashProvided := (isFileHashProvided s)(h \<mapsto> b)\<rparr>\<lparr>disk := disk s1\<rparr>"
    using saveState_ignored by blast
  have "s' = s1" using assms s1(1)
    by (cases "isFileHashProvided s h") (auto simp: setProvided_def run ret_act_def bind_act_apply(1) [of "ignore_err (saveState env)", OF s1(1)])
  with s1(2) show ?thesis by simp
qed

text \<open>C17: A stopped file stays closed.  Once \<open>StopProvidingFile\<close> has succeeded for a hash on a consistent node,
  then after any sequence of events in which the hash is neither resumed nor provided again, a request for
  it is answered with the notice that the file is not currently provided, and with nothing else.\<close>

theorem stopped_file_stays_closed:
  assumes "node_ok s" and "StopProvidingFile env h s = (Ok (rep, None), s1)" and "sp_Success rep"
    and "runs_closed env h es s1 s2" and "unjsonFileRequest env bs = Ok req" and "fr_FileHash req = h"
  shows "receiveFileRequests env polls (Ok bs) s2 =
    ignore_err (sendFileNotCurrentlyProvidedToPeer env (fr_RequesterID req) (fr_RequestID req)) s2"
proof -
  have s1: "s1 = s\<lparr>isFileHashProvided := (isFileHashProvided s)(h \<mapsto> False), disk := disk s1\<rparr>"
    using setProvided_ok assms(2,3) unfolding StopProvidingFile_def by blast
  have "closed_for h s1" by (subst s1) (simp add: closed_for_def)
  then have closed: "closed_for h s2" using runs_closed_closed assms(4) by blast
  have "node_ok s1" using node_ok_setProvided [OF assms(1)] assms(2) by (metis StopProvidingFile_def snd_conv)
  then have "node_ok s2" using runs_closed_ok assms(4) by blast
  with closed have "fileHashToPath s2 h \<noteq> None" by (auto simp: node_ok_def closed_for_def)
  with closed_request [OF assms(5), of s2 polls] closed assms(6) show ?thesis
    by (auto simp: closed_for_def map_get_def)
qed

subsection \<open>Payments\<close>

definition paid :: "node \<Rightarrow> (string \<times> string) list" where
  "paid s = pays (effects s)"

interpretation paying: node_frame "keeps paid"
proof unfold_locales
  show "keeps paid s (log_effect e s)" if "\<not> is_pay e" for e s
    using that by (cases e) (simp_all add: keeps_def paid_def)
qed (simp_all add: keeps_def paid_def)

fun is_GetFile :: "event \<Rightarrow> bool" where
  "is_GetFile (RpcGetFile srv now now' arrived h pid) = True"
| "is_GetFile _ = False"

lemma react_pays:
  "if is_GetFile e then \<exists>ps. paid (react env e s) = paid s @ ps \<and> length ps \<le> 1
   else paid (react env e s) = paid s"
proof (cases "is_GetFile e")
  case True
  then obtain srv now now' arrived h pid where "e = RpcGetFile srv now now' arrived h pid" by (cases e) auto
  with GetFile_pays [of env srv now now' arrived h pid s] show ?thesis by (auto simp: paid_def)
next
  case False
  have upds: "keeps paid s (allowDownload req s)" "keeps paid s (s\<lparr>metadataResponse := m\<rparr>)"
    "keeps paid s (s\<lparr>downloadStatus := n\<rparr>)" "keeps paid s (s\<lparr>fileHashToPath := (fileHashToPath s)(h \<mapsto> p)\<rparr>)"
    "keeps paid s (s\<lparr>isFileHashProvided := (isFileHashProvided s)(h \<mapsto> b)\<rparr>)"
    "keeps paid s (notProvided hd s)" "keeps paid s (startDownload hd now s)"
    "keeps paid s (updateProgress hd cur tot lt lb s)" "keeps paid s (finishDownload hd tot s)"
    "keeps paid s (markProvided h p s)" "keeps paid s (addProvidedFile hd s)"
    for req m n h p b hd now cur tot lt lb s
    by (simp_all add: keeps_def paid_def allowDownload_def notProvided_def startDownload_def updateProgress_def
        finishDownload_def markProvided_def addProvidedFile_def Let_def)
  note steps = paying.nf_fileRequests [OF upds(1)] paying.nf_metaData [OF upds(2)] paying.nf_pause [OF upds(3)]
    paying.nf_command [OF upds(4)] paying.nf_setProvided [OF upds(5)] paying.nf_receiveFileData [OF upds(6-9)]
    paying.nf_ProvideFile [OF upds(10,11)] paying.nf_metaRequests paying.nf_errors paying.nf_peers
    paying.nf_queries paying.nf_setDownload
  show ?thesis
    using False steps [THEN keeps_snd]
    by (cases e) (auto simp: StopProvidingFile_def ResumeProvidingFile_def)
qed

text \<open>C16: Coins leave only for requested files.  Over any sequence of events the node issues at most one payment
  per \<open>GetFile\<close> call; no peer message, no other RPC call and no command makes it pay.\<close>

theorem payments_bounded_by_requests:
  assumes "runs env es s s'"
  shows "\<exists>ps. paid s' = paid s @ ps \<and> length ps \<le> length (filter is_GetFile es)"
  using assms
proof (induction rule: runs.induct)
  case (runs_more es e s s')
  then obtain ps where ps: "paid s' = paid (react env e s) @ ps" "length ps \<le> length (filter is_GetFile es)"
    by blast
  from react_pays [of e env s] ps show ?case by (auto split: if_splits)
qed simp

subsection \<open>Concrete runs\<close>

lemma demo_node_ok: "node_ok demoNode"
  by (simp add: node_ok_def demoNode_def initNode_def demoHeader_def)

theorem runs_keep_node_ok_witness:
  "node_ok (react demoEnv (RpcStopProviding ''h'') (react demoEnv (PauseIn (Ok ''x'')) (initNode ''1'' Map.empty)))"
  by (rule runs_keep_node_ok [of demoEnv "[PauseIn (Ok ''x''), RpcStopProviding ''h'']" "''1''" Map.empty])
    (intro runs_more runs_none)

theorem stopped_file_stays_closed_witness:
  "\<exists>s1. StopProvidingFile demoEnv ''h'' demoNode =
      (Ok (\<lparr>sp_Success = True, sp_Message = ''File is no longer available on OrcaNet''\<rparr>, None), s1) \<and>
    receiveFileRequests demoEnv [True] (Ok ''x'') (react demoEnv (PauseIn (Ok ''x'')) s1) =
      ignore_err (sendFileNotCurrentlyProvidedToPeer demoEnv ''Q'' ''r'') (react demoEnv (PauseIn (Ok ''x'')) s1)"
proof -
  let ?s = "demoNode\<lparr>isFileHashProvided := [''h'' \<mapsto> False]\<rparr>"
  obtain s1 where s1: "ignore_err (saveState demoEnv) ?s = (Ok (), s1)" using saveState_ignored by blast
  have stop: "StopProvidingFile demoEnv ''h'' demoNode =
      (Ok (\<lparr>sp_Success = True, sp_Message = ''File is no longer available on OrcaNet''\<rparr>, None), s1)"
  proof -
    have "isFileHashProvided demoNode = [''h'' \<mapsto> True]" by (simp add: demoNode_def)
    then show ?thesis
      using bind_act_apply(1) [of "ignore_err (saveState demoEnv)" ?s "()" s1, OF s1]
      by (simp add: StopProvidingFile_def setProvided_def bind_act_run ret_act_def)
  qed
  have "runs_closed demoEnv ''h'' [PauseIn (Ok ''x'')] s1 (react demoEnv (PauseIn (Ok ''x'')) s1)"
    by (simp add: runs_closed_iff)
  from stopped_file_stays_closed [OF demo_node_ok stop _ this, of "''x''" demoRequest "[True]"] stop
  show ?thesis by (simp add: demoRequest_def demoEnv_def del: react.simps)
qed

theorem payments_bounded_by_requests_witness:
  "\<exists>ps. paid (react demoEnv (RpcStopProviding ''h'') demoNode) = paid demoNode @ ps \<and> length ps \<le> 0"
  using payments_bounded_by_requests [of demoEnv "[RpcStopProviding ''h'']" demoNode
      "react demoEnv (RpcStopProviding ''h'') demoNode"]
  by (auto intro: runs_more runs_none simp del: react.simps)

end
