(* ===== verification/Wallet_Manager.thy ===== *)
theory Wallet_Manager
  imports Go_Floats
begin

text \<open>
  The process manager of the wallet server (\<open>src/server/manager/manager.go\<close>).  The server keeps one
  command for btcd and one for btcwallet; a command is an \<open>exec.Cmd\<close> with the state of its process:
  not started, running, or waited for.  The operating system (the working directory, which files exist,
  whether pipes, processes and signals fail, what btcctl prints) is the record \<open>machine\<close>; its answers may
  depend on how many actions the server has performed so far.  The sleeps between the actions are left out.

  The lemmas show that no process of one kind is started while one runs, that a written mining address is read back,
  that a successful reconfiguration leaves btcd running with the new address, and that an unclean exit of
  btcd or btcwallet leaves the server unable to start it again.
\<close>

subsection \<open>State\<close>

datatype process = NotStarted | Running | Waited

record cmd =
  c_path :: string
  c_args :: "string list"
  c_process :: process

datatype act_log =
    Started string string "string list"
  | Interrupted string
  | Exited string
  | Killed string
  | Btcctl "string list"
  | WalletInput "string list"

record Session =
  s_Password :: string
  s_ExpiresAt :: int

record server =
  orcaNetCmd :: "cmd option"
  walletCmd :: "cmd option"
  sessionDB :: "string \<rightharpoonup> Session"
  files :: "string \<rightharpoonup> bytes"
  trace :: "act_log list"

record machine =
  getwd :: "string outcome"
  notExist :: "string \<Rightarrow> bool"
  stdoutErr :: "nat \<Rightarrow> string option"
  stderrErr :: "nat \<Rightarrow> string option"
  startErr :: "nat \<Rightarrow> string \<Rightarrow> string option"
  signalErr :: "nat \<Rightarrow> string \<Rightarrow> string option"
  waitErr :: "nat \<Rightarrow> string \<Rightarrow> string option"
  killErr :: "nat \<Rightarrow> string \<Rightarrow> string option"
  readFileErr :: "string \<Rightarrow> string option"
  writeFileErr :: "string \<Rightarrow> string option"
  ptyErr :: "nat \<Rightarrow> string option"
  createWaitErr :: "nat \<Rightarrow> string option"
  userHome :: "string outcome"
  GOOS :: string
  removeErr :: "string \<Rightarrow> string option"
  btcctl :: "nat \<Rightarrow> string list \<Rightarrow> bytes \<times> string option"
  parseFloatOther :: "string \<Rightarrow> gofloat \<times> string option"

definition did :: "act_log \<Rightarrow> server \<Rightarrow> server" where
  "did a s = s\<lparr>trace := trace s @ [a]\<rparr>"

text \<open>\<open>ask f\<close> is a system call that fails with \<open>f n\<close> after \<open>n\<close> actions.\<close>

definition ask :: "(nat \<Rightarrow> string option) \<Rightarrow> (server, unit) act" where
  "ask f s = (case f (length (trace s)) of None \<Rightarrow> (Ok (), s) | Some e \<Rightarrow> (Err e, s))"

text \<open>\<open>cmd != nil && cmd.Process != nil\<close>.\<close>

definition has_process :: "cmd option \<Rightarrow> bool" where
  "has_process c = (case c of None \<Rightarrow> False | Some c \<Rightarrow> c_process c \<noteq> NotStarted)"

subsection \<open>Paths\<close>

text \<open>\<open>filepath.Dir\<close> and \<open>filepath.Join\<close> on rooted paths.\<close>

definition go_dir :: "string \<Rightarrow> string" where
  "go_dir p = resolve (go_join ''/'' (butlast (go_split CHR ''/'' p)))"

definition join_path :: "string list \<Rightarrow> string" where
  "join_path ps = resolve (go_join ''/'' ps)"

definition Initialize :: "(server, unit) act" where
  "Initialize = ret_act ()"

definition getExePath :: "machine \<Rightarrow> (server, string) act" where
  "getExePath m = bind_act (wrap_err ''could not get working directory: '' (lift_out (getwd m)))
    (\<lambda>wd. ret_act (go_dir wd))"

subsection \<open>Starting and stopping\<close>

definition orcaArgs :: "string \<Rightarrow> string list" where
  "orcaArgs miningAddr =
    [''--rpcuser=user'', ''--rpcpass=password'', ''--notls'', ''--txindex'', ''--addpeer=130.245.173.221:8333''] @
    (if miningAddr \<noteq> [] then [''--miningaddr='' @ miningAddr] else [])"

definition walletArgs :: "string list" where
  "walletArgs = [''--btcdusername=user'', ''--btcdpassword=password'', ''--rpcconnect=127.0.0.1:8334'']"

text \<open>The part after the binary was found: create the command, its pipes, start it.  \<open>put\<close> stores the command
  in the server's variable.\<close>

definition launch ::
  "machine \<Rightarrow> (cmd option \<Rightarrow> server \<Rightarrow> server) \<Rightarrow> string \<Rightarrow> string \<Rightarrow> string list \<Rightarrow> (server, unit) act" where
  "launch m put name path args =
    bind_act (upd_act (put (Some \<lparr>c_path = path, c_args = args, c_process = NotStarted\<rparr>))) (\<lambda>_.
    bind_act (wrap_err ''failed to create stdout pipe: '' (ask (stdoutErr m))) (\<lambda>_.
    bind_act (wrap_err ''failed to create stderr pipe: '' (ask (stderrErr m))) (\<lambda>_.
    bind_act (wrap_err (''failed to start '' @ name @ '': '') (ask (\<lambda>n. startErr m n path))) (\<lambda>_.
    upd_act (\<lambda>s. did (Started name path args)
      (put (Some \<lparr>c_path = path, c_args = args, c_process = Running\<rparr>) s))))))"

definition putOrca :: "cmd option \<Rightarrow> server \<Rightarrow> server" where
  "putOrca c s = s\<lparr>orcaNetCmd := c\<rparr>"

definition putWallet :: "cmd option \<Rightarrow> server \<Rightarrow> server" where
  "putWallet c s = s\<lparr>walletCmd := c\<rparr>"

definition StartOrcaNet :: "machine \<Rightarrow> string \<Rightarrow> (server, unit) act" where
  "StartOrcaNet m miningAddr =
    bind_act (get_act (\<lambda>s. has_process (orcaNetCmd s))) (\<lambda>running.
    if running then ret_act ()
    else
      bind_act (wrap_err ''failed to get executable path: '' (getExePath m)) (\<lambda>rootPath.
      let orcaNetPath = join_path [rootPath, ''btcd'', ''btcd''] in
      if notExist m orcaNetPath then fail_act (''btcd binary not found at '' @ orcaNetPath)
      else launch m putOrca ''btcd'' orcaNetPath (orcaArgs miningAddr)))"

definition StartWallet :: "machine \<Rightarrow> (server, unit) act" where
  "StartWallet m =
    bind_act (get_act (\<lambda>s. has_process (walletCmd s))) (\<lambda>running.
    if running then ret_act ()
    else
      bind_act (wrap_err ''failed to get executable path: '' (getExePath m)) (\<lambda>rootPath.
      let walletPath = join_path [rootPath, ''btcwallet'', ''btcwallet''] in
      if notExist m walletPath then fail_act (''btcwallet binary not found at '' @ walletPath)
      else launch m putWallet ''btcwallet'' walletPath walletArgs))"

text \<open>Signal, then wait.  Signalling a process that has been waited for fails; after \<open>Wait\<close> has returned, with
  or without an error, the process has been waited for.\<close>

definition shut_down ::
  "machine \<Rightarrow> (server \<Rightarrow> cmd option) \<Rightarrow> (cmd option \<Rightarrow> server \<Rightarrow> server) \<Rightarrow> string \<Rightarrow> (server, unit) act" where
  "shut_down m sel put name =
    bind_act (get_act sel) (\<lambda>c. case c of
      None \<Rightarrow> fail_act (name @ '' is not running.'')
    | Some c \<Rightarrow>
        if c_process c = NotStarted then fail_act (name @ '' is not running.'')
        else
          bind_act (wrap_err (''failed to stop '' @ name @ '': '')
            (if c_process c = Waited then fail_act ''os: process already finished''
             else ask (\<lambda>n. signalErr m n (c_path c)))) (\<lambda>_.
          bind_act (upd_act (did (Interrupted name))) (\<lambda>_.
          bind_act (get_act (\<lambda>s. waitErr m (length (trace s)) (c_path c))) (\<lambda>w.
          bind_act (upd_act (\<lambda>s. did (Exited name) (put (Some (c\<lparr>c_process := Waited\<rparr>)) s))) (\<lambda>_.
          bind_act (wrap_err (name @ '' did not shut down cleanly: '') (lift_err w)) (\<lambda>_.
          upd_act (put None)))))))"

definition StopOrcaNet :: "machine \<Rightarrow> (server, unit) act" where
  "StopOrcaNet m = shut_down m orcaNetCmd putOrca ''btcd''"

definition StopWallet :: "machine \<Rightarrow> (server, unit) act" where
  "StopWallet m = shut_down m walletCmd putWallet ''btcwallet''"

subsection \<open>The mining address\<close>

definition configPath :: "string \<Rightarrow> string" where
  "configPath rootPath = join_path [rootPath, ''btcd'', ''sample-btcd.conf'']"

definition read_file :: "machine \<Rightarrow> string \<Rightarrow> (server, bytes) act" where
  "read_file m p s = (case readFileErr m p of
      Some e \<Rightarrow> (Err e, s)
    | None \<Rightarrow> (case files s p of
        None \<Rightarrow> (Err (''open '' @ p @ '': no such file or directory''), s)
      | Some c \<Rightarrow> (Ok c, s)))"

definition write_whole_file :: "machine \<Rightarrow> string \<Rightarrow> bytes \<Rightarrow> (server, unit) act" where
  "write_whole_file m p c s = (case writeFileErr m p of
      Some e \<Rightarrow> (Err e, s)
    | None \<Rightarrow> (Ok (), s\<lparr>files := (files s)(p \<mapsto> c)\<rparr>))"

definition miningKey :: string where
  "miningKey = ''miningaddr=''"

fun set_miningaddr :: "string \<Rightarrow> string list \<Rightarrow> string list" where
  "set_miningaddr address [] = [miningKey @ address]"
| "set_miningaddr address (l # ls) =
    (if has_prefix l miningKey then (miningKey @ address) # ls
     else l # set_miningaddr address ls)"

definition UpdateBtcdConfigWithMiningAddr :: "machine \<Rightarrow> string \<Rightarrow> (server, unit) act" where
  "UpdateBtcdConfigWithMiningAddr m address =
    bind_act (wrap_err ''failed to get project root path: '' (getExePath m)) (\<lambda>rootPath.
    bind_act (wrap_err ''failed to read btcd.conf: '' (read_file m (configPath rootPath))) (\<lambda>content.
    wrap_err ''failed to write to btcd.conf: ''
      (write_whole_file m (configPath rootPath)
        (go_join [CHR 0x0A] (set_miningaddr address (go_split CHR 0x0A content))))))"

fun find_miningaddr :: "string list \<Rightarrow> string" where
  "find_miningaddr [] = []"
| "find_miningaddr (l # ls) =
    (if has_prefix l miningKey then trim_space (trim_prefix l miningKey) else find_miningaddr ls)"

definition GetMiningAddressFromConfig :: "machine \<Rightarrow> (server, string) act" where
  "GetMiningAddressFromConfig m =
    bind_act (wrap_err ''failed to get project root path: '' (getExePath m)) (\<lambda>rootPath.
    bind_act (wrap_err ''failed to read btcd.conf: '' (read_file m (configPath rootPath))) (\<lambda>data.
    ret_act (find_miningaddr (go_split CHR 0x0A data))))"

definition ConfigureMiningAddress :: "machine \<Rightarrow> string \<Rightarrow> (server, unit) act" where
  "ConfigureMiningAddress m address =
    bind_act (wrap_err ''failed to stop btcd: '' (StopOrcaNet m)) (\<lambda>_.
    bind_act (wrap_err ''failed to update btcd config: '' (UpdateBtcdConfigWithMiningAddr m address)) (\<lambda>_.
    wrap_err ''failed to restart btcd with mining address: '' (StartOrcaNet m address)))"

subsection \<open>Wallets\<close>

text \<open>A wallet is created by a btcwallet process of its own, which reads the password and three answers from a
  pseudo-terminal and is waited for; it is not the service, and the variable of the service plays no part.\<close>

definition creation :: string where
  "creation = ''btcwallet --create''"

definition manager_CreateWallet :: "machine \<Rightarrow> string \<Rightarrow> (server, string) act" where
  "manager_CreateWallet m password =
    bind_act (wrap_err ''failed to get root path: '' (getExePath m)) (\<lambda>rootPath.
    let walletPath = join_path [rootPath, ''btcwallet'', ''btcwallet''] in
    if notExist m walletPath then fail_act (''btcwallet binary not found at '' @ walletPath)
    else
      bind_act (wrap_err ''failed to start wallet creation with pty: '' (ask (ptyErr m))) (\<lambda>_.
      bind_act (upd_act (did (Started creation walletPath [''--create'']))) (\<lambda>_.
      bind_act (upd_act (did (WalletInput [password, password, ''no'', ''no'', ''OK'']))) (\<lambda>_.
      bind_act (get_act (\<lambda>s. createWaitErr m (length (trace s)))) (\<lambda>w.
      bind_act (upd_act (did (Exited creation))) (\<lambda>_.
      bind_act (wrap_err ''wallet creation failed: '' (lift_err w)) (\<lambda>_. ret_act [])))))))"

definition walletFile :: "machine \<Rightarrow> string \<Rightarrow> string option" where
  "walletFile m home =
    (if GOOS m = ''darwin'' then Some (join_path [home, ''Library'', ''Application Support'', ''Btcwallet'',
       ''mainnet'', ''wallet.db''])
     else if GOOS m = ''linux'' then Some (join_path [home, ''.btcwallet'', ''mainnet'', ''wallet.db''])
     else if GOOS m = ''windows'' then Some (join_path [home, ''AppData'', ''Roaming'', ''Btcwallet'',
       ''mainnet'', ''wallet.db''])
     else None)"

definition manager_DeleteWallet :: "machine \<Rightarrow> (server, unit) act" where
  "manager_DeleteWallet m =
    bind_act (wrap_err ''failed to get current user: '' (lift_out (userHome m))) (\<lambda>home.
    case walletFile m home of
      None \<Rightarrow> fail_act (''unsupported OS: '' @ GOOS m)
    | Some walletPath \<Rightarrow>
        bind_act (get_act (\<lambda>s. files s walletPath)) (\<lambda>f.
        if f = None then fail_act (''wallet file does not exist at path: '' @ walletPath)
        else
          bind_act (wrap_err (''failed to delete wallet at path '' @ walletPath @ '': '')
            (lift_err (removeErr m walletPath))) (\<lambda>_.
          upd_act (\<lambda>s. s\<lparr>files := (files s)(walletPath := None)\<rparr>))))"

definition btcctlFlags :: "string list" where
  "btcctlFlags = [''--wallet'', ''--rpcuser=user'', ''--rpcpass=password'', ''--rpcserver=127.0.0.1:8332'',
     ''--notls'']"

definition CallBtcctlCmd :: "machine \<Rightarrow> string \<Rightarrow> (server, string) act" where
  "CallBtcctlCmd m cmdStr =
    bind_act (wrap_err ''failed to get executable path: '' (getExePath m)) (\<lambda>rootPath.
    let btcctlPath = join_path [rootPath, ''btcd'', ''cmd'', ''btcctl'', ''btcctl''] in
    if notExist m btcctlPath then fail_act (''btcctl binary not found at '' @ btcctlPath)
    else
      let params = btcctlFlags @ go_split CHR '' '' cmdStr in
      bind_act (get_act (\<lambda>s. btcctl m (length (trace s)) params)) (\<lambda>(output, err).
      bind_act (upd_act (did (Btcctl params))) (\<lambda>_.
      case err of
        Some e \<Rightarrow> fail_act (''failed to execute btcctl command: '' @ e @ '', output: '' @ output)
      | None \<Rightarrow> ret_act (trim_space output))))"

definition ValidateAddress :: "machine \<Rightarrow> string \<Rightarrow> (server, bool) act" where
  "ValidateAddress m address =
    bind_act (wrap_err ''failed to validate address: '' (CallBtcctlCmd m (''validateaddress '' @ address)))
      (\<lambda>output. ret_act (go_contains output (''\"isvalid\": true'')))"

definition ParseBalanceAndAmount :: "machine \<Rightarrow> string \<Rightarrow> string \<Rightarrow> (server, gofloat \<times> gofloat) act" where
  "ParseBalanceAndAmount m balanceStr amountStr =
    bind_act (wrap_err ''invalid balance format: ''
      (lift_err (snd (parse_float64 (parseFloatOther m) balanceStr)))) (\<lambda>_.
    bind_act (wrap_err ''invalid amount format: ''
      (lift_err (snd (parse_float64 (parseFloatOther m) amountStr)))) (\<lambda>_.
    ret_act (fst (parse_float64 (parseFloatOther m) balanceStr),
             fst (parse_float64 (parseFloatOther m) amountStr))))"

definition kill_one :: "machine \<Rightarrow> (server \<Rightarrow> cmd option) \<Rightarrow> string \<Rightarrow> (server, unit) act" where
  "kill_one m sel name =
    bind_act (get_act sel) (\<lambda>c. case c of
      None \<Rightarrow> ret_act ()
    | Some c \<Rightarrow>
        if c_process c = NotStarted then ret_act ()
        else
          bind_act (wrap_err (''failed to kill '' @ name @ '' process: '')
            (if c_process c = Waited then fail_act ''os: process already finished''
             else ask (\<lambda>n. killErr m n (c_path c))))
            (\<lambda>_. upd_act (did (Killed name))))"

definition KillProcesses :: "machine \<Rightarrow> (server, unit) act" where
  "KillProcesses m =
    bind_act (kill_one m orcaNetCmd ''btcd'') (\<lambda>_. kill_one m walletCmd ''btcwallet'')"

subsection \<open>Running processes\<close>

lemma did_fields [simp]:
  "trace (did a s) = trace s @ [a]" "orcaNetCmd (did a s) = orcaNetCmd s" "walletCmd (did a s) = walletCmd s"
  "sessionDB (did a s) = sessionDB s" "files (did a s) = files s"
  by (simp_all add: did_def)

lemma put_fields [simp]:
  "orcaNetCmd (putOrca c s) = c" "walletCmd (putOrca c s) = walletCmd s" "files (putOrca c s) = files s"
  "trace (putOrca c s) = trace s" "sessionDB (putOrca c s) = sessionDB s"
  "walletCmd (putWallet c s) = c" "orcaNetCmd (putWallet c s) = orcaNetCmd s" "files (putWallet c s) = files s"
  "trace (putWallet c s) = trace s" "sessionDB (putWallet c s) = sessionDB s"
  by (simp_all add: putOrca_def putWallet_def)

lemma ok_ask [ok_iff]: "ask f s = (Ok u, s') \<longleftrightarrow> f (length (trace s)) = None \<and> s' = s"
  by (auto simp: ask_def split: option.splits)

lemma ok_getExePath [ok_iff]:
  "getExePath m s = (Ok r, s') \<longleftrightarrow> (\<exists>wd. getwd m = Ok wd \<and> r = go_dir wd) \<and> s' = s"
  by (auto simp: getExePath_def ok_iff)

lemma ok_read_file [ok_iff]:
  "read_file m p s = (Ok c, s') \<longleftrightarrow> readFileErr m p = None \<and> files s p = Some c \<and> s' = s"
  by (auto simp: read_file_def split: option.splits)

lemma ok_write_whole_file [ok_iff]:
  "write_whole_file m p c s = (Ok u, s') \<longleftrightarrow> writeFileErr m p = None \<and> s' = s\<lparr>files := (files s)(p \<mapsto> c)\<rparr>"
  by (auto simp: write_whole_file_def split: option.splits)

text \<open>Following one program through the log: \<open>watch name up as\<close> is \<open>None\<close> as soon as the program is started while
  it runs or ends while it does not, and otherwise whether it runs at the end.\<close>

fun watch :: "string \<Rightarrow> bool \<Rightarrow> act_log list \<Rightarrow> bool option" where
  "watch name up [] = Some up"
| "watch name up (Started n p args # as) =
    (if n \<noteq> name then watch name up as else if up then None else watch name True as)"
| "watch name up (Exited n # as) =
    (if n \<noteq> name then watch name up as else if up then watch name False as else None)"
| "watch name up (_ # as) = watch name up as"

lemma watch_append [simp]: "watch name up (as @ bs) = Option.bind (watch name up as) (\<lambda>up. watch name up bs)"
  by (induction name up as rule: watch.induct) simp_all

definition is_running :: "cmd option \<Rightarrow> bool" where
  "is_running c = (case c of None \<Rightarrow> False | Some c \<Rightarrow> c_process c = Running)"

text \<open>Through the whole log neither service nor the creation of a wallet was started while it ran; the services run
  exactly if their variables say so, and no creation is left running.\<close>

definition one_process :: "server \<Rightarrow> bool" where
  "one_process s \<longleftrightarrow> watch ''btcd'' False (trace s) = Some (is_running (orcaNetCmd s)) \<and>
     watch ''btcwallet'' False (trace s) = Some (is_running (walletCmd s)) \<and>
     watch creation False (trace s) = Some False"

text \<open>What \<open>watch\<close> rules out: between two starts of a program it has ended.\<close>

lemma watch_between:
  assumes "watch name up (as @ Started name p args # bs @ Started name q args' # cs) \<noteq> None"
  shows "Exited name \<in> set bs"
proof (rule ccontr)
  assume no: "Exited name \<notin> set bs"
  then have "watch name True (bs @ Started name q args' # cs) = None"
    by (induction name True bs rule: watch.induct) auto
  with assms show False by (cases "watch name up as") (auto simp del: watch_append simp: watch_append [of name up as] split: if_splits)
qed

text \<open>Relations between server states that tolerate everything but starting and ending a process and the
  session table: what the manager's other operations respect.\<close>

fun proc_action :: "act_log \<Rightarrow> bool" where
  "proc_action (Started n p args) = True"
| "proc_action (Exited n) = True"
| "proc_action _ = False"

locale server_frame = frame_relation R for R :: "server \<Rightarrow> server \<Rightarrow> bool" +
  assumes did_ok: "\<not> proc_action a \<Longrightarrow> R s (did a s)"
    and files_ok: "R s (s\<lparr>files := f\<rparr>)"
begin

lemma sf_did: "\<not> proc_action a \<Longrightarrow> act_rel R (upd_act (did a))"
  by (intro rel_upd did_ok)

lemma sf_ask: "act_rel R (ask f)"
  by (auto simp: act_rel_def ask_def refl split: option.split)

lemma sf_files: "act_rel R (read_file m p)" "act_rel R (write_whole_file m p c)"
  by (auto simp: act_rel_def read_file_def write_whole_file_def refl files_ok split: option.split)

lemma sf_getExePath: "act_rel R (getExePath m)"
  unfolding getExePath_def by (intro rel_intros)

lemmas sf_intros = rel_cases rel_intros sf_did sf_ask sf_files sf_getExePath

lemma sf_config: "act_rel R (UpdateBtcdConfigWithMiningAddr m a)" "act_rel R (GetMiningAddressFromConfig m)"
  unfolding UpdateBtcdConfigWithMiningAddr_def GetMiningAddressFromConfig_def by (intro sf_intros)+

lemma sf_DeleteWallet: "act_rel R (manager_DeleteWallet m)"
  unfolding manager_DeleteWallet_def by (intro sf_intros rel_upd files_ok)

lemma sf_btcctl: "act_rel R (CallBtcctlCmd m c)"
  unfolding CallBtcctlCmd_def Let_def by (auto intro!: sf_intros split: prod.split)

lemma sf_Validate: "act_rel R (ValidateAddress m a)"
  unfolding ValidateAddress_def by (intro sf_intros sf_btcctl)

lemma sf_Parse: "act_rel R (ParseBalanceAndAmount m b a)"
  unfolding ParseBalanceAndAmount_def by (intro sf_intros)

lemma sf_Kill: "act_rel R (KillProcesses m)"
  unfolding KillProcesses_def kill_one_def by (auto intro!: sf_intros split: option.split)

lemmas sf_calls = sf_config sf_DeleteWallet sf_btcctl sf_Validate sf_Parse sf_Kill

end

interpretation one: server_frame "preserves one_process"
proof unfold_locales
  show "preserves one_process s (did a s)" if "\<not> proc_action a" for a s
    using that by (cases a) (simp_all add: preserves_def one_process_def creation_def)
qed (simp_all add: preserves_def one_process_def creation_def)

text \<open>Starting and stopping: the four operations keep the count.\<close>

lemma launch_cases:
  assumes "launch m put name path args s = (r, s')"
  obtains "s' = put (Some \<lparr>c_path = path, c_args = args, c_process = NotStarted\<rparr>) s" "r \<noteq> Ok ()"
  | "r = Ok ()" "s' = did (Started name path args) (put (Some \<lparr>c_path = path, c_args = args, c_process = Running\<rparr>)
        (put (Some \<lparr>c_path = path, c_args = args, c_process = NotStarted\<rparr>) s))"
  using assms
  by (auto simp: launch_def bind_act_run bind_act_def wrap_err_def ask_def upd_act_def split: option.splits)

lemma StartOrcaNet_cases:
  assumes "StartOrcaNet m a s = (r, s')"
  obtains "s' = s" "r = Ok () \<longrightarrow> has_process (orcaNetCmd s)"
  | wd path where "\<not> has_process (orcaNetCmd s)" "getwd m = Ok wd" "path = join_path [go_dir wd, ''btcd'', ''btcd'']"
    "launch m putOrca ''btcd'' path (orcaArgs a) s = (r, s')"
  using assms
  by (cases "has_process (orcaNetCmd s)"; cases "getwd m")
    (auto simp: StartOrcaNet_def getExePath_def bind_act_def act_defs wrap_err_def Let_def split: if_splits)

lemma StartWallet_cases:
  assumes "StartWallet m s = (r, s')"
  obtains "s' = s" "r = Ok () \<longrightarrow> has_process (walletCmd s)"
  | wd path where "\<not> has_process (walletCmd s)" "getwd m = Ok wd"
    "path = join_path [go_dir wd, ''btcwallet'', ''btcwallet'']"
    "launch m putWallet ''btcwallet'' path walletArgs s = (r, s')"
  using assms
  by (cases "has_process (walletCmd s)"; cases "getwd m")
    (auto simp: StartWallet_def getExePath_def bind_act_def act_defs wrap_err_def Let_def split: if_splits)

lemma shut_down_cases:
  assumes "shut_down m sel put name s = (r, s')"
  obtains "s' = s" "\<exists>e. r = Err e"
  | c e where "sel s = Some c" "c_process c = Running" "r = Err e"
    "s' = did (Exited name) (put (Some (c\<lparr>c_process := Waited\<rparr>)) (did (Interrupted name) s))"
  | c where "sel s = Some c" "c_process c = Running" "r = Ok ()"
    "s' = put None (did (Exited name) (put (Some (c\<lparr>c_process := Waited\<rparr>)) (did (Interrupted name) s)))"
proof (cases "sel s")
  case None
  with assms have "s' = s" "\<exists>e. r = Err e" by (auto simp: shut_down_def bind_act_run fail_act_def)
  then show thesis by (rule that(1))
next
  case (Some c)
  note sim = shut_down_def bind_act_run bind_act_def wrap_err_def ask_def lift_err_def act_defs Some
  show thesis
  proof (cases "c_process c = Running \<and> signalErr m (length (trace s)) (c_path c) = None")
    case False
    with assms have "s' = s" "\<exists>e. r = Err e"
      by (cases "c_process c"; cases "signalErr m (length (trace s)) (c_path c)"; auto simp: sim)+
    then show thesis by (rule that(1))
  next
    case True
    show thesis
    proof (cases "waitErr m (length (trace (did (Interrupted name) s))) (c_path c)")
      case None
      with assms True show thesis by (intro that(3) [OF Some]) (simp_all add: sim)
    next
      case w: (Some e)
      with assms True show thesis
        by (intro that(2) [OF Some, of "name @ '' did not shut down cleanly: '' @ e"]) (auto simp: sim)
    qed
  qed
qed


lemma one_launch:
  assumes "one_process s" and "\<not> has_process (orcaNetCmd s)"
    and "launch m putOrca ''btcd'' p args s = (r, s')"
  shows "one_process s'"
  using assms(3)
proof (cases rule: launch_cases)
qed (use assms(1,2) in \<open>auto simp: one_process_def creation_def is_running_def has_process_def
    split: option.splits\<close>)

lemma one_launch_wallet:
  assumes "one_process s" and "\<not> has_process (walletCmd s)"
    and "launch m putWallet ''btcwallet'' p args s = (r, s')"
  shows "one_process s'"
  using assms(3)
proof (cases rule: launch_cases)
qed (use assms(1,2) in \<open>auto simp: one_process_def creation_def is_running_def has_process_def
    split: option.splits\<close>)

lemma one_StartOrcaNet: "act_rel (preserves one_process) (StartOrcaNet m a)"
  unfolding act_rel_def preserves_def
proof (intro allI impI)
  fix s assume "one_process s"
  obtain r s' where run: "StartOrcaNet m a s = (r, s')" by fastforce
  from StartOrcaNet_cases [OF run] have "one_process s'"
    by (cases; use \<open>one_process s\<close> one_launch in blast)
  with run show "one_process (snd (StartOrcaNet m a s))" by simp
qed

lemma one_StartWallet: "act_rel (preserves one_process) (StartWallet m)"
  unfolding act_rel_def preserves_def
proof (intro allI impI)
  fix s assume "one_process s"
  obtain r s' where run: "StartWallet m s = (r, s')" by fastforce
  from StartWallet_cases [OF run] have "one_process s'"
    by (cases; use \<open>one_process s\<close> one_launch_wallet in blast)
  with run show "one_process (snd (StartWallet m s))" by simp
qed

lemma one_Stop: "act_rel (preserves one_process) (StopOrcaNet m)" "act_rel (preserves one_process) (StopWallet m)"
proof -
  have "one_process s'" if "one_process s" "shut_down m orcaNetCmd putOrca ''btcd'' s = (r, s')" for s r s'
    using that(2)
    by (cases rule: shut_down_cases)
      (use that(1) in \<open>auto simp: one_process_def creation_def is_running_def\<close>)
  then show "act_rel (preserves one_process) (StopOrcaNet m)"
    unfolding act_rel_def preserves_def StopOrcaNet_def by (metis prod.collapse)
  have "one_process s'" if "one_process s" "shut_down m walletCmd putWallet ''btcwallet'' s = (r, s')" for s r s'
    using that(2)
    by (cases rule: shut_down_cases)
      (use that(1) in \<open>auto simp: one_process_def creation_def is_running_def\<close>)
  then show "act_rel (preserves one_process) (StopWallet m)"
    unfolding act_rel_def preserves_def StopWallet_def by (metis prod.collapse)
qed

lemma one_CreateWallet: "act_rel (preserves one_process) (manager_CreateWallet m pw)"
  by (auto simp: act_rel_def preserves_def manager_CreateWallet_def getExePath_def bind_act_def act_defs wrap_err_def ask_def
      lift_err_def lift_out_def Let_def one_process_def creation_def split: outcome.splits option.splits)

text \<open>Whether the service runs makes no difference to a creation: its process is started beside it.\<close>

lemma creation_log:
  assumes "getwd m = Ok wd" and "\<not> notExist m (join_path [go_dir wd, ''btcwallet'', ''btcwallet''])"
    and "ptyErr m (length (trace s)) = None"
  shows "snd (manager_CreateWallet m pw s) = did (Exited creation) (did (WalletInput [pw, pw, ''no'', ''no'', ''OK''])
    (did (Started creation (join_path [go_dir wd, ''btcwallet'', ''btcwallet'']) [''--create'']) s))"
  using assms
  by (simp add: manager_CreateWallet_def getExePath_def bind_act_def act_defs wrap_err_def ask_def lift_err_def Let_def
      split: option.split)

lemmas one_procs = one_StartOrcaNet one_StartWallet one_Stop

subsection \<open>Configuration\<close>

lemma set_miningaddr_lines: "ls \<noteq> [] \<Longrightarrow> set_miningaddr a ls \<noteq> []"
  by (cases ls) simp_all

lemma set_miningaddr_no_newline:
  "CHR 0x0A \<notin> set a \<Longrightarrow> \<forall>l \<in> set ls. CHR 0x0A \<notin> set l \<Longrightarrow> \<forall>l \<in> set (set_miningaddr a ls). CHR 0x0A \<notin> set l"
  by (induction a ls rule: set_miningaddr.induct) (auto simp: miningKey_def)

lemma find_set_miningaddr: "find_miningaddr (set_miningaddr a ls) = trim_space a"
  by (induction a ls rule: set_miningaddr.induct)
    simp_all

lemma split_updated:
  assumes "CHR 0x0A \<notin> set a"
  shows "go_split CHR 0x0A (go_join [CHR 0x0A] (set_miningaddr a (go_split CHR 0x0A c))) =
    set_miningaddr a (go_split CHR 0x0A c)"
proof (rule go_split_join)
  show "set_miningaddr a (go_split CHR 0x0A c) \<noteq> []" by (rule set_miningaddr_lines) simp
  show "\<forall>w \<in> set (set_miningaddr a (go_split CHR 0x0A c)). CHR 0x0A \<notin> set w"
    by (rule set_miningaddr_no_newline [OF assms]) (blast dest: go_split_no_sep)
qed

lemma find_miningaddr_updated:
  "CHR 0x0A \<notin> set a \<Longrightarrow>
   find_miningaddr (go_split CHR 0x0A (go_join [CHR 0x0A] (set_miningaddr a (go_split CHR 0x0A c)))) = trim_space a"
  by (simp add: split_updated find_set_miningaddr)

text \<open>The lines of the file other than the first mining address stay.\<close>

lemma set_miningaddr_others:
  "[l \<leftarrow> set_miningaddr a ls. \<not> has_prefix l miningKey] = [l \<leftarrow> ls. \<not> has_prefix l miningKey]"
  by (induction a ls rule: set_miningaddr.induct)
    simp_all

text \<open>The mining address survives the configuration file.  After a successful update with an address of one
  line, reading the configuration gives this address without surrounding white space, and the update has
  kept every line of the file that does not set a mining address, in order.\<close>

theorem config_roundtrip:
  assumes "UpdateBtcdConfigWithMiningAddr m a s = (Ok (), s')" and "CHR 0x0A \<notin> set a" and "getwd m = Ok wd"
  shows "GetMiningAddressFromConfig m s' = (Ok (trim_space a), s') \<and>
    (\<exists>c c'. files s (configPath (go_dir wd)) = Some c \<and> files s' (configPath (go_dir wd)) = Some c' \<and>
      [l \<leftarrow> go_split CHR 0x0A c'. \<not> has_prefix l miningKey] =
      [l \<leftarrow> go_split CHR 0x0A c. \<not> has_prefix l miningKey])"
proof -
  let ?p = "configPath (go_dir wd)"
  obtain c where c: "readFileErr m ?p = None" "files s ?p = Some c" "writeFileErr m ?p = None"
    and s': "s' = s\<lparr>files := (files s)(?p \<mapsto> go_join [CHR 0x0A] (set_miningaddr a (go_split CHR 0x0A c)))\<rparr>"
    using assms(1,3) by (auto simp: UpdateBtcdConfigWithMiningAddr_def ok_iff)
  note split = split_updated [OF assms(2), of c]
  have "GetMiningAddressFromConfig m s' = (Ok (trim_space a), s')"
    using c(1) s' assms(2,3)
    by (simp add: GetMiningAddressFromConfig_def getExePath_def bind_act_def act_defs wrap_err_def read_file_def
        find_miningaddr_updated)
  moreover have "files s' ?p = Some (go_join [CHR 0x0A] (set_miningaddr a (go_split CHR 0x0A c)))"
    using s' by simp
  ultimately show ?thesis using c(2) split set_miningaddr_others by auto
qed

text \<open>Reconfiguring the miner.  If \<open>ConfigureMiningAddress\<close> succeeds, btcd had been running and has ended, the
  configuration file names the new address, and a new btcd runs that was given this address.\<close>

theorem ConfigureMiningAddress_installs:
  assumes "ConfigureMiningAddress m a s = (Ok (), s')" and "a \<noteq> []" and "CHR 0x0A \<notin> set a"
  shows "is_running (orcaNetCmd s) \<and> (\<exists>c. orcaNetCmd s' = Some c \<and> c_process c = Running \<and>
      ''--miningaddr='' @ a \<in> set (c_args c)) \<and>
    GetMiningAddressFromConfig m s' = (Ok (trim_space a), s')"
proof -
  obtain s1 s2 where stop: "StopOrcaNet m s = (Ok (), s1)"
    and upd: "UpdateBtcdConfigWithMiningAddr m a s1 = (Ok (), s2)"
    and start: "StartOrcaNet m a s2 = (Ok (), s')"
    using assms(1) by (auto simp: ConfigureMiningAddress_def ok_iff)
  obtain wd where wd: "getwd m = Ok wd" using upd by (auto simp: UpdateBtcdConfigWithMiningAddr_def ok_iff)
  let ?p = "configPath (go_dir wd)"
  have stopped: "orcaNetCmd s1 = None" "is_running (orcaNetCmd s)"
    using stop unfolding StopOrcaNet_def
    by (cases rule: shut_down_cases; simp add: is_running_def)+
  have upd2: "orcaNetCmd s2 = None" "readFileErr m ?p = None"
    "\<exists>c. files s2 ?p = Some (go_join [CHR 0x0A] (set_miningaddr a (go_split CHR 0x0A c)))"
    using upd wd stopped by (auto simp: UpdateBtcdConfigWithMiningAddr_def ok_iff)
  obtain path where "launch m putOrca ''btcd'' path (orcaArgs a) s2 = (Ok (), s')"
    using StartOrcaNet_cases [OF start] upd2(1) by (auto simp: has_process_def)
  then have launched: "orcaNetCmd s' = Some \<lparr>c_path = path, c_args = orcaArgs a, c_process = Running\<rparr>"
    "files s' = files s2"
    by (cases rule: launch_cases; simp)+
  have "GetMiningAddressFromConfig m s' = (Ok (trim_space a), s')"
    using upd2 launched(2) wd assms(3)
    by (auto simp: GetMiningAddressFromConfig_def getExePath_def bind_act_def act_defs wrap_err_def read_file_def
        find_miningaddr_updated)
  with stopped launched assms(2) show ?thesis by (auto simp: orcaArgs_def)
qed

text \<open>An unclean exit locks the server out.  When stopping btcd fails although it was signalled (it exits with
  an error), the command stays in the server's variable: every later start reports success without
  starting anything, and every later stop fails.\<close>

theorem unclean_exit_blocks_restart:
  assumes "StopOrcaNet m s = (Err e, s')" and "s' \<noteq> s"
  shows "StartOrcaNet m' a s' = (Ok (), s') \<and> (\<exists>e'. StopOrcaNet m' s' = (Err e', s'))"
  using assms(1) [unfolded StopOrcaNet_def]
proof (cases rule: shut_down_cases)
  case (2 c e)
  then show ?thesis
    by (auto simp: StartOrcaNet_def StopOrcaNet_def shut_down_def has_process_def bind_act_def act_defs
        wrap_err_def)
qed (use assms(2) in auto)

text \<open>A btcctl call either does not get to the program, or runs it with the words of the command string.\<close>

lemma CallBtcctl_cases:
  assumes "CallBtcctlCmd m c s = (r, s')"
  obtains "s' = s" "\<forall>x. r \<noteq> Ok x"
  | out err where "btcctl m (length (trace s)) (btcctlFlags @ go_split CHR '' '' c) = (out, err)"
    "s' = did (Btcctl (btcctlFlags @ go_split CHR '' '' c)) s"
    "r = (case err of None \<Rightarrow> Ok (trim_space out)
          | Some e \<Rightarrow> Err (''failed to execute btcctl command: '' @ e @ '', output: '' @ out))"
proof (cases "\<exists>wd. getwd m = Ok wd \<and>
    \<not> notExist m (join_path [go_dir wd, ''btcd'', ''cmd'', ''btcctl'', ''btcctl''])")
  case False
  then have "s' = s" "\<forall>x. r \<noteq> Ok x"
    using assms
    by (cases "getwd m"; auto simp: CallBtcctlCmd_def getExePath_def bind_act_def act_defs wrap_err_def Let_def)+
  then show thesis by (rule that(1))
next
  case True
  obtain out err where "btcctl m (length (trace s)) (btcctlFlags @ go_split CHR '' '' c) = (out, err)"
    by fastforce
  with True assms show thesis
    by (intro that(2) [of out err])
      (auto simp: CallBtcctlCmd_def getExePath_def bind_act_def act_defs wrap_err_def Let_def split: option.splits)
qed

subsection \<open>A concrete machine\<close>

definition demoMachine :: machine where
  "demoMachine = \<lparr>getwd = Ok ''/o/server'', notExist = (\<lambda>_. False), stdoutErr = (\<lambda>_. None), stderrErr = (\<lambda>_. None),
     startErr = (\<lambda>_ _. None), signalErr = (\<lambda>_ _. None), waitErr = (\<lambda>_ _. None), killErr = (\<lambda>_ _. None),
     readFileErr = (\<lambda>_. None), writeFileErr = (\<lambda>_. None), ptyErr = (\<lambda>_. None), createWaitErr = (\<lambda>_. None),
     userHome = Ok ''/home/u'', GOOS = ''linux'', removeErr = (\<lambda>_. None),
     btcctl = (\<lambda>_ args. if ''validateaddress'' \<in> set args then (''{\"isvalid\": true}'', None) else (''7'', None)),
     parseFloatOther = (\<lambda>t. if t = ''NaN'' then (NaN, None) else (Fin 0, Some ''invalid syntax''))\<rparr>"

definition demoServer :: server where
  "demoServer = \<lparr>orcaNetCmd = Some \<lparr>c_path = ''/o/btcd/btcd'', c_args = orcaArgs [], c_process = Running\<rparr>,
     walletCmd = None, sessionDB = Map.empty, files = [''/o/btcd/sample-btcd.conf'' \<mapsto> ''debug=1''],
     trace = [Started ''btcd'' ''/o/btcd/btcd'' (orcaArgs [])]\<rparr>"

lemma demo_config: "configPath (go_dir ''/o/server'') = ''/o/btcd/sample-btcd.conf''"
  by code_simp

lemma demo_update: "\<exists>s'. UpdateBtcdConfigWithMiningAddr demoMachine ''1abc'' demoServer = (Ok (), s')"
  by (simp add: UpdateBtcdConfigWithMiningAddr_def getExePath_def bind_act_def act_defs wrap_err_def read_file_def
      write_whole_file_def demoMachine_def demo_config) (simp add: demoServer_def)

lemma demo_trim_addr: "trim_space ''1abc'' = ''1abc''"
  by code_simp

theorem config_roundtrip_witness:
  "\<exists>s'. UpdateBtcdConfigWithMiningAddr demoMachine ''1abc'' demoServer = (Ok (), s') \<and>
     GetMiningAddressFromConfig demoMachine s' = (Ok ''1abc'', s')"
proof -
  obtain s' where s': "UpdateBtcdConfigWithMiningAddr demoMachine ''1abc'' demoServer = (Ok (), s')"
    using demo_update by blast
  from config_roundtrip [OF s', of "''/o/server''"] s' show ?thesis
    by (simp add: demo_trim_addr) (simp add: demoMachine_def)
qed

theorem ConfigureMiningAddress_installs_witness:
  "\<exists>s'. ConfigureMiningAddress demoMachine ''1abc'' demoServer = (Ok (), s') \<and> is_running (orcaNetCmd s')"
proof -
  have "fst (ConfigureMiningAddress demoMachine ''1abc'' demoServer) = Ok ()"
    by (simp add: ConfigureMiningAddress_def StopOrcaNet_def shut_down_def StartOrcaNet_def launch_def ask_def
        has_process_def UpdateBtcdConfigWithMiningAddr_def getExePath_def bind_act_def act_defs wrap_err_def
        read_file_def write_whole_file_def demoMachine_def demo_config lift_err_def demoServer_def putOrca_def
        did_def Let_def)
  then obtain s' where s': "ConfigureMiningAddress demoMachine ''1abc'' demoServer = (Ok (), s')"
    by (metis prod.collapse)
  from ConfigureMiningAddress_installs [OF s'] s' show ?thesis by (auto simp: is_running_def)
qed

theorem unclean_exit_blocks_restart_witness:
  "\<exists>e s'. StopOrcaNet (demoMachine\<lparr>waitErr := (\<lambda>_ _. Some ''signal: interrupt'')\<rparr>) demoServer = (Err e, s') \<and>
     StartOrcaNet demoMachine ''1abc'' s' = (Ok (), s')"
proof -
  have "\<exists>e s'. StopOrcaNet (demoMachine\<lparr>waitErr := (\<lambda>_ _. Some ''signal: interrupt'')\<rparr>) demoServer = (Err e, s') \<and>
      s' \<noteq> demoServer"
    by (simp add: StopOrcaNet_def shut_down_def ask_def bind_act_def act_defs wrap_err_def lift_err_def
        demoMachine_def demoServer_def putOrca_def did_def)
  then obtain e s' where "StopOrcaNet (demoMachine\<lparr>waitErr := (\<lambda>_ _. Some ''signal: interrupt'')\<rparr>) demoServer = (Err e, s')"
    "s' \<noteq> demoServer" by blast
  with unclean_exit_blocks_restart [OF this, of demoMachine "''1abc''"] show ?thesis by blast
qed

end
