(* ===== verification/Wallet_Handlers.thy ===== *)
theory Wallet_Handlers
  imports Wallet_Manager
begin

text \<open>
  The HTTP handlers of the wallet server (\<open>src/server/handlers/handlers.go\<close>) and its routes and start
  (\<open>src/server/main.go\<close>).  A handler returns the response it has written: status, body and the cookies it
  has set.  A panic of a handler ends the request; \<open>os.Exit\<close> is a panic of the whole server.  The JSON
  decoders of the requests and of btcctl's output, the random source, the clock and the output of \<open>ps\<close> are
  the record \<open>web\<close> and the arguments of the handlers.  The sleeps are left out.
\<close>

subsection \<open>Responses\<close>

datatype body = ErrorText string | Json "(string \<times> jval) list" | PlainText string

record resp =
  r_status :: int
  r_body :: body
  r_cookies :: "(string \<times> string \<times> int) list"

definition http_error :: "string \<Rightarrow> int \<Rightarrow> resp" where
  "http_error msg code = \<lparr>r_status = code, r_body = ErrorText msg, r_cookies = []\<rparr>"

definition json_ok :: "int \<Rightarrow> (string \<times> jval) list \<Rightarrow> resp" where
  "json_ok code kvs = \<lparr>r_status = code, r_body = Json kvs, r_cookies = []\<rparr>"

definition with_cookie :: "string \<times> string \<times> int \<Rightarrow> resp \<Rightarrow> resp" where
  "with_cookie c r = r\<lparr>r_cookies := c # r_cookies r\<rparr>"

record web =
  decodeLogin :: "bytes \<Rightarrow> (string \<times> bool) outcome"
  decodeMine :: "bytes \<Rightarrow> int outcome"
  decodeSend :: "bytes \<Rightarrow> (string \<times> string) outcome"
  decodeTxs :: "bytes \<Rightarrow> (string \<times> jval) list list option outcome"
  decodeObject :: "bytes \<Rightarrow> (string \<times> jval) list outcome"
  rfc3339 :: "int \<Rightarrow> string"
  psOutput :: "string outcome"
  randInt :: "nat \<Rightarrow> nat outcome"
  listenErr :: "string option"

text \<open>The shape of every step of a handler: call, on an error answer and return, otherwise go on.\<close>

definition try_call :: "('s, 'a) act \<Rightarrow> (string \<Rightarrow> resp) \<Rightarrow> ('a \<Rightarrow> ('s, resp) act) \<Rightarrow> ('s, resp) act" where
  "try_call m h k = bind_act (catch_act m) (\<lambda>r. case r of Inl e \<Rightarrow> ret_act (h e) | Inr x \<Rightarrow> k x)"

definition jfield :: "(string \<times> jval) list \<Rightarrow> string \<Rightarrow> jval" where
  "jfield kvs k = (case map_of kvs k of None \<Rightarrow> JNull | Some v \<Rightarrow> v)"

subsection \<open>Handlers\<close>

definition GetRoot :: "(server, resp) act" where
  "GetRoot = ret_act (json_ok 200 [(''message'', JStr ''Welcome to OrcaNet API from testcrypto!'')])"

definition GetHello :: "web \<Rightarrow> int \<Rightarrow> (server, resp) act" where
  "GetHello w now = ret_act (json_ok 200 [(''message'', JStr ''Hello World!''),
     (''timestamp'', JStr (rfc3339 w now))])"

definition charset :: string where
  "charset = ''abcdefghijklmnopqrstuvwxyzABCDEFGHIJKLMNOPQRSTUVWXYZ0123456789''"

fun passwordFrom :: "(nat \<Rightarrow> nat outcome) \<Rightarrow> nat \<Rightarrow> nat \<Rightarrow> string \<Rightarrow> string outcome" where
  "passwordFrom rnd i 0 acc = Ok acc"
| "passwordFrom rnd i (Suc n) acc = (case rnd i of
      Ok k \<Rightarrow> passwordFrom rnd (Suc i) n (acc @ [charset ! k])
    | Err e \<Rightarrow> Err (''failed to generate random index: '' @ e)
    | Panic e \<Rightarrow> Panic e
    | Blocked \<Rightarrow> Blocked)"

definition GenerateRandomPassword :: "web \<Rightarrow> nat \<Rightarrow> string outcome" where
  "GenerateRandomPassword w len = passwordFrom (randInt w) 0 len []"

definition unlockCmd :: "string \<Rightarrow> int \<Rightarrow> string" where
  "unlockCmd password duration = ''walletpassphrase '' @ password @ '' '' @ show_int duration"

definition CreateWallet :: "machine \<Rightarrow> web \<Rightarrow> (server, resp) act" where
  "CreateWallet m w =
    try_call (lift_out (GenerateRandomPassword w 12)) (\<lambda>e. http_error (''Failed to generate password: '' @ e) 500)
    (\<lambda>password.
    try_call (manager_CreateWallet m password) (\<lambda>e. http_error (''Failed to create wallet: '' @ e) 500) (\<lambda>_.
    try_call (StartWallet m) (\<lambda>e. http_error (''Failed to start btcwallet after wallet creation: '' @ e) 500) (\<lambda>_.
    try_call (CallBtcctlCmd m ''getnewaddress'') (\<lambda>e. http_error (''Failed to generate mining address: '' @ e) 500)
    (\<lambda>newAddress.
    try_call (ConfigureMiningAddress m newAddress)
      (\<lambda>e. http_error (''Failed to configure mining address: '' @ e) 500) (\<lambda>_.
    try_call (CallBtcctlCmd m (unlockCmd password 86400)) (\<lambda>e. http_error (''Failed to unlock wallet: '' @ e) 500)
    (\<lambda>_. ret_act (json_ok 201 [
      (''message'', JStr ''Wallet created and mining address configured successfully!''),
      (''password'', JStr password), (''miningAddress'', JStr newAddress)])))))))"

text \<open>Steps 2 to 4 of a login: unlock the wallet, read the mining address, restart btcd with it.\<close>

definition unlockAndRestart :: "machine \<Rightarrow> string \<Rightarrow> int \<Rightarrow> (string \<Rightarrow> (server, resp) act) \<Rightarrow> (server, resp) act" where
  "unlockAndRestart m password duration k =
    try_call (CallBtcctlCmd m (unlockCmd password duration))
      (\<lambda>e. http_error (''Failed to unlock wallet: '' @ e) 401) (\<lambda>_.
    try_call (GetMiningAddressFromConfig m)
      (\<lambda>e. http_error ''Mining address not configured. Please create a wallet first.'' 401) (\<lambda>miningAddr.
    if miningAddr = [] then
      ret_act (http_error ''Mining address not configured. Please create a wallet first.'' 401)
    else
      try_call (StopOrcaNet m) (\<lambda>e. http_error (''Failed to stop btcd: '' @ e) 500) (\<lambda>_.
      try_call (StartOrcaNet m miningAddr)
        (\<lambda>e. http_error (''Failed to start btcd with mining address: '' @ e) 500) (\<lambda>_. k miningAddr))))"

text \<open>Steps 5 to 7: the transactions and the balance, and the answer.\<close>

definition walletReport :: "machine \<Rightarrow> web \<Rightarrow> string \<Rightarrow> (server, resp) act" where
  "walletReport m w miningAddr =
    try_call (CallBtcctlCmd m ''listtransactions'')
      (\<lambda>e. http_error (''Failed to retrieve transaction history: '' @ e) 500) (\<lambda>txs.
    try_call (lift_out (decodeTxs w txs)) (\<lambda>e. http_error (''Failed to parse transaction history: '' @ e) 500)
    (\<lambda>transactions.
    try_call (CallBtcctlCmd m ''getbalance'') (\<lambda>e. http_error (''Failed to retrieve balance: '' @ e) 500) (\<lambda>balance.
    ret_act (json_ok 200 [(''message'', JStr ''Logged in successfully, services are running.''),
      (''miningAddress'', JStr miningAddr), (''balance'', JStr balance),
      (''transactions'', (case transactions of None \<Rightarrow> JNull | Some ts \<Rightarrow> JArr (map JObj ts)))]))))"

definition Login :: "machine \<Rightarrow> web \<Rightarrow> string \<Rightarrow> int \<Rightarrow> int \<Rightarrow> bytes \<Rightarrow> (server, resp) act" where
  "Login m w token now now' body =
    try_call (lift_out (decodeLogin w body)) (\<lambda>_. http_error ''Invalid request payload'' 400)
    (\<lambda>(password, rememberMe).
    try_call (StartWallet m)
      (\<lambda>_. http_error ''Failed to start wallet. Please create a wallet first.'' 401) (\<lambda>_.
    let expiry = (if rememberMe then now' + 86400000000000 else now + 3600000000000) in
    unlockAndRestart m password 86400 (\<lambda>miningAddr.
    bind_act (upd_act (\<lambda>s. if rememberMe
      then s\<lparr>sessionDB := (sessionDB s)(token \<mapsto> \<lparr>s_Password = password, s_ExpiresAt = expiry\<rparr>)\<rparr> else s)) (\<lambda>_.
    bind_act (walletReport m w miningAddr)
      (\<lambda>r. ret_act (with_cookie (''session_token'', token, expiry) r))))))"

text \<open>\<open>time.Time.Sub\<close> saturates.\<close>

definition time_sub :: "int \<Rightarrow> int \<Rightarrow> int" where
  "time_sub t u = max (- (2 ^ 63)) (min (2 ^ 63 - 1) (t - u))"

definition RetriveInfo :: "machine \<Rightarrow> web \<Rightarrow> int \<Rightarrow> int \<Rightarrow> string option \<Rightarrow> (server, resp) act" where
  "RetriveInfo m w now now' cookie = (case cookie of
      None \<Rightarrow> ret_act (http_error ''Error getting cookie'' 400)
    | Some token \<Rightarrow>
        bind_act (get_act (\<lambda>s. sessionDB s token)) (\<lambda>session. case session of
          None \<Rightarrow> ret_act (http_error ''Expired session token'' 401)
        | Some ss \<Rightarrow>
            if s_ExpiresAt ss < now then ret_act (http_error ''Expired session token'' 401)
            else
              try_call (StartWallet m)
                (\<lambda>_. http_error ''Failed to start wallet. Please create a wallet first.'' 401) (\<lambda>_.
              unlockAndRestart m (s_Password ss) (time_sub (s_ExpiresAt ss) now') (walletReport m w))))"

definition Logout :: "machine \<Rightarrow> int \<Rightarrow> (server, resp) act" where
  "Logout m now =
    bind_act
      (try_call (CallBtcctlCmd m ''walletlock'') (\<lambda>e. http_error (''Failed to lock wallet: '' @ e) 500) (\<lambda>_.
       try_call (StopWallet m) (\<lambda>e. http_error (''Failed to stop btcwallet: '' @ e) 500) (\<lambda>_.
       ret_act (json_ok 200 [(''message'', JStr ''Wallet locked and btcwallet stopped successfully!'')]))))
      (\<lambda>r. ret_act (with_cookie (''session_token'', [], now - 3600000000000) r))"

definition GetNewAddress :: "machine \<Rightarrow> (server, resp) act" where
  "GetNewAddress m =
    try_call (CallBtcctlCmd m ''getnewaddress'') (\<lambda>e. http_error (''Failed to generate new address: '' @ e) 500)
    (\<lambda>newAddress. ret_act (json_ok 200 [(''newAddress'', JStr newAddress)]))"

definition GetBalance :: "machine \<Rightarrow> (server, resp) act" where
  "GetBalance m =
    try_call (CallBtcctlCmd m ''getbalance'') (\<lambda>e. http_error (''Failed to retrieve balance: '' @ e) 500)
    (\<lambda>balance. ret_act (json_ok 200 [(''balance'', JStr balance)]))"

definition Mine :: "machine \<Rightarrow> web \<Rightarrow> bytes \<Rightarrow> (server, resp) act" where
  "Mine m w body =
    try_call (lift_out (decodeMine w body)) (\<lambda>_. http_error ''Invalid request payload'' 400) (\<lambda>numBlocks.
    if numBlocks \<le> 0 then ret_act (http_error ''Invalid request payload'' 400)
    else
      try_call (CallBtcctlCmd m (''generate '' @ show_int numBlocks))
        (\<lambda>e. http_error (''Failed to start mining: '' @ e) 500) (\<lambda>output.
      ret_act (json_ok 200 [(''message'', JStr ''Mining started successfully''),
        (''block_hash'', JArr (map JStr (go_split CHR 0x0A (trim_space output))))])))"

definition GetMiningAddress :: "machine \<Rightarrow> (server, resp) act" where
  "GetMiningAddress m =
    try_call (GetMiningAddressFromConfig m)
      (\<lambda>_. http_error ''Mining address not configured or unavailable.'' 404) (\<lambda>miningAddr.
    if miningAddr = [] then ret_act (http_error ''Mining address not configured or unavailable.'' 404)
    else ret_act (json_ok 200 [(''miningAddress'', JStr miningAddr)]))"

text \<open>An address that is invalid without an error makes the handler call \<open>Error\<close> on a nil error.\<close>

definition SendToAddress :: "machine \<Rightarrow> web \<Rightarrow> bytes \<Rightarrow> (server, resp) act" where
  "SendToAddress m w body =
    try_call (lift_out (decodeSend w body)) (\<lambda>_. http_error ''Invalid request payload'' 400) (\<lambda>(address, amountStr).
    try_call (ValidateAddress m address) (\<lambda>e. http_error (''Invalid recipient address: '' @ e) 400) (\<lambda>isValid.
    if \<not> isValid then panic_act ''runtime error: invalid memory address or nil pointer dereference''
    else
      try_call (CallBtcctlCmd m ''getbalance'') (\<lambda>e. http_error (''Failed to retrieve wallet balance: '' @ e) 500)
      (\<lambda>balanceStr.
      try_call (ParseBalanceAndAmount m balanceStr amountStr)
        (\<lambda>e. http_error (''Failed to parse balance or amount: '' @ e) 500) (\<lambda>(balance, amount).
      if fl_lt balance amount then
        ret_act (http_error ''Insufficient funds to complete the transaction'' 400)
      else
        try_call (CallBtcctlCmd m (''sendtoaddress '' @ address @ '' '' @ amountStr))
          (\<lambda>e. http_error (''Failed to send funds: '' @ e) 500) (\<lambda>txid.
        ret_act (json_ok 200 [(''message'', JStr ''Funds sent successfully!''), (''txid'', JStr txid)]))))))"

text \<open>A transaction without a numeric time makes the type assertion panic.\<close>

fun txDetails :: "web \<Rightarrow> (string \<times> jval) list list \<Rightarrow> jval list outcome" where
  "txDetails w [] = Ok []"
| "txDetails w (tx # txs) = (case jfield tx ''time'' of
      JNum t \<Rightarrow> (case txDetails w txs of
          Ok ds \<Rightarrow> Ok (JObj [(''txid'', jfield tx ''txid''), (''time'', JStr (rfc3339 w (to_int64 t))),
              (''amount'', jfield tx ''amount''), (''category'', jfield tx ''category''),
              (''confirmations'', jfield tx ''confirmations''),
              (''address'', (case map_of tx ''address'' of None \<Rightarrow> JStr ''N/A'' | Some a \<Rightarrow> a))] # ds)
        | r \<Rightarrow> r)
    | _ \<Rightarrow> Panic ''interface conversion: interface {} is not float64'')"

definition GetTransactionHistory :: "machine \<Rightarrow> web \<Rightarrow> (server, resp) act" where
  "GetTransactionHistory m w =
    try_call (CallBtcctlCmd m ''listtransactions'')
      (\<lambda>e. http_error (''Failed to retrieve transaction history: '' @ e) 500) (\<lambda>output.
    try_call (lift_out (decodeTxs w output)) (\<lambda>e. http_error (''Failed to parse transaction history: '' @ e) 500)
    (\<lambda>transactions.
    bind_act (lift_out (txDetails w (case transactions of None \<Rightarrow> [] | Some ts \<Rightarrow> ts))) (\<lambda>ds.
    ret_act (json_ok 200 [(''transactions'', if ds = [] then JNull else JArr ds)]))))"

text \<open>\<open>address.(string)\<close> and \<open>vout.(map[string]interface{})\<close> panic on other values.\<close>

fun strings_of :: "jval list \<Rightarrow> string list outcome" where
  "strings_of [] = Ok []"
| "strings_of (JStr a # js) = (case strings_of js of Ok as \<Rightarrow> Ok (a # as) | r \<Rightarrow> r)"
| "strings_of (_ # js) = Panic ''interface conversion: interface {} is not string''"

fun voutAddresses :: "jval list \<Rightarrow> string list outcome" where
  "voutAddresses [] = Ok []"
| "voutAddresses (JObj v # vs) =
    (case (case jfield v ''scriptPubKey'' of
             JObj spk \<Rightarrow> (case jfield spk ''addresses'' of JArr as \<Rightarrow> strings_of as | _ \<Rightarrow> Ok [])
           | _ \<Rightarrow> Ok []) of
       Ok as \<Rightarrow> (case voutAddresses vs of Ok bs \<Rightarrow> Ok (as @ bs) | r \<Rightarrow> r)
     | r \<Rightarrow> r)"
| "voutAddresses (_ # vs) = Panic ''interface conversion: interface {} is not map[string]interface {}''"

definition getTransactionAddresses :: "machine \<Rightarrow> web \<Rightarrow> string \<Rightarrow> (server, string list) act" where
  "getTransactionAddresses m w txid =
    bind_act (wrap_err (''failed to get transaction details for txid '' @ txid @ '': '')
      (CallBtcctlCmd m (''getrawtransaction '' @ txid @ '' 1''))) (\<lambda>output.
    bind_act (wrap_err (''failed to parse transaction details for txid '' @ txid @ '': '')
      (lift_out (decodeObject w output))) (\<lambda>tx.
    case jfield tx ''vout'' of JArr vs \<Rightarrow> lift_out (voutAddresses vs) | _ \<Rightarrow> ret_act []))"

definition Shutdown :: "machine \<Rightarrow> (server, resp) act" where
  "Shutdown m =
    try_call (StopWallet m) (\<lambda>e. http_error (''Failed to stop btcwallet: '' @ e) 500) (\<lambda>_.
    try_call (StopOrcaNet m) (\<lambda>e. http_error (''Failed to stop OrcaNet (btcd): '' @ e) 500) (\<lambda>_.
    panic_act ''exit status 0''))"

definition DeleteWallet :: "machine \<Rightarrow> (server, resp) act" where
  "DeleteWallet m =
    try_call (manager_DeleteWallet m) (\<lambda>e. http_error (''Failed to delete wallet: '' @ e) 500) (\<lambda>_.
    ret_act \<lparr>r_status = 200, r_body = PlainText (''Wallet deleted successfully.'' @ [CHR 0x0A]), r_cookies = []\<rparr>)"

definition addCpu :: "machine \<Rightarrow> string \<Rightarrow> gofloat \<Rightarrow> gofloat" where
  "addCpu m line sofar =
    (if go_contains line ''btcd'' then
       let section = go_fields [] line in
       if length section > 2 then
         (case parse_float64 (parseFloatOther m) (section ! 2) of
            (cpu, None) \<Rightarrow> fl_add f64 sofar cpu
          | (_, Some _) \<Rightarrow> sofar)
       else sofar
     else sofar)"

definition getUsage :: "machine \<Rightarrow> web \<Rightarrow> (server, string) act" where
  "getUsage m w =
    bind_act (lift_out (psOutput w)) (\<lambda>output.
    let total = fold (addCpu m) (go_split CHR 0x0A output) (Fin 0) in
    if total = Fin 0 then fail_act ''processes found'' else ret_act (fmt_2f total @ ''%''))"

definition TrackCPU :: "machine \<Rightarrow> web \<Rightarrow> (server, resp) act" where
  "TrackCPU m w =
    try_call (getUsage m w) (\<lambda>_. http_error (''Can'' @ [CHR 0x27] @ ''t get CPU Usage'') 500)
    (\<lambda>usage. ret_act (json_ok 200 [(''usage'', JStr usage)]))"

subsection \<open>Routes and start\<close>

record request =
  q_path :: string
  q_body :: bytes
  q_cookie :: "string option"
  q_token :: string
  q_now :: int
  q_now2 :: int

definition setupRoutes :: "machine \<Rightarrow> web \<Rightarrow> request \<Rightarrow> (server, resp) act" where
  "setupRoutes m w q =
    (if q_path q = ''/hello'' then GetHello w (q_now q)
     else if q_path q = ''/createWallet'' then CreateWallet m w
     else if q_path q = ''/login'' then Login m w (q_token q) (q_now q) (q_now2 q) (q_body q)
     else if q_path q = ''/retrieveInfo'' then RetriveInfo m w (q_now q) (q_now2 q) (q_cookie q)
     else if q_path q = ''/getMiningAddress'' then GetMiningAddress m
     else if q_path q = ''/getNewAddress'' then GetNewAddress m
     else if q_path q = ''/getBalance'' then GetBalance m
     else if q_path q = ''/mine'' then Mine m w (q_body q)
     else if q_path q = ''/sendToAddress'' then SendToAddress m w (q_body q)
     else if q_path q = ''/getTransactionHistory'' then GetTransactionHistory m w
     else if q_path q = ''/logout'' then Logout m (q_now q)
     else if q_path q = ''/shutdown'' then Shutdown m
     else if q_path q = ''/deleteWallet'' then DeleteWallet m
     else if q_path q = ''/track'' then TrackCPU m w
     else GetRoot)"

definition initServer :: "(string \<rightharpoonup> bytes) \<Rightarrow> server" where
  "initServer f = \<lparr>orcaNetCmd = None, walletCmd = None, sessionDB = Map.empty, files = f, trace = []\<rparr>"

definition server_main :: "machine \<Rightarrow> web \<Rightarrow> (server, unit) act" where
  "server_main m w =
    bind_act (recover_err (\<lambda>e. panic_act (''Initialization failed: '' @ e)) Initialize) (\<lambda>_.
    bind_act (recover_err (\<lambda>e. panic_act (''Failed to start OrcaNet: '' @ e)) (StartOrcaNet m [])) (\<lambda>_.
    recover_err (\<lambda>e. panic_act (''Failed to start server: '' @ e)) (lift_err (listenErr w))))"

text \<open>The goroutine of the termination signal: stop btcd and end the process.\<close>

definition handleGracefulShutdown :: "machine \<Rightarrow> (server, unit) act" where
  "handleGracefulShutdown m =
    bind_act (recover_err (\<lambda>e. panic_act (''Failed to stop OrcaNet: '' @ e)) (StopOrcaNet m))
      (\<lambda>_. panic_act ''exit status 0'')"

subsection \<open>Frames\<close>

lemma try_call_run:
  "m s = (Ok x, s1) \<Longrightarrow> try_call m h k s = k x s1"
  "m s = (Err e, s1) \<Longrightarrow> try_call m h k s = (Ok (h e), s1)"
  "m s = (Panic e, s1) \<Longrightarrow> try_call m h k s = (Panic e, s1)"
  "m s = (Blocked, s1) \<Longrightarrow> try_call m h k s = (Blocked, s1)"
  by (simp_all add: try_call_def bind_act_def catch_act_def act_defs)

lemma ok_try [ok_iff]:
  "try_call m h k s = (Ok y, s') \<longleftrightarrow>
     (\<exists>x s1. m s = (Ok x, s1) \<and> k x s1 = (Ok y, s')) \<or> (\<exists>e. m s = (Err e, s') \<and> y = h e)"
  by (auto simp: try_call_def bind_act_def catch_act_def act_defs split: prod.splits outcome.splits)

context server_frame
begin

lemma rel_try:
  assumes "act_rel R m" and "\<And>x. act_rel R (k x)"
  shows "act_rel R (try_call m h k)"
  unfolding try_call_def by (intro rel_bind rel_catch assms rel_sum rel_ret)

lemmas sf_try = rel_try sf_intros sf_calls

lemma sf_plain: "act_rel R (GetHello w now)" "act_rel R GetRoot" "act_rel R (GetNewAddress m)"
  "act_rel R (GetBalance m)" "act_rel R (Mine m w body)" "act_rel R (GetMiningAddress m)"
  "act_rel R (GetTransactionHistory m w)" "act_rel R (DeleteWallet m)" "act_rel R (TrackCPU m w)"
  "act_rel R (walletReport m w a)"
  unfolding GetHello_def GetRoot_def GetNewAddress_def GetBalance_def Mine_def GetMiningAddress_def
    GetTransactionHistory_def DeleteWallet_def TrackCPU_def getUsage_def walletReport_def Let_def
  by (intro sf_try)+

lemma sf_SendToAddress: "act_rel R (SendToAddress m w body)"
  unfolding SendToAddress_def by (auto intro!: sf_try split: prod.split)

lemma sf_serve:
  assumes "\<And>a. act_rel R (StartOrcaNet m a)" and "act_rel R (StartWallet m)" and "act_rel R (StopOrcaNet m)"
    and "act_rel R (StopWallet m)" and "\<And>s d. R s (s\<lparr>sessionDB := d\<rparr>)"
    and "\<And>pw. act_rel R (manager_CreateWallet m pw)"
  shows "act_rel R (setupRoutes m w q)"
proof -
  have restart: "act_rel R (unlockAndRestart m pw d k)" if "\<And>a. act_rel R (k a)" for pw d k
    unfolding unlockAndRestart_def by (intro sf_try assms that)
  have sess: "R s (if b then s\<lparr>sessionDB := d s\<rparr> else s)" for s b d using assms(5) refl by simp
  have "act_rel R (Login m w t n n' body)" for t n n' body
    unfolding Login_def Let_def
    by (auto intro!: rel_try rel_lift restart rel_bind rel_ret sf_plain rel_upd sess assms split: prod.split)
  moreover have "act_rel R (RetriveInfo m w n n' c)" for n n' c
    unfolding RetriveInfo_def by (intro sf_try restart sf_plain assms)
  moreover have "act_rel R (CreateWallet m w)"
    unfolding CreateWallet_def ConfigureMiningAddress_def by (intro sf_try assms)
  moreover have "act_rel R (Logout m n)" for n
    unfolding Logout_def by (intro sf_try assms)
  moreover have "act_rel R (Shutdown m)"
    unfolding Shutdown_def by (intro sf_try assms)
  ultimately show ?thesis
    unfolding setupRoutes_def by (intro rel_if sf_plain sf_SendToAddress) blast+
qed

end

subsection \<open>One btcd, one btcwallet\<close>

inductive serves :: "(machine \<times> web \<times> request) list \<Rightarrow> server \<Rightarrow> server \<Rightarrow> bool" where
  serves_none: "serves [] s s"
| serves_more: "serves qs (snd (setupRoutes m w q s)) s' \<Longrightarrow> serves ((m, w, q) # qs) s s'"

lemma one_setupRoutes: "one_process s \<Longrightarrow> one_process (snd (setupRoutes m w q s))"
  by (rule preserves_run [OF one.sf_serve [OF one_procs _ one_CreateWallet]])
    (simp_all add: preserves_def one_process_def)

text \<open>C26: No service is started twice.  Let the server start and then serve requests one after the other, whatever they are
  and whatever the operating system answers.  Through its whole log, in the middle of requests too, btcd was
  never started while a btcd it had started had not been waited for, and the same holds for the btcwallet service and for
  the btcwallet processes that create a wallet.  After each request the two services run exactly if the
  server's variables say so, and no creation process is left.  A creation may run beside the btcwallet service; nothing
  in the server keeps requests from running at the same time, and of such requests nothing is claimed.\<close>

theorem one_process_at_a_time:
  assumes "serves qs (snd (server_main m w (initServer f))) s"
  shows "one_process s"
proof -
  have "act_rel (preserves one_process) (server_main m w)"
    unfolding server_main_def Initialize_def by (intro one.sf_intros one_procs)
  moreover have "one_process (initServer f)"
    by (simp add: one_process_def initServer_def is_running_def)
  ultimately have "one_process (snd (server_main m w (initServer f)))" by (rule preserves_run)
  moreover have "serves qs s0 s \<Longrightarrow> one_process s0 \<Longrightarrow> one_process s" for s0
    by (induction rule: serves.induct) (simp_all add: one_setupRoutes)
  ultimately show ?thesis using assms by blast
qed

subsection \<open>Sending coins\<close>

lemma split_command:
  "CHR '' '' \<notin> set c \<Longrightarrow> go_split CHR '' '' (c @ '' '' @ rest) = c # go_split CHR '' '' rest"
  by (simp add: go_split_append_sep)

lemma Validate_cases:
  assumes "ValidateAddress m a s = (r, s')"
  obtains "s' = s" "\<forall>x. r \<noteq> Ok x"
  | "s' = did (Btcctl (btcctlFlags @ ''validateaddress'' # go_split CHR '' '' a)) s" "\<forall>x. r \<noteq> Ok x"
  | out where "btcctl m (length (trace s)) (btcctlFlags @ ''validateaddress'' # go_split CHR '' '' a) = (out, None)"
    "s' = did (Btcctl (btcctlFlags @ ''validateaddress'' # go_split CHR '' '' a)) s"
    "r = Ok (go_contains (trim_space out) (''\"isvalid\": true''))"
proof -
  have words: "go_split CHR '' '' (''validateaddress '' @ a) = ''validateaddress'' # go_split CHR '' '' a"
    using split_command [of "''validateaddress''" a] by simp
  obtain r1 s1 where call: "CallBtcctlCmd m (''validateaddress '' @ a) s = (r1, s1)" by fastforce
  then have v: "s' = s1" "r = (case r1 of Ok out \<Rightarrow> Ok (go_contains out (''\"isvalid\": true''))
      | Err e \<Rightarrow> Err (''failed to validate address: '' @ e) | Panic e \<Rightarrow> Panic e | Blocked \<Rightarrow> Blocked)"
    using assms by (cases r1; auto simp: ValidateAddress_def bind_act_def wrap_err_def ret_act_def)+
  from call show thesis
  proof (cases rule: CallBtcctl_cases)
    case 1
    then show thesis using that(1) v by (cases r1) auto
  next
    case (2 out err)
    then show thesis using that(2,3) v unfolding words by (cases err) auto
  qed
qed

text \<open>The server only ever adds to what it has done.\<close>

definition grows :: "server \<Rightarrow> server \<Rightarrow> bool" where
  "grows s s' \<longleftrightarrow> (\<exists>as. trace s' = trace s @ as)"

interpretation grow: server_frame grows
proof unfold_locales
  show "grows s t \<Longrightarrow> grows t u \<Longrightarrow> grows s u" for s t u by (auto simp: grows_def)
qed (auto simp: grows_def)

lemma grow_procs: "act_rel grows (StartOrcaNet m a)" "act_rel grows (StartWallet m)"
  "act_rel grows (StopOrcaNet m)" "act_rel grows (StopWallet m)"
proof -
  have launch: "grows s s'" if "launch m put n p args s = (r, s')" "\<And>c t. trace (put c t) = trace t"
    for put n p args s r s'
    using that(1) by (cases rule: launch_cases) (simp_all add: that(2) grows_def)
  have down: "grows s s'" if "shut_down m sel put n s = (r, s')" "\<And>c t. trace (put c t) = trace t"
    for sel put n s r s'
    using that(1) by (cases rule: shut_down_cases) (simp_all add: that(2) grows_def)
  show "act_rel grows (StopOrcaNet m)" "act_rel grows (StopWallet m)"
    unfolding act_rel_def StopWallet_def StopOrcaNet_def using down put_fields by (metis prod.collapse)+
  show "act_rel grows (StartOrcaNet m a)" "act_rel grows (StartWallet m)"
    unfolding StartWallet_def StartOrcaNet_def Let_def
    by (intro grow.sf_intros; auto simp: act_rel_def intro!: launch [OF prod.collapse [symmetric]])+
qed

lemma Parse_state: "ParseBalanceAndAmount m b a s = (r, s') \<Longrightarrow> s' = s"
  by (auto simp: ParseBalanceAndAmount_def bind_act_def wrap_err_def lift_err_def act_defs split: option.splits)

lemma split_word: "go_split CHR '' '' ''getbalance'' = [''getbalance'']"
  by (rule go_split_atomic) simp

lemma no_send_words [simp]: "btcctlFlags @ ''sendtoaddress'' # ws \<noteq> btcctlFlags @ ''validateaddress'' # vs"
  "btcctlFlags @ ''sendtoaddress'' # ws \<noteq> btcctlFlags @ [''getbalance'']"
  by simp_all

text \<open>The second half of \<open>SendToAddress\<close>, after the address was found valid.\<close>

lemma send_after_validation:
  assumes run: "try_call (CallBtcctlCmd m ''getbalance'') h1
      (\<lambda>balanceStr. try_call (ParseBalanceAndAmount m balanceStr am) h2 (\<lambda>(balance, amount).
      if fl_lt balance amount then ret_act r0
      else try_call (CallBtcctlCmd m (''sendtoaddress '' @ ad @ '' '' @ am)) h3 k)) s1 = (r, s')"
    and k: "\<And>x t. snd (k x t) = t"
    and sent: "Btcctl (btcctlFlags @ ''sendtoaddress'' # ws) \<in> set (drop (length (trace s1)) (trace s'))"
  shows "ws = go_split CHR '' '' (ad @ '' '' @ am) \<and>
    (\<exists>out. btcctl m (length (trace s1)) (btcctlFlags @ [''getbalance'']) = (out, None) \<and>
      snd (parse_float64 (parseFloatOther m) (trim_space out)) = None \<and>
      snd (parse_float64 (parseFloatOther m) am) = None \<and>
      \<not> fl_lt (fst (parse_float64 (parseFloatOther m) (trim_space out)))
             (fst (parse_float64 (parseFloatOther m) am)))"
proof -
  let ?P = "parse_float64 (parseFloatOther m)"
  obtain rb s2 where b: "CallBtcctlCmd m ''getbalance'' s1 = (rb, s2)" by fastforce
  obtain out where out: "btcctl m (length (trace s1)) (btcctlFlags @ [''getbalance'']) = (out, None)"
    and s2: "s2 = did (Btcctl (btcctlFlags @ [''getbalance''])) s1" and rb: "rb = Ok (trim_space out)"
    using b
  proof (cases rule: CallBtcctl_cases)
    case 1
    with run b sent show ?thesis by (cases rb) (auto simp: try_call_run)
  next
    case (2 out err)
    with run b sent that show ?thesis by (cases err) (auto simp: try_call_run split_word)
  qed
  obtain rp where p: "ParseBalanceAndAmount m (trim_space out) am s2 = (rp, s2)"
    using Parse_state by (metis prod.collapse)
  have run2: "try_call (ParseBalanceAndAmount m (trim_space out) am) h2 (\<lambda>(balance, amount).
      if fl_lt balance amount then ret_act r0
      else try_call (CallBtcctlCmd m (''sendtoaddress '' @ ad @ '' '' @ am)) h3 k) s2 = (r, s')"
    using run b rb by (simp add: try_call_run)
  have moved: "s' \<noteq> s2" using sent s2 by auto
  have rp: "rp = Ok (fst (?P (trim_space out)), fst (?P am))" "snd (?P (trim_space out)) = None" "snd (?P am) = None"
    using p run2 moved
    by (cases "snd (?P (trim_space out))"; cases "snd (?P am)";
        auto simp: ParseBalanceAndAmount_def bind_act_def wrap_err_def lift_err_def act_defs try_call_run)+
  have cmp: "\<not> fl_lt (fst (?P (trim_space out))) (fst (?P am))"
    using p run2 moved rp(1) by (auto simp: try_call_run ret_act_def)
  obtain rs s3 where c: "CallBtcctlCmd m (''sendtoaddress '' @ ad @ '' '' @ am) s2 = (rs, s3)" by fastforce
  have "s' = s3" using c p run2 rp(1) cmp k by (cases rs) (auto simp: try_call_run, metis snd_conv)
  moreover have "s3 = did (Btcctl (btcctlFlags @ ''sendtoaddress'' # go_split CHR '' '' (ad @ '' '' @ am))) s2"
    using c
  proof (cases rule: CallBtcctl_cases)
    case (2 out err)
    then show ?thesis using split_command [of "''sendtoaddress''"] by simp
  qed (use moved \<open>s' = s3\<close> in simp)
  ultimately show ?thesis using sent s2 out rp(2,3) cmp by auto
qed

text \<open>C29: Coins are sent only after the checks.  If a request to \<open>/sendToAddress\<close> makes the server run a
  \<open>sendtoaddress\<close> command, the command's words are the requested address and amount, btcctl had called the
  address valid, and the balance btcctl then reported and the amount both parse as numbers without an error, where
  the balance is not smaller than the amount.  The comparison is that of the code, which an amount of \<open>NaN\<close> passes.\<close>

theorem SendToAddress_checks_funds:
  assumes "SendToAddress m w body s = (r, s')"
    and "Btcctl (btcctlFlags @ ''sendtoaddress'' # ws) \<in> set (drop (length (trace s)) (trace s'))"
  shows "\<exists>ad am vout out. decodeSend w body = Ok (ad, am) \<and> ws = go_split CHR '' '' (ad @ '' '' @ am) \<and>
    btcctl m (length (trace s)) (btcctlFlags @ ''validateaddress'' # go_split CHR '' '' ad) = (vout, None) \<and>
    go_contains (trim_space vout) (''\"isvalid\": true'') \<and>
    btcctl m (Suc (length (trace s))) (btcctlFlags @ [''getbalance'']) = (out, None) \<and>
    snd (parse_float64 (parseFloatOther m) (trim_space out)) = None \<and>
    snd (parse_float64 (parseFloatOther m) am) = None \<and>
    \<not> fl_lt (fst (parse_float64 (parseFloatOther m) (trim_space out)))
           (fst (parse_float64 (parseFloatOther m) am))"
proof (cases "decodeSend w body")
  case (Ok p)
  obtain ad am where p: "p = (ad, am)" by fastforce
  obtain rv s1 where v: "ValidateAddress m ad s = (rv, s1)" by fastforce
  have dec: "try_call (lift_out (decodeSend w body)) h k s = k (ad, am) s" for h :: "string \<Rightarrow> resp" and k
    by (rule try_call_run(1)) (simp add: lift_out_def Ok p)
  from v show ?thesis
  proof (cases rule: Validate_cases)
    case 1
    with assms v show ?thesis by (cases rv) (auto simp: SendToAddress_def dec try_call_run)
  next
    case 2
    with assms v show ?thesis by (cases rv) (auto simp: SendToAddress_def dec try_call_run)
  next
    case (3 vout)
    show ?thesis
    proof (cases "go_contains (trim_space vout) (''\"isvalid\": true'')")
      case False
      with 3 assms v show ?thesis by (auto simp: SendToAddress_def dec try_call_run panic_act_def)
    next
      case True
      have run: "try_call (CallBtcctlCmd m ''getbalance'')
          (\<lambda>e. http_error (''Failed to retrieve wallet balance: '' @ e) 500) (\<lambda>balanceStr.
          try_call (ParseBalanceAndAmount m balanceStr am)
            (\<lambda>e. http_error (''Failed to parse balance or amount: '' @ e) 500) (\<lambda>(balance, amount).
          if fl_lt balance amount then ret_act (http_error ''Insufficient funds to complete the transaction'' 400)
          else try_call (CallBtcctlCmd m (''sendtoaddress '' @ ad @ '' '' @ am))
            (\<lambda>e. http_error (''Failed to send funds: '' @ e) 500) (\<lambda>txid.
            ret_act (json_ok 200 [(''message'', JStr ''Funds sent successfully!''), (''txid'', JStr txid)])))) s1
          = (r, s')"
        using assms(1) v 3 True by (simp add: SendToAddress_def dec try_call_run)
      have rel: "act_rel grows (try_call (CallBtcctlCmd m ''getbalance'') h1 (\<lambda>balanceStr.
          try_call (ParseBalanceAndAmount m balanceStr am) h2 (\<lambda>(balance, amount).
          if fl_lt balance amount then ret_act r0
          else try_call (CallBtcctlCmd m (''sendtoaddress '' @ ad @ '' '' @ am)) h3 (\<lambda>txid. ret_act (r1 txid)))))"
        for h1 h2 h3 r0 r1
        by (auto intro!: grow.sf_try split: prod.split)
      have "Btcctl (btcctlFlags @ ''sendtoaddress'' # ws) \<in> set (drop (length (trace s1)) (trace s'))"
      proof -
        have "grows s1 s'" using rel [unfolded act_rel_def, rule_format, of s1] run by (metis snd_conv)
        then obtain as where "trace s' = trace s1 @ as" by (auto simp: grows_def)
        with 3 assms(2) show ?thesis by auto
      qed
      from send_after_validation [OF run _ this] 3 True Ok p show ?thesis by (auto simp: ret_act_def)
    qed
  qed
qed (use assms in \<open>auto simp: SendToAddress_def lift_out_def try_call_run\<close>)

text \<open>An invalid recipient crashes the request.  When btcctl runs and does not call the address valid, the
  handler panics on a nil error instead of answering that the address is invalid.\<close>

theorem invalid_recipient_panics:
  assumes "decodeSend w body = Ok (ad, am)" and "ValidateAddress m ad s = (Ok False, s1)"
  shows "SendToAddress m w body s = (Panic ''runtime error: invalid memory address or nil pointer dereference'', s1)"
proof -
  have "try_call (lift_out (decodeSend w body)) h k s = k (ad, am) s" for h :: "string \<Rightarrow> resp" and k
    by (rule try_call_run(1)) (simp add: lift_out_def assms(1))
  then show ?thesis
    by (simp add: SendToAddress_def try_call_run(1) [of "ValidateAddress m ad", OF assms(2)] panic_act_def)
qed

text \<open>Not a number is affordable.  An amount that \<open>ParseFloat\<close> reads as NaN passes the check against the
  balance, whatever the balance is, and is handed to btcctl.\<close>

theorem nan_amount_is_sent:
  assumes "decodeSend w body = Ok (ad, am)" and "ValidateAddress m ad s = (Ok True, s1)"
    and "CallBtcctlCmd m ''getbalance'' s1 = (Ok bal, s2)"
    and "snd (parse_float64 (parseFloatOther m) bal) = None"
    and "parse_float64 (parseFloatOther m) am = (NaN, None)"
    and "CallBtcctlCmd m (''sendtoaddress '' @ ad @ '' '' @ am) s2 = (Ok txid, s3)"
  shows "SendToAddress m w body s =
    (Ok (json_ok 200 [(''message'', JStr ''Funds sent successfully!''), (''txid'', JStr txid)]), s3)"
proof -
  have dec: "try_call (lift_out (decodeSend w body)) h k s = k (ad, am) s" for h :: "string \<Rightarrow> resp" and k
    by (rule try_call_run(1)) (simp add: lift_out_def assms(1))
  have nan: "\<not> fl_lt x NaN" for x by (cases x) simp_all
  have parse: "ParseBalanceAndAmount m bal am s2 = (Ok (fst (parse_float64 (parseFloatOther m) bal), NaN), s2)"
    using assms(4,5) by (simp add: ParseBalanceAndAmount_def run wrap_err_def bind_act_def lift_err_def act_defs)
  show ?thesis
    unfolding SendToAddress_def dec
    by (simp only: try_call_run(1) [of "ValidateAddress m ad", OF assms(2)]
        try_call_run(1) [of "CallBtcctlCmd m ''getbalance''", OF assms(3)]
        try_call_run(1) [of "ParseBalanceAndAmount m bal am", OF parse]
        try_call_run(1) [of "CallBtcctlCmd m (''sendtoaddress '' @ ad @ '' '' @ am)", OF assms(6)]
        prod.case nan if_False ret_act_def not_True_eq_False)
qed

subsection \<open>Sessions\<close>

lemma keep_sessions_StartWallet: "act_rel (keeps sessionDB) (StartWallet m)"
  and keep_sessions_Stop: "act_rel (keeps sessionDB) (StopWallet m)" "act_rel (keeps sessionDB) (StopOrcaNet m)"
  and keep_sessions_StartOrcaNet: "act_rel (keeps sessionDB) (StartOrcaNet m a)"
proof -
  have launch: "sessionDB s' = sessionDB s" if "launch m put n p args s = (r, s')"
    "\<And>c t. sessionDB (put c t) = sessionDB t" for put n p args s r s'
    using that(1) by (cases rule: launch_cases) (simp_all add: that(2))
  have down: "sessionDB s' = sessionDB s" if "shut_down m sel put n s = (r, s')"
    "\<And>c t. sessionDB (put c t) = sessionDB t" for sel put n s r s'
    using that(1) by (cases rule: shut_down_cases) (simp_all add: that(2))
  show "act_rel (keeps sessionDB) (StopWallet m)" "act_rel (keeps sessionDB) (StopOrcaNet m)"
    unfolding act_rel_def keeps_def StopWallet_def StopOrcaNet_def
    using down put_fields by (metis prod.collapse)+
  show "act_rel (keeps sessionDB) (StartWallet m)" "act_rel (keeps sessionDB) (StartOrcaNet m a)"
    unfolding StartWallet_def StartOrcaNet_def Let_def getExePath_def
    by (intro keep.rel_cases keep.rel_intros;
        auto simp: act_rel_def keeps_def intro!: launch [OF prod.collapse [symmetric]])+
qed

interpretation sessions: server_frame "keeps sessionDB"
  by unfold_locales (simp_all add: keeps_def)

text \<open>Logging out does not end the session.  Whatever happens during a logout, the session table stays as it
  was; a client that still presents the token of an unexpired session gets past the session check afterwards
  and has the wallet started and unlocked again with the stored password.\<close>

theorem logout_keeps_session:
  assumes "sessionDB s token = Some ss" and "now \<le> s_ExpiresAt ss" and "Logout m t s = (r, s1)"
  shows "RetriveInfo m' w now now' (Some token) s1 =
    try_call (StartWallet m') (\<lambda>_. http_error ''Failed to start wallet. Please create a wallet first.'' 401)
      (\<lambda>_. unlockAndRestart m' (s_Password ss) (time_sub (s_ExpiresAt ss) now') (walletReport m' w)) s1"
proof -
  have "act_rel (keeps sessionDB) (Logout m t)"
    unfolding Logout_def by (intro sessions.sf_try keep_sessions_Stop)
  from keeps_run [OF this assms(3)] assms(1,2) show ?thesis by (simp add: RetriveInfo_def bind_act_run)
qed

text \<open>A restored session unlocks the wallet for nanoseconds read as seconds.  The unlock command of
  \<open>RetriveInfo\<close> carries the remaining time of the session in nanoseconds, where the command, like the one of
  \<open>Login\<close>, expects seconds.\<close>

theorem RetriveInfo_unlocks_in_nanoseconds:
  assumes "sessionDB s token = Some ss" and "now \<le> s_ExpiresAt ss" and "StartWallet m s = (Ok (), s1)"
    and "0 \<le> s_ExpiresAt ss - now'" and "s_ExpiresAt ss - now' < 2 ^ 63"
    and "getwd m = Ok wd" and "\<not> notExist m (join_path [go_dir wd, ''btcd'', ''cmd'', ''btcctl'', ''btcctl''])"
  shows "Btcctl (btcctlFlags @ go_split CHR '' '' (''walletpassphrase '' @ s_Password ss @ '' '' @
      show_int (s_ExpiresAt ss - now'))) \<in> set (trace (snd (RetriveInfo m w now now' (Some token) s)))"
proof -
  let ?c = "unlockCmd (s_Password ss) (s_ExpiresAt ss - now')"
  have sub: "time_sub (s_ExpiresAt ss) now' = s_ExpiresAt ss - now'" using assms(4,5) by (simp add: time_sub_def)
  obtain r2 s2 where c: "CallBtcctlCmd m ?c s1 = (r2, s2)" by fastforce
  have s2: "s2 = did (Btcctl (btcctlFlags @ go_split CHR '' '' ?c)) s1"
    using c assms(6,7)
    by (auto simp: CallBtcctlCmd_def getExePath_def bind_act_def act_defs wrap_err_def Let_def
        split: prod.splits option.splits)
  have "grows s2 (snd (unlockAndRestart m (s_Password ss) (s_ExpiresAt ss - now') (walletReport m w) s1))"
  proof (cases r2)
    case (Ok x)
    have "act_rel grows (try_call (GetMiningAddressFromConfig m) h1 (\<lambda>a. if a = [] then ret_act r0 else
        try_call (StopOrcaNet m) h2 (\<lambda>_. try_call (StartOrcaNet m a) h3 (\<lambda>_. walletReport m w a))))" for h1 r0 h2 h3
      by (intro grow.sf_try grow.sf_plain grow_procs)
    then show ?thesis
      using try_call_run(1) [of "CallBtcctlCmd m ?c", OF c [unfolded Ok]]
      by (simp add: unlockAndRestart_def act_rel_def)
  qed (use c in \<open>simp_all add: unlockAndRestart_def try_call_run grows_def\<close>)
  then have "Btcctl (btcctlFlags @ go_split CHR '' '' ?c) \<in>
      set (trace (snd (unlockAndRestart m (s_Password ss) (s_ExpiresAt ss - now') (walletReport m w) s1)))"
    using s2 by (auto simp: grows_def)
  moreover have "RetriveInfo m w now now' (Some token) s =
      unlockAndRestart m (s_Password ss) (s_ExpiresAt ss - now') (walletReport m w) s1"
    using assms(1,2) try_call_run(1) [of "StartWallet m", OF assms(3)]
    by (simp add: RetriveInfo_def bind_act_run sub)
  ultimately show ?thesis by (simp add: unlockCmd_def)
qed

lemma error_status [simp]: "r_status (http_error e c) = c" "r_status (json_ok c kvs) = c"
  "r_status (with_cookie k r) = r_status r"
  by (simp_all add: http_error_def json_ok_def with_cookie_def)

interpretation orca: server_frame "keeps orcaNetCmd"
  by unfold_locales (simp_all add: keeps_def)

lemma restarted:
  assumes "unlockAndRestart m pw d k s = (Ok r, s')" and "r_status r = 200"
  obtains addr s1 where "k addr s1 = (Ok r, s')" and "sessionDB s1 = sessionDB s"
    and "Btcctl (btcctlFlags @ go_split CHR '' '' (unlockCmd pw d)) \<in> set (trace s1)"
    and "\<exists>c. orcaNetCmd s1 = Some c \<and> c_process c = Running \<and> ''--miningaddr='' @ addr \<in> set (c_args c)"
proof -
  obtain out s2 addr s3 s4 s5 where u: "CallBtcctlCmd m (unlockCmd pw d) s = (Ok out, s2)"
    and a: "GetMiningAddressFromConfig m s2 = (Ok addr, s3)" "addr \<noteq> []"
    and st: "StopOrcaNet m s3 = (Ok (), s4)" and go: "StartOrcaNet m addr s4 = (Ok (), s5)"
    and k: "k addr s5 = (Ok r, s')"
    using assms by (auto simp: unlockAndRestart_def ok_try ok_basic split: if_splits)
  have "sessionDB s5 = sessionDB s"
    using keeps_run [OF sessions.sf_btcctl u] keeps_run [OF sessions.sf_config(2) a(1)]
      keeps_run [OF keep_sessions_Stop(2) st] keeps_run [OF keep_sessions_StartOrcaNet go] by simp
  moreover have "Btcctl (btcctlFlags @ go_split CHR '' '' (unlockCmd pw d)) \<in> set (trace s5)"
  proof -
    have "Btcctl (btcctlFlags @ go_split CHR '' '' (unlockCmd pw d)) \<in> set (trace s2)"
      using u by (cases rule: CallBtcctl_cases) (auto split: option.splits)
    moreover have "grows s2 s3" "grows s3 s4" "grows s4 s5"
      using grow.sf_config(2) a(1) grow_procs(1,3) st go unfolding act_rel_def by (metis snd_conv)+
    ultimately show ?thesis by (auto simp: grows_def)
  qed
  moreover have "\<exists>c. orcaNetCmd s5 = Some c \<and> c_process c = Running \<and> ''--miningaddr='' @ addr \<in> set (c_args c)"
  proof -
    have "orcaNetCmd s4 = None" using st unfolding StopOrcaNet_def by (cases rule: shut_down_cases) simp_all
    then obtain p where "launch m putOrca ''btcd'' p (orcaArgs addr) s4 = (Ok (), s5)"
      using StartOrcaNet_cases [OF go] by (auto simp: has_process_def)
    then show ?thesis using a(2) by (cases rule: launch_cases) (auto simp: orcaArgs_def)
  qed
  ultimately show thesis using that k by blast
qed

text \<open>Logging in.  A login answered with success has unlocked the wallet with the given password, leaves
  btcd running with a mining address, and remembers a session with this password for 24 hours exactly when
  the client asked for it; the cookie carries the session's token.\<close>

theorem Login_success:
  assumes "Login m w token now now' body s = (Ok r, s')" and "r_status r = 200"
  shows "\<exists>pw rem. decodeLogin w body = Ok (pw, rem) \<and>
    Btcctl (btcctlFlags @ go_split CHR '' '' (unlockCmd pw 86400)) \<in> set (trace s') \<and>
    (\<exists>c a. orcaNetCmd s' = Some c \<and> c_process c = Running \<and> ''--miningaddr='' @ a \<in> set (c_args c)) \<and>
    sessionDB s' = (if rem then (sessionDB s)(token \<mapsto>
        \<lparr>s_Password = pw, s_ExpiresAt = now' + 86400000000000\<rparr>) else sessionDB s) \<and>
    (\<exists>e. (''session_token'', token, e) \<in> set (r_cookies r))"
proof -
  obtain pw rem where dec: "decodeLogin w body = Ok (pw, rem)"
    using assms by (cases "decodeLogin w body") (auto simp: Login_def ok_try ok_basic lift_out_def)
  let ?e = "if rem then now' + 86400000000000 else now + 3600000000000"
  let ?upd = "\<lambda>s. if rem then s\<lparr>sessionDB := (sessionDB s)(token \<mapsto> \<lparr>s_Password = pw, s_ExpiresAt = ?e\<rparr>)\<rparr> else s"
  obtain s1 where sw: "StartWallet m s = (Ok (), s1)" and ur: "unlockAndRestart m pw 86400 (\<lambda>addr.
      bind_act (upd_act ?upd) (\<lambda>_. bind_act (walletReport m w addr)
      (\<lambda>r. ret_act (with_cookie (''session_token'', token, ?e) r)))) s1 = (Ok r, s')"
    using assms dec by (auto simp: Login_def ok_try ok_basic Let_def)
  obtain addr s2 where k: "bind_act (upd_act ?upd) (\<lambda>_. bind_act (walletReport m w addr)
      (\<lambda>r. ret_act (with_cookie (''session_token'', token, ?e) r))) s2 = (Ok r, s')"
    and s2: "sessionDB s2 = sessionDB s1" "Btcctl (btcctlFlags @ go_split CHR '' '' (unlockCmd pw 86400)) \<in> set (trace s2)"
    "\<exists>c. orcaNetCmd s2 = Some c \<and> c_process c = Running \<and> ''--miningaddr='' @ addr \<in> set (c_args c)"
    by (rule restarted [OF ur assms(2)])
  obtain r0 where rep: "walletReport m w addr (?upd s2) = (Ok r0, s')"
    and r: "r = with_cookie (''session_token'', token, ?e) r0"
    using k by (auto simp: ok_bind ok_basic)
  have "grows (?upd s2) s'"
    using grow.sf_plain(10) rep unfolding act_rel_def by (metis snd_conv)
  moreover have "trace (?upd s2) = trace s2" "orcaNetCmd (?upd s2) = orcaNetCmd s2" by simp_all
  moreover have "orcaNetCmd s' = orcaNetCmd (?upd s2)" "sessionDB s' = sessionDB (?upd s2)"
    using keeps_run [OF orca.sf_plain(10) rep] keeps_run [OF sessions.sf_plain(10) rep] by blast+
  moreover have "sessionDB s1 = sessionDB s" by (rule keeps_run [OF keep_sessions_StartWallet sw])
  ultimately show ?thesis using dec s2 r by (auto simp: grows_def with_cookie_def)
qed

text \<open>Shutting down after a logout is refused.  A successful logout stops btcwallet; the shutdown request then
  fails because btcwallet is not running, and btcd keeps running.\<close>

theorem shutdown_after_logout_fails:
  assumes "Logout m now s = (Ok r, s1)" and "r_status r = 200"
  shows "Shutdown m' s1 = (Ok (http_error ''Failed to stop btcwallet: btcwallet is not running.'' 500), s1)"
proof -
  obtain out s0 where "CallBtcctlCmd m ''walletlock'' s = (Ok out, s0)" and st: "StopWallet m s0 = (Ok (), s1)"
    using assms by (auto simp: Logout_def ok_bind ok_try ok_basic)
  have "walletCmd s1 = None"
    using st unfolding StopWallet_def by (cases rule: shut_down_cases) simp_all
  then have "StopWallet m' s1 = (Err ''btcwallet is not running.'', s1)"
    by (simp add: StopWallet_def shut_down_def bind_act_run fail_act_def)
  then show ?thesis by (simp add: Shutdown_def try_call_run)
qed

lemma passwordFrom_ok:
  assumes "\<And>i k. rnd i = Ok k \<Longrightarrow> k < length charset"
  shows "passwordFrom rnd i n acc = Ok p \<Longrightarrow> set acc \<subseteq> set charset \<Longrightarrow>
    length p = length acc + n \<and> set p \<subseteq> set charset"
proof (induction n arbitrary: i acc)
  case (Suc n)
  then obtain k where k: "rnd i = Ok k" by (auto split: outcome.splits)
  have "charset ! k \<in> set charset" using assms [OF k] by simp
  then have "set (acc @ [charset ! k]) \<subseteq> set charset" using Suc.prems(2) by (simp del: nth_mem)
  from Suc.IH [OF _ this] Suc.prems(1) k show ?case by auto
qed simp

text \<open>A generated password has the requested length and consists of letters and digits only, when the random
  source answers below its bound of 62; in particular it holds no blank, so it stays one word of the unlock
  command.\<close>

theorem password_shape:
  assumes "\<And>i k. randInt w i = Ok k \<Longrightarrow> k < 62" and "GenerateRandomPassword w n = Ok p"
  shows "length p = n \<and> set p \<subseteq> set charset \<and> go_split CHR '' '' (unlockCmd p 86400) = [''walletpassphrase'', p, ''86400'']"
proof -
  have len: "length charset = 62" by (simp add: charset_def)
  have p: "length p = n \<and> set p \<subseteq> set charset"
    using passwordFrom_ok [of "randInt w" 0 n "[]" p] assms len by (simp add: GenerateRandomPassword_def)
  have "CHR '' '' \<notin> set charset" by (simp add: charset_def)
  with p have "CHR '' '' \<notin> set p" by blast
  moreover have "show_int 86400 = ''86400''" by (simp add: show_int_def show_nat.simps digit_char_def char_of_def bit_0)
  ultimately have "go_split CHR '' '' (p @ '' '' @ show_int 86400) = [p, ''86400'']"
    using split_command [of p "''86400''"] by simp
  then have "go_split CHR '' '' (''walletpassphrase'' @ '' '' @ p @ '' '' @ show_int 86400) =
      [''walletpassphrase'', p, ''86400'']"
    by (subst split_command) simp_all
  then show ?thesis using p by (simp add: unlockCmd_def)
qed

subsection \<open>Concrete requests\<close>

definition demoWeb :: web where
  "demoWeb = \<lparr>decodeLogin = (\<lambda>_. Ok (''pw'', True)), decodeMine = (\<lambda>_. Ok 1), decodeSend = (\<lambda>_. Ok (''1abc'', ''NaN'')),
     decodeTxs = (\<lambda>_. Ok None), decodeObject = (\<lambda>_. Ok []), rfc3339 = (\<lambda>_. ''t''), psOutput = Err ''exit status 1'',
     randInt = (\<lambda>_. Ok 3), listenErr = None\<rparr>"

definition demoQuery :: request where
  "demoQuery = \<lparr>q_path = ''/getMiningAddress'', q_body = [], q_cookie = None, q_token = ''t'', q_now = 0, q_now2 = 0\<rparr>"

theorem one_process_at_a_time_witness:
  "one_process (snd (setupRoutes demoMachine demoWeb demoQuery
     (snd (server_main demoMachine demoWeb (initServer Map.empty)))))"
  by (rule one_process_at_a_time [of "[(demoMachine, demoWeb, demoQuery)]" demoMachine demoWeb Map.empty])
    (intro serves_more serves_none)

lemma demo_call:
  "CallBtcctlCmd demoMachine c s =
     (Ok (if ''validateaddress'' \<in> set (go_split CHR '' '' c) then ''{\"isvalid\": true}'' else ''7''),
      did (Btcctl (btcctlFlags @ go_split CHR '' '' c)) s)"
proof -
  have "trim_space ''{\"isvalid\": true}'' = ''{\"isvalid\": true}''" "trim_space ''7'' = ''7''" by code_simp+
  then show ?thesis
    by (auto simp: CallBtcctlCmd_def getExePath_def bind_act_def act_defs wrap_err_def Let_def demoMachine_def
        btcctlFlags_def)
qed

lemma demo_valid: "\<exists>s1. ValidateAddress demoMachine ''1abc'' s = (Ok True, s1)"
proof -
  have "go_contains ''{\"isvalid\": true}'' (''\"isvalid\": true'')" by code_simp
  then show ?thesis by (simp add: ValidateAddress_def bind_act_def wrap_err_def demo_call ret_act_def)
qed

lemma demo_seven: "snd (parse_float64 (parseFloatOther demoMachine) ''7'') = None"
  by (simp add: demoMachine_def) code_simp

lemma demo_nan: "parse_float64 (parseFloatOther demoMachine) ''NaN'' = (NaN, None)"
  by (simp add: demoMachine_def) code_simp

theorem nan_amount_is_sent_witness:
  "\<exists>s3. SendToAddress demoMachine demoWeb [] demoServer =
     (Ok (json_ok 200 [(''message'', JStr ''Funds sent successfully!''), (''txid'', JStr ''7'')]), s3)"
proof -
  obtain s1 where v: "ValidateAddress demoMachine ''1abc'' demoServer = (Ok True, s1)" using demo_valid by blast
  have d: "decodeSend demoWeb [] = Ok (''1abc'', ''NaN'')" by (simp add: demoWeb_def)
  have b: "CallBtcctlCmd demoMachine ''getbalance'' s1 = (Ok ''7'', did (Btcctl (btcctlFlags @ [''getbalance''])) s1)"
    by (simp add: demo_call)
  obtain s3 where "CallBtcctlCmd demoMachine (''sendtoaddress '' @ ''1abc'' @ '' '' @ ''NaN'')
      (did (Btcctl (btcctlFlags @ [''getbalance''])) s1) = (Ok ''7'', s3)"
    by (simp add: demo_call)
  from nan_amount_is_sent [OF d v b demo_seven demo_nan this] show ?thesis by blast
qed

theorem invalid_recipient_panics_witness:
  "\<exists>e s1. SendToAddress (demoMachine\<lparr>btcctl := (\<lambda>_ _. (''{\"isvalid\": false}'', None))\<rparr>) demoWeb [] demoServer = (Panic e, s1)"
proof -
  have "\<not> go_contains (trim_space ''{\"isvalid\": false}'') (''\"isvalid\": true'')" by code_simp
  then obtain s1 where v: "ValidateAddress (demoMachine\<lparr>btcctl := (\<lambda>_ _. (''{\"isvalid\": false}'', None))\<rparr>) ''1abc'' demoServer
      = (Ok False, s1)"
    by (simp add: ValidateAddress_def CallBtcctlCmd_def getExePath_def bind_act_def act_defs wrap_err_def Let_def
        demoMachine_def)
  have d: "decodeSend demoWeb [] = Ok (''1abc'', ''NaN'')" by (simp add: demoWeb_def)
  from invalid_recipient_panics [OF d v] show ?thesis by blast
qed

lemma demo_valid_run: "ValidateAddress demoMachine ''1abc'' s =
    (Ok True, did (Btcctl (btcctlFlags @ [''validateaddress'', ''1abc''])) s)"
proof -
  have "go_contains ''{\"isvalid\": true}'' (''\"isvalid\": true'')" by code_simp
  then show ?thesis by (simp add: ValidateAddress_def bind_act_def wrap_err_def demo_call ret_act_def)
qed

definition demoPay :: web where
  "demoPay = demoWeb\<lparr>decodeSend := (\<lambda>_. Ok (''1abc'', ''5''))\<rparr>"

lemma demo_send: "trace (snd (SendToAddress demoMachine demoPay [] demoServer)) = trace demoServer @
    [Btcctl (btcctlFlags @ [''validateaddress'', ''1abc'']), Btcctl (btcctlFlags @ [''getbalance'']),
     Btcctl (btcctlFlags @ [''sendtoaddress'', ''1abc'', ''5''])]"
proof -
  have num: "parse_float64 (parseFloatOther demoMachine) ''7'' = (Fin 7, None)"
    "parse_float64 (parseFloatOther demoMachine) ''5'' = (Fin 5, None)" by (simp_all add: demoMachine_def) code_simp+
  then have "ParseBalanceAndAmount demoMachine ''7'' ''5'' t = (Ok (Fin 7, Fin 5), t)" for t
    by (simp add: ParseBalanceAndAmount_def run wrap_err_def bind_act_def lift_err_def act_defs)
  then show ?thesis
    by (simp add: SendToAddress_def try_call_def catch_act_def bind_act_def lift_out_def demoPay_def demo_valid_run
        demo_call ret_act_def)
qed

theorem SendToAddress_checks_funds_witness:
  "\<exists>vout out. btcctl demoMachine 1 (btcctlFlags @ [''validateaddress'', ''1abc'']) = (vout, None) \<and>
     go_contains (trim_space vout) (''\"isvalid\": true'') \<and>
     btcctl demoMachine 2 (btcctlFlags @ [''getbalance'']) = (out, None) \<and>
     snd (parse_float64 (parseFloatOther demoMachine) (trim_space out)) = None"
proof -
  let ?r = "SendToAddress demoMachine demoPay [] demoServer"
  have run: "?r = (fst ?r, snd ?r)" by simp
  have sent: "Btcctl (btcctlFlags @ ''sendtoaddress'' # [''1abc'', ''5'']) \<in>
      set (drop (length (trace demoServer)) (trace (snd ?r)))"
    by (simp add: demo_send)
  have len: "length (trace demoServer) = 1" by (simp add: demoServer_def)
  from SendToAddress_checks_funds [OF run sent] show ?thesis
    by (auto simp: demoPay_def len numeral_2_eq_2)
qed

definition demoSession :: server where
  "demoSession = demoServer\<lparr>sessionDB := [''t'' \<mapsto> \<lparr>s_Password = ''pw'', s_ExpiresAt = 5000000000\<rparr>],
     files := [''/o/btcd/sample-btcd.conf'' \<mapsto> ''miningaddr=1abc''],
     walletCmd := Some \<lparr>c_path = ''/o/btcwallet/btcwallet'', c_args = walletArgs, c_process = Running\<rparr>\<rparr>"

theorem logout_keeps_session_witness:
  "\<exists>s1. snd (Logout demoMachine 9 demoSession) = s1 \<and> RetriveInfo demoMachine demoWeb 4 4 (Some ''t'') s1 =
    try_call (StartWallet demoMachine) (\<lambda>_. http_error ''Failed to start wallet. Please create a wallet first.'' 401)
      (\<lambda>_. unlockAndRestart demoMachine ''pw'' (time_sub 5000000000 4) (walletReport demoMachine demoWeb)) s1"
proof -
  let ?r = "Logout demoMachine 9 demoSession"
  have run: "?r = (fst ?r, snd ?r)" by simp
  have "sessionDB demoSession ''t'' = Some \<lparr>s_Password = ''pw'', s_ExpiresAt = 5000000000\<rparr>"
    by (simp add: demoSession_def)
  from logout_keeps_session [OF this _ run, of 4 demoMachine demoWeb 4] show ?thesis by simp
qed

theorem RetriveInfo_unlocks_in_nanoseconds_witness:
  "Btcctl (btcctlFlags @ [''walletpassphrase'', ''pw'', ''4000000000'']) \<in>
     set (trace (snd (RetriveInfo demoMachine demoWeb 4 1000000000 (Some ''t'') demoSession)))"
proof -
  have st: "StartWallet demoMachine demoSession = (Ok (), demoSession)"
    by (simp add: StartWallet_def bind_act_def act_defs has_process_def demoSession_def)
  have se: "sessionDB demoSession ''t'' = Some \<lparr>s_Password = ''pw'', s_ExpiresAt = 5000000000\<rparr>"
    by (simp add: demoSession_def)
  have "show_int 4000000000 = ''4000000000''" by (simp add: show_int_def show_nat.simps digit_char_def char_of_def bit_0)
  then show ?thesis
    using RetriveInfo_unlocks_in_nanoseconds [OF se _ st, of 4 1000000000 "''/o/server''" demoWeb]
    by (simp add: demoMachine_def)
qed

theorem shutdown_after_logout_fails_witness:
  "\<exists>r s1. Logout demoMachine 9 demoSession = (Ok r, s1) \<and>
    Shutdown demoMachine s1 = (Ok (http_error ''Failed to stop btcwallet: btcwallet is not running.'' 500), s1)"
proof -
  obtain s1 where st: "StopWallet demoMachine (did (Btcctl (btcctlFlags @ go_split CHR '' '' ''walletlock'')) demoSession)
      = (Ok (), s1)"
    by (simp add: StopWallet_def shut_down_def bind_act_def act_defs wrap_err_def ask_def lift_err_def
        demoSession_def demoMachine_def)
  have "\<exists>r. Logout demoMachine 9 demoSession = (Ok r, s1) \<and> r_status r = 200"
    using st by (simp add: Logout_def try_call_def catch_act_def bind_act_def demo_call ret_act_def)
  then obtain r s1 where "Logout demoMachine 9 demoSession = (Ok r, s1)" "r_status r = 200" by blast
  with shutdown_after_logout_fails [OF this, of demoMachine] show ?thesis by blast
qed

lemma demo_login: "\<exists>r s'. Login demoMachine demoWeb ''u'' 0 0 [] demoSession = (Ok r, s') \<and> r_status r = 200"
proof -
  have st: "StartWallet demoMachine demoSession = (Ok (), demoSession)"
    by (simp add: StartWallet_def bind_act_def act_defs has_process_def demoSession_def)
  have addr: "GetMiningAddressFromConfig demoMachine s = (Ok ''1abc'', s)" if "files s = files demoSession" for s
  proof -
    have "find_miningaddr (go_split CHR 0x0A ''miningaddr=1abc'') = ''1abc''" by code_simp
    then show ?thesis
      using that by (simp add: GetMiningAddressFromConfig_def getExePath_def bind_act_def act_defs wrap_err_def
          read_file_def demo_config demoSession_def demoMachine_def)
  qed
  have stop: "\<exists>s1. StopOrcaNet demoMachine s = (Ok (), s1) \<and> orcaNetCmd s1 = None"
    if "orcaNetCmd s = orcaNetCmd demoSession" for s
    using that by (simp add: StopOrcaNet_def shut_down_def bind_act_def act_defs wrap_err_def ask_def lift_err_def
        demoSession_def demoServer_def demoMachine_def)
  have start: "\<exists>s1. StartOrcaNet demoMachine a s = (Ok (), s1)" if "orcaNetCmd s = None" for a s
    using that by (simp add: StartOrcaNet_def launch_def has_process_def getExePath_def bind_act_def act_defs
        wrap_err_def ask_def Let_def demoMachine_def)
  let ?s1 = "did (Btcctl (btcctlFlags @ go_split CHR '' '' (unlockCmd ''pw'' 86400))) demoSession"
  obtain s2 where s2: "StopOrcaNet demoMachine ?s1 = (Ok (), s2)" "orcaNetCmd s2 = None"
    using stop [of ?s1] by auto
  obtain s3 where s3: "StartOrcaNet demoMachine ''1abc'' s2 = (Ok (), s3)" using start [OF s2(2)] by blast
  have "unlockAndRestart demoMachine ''pw'' 86400 k demoSession = k ''1abc'' s3" for k
    unfolding unlockAndRestart_def
    by (simp add: try_call_run(1) [of "CallBtcctlCmd demoMachine (unlockCmd ''pw'' 86400)", OF demo_call]
        try_call_run(1) [of "GetMiningAddressFromConfig demoMachine", OF addr [of ?s1, OF did_fields(5)]]
        try_call_run(1) [of "StopOrcaNet demoMachine", OF s2(1)]
        try_call_run(1) [of "StartOrcaNet demoMachine ''1abc''", OF s3])
  moreover have "\<exists>r s'. walletReport demoMachine demoWeb a s = (Ok r, s') \<and> r_status r = 200" for a s
    by (simp add: walletReport_def try_call_def catch_act_def bind_act_def demo_call ret_act_def lift_out_def
        demoWeb_def)
  ultimately show ?thesis
    by (simp add: Login_def try_call_def catch_act_def bind_act_def lift_out_def demoWeb_def st upd_act_def
        ret_act_def split: prod.split outcome.split) (metis Pair_inject outcome.distinct outcome.inject)
qed

theorem Login_success_witness:
  "\<exists>r s'. Login demoMachine demoWeb ''u'' 0 0 [] demoSession = (Ok r, s') \<and>
     sessionDB s' ''u'' = Some \<lparr>s_Password = ''pw'', s_ExpiresAt = 86400000000000\<rparr>"
proof -
  obtain r s' where run: "Login demoMachine demoWeb ''u'' 0 0 [] demoSession = (Ok r, s')" "r_status r = 200"
    using demo_login by blast
  from Login_success [OF run] show ?thesis using run by (auto simp: demoWeb_def)
qed

theorem password_shape_witness:
  "length ''dddd'' = 4 \<and> set ''dddd'' \<subseteq> set charset"
proof -
  have "GenerateRandomPassword demoWeb 4 = Ok ''dddd''"
    by (simp add: GenerateRandomPassword_def demoWeb_def charset_def numeral_eq_Suc)
  from password_shape [OF _ this] show ?thesis by (simp add: demoWeb_def)
qed

end
