(* ===== verification/Proxy_Node.thy ===== *)
theory Proxy_Node
  imports Go_Floats
begin

text \<open>
  The proxy node (\<open>src/proxy/main.go\<close>): the table of proxies, the DHT records that advertise them, the
  command line, the HTTP and tunnelling proxy with its request log, and the start of the node.  What
  libp2p, the DHT, the JSON encoder, the upstream servers and the file system answer is the record
  \<open>outside\<close>; the DHT and the network may answer differently after each of the node's deeds.
  \<open>log.Fatal\<close> ends the process, as a panic does; a server that listens without an error never returns.
  What the command line prints is kept; the notices and log lines of the start and of the peer connections
  are left out.

  The lemmas show what a tunnel relays and counts, what the log records, that the advertised record is never
  removed, that the command line stops once the node advertises itself, and which errors of the start
  are lost.
\<close>

subsection \<open>State\<close>

record ProxyClient =
  pc_Name :: string
  pc_IP :: string
  pc_Port :: string
  pc_PricePerMB :: int
  pc_IsMine :: bool
  pc_PeerId :: string

record log_entry =
  l_method :: string
  l_url :: string
  l_headers :: "(string \<times> string list) list"
  l_timestamp :: int
  l_bytes :: "(int \<times> int) option"

datatype deed =
    PDial string
  | PReserve
  | PPut string bytes
  | PProvide string
  | PPrint string
  | PListen string
  | PForward string string "(string \<times> string) list"
  | PTcp string
  | PSend string bytes

record proxy =
  clients :: "ProxyClient list"
  requests :: "log_entry list"
  deeds :: "deed list"

record http_request =
  h_method :: string
  h_url :: string
  h_path :: string
  h_host :: string
  h_headers :: "(string \<times> string list) list"

record outside =
  p_nodeID :: string
  p_nodeAddrs :: "string list"
  p_addrErr :: "string \<Rightarrow> string option"
  p_infoErr :: "string \<Rightarrow> string option"
  p_connectErr :: "nat \<Rightarrow> string \<Rightarrow> string option"
  p_reserveErr :: "nat \<Rightarrow> string option"
  p_circuitOk :: "string \<Rightarrow> bool"
  p_relayRawID :: bytes
  p_unjson :: "bytes \<Rightarrow> (string \<times> jval) list \<times> string option"
  p_dhtGet :: "nat \<Rightarrow> string \<Rightarrow> bytes outcome"
  p_dhtPutErr :: "nat \<Rightarrow> string \<Rightarrow> bytes \<Rightarrow> string option"
  p_multihashErr :: "string \<Rightarrow> string option"
  p_provideErr :: "nat \<Rightarrow> string \<Rightarrow> string option"
  p_findProviders :: "string \<Rightarrow> (string \<times> string list) list"
  p_marshal :: "(string \<times> jval) list \<Rightarrow> bytes outcome"
  p_unmarshalClient :: "bytes \<Rightarrow> ProxyClient outcome"
  p_fileBytes :: "string \<Rightarrow> bytes outcome"
  p_hashErr :: "string \<Rightarrow> string option"
  p_sha256hex :: "bytes \<Rightarrow> string"
  p_upper :: "string \<Rightarrow> string"
  p_listenErr :: "string \<Rightarrow> string option"
  p_keyErr :: "string \<Rightarrow> string option"
  p_hostErr :: "string \<Rightarrow> string option"
  p_idOf :: "string \<Rightarrow> string"
  p_newDhtErr :: "string option"
  p_bootstrapErr :: "string option"

definition deed :: "deed \<Rightarrow> proxy \<Rightarrow> proxy" where
  "deed d s = s\<lparr>deeds := deeds s @ [d]\<rparr>"

definition say :: "string \<Rightarrow> (proxy, unit) act" where
  "say t = upd_act (deed (PPrint t))"

definition line :: "string \<Rightarrow> (proxy, unit) act" where
  "line t = say (t @ [CHR 0x0A])"

definition quoted :: "string \<Rightarrow> string" where
  "quoted t = [CHR 0x27] @ t @ [CHR 0x27]"

text \<open>\<open>at_n f\<close> asks the outside with the number of deeds so far.\<close>

definition at_n :: "(nat \<Rightarrow> string option) \<Rightarrow> (proxy, unit) act" where
  "at_n f s = (case f (length (deeds s)) of None \<Rightarrow> (Ok (), s) | Some e \<Rightarrow> (Err e, s))"

subsection \<open>The table of proxies\<close>

definition NewProxyClientsTable :: "ProxyClient list" where
  "NewProxyClientsTable = []"

definition AddProxyClient :: "string \<Rightarrow> string \<Rightarrow> string \<Rightarrow> bool \<Rightarrow> string \<Rightarrow> proxy \<Rightarrow> proxy" where
  "AddProxyClient name ip port isMine peerid s =
    s\<lparr>clients := clients s @ [\<lparr>pc_Name = name, pc_IP = ip, pc_Port = port, pc_PricePerMB = 0,
      pc_IsMine = isMine, pc_PeerId = peerid\<rparr>]\<rparr>"

definition showProxy :: "nat \<Rightarrow> ProxyClient \<Rightarrow> string" where
  "showProxy i c = show_nat (i + 1) @ '': '' @ pc_Name c @ '' (IP: '' @ pc_IP c @ '', Port: '' @ pc_Port c @ '')''"

definition ListProxies :: "(proxy, unit) act" where
  "ListProxies =
    bind_act (line ''Available proxies:'') (\<lambda>_.
    bind_act (get_act clients) (\<lambda>cs.
    fold (\<lambda>i m. bind_act m (\<lambda>_. line (showProxy i (cs ! i)))) [0..<length cs] (ret_act ())))"

fun GetProxyClient :: "string \<Rightarrow> ProxyClient list \<Rightarrow> ProxyClient option" where
  "GetProxyClient proxyID [] = None"
| "GetProxyClient proxyID (c # cs) = (if pc_Name c = proxyID then Some c else GetProxyClient proxyID cs)"

definition GetAllProxies :: "proxy \<Rightarrow> ProxyClient list" where
  "GetAllProxies s = clients s"

subsection \<open>The DHT\<close>

definition proxy_Validate :: "string \<Rightarrow> bytes \<Rightarrow> string option" where
  "proxy_Validate key val = (if length val = 0 then Some (''value for key '' @ key @ '' is empty'') else None)"

definition proxy_Select :: "string \<Rightarrow> bytes list \<Rightarrow> int \<times> string option" where
  "proxy_Select key vals = (0, None)"

definition dht_get :: "outside \<Rightarrow> string \<Rightarrow> (proxy, bytes) act" where
  "dht_get x key s = (p_dhtGet x (length (deeds s)) key, s)"

definition dht_put :: "outside \<Rightarrow> string \<Rightarrow> bytes \<Rightarrow> (proxy, unit) act" where
  "dht_put x key val =
    bind_act (at_n (\<lambda>n. p_dhtPutErr x n key val)) (\<lambda>_. upd_act (deed (PPut key val)))"

definition proxy_provideKey :: "outside \<Rightarrow> string \<Rightarrow> (proxy, unit) act" where
  "proxy_provideKey x key =
    bind_act (wrap_err ''error encoding multihash: '' (lift_err (p_multihashErr x key))) (\<lambda>_.
    bind_act (wrap_err ''failed to start providing key: '' (at_n (\<lambda>n. p_provideErr x n key))) (\<lambda>_.
    upd_act (deed (PProvide key))))"

definition hashFile :: "outside \<Rightarrow> string \<Rightarrow> (proxy, string) act" where
  "hashFile x filePath =
    bind_act (wrap_err ''failed to open file: '' (lift_out (p_fileBytes x filePath))) (\<lambda>content.
    bind_act (wrap_err ''failed to hash file: '' (lift_err (p_hashErr x filePath))) (\<lambda>_.
    ret_act (p_sha256hex x content)))"

definition GetProxy :: "outside \<Rightarrow> string \<Rightarrow> (proxy, ProxyClient) act" where
  "GetProxy x proxyName =
    bind_act (wrap_err ''failed to get proxy: '' (dht_get x (''/proxy-providers/'' @ proxyName))) (\<lambda>val.
    wrap_err ''failed to unmarshal proxy data: '' (lift_out (p_unmarshalClient x val)))"

subsection \<open>Peers\<close>

definition relay_node_addr :: string where
  "relay_node_addr =
    ''/ip4/130.245.173.221/tcp/4001/p2p/12D3KooWDpJ7As7BWAwRMfu1VU2WCqNjvq387JEYKDBj4kx6nXTN''"

definition bootstrap_node_addr :: string where
  "bootstrap_node_addr =
    ''/ip4/130.245.173.222/tcp/61020/p2p/12D3KooWM8uovScE5NPihSCKhXe8sbgdJAi88i2aXT2MmwjGWoSX''"

definition connectToPeer :: "outside \<Rightarrow> string \<Rightarrow> (proxy, unit) act" where
  "connectToPeer x peerAddr = ignore_err
    (bind_act (lift_err (p_addrErr x peerAddr)) (\<lambda>_.
     bind_act (lift_err (p_infoErr x peerAddr)) (\<lambda>_.
     bind_act (upd_act (deed (PDial peerAddr))) (\<lambda>_.
     at_n (\<lambda>n. p_connectErr x n peerAddr)))))"

definition proxy_makeReservation :: "outside \<Rightarrow> (proxy, unit) act" where
  "proxy_makeReservation x =
    bind_act (recover_err
      (\<lambda>e. panic_act (''Failed to create addrInfo from string representation of relay multiaddr: '' @ e))
      (lift_err (p_infoErr x relay_node_addr))) (\<lambda>_.
    bind_act (recover_err (\<lambda>e. panic_act (''Failed to make reservation on relay: '' @ e))
      (at_n (p_reserveErr x))) (\<lambda>_.
    upd_act (deed PReserve)))"

definition connectToPeerUsingRelay :: "outside \<Rightarrow> string \<Rightarrow> (proxy, unit) act" where
  "connectToPeerUsingRelay x targetPeerID =
    (let tid = trim_space targetPeerID in
     if p_addrErr x relay_node_addr \<noteq> None then
       panic_act ''runtime error: invalid memory address or nil pointer dereference''
     else if \<not> p_circuitOk x tid then panic_act (''failed to parse multiaddr /p2p-circuit/p2p/'' @ tid)
     else ignore_err
       (bind_act (lift_err (p_infoErr x (''/p2p-circuit/p2p/'' @ tid))) (\<lambda>_.
        bind_act (upd_act (deed (PDial tid))) (\<lambda>_. at_n (\<lambda>n. p_connectErr x n tid)))))"

definition peersOf :: "(string \<times> jval) list \<Rightarrow> jval list" where
  "peersOf d = (case map_of d ''known_peers'' of Some (JArr ps) \<Rightarrow> ps | _ \<Rightarrow> [])"

fun dialAnnounced :: "outside \<Rightarrow> jval list \<Rightarrow> (proxy, unit) act" where
  "dialAnnounced x [] = ret_act ()"
| "dialAnnounced x (j # js) =
    bind_act (line ''Peer:'') (\<lambda>_.
    bind_act (case j of
        JObj kvs \<Rightarrow> (case map_of kvs ''peer_id'' of
            Some (JStr p) \<Rightarrow> if p \<noteq> p_relayRawID x then connectToPeerUsingRelay x p else ret_act ()
          | _ \<Rightarrow> ret_act ())
      | _ \<Rightarrow> ret_act ())
      (\<lambda>_. dialAnnounced x js))"

definition handlePeerExchange :: "outside \<Rightarrow> string \<Rightarrow> (proxy, unit) act" where
  "handlePeerExchange x msg = dialAnnounced x (peersOf (fst (p_unjson x (trim_space msg))))"

subsection \<open>The proxy server\<close>

definition logRequest :: "log_entry \<Rightarrow> proxy \<Rightarrow> proxy" where
  "logRequest e s = (if l_url e = ''/favicon.ico'' then s else s\<lparr>requests := requests s @ [e]\<rparr>)"

text \<open>The answer of a handler: the status it has written and the bytes of the body.\<close>

record answer =
  a_status :: int
  a_body :: bytes

text \<open>\<open>handleHTTP\<close>: \<open>newReq\<close> is the error of \<open>http.NewRequest\<close>, \<open>upstream\<close> the answer to the forwarded
  request, with the part of its body that was read and the error that ended the copy.  The handler writes no
  status of its own before the body, so the server sends 200.\<close>

definition handleHTTP ::
  "int \<Rightarrow> string option \<Rightarrow> (int \<times> bytes \<times> string option) outcome \<Rightarrow> http_request \<Rightarrow> (proxy, answer) act" where
  "handleHTTP now newReq upstream r = (case newReq of
      Some e \<Rightarrow> ret_act \<lparr>a_status = 500, a_body = []\<rparr>
    | None \<Rightarrow>
        bind_act (upd_act (logRequest \<lparr>l_method = h_method r, l_url = h_url r, l_headers = h_headers r,
          l_timestamp = now, l_bytes = None\<rparr>)) (\<lambda>_.
        bind_act (upd_act (deed (PForward (h_method r) (h_url r)
          (concat (map (\<lambda>(k, vs). map (\<lambda>v. (k, v)) vs) (h_headers r)))))) (\<lambda>_.
        bind_act (catch_act (lift_out upstream)) (\<lambda>u. case u of
          Inl e \<Rightarrow> ret_act \<lparr>a_status = 500, a_body = []\<rparr>
        | Inr (status, body, err) \<Rightarrow>
            ret_act \<lparr>a_status = (if err \<noteq> None \<and> body = [] then 500 else 200), a_body = body\<rparr>))))"

text \<open>\<open>transfer\<close>: the reads of the source, each with its bytes and error; writing the i-th piece fails with
  \<open>werr i\<close>.  The result is the bytes written and their count; a source that neither ends nor delivers keeps
  the transfer waiting.\<close>

fun transfer :: "(nat \<Rightarrow> string option) \<Rightarrow> nat \<Rightarrow> (bytes \<times> string option) list \<Rightarrow> bytes \<Rightarrow> int \<Rightarrow> (bytes \<times> int) option"
where
  "transfer werr i [] out n = None"
| "transfer werr i ((b, e) # rs) out n =
    (if b \<noteq> [] then
       (case werr i of
          Some _ \<Rightarrow> Some (out, n)
        | None \<Rightarrow> (if e \<noteq> None then Some (out @ b, wrap64 (n + int (length b)))
                   else transfer werr (Suc i) rs (out @ b) (wrap64 (n + int (length b)))))
     else if e \<noteq> None then Some (out, n) else transfer werr i rs out n)"

text \<open>\<open>handleTunnel\<close>: \<open>dial\<close> and \<open>hijack\<close> are the errors of connecting to the destination and of taking over the
  client's connection (\<open>Inl\<close> when the writer is no hijacker), \<open>up\<close> and \<open>down\<close> the two directions of the
  relay, each with its write errors and reads.\<close>

definition handleTunnel ::
  "int \<Rightarrow> int \<Rightarrow> string option \<Rightarrow> unit + string option \<Rightarrow> (nat \<Rightarrow> string option) \<times> (bytes \<times> string option) list
    \<Rightarrow> (nat \<Rightarrow> string option) \<times> (bytes \<times> string option) list \<Rightarrow> http_request \<Rightarrow> (proxy, answer) act" where
  "handleTunnel now now' dial hijack up down r =
    bind_act (upd_act (logRequest \<lparr>l_method = h_method r, l_url = h_path r, l_headers = h_headers r,
      l_timestamp = now, l_bytes = None\<rparr>)) (\<lambda>_.
    if h_path r = ''/favicon.ico'' then ret_act \<lparr>a_status = 204, a_body = []\<rparr>
    else
      bind_act (upd_act (deed (PTcp (h_host r)))) (\<lambda>_.
      case dial of
        Some e \<Rightarrow> ret_act \<lparr>a_status = 503, a_body = e @ [CHR 0x0A]\<rparr>
      | None \<Rightarrow> (case hijack of
          Inl _ \<Rightarrow> ret_act \<lparr>a_status = 200, a_body = ''webserver doesn'' @ [CHR 0x27] @ ''t support hijacking'' @ [CHR 0x0A]\<rparr>
        | Inr (Some e) \<Rightarrow> ret_act \<lparr>a_status = 200, a_body = e @ [CHR 0x0A]\<rparr>
        | Inr None \<Rightarrow>
            (case (transfer (fst up) 0 (snd up) [] 0, transfer (fst down) 0 (snd down) [] 0) of
               (Some (toServer, n1), Some (toClient, n2)) \<Rightarrow>
                 bind_act (upd_act (deed (PSend (h_host r) toServer))) (\<lambda>_.
                 bind_act (upd_act (logRequest \<lparr>l_method = h_method r, l_url = h_url r, l_headers = h_headers r,
                   l_timestamp = now', l_bytes = Some (n1, n2)\<rparr>)) (\<lambda>_.
                 ret_act \<lparr>a_status = 200, a_body = toClient\<rparr>))
             | _ \<Rightarrow> blocked_act))))"

definition getLoggedRequests :: "(log_entry list \<Rightarrow> bytes outcome) \<Rightarrow> (proxy, answer) act" where
  "getLoggedRequests encode =
    bind_act (get_act requests) (\<lambda>rs.
    bind_act (catch_act (lift_out (encode rs))) (\<lambda>b. case b of
      Inl _ \<Rightarrow> ret_act \<lparr>a_status = 500, a_body = ''Failed to encode requests'' @ [CHR 0x0A]\<rparr>
    | Inr bs \<Rightarrow> ret_act \<lparr>a_status = 200, a_body = bs\<rparr>))"

subsection \<open>The command line\<close>

definition cmd_get :: "outside \<Rightarrow> string \<Rightarrow> (proxy, unit) act" where
  "cmd_get x key =
    bind_act (catch_act (dht_get x (''/orcanet/'' @ key))) (\<lambda>r. case r of
      Inl e \<Rightarrow> line (''Failed to get record: '' @ e)
    | Inr res \<Rightarrow>
        bind_act (line (''Response: '' @ res)) (\<lambda>_.
        bind_act (line (''Peer 1 ID: '' @ p_nodeID x)) (\<lambda>_.
        bind_act (line (''Peer 1 Listening on: ['' @ go_join '' '' (p_nodeAddrs x) @ '']'')) (\<lambda>_.
        line ''File received successfully.''))))"

fun listProviders :: "(string \<times> string list) list \<Rightarrow> (proxy, unit) act" where
  "listProviders [] = ret_act ()"
| "listProviders ((p, addrs) # ps) =
    (if p = [] then ret_act ()
     else bind_act (line (''Found provider: '' @ p)) (\<lambda>_.
          bind_act (fold (\<lambda>a m. bind_act m (\<lambda>_. line ('' - Address: '' @ a))) addrs (ret_act ()))
            (\<lambda>_. listProviders ps)))"

definition cmd_get_providers :: "outside \<Rightarrow> string \<Rightarrow> (proxy, unit) act" where
  "cmd_get_providers x key = (case p_multihashErr x key of
      Some e \<Rightarrow> line (''Error encoding multihash: '' @ e)
    | None \<Rightarrow> bind_act (line ''Searching for providers...'') (\<lambda>_. listProviders (p_findProviders x key)))"

text \<open>The record a proxy is advertised with, and the keys of the three commands that use it.\<close>

definition proxyRecord :: "string \<Rightarrow> ProxyClient \<Rightarrow> (string \<times> jval) list" where
  "proxyRecord pid c = [(''peerID'', JStr pid), (''ip'', JStr (pc_IP c)), (''port'', JStr (pc_Port c))]"

definition advertiseKey :: "ProxyClient \<Rightarrow> string" where
  "advertiseKey c = ''/orcanet/proxies/'' @ pc_IP c"

definition removeKey :: "ProxyClient \<Rightarrow> string" where
  "removeKey c = ''/orcanet/proxies/'' @ pc_IP c @ '':'' @ pc_Port c"

definition otherKey :: "ProxyClient \<Rightarrow> string" where
  "otherKey c = ''/orcanet/proxies/'' @ pc_IP c @ pc_Port c"

text \<open>The look-up before a record is stored: an existing record is reported, an error other than \<open>not found\<close>
  gives the proxy up.\<close>

datatype found = Existing | Missing | Failed string

definition lookFirst :: "outside \<Rightarrow> string \<Rightarrow> (proxy, found) act" where
  "lookFirst x key =
    bind_act (catch_act (dht_get x key)) (\<lambda>old. case old of
      Inr v \<Rightarrow> ret_act Existing
    | Inl e \<Rightarrow> ret_act (if go_contains e ''routing: not found'' then Missing else Failed e))"

text \<open>\<open>serve\<close> is \<open>log.Fatal(http.ListenAndServe(addr, ...))\<close>.\<close>

definition serve :: "outside \<Rightarrow> string \<Rightarrow> (proxy, unit) act" where
  "serve x addr = (case p_listenErr x addr of
      Some e \<Rightarrow> panic_act e
    | None \<Rightarrow> bind_act (upd_act (deed (PListen addr))) (\<lambda>_. blocked_act))"

text \<open>\<open>ADVERTISE_ME\<close>: after the record is stored and read back, the node serves as a proxy and the command never
  returns.\<close>

definition advertiseRecord :: "outside \<Rightarrow> ProxyClient \<Rightarrow> (proxy, unit) act" where
  "advertiseRecord x c =
    bind_act (line (''Your peer ID is: '' @ p_nodeID x)) (\<lambda>_.
    bind_act (catch_act (lift_out (p_marshal x (proxyRecord (p_nodeID x) c)))) (\<lambda>j.
    bind_act (line (''Your PROVIDER RECORD '' @ (case j of Inl _ \<Rightarrow> [] | Inr bs \<Rightarrow> bs))) (\<lambda>_. case j of
      Inl e \<Rightarrow> line (''Failed to serialize provider record for 'mine': '' @ e)
    | Inr bs \<Rightarrow>
        bind_act (catch_act (dht_put x (advertiseKey c) bs)) (\<lambda>p. case p of
          Inl e \<Rightarrow> line (''Failed to advertise proxy '' @ quoted (advertiseKey c) @ '' in the DHT: '' @ e)
        | Inr _ \<Rightarrow>
            bind_act (catch_act (dht_get x (advertiseKey c))) (\<lambda>u. case u of
              Inl e \<Rightarrow> line (''Error retrieving value for key '' @ advertiseKey c @ '' after putting it in DHT: '' @ e)
            | Inr v \<Rightarrow>
                if v = [] then line (''The DHT key '' @ advertiseKey c @ '' was overwritten with an empty value.'')
                else bind_act (line (''Successfully advertised your proxy 'mine' in the DHT with key: '' @ advertiseKey c))
                       (\<lambda>_. serve x '':8081''))))))"

definition cmd_advertise_me :: "outside \<Rightarrow> (proxy, unit) act" where
  "cmd_advertise_me x =
    bind_act (get_act (\<lambda>s. GetProxyClient ''mine'' (clients s))) (\<lambda>mine. case mine of
      None \<Rightarrow> line ''No proxy with the name 'mine' found''
    | Some c \<Rightarrow>
        bind_act (line (''Starting proxy '' @ quoted (pc_Name c) @ '' with Peer ID '' @ pc_PeerId c @ '' on '' @ pc_IP c @ '':'' @
          pc_Port c @ ''...'')) (\<lambda>_.
        bind_act (lookFirst x (advertiseKey c)) (\<lambda>f. case f of
          Failed e \<Rightarrow> ret_act ()
        | Missing \<Rightarrow> advertiseRecord x c
        | Existing \<Rightarrow>
            bind_act (line (''Proxy '' @ pc_Name c @ '' is already in the DHT with key: '' @ advertiseKey c @
              ''. Overwriting...'')) (\<lambda>_. advertiseRecord x c))))"

definition cmd_remove_proxy :: "outside \<Rightarrow> (proxy, unit) act" where
  "cmd_remove_proxy x =
    bind_act (get_act (\<lambda>s. GetProxyClient ''mine'' (clients s))) (\<lambda>mine. case mine of
      None \<Rightarrow> line ''No proxy with the name 'mine' found''
    | Some c \<Rightarrow>
        bind_act (catch_act (dht_put x (removeKey c) [])) (\<lambda>p. case p of
          Inl e \<Rightarrow> line (''Failed to remove proxy '' @ quoted (removeKey c) @ '' from the DHT: '' @ e)
        | Inr _ \<Rightarrow> line (''Successfully removed proxy 'mine' from the DHT with key: '' @ removeKey c)))"

definition advertiseOne :: "outside \<Rightarrow> ProxyClient \<Rightarrow> (proxy, unit) act" where
  "advertiseOne x c =
    (if pc_IsMine c then ret_act ()
     else
       bind_act (lookFirst x (otherKey c)) (\<lambda>f. case f of
         Existing \<Rightarrow> line (''Proxy '' @ pc_Name c @ '' is already in the DHT with key: '' @ otherKey c)
       | Failed e \<Rightarrow> ret_act ()
       | Missing \<Rightarrow>
           ignore_err
             (bind_act (lift_out (p_marshal x [(''name'', JStr (pc_Name c)), (''ip'', JStr (pc_IP c)),
                (''port'', JStr (pc_Port c))])) (\<lambda>bs.
              bind_act (dht_put x (otherKey c) bs) (\<lambda>_.
              line (''Proxy '' @ pc_Name c @ '' advertised successfully with key: '' @ otherKey c))))))"

fun advertiseAll :: "outside \<Rightarrow> ProxyClient list \<Rightarrow> (proxy, unit) act" where
  "advertiseAll x [] = ret_act ()"
| "advertiseAll x (c # cs) = bind_act (advertiseOne x c) (\<lambda>_. advertiseAll x cs)"

definition cmd_advertise_proxy :: "outside \<Rightarrow> (proxy, unit) act" where
  "cmd_advertise_proxy x = bind_act (get_act GetAllProxies) (\<lambda>cs. advertiseAll x cs)"

definition cmd_put :: "outside \<Rightarrow> string \<Rightarrow> (proxy, unit) act" where
  "cmd_put x filePath =
    bind_act (catch_act (hashFile x filePath)) (\<lambda>h. case h of
      Inl e \<Rightarrow> line (''Error calculating file hash: '' @ e)
    | Inr hash \<Rightarrow>
        (case p_marshal x [(''peerID'', JStr (p_nodeID x)), (''addrs'', JArr (map JStr (p_nodeAddrs x)))] of
           Ok bs \<Rightarrow>
             bind_act (catch_act (dht_put x (''/orcanet/'' @ hash) bs)) (\<lambda>p. case p of
               Inl e \<Rightarrow> ret_act ()
             | Inr _ \<Rightarrow>
                 bind_act (catch_act (proxy_provideKey x hash)) (\<lambda>q. case q of
                   Inl e \<Rightarrow> line (''Failed to provide key: '' @ e)
                 | Inr _ \<Rightarrow> line (''Record stored successfully with key: '' @ ''/orcanet/'' @ hash @ '' and value : '' @
                     p_nodeID x)))
         | Err e \<Rightarrow> ret_act ()
         | Panic e \<Rightarrow> panic_act e
         | Blocked \<Rightarrow> blocked_act))"

definition proxy_command :: "outside \<Rightarrow> string \<Rightarrow> (proxy, unit) act" where
  "proxy_command x input =
    (let args = go_split CHR '' '' (trim_space input); command = to_upper (p_upper x) (hd args) in
     if command = ''GET'' then (if length args < 2 then line ''Expected key'' else cmd_get x (args ! 1))
     else if command = ''GET_PROVIDERS'' then
       (if length args < 2 then line ''Expected key'' else cmd_get_providers x (args ! 1))
     else if command = ''ADVERTISE_ME'' then cmd_advertise_me x
     else if command = ''REMOVE_PROXY'' then cmd_remove_proxy x
     else if command = ''ADVERTISE_PROXY'' then cmd_advertise_proxy x
     else if command = ''PUT'' then (if length args < 2 then line ''Expected file path'' else cmd_put x (args ! 1))
     else if command = ''PUT_PROVIDER'' then
       (if length args < 2 then line ''Expected key'' else ignore_err (proxy_provideKey x (args ! 1)))
     else line ''Expected GET, GET_PROVIDERS, PUT or PUT_PROVIDER'')"

fun inputLoop :: "outside \<Rightarrow> string list \<Rightarrow> (proxy, unit) act" where
  "inputLoop x [] = bind_act (say ''> '') (\<lambda>_. blocked_act)"
| "inputLoop x (l # ls) =
    bind_act (say ''> '') (\<lambda>_. bind_act (proxy_command x l) (\<lambda>_. inputLoop x ls))"

definition proxy_handleInput :: "outside \<Rightarrow> string list \<Rightarrow> (proxy, unit) act" where
  "proxy_handleInput x lines = bind_act (say (''User Input '' @ [CHR 0x0A] @ '' '')) (\<lambda>_. inputLoop x lines)"

subsection \<open>Choosing a proxy\<close>

text \<open>\<open>connectToProxy\<close>: up to five dials, then one message and one answer; \<open>dials\<close>, \<open>sendErr\<close> and \<open>reply\<close> are what
  the network does.  The local server the function starts listens on an address without a port and never
  comes up.\<close>

fun dialRetry :: "string \<Rightarrow> (nat \<Rightarrow> string option) \<Rightarrow> nat \<Rightarrow> (proxy, string option) act" where
  "dialRetry addr dials 0 = ret_act None"
| "dialRetry addr dials (Suc k) =
    bind_act (upd_act (deed (PTcp addr))) (\<lambda>_. case dials k of
      None \<Rightarrow> ret_act None
    | Some e \<Rightarrow>
        bind_act (line ''Retrying connection to proxy...'') (\<lambda>_.
        if k = 0 then ret_act (Some e) else dialRetry addr dials k))"

definition connectTail :: "string option \<Rightarrow> bytes outcome \<Rightarrow> ProxyClient \<Rightarrow> string option \<Rightarrow> (proxy, unit) act" where
  "connectTail sendErr reply c e = (let address = pc_IP c @ '':'' @ pc_Port c in case e of
       Some e \<Rightarrow> line (''Failed to connect to proxy: '' @ e)
     | None \<Rightarrow>
         bind_act (line (''Successfully connected to proxy '' @ pc_Name c @ '' at '' @ address)) (\<lambda>_.
         case sendErr of
           Some e \<Rightarrow> line (''Failed to send data to proxy: '' @ e)
         | None \<Rightarrow>
             bind_act (upd_act (deed (PSend address ''Hello from the client!''))) (\<lambda>_.
             bind_act (line ''Message sent to proxy.'') (\<lambda>_.
             bind_act (catch_act (lift_out reply)) (\<lambda>r. case r of
               Inl e \<Rightarrow> line (''Failed to read from proxy: '' @ e)
             | Inr bs \<Rightarrow> line (''Received response from proxy: '' @ take 1024 bs))))))"

definition connectToProxy ::
  "(nat \<Rightarrow> string option) \<Rightarrow> string option \<Rightarrow> bytes outcome \<Rightarrow> ProxyClient \<Rightarrow> (proxy, unit) act" where
  "connectToProxy dials sendErr reply c =
    (let address = pc_IP c @ '':'' @ pc_Port c in
     bind_act (line ''Comes to connect proxy function and starting proxy'') (\<lambda>_.
     bind_act (line ''Proxy server is ready and running...'') (\<lambda>_.
     bind_act (line ''Attempting to connect to the proxy...'') (\<lambda>_.
     bind_act (dialRetry address dials 5) (connectTail sendErr reply c)))))"

definition chooseProxy ::
  "int \<Rightarrow> (nat \<Rightarrow> string option) \<Rightarrow> string option \<Rightarrow> bytes outcome \<Rightarrow> (proxy, unit) act" where
  "chooseProxy choice dials sendErr reply =
    bind_act ListProxies (\<lambda>_.
    bind_act (say ''Choose a proxy by entering its number: '') (\<lambda>_.
    bind_act (get_act clients) (\<lambda>cs.
    if choice < 1 \<or> choice > int (length cs) then line ''Invalid choice!''
    else
      let sel = cs ! nat (choice - 1) in
      bind_act (line (''You selected proxy: '' @ pc_Name sel @ '' (IP: '' @ pc_IP sel @ '', Port: '' @ pc_Port sel @ '')''))
        (\<lambda>_. connectToProxy dials sendErr reply sel))))"

subsection \<open>Start\<close>

text \<open>The nodes: \<open>createNode\<close> returns an error for some failures and ends the process for others.\<close>

definition proxy_generateKey :: "outside \<Rightarrow> string \<Rightarrow> (proxy, unit) act" where
  "proxy_generateKey x seed = wrap_err ''failed to generate private key: '' (lift_err (p_keyErr x seed))"

definition createNode2 :: "outside \<Rightarrow> string \<Rightarrow> (proxy, unit) act" where
  "createNode2 x seed =
    bind_act (wrap_err ''failed to parse multiaddr: '' (lift_err (p_addrErr x ''/ip4/0.0.0.0/tcp/0''))) (\<lambda>_.
    bind_act (recover_err panic_act (proxy_generateKey x seed)) (\<lambda>_.
    bind_act (recover_err (\<lambda>e. panic_act (''Failed to create relay multiaddr: '' @ e))
      (lift_err (p_addrErr x relay_node_addr))) (\<lambda>_.
    bind_act (recover_err (\<lambda>e. panic_act (''Failed to create AddrInfo from relay multiaddr: '' @ e))
      (lift_err (p_infoErr x relay_node_addr))) (\<lambda>_.
    lift_err (p_hostErr x seed)))))"

definition proxy_createNode :: "outside \<Rightarrow> (proxy, unit) act" where
  "proxy_createNode x =
    bind_act (createNode2 x ''114644332'') (\<lambda>_.
    bind_act (lift_err (p_newDhtErr x)) (\<lambda>_. lift_err (p_bootstrapErr x)))"

text \<open>\<open>main\<close> itself: the proxies it starts run beside it (\<open>startProxy\<close>), \<open>lines\<close> is what is typed.  The error of \<open>createNode\<close> and of
  the first \<open>createNode2\<close> is overwritten by that of the second; using the missing node then panics.\<close>

definition proxy_main :: "outside \<Rightarrow> string list \<Rightarrow> (proxy, unit) act" where
  "proxy_main x lines =
    bind_act (catch_act (proxy_createNode x)) (\<lambda>n1.
    bind_act (catch_act (createNode2 x ''113455924'')) (\<lambda>n2.
    bind_act (catch_act (createNode2 x ''113455920'')) (\<lambda>n3. case n3 of
      Inl e \<Rightarrow> panic_act (''Failed to create node: '' @ e)
    | Inr _ \<Rightarrow>
        if (\<exists>e. n1 = Inl e) then panic_act ''runtime error: invalid memory address or nil pointer dereference''
        else
          bind_act (connectToPeer x relay_node_addr) (\<lambda>_.
          bind_act (proxy_makeReservation x) (\<lambda>_.
          bind_act (connectToPeer x bootstrap_node_addr) (\<lambda>_.
          if (\<exists>e. n2 = Inl e) then panic_act ''runtime error: invalid memory address or nil pointer dereference''
          else bind_act (upd_act (\<lambda>s. AddProxyClient ''mine'' ''127.0.0.1'' ''8081'' True (p_nodeID x)
                 (AddProxyClient ''proxy2'' ''127.0.0.1'' ''8084'' False (p_idOf x ''113455920'')
                 (AddProxyClient ''proxy1'' ''127.0.0.1'' ''8085'' False (p_idOf x ''113455924'') s)))) (\<lambda>_.
          bind_act (get_act (\<lambda>s. GetProxyClient ''mine'' (clients s))) (\<lambda>mine. case mine of
            None \<Rightarrow> line ''No proxy with the name 'mine' found''
          | Some _ \<Rightarrow> proxy_handleInput x lines))))))))"

text \<open>The goroutine of each proxy that is not the node's own; it ends the process when it cannot listen.\<close>

definition startProxy :: "outside \<Rightarrow> ProxyClient \<Rightarrow> (proxy, unit) act" where
  "startProxy x c =
    (if pc_IsMine c then ret_act ()
     else
       bind_act (line (''Starting proxy '' @ quoted (pc_Name c) @ '' with Peer ID '' @ pc_PeerId c @ '' on '' @ pc_IP c @
         '':'' @ pc_Port c @ ''...'')) (\<lambda>_.
       bind_act (catch_act (lift_out (p_marshal x (proxyRecord (pc_PeerId c) c)))) (\<lambda>j.
       bind_act (line (''Your PROVIDER RECORD IN MAIN '' @ (case j of Inl _ \<Rightarrow> [] | Inr bs \<Rightarrow> bs))) (\<lambda>_. case j of
         Inl e \<Rightarrow> ret_act ()
       | Inr bs \<Rightarrow>
           bind_act (line (''Starting proxy '' @ quoted (pc_Name c) @ '' on '' @ pc_IP c @ '':'' @ pc_Port c @ ''...''))
             (\<lambda>_. serve x (pc_IP c @ '':'' @ pc_Port c))))))"

subsection \<open>Relaying\<close>

lemma transfer_prefix:
  "transfer werr i rs out n = Some (out', n') \<Longrightarrow> wrap64 n = n \<Longrightarrow>
   \<exists>w rest. out' = out @ w \<and> concat (map fst rs) = w @ rest \<and> n' = wrap64 (n + int (length w))"
proof (induction werr i rs out n rule: transfer.induct)
  case (2 werr i b e rs out n)
  show ?case
  proof (cases "b = [] \<or> werr i \<noteq> None \<or> e \<noteq> None")
    case True
    then show ?thesis using 2 by (auto split: if_splits option.splits)
  next
    case False
    have w: "wrap64 (wrap64 (n + int (length b))) = wrap64 (n + int (length b))"
      using wrap64_add [of _ 0] by simp
    from False have "transfer werr (Suc i) rs (out @ b) (wrap64 (n + int (length b))) = Some (out', n')"
      using "2.prems" by auto
    from "2.IH"(1) [OF _ _ _ this w] False obtain w rest where "out' = (out @ b) @ w"
      "concat (map fst rs) = w @ rest" "n' = wrap64 (wrap64 (n + int (length b)) + int (length w))" by auto
    then show ?thesis by (intro exI [of _ "b @ w"] exI [of _ rest]) (simp add: wrap64_add add.assoc)
  qed
qed simp

text \<open>A tunnel relays faithfully.  Whatever one direction of a tunnel has written when it ends is an initial
  part of what it has read, in order, and the count it reports is the number of these bytes.\<close>

theorem transfer_faithful:
  assumes "transfer werr 0 rs [] 0 = Some (out, n)" and "length (concat (map fst rs)) < 2 ^ 63"
  shows "\<exists>rest. concat (map fst rs) = out @ rest \<and> n = int (length out)"
proof -
  have "wrap64 0 = 0" by (simp add: wrap64_id)
  then obtain w rest where w: "out = w" "concat (map fst rs) = w @ rest" "n = wrap64 (int (length w))"
    using transfer_prefix [OF assms(1)] by auto
  then have "int (length w) < 2 ^ 63" using assms(2) by simp
  then have "wrap64 (int (length w)) = int (length w)" by (intro wrap64_id) auto
  with w show ?thesis by simp
qed

text \<open>A direction that is read to its end without write errors relays everything.\<close>

lemma transfer_complete:
  assumes "\<And>i. werr i = None"
  shows "\<forall>r \<in> set pre. snd r = None \<Longrightarrow>
    transfer werr i (pre @ [(b, Some e)]) out n =
      Some (out @ concat (map fst pre) @ b, (if concat (map fst pre) @ b = [] then n
        else wrap64 (n + int (length (concat (map fst pre) @ b)))))"
proof (induction pre arbitrary: i out n)
  case Nil
  then show ?case using assms by auto
next
  case (Cons r pre)
  obtain c where r: "r = (c, None)" using Cons.prems by (cases r) auto
  show ?case
  proof (cases "c = []")
    case True
    with Cons r show ?thesis by simp
  next
    case False
    have "transfer werr i ((r # pre) @ [(b, Some e)]) out n =
        transfer werr (Suc i) (pre @ [(b, Some e)]) (out @ c) (wrap64 (n + int (length c)))"
      using False r assms by simp
    also have "\<dots> = Some ((out @ c) @ concat (map fst pre) @ b,
        wrap64 (n + int (length (c @ concat (map fst pre) @ b))))"
    proof (cases "concat (map fst pre) @ b = []")
      case True
      then have "length (concat (map fst pre) @ b) = 0" by simp
      then have "length (c @ concat (map fst pre) @ b) = length c" by simp
      moreover have "transfer werr (Suc i) (pre @ [(b, Some e)]) (out @ c) (wrap64 (n + int (length c))) =
          Some ((out @ c) @ concat (map fst pre) @ b, wrap64 (n + int (length c)))"
        using Cons.IH [of "Suc i" "out @ c"] Cons.prems True by (simp only: if_True) simp
      ultimately show ?thesis by (simp only:)
    next
      case False
      with Cons.IH [of "Suc i" "out @ c"] Cons.prems show ?thesis by (auto simp: wrap64_add add.assoc)
    qed
    finally show ?thesis using r False by simp
  qed
qed

text \<open>A completed tunnel is accounted for.  When both sides are read to their ends and no write fails, the
  destination gets exactly the client's bytes and the client the destination's, and the log gains the opening
  entry and a closing entry with the two byte counts.\<close>

theorem tunnel_accounts:
  assumes "\<And>i. wu i = None" and "\<And>i. wd i = None" and "\<forall>r \<in> set up. snd r = None" and "\<forall>r \<in> set dn. snd r = None"
    and "int (length (concat (map fst up) @ bu)) < 2 ^ 63" and "int (length (concat (map fst dn) @ bd)) < 2 ^ 63"
    and "h_path r \<noteq> ''/favicon.ico''" and "h_url r \<noteq> ''/favicon.ico''"
  shows "handleTunnel now now' None (Inr None) (wu, up @ [(bu, Some eu)]) (wd, dn @ [(bd, Some ed)]) r s =
    (Ok \<lparr>a_status = 200, a_body = concat (map fst dn) @ bd\<rparr>,
     s\<lparr>deeds := deeds s @ [PTcp (h_host r), PSend (h_host r) (concat (map fst up) @ bu)],
       requests := requests s @
         [\<lparr>l_method = h_method r, l_url = h_path r, l_headers = h_headers r, l_timestamp = now, l_bytes = None\<rparr>,
          \<lparr>l_method = h_method r, l_url = h_url r, l_headers = h_headers r, l_timestamp = now',
           l_bytes = Some (int (length (concat (map fst up) @ bu)), int (length (concat (map fst dn) @ bd)))\<rparr>]\<rparr>)"
proof -
  have count: "(if bs = [] then 0 else wrap64 (0 + int (length bs))) = int (length bs)"
    if "int (length bs) < 2 ^ 63" for bs :: bytes
    using that by (subst wrap64_id) auto
  have u: "transfer wu 0 (up @ [(bu, Some eu)]) [] 0 = Some (concat (map fst up) @ bu, int (length (concat (map fst up) @ bu)))"
    by (subst transfer_complete [of wu, OF assms(1,3)]) (simp only: count [OF assms(5)] append_Nil)
  have d: "transfer wd 0 (dn @ [(bd, Some ed)]) [] 0 = Some (concat (map fst dn) @ bd, int (length (concat (map fst dn) @ bd)))"
    by (subst transfer_complete [of wd, OF assms(2,4)]) (simp only: count [OF assms(6)] append_Nil)
  show ?thesis
    using assms(7,8)
    by (simp add: handleTunnel_def u d bind_act_run ret_act_def logRequest_def deed_def)
qed

text \<open>The upstream's status is lost.  Whatever status the upstream server answers a forwarded request with,
  the client of the proxy gets the body with status 200.\<close>

theorem upstream_status_is_lost:
  "fst (handleHTTP now None (Ok (status, body, None)) r s) = Ok \<lparr>a_status = 200, a_body = body\<rparr>"
  by (simp add: handleHTTP_def bind_act_run catch_act_def lift_out_def bind_act_def ret_act_def upd_act_def)

subsection \<open>Advertising\<close>

lemma line_run:
  "line t s = (Ok (), deed (PPrint (t @ [CHR 0x0A])) s)"
  "bind_act (line t) f s = f () (deed (PPrint (t @ [CHR 0x0A])) s)"
  by (simp_all add: line_def say_def upd_act_def bind_act_def)

text \<open>What the DHT client documents: it refuses to store a value that the configured validator rejects.\<close>

definition put_validates :: "outside \<Rightarrow> bool" where
  "put_validates x \<longleftrightarrow> (\<forall>n k v. proxy_Validate k v \<noteq> None \<longrightarrow> p_dhtPutErr x n k v \<noteq> None)"

text \<open>An advertised proxy is never removed.  \<open>REMOVE_PROXY\<close> tries to store an empty value, which the node's own
  validator rejects, so it stores nothing and reports a failure; and the key it tries is not the one the
  proxy was advertised under.\<close>

theorem remove_proxy_never_removes:
  assumes "put_validates x" and "GetProxyClient ''mine'' (clients s) = Some c"
  shows "removeKey c \<noteq> advertiseKey c \<and> (\<exists>e. cmd_remove_proxy x s = (Ok (),
    deed (PPrint ((''Failed to remove proxy '' @ quoted (removeKey c) @ '' from the DHT: '' @ e) @ [CHR 0x0A])) s))"
proof -
  obtain e where "p_dhtPutErr x (length (deeds s)) (removeKey c) [] = Some e"
    using assms(1) by (force simp: put_validates_def proxy_Validate_def)
  then have put: "catch_act (dht_put x (removeKey c) []) s = (Ok (Inl e), s)"
    by (simp add: dht_put_def at_n_def catch_act_def bind_act_def)
  have "removeKey c \<noteq> advertiseKey c" by (simp add: removeKey_def advertiseKey_def)
  moreover have "cmd_remove_proxy x s = (Ok (), deed (PPrint ((''Failed to remove proxy '' @ quoted (removeKey c) @
      '' from the DHT: '' @ e) @ [CHR 0x0A])) s)"
    by (simp only: cmd_remove_proxy_def bind_act_run assms(2) option.case sum.case line_run
        bind_act_apply(1) [of "catch_act (dht_put x (removeKey c) [])", OF put])
  ultimately show ?thesis by blast
qed

lemma command_advertise_me: "proxy_command x ''ADVERTISE_ME'' = cmd_advertise_me x"
proof -
  have "trim_space ''ADVERTISE_ME'' = ''ADVERTISE_ME''" by code_simp
  moreover have "go_split CHR '' '' ''ADVERTISE_ME'' = [''ADVERTISE_ME'']" by code_simp
  moreover have "to_upper (p_upper x) ''ADVERTISE_ME'' = ''ADVERTISE_ME''"
  proof -
    have "is_ascii ''ADVERTISE_ME''" "map upper_char ''ADVERTISE_ME'' = ''ADVERTISE_ME''" by code_simp+
    then show ?thesis by (simp only: to_upper_def if_True)
  qed
  ultimately show ?thesis by (simp add: proxy_command_def)
qed

text \<open>Advertising ends the command line.  Let the look-up of \<open>ADVERTISE_ME\<close> find a record or report that there is none, the
  new record be stored, and the look-up after that return a record.  Then the node listens on port 8081 and no
  later line of the input is read.\<close>

theorem advertise_me_ends_input:
  assumes "GetProxyClient ''mine'' (clients s) = Some c"
    and "\<And>n. n \<le> length (deeds s) + 2 \<Longrightarrow> (\<exists>u. p_dhtGet x n (advertiseKey c) = Ok u) \<or>
      (\<exists>e. p_dhtGet x n (advertiseKey c) = Err e \<and> go_contains e ''routing: not found'')"
    and "\<And>n. n > length (deeds s) + 2 \<Longrightarrow> p_dhtGet x n (advertiseKey c) = Ok v" and "v \<noteq> []"
    and "p_marshal x (proxyRecord (p_nodeID x) c) = Ok bs" and "\<And>n. p_dhtPutErr x n (advertiseKey c) bs = None"
    and "p_listenErr x '':8081'' = None"
  shows "\<exists>s'. \<forall>ls. inputLoop x (''ADVERTISE_ME'' # ls) s = (Blocked, s') \<and> last (deeds s') = PListen '':8081'' \<and>
    PPut (advertiseKey c) bs \<in> set (deeds s')"
proof -
  have get: "catch_act (dht_get x (advertiseKey c)) t = (Ok (Inr v), t)" if "length (deeds t) > length (deeds s) + 2" for t
    using assms(3) [OF that] by (simp add: dht_get_def catch_act_def lift_out_def bind_act_def get_act_def)
  have put: "catch_act (dht_put x (advertiseKey c) bs) t = (Ok (Inr ()), deed (PPut (advertiseKey c) bs) t)" for t
    using assms(6) by (simp add: dht_put_def at_n_def catch_act_def bind_act_def upd_act_def)
  have mar: "catch_act (lift_out (p_marshal x (proxyRecord (p_nodeID x) c))) t = (Ok (Inr bs), t)" for t
    using assms(5) by (simp add: catch_act_def lift_out_def)
  have srv: "serve x '':8081'' t = (Blocked, deed (PListen '':8081'') t)" for t
    using assms(7) by (simp add: serve_def bind_act_def upd_act_def blocked_act_def)
  note steps = line_run option.case sum.case found.case if_False assms(4)
    bind_act_apply(1) [of "catch_act (dht_put x (advertiseKey c) bs)", OF put]
    bind_act_apply(1) [of "catch_act (lift_out (p_marshal x (proxyRecord (p_nodeID x) c)))", OF mar]
  have rec: "\<exists>t'. advertiseRecord x c t = (Blocked, t') \<and> last (deeds t') = PListen '':8081'' \<and>
      PPut (advertiseKey c) bs \<in> set (deeds t')" if "length (deeds t) \<ge> length (deeds s) + 2" for t
  proof -
    let ?t = "deed (PPut (advertiseKey c) bs) (deed (PPrint ((''Your PROVIDER RECORD '' @ bs) @ [CHR 0x0A]))
      (deed (PPrint ((''Your peer ID is: '' @ p_nodeID x) @ [CHR 0x0A])) t))"
    have "length (deeds ?t) > length (deeds s) + 2" using that by (simp add: deed_def)
    note reread = bind_act_apply(1) [of "catch_act (dht_get x (advertiseKey c))", OF get [OF this]]
    show ?thesis by (simp only: advertiseRecord_def steps reread srv) (simp add: deed_def)
  qed
  let ?s = "deed (PPrint ''> '') s"
  let ?u = "deed (PPrint ((''Starting proxy '' @ quoted (pc_Name c) @ '' with Peer ID '' @ pc_PeerId c @ '' on '' @ pc_IP c @ '':'' @
          pc_Port c @ ''...'') @ [CHR 0x0A])) ?s"
  have len: "length (deeds ?u) = length (deeds s) + 2" by (simp add: deed_def)
  have mine: "GetProxyClient ''mine'' (clients ?s) = Some c" using assms(1) by (simp add: deed_def)
  have "lookFirst x (advertiseKey c) ?u \<in> {(Ok Existing, ?u), (Ok Missing, ?u)}"
    using assms(2) [of "length (deeds ?u)"] len
    by (auto simp: lookFirst_def dht_get_def catch_act_def bind_act_def ret_act_def)
  then consider (old) "lookFirst x (advertiseKey c) ?u = (Ok Existing, ?u)" | (new) "lookFirst x (advertiseKey c) ?u = (Ok Missing, ?u)"
    by blast
  then have "\<exists>s'. cmd_advertise_me x ?s = (Blocked, s') \<and> last (deeds s') = PListen '':8081'' \<and>
      PPut (advertiseKey c) bs \<in> set (deeds s')"
  proof cases
    case old
    let ?w = "deed (PPrint ((''Proxy '' @ pc_Name c @ '' is already in the DHT with key: '' @ advertiseKey c @
              ''. Overwriting...'') @ [CHR 0x0A])) ?u"
    have "cmd_advertise_me x ?s = advertiseRecord x c ?w"
      by (simp only: cmd_advertise_me_def bind_act_run mine line_run option.case found.case
          bind_act_apply(1) [of "lookFirst x (advertiseKey c)", OF old])
    moreover have "length (deeds ?w) \<ge> length (deeds s) + 2" by (simp add: deed_def)
    ultimately show ?thesis using rec by metis
  next
    case new
    have "cmd_advertise_me x ?s = advertiseRecord x c ?u"
      by (simp only: cmd_advertise_me_def bind_act_run mine line_run option.case found.case
          bind_act_apply(1) [of "lookFirst x (advertiseKey c)", OF new])
    then show ?thesis using rec [of ?u] len by simp
  qed
  then obtain s' where me: "cmd_advertise_me x ?s = (Blocked, s')" and "last (deeds s') = PListen '':8081''"
      "PPut (advertiseKey c) bs \<in> set (deeds s')" by blast
  moreover have "inputLoop x (''ADVERTISE_ME'' # ls) s = (Blocked, s')" for ls
    unfolding inputLoop.simps command_advertise_me say_def bind_act_run by (rule bind_act_apply(4) [of "cmd_advertise_me x", OF me])
  ultimately show ?thesis by blast
qed

subsection \<open>The start of the node\<close>

lemma createNode2_ok:
  assumes "p_addrErr x = (\<lambda>_. None)" and "p_infoErr x = (\<lambda>_. None)" and "p_keyErr x = (\<lambda>_. None)"
  shows "createNode2 x seed s = (case p_hostErr x seed of None \<Rightarrow> (Ok (), s) | Some e \<Rightarrow> (Err e, s))"
  using assms by (simp add: createNode2_def proxy_generateKey_def lift_err_def wrap_err_def recover_err_def bind_act_def
      ret_act_def fail_act_def split: option.split)

text \<open>An error of the start is lost.  When the node itself cannot be set up because its DHT cannot be created,
  but the two nodes that stand for other proxies can, the error is overwritten before it is checked and the
  program panics on the missing node instead of reporting it.\<close>

theorem start_error_is_lost:
  assumes "p_addrErr x = (\<lambda>_. None)" and "p_infoErr x = (\<lambda>_. None)" and "p_keyErr x = (\<lambda>_. None)"
    and "p_hostErr x = (\<lambda>_. None)" and "p_newDhtErr x = Some e"
  shows "proxy_createNode x s = (Err e, s) \<and>
    proxy_main x lines s = (Panic ''runtime error: invalid memory address or nil pointer dereference'', s)"
proof
  have two: "createNode2 x seed s = (Ok (), s)" for seed using createNode2_ok [OF assms(1-3)] assms(4) by simp
  show one: "proxy_createNode x s = (Err e, s)"
    using assms(5) by (simp add: proxy_createNode_def bind_act_apply(1) [of "createNode2 x _", OF two] bind_act_run)
  have c1: "catch_act (proxy_createNode x) s = (Ok (Inl e), s)" using one by (simp add: catch_act_def)
  have c2: "catch_act (createNode2 x seed) s = (Ok (Inr ()), s)" for seed using two by (simp add: catch_act_def)
  show "proxy_main x lines s = (Panic ''runtime error: invalid memory address or nil pointer dereference'', s)"
    unfolding proxy_main_def bind_act_apply(1) [of "catch_act (proxy_createNode x)", OF c1]
      bind_act_apply(1) [of "catch_act (createNode2 x _)", OF c2] sum.case
    by (simp add: panic_act_def)
qed

text \<open>The steps that add only deeds with a property form a frame.\<close>

interpretation quietly: frame_relation "\<lambda>s s'. \<exists>d. deeds s' = deeds s @ d \<and> filter P d = []" for P
proof (unfold_locales, goal_cases)
  case (2 s t u)
  then obtain d e where "deeds u = deeds s @ (d @ e)" "filter P (d @ e) = []" by auto
  then show ?case by blast
qed simp

lemma dialRetry_run:
  "\<exists>r s' d. dialRetry addr dials k s = (Ok r, s') \<and> deeds s' = deeds s @ d \<and>
     length (filter (\<lambda>a. a = PTcp addr) d) \<le> k \<and> (\<forall>a \<in> set d. a = PTcp addr \<or> (\<exists>m. a = PPrint m)) \<and>
     ((\<forall>i < k. dials i \<noteq> None) \<and> 0 < k \<longrightarrow> r \<noteq> None)"
proof (induction k arbitrary: s)
  case 0
  then show ?case by (simp add: ret_act_def)
next
  case (Suc k)
  show ?case
  proof (cases "dials k")
    case None
    then have "dialRetry addr dials (Suc k) s = (Ok None, deed (PTcp addr) s)"
      by (simp add: bind_act_run ret_act_def)
    with None show ?thesis by (auto simp: deed_def)
  next
    case (Some e)
    let ?s = "deed (PPrint (''Retrying connection to proxy...'' @ [CHR 0x0A])) (deed (PTcp addr) s)"
    have step: "dialRetry addr dials (Suc k) s = (if k = 0 then ret_act (Some e) else dialRetry addr dials k) ?s"
      using Some by (simp add: bind_act_run line_run del: append_Cons)
    show ?thesis
    proof (cases "k = 0")
      case True
      with step have "dialRetry addr dials (Suc k) s = (Ok (Some e), ?s)" by (simp add: ret_act_def)
      then show ?thesis by (auto simp: deed_def)
    next
      case False
      obtain r s' d where run': "dialRetry addr dials k ?s = (Ok r, s')" and
        d: "deeds s' = deeds ?s @ d" "length (filter (\<lambda>a. a = PTcp addr) d) \<le> k"
          "\<forall>a \<in> set d. a = PTcp addr \<or> (\<exists>m. a = PPrint m)" "(\<forall>i < k. dials i \<noteq> None) \<and> 0 < k \<longrightarrow> r \<noteq> None"
        using Suc.IH [of ?s] by blast
      have run: "dialRetry addr dials (Suc k) s = (Ok r, s')" using step run' False by (simp only: if_False)
      let ?d = "PTcp addr # PPrint (''Retrying connection to proxy...'' @ [CHR 0x0A]) # d"
      have "deeds s' = deeds s @ ?d" using d(1) by (simp add: deed_def)
      moreover have "length (filter (\<lambda>a. a = PTcp addr) ?d) \<le> Suc k" using d(2) by simp
      moreover have "\<forall>a \<in> set ?d. a = PTcp addr \<or> (\<exists>m. a = PPrint m)" using d(3) by auto
      moreover have "(\<forall>i < Suc k. dials i \<noteq> None) \<and> 0 < Suc k \<longrightarrow> r \<noteq> None" using d(4) False by simp
      ultimately show ?thesis using run by blast
    qed
  qed
qed

lemma connectTail_run:
  "\<exists>q s' d. connectTail sendErr reply c r s = (q, s') \<and> deeds s' = deeds s @ d \<and>
     filter (\<lambda>a. a = PTcp (pc_IP c @ '':'' @ pc_Port c)) d = [] \<and>
     (r \<noteq> None \<longrightarrow> q = Ok () \<and> (\<forall>a m. PSend a m \<notin> set d))"
proof (cases r)
  case None
  have "act_rel (\<lambda>s s'. \<exists>d. deeds s' = deeds s @ d \<and> filter (\<lambda>a. a = PTcp (pc_IP c @ '':'' @ pc_Port c)) d = [])
      (connectTail sendErr reply c None)"
    unfolding connectTail_def Let_def option.case line_def say_def
    by (intro quietly.rel_intros quietly.rel_cases quietly.rel_upd) (auto simp: deed_def)
  then show ?thesis unfolding act_rel_def using None by (metis prod.collapse)
next
  case (Some e)
  then show ?thesis by (simp add: connectTail_def line_run deed_def)
qed

text \<open>Connecting to a proxy gives up.  Whatever the network does, \<open>connectToProxy\<close> dials at most five times; when
  no dial succeeds it returns and sends nothing.\<close>

theorem connectToProxy_gives_up:
  "\<exists>r s' d. connectToProxy dials sendErr reply c s = (r, s') \<and> deeds s' = deeds s @ d \<and>
     length (filter (\<lambda>a. a = PTcp (pc_IP c @ '':'' @ pc_Port c)) d) \<le> 5 \<and>
     ((\<forall>i < 5. dials i \<noteq> None) \<longrightarrow> r = Ok () \<and> (\<forall>a m. PSend a m \<notin> set d))"
proof -
  let ?a = "pc_IP c @ '':'' @ pc_Port c"
  define says where "says ts = map (\<lambda>t. PPrint (t @ [CHR 0x0A])) ts" for ts
  define t where "t = s\<lparr>deeds := deeds s @ says [''Comes to connect proxy function and starting proxy'',
    ''Proxy server is ready and running...'', ''Attempting to connect to the proxy...'']\<rparr>"
  have t: "t = deed (PPrint (''Attempting to connect to the proxy...'' @ [CHR 0x0A]))
      (deed (PPrint (''Proxy server is ready and running...'' @ [CHR 0x0A]))
      (deed (PPrint (''Comes to connect proxy function and starting proxy'' @ [CHR 0x0A])) s))"
    by (simp add: t_def says_def deed_def)
  have quiet: "filter (\<lambda>a. a = PTcp ?a) (says ts) = []" "PSend a m \<notin> set (says ts)" for ts a m
    by (auto simp: says_def filter_empty_conv)
  obtain r u d where dial: "dialRetry ?a dials 5 t = (Ok r, u)" and
    d: "deeds u = deeds t @ d" "length (filter (\<lambda>a. a = PTcp ?a) d) \<le> 5"
      "\<forall>a \<in> set d. a = PTcp ?a \<or> (\<exists>m. a = PPrint m)" "(\<forall>i < 5. dials i \<noteq> None) \<and> 0 < (5::nat) \<longrightarrow> r \<noteq> None"
    using dialRetry_run [of ?a dials 5 t] by blast
  have run: "connectToProxy dials sendErr reply c s = connectTail sendErr reply c r u"
    by (simp only: connectToProxy_def Let_def line_run t [symmetric] bind_act_apply(1) [of "dialRetry ?a dials 5", OF dial])
  obtain q v e where tail: "connectTail sendErr reply c r u = (q, v)" "deeds v = deeds u @ e" 
      "filter (\<lambda>a. a = PTcp ?a) e = []" "r \<noteq> None \<longrightarrow> q = Ok () \<and> (\<forall>a m. PSend a m \<notin> set e)"
    using connectTail_run [of sendErr reply c r u] by blast
  have v: "deeds v = deeds s @ (says [''Comes to connect proxy function and starting proxy'',
      ''Proxy server is ready and running...'', ''Attempting to connect to the proxy...'']) @ d @ e"
    using d(1) tail(2) by (simp add: t_def)
  have none: "PSend a m \<notin> set d" for a m using d(3) by blast
  let ?d = "says [''Comes to connect proxy function and starting proxy'', ''Proxy server is ready and running...'',
      ''Attempting to connect to the proxy...''] @ d @ e"
  have "length (filter (\<lambda>a. a = PTcp ?a) ?d) \<le> 5" using d(2) tail(3) by (simp only: filter_append quiet(1)) simp
  moreover have "q = Ok () \<and> (\<forall>a m. PSend a m \<notin> set ?d)" if "\<forall>i < 5. dials i \<noteq> None"
    using that d(4) tail(4) none quiet(2) by (simp only: set_append Un_iff) simp
  ultimately show ?thesis using run tail(1) v by (metis (no_types, lifting))
qed

subsection \<open>Examples\<close>

definition demoOutside :: outside where
  "demoOutside = \<lparr>p_nodeID = ''me'', p_nodeAddrs = [], p_addrErr = (\<lambda>_. None), p_infoErr = (\<lambda>_. None),
    p_connectErr = (\<lambda>_ _. None), p_reserveErr = (\<lambda>_. None), p_circuitOk = (\<lambda>_. True), p_relayRawID = [],
    p_unjson = (\<lambda>_. ([], None)), p_dhtGet = (\<lambda>_ _. Ok ''rec''),
    p_dhtPutErr = (\<lambda>_ k v. proxy_Validate k v), p_multihashErr = (\<lambda>_. None), p_provideErr = (\<lambda>_ _. None),
    p_findProviders = (\<lambda>_. []), p_marshal = (\<lambda>_. Ok ''{}''), p_unmarshalClient = (\<lambda>_. Err ''no''),
    p_fileBytes = (\<lambda>_. Err ''no''), p_hashErr = (\<lambda>_. None), p_sha256hex = (\<lambda>_. []), p_upper = id,
    p_listenErr = (\<lambda>_. None), p_keyErr = (\<lambda>_. None), p_hostErr = (\<lambda>_. None), p_idOf = id,
    p_newDhtErr = Some ''no dht'', p_bootstrapErr = None\<rparr>"

definition demoMine :: ProxyClient where
  "demoMine = \<lparr>pc_Name = ''mine'', pc_IP = ''127.0.0.1'', pc_Port = ''8081'', pc_PricePerMB = 0, pc_IsMine = True,
    pc_PeerId = ''me''\<rparr>"

definition demoProxy :: proxy where
  "demoProxy = \<lparr>clients = [demoMine], requests = [], deeds = []\<rparr>"

definition demoConnect :: http_request where
  "demoConnect = \<lparr>h_method = ''CONNECT'', h_url = ''//a:443'', h_path = [], h_host = ''a:443'', h_headers = []\<rparr>"

theorem transfer_faithful_witness:
  "\<exists>rest. concat (map fst [(''ab'', None), (''c'', Some ''EOF'')]) = ''abc'' @ rest \<and> (3::int) = int (length ''abc'')"
proof -
  have "transfer (\<lambda>_. None) 0 [(''ab'', None), (''c'', Some ''EOF'')] [] 0 = Some (''abc'', 3)"
    by (simp add: wrap64_def)
  from transfer_faithful [OF this] show ?thesis by simp
qed

theorem tunnel_accounts_witness:
  "l_bytes (last (requests (snd (handleTunnel 5 6 None (Inr None) (\<lambda>_. None, [(''ab'', None), (''c'', Some ''EOF'')])
     (\<lambda>_. None, [(''d'', Some ''EOF'')]) demoConnect demoProxy)))) = Some (3, 1)"
  using tunnel_accounts [of "\<lambda>_. None" "\<lambda>_. None" "[(''ab'', None)]" "[]" "''c''" "''d''" demoConnect 5 6 "''EOF''" "''EOF''"
      demoProxy]
  by (simp add: demoConnect_def demoProxy_def)

theorem remove_proxy_never_removes_witness:
  "put_validates demoOutside \<and> removeKey demoMine \<noteq> advertiseKey demoMine \<and>
    (\<exists>e. cmd_remove_proxy demoOutside demoProxy = (Ok (), deed (PPrint ((''Failed to remove proxy '' @
      quoted (removeKey demoMine) @ '' from the DHT: '' @ e) @ [CHR 0x0A])) demoProxy))"
proof -
  have v: "put_validates demoOutside" by (simp add: put_validates_def demoOutside_def)
  have c: "GetProxyClient ''mine'' (clients demoProxy) = Some demoMine" by (simp add: demoProxy_def demoMine_def)
  from remove_proxy_never_removes [OF v c] v show ?thesis by blast
qed

text \<open>A first advertisement: there is no record until the node has stored its own.\<close>

theorem advertise_me_ends_input_witness:
  "\<exists>s'. \<forall>ls. inputLoop (demoOutside\<lparr>p_dhtGet := (\<lambda>n _. if n \<le> 2 then Err ''routing: not found'' else Ok ''rec'')\<rparr>)
      (''ADVERTISE_ME'' # ls) demoProxy = (Blocked, s') \<and>
    last (deeds s') = PListen '':8081'' \<and> PPut (advertiseKey demoMine) ''{}'' \<in> set (deeds s')"
proof -
  have "go_contains ''routing: not found'' ''routing: not found''" by code_simp
  then show ?thesis
    by (intro advertise_me_ends_input [where v = "''rec''"])
      (simp_all add: demoProxy_def demoMine_def demoOutside_def proxy_Validate_def)
qed

theorem start_error_is_lost_witness:
  "proxy_createNode demoOutside demoProxy = (Err ''no dht'', demoProxy) \<and> proxy_main demoOutside [] demoProxy =
    (Panic ''runtime error: invalid memory address or nil pointer dereference'', demoProxy)"
  by (rule start_error_is_lost) (simp_all add: demoOutside_def)

theorem connectToProxy_gives_up_witness:
  "\<exists>s' d. connectToProxy (\<lambda>_. Some ''refused'') None (Ok []) demoMine demoProxy = (Ok (), s') \<and>
     deeds s' = deeds demoProxy @ d \<and> length (filter (\<lambda>a. a = PTcp ''127.0.0.1:8081'') d) \<le> 5"
  using connectToProxy_gives_up [of "\<lambda>_. Some ''refused''" None "Ok []" demoMine demoProxy]
  by (auto simp: demoMine_def)

end
