(* ===== verification/Coin_Treap.thy ===== *)
theory Coin_Treap
  imports Go_Floats "HOL-Library.Word" "HOL-Library.Char_ord" "HOL-Library.List_Lexorder"
begin

text \<open>
  The ordered key/value store under the coin node's block database
  (\<open>src/btcd/database/internal/treap\<close>): the parent stack (\<open>common.go\<close>) and the mutable treap (\<open>mutable.go\<close>).
  A node is a value; the path the code keeps as a stack of parents, comparing
  pointers to see on which side a child hangs, is a list of frames that record the side.  The priorities
  come from \<open>rand.Int()\<close> and are an argument.  A nil value slice is \<open>None\<close>.

  The lemmas show that the parent stack is a stack, that every operation keeps the search-tree order, the
  item count and the size, that the treap implements finite maps over any sequence of operations, and that
  insertion keeps the heap order and deletion breaks it.
\<close>

subsection \<open>Comparing keys\<close>

fun bytesCompare :: "bytes \<Rightarrow> bytes \<Rightarrow> int" where
  "bytesCompare [] [] = 0"
| "bytesCompare [] (b # bs) = - 1"
| "bytesCompare (a # as) [] = 1"
| "bytesCompare (a # as) (b # bs) =
    (if of_char a < (of_char b :: nat) then - 1 else if of_char b < (of_char a :: nat) then 1
     else bytesCompare as bs)"

lemma char_eq_iff_nat: "a = b \<longleftrightarrow> (of_char a :: nat) = of_char b" for a b :: char
  by simp

lemma bytesCompare_iff:
  "bytesCompare x y < 0 \<longleftrightarrow> x < y" "0 < bytesCompare x y \<longleftrightarrow> y < x"
  by (induction x y rule: bytesCompare.induct) (auto simp: less_char_def)

subsection \<open>Nodes\<close>

datatype treapNode = TNil
  | TNode (left: treapNode) (key: bytes) (val: bytes) (priority: int) (right: treapNode)
where
  "left TNil = TNil"
| "right TNil = TNil"

definition nodeFieldsSize :: nat where
  "nodeFieldsSize = 72"

definition nodeSize :: "bytes \<Rightarrow> bytes \<Rightarrow> 64 word" where
  "nodeSize k v = of_nat nodeFieldsSize + of_nat (length k + length v)"

definition newTreapNode :: "bytes \<Rightarrow> bytes \<Rightarrow> int \<Rightarrow> treapNode" where
  "newTreapNode k v p = TNode TNil k v p TNil"

subsection \<open>The parent stack\<close>

definition staticDepth :: nat where
  "staticDepth = 128"

record 'a parentStack =
  ps_index :: nat
  ps_items :: "'a option list"
  ps_overflow :: "'a option list"

definition newStack :: "'a parentStack" where
  "newStack = \<lparr>ps_index = 0, ps_items = replicate staticDepth None, ps_overflow = []\<rparr>"

definition ps_Len :: "'a parentStack \<Rightarrow> nat" where
  "ps_Len s = ps_index s"

definition ps_At :: "nat \<Rightarrow> 'a parentStack \<Rightarrow> 'a option" where
  "ps_At n s =
    (if int (ps_index s) - int n - 1 < 0 then None
     else let i = ps_index s - n - 1 in
       if i < staticDepth then ps_items s ! i else ps_overflow s ! (i - staticDepth))"

definition ps_Pop :: "'a parentStack \<Rightarrow> 'a option \<times> 'a parentStack" where
  "ps_Pop s =
    (if ps_index s = 0 then (None, s)
     else let i = ps_index s - 1 in
       if i < staticDepth then (ps_items s ! i, s\<lparr>ps_index := i, ps_items := (ps_items s)[i := None]\<rparr>)
       else (ps_overflow s ! (i - staticDepth),
             s\<lparr>ps_index := i, ps_overflow := (ps_overflow s)[i - staticDepth := None]\<rparr>))"

text \<open>The overflow slice is allocated with its capacity as its length; growing it copies the old one.\<close>

definition ps_Push :: "'a \<Rightarrow> 'a parentStack \<Rightarrow> 'a parentStack" where
  "ps_Push x s =
    (if ps_index s < staticDepth then s\<lparr>ps_items := (ps_items s)[ps_index s := Some x], ps_index := ps_index s + 1\<rparr>
     else
       let i = ps_index s - staticDepth;
           ov = (if i + 1 > length (ps_overflow s)
                 then ps_overflow s @ replicate (i + 1 - length (ps_overflow s)) None else ps_overflow s)
       in s\<lparr>ps_overflow := ov[i := Some x], ps_index := ps_index s + 1\<rparr>)"

text \<open>The contract of a stack: the operations against the list of its items, the top one first.\<close>

locale stack_contract =
  fixes new :: 's and len :: "'s \<Rightarrow> nat" and item :: "nat \<Rightarrow> 's \<Rightarrow> 'a option" and pop :: "'s \<Rightarrow> 'a option \<times> 's"
    and push :: "'a \<Rightarrow> 's \<Rightarrow> 's" and items :: "'s \<Rightarrow> 'a list" and wf :: "'s \<Rightarrow> bool"
  assumes new_items: "wf new \<and> items new = []"
    and push_items: "wf s \<Longrightarrow> wf (push x s) \<and> items (push x s) = x # items s"
    and pop_items: "wf s \<Longrightarrow> wf (snd (pop s)) \<and> items (snd (pop s)) = tl (items s) \<and>
      fst (pop s) = (case items s of [] \<Rightarrow> None | x # _ \<Rightarrow> Some x)"
    and at_items: "wf s \<Longrightarrow> item n s = (if n < length (items s) then Some (items s ! n) else None)"
    and len_items: "wf s \<Longrightarrow> len s = length (items s)"
begin

text \<open>Popping everything returns what was pushed, the last one first.\<close>

fun popAll :: "nat \<Rightarrow> 's \<Rightarrow> 'a option list" where
  "popAll 0 s = []"
| "popAll (Suc n) s = (case pop s of (x, s') \<Rightarrow> x # popAll n s')"

lemma popAll_items: "wf s \<Longrightarrow> n = length (items s) \<Longrightarrow> popAll n s = map Some (items s)"
proof (induction n arbitrary: s)
  case (Suc n)
  obtain x s' where p: "pop s = (x, s')" by fastforce
  with pop_items [OF Suc.prems(1)] Suc.prems(2) have "wf s'" "items s' = tl (items s)" "x = Some (hd (items s))"
    by (auto split: list.splits)
  with Suc p show ?case by (cases "items s") auto
qed simp

lemma push_all: "wf s \<Longrightarrow> wf (fold push xs s) \<and> items (fold push xs s) = rev xs @ items s"
  by (induction xs arbitrary: s) (simp_all add: push_items)

lemma lifo: "popAll (length xs) (fold push xs new) = map Some (rev xs)"
  using push_all [of new xs] new_items by (simp add: popAll_items)

end

definition slots :: "'a parentStack \<Rightarrow> 'a option list" where
  "slots s = ps_items s @ ps_overflow s"

definition stackItems :: "'a parentStack \<Rightarrow> 'a list" where
  "stackItems s = rev (map the (take (ps_index s) (slots s)))"

definition stack_ok :: "'a parentStack \<Rightarrow> bool" where
  "stack_ok s \<longleftrightarrow> length (ps_items s) = staticDepth \<and> ps_index s \<le> length (slots s) \<and>
     (\<forall>i < ps_index s. slots s ! i \<noteq> None)"

lemma slots_nth:
  assumes "stack_ok s"
  shows "(if i < staticDepth then ps_items s ! i else ps_overflow s ! (i - staticDepth)) = slots s ! i"
  using assms by (simp add: slots_def stack_ok_def nth_append)

lemma push_slots:
  assumes "stack_ok s"
  shows "\<exists>n. slots (ps_Push x s) = (slots s @ replicate n None)[ps_index s := Some x] \<and>
    ps_index s < length (slots s) + n \<and> ps_index (ps_Push x s) = ps_index s + 1 \<and>
    length (ps_items (ps_Push x s)) = staticDepth"
proof (cases "ps_index s < staticDepth")
  case True
  then show ?thesis using assms
    by (intro exI [of _ 0]) (auto simp: ps_Push_def slots_def stack_ok_def list_update_append)
next
  case False
  then show ?thesis using assms
    by (intro exI [of _ "if ps_index s - staticDepth + 1 > length (ps_overflow s)
        then ps_index s - staticDepth + 1 - length (ps_overflow s) else 0"])
      (auto simp: ps_Push_def slots_def stack_ok_def Let_def list_update_append)
qed

lemma pop_slots:
  assumes "stack_ok s" and "0 < ps_index s"
  shows "fst (ps_Pop s) = slots s ! (ps_index s - 1) \<and>
    slots (snd (ps_Pop s)) = (slots s)[ps_index s - 1 := None] \<and> ps_index (snd (ps_Pop s)) = ps_index s - 1 \<and>
    length (ps_items (snd (ps_Pop s))) = staticDepth"
  using assms by (auto simp: ps_Pop_def Let_def slots_def stack_ok_def nth_append list_update_append)

interpretation parents: stack_contract newStack ps_Len ps_At ps_Pop ps_Push stackItems stack_ok
proof (unfold_locales, goal_cases)
  case 1
  show ?case by (simp add: newStack_def stack_ok_def stackItems_def slots_def)
next
  case (2 s x)
  obtain n where n: "slots (ps_Push x s) = (slots s @ replicate n None)[ps_index s := Some x]"
    "ps_index s < length (slots s) + n" "ps_index (ps_Push x s) = ps_index s + 1"
    "length (ps_items (ps_Push x s)) = staticDepth" using push_slots [OF 2, of x] by blast
  have "take (ps_index s + 1) (slots (ps_Push x s)) = take (ps_index s) (slots s) @ [Some x]"
    using n(1,2) 2 by (simp add: take_Suc_conv_app_nth stack_ok_def)
  then show ?case using n 2
    by (auto simp: stackItems_def stack_ok_def nth_list_update nth_append less_Suc_eq)
next
  case (3 s)
  show ?case
  proof (cases "ps_index s = 0")
    case True
    with 3 show ?thesis by (simp add: ps_Pop_def stackItems_def)
  next
    case False
    then obtain i where i: "ps_index s = Suc i" by (cases "ps_index s") auto
    with 3 have len: "i < length (slots s)" and some: "slots s ! i \<noteq> None" by (auto simp: stack_ok_def)
    have "stackItems s = the (slots s ! i) # rev (map the (take i (slots s)))"
      using i len by (simp add: stackItems_def take_Suc_conv_app_nth)
    with pop_slots [OF 3] i some 3 show ?thesis by (auto simp: stackItems_def stack_ok_def)
  qed
next
  case (4 s n)
  have "stackItems s ! n = the (slots s ! (ps_index s - n - 1))" if "n < ps_index s"
    using that 4 by (simp add: stackItems_def stack_ok_def rev_nth)
  moreover have "slots s ! (ps_index s - n - 1) \<noteq> None" if "n < ps_index s" using that 4 by (simp add: stack_ok_def)
  moreover have "length (stackItems s) = ps_index s" using 4 by (simp add: stackItems_def stack_ok_def)
  ultimately show ?case using slots_nth [OF 4, of "ps_index s - n - 1"] by (auto simp: ps_At_def Let_def)
next
  case (5 s)
  then show ?case by (simp add: ps_Len_def stackItems_def stack_ok_def)
qed

text \<open>However deep it grows, past the end of its static part as well, the parent stack is last in, first out.\<close>

lemma parentStack_lifo: "parents.popAll (length xs) (fold ps_Push xs newStack) = map Some (rev xs)"
  by (rule parents.lifo)

subsection \<open>The operations\<close>

text \<open>A parent on the path from the root: which of its children the path takes, and the rest of it.\<close>

datatype frame = LeftOf bytes bytes int treapNode | RightOf treapNode bytes bytes int

fun link :: "frame \<Rightarrow> treapNode \<Rightarrow> treapNode" where
  "link (LeftOf k v p r) n = TNode n k v p r"
| "link (RightOf l k v p) n = TNode l k v p n"

fun plug :: "frame list \<Rightarrow> treapNode \<Rightarrow> treapNode" where
  "plug [] n = n"
| "plug (f # fs) n = plug fs (link f n)"

fun frame_priority :: "frame \<Rightarrow> int" where
  "frame_priority (LeftOf k v p r) = p"
| "frame_priority (RightOf l k v p) = p"

text \<open>The walk from the root that \<open>Put\<close> and \<open>Delete\<close> share.\<close>

fun findPath :: "bytes \<Rightarrow> treapNode \<Rightarrow> frame list \<Rightarrow> treapNode \<times> frame list" where
  "findPath k' TNil ps = (TNil, ps)"
| "findPath k' (TNode l k v p r) ps =
    (let compareResult = bytesCompare k' k in
     if compareResult < 0 then findPath k' l (LeftOf k v p r # ps)
     else if compareResult > 0 then findPath k' r (RightOf l k v p # ps)
     else (TNode l k v p r, ps))"

record treap =
  root :: treapNode
  count :: int
  totalSize :: "64 word"

definition NewTreap :: treap where
  "NewTreap = \<lparr>root = TNil, count = 0, totalSize = 0\<rparr>"

definition treap_Len :: "treap \<Rightarrow> int" where
  "treap_Len t = count t"

definition treap_Size :: "treap \<Rightarrow> 64 word" where
  "treap_Size t = totalSize t"

fun getNode :: "bytes \<Rightarrow> treapNode \<Rightarrow> treapNode" where
  "getNode k' TNil = TNil"
| "getNode k' (TNode l k v p r) =
    (let compareResult = bytesCompare k' k in
     if compareResult < 0 then getNode k' l
     else if compareResult > 0 then getNode k' r
     else TNode l k v p r)"

definition treap_Has :: "bytes \<Rightarrow> treap \<Rightarrow> bool" where
  "treap_Has k t = (getNode k (root t) \<noteq> TNil)"

definition treap_Get :: "bytes \<Rightarrow> treap \<Rightarrow> bytes option" where
  "treap_Get k t = (case getNode k (root t) of TNil \<Rightarrow> None | n \<Rightarrow> Some (val n))"

text \<open>The rotations after an insertion: the new node moves up while its priority is below its parent's.\<close>

fun rotateUp :: "treapNode \<Rightarrow> bytes \<Rightarrow> bytes \<Rightarrow> int \<Rightarrow> treapNode \<Rightarrow> frame list \<Rightarrow> treapNode" where
  "rotateUp l k v p r [] = TNode l k v p r"
| "rotateUp l k v p r (f # fs) =
    (if p \<ge> frame_priority f then plug (f # fs) (TNode l k v p r)
     else (case f of
         LeftOf k' v' p' r' \<Rightarrow> rotateUp l k v p (TNode r k' v' p' r') fs
       | RightOf l' k' v' p' \<Rightarrow> rotateUp (TNode l' k' v' p' l) k v p r fs))"

definition Put :: "bytes \<Rightarrow> bytes option \<Rightarrow> int \<Rightarrow> treap \<Rightarrow> treap" where
  "Put k value pr t =
    (let v = (case value of None \<Rightarrow> [] | Some v \<Rightarrow> v) in
     if root t = TNil then \<lparr>root = newTreapNode k v pr, count = 1, totalSize = nodeSize k v\<rparr>
     else (case findPath k (root t) [] of
         (TNode l k' v' p' r, fs) \<Rightarrow>
           t\<lparr>root := plug fs (TNode l k' v p' r),
             totalSize := totalSize t - of_nat (length v') + of_nat (length v)\<rparr>
       | (TNil, fs) \<Rightarrow>
           t\<lparr>root := rotateUp TNil k v pr TNil fs, count := wrap64 (count t + 1),
             totalSize := totalSize t + nodeSize k v\<rparr>))"

text \<open>The rotations before a removal: the node's child with the higher priority takes its place until the node is
  a leaf, which is then unlinked.  The arguments are the children of the node that sinks.\<close>

function sink :: "treapNode \<Rightarrow> treapNode \<Rightarrow> treapNode" where
  "sink TNil TNil = TNil"
| "sink TNil (TNode l k v p r) = TNode (sink TNil l) k v p r"
| "sink (TNode l k v p r) TNil = TNode l k v p (sink r TNil)"
| "sink (TNode l k v p r) (TNode l' k' v' p' r') =
    (if p \<ge> p' then TNode l k v p (sink r (TNode l' k' v' p' r'))
     else TNode (sink (TNode l k v p r) l') k' v' p' r')"
  by pat_completeness auto
termination by (relation "measure (\<lambda>(l, r). size l + size r)") auto

definition Delete :: "bytes \<Rightarrow> treap \<Rightarrow> treap" where
  "Delete k t = (case findPath k (root t) [] of
      (TNil, _) \<Rightarrow> t
    | (TNode l k' v' p' r, fs) \<Rightarrow>
        if fs = [] \<and> l = TNil \<and> r = TNil then \<lparr>root = TNil, count = 0, totalSize = 0\<rparr>
        else t\<lparr>root := plug fs (sink l r), count := wrap64 (count t - 1),
               totalSize := totalSize t - nodeSize k' v'\<rparr>)"

definition Reset :: "treap \<Rightarrow> treap" where
  "Reset t = t\<lparr>count := 0, totalSize := 0, root := TNil\<rparr>"

text \<open>\<open>ForEach\<close>: the pairs for which the function is called, with its answers; the stack holds the nodes still to
  visit.\<close>

fun pushLeft :: "treapNode \<Rightarrow> treapNode list \<Rightarrow> treapNode list" where
  "pushLeft TNil st = st"
| "pushLeft (TNode l k v p r) st = pushLeft l (TNode l k v p r # st)"

fun weight :: "treapNode list \<Rightarrow> nat" where
  "weight [] = 0"
| "weight (n # st) = size (right n) + 1 + weight st"

lemma weight_pushLeft: "weight (pushLeft n st) = size n + weight st"
  by (induction n st rule: pushLeft.induct) auto

function visit :: "(bytes \<Rightarrow> bytes \<Rightarrow> bool) \<Rightarrow> treapNode list \<Rightarrow> (bytes \<times> bytes) list" where
  "visit fn [] = []"
| "visit fn (n # st) =
    (key n, val n) # (if fn (key n) (val n) then visit fn (pushLeft (right n) st) else [])"
  by pat_completeness auto
termination by (relation "measure (\<lambda>(_, st). weight st)") (auto simp: weight_pushLeft)

definition ForEach :: "(bytes \<Rightarrow> bytes \<Rightarrow> bool) \<Rightarrow> treap \<Rightarrow> (bytes \<times> bytes) list" where
  "ForEach fn t = visit fn (pushLeft (root t) [])"

subsection \<open>Order\<close>

fun inorder :: "treapNode \<Rightarrow> (bytes \<times> bytes) list" where
  "inorder TNil = []"
| "inorder (TNode l k v p r) = inorder l @ (k, v) # inorder r"

fun before :: "frame list \<Rightarrow> (bytes \<times> bytes) list" where
  "before [] = []"
| "before (LeftOf k v p r # fs) = before fs"
| "before (RightOf l k v p # fs) = before fs @ inorder l @ [(k, v)]"

fun after :: "frame list \<Rightarrow> (bytes \<times> bytes) list" where
  "after [] = []"
| "after (LeftOf k v p r # fs) = (k, v) # inorder r @ after fs"
| "after (RightOf l k v p # fs) = after fs"

lemma inorder_plug [simp]: "inorder (plug fs n) = before fs @ inorder n @ after fs"
proof (induction fs n rule: plug.induct)
  case (2 f fs n)
  then show ?case by (cases f) auto
qed simp

lemma inorder_rotateUp [simp]: "inorder (rotateUp l k v p r fs) = before fs @ inorder l @ (k, v) # inorder r @ after fs"
proof (induction l k v p r fs rule: rotateUp.induct)
  case (2 l k v p r f fs)
  then show ?case by (cases f) auto
qed simp

lemma inorder_sink [simp]: "inorder (sink l r) = inorder l @ inorder r"
  by (induction l r rule: sink.induct) auto

lemma inorder_pushLeft: "concat (map (\<lambda>n. (key n, val n) # inorder (right n)) (pushLeft n st)) =
    inorder n @ concat (map (\<lambda>n. (key n, val n) # inorder (right n)) st)"
  by (induction n st rule: pushLeft.induct) auto

definition bst :: "treapNode \<Rightarrow> bool" where
  "bst n \<longleftrightarrow> sorted_wrt (<) (map fst (inorder n))"

lemma findPath_split:
  assumes "findPath k n fs = (m, gs)" and "bst n" and "\<forall>x \<in> set (before fs). fst x < k" and "\<forall>x \<in> set (after fs). k < fst x"
  shows "plug gs m = plug fs n \<and> (\<forall>x \<in> set (before gs). fst x < k) \<and> (\<forall>x \<in> set (after gs). k < fst x) \<and>
    (m = TNil \<or> key m = k)"
  using assms
proof (induction k n fs rule: findPath.induct)
  case (2 k' l k v p r ps)
  have b: "bst l" "bst r" "\<forall>x \<in> set (inorder l). fst x < k" "\<forall>x \<in> set (inorder r). k < fst x"
    using "2.prems"(2) by (auto simp: bst_def sorted_wrt_append)
  consider "k' < k" | "k < k'" | "k' = k" by fastforce
  then show ?case
  proof cases
    case 1
    then have c: "bytesCompare k' k < 0" by (simp add: bytesCompare_iff)
    then have f: "findPath k' l (LeftOf k v p r # ps) = (m, gs)" using "2.prems"(1) by simp
    have "\<forall>x \<in> set (after (LeftOf k v p r # ps)). k' < fst x" using b(4) 1 "2.prems"(4) by (auto intro: less_trans)
    from "2.IH"(1) [OF refl c f b(1) _ this] "2.prems"(3) show ?thesis by simp
  next
    case 2
    then have c: "\<not> bytesCompare k' k < 0" "0 < bytesCompare k' k" by (simp_all add: bytesCompare_iff less_imp_not_less)
    then have f: "findPath k' r (RightOf l k v p # ps) = (m, gs)" using "2.prems"(1) by simp
    have "\<forall>x \<in> set (before (RightOf l k v p # ps)). fst x < k'" using b(3) 2 "2.prems"(3) by (auto intro: less_trans)
    from "2.IH"(2) [OF refl c f b(2) this] "2.prems"(4) show ?thesis by simp
  next
    case 3
    then have "bytesCompare k' k = 0" using bytesCompare_iff [of k' k] by force
    then show ?thesis using 3 "2.prems" by auto
  qed
qed auto

subsection \<open>The treap as a map\<close>

text \<open>The invariant: search-tree order, the number of items, and the size, both at their machine widths.\<close>

definition bytesUsed :: "(bytes \<times> bytes) list \<Rightarrow> nat" where
  "bytesUsed xs = sum_list (map (\<lambda>(k, v). nodeFieldsSize + length k + length v) xs)"

lemma bytesUsed_simps [simp]:
  "bytesUsed [] = 0"
  "bytesUsed (xs @ ys) = bytesUsed xs + bytesUsed ys"
  "bytesUsed ((k, v) # xs) = nodeFieldsSize + length k + length v + bytesUsed xs"
  by (simp_all add: bytesUsed_def)

definition treap_ok :: "treap \<Rightarrow> bool" where
  "treap_ok t \<longleftrightarrow> bst (root t) \<and> count t = wrap64 (int (length (inorder (root t)))) \<and>
     totalSize t = of_nat (bytesUsed (inorder (root t)))"

definition contents :: "treap \<Rightarrow> bytes \<rightharpoonup> bytes" where
  "contents t = map_of (inorder (root t))"

text \<open>Around a key, the pairs of a search tree split into the smaller and the larger ones.\<close>

definition around :: "bytes \<Rightarrow> (bytes \<times> bytes) list \<Rightarrow> (bytes \<times> bytes) list \<Rightarrow> bool" where
  "around k xs ys \<longleftrightarrow> sorted_wrt (<) (map fst xs) \<and> sorted_wrt (<) (map fst ys) \<and>
     (\<forall>x \<in> set xs. fst x < k) \<and> (\<forall>x \<in> set ys. k < fst x)"

lemma around_sorted:
  assumes "around k xs ys"
  shows "sorted_wrt (<) (map fst (xs @ ys))" "sorted_wrt (<) (map fst (xs @ (k, v) # ys))"
  using assms by (auto simp: around_def sorted_wrt_append intro: less_trans)

lemma around_map_of:
  assumes "around k xs ys"
  shows "map_of (xs @ (k, v) # ys) = (map_of (xs @ ys))(k \<mapsto> v)" and "map_of (xs @ ys) k = None"
proof -
  have notin: "k \<notin> fst ` set xs" "k \<notin> fst ` set ys" using assms by (auto simp: around_def)
  then show "map_of (xs @ ys) k = None" by (simp add: map_add_None map_of_eq_None_iff)
  have "map_of xs k = None" using notin by (simp add: map_of_eq_None_iff)
  then show "map_of (xs @ (k, v) # ys) = (map_of (xs @ ys))(k \<mapsto> v)"
    by (auto simp: map_add_def split: option.split)
qed

lemma findPath_around:
  assumes "bst n" and "findPath k n [] = (m, fs)"
  shows "case m of TNil \<Rightarrow> inorder n = before fs @ after fs \<and> around k (before fs) (after fs)
    | TNode l k' v p r \<Rightarrow> k' = k \<and> inorder n = (before fs @ inorder l) @ (k, v) # (inorder r @ after fs) \<and>
        around k (before fs @ inorder l) (inorder r @ after fs)"
proof -
  have s: "plug fs m = n" "\<forall>x \<in> set (before fs). fst x < k" "\<forall>x \<in> set (after fs). k < fst x" "m = TNil \<or> key m = k"
    using findPath_split [OF assms(2,1)] by auto
  then have i: "inorder n = before fs @ inorder m @ after fs" by (metis inorder_plug)
  with assms(1) s(2-4) show ?thesis
    by (auto simp: bst_def around_def sorted_wrt_append split: treapNode.split) force+
qed

lemma getNode_map_of:
  "bst n \<Longrightarrow> (case getNode k n of TNil \<Rightarrow> None | m \<Rightarrow> Some (val m)) = map_of (inorder n) k"
proof (induction k n rule: getNode.induct)
  case (2 k' l k v p r)
  have b: "bst l" "bst r" and ar: "around k (inorder l) (inorder r)"
    using "2.prems" by (auto simp: bst_def around_def sorted_wrt_append)
  have l: "map_of (inorder l) k' = None" if "k \<le> k'"
    using ar that by (auto simp: around_def map_of_eq_None_iff)
  have r: "map_of (inorder r) k' = None" if "k' \<le> k"
    using ar that by (auto simp: around_def map_of_eq_None_iff)
  consider "k' < k" | "k < k'" | "k' = k" by fastforce
  then show ?case
  proof cases
    case 1
    then have "bytesCompare k' k < 0" by (simp add: bytesCompare_iff)
    with 1 "2.IH"(1) b r show ?thesis by (auto simp: map_add_def split: option.split)
  next
    case 2
    then have "\<not> bytesCompare k' k < 0" "0 < bytesCompare k' k" by (simp_all add: bytesCompare_iff less_imp_not_less)
    with 2 "2.IH"(2) b l show ?thesis by (auto simp: map_add_def split: option.split)
  next
    case 3
    then have "bytesCompare k' k = 0" using bytesCompare_iff [of k' k] by force
    with 3 l show ?thesis by (auto simp: map_add_def split: option.split)
  qed
qed simp

lemma treap_Get_contents: "treap_ok t \<Longrightarrow> treap_Get k t = contents t k"
  using getNode_map_of [of "root t" k] by (simp add: treap_Get_def treap_ok_def contents_def)

lemma treap_Has_contents: "treap_ok t \<Longrightarrow> treap_Has k t \<longleftrightarrow> k \<in> dom (contents t)"
  using getNode_map_of [of "root t" k]
  by (cases "getNode k (root t)") (auto simp: treap_Has_def treap_ok_def contents_def domIff dest: sym)

lemma New_ok: "treap_ok NewTreap \<and> contents NewTreap = Map.empty"
  by (simp add: NewTreap_def treap_ok_def contents_def bst_def wrap64_id)

lemma Put_ok:
  assumes "treap_ok t"
  shows "treap_ok (Put k v pr t) \<and> contents (Put k v pr t) = (contents t)(k \<mapsto> (case v of None \<Rightarrow> [] | Some v \<Rightarrow> v))"
proof (cases "root t = TNil")
  case True
  then show ?thesis
    by (simp add: Put_def Let_def newTreapNode_def treap_ok_def contents_def bst_def wrap64_id nodeSize_def add.assoc)
next
  case False
  define w where "w = (case v of None \<Rightarrow> [] | Some v \<Rightarrow> v)"
  obtain m fs where f: "findPath k (root t) [] = (m, fs)" by fastforce
  have b: "bst (root t)" using assms by (simp add: treap_ok_def)
  note ar = findPath_around [OF b f]
  show ?thesis
  proof (cases m)
    case TNil
    have P: "Put k v pr t = t\<lparr>root := rotateUp TNil k w pr TNil fs, count := wrap64 (count t + 1),
        totalSize := totalSize t + nodeSize k w\<rparr>"
      using False f TNil by (simp add: Put_def w_def [symmetric])
    from ar TNil have ar': "around k (before fs) (after fs)" "inorder (root t) = before fs @ after fs" by auto
    have "bst (root (Put k v pr t))" using around_sorted(2) [OF ar'(1), of w] P by (simp add: bst_def)
    moreover have "contents (Put k v pr t) = (contents t)(k \<mapsto> w)"
      using around_map_of(1) [OF ar'(1), of w] ar'(2) P by (simp add: contents_def)
    moreover have "wrap64 (count t + 1) = wrap64 (int (length (inorder (root t))) + 1)"
      using assms by (simp add: treap_ok_def wrap64_add)
    ultimately show ?thesis
      using P ar'(2) assms by (simp add: treap_ok_def nodeSize_def w_def [symmetric] algebra_simps)
  next
    case (TNode l k' v' p' r)
    have P: "Put k v pr t = t\<lparr>root := plug fs (TNode l k' w p' r),
        totalSize := totalSize t - of_nat (length v') + of_nat (length w)\<rparr>"
      using False f TNode by (simp add: Put_def w_def [symmetric])
    from ar TNode have ar': "around k (before fs @ inorder l) (inorder r @ after fs)" "k' = k"
      "inorder (root t) = (before fs @ inorder l) @ (k, v') # (inorder r @ after fs)" by auto
    have "bst (root (Put k v pr t))"
      using around_sorted(2) [OF ar'(1), of w] ar'(2) P by (simp add: bst_def)
    moreover have "contents (Put k v pr t) = (contents t)(k \<mapsto> w)"
      using around_map_of(1) [OF ar'(1), of w] around_map_of(1) [OF ar'(1), of v'] ar'(2,3) P
      by (simp add: contents_def)
    ultimately show ?thesis using P ar'(2,3) assms by (simp add: treap_ok_def w_def [symmetric] algebra_simps)
  qed
qed

lemma Delete_ok:
  assumes "treap_ok t"
  shows "treap_ok (Delete k t) \<and> contents (Delete k t) = (contents t)(k := None)"
proof -
  obtain m fs where f: "findPath k (root t) [] = (m, fs)" by fastforce
  have b: "bst (root t)" using assms by (simp add: treap_ok_def)
  note ar = findPath_around [OF b f]
  show ?thesis
  proof (cases m)
    case TNil
    then have "Delete k t = t" "contents t k = None"
      using f ar around_map_of(2) by (auto simp: Delete_def contents_def)
    with assms show ?thesis by auto
  next
    case (TNode l k' v' p' r)
    from ar TNode have ar': "around k (before fs @ inorder l) (inorder r @ after fs)" "k' = k"
      "inorder (root t) = (before fs @ inorder l) @ (k, v') # (inorder r @ after fs)" by auto
    have gone: "(contents t)(k := None) = map_of ((before fs @ inorder l) @ (inorder r @ after fs))"
      using around_map_of(1) [OF ar'(1), of v'] around_map_of(2) [OF ar'(1)] ar'(3)
      by (simp add: contents_def fun_eq_iff del: map_of_append)
    show ?thesis
    proof (cases "fs = [] \<and> l = TNil \<and> r = TNil")
      case True
      then have "Delete k t = \<lparr>root = TNil, count = 0, totalSize = 0\<rparr>" using f TNode by (simp add: Delete_def)
      with gone True New_ok show ?thesis by (simp add: NewTreap_def)
    next
      case False
      then have D: "Delete k t = t\<lparr>root := plug fs (sink l r), count := wrap64 (count t - 1),
          totalSize := totalSize t - nodeSize k v'\<rparr>" using f TNode ar'(2) by (auto simp: Delete_def)
      have "wrap64 (count t - 1) = wrap64 (int (length (inorder (root t))) - 1)"
        using assms wrap64_add [of _ "- 1"] by (simp add: treap_ok_def)
      with D gone ar'(3) around_sorted(1) [OF ar'(1)] assms show ?thesis
        by (simp add: treap_ok_def bst_def contents_def nodeSize_def algebra_simps)
    qed
  qed
qed

text \<open>The contract of a key/value store: its operations against a map.\<close>

datatype op = OpPut bytes "bytes option" int | OpDelete bytes | OpReset

fun spec_op :: "op \<Rightarrow> (bytes \<rightharpoonup> bytes) \<Rightarrow> (bytes \<rightharpoonup> bytes)" where
  "spec_op (OpPut k v p) m = m(k \<mapsto> (case v of None \<Rightarrow> [] | Some v \<Rightarrow> v))"
| "spec_op (OpDelete k) m = m(k := None)"
| "spec_op OpReset m = Map.empty"

locale store_contract =
  fixes new :: 's and step :: "op \<Rightarrow> 's \<Rightarrow> 's" and look :: "bytes \<Rightarrow> 's \<Rightarrow> bytes option" and ok :: "'s \<Rightarrow> bool"
    and abs :: "'s \<Rightarrow> (bytes \<rightharpoonup> bytes)"
  assumes new_abs: "ok new \<and> abs new = Map.empty"
    and step_abs: "ok s \<Longrightarrow> ok (step a s) \<and> abs (step a s) = spec_op a (abs s)"
    and look_abs: "ok s \<Longrightarrow> look k s = abs s k"
begin

lemma steps_abs: "ok s \<Longrightarrow> ok (fold step ops s) \<and> abs (fold step ops s) = fold spec_op ops (abs s)"
  by (induction ops arbitrary: s) (simp_all add: step_abs)

lemma steps_look: "look k (fold step ops new) = fold spec_op ops Map.empty k"
  using steps_abs [of new ops] new_abs by (simp add: look_abs)

end

fun apply_op :: "op \<Rightarrow> treap \<Rightarrow> treap" where
  "apply_op (OpPut k v p) t = Put k v p t"
| "apply_op (OpDelete k) t = Delete k t"
| "apply_op OpReset t = Reset t"

interpretation store: store_contract NewTreap apply_op treap_Get treap_ok contents
proof (unfold_locales, goal_cases)
  case (2 s a)
  then show ?case
  proof (cases a)
    case OpReset
    then show ?thesis using New_ok by (simp add: Reset_def NewTreap_def treap_ok_def contents_def)
  qed (simp_all add: Put_ok Delete_ok)
qed (simp_all add: New_ok treap_Get_contents)

text \<open>C10: A treap is a map.  After any sequence of insertions, deletions and resets, whatever random priorities the
  insertions drew, looking a key up returns what a finite map returns after the same operations; a key
  inserted without a value maps to the empty value, and \<open>Has\<close> tells exactly the keys of the map.\<close>

theorem treap_refines_map:
  "treap_Get k (fold apply_op ops NewTreap) = fold spec_op ops Map.empty k \<and>
   (treap_Has k (fold apply_op ops NewTreap) \<longleftrightarrow> k \<in> dom (fold spec_op ops Map.empty))"
  using store.steps_look store.steps_abs [of NewTreap ops] New_ok by (simp add: treap_Has_contents)

text \<open>C33: The treap accounts for its items.  After any sequence of operations the nodes are in strict key order,
  \<open>Len\<close> is the number of items and \<open>Size\<close> the bytes of the keys, the values and the node fields, both at their
  machine width.\<close>

theorem treap_accounting:
  "let t = fold apply_op ops NewTreap; xs = inorder (root t) in
   sorted_wrt (<) (map fst xs) \<and> treap_Len t = wrap64 (int (length xs)) \<and> treap_Size t = of_nat (bytesUsed xs)"
  using store.steps_abs [of NewTreap ops] New_ok by (simp add: treap_ok_def bst_def treap_Len_def treap_Size_def Let_def)

text \<open>\<open>ForEach\<close> calls its function on the pairs in ascending key order, up to and including the first one it
  rejects.\<close>

fun until_rejected :: "(bytes \<Rightarrow> bytes \<Rightarrow> bool) \<Rightarrow> (bytes \<times> bytes) list \<Rightarrow> (bytes \<times> bytes) list" where
  "until_rejected fn [] = []"
| "until_rejected fn ((k, v) # xs) = (k, v) # (if fn k v then until_rejected fn xs else [])"

lemma visit_inorder:
  "visit fn st = until_rejected fn (concat (map (\<lambda>n. (key n, val n) # inorder (right n)) st))"
  by (induction fn st rule: visit.induct) (simp_all add: inorder_pushLeft)

lemma ForEach_inorder: "ForEach fn t = until_rejected fn (inorder (root t))"
  by (simp add: ForEach_def visit_inorder inorder_pushLeft)

subsection \<open>The heap order\<close>

fun prios :: "treapNode \<Rightarrow> int set" where
  "prios TNil = {}"
| "prios (TNode l k v p r) = insert p (prios l \<union> prios r)"

fun heap :: "treapNode \<Rightarrow> bool" where
  "heap TNil = True"
| "heap (TNode l k v p r) = ((\<forall>q \<in> prios l \<union> prios r. p \<le> q) \<and> heap l \<and> heap r)"

fun sibling :: "frame \<Rightarrow> treapNode" where
  "sibling (LeftOf k v p r) = r"
| "sibling (RightOf l k v p) = l"

text \<open>A path whose frames are in heap order, below which every priority of \<open>ps\<close> may hang.\<close>

fun heap_path :: "int set \<Rightarrow> frame list \<Rightarrow> bool" where
  "heap_path ps [] = True"
| "heap_path ps (f # fs) = ((\<forall>q \<in> ps \<union> prios (sibling f). frame_priority f \<le> q) \<and> heap (sibling f) \<and>
    heap_path {frame_priority f} fs)"

lemma heap_path_mono:
  assumes "heap_path {q} fs" and "\<forall>p \<in> ps. q \<le> p"
  shows "heap_path ps fs"
  using assms by (cases fs) force+

lemma heap_plug: "heap (plug fs n) \<longleftrightarrow> heap n \<and> heap_path (prios n) fs"
proof (induction fs n rule: plug.induct)
  case (2 f fs n)
  have l: "heap (link f n) \<longleftrightarrow> heap n \<and> heap (sibling f) \<and> (\<forall>q \<in> prios n \<union> prios (sibling f). frame_priority f \<le> q)"
    "prios (link f n) = insert (frame_priority f) (prios n \<union> prios (sibling f))" by (cases f; auto)+
  have "heap_path (prios (link f n)) fs \<longleftrightarrow> heap_path {frame_priority f} fs"
    if "\<forall>q \<in> prios n \<union> prios (sibling f). frame_priority f \<le> q"
    using that l(2) by (cases fs) force+
  then show ?case using 2 l(1) by auto
qed simp

lemma heap_rotateUp:
  assumes "heap l" and "heap r" and "\<forall>q \<in> prios l \<union> prios r. p \<le> q" and "heap_path (prios l \<union> prios r) fs"
  shows "heap (rotateUp l k v p r fs)"
  using assms
proof (induction l k v p r fs rule: rotateUp.induct)
  case (2 l k v p r f fs)
  show ?case
  proof (cases "p \<ge> frame_priority f")
    case True
    then have "heap_path (prios (TNode l k v p r)) (f # fs)" using "2.prems"(4) by simp
    moreover have "heap (TNode l k v p r)" using "2.prems"(1-3) by simp
    ultimately have "heap (plug (f # fs) (TNode l k v p r))" unfolding heap_plug by blast
    with True show ?thesis by simp
  next
    case False
    have up: "heap_path (prios l \<union> prios r \<union> insert (frame_priority f) (prios (sibling f))) fs"
      by (rule heap_path_mono [of "frame_priority f"]) (use "2.prems"(4) in auto)
    have lo: "\<forall>q \<in> prios l \<union> prios r \<union> prios (sibling f). frame_priority f \<le> q" and hs: "heap (sibling f)"
      using "2.prems"(4) by auto
    have lt: "\<forall>q \<in> insert (frame_priority f) (prios l \<union> prios r \<union> prios (sibling f)). p \<le> q"
    proof
      fix q
      assume "q \<in> insert (frame_priority f) (prios l \<union> prios r \<union> prios (sibling f))"
      with lo have "frame_priority f \<le> q" by blast
      with False show "p \<le> q" by linarith
    qed
    show ?thesis
    proof (cases f)
      case (LeftOf k' v' p' r')
      have n: "heap (TNode r k' v' p' r')" using lo hs "2.prems"(2) LeftOf by auto
      have b: "\<forall>q \<in> prios l \<union> prios (TNode r k' v' p' r'). p \<le> q" using lt LeftOf by auto
      have c: "heap_path (prios l \<union> prios (TNode r k' v' p' r')) fs" using up LeftOf by (simp add: Un_assoc)
      show ?thesis using "2.IH"(1) [OF False LeftOf "2.prems"(1) n b c] False LeftOf by simp
    next
      case (RightOf l' k' v' p')
      have n: "heap (TNode l' k' v' p' l)" using lo hs "2.prems"(1) RightOf by auto
      have b: "\<forall>q \<in> prios (TNode l' k' v' p' l) \<union> prios r. p \<le> q" using lt RightOf by auto
      have "prios (TNode l' k' v' p' l) \<union> prios r = prios l \<union> prios r \<union> insert (frame_priority f) (prios (sibling f))"
        using RightOf by auto
      with up have c: "heap_path (prios (TNode l' k' v' p' l) \<union> prios r) fs" by simp
      show ?thesis using "2.IH"(2) [OF False RightOf n "2.prems"(2) b c] False RightOf by simp
    qed
  qed
qed auto

lemma findPath_plug: "findPath k n fs = (m, gs) \<Longrightarrow> plug gs m = plug fs n"
  by (induction k n fs rule: findPath.induct) (auto simp: Let_def split: if_splits)

lemma Put_heap:
  assumes "heap (root t)"
  shows "heap (root (Put k v pr t))"
proof (cases "root t = TNil")
  case True
  then show ?thesis by (simp add: Put_def Let_def newTreapNode_def)
next
  case False
  obtain m fs where f: "findPath k (root t) [] = (m, fs)" by fastforce
  then have h: "heap m" "heap_path (prios m) fs" using findPath_plug [OF f] assms heap_plug [of fs m] by simp_all
  show ?thesis
  proof (cases m)
    case TNil
    then show ?thesis using False f h by (simp add: Put_def Let_def heap_rotateUp)
  next
    case (TNode l k' v' p' r)
    then show ?thesis using False f h by (simp add: Put_def Let_def heap_plug)
  qed
qed

fun is_OpDelete :: "op \<Rightarrow> bool" where
  "is_OpDelete (OpDelete k) = True"
| "is_OpDelete _ = False"

text \<open>Insertion keeps the heap.  As long as nothing is deleted, every node's priority is at most the priorities
  below it, whatever the random source delivers.\<close>

theorem treap_heap_without_deletes:
  assumes "\<forall>a \<in> set ops. \<not> is_OpDelete a"
  shows "heap (root (fold apply_op ops NewTreap))"
proof -
  have step: "heap (root (apply_op a t))" if "\<not> is_OpDelete a" "heap (root t)" for a t
    using that by (cases a) (simp_all add: Put_heap Reset_def)
  have "heap (root (fold apply_op ops t))" if "heap (root t)" "\<forall>a \<in> set ops. \<not> is_OpDelete a" for t
    using that by (induction ops arbitrary: t) (simp_all add: step)
  then show ?thesis using assms by (simp add: NewTreap_def)
qed

text \<open>C37: Deletion breaks the heap.  When a node with two children is deleted, the child with the larger priority
  moves up, above the other one: deleting the root of a three-node treap in heap order whose left priority
  exceeds the right one leaves a treap that is not in heap order.\<close>

theorem Delete_breaks_heap:
  assumes "a < b" and "b < c" and "p \<le> q'" and "q' < q"
    and "root t = TNode (TNode TNil a va q TNil) b vb p (TNode TNil c vc q' TNil)"
  shows "heap (root t) \<and> \<not> heap (root (Delete b t))"
proof -
  have "bytesCompare b b = 0" using bytesCompare_iff [of b b] by force
  then have "root (Delete b t) = TNode TNil a va q (TNode TNil c vc q' TNil)"
    using assms(4,5) by (simp add: Delete_def)
  with assms(3-5) show ?thesis by auto
qed

theorem treap_heap_without_deletes_witness:
  "heap (root (fold apply_op [OpPut ''b'' None 7, OpPut ''a'' (Some ''x'') 3, OpPut ''c'' None 5] NewTreap))"
  by (rule treap_heap_without_deletes) simp

theorem Delete_breaks_heap_witness:
  "let t = fold apply_op [OpPut ''b'' None 1, OpPut ''a'' None 3, OpPut ''c'' None 2] NewTreap in
   heap (root t) \<and> \<not> heap (root (Delete ''b'' t))"
proof -
  have "root (fold apply_op [OpPut ''b'' None 1, OpPut ''a'' None 3, OpPut ''c'' None 2] NewTreap) =
      TNode (TNode TNil ''a'' [] 3 TNil) ''b'' [] 1 (TNode TNil ''c'' [] 2 TNil)"
    by (simp add: Put_def NewTreap_def newTreapNode_def)
  from Delete_breaks_heap [OF _ _ _ _ this] show ?thesis by (simp add: Let_def)
qed

end
