(* ===== verification/Coin_TreapIter.thy ===== *)
theory Coin_TreapIter
  imports Coin_Treap
begin

text \<open>
  The iterator over a treap (\<open>treapiter.go\<close>).  A position is the node and the stack of its parents; the pointer
  to the mutable treap an iterator belongs to is a flag; keys are unique in a search tree, so comparing node
  pointers is comparing subtrees; and \<open>ForceReseek\<close> takes the treap's present state.
  A loop \<open>for iter.Next()\<close> is \<open>iterate\<close>, with the number of calls.

  The lemmas show that a position determines the pairs that are still to come, that \<open>Next\<close> moves by one
  of them and that \<open>seek\<close> finds the first key of a range, and so that an iterator visits exactly the
  pairs of its range, in order; an iterator with a limit and no start may leave its range.
\<close>

record iterator =
  it_mutable :: bool
  it_root :: treapNode
  it_node :: treapNode
  it_parents :: "treapNode list"
  it_isNew :: bool
  it_seekKey :: "bytes option"
  it_startKey :: "bytes option"
  it_limitKey :: "bytes option"

definition inRange :: "iterator \<Rightarrow> bytes \<Rightarrow> bool" where
  "inRange it k \<longleftrightarrow> (case it_startKey it of None \<Rightarrow> True | Some s \<Rightarrow> \<not> bytesCompare k s < 0) \<and>
     (case it_limitKey it of None \<Rightarrow> True | Some l \<Rightarrow> \<not> bytesCompare k l \<ge> 0)"

definition limitIterator :: "iterator \<Rightarrow> bool \<times> iterator" where
  "limitIterator it =
    (if it_node it = TNil then (False, it)
     else if \<not> inRange it (key (it_node it)) then (False, it\<lparr>it_node := TNil\<rparr>)
     else (True, it))"

text \<open>The loop of \<open>seek\<close>: whether it ended on an exact match, the selected node, the stack and the depth of the
  selected node.\<close>

fun seekLoop :: "bytes \<Rightarrow> bool \<Rightarrow> bool \<Rightarrow> treapNode \<Rightarrow> treapNode list \<Rightarrow> treapNode \<Rightarrow> nat
    \<Rightarrow> bool \<times> treapNode \<times> treapNode list \<times> nat" where
  "seekLoop k' exactMatch forward TNil ps sel depth = (False, sel, ps, depth)"
| "seekLoop k' exactMatch forward (TNode l k v p r) ps sel depth =
    (let node = TNode l k v p r; ps' = node # ps; compareResult = bytesCompare k' k in
     if compareResult < 0 then
       (if forward then seekLoop k' exactMatch forward l ps' node (length ps' - 1)
        else seekLoop k' exactMatch forward l ps' sel depth)
     else if compareResult > 0 then
       (if \<not> forward then seekLoop k' exactMatch forward r ps' node (length ps' - 1)
        else seekLoop k' exactMatch forward r ps' sel depth)
     else if exactMatch then (True, node, ps, depth)
     else if forward then seekLoop k' exactMatch forward r ps' sel depth
     else seekLoop k' exactMatch forward l ps' sel depth)"

definition iter_seek :: "bytes \<Rightarrow> bool \<Rightarrow> bool \<Rightarrow> iterator \<Rightarrow> bool \<times> iterator" where
  "iter_seek k exactMatch forward it =
    (case seekLoop k exactMatch forward (it_root it) [] TNil 0 of
       (True, n, ps, _) \<Rightarrow> limitIterator (it\<lparr>it_node := n, it_parents := ps\<rparr>)
     | (False, n, ps, depth) \<Rightarrow>
         limitIterator (it\<lparr>it_node := n, it_parents := drop (length ps - depth) ps\<rparr>))"

fun leftmost :: "treapNode \<Rightarrow> treapNode list \<Rightarrow> treapNode \<times> treapNode list" where
  "leftmost (TNode l k v p r) ps = (if l = TNil then (TNode l k v p r, ps) else leftmost l (TNode l k v p r # ps))"
| "leftmost TNil ps = (TNil, ps)"

fun rightmost :: "treapNode \<Rightarrow> treapNode list \<Rightarrow> treapNode \<times> treapNode list" where
  "rightmost (TNode l k v p r) ps = (if r = TNil then (TNode l k v p r, ps) else rightmost r (TNode l k v p r # ps))"
| "rightmost TNil ps = (TNil, ps)"

definition iter_First :: "iterator \<Rightarrow> bool \<times> iterator" where
  "iter_First it0 =
    (let it = it0\<lparr>it_isNew := False\<rparr> in
     case it_startKey it of
       Some s \<Rightarrow> iter_seek s True True it
     | None \<Rightarrow>
         if it_root it = TNil then (False, it\<lparr>it_parents := []\<rparr>)
         else (case leftmost (it_root it) [] of (n, ps) \<Rightarrow> (True, it\<lparr>it_node := n, it_parents := ps\<rparr>)))"

definition iter_Last :: "iterator \<Rightarrow> bool \<times> iterator" where
  "iter_Last it0 =
    (let it = it0\<lparr>it_isNew := False\<rparr> in
     case it_limitKey it of
       Some l \<Rightarrow> iter_seek l False False it
     | None \<Rightarrow>
         if it_root it = TNil then (False, it\<lparr>it_parents := []\<rparr>)
         else (case rightmost (it_root it) [] of (n, ps) \<Rightarrow> (True, it\<lparr>it_node := n, it_parents := ps\<rparr>)))"

fun climbRight :: "treapNode \<Rightarrow> treapNode list \<Rightarrow> treapNode \<times> treapNode list" where
  "climbRight n [] = (TNil, [])"
| "climbRight n (p # ps) = (if right p = n then climbRight p ps else (p, ps))"

fun climbLeft :: "treapNode \<Rightarrow> treapNode list \<Rightarrow> treapNode \<times> treapNode list" where
  "climbLeft n [] = (TNil, [])"
| "climbLeft n (p # ps) = (if left p = n then climbLeft p ps else (p, ps))"

definition iter_Next :: "iterator \<Rightarrow> bool \<times> iterator" where
  "iter_Next it =
    (if it_isNew it then iter_First it
     else if it_node it = TNil then (False, it)
     else (case it_seekKey it of
       Some s \<Rightarrow> iter_seek s False True (it\<lparr>it_seekKey := None\<rparr>)
     | None \<Rightarrow>
         let n = it_node it;
             (n', ps') = (if right n = TNil then climbRight n (it_parents it)
                          else leftmost (right n) (n # it_parents it))
         in limitIterator (it\<lparr>it_node := n', it_parents := ps'\<rparr>)))"

definition iter_Prev :: "iterator \<Rightarrow> bool \<times> iterator" where
  "iter_Prev it =
    (if it_isNew it then iter_Last it
     else if it_node it = TNil then (False, it)
     else (case it_seekKey it of
       Some s \<Rightarrow> iter_seek s False False (it\<lparr>it_seekKey := None\<rparr>)
     | None \<Rightarrow>
         let n = it_node it;
             (n', ps') = (if left n = TNil then climbLeft n (it_parents it)
                          else rightmost (left n) (n # it_parents it))
         in limitIterator (it\<lparr>it_node := n', it_parents := ps'\<rparr>)))"

definition iter_Seek :: "bytes \<Rightarrow> iterator \<Rightarrow> bool \<times> iterator" where
  "iter_Seek k it = iter_seek k True True (it\<lparr>it_isNew := False\<rparr>)"

definition iter_Key :: "iterator \<Rightarrow> bytes option" where
  "iter_Key it = (if it_node it = TNil then None else Some (key (it_node it)))"

definition iter_Value :: "iterator \<Rightarrow> bytes option" where
  "iter_Value it = (if it_node it = TNil then None else Some (val (it_node it)))"

definition iter_Valid :: "iterator \<Rightarrow> bool" where
  "iter_Valid it = (it_node it \<noteq> TNil)"

definition ForceReseek :: "treap \<Rightarrow> iterator \<Rightarrow> iterator" where
  "ForceReseek t it =
    (if \<not> it_mutable it then it
     else it\<lparr>it_root := root t, it_seekKey := (if it_node it = TNil then None else Some (key (it_node it)))\<rparr>)"

definition Iterator :: "bool \<Rightarrow> treap \<Rightarrow> bytes option \<Rightarrow> bytes option \<Rightarrow> iterator" where
  "Iterator isMutable t start limit =
    \<lparr>it_mutable = isMutable, it_root = root t, it_node = TNil, it_parents = [], it_isNew = True, it_seekKey = None,
     it_startKey = start, it_limitKey = limit\<rparr>"

text \<open>At most \<open>n\<close> rounds of \<open>for iter.Next()\<close>, with the pairs it stops at.\<close>

fun iterate :: "nat \<Rightarrow> iterator \<Rightarrow> (bytes option \<times> bytes option) list" where
  "iterate 0 it = []"
| "iterate (Suc n) it = (case iter_Next it of
      (True, it') \<Rightarrow> (iter_Key it', iter_Value it') # iterate n it'
    | (False, it') \<Rightarrow> [])"

subsection \<open>Positions\<close>

text \<open>A stack is the path from the root to a node; \<open>suffix_of\<close> are the pairs after the node's subtree.\<close>

fun is_path :: "treapNode \<Rightarrow> treapNode \<Rightarrow> treapNode list \<Rightarrow> bool" where
  "is_path rt n [] = (n = rt)"
| "is_path rt n (p # ps) = (p \<noteq> TNil \<and> (left p = n \<or> right p = n) \<and> is_path rt p ps)"

fun suffix_of :: "treapNode \<Rightarrow> treapNode list \<Rightarrow> (bytes \<times> bytes) list" where
  "suffix_of n [] = []"
| "suffix_of n (p # ps) = (if left p = n then (key p, val p) # inorder (right p) else []) @ suffix_of p ps"

definition upto_end :: "treapNode \<Rightarrow> treapNode list \<Rightarrow> (bytes \<times> bytes) list" where
  "upto_end n ps = (if n = TNil then [] else (key n, val n) # inorder (right n) @ suffix_of n ps)"

lemma bst_children: "bst (TNode l k v p r) \<Longrightarrow> bst l \<and> bst r"
  by (simp add: bst_def sorted_wrt_append)

lemma bst_distinct_children:
  assumes "bst (TNode l k v p r)" and "l \<noteq> TNil"
  shows "l \<noteq> r"
proof
  assume "l = r"
  then have "(fst x < k) \<and> (k < fst x)" if "x \<in> set (inorder l)" for x
    using assms(1) that by (fastforce simp: bst_def sorted_wrt_append)
  then have "x \<notin> set (inorder l)" for x using less_asym by blast
  then have "inorder l = []" by (cases "inorder l") auto
  with assms(2) show False by (cases l) auto
qed

lemma path_bst: "is_path rt n ps \<Longrightarrow> bst rt \<Longrightarrow> bst n"
proof (induction ps arbitrary: n)
  case (Cons p ps)
  then have "bst p" by simp
  with Cons.prems show ?case by (cases p) (auto dest: bst_children)
qed simp

lemma climbRight_upto:
  assumes "is_path rt n ps" and "bst rt" and "n \<noteq> TNil" and "climbRight n ps = (m, qs)"
  shows "upto_end m qs = suffix_of n ps \<and> (m \<noteq> TNil \<longrightarrow> is_path rt m qs)"
  using assms
proof (induction n ps rule: climbRight.induct)
  case (2 n p ps)
  obtain l k v q r where p: "p = TNode l k v q r" and pp: "is_path rt p ps" using "2.prems"(1) by (cases p) auto
  have b: "bst p" using path_bst [OF pp "2.prems"(2)] .
  show ?case
  proof (cases "right p = n")
    case True
    then have "left p \<noteq> n" using bst_distinct_children [of l k v q r] b p "2.prems"(3) by auto
    with True show ?thesis using "2.IH" [OF True pp "2.prems"(2)] "2.prems"(4) p by simp
  next
    case False
    then show ?thesis using "2.prems" p pp by (auto simp: upto_end_def)
  qed
qed (auto simp: upto_end_def)

lemma leftmost_upto:
  assumes "is_path rt n ps" and "n \<noteq> TNil" and "leftmost n ps = (m, qs)"
  shows "upto_end m qs = inorder n @ suffix_of n ps \<and> m \<noteq> TNil \<and> is_path rt m qs"
  using assms
proof (induction n ps rule: leftmost.induct)
  case (1 l k v p r ps)
  show ?case
  proof (cases "l = TNil")
    case True
    with 1 show ?thesis by (auto simp: upto_end_def)
  next
    case False
    with 1 show ?thesis by simp
  qed
qed simp

subsection \<open>Seeking\<close>

definition reached :: "bytes \<Rightarrow> bool \<Rightarrow> bytes \<times> bytes \<Rightarrow> bool" where
  "reached k exactMatch x \<longleftrightarrow> (if exactMatch then k \<le> fst x else k < fst x)"

text \<open>The selected position of the loop, once the stack is cut down to its depth.\<close>

fun selected :: "bool \<times> treapNode \<times> treapNode list \<times> nat \<Rightarrow> treapNode \<times> treapNode list" where
  "selected (found, n, ps, depth) = (n, if found then ps else drop (length ps - depth) ps)"

lemma iter_seek_selected:
  "iter_seek k ex fw it = (case selected (seekLoop k ex fw (it_root it) [] TNil 0) of
    (n, ps) \<Rightarrow> limitIterator (it\<lparr>it_node := n, it_parents := ps\<rparr>))"
  by (simp add: iter_seek_def split: prod.split bool.split)

lemma seekLoop_forward:
  assumes "bst rt" and "n \<noteq> TNil \<longrightarrow> is_path rt n ps \<and> suffix_of n ps = S"
    and "S = upto_end sel (drop (length ps - d) ps)" and "sel \<noteq> TNil \<longrightarrow> is_path rt sel (drop (length ps - d) ps)"
    and "d \<le> length ps" and "\<forall>x \<in> set S. k' < fst x"
  shows "case selected (seekLoop k' ex True n ps sel d) of (m, qs) \<Rightarrow>
    upto_end m qs = filter (reached k' ex) (inorder n) @ S \<and> (m \<noteq> TNil \<longrightarrow> is_path rt m qs)"
  using assms
proof (induction n arbitrary: ps sel d S)
  case TNil
  then show ?case by simp
next
  case (TNode l k v p r)
  let ?n = "TNode l k v p r"
  have pn: "is_path rt ?n ps" "suffix_of ?n ps = S" using TNode.prems(2) by auto
  have b: "bst ?n" using path_bst [OF pn(1) assms(1)] .
  have lk: "\<forall>x \<in> set (inorder l). fst x < k" and rk: "\<forall>x \<in> set (inorder r). k < fst x"
    using b by (auto simp: bst_def sorted_wrt_append)
  have up: "upto_end ?n ps = (k, v) # inorder r @ S" using pn(2) by (simp add: upto_end_def)
  have right: "r \<noteq> TNil \<longrightarrow> is_path rt r (?n # ps) \<and> suffix_of r (?n # ps) = S"
    using bst_distinct_children [OF b] pn by auto
  have cut: "drop (length (?n # ps) - d) (?n # ps) = drop (length ps - d) ps"
    using TNode.prems(5) by (simp add: Suc_diff_le)
  have goRight: "case selected (seekLoop k' ex True r (?n # ps) sel d) of (m, qs) \<Rightarrow>
      upto_end m qs = filter (reached k' ex) (inorder r) @ S \<and> (m \<noteq> TNil \<longrightarrow> is_path rt m qs)"
    using TNode.IH(2) [OF assms(1) right, of sel d] cut TNode.prems(3-6) by simp
  consider "k' < k" | "k < k'" | "k' = k" by fastforce
  then show ?case
  proof cases
    case 1
    then have c: "bytesCompare k' k < 0" by (simp add: bytesCompare_iff)
    have left: "l \<noteq> TNil \<longrightarrow> is_path rt l (?n # ps) \<and> suffix_of l (?n # ps) = upto_end ?n ps"
      using pn by (simp add: upto_end_def)
    have big: "\<forall>x \<in> set (upto_end ?n ps). k' < fst x"
      unfolding up using 1 rk TNode.prems(6) by (auto intro: less_trans)
    have "filter (reached k' ex) ((k, v) # inorder r) = (k, v) # inorder r"
      using 1 rk by (auto simp: reached_def intro!: filter_True intro: less_imp_le less_trans)
    moreover have "case selected (seekLoop k' ex True l (?n # ps) ?n (length ps)) of (m, qs) \<Rightarrow>
        upto_end m qs = filter (reached k' ex) (inorder l) @ upto_end ?n ps \<and> (m \<noteq> TNil \<longrightarrow> is_path rt m qs)"
      using TNode.IH(1) [OF assms(1) left, of ?n "length ps"] big pn(1) by simp
    ultimately show ?thesis using c up by (simp add: Let_def)
  next
    case 2
    then have c: "\<not> bytesCompare k' k < 0" "0 < bytesCompare k' k" by (simp_all add: bytesCompare_iff less_imp_not_less)
    have "filter (reached k' ex) (inorder l) = []" "\<not> reached k' ex (k, v)"
      using 2 lk by (auto simp: reached_def filter_empty_conv not_le intro: less_trans dest: less_trans)
    with goRight c show ?thesis by simp
  next
    case 3
    then have c: "bytesCompare k' k = 0" using bytesCompare_iff [of k' k] by force
    have l0: "filter (reached k' ex) (inorder l) = []"
      using 3 lk by (auto simp: reached_def filter_empty_conv not_le dest: less_asym)
    show ?thesis
    proof (cases ex)
      case True
      have "filter (reached k' ex) (inorder r) = inorder r"
        using 3 rk by (intro filter_True) (auto simp: reached_def intro: less_imp_le dest: bspec)
      moreover have "reached k' ex (k, v)" using 3 True by (simp add: reached_def)
      ultimately show ?thesis using True c l0 up pn(1) by (simp add: Let_def)
    next
      case False
      then have "\<not> reached k' ex (k, v)" using 3 by (simp add: reached_def)
      with False c l0 goRight show ?thesis by (simp add: Let_def)
    qed
  qed
qed

lemma selected_forward:
  assumes "bst rt" and "selected (seekLoop k ex True rt [] TNil 0) = (m, qs)"
  shows "upto_end m qs = filter (reached k ex) (inorder rt) \<and> (m \<noteq> TNil \<longrightarrow> is_path rt m qs)"
  using seekLoop_forward [of rt rt "[]" "[]" TNil 0 k ex] assms by (simp add: upto_end_def)

subsection \<open>Iterating\<close>

text \<open>An iterator in the middle of a treap, with the pairs from its position to the end.\<close>

definition at_position :: "iterator \<Rightarrow> (bytes \<times> bytes) list \<Rightarrow> bool" where
  "at_position it xs \<longleftrightarrow> \<not> it_isNew it \<and> it_seekKey it = None \<and> bst (it_root it) \<and>
     xs = upto_end (it_node it) (it_parents it) \<and>
     (it_node it \<noteq> TNil \<longrightarrow> is_path (it_root it) (it_node it) (it_parents it))"

fun shown :: "bytes \<times> bytes \<Rightarrow> bytes option \<times> bytes option" where
  "shown (k, v) = (Some k, Some v)"

lemma at_position_Cons:
  assumes "at_position it (x # xs)"
  shows "it_node it \<noteq> TNil \<and> x = (key (it_node it), val (it_node it)) \<and> (iter_Key it, iter_Value it) = shown x"
  using assms by (auto simp: at_position_def upto_end_def iter_Key_def iter_Value_def split: if_splits)

lemma at_position_Nil: "at_position it [] \<Longrightarrow> it_node it = TNil"
  by (auto simp: at_position_def upto_end_def split: if_splits)

text \<open>The range check of a position: it keeps it, or ends the iteration.\<close>

lemma limit_position:
  assumes "at_position it xs"
  shows "limitIterator it = (case xs of [] \<Rightarrow> (False, it)
    | x # _ \<Rightarrow> if inRange it (fst x) then (True, it) else (False, it\<lparr>it_node := TNil\<rparr>))"
proof (cases xs)
  case Nil
  then show ?thesis using at_position_Nil assms by (simp add: limitIterator_def)
next
  case (Cons x ys)
  then show ?thesis using at_position_Cons [of it x ys] assms by (simp add: limitIterator_def)
qed

lemma Next_position:
  assumes "at_position it (x # xs)"
  shows "\<exists>n ps. iter_Next it = limitIterator (it\<lparr>it_node := n, it_parents := ps\<rparr>) \<and>
    at_position (it\<lparr>it_node := n, it_parents := ps\<rparr>) xs"
proof -
  let ?n = "it_node it" and ?ps = "it_parents it"
  have n: "?n \<noteq> TNil" "is_path (it_root it) ?n ?ps" "bst (it_root it)" and xs: "xs = inorder (right ?n) @ suffix_of ?n ?ps"
    using assms at_position_Cons [OF assms] by (auto simp: at_position_def upto_end_def)
  obtain m qs where m: "(m, qs) = (if right ?n = TNil then climbRight ?n ?ps else leftmost (right ?n) (?n # ?ps))"
    by (metis surj_pair)
  have "upto_end m qs = xs \<and> (m \<noteq> TNil \<longrightarrow> is_path (it_root it) m qs)"
  proof (cases "right ?n = TNil")
    case True
    with m climbRight_upto [OF n(2,3,1), of m qs] xs show ?thesis by simp
  next
    case False
    have b: "bst ?n" using path_bst n by blast
    have "suffix_of (right ?n) (?n # ?ps) = suffix_of ?n ?ps"
      using bst_distinct_children [of "left ?n"] b False by (cases ?n) (auto dest: bst_distinct_children)
    with False m leftmost_upto [of "it_root it" "right ?n" "?n # ?ps" m qs] n(1,2) xs show ?thesis by simp
  qed
  moreover have "iter_Next it = limitIterator (it\<lparr>it_node := m, it_parents := qs\<rparr>)"
    using assms n(1) m by (auto simp: iter_Next_def at_position_def Let_def split: prod.split)
  ultimately show ?thesis using assms by (auto simp: at_position_def)
qed

lemma iterate_end: "\<not> it_isNew it \<Longrightarrow> it_node it = TNil \<Longrightarrow> iterate n it = []"
  by (cases n) (simp_all add: iter_Next_def)

text \<open>One round: the iterator moves on, as \<open>mv\<close> says, and the loop goes on from there.\<close>

lemma iterate_round:
  assumes "iter_Next it = limitIterator it'" and "at_position it' xs"
    and "\<And>y ys m. xs = y # ys \<Longrightarrow> iterate m it' = take m (map shown (takeWhile (inRange it' \<circ> fst) ys))"
  shows "iterate n it = take n (map shown (takeWhile (inRange it' \<circ> fst) xs))"
proof (cases n)
  case (Suc m)
  show ?thesis
  proof (cases xs)
    case Nil
    with limit_position [OF assms(2)] assms(1) Suc show ?thesis by simp
  next
    case (Cons y ys)
    with limit_position [OF assms(2)] assms(1,3) at_position_Cons [of it' y ys] assms(2) Suc show ?thesis by simp
  qed
qed simp

lemma iterate_position:
  "at_position it (x # xs) \<Longrightarrow> iterate n it = take n (map shown (takeWhile (inRange it \<circ> fst) xs))"
proof (induction xs arbitrary: it x n)
  case Nil
  then obtain m ps where nx: "iter_Next it = limitIterator (it\<lparr>it_node := m, it_parents := ps\<rparr>)"
    "at_position (it\<lparr>it_node := m, it_parents := ps\<rparr>) []" using Next_position by blast
  then show ?case using iterate_round [OF nx] by (simp add: comp_def)
next
  case (Cons y ys)
  then obtain m ps where nx: "iter_Next it = limitIterator (it\<lparr>it_node := m, it_parents := ps\<rparr>)"
    "at_position (it\<lparr>it_node := m, it_parents := ps\<rparr>) (y # ys)" using Next_position by blast
  have same: "inRange (it\<lparr>it_node := m, it_parents := ps\<rparr>) = inRange it" by (simp add: inRange_def fun_eq_iff)
  from Cons.IH [OF nx(2)] have "iterate n it = take n (map shown (takeWhile (inRange (it\<lparr>it_node := m, it_parents := ps\<rparr>) \<circ> fst) (y # ys)))"
    by (intro iterate_round [OF nx]) (simp add: comp_def)
  then show ?case by (simp only: same)
qed

lemma takeWhile_sorted:
  assumes "sorted_wrt (<) (map fst xs)" and "\<And>x y. x \<in> set xs \<Longrightarrow> y \<in> set xs \<Longrightarrow> fst x < fst y \<Longrightarrow> P y \<Longrightarrow> P x"
  shows "takeWhile P xs = filter P xs"
  using assms
proof (induction xs)
  case (Cons x xs)
  show ?case
  proof (cases "P x")
    case True
    with Cons show ?thesis by auto
  next
    case False
    have "\<not> P y" if y: "y \<in> set xs" for y
    proof
      assume "P y"
      moreover have "fst x < fst y" using Cons.prems(1) y by simp
      ultimately have "P x" by (intro Cons.prems(2) [of x y]) (use y in simp_all)
      with False show False ..
    qed
    with False show ?thesis by (simp add: filter_empty_conv)
  qed
qed simp

lemma inRange_iff:
  "inRange it k \<longleftrightarrow> (case it_startKey it of None \<Rightarrow> True | Some s \<Rightarrow> s \<le> k) \<and>
     (case it_limitKey it of None \<Rightarrow> True | Some l \<Rightarrow> k < l)"
  by (auto simp: inRange_def bytesCompare_iff not_le not_less split: option.split)

lemma filter_sorted: "sorted_wrt (<) (map fst xs) \<Longrightarrow> sorted_wrt (<) (map fst (filter P xs))"
  by (induction xs) auto

text \<open>The pairs of an iterator's range.\<close>

definition ranged :: "bytes option \<Rightarrow> bytes option \<Rightarrow> (bytes \<times> bytes) list \<Rightarrow> (bytes \<times> bytes) list" where
  "ranged start limit xs = filter (\<lambda>x. (case start of None \<Rightarrow> True | Some s \<Rightarrow> s \<le> fst x) \<and>
     (case limit of None \<Rightarrow> True | Some l \<Rightarrow> fst x < l)) xs"

lemma iterate_start:
  assumes "treap_ok t"
  shows "iterate n (Iterator mu t (Some s) limit) = take n (map shown (ranged (Some s) limit (inorder (root t))))"
proof -
  let ?it = "(Iterator mu t (Some s) limit)\<lparr>it_isNew := False\<rparr>"
  obtain m qs where sel: "selected (seekLoop s True True (root t) [] TNil 0) = (m, qs)" by fastforce
  let ?at = "?it\<lparr>it_node := m, it_parents := qs\<rparr>"
  have b: "bst (root t)" using assms by (simp add: treap_ok_def)
  define xs where "xs = filter (reached s True) (inorder (root t))"
  have pos: "at_position ?at xs"
    using selected_forward [OF b sel] b by (auto simp: at_position_def Iterator_def xs_def)
  have nx: "iter_Next (Iterator mu t (Some s) limit) = limitIterator ?at"
    using sel by (simp add: iter_Next_def iter_First_def iter_seek_selected Iterator_def)
  have "iterate n (Iterator mu t (Some s) limit) = take n (map shown (takeWhile (inRange ?at \<circ> fst) xs))"
    by (rule iterate_round [OF nx pos]) (use pos iterate_position in blast)
  also have "takeWhile (inRange ?at \<circ> fst) xs = filter (inRange ?at \<circ> fst) xs"
  proof (rule takeWhile_sorted)
    show "sorted_wrt (<) (map fst xs)" using b by (simp add: xs_def bst_def filter_sorted)
  qed (auto simp: xs_def reached_def inRange_iff Iterator_def split: option.splits intro: less_trans)
  also have "filter (inRange ?at \<circ> fst) xs = ranged (Some s) limit (inorder (root t))"
    unfolding xs_def ranged_def filter_filter
    by (intro filter_cong) (auto simp: reached_def inRange_iff Iterator_def split: option.split)
  finally show ?thesis .
qed

lemma iterate_no_start:
  assumes "treap_ok t"
  shows "iterate n (Iterator mu t None limit) = take n (map shown (case inorder (root t) of [] \<Rightarrow> []
    | x # xs \<Rightarrow> x # ranged None limit xs))"
proof (cases "root t = TNil")
  case True
  then show ?thesis by (cases n) (simp_all add: iter_Next_def iter_First_def Iterator_def)
next
  case False
  let ?it = "(Iterator mu t None limit)\<lparr>it_isNew := False\<rparr>"
  obtain m qs where lm: "leftmost (root t) [] = (m, qs)" by fastforce
  let ?at = "?it\<lparr>it_node := m, it_parents := qs\<rparr>"
  have b: "bst (root t)" using assms by (simp add: treap_ok_def)
  have nx: "iter_Next (Iterator mu t None limit) = (True, ?at)"
    using lm False by (simp add: iter_Next_def iter_First_def Iterator_def)
  have pos: "at_position ?at (inorder (root t))"
    using leftmost_upto [of "root t" "root t" "[]" m qs] lm False b by (simp add: at_position_def Iterator_def)
  obtain x xs where xs: "inorder (root t) = x # xs" using False by (cases "root t"; cases "inorder (root t)") auto
  have "takeWhile (inRange ?at \<circ> fst) xs = filter (inRange ?at \<circ> fst) xs"
  proof (rule takeWhile_sorted)
    show "sorted_wrt (<) (map fst xs)" using b xs by (simp add: bst_def)
  qed (auto simp: inRange_iff Iterator_def split: option.splits intro: less_trans)
  moreover have "filter (inRange ?at \<circ> fst) xs = ranged None limit xs"
    unfolding ranged_def by (intro filter_cong) (auto simp: inRange_iff Iterator_def)
  ultimately show ?thesis
    using nx iterate_position [of ?at x xs] at_position_Cons [of ?at x xs] pos xs by (cases n) simp_all
qed

text \<open>C12: An iterator visits its range.  Over a treap built by any sequence of operations, an iterator with a start
  key, or with neither a start nor a limit, stops at exactly the pairs whose keys are at least the start key and
  below the limit, in ascending key order, and then reports that it is exhausted.\<close>

theorem iterator_visits_range:
  assumes "start \<noteq> None \<or> limit = None"
  shows "let t = fold apply_op ops NewTreap in
    iterate n (Iterator mu t start limit) = take n (map shown (ranged start limit (inorder (root t))))"
proof -
  have ok: "treap_ok (fold apply_op ops NewTreap)" using store.steps_abs [of NewTreap ops] New_ok by simp
  have "ranged None None xs = xs" for xs by (simp add: ranged_def)
  with assms iterate_start [OF ok] iterate_no_start [OF ok] show ?thesis
    by (cases start) (auto simp: Let_def split: list.split)
qed

text \<open>An iterator with only a limit can leave its range.  \<open>First\<close> checks the limit only when there is a start key:
  when every key of the treap is at or beyond the limit, the first \<open>Next\<close> of an iterator with that limit
  and no start key nevertheless stops at the smallest key.\<close>

theorem limit_without_start_is_ignored:
  assumes "treap_ok t" and "inorder (root t) = (k, v) # xs" and "l \<le> k"
  shows "\<exists>it. iter_Next (Iterator mu t None (Some l)) = (True, it) \<and> iter_Key it = Some k \<and> \<not> inRange it k"
proof -
  have "iterate 1 (Iterator mu t None (Some l)) = [(Some k, Some v)]"
    using iterate_no_start [OF assms(1), of 1 mu "Some l"] assms(2) by simp
  then obtain it where it: "iter_Next (Iterator mu t None (Some l)) = (True, it)" "iter_Key it = Some k"
    by (auto split: prod.splits bool.splits)
  have "it_limitKey it = Some l"
    using it(1) by (auto simp: iter_Next_def iter_First_def Iterator_def Let_def split: if_splits prod.splits)
  with it assms(3) show ?thesis by (auto simp: inRange_iff)
qed

theorem iterator_visits_range_witness:
  "iterate 9 (Iterator False (fold apply_op [OpPut ''b'' None 5, OpPut ''a'' None 3, OpPut ''c'' None 4] NewTreap) (Some ''b'') None)
   = [(Some ''b'', Some []), (Some ''c'', Some [])]"
  using iterator_visits_range [where start = "Some ''b''" and limit = None and n = 9 and mu = False and ops = "[OpPut ''b'' None 5, OpPut ''a'' None 3, OpPut ''c'' None 4]"]
  by (simp add: Put_def NewTreap_def newTreapNode_def ranged_def)

theorem limit_without_start_is_ignored_witness:
  "\<exists>it. iter_Next (Iterator False (Put ''m'' None 1 NewTreap) None (Some ''c'')) = (True, it) \<and> iter_Key it = Some ''m'' \<and>
     \<not> inRange it ''m''"
  by (rule limit_without_start_is_ignored [of _ _ "[]" "[]"]) (simp_all add: Put_ok New_ok, simp_all add: Put_def NewTreap_def newTreapNode_def)

end
