(* ===== verification/Coin_Difficulty.thy ===== *)
theory Coin_Difficulty
  imports Go_Floats "HOL-Library.Word"
begin

text \<open>
  Proof of work and coin supply of the coin node: the compact form of a target and the work of a block
  (\<open>src/btcd/blockchain/internal/workmath\<close>), the required difficulty (\<open>blockchain/difficulty.go\<close>), the proof-of-work
  check and the block subsidy (\<open>blockchain/validate.go\<close>) and the parameters of the main network
  (\<open>chaincfg/params.go\<close>).  A \<open>big.Int\<close> is an \<open>int\<close>, a \<open>uint32\<close> a \<open>32 word\<close>, a duration the \<open>int\<close> of its nanoseconds.
  A header with its parents is a list, the newest first; the skip pointers of the block index only
  shorten the walk along it and are left out.

  The lemmas show what the compact form keeps of a number, that required targets stay within the limit of the
  network, that accepted blocks add work, that the supply is bounded, and that OrcaNet's parameters
  reduce the required difficulty to the minimum for almost every block.
\<close>

unbundle bit_operations_syntax

subsection \<open>Targets\<close>

definition HashToBig :: "8 word list \<Rightarrow> int" where
  "HashToBig hash = foldl (\<lambda>n b. n * 256 + uint b) 0 (rev hash)"

definition CompactToBig :: "32 word \<Rightarrow> int" where
  "CompactToBig c =
    (let mantissa = c AND 0x007fffff; isNegative = (c AND 0x00800000 \<noteq> 0);
         e = unat (drop_bit 24 c);
         bn = (if e \<le> 3 then uint (drop_bit (8 * (3 - e)) mantissa) else push_bit (8 * (e - 3)) (uint mantissa))
     in if isNegative then - bn else bn)"

text \<open>The length of \<open>n.Bytes()\<close>, the big-endian bytes of the absolute value.\<close>

fun byteLen :: "nat \<Rightarrow> nat" where
  "byteLen n = (if n = 0 then 0 else 1 + byteLen (n div 256))"

declare byteLen.simps [simp del]

definition BigToCompact :: "int \<Rightarrow> 32 word" where
  "BigToCompact n =
    (if n = 0 then 0
     else
       let e = byteLen (nat \<bar>n\<bar>);
           mantissa = (if e \<le> 3 then push_bit (8 * (3 - e)) (of_int \<bar>n\<bar>) else of_int \<bar>drop_bit (8 * (e - 3)) n\<bar>);
           (mantissa, e) = (if mantissa AND 0x00800000 \<noteq> 0 then (drop_bit 8 mantissa, e + 1) else (mantissa, e));
           c = of_nat (push_bit 24 e) OR mantissa
       in if n < 0 then c OR 0x00800000 else c)"

definition CalcWork :: "32 word \<Rightarrow> int" where
  "CalcWork bits = (let difficultyNum = CompactToBig bits in
     if difficultyNum \<le> 0 then 0 else 2 ^ 256 div (difficultyNum + 1))"

subsection \<open>The network's parameters\<close>

record params =
  PowLimit :: int
  PowLimitBits :: "32 word"
  PoWNoRetargeting :: bool
  CoinbaseMaturity :: int
  SubsidyReductionInterval :: int
  TargetTimespan :: int
  TargetTimePerBlock :: int
  RetargetAdjustmentFactor :: int
  ReduceMinDifficulty :: bool
  MinDiffReductionTime :: int

definition second :: int where
  "second = 1000000000"

definition MainNetParams :: params where
  "MainNetParams = \<lparr>PowLimit = 2 ^ 224 - 1, PowLimitBits = 0x1d00ffff, PoWNoRetargeting = False, CoinbaseMaturity = 1,
    SubsidyReductionInterval = 210000, TargetTimespan = 14 * 24 * 3600 * second, TargetTimePerBlock = 600 * second,
    RetargetAdjustmentFactor = 4, ReduceMinDifficulty = True, MinDiffReductionTime = 0\<rparr>"

definition minRetargetTimespan :: "params \<Rightarrow> int" where
  "minRetargetTimespan p = go_div (go_div (TargetTimespan p) second) (RetargetAdjustmentFactor p)"

definition maxRetargetTimespan :: "params \<Rightarrow> int" where
  "maxRetargetTimespan p = wrap64 (go_div (TargetTimespan p) second * RetargetAdjustmentFactor p)"

definition blocksPerRetarget :: "params \<Rightarrow> int" where
  "blocksPerRetarget p = go_div (go_div (TargetTimespan p) second) (go_div (TargetTimePerBlock p) second)"

subsection \<open>The required difficulty\<close>

record header =
  hd_height :: int
  hd_bits :: "32 word"
  hd_time :: int

definition go_rem :: "int \<Rightarrow> int \<Rightarrow> int" where
  "go_rem a b = a - b * go_div a b"

text \<open>\<open>Ancestor\<close> and \<open>RelativeAncestor\<close>: the walk along the parents to a height.\<close>

definition Ancestor :: "int \<Rightarrow> header list \<Rightarrow> header list" where
  "Ancestor height node = (case node of
      [] \<Rightarrow> []
    | n # _ \<Rightarrow> if height < 0 \<or> height > hd_height n then [] else dropWhile (\<lambda>m. hd_height m \<noteq> height) node)"

definition RelativeAncestor :: "int \<Rightarrow> header list \<Rightarrow> header list" where
  "RelativeAncestor distance node = (case node of [] \<Rightarrow> [] | n # _ \<Rightarrow> Ancestor (hd_height n - distance) node)"

fun findPrevTestNetDifficulty :: "params \<Rightarrow> header list \<Rightarrow> 32 word" where
  "findPrevTestNetDifficulty p [] = PowLimitBits p"
| "findPrevTestNetDifficulty p (n # ns) =
    (if go_rem (hd_height n) (blocksPerRetarget p) \<noteq> 0 \<and> hd_bits n = PowLimitBits p
     then findPrevTestNetDifficulty p ns else hd_bits n)"

text \<open>The target after a retarget interval that took \<open>actualTimespan\<close> seconds.\<close>

definition retarget :: "params \<Rightarrow> 32 word \<Rightarrow> int \<Rightarrow> int" where
  "retarget p bits actualTimespan =
    (let adjustedTimespan = (if actualTimespan < minRetargetTimespan p then minRetargetTimespan p
           else if actualTimespan > maxRetargetTimespan p then maxRetargetTimespan p else actualTimespan);
         newTarget = CompactToBig bits * adjustedTimespan div go_div (TargetTimespan p) second
     in if newTarget > PowLimit p then PowLimit p else newTarget)"

definition calcNextRequiredDifficulty :: "params \<Rightarrow> header list \<Rightarrow> int \<Rightarrow> 32 word outcome" where
  "calcNextRequiredDifficulty p chain newBlockTime =
    (if PoWNoRetargeting p then Ok (PowLimitBits p)
     else case chain of
       [] \<Rightarrow> Ok (PowLimitBits p)
     | lastNode # _ \<Rightarrow>
         if go_rem (hd_height lastNode + 1) (blocksPerRetarget p) \<noteq> 0 then
           (if ReduceMinDifficulty p then
              (let allowMinTime = hd_time lastNode + go_div (MinDiffReductionTime p) second in
               if newBlockTime > allowMinTime then Ok (PowLimitBits p)
               else Ok (findPrevTestNetDifficulty p chain))
            else Ok (hd_bits lastNode))
         else (case RelativeAncestor (blocksPerRetarget p - 1) chain of
             [] \<Rightarrow> Err ''unable to obtain previous retarget block''
           | firstNode # _ \<Rightarrow>
               Ok (BigToCompact (retarget p (hd_bits lastNode) (hd_time lastNode - hd_time firstNode)))))"

text \<open>\<open>calcEasiestDifficulty\<close>: the loop may not end for every setting of the parameters.\<close>

partial_function (option) easiestLoop :: "params \<Rightarrow> int \<Rightarrow> int \<Rightarrow> int option" where
  "easiestLoop p durationVal newTarget =
    (if durationVal > 0 \<and> newTarget < PowLimit p
     then easiestLoop p (durationVal - maxRetargetTimespan p) (newTarget * RetargetAdjustmentFactor p)
     else Some newTarget)"

definition calcEasiestDifficulty :: "params \<Rightarrow> 32 word \<Rightarrow> int \<Rightarrow> 32 word option" where
  "calcEasiestDifficulty p bits duration =
    (let durationVal = go_div duration second in
     if ReduceMinDifficulty p \<and> durationVal > go_div (MinDiffReductionTime p) second then Some (PowLimitBits p)
     else map_option (\<lambda>t. BigToCompact (if t > PowLimit p then PowLimit p else t))
            (easiestLoop p durationVal (CompactToBig bits)))"

subsection \<open>Checking a block's proof of work\<close>

datatype rule_error = ErrUnexpectedDifficulty | ErrHighHash

definition checkProofOfWork :: "32 word \<Rightarrow> 8 word list \<Rightarrow> int \<Rightarrow> bool \<Rightarrow> rule_error option" where
  "checkProofOfWork bits blockHash powLimit noPoWCheck =
    (let target = CompactToBig bits in
     if target \<le> 0 then Some ErrUnexpectedDifficulty
     else if target > powLimit then Some ErrUnexpectedDifficulty
     else if \<not> noPoWCheck \<and> HashToBig blockHash > target then Some ErrHighHash
     else None)"

subsection \<open>The subsidy\<close>

definition baseSubsidy :: int where
  "baseSubsidy = 50 * 100000000"

text \<open>A shift count is read as an unsigned number: a negative quotient shifts everything out.\<close>

definition CalcBlockSubsidy :: "int \<Rightarrow> params \<Rightarrow> int" where
  "CalcBlockSubsidy height p =
    (if SubsidyReductionInterval p = 0 then baseSubsidy
     else let q = go_div height (SubsidyReductionInterval p) in
       if q < 0 then 0 else drop_bit (nat q) baseSubsidy)"

subsection \<open>Supply\<close>

lemma halving_sum: "(\<Sum>i<k. b div 2 ^ i) + 2 * (b div 2 ^ k) \<le> 2 * (b :: nat)"
proof (induction k)
  case (Suc k)
  have "b div 2 ^ Suc k = b div 2 ^ k div 2" by (simp only: power_Suc2 div_mult2_eq)
  then have "2 * (b div 2 ^ Suc k) \<le> b div 2 ^ k" by simp
  with Suc show ?case by simp
qed simp

lemma subsidy_nat: "CalcBlockSubsidy (int h) MainNetParams = int (5000000000 div 2 ^ (h div 210000))"
proof -
  have "go_div (int h) 210000 = int (h div 210000)" by (simp add: go_div_nonneg zdiv_int)
  then show ?thesis
    by (simp add: CalcBlockSubsidy_def MainNetParams_def baseSubsidy_def Let_def drop_bit_eq_div zdiv_int nat_div_distrib
        pos_imp_zdiv_neg_iff)
qed

lemma sum_intervals: "(\<Sum>h<210000 * k. f (h div 210000)) = 210000 * (\<Sum>i<k. f i)" for f :: "nat \<Rightarrow> nat"
proof (induction k)
  case (Suc k)
  have "{..<210000 * Suc k} = {..<210000 * k} \<union> {210000 * k..<210000 * k + 210000}" by auto
  then have "(\<Sum>h<210000 * Suc k. f (h div 210000)) =
      (\<Sum>h<210000 * k. f (h div 210000)) + (\<Sum>h = 210000 * k..<210000 * k + 210000. f (h div 210000))"
    by (simp add: sum.union_disjoint ivl_disj_int)
  also have "(\<Sum>h = 210000 * k..<210000 * k + 210000. f (h div 210000)) = (\<Sum>h = 210000 * k..<210000 * k + 210000. f k)"
  proof (rule sum.cong [OF refl])
    fix h
    assume "h \<in> {210000 * k..<210000 * k + 210000}"
    then have "h div 210000 = k" by (intro div_nat_eqI) auto
    then show "f (h div 210000) = f k" by simp
  qed
  also have "\<dots> = 210000 * f k" by simp
  finally show ?case using Suc by (simp add: distrib_left)
qed simp

lemma subsidies_bounded: "(\<Sum>h<n. CalcBlockSubsidy (int h) MainNetParams) \<le> 21000000 * 100000000"
proof -
  let ?f = "\<lambda>i. 5000000000 div 2 ^ i :: nat"
  have "(\<Sum>h<n. ?f (h div 210000)) \<le> (\<Sum>h<210000 * Suc (n div 210000). ?f (h div 210000))"
  proof (rule sum_mono2)
    have "n \<le> 210000 * Suc (n div 210000)" using mult_div_mod_eq [of 210000 n] mod_less_divisor [of 210000 n] by simp
    then show "{..<n} \<subseteq> {..<210000 * Suc (n div 210000)}" by auto
  qed simp_all
  also have "\<dots> = 210000 * (\<Sum>i<Suc (n div 210000). ?f i)" by (rule sum_intervals)
  also have "\<dots> \<le> 210000 * (2 * 5000000000)"
    using halving_sum [where b = 5000000000 and k = "Suc (n div 210000)"] by (intro mult_le_mono2) linarith
  finally have "int (\<Sum>h<n. ?f (h div 210000)) \<le> 2100000000000000" by linarith
  then show ?thesis by (simp add: subsidy_nat)
qed

text \<open>The coin supply is bounded.  However long the main chain grows, the subsidies of its blocks add up to at most
  21 million coins.\<close>

theorem supply_bounded: "(\<Sum>h<n. CalcBlockSubsidy (int h) MainNetParams) \<le> 21000000 * 100000000"
  by (rule subsidies_bounded)

subsection \<open>The compact form\<close>

lemma unat_small32: "m < 2 ^ 32 \<Longrightarrow> unat (of_nat m :: 32 word) = m"
  by (simp add: unat_of_nat)

text \<open>Exponent and mantissa do not overlap.\<close>

lemma unat_compact:
  assumes "e < 256" and "m < 2 ^ 24"
  shows "unat (of_nat (push_bit 24 e) OR of_nat m :: 32 word) = e * 2 ^ 24 + m"
proof -
  let ?a = "of_nat (push_bit 24 e) :: 32 word" and ?b = "of_nat m :: 32 word"
  have "?a AND ?b = 0"
  proof (rule bit_eqI)
    fix i
    have "bit m i \<Longrightarrow> i < 24" using assms(2) by (metis bit_take_bit_iff take_bit_nat_eq_self)
    then show "bit (?a AND ?b) i = bit 0 i" by (auto simp: bit_simps)
  qed
  then have "?a OR ?b = of_nat (e * 2 ^ 24 + m)" by (simp add: disjunctive_add_eq_or [symmetric] push_bit_eq_mult)
  moreover have "e * 2 ^ 24 + m < 2 ^ 32" using assms by simp
  ultimately show ?thesis by (simp only: unat_small32)
qed

lemma sign_bit: "c AND 0x00800000 \<noteq> 0 \<longleftrightarrow> odd (unat c div 2 ^ 23)" for c :: "32 word"
proof -
  have "(0x00800000 :: 32 word) = 2 ^ 23" by simp
  then have "c AND 0x00800000 \<noteq> 0 \<longleftrightarrow> bit c 23" by (simp only: and_exp_eq_0_iff_not_bit not_not)
  also have "\<dots> \<longleftrightarrow> bit (unat c) 23" by (simp add: bit_unsigned_iff)
  also have "\<dots> \<longleftrightarrow> odd (unat c div 2 ^ 23)" by (rule bit_iff_odd)
  finally show ?thesis .
qed

lemma compact_value:
  assumes "unat c = e * 2 ^ 24 + m" and "m < 2 ^ 23"
  shows "CompactToBig c = int (if e \<le> 3 then m div 256 ^ (3 - e) else m * 256 ^ (e - 3))"
proof -
  have "(0x007fffff :: 32 word) = mask 23" by (simp add: mask_eq_exp_minus_1)
  then have "c AND 0x007fffff = take_bit 23 c" by (simp only: take_bit_eq_mask)
  then have "unat (c AND 0x007fffff) = take_bit 23 (unat c)" by (simp only: unsigned_take_bit_eq)
  also have "\<dots> = (m + (2 * e) * 2 ^ 23) mod 2 ^ 23" using assms(1) by (simp add: take_bit_eq_mod add.commute mult.commute)
  also have "\<dots> = m" using assms(2) by (simp only: mod_mult_self1 mod_less)
  finally have man: "unat (c AND 0x007fffff) = m" .
  have "unat (drop_bit 24 c) = unat c div 2 ^ 24" unfolding unat_drop_bit_eq by (simp add: drop_bit_eq_div)
  also have "\<dots> = e" using assms by simp
  finally have ex: "unat (drop_bit 24 c) = e" .
  have "unat c div 2 ^ 23 = 2 * e" using assms by simp
  then have pos: "\<not> (c AND 0x00800000 \<noteq> 0)" unfolding sign_bit by simp
  have u: "uint w = int (unat w)" for w :: "32 word" by simp
  have "unat (drop_bit (8 * (3 - e)) (c AND 0x007fffff)) = m div 256 ^ (3 - e)"
    unfolding unat_drop_bit_eq man by (simp add: drop_bit_eq_div power_mult)
  then show ?thesis
    unfolding CompactToBig_def Let_def ex u man using pos by (simp add: push_bit_eq_mult power_mult)
qed

lemma byteLen_bounds: "0 < n \<Longrightarrow> 256 ^ (byteLen n - 1) \<le> n \<and> n < 256 ^ byteLen n \<and> 0 < byteLen n"
proof (induction n rule: byteLen.induct)
  case (1 n)
  show ?case
  proof (cases "n div 256 = 0")
    case True
    then have "byteLen n = 1" using 1 by (simp add: byteLen.simps [of n] byteLen.simps [of 0])
    with True 1 show ?thesis by simp
  next
    case False
    let ?k = "byteLen (n div 256)"
    have ih: "256 ^ (?k - 1) \<le> n div 256" "n div 256 < 256 ^ ?k" "0 < ?k" using 1 False by auto
    have len: "byteLen n = Suc ?k" using 1 by (simp add: byteLen.simps [of n])
    have "256 ^ ?k = 256 * 256 ^ (?k - 1)" using ih(3) by (metis Suc_diff_1 power_Suc)
    also have "\<dots> \<le> 256 * (n div 256)" using ih(1) by simp
    also have "\<dots> \<le> n" by simp
    finally have "256 ^ ?k \<le> n" .
    moreover have "n < 256 * 256 ^ ?k" using ih(2) by (simp add: div_less_iff_less_mult mult.commute)
    ultimately show ?thesis using len by simp
  qed
qed

lemma byteLen_le:
  assumes "n < 256 ^ k"
  shows "byteLen n \<le> k"
proof (cases "n = 0")
  case True
  then show ?thesis by (simp add: byteLen.simps)
next
  case False
  then have "(256 :: nat) ^ (byteLen n - 1) < 256 ^ k" using byteLen_bounds [of n] assms by linarith
  then have "byteLen n - 1 < k" by (simp add: power_less_imp_less_exp)
  then show ?thesis by simp
qed

text \<open>The leading three bytes of a number, and the compact form built from them.\<close>

definition lead :: "nat \<Rightarrow> nat" where
  "lead n = (if byteLen n \<le> 3 then n * 256 ^ (3 - byteLen n) else n div 256 ^ (byteLen n - 3))"

lemma lead_bounds:
  assumes "0 < n"
  shows "lead n < 2 ^ 24"
proof -
  have b: "n < 256 ^ byteLen n" "0 < byteLen n" using byteLen_bounds [OF assms] by auto
  show ?thesis
  proof (cases "byteLen n \<le> 3")
    case True
    have "n * 256 ^ (3 - byteLen n) < 256 ^ byteLen n * 256 ^ (3 - byteLen n)" using b(1) by simp
    also have "\<dots> = 256 ^ 3" using True by (simp add: power_add [symmetric])
    finally show ?thesis using True by (simp add: lead_def)
  next
    case False
    have "(256 :: nat) ^ byteLen n = 256 ^ 3 * 256 ^ (byteLen n - 3)" using False by (simp only: power_add [symmetric]) simp
    with b(1) have "n < 256 ^ 3 * 256 ^ (byteLen n - 3)" by (simp only:)
    then have "n div 256 ^ (byteLen n - 3) < 256 ^ 3" by (simp add: div_less_iff_less_mult)
    with False show ?thesis by (simp add: lead_def)
  qed
qed

lemma BigToCompact_nat:
  assumes "0 < n" and "n < 256 ^ 200"
  shows "unat (BigToCompact (int n)) =
    (if lead n < 2 ^ 23 then byteLen n * 2 ^ 24 + lead n else (byteLen n + 1) * 2 ^ 24 + lead n div 256)"
proof -
  let ?e = "byteLen n"
  have e: "?e \<le> 200" using byteLen_le [OF assms(2)] .
  have l: "lead n < 2 ^ 24" using lead_bounds [OF assms(1)] .
  have m: "(if ?e \<le> 3 then push_bit (8 * (3 - ?e)) (of_int \<bar>int n\<bar>) else of_int \<bar>drop_bit (8 * (?e - 3)) (int n)\<bar>) =
      (of_nat (lead n) :: 32 word)"
  proof -
    have "of_int \<bar>drop_bit k (int n)\<bar> = (of_nat (drop_bit k n) :: 32 word)" for k
      by (simp only: drop_bit_of_nat abs_of_nat of_int_of_nat_eq)
    moreover have "drop_bit (8 * (?e - 3)) n = n div 256 ^ (?e - 3)" by (simp add: drop_bit_eq_div power_mult)
    ultimately show ?thesis by (simp add: lead_def push_bit_eq_mult power_mult del: drop_bit_of_nat)
  qed
  have ul: "unat (of_nat (lead n) :: 32 word) = lead n" using l by (simp add: unat_small32)
  have sign: "((of_nat (lead n) :: 32 word) AND 0x00800000 \<noteq> 0) \<longleftrightarrow> \<not> lead n < 2 ^ 23"
  proof -
    have "odd (lead n div 2 ^ 23) \<longleftrightarrow> \<not> lead n < 2 ^ 23"
    proof (cases "lead n < 2 ^ 23")
      case False
      then have "lead n div 2 ^ 23 = 1" using l by (intro div_nat_eqI) auto
      with False show ?thesis by simp
    qed simp
    then show ?thesis unfolding sign_bit ul .
  qed
  have "drop_bit 8 (of_nat (lead n) :: 32 word) = of_nat (lead n div 256)"
  proof -
    have "unat (drop_bit 8 (of_nat (lead n) :: 32 word)) = lead n div 256"
      unfolding unat_drop_bit_eq ul by (simp add: drop_bit_eq_div)
    also have "\<dots> = unat (of_nat (lead n div 256) :: 32 word)" using l by (simp add: unat_small32)
    finally show ?thesis by (simp only: word_unat_eq_iff)
  qed
  then have c: "BigToCompact (int n) = (if lead n < 2 ^ 23 then of_nat (push_bit 24 ?e) OR of_nat (lead n)
      else of_nat (push_bit 24 (?e + 1)) OR of_nat (lead n div 256))"
    using assms(1) unfolding BigToCompact_def Let_def nat_int abs_of_nat m [unfolded abs_of_nat] sign by simp
  show ?thesis
  proof (cases "lead n < 2 ^ 23")
    case True
    with c l e show ?thesis by (simp only: if_True) (rule unat_compact, simp_all)
  next
    case False
    have "lead n div 256 < 2 ^ 24" using l by simp
    with c e False show ?thesis by (simp only: if_False) (rule unat_compact, simp_all)
  qed
qed

text \<open>The compact form drops the low bytes of a number.\<close>

lemma compact_truncates_nat:
  assumes "n < 256 ^ 200"
  shows "\<exists>k \<le> byteLen n - 2. CompactToBig (BigToCompact (int n)) = int (n div 256 ^ k * 256 ^ k)"
proof (cases "n = 0")
  case True
  then show ?thesis by (intro exI [of _ 0]) (simp add: BigToCompact_def CompactToBig_def)
next
  case False
  let ?e = "byteLen n"
  have n: "0 < n" using False by simp
  have l: "lead n < 2 ^ 24" using lead_bounds [OF n] .
  show ?thesis
  proof (cases "lead n < 2 ^ 23")
    case True
    have v: "CompactToBig (BigToCompact (int n)) = int (if ?e \<le> 3 then lead n div 256 ^ (3 - ?e) else lead n * 256 ^ (?e - 3))"
      by (rule compact_value) (use BigToCompact_nat [OF n assms] True in simp_all)
    then show ?thesis
      by (intro exI [of _ "?e - 3"]) (auto simp: lead_def)
  next
    case False
    have v: "CompactToBig (BigToCompact (int n)) =
        int (if ?e + 1 \<le> 3 then lead n div 256 div 256 ^ (3 - (?e + 1)) else lead n div 256 * 256 ^ (?e + 1 - 3))"
      by (rule compact_value) (use BigToCompact_nat [OF n assms] False l in simp_all)
    also have "(if ?e + 1 \<le> 3 then lead n div 256 div 256 ^ (3 - (?e + 1)) else lead n div 256 * 256 ^ (?e + 1 - 3)) =
        n div 256 ^ (?e - 2) * 256 ^ (?e - 2)"
    proof (cases "?e \<le> 2")
      case True
      then have "256 * 256 ^ (2 - ?e) = (256 :: nat) ^ (3 - ?e)" by (simp only: power_Suc [symmetric] Suc_diff_le [symmetric]) simp
      moreover have "lead n = n * 256 ^ (3 - ?e)" using True by (simp add: lead_def)
      ultimately have "lead n div 256 div 256 ^ (2 - ?e) = n" by (simp add: div_mult2_eq [symmetric])
      then show ?thesis using True by simp
    next
      case False
      then have "Suc (?e - 3) = ?e - 2" by simp
      then have "256 ^ (?e - 3) * 256 = (256 :: nat) ^ (?e - 2)" by (metis power_Suc2)
      then show ?thesis using False by (cases "?e = 3") (simp_all add: lead_def div_mult2_eq [symmetric])
    qed
    finally show ?thesis by blast
  qed
qed

lemma compact_truncates_int:
  assumes "0 \<le> n" and "n < 2 ^ 256"
  shows "0 \<le> CompactToBig (BigToCompact n) \<and> CompactToBig (BigToCompact n) \<le> n \<and>
    n - CompactToBig (BigToCompact n) < 256 ^ (byteLen (nat n) - 2)"
proof -
  obtain m where m: "n = int m" using assms(1) nonneg_int_cases by blast
  have "m < 2 ^ 256" using assms(2) m by (simp add: nat_less_numeral_power_cancel_iff flip: of_nat_less_iff)
  then have "m < 256 ^ 200" by (rule less_le_trans) simp
  then obtain k where k: "k \<le> byteLen m - 2" "CompactToBig (BigToCompact n) = int (m div 256 ^ k * 256 ^ k)"
    using compact_truncates_nat m by blast
  have le: "m div 256 ^ k * 256 ^ k \<le> m" by simp
  moreover have "m - m div 256 ^ k * 256 ^ k < 256 ^ k" by (simp add: minus_div_mult_eq_mod)
  moreover have "(256 :: nat) ^ k \<le> 256 ^ (byteLen m - 2)" using k(1) by (intro power_increasing) simp_all
  ultimately have "int m - int (m div 256 ^ k * 256 ^ k) < int (256 ^ (byteLen m - 2))" by linarith
  moreover have "int (m div 256 ^ k * 256 ^ k) \<le> int m" using le by (simp only: of_nat_le_iff)
  ultimately show ?thesis using k(2) m by simp
qed

text \<open>The compact form is the number without its low bytes.  Converting a nonnegative number below \<open>2 ^ 256\<close> to the
  compact form and back never exceeds it, and loses less than the value of the lowest digit but two
  of its base 256 form; numbers of at most two bytes are exact.\<close>

theorem compact_truncates:
  assumes "0 \<le> n" and "n < 2 ^ 256"
  shows "0 \<le> CompactToBig (BigToCompact n) \<and> CompactToBig (BigToCompact n) \<le> n \<and>
    n - CompactToBig (BigToCompact n) < 256 ^ (byteLen (nat n) - 2)"
  using assms by (rule compact_truncates_int)

subsection \<open>Required targets\<close>

lemma mainnet_params:
  "blocksPerRetarget MainNetParams = 2016" "minRetargetTimespan MainNetParams = 302400"
  "maxRetargetTimespan MainNetParams = 4838400" "go_div (TargetTimespan MainNetParams) second = 1209600"
  "go_div (MinDiffReductionTime MainNetParams) second = 0" "CompactToBig (PowLimitBits MainNetParams) = 0xffff * 2 ^ 208"
proof -
  have "CompactToBig 0x1d00ffff = int (if 29 \<le> (3 :: nat) then 0xffff div 256 ^ (3 - 29) else 0xffff * 256 ^ (29 - 3))"
    by (rule compact_value) simp_all
  then show "CompactToBig (PowLimitBits MainNetParams) = 0xffff * 2 ^ 208" by (simp add: MainNetParams_def)
qed (simp_all add: blocksPerRetarget_def minRetargetTimespan_def maxRetargetTimespan_def MainNetParams_def second_def go_div_def
    wrap64_def)

text \<open>A target of the network: positive, and at most the limit.\<close>

definition target_ok :: "32 word \<Rightarrow> bool" where
  "target_ok bits \<longleftrightarrow> 0 \<le> CompactToBig bits \<and> CompactToBig bits \<le> PowLimit MainNetParams"

lemma limit_ok: "target_ok (PowLimitBits MainNetParams)"
  unfolding target_ok_def mainnet_params by (simp add: MainNetParams_def)

lemma findPrev_ok: "\<forall>h \<in> set chain. target_ok (hd_bits h) \<Longrightarrow> target_ok (findPrevTestNetDifficulty MainNetParams chain)"
  by (induction MainNetParams chain rule: findPrevTestNetDifficulty.induct) (simp_all add: limit_ok)

lemma retarget_bounds:
  assumes "target_ok bits"
  shows "0 \<le> retarget MainNetParams bits t \<and> retarget MainNetParams bits t \<le> PowLimit MainNetParams \<and>
    retarget MainNetParams bits t \<le> 4 * CompactToBig bits \<and>
    (CompactToBig bits div 4 \<le> retarget MainNetParams bits t)"
proof -
  define a where "a = (if t < 302400 then 302400 else if t > 4838400 then 4838400 else t)"
  define x where "x = CompactToBig bits"
  have a: "302400 \<le> a" "a \<le> 4838400" by (auto simp: a_def)
  have x: "0 \<le> x" "x \<le> PowLimit MainNetParams" using assms by (auto simp: target_ok_def x_def)
  have r: "retarget MainNetParams bits t = min (x * a div 1209600) (PowLimit MainNetParams)"
    unfolding retarget_def mainnet_params x_def a_def by (auto simp: Let_def)
  have "0 \<le> x * a" using a x by simp
  moreover have "x * a \<le> x * 4838400" using a x by (intro mult_left_mono) auto
  moreover have "x * 302400 \<le> x * a" using a x by (intro mult_left_mono) auto
  ultimately have "0 \<le> x * a div 1209600" "x * a div 1209600 \<le> 4 * x" "x div 4 \<le> x * a div 1209600" by linarith+
  moreover have "x div 4 \<le> x" "0 \<le> PowLimit MainNetParams" using x by linarith+
  ultimately show ?thesis unfolding r x_def [symmetric] using x by (auto simp: min_def)
qed

text \<open>C30: Required targets stay within the network's limit.  When the targets of all blocks of a chain are between zero
  and the limit, so is the target the main network requires of the next block, whatever its time.\<close>

theorem required_target_in_range:
  assumes "\<forall>h \<in> set chain. target_ok (hd_bits h)" and "calcNextRequiredDifficulty MainNetParams chain t = Ok bits"
  shows "target_ok bits"
proof (cases chain)
  case Nil
  then show ?thesis using assms(2) limit_ok by (auto simp: calcNextRequiredDifficulty_def MainNetParams_def)
next
  case (Cons h hs)
  have no: "PoWNoRetargeting MainNetParams = False" "ReduceMinDifficulty MainNetParams = True"
    by (simp_all add: MainNetParams_def)
  have compact: "target_ok (BigToCompact (retarget MainNetParams (hd_bits h) d))" for d
  proof -
    have r: "0 \<le> retarget MainNetParams (hd_bits h) d" "retarget MainNetParams (hd_bits h) d \<le> PowLimit MainNetParams"
      using retarget_bounds [of "hd_bits h" d] assms(1) Cons by auto
    then have "retarget MainNetParams (hd_bits h) d < 2 ^ 256" by (simp add: MainNetParams_def)
    from compact_truncates_int [OF r(1) this] r(2) show ?thesis unfolding target_ok_def by linarith
  qed
  show ?thesis
    using assms(2) Cons limit_ok findPrev_ok [OF assms(1)] compact
    by (auto simp: calcNextRequiredDifficulty_def no Let_def split: if_splits list.splits)
qed

text \<open>OrcaNet's main network mines at the minimum difficulty.  Its parameters reduce the required difficulty once no
  time at all has passed: off the retarget heights, every block that is later than its parent needs only
  the minimum difficulty, however much work the chain before it has.\<close>

theorem mainnet_minimum_difficulty:
  assumes "(hd_height h + 1) mod 2016 \<noteq> 0" and "0 \<le> hd_height h" and "hd_time h < t"
  shows "calcNextRequiredDifficulty MainNetParams (h # hs) t = Ok 0x1d00ffff"
proof -
  have "go_rem (hd_height h + 1) 2016 \<noteq> 0"
    using assms(1,2) by (simp add: go_rem_def go_div_nonneg minus_mult_div_eq_mod)
  then show ?thesis
    using assms(3) unfolding calcNextRequiredDifficulty_def mainnet_params by (simp add: MainNetParams_def)
qed

text \<open>An accepted block adds work.  A header that passes the proof-of-work check against the limit of the main
  network has a hash not above its target, and its work counts for at least one; a smaller target never counts
  for less.\<close>

theorem accepted_block_adds_work:
  assumes "checkProofOfWork bits blockHash (PowLimit MainNetParams) False = None"
  shows "HashToBig blockHash \<le> CompactToBig bits \<and> 1 \<le> CalcWork bits \<and>
    (\<forall>bits'. 0 < CompactToBig bits' \<and> CompactToBig bits' \<le> CompactToBig bits \<longrightarrow> CalcWork bits \<le> CalcWork bits')"
proof -
  have t: "0 < CompactToBig bits" "CompactToBig bits \<le> PowLimit MainNetParams" "HashToBig blockHash \<le> CompactToBig bits"
    using assms by (auto simp: checkProofOfWork_def Let_def split: if_splits)
  have "CompactToBig bits + 1 \<le> 2 ^ 256" using t(2) by (simp add: MainNetParams_def)
  then have "1 \<le> (2 :: int) ^ 256 div (CompactToBig bits + 1)"
    using t(1) pos_imp_zdiv_pos_iff [of "CompactToBig bits + 1" "2 ^ 256"] by linarith
  moreover have "CalcWork bits \<le> CalcWork bits'" if "0 < CompactToBig bits'" "CompactToBig bits' \<le> CompactToBig bits" for bits'
    using that t(1) by (auto simp: CalcWork_def Let_def intro!: zdiv_mono2)
  ultimately show ?thesis using t by (auto simp: CalcWork_def Let_def)
qed

text \<open>The search for the easiest difficulty ends whenever a retarget interval lasts some time.\<close>

lemma easiestLoop_returns:
  assumes "0 < maxRetargetTimespan p"
  shows "\<exists>y. easiestLoop p d x = Some y"
proof (induction "nat d" arbitrary: d x rule: less_induct)
  case less
  show ?case
  proof (cases "d > 0 \<and> x < PowLimit p")
    case True
    then have "nat (d - maxRetargetTimespan p) < nat d" using assms by simp
    with less True show ?thesis by (subst easiestLoop.simps) simp
  qed (subst easiestLoop.simps, auto)
qed

lemma calcEasiestDifficulty_returns: "0 < maxRetargetTimespan p \<Longrightarrow> \<exists>b. calcEasiestDifficulty p bits d = Some b"
  using easiestLoop_returns [of p "go_div d second" "CompactToBig bits"] by (auto simp: calcEasiestDifficulty_def Let_def)

subsection \<open>Examples\<close>

theorem compact_truncates_witness:
  "0 \<le> CompactToBig (BigToCompact 305419896) \<and> CompactToBig (BigToCompact 305419896) \<le> 305419896 \<and>
   305419896 - CompactToBig (BigToCompact 305419896) < 256 ^ (byteLen (nat 305419896) - 2)"
  by (rule compact_truncates) simp_all

theorem required_target_in_range_witness:
  "target_ok 0x1d00ffff \<and> calcNextRequiredDifficulty MainNetParams [\<lparr>hd_height = 5, hd_bits = 0x1d00ffff, hd_time = 7\<rparr>] 9 =
    Ok 0x1d00ffff"
proof
  let ?c = "[\<lparr>hd_height = 5, hd_bits = 0x1d00ffff, hd_time = 7\<rparr>] :: header list"
  show run: "calcNextRequiredDifficulty MainNetParams ?c 9 = Ok 0x1d00ffff"
    unfolding calcNextRequiredDifficulty_def mainnet_params by (simp add: MainNetParams_def go_rem_def go_div_def)
  have "\<forall>h \<in> set ?c. target_ok (hd_bits h)" using limit_ok by (simp add: MainNetParams_def)
  from required_target_in_range [OF this run] show "target_ok 0x1d00ffff" .
qed

theorem mainnet_minimum_difficulty_witness:
  "calcNextRequiredDifficulty MainNetParams [\<lparr>hd_height = 4033, hd_bits = 0x1b0404cb, hd_time = 100\<rparr>] 101 = Ok 0x1d00ffff"
  by (rule mainnet_minimum_difficulty) simp_all

theorem accepted_block_adds_work_witness: "1 \<le> CalcWork 0x1d00ffff"
proof -
  have "CompactToBig 0x1d00ffff = 0xffff * 2 ^ 208" using mainnet_params(6) by (simp add: MainNetParams_def)
  moreover have "HashToBig (replicate k 0) = 0" for k by (induction k) (simp_all add: HashToBig_def)
  ultimately have "checkProofOfWork 0x1d00ffff (replicate 32 0) (PowLimit MainNetParams) False = None"
    by (simp add: checkProofOfWork_def MainNetParams_def)
  from accepted_block_adds_work [OF this] show ?thesis by simp
qed

end
