(* ===== verification/Coin_Index.thy ===== *)
theory Coin_Index
  imports Coin_Difficulty
begin

text \<open>
  The block index of the coin node (\<open>src/btcd/blockchain/blockindex.go\<close>): the nodes of the block tree with their parents
  and skip pointers, the walk to an ancestor, the median time of the last blocks and the index itself.  A
  node is a value, so that equality of nodes is equality of pointers: the index holds one node per block hash.
  The validation status, the one field that changes after a node is made, is kept in the index.  The hash of a
  header is a parameter.  Heights are \<open>int\<close>: a chain has fewer than \<open>2 ^ 31\<close> blocks.

  The lemmas show that the skip pointers lead to the same ancestors as the walk along the parents, that the
  work of a node is the work of its whole chain, and that the median time never decreases along a chain
  whose blocks obey the rule on timestamps.
\<close>

subsection \<open>Nodes\<close>

type_synonym hash = "8 word list"

record BlockHeader =
  bh_Version :: int
  bh_PrevBlock :: hash
  bh_MerkleRoot :: hash
  bh_Timestamp :: int
  bh_Bits :: "32 word"
  bh_Nonce :: "32 word"

record blockFields =
  n_hash :: hash
  n_workSum :: int
  n_height :: int
  n_version :: int
  n_bits :: "32 word"
  n_nonce :: "32 word"
  n_timestamp :: int
  n_merkleRoot :: hash

datatype blockNode = NoNode | BlockNode (blk: blockFields) (n_parent: blockNode) (n_ancestor: blockNode)
where "n_parent NoNode = NoNode" | "n_ancestor NoNode = NoNode"

abbreviation height_of :: "blockNode \<Rightarrow> int" where
  "height_of n \<equiv> n_height (blk n)"

abbreviation hash_of :: "blockNode \<Rightarrow> hash" where
  "hash_of n \<equiv> n_hash (blk n)"

definition invertLowestOne :: "int \<Rightarrow> int" where
  "invertLowestOne n = n AND (n - 1)"

definition getAncestorHeight :: "int \<Rightarrow> int" where
  "getAncestorHeight height = invertLowestOne (invertLowestOne height)"

fun walkBack :: "int \<Rightarrow> blockNode \<Rightarrow> blockNode" where
  "walkBack height NoNode = NoNode"
| "walkBack height (BlockNode f p a) =
    (if n_height f = height then BlockNode f p a
     else if a \<noteq> NoNode \<and> getAncestorHeight (n_height f) \<ge> height then walkBack height a
     else walkBack height p)"

definition node_Ancestor :: "int \<Rightarrow> blockNode \<Rightarrow> blockNode" where
  "node_Ancestor height node = (if height < 0 \<or> height > height_of node then NoNode else walkBack height node)"

definition node_RelativeAncestor :: "int \<Rightarrow> blockNode \<Rightarrow> blockNode" where
  "node_RelativeAncestor distance node = node_Ancestor (height_of node - distance) node"

definition newBlockNode :: "(BlockHeader \<Rightarrow> hash) \<Rightarrow> BlockHeader \<Rightarrow> blockNode \<Rightarrow> blockNode" where
  "newBlockNode blockHash h parent =
    (let f = \<lparr>n_hash = blockHash h, n_workSum = CalcWork (bh_Bits h), n_height = 0, n_version = bh_Version h, n_bits = bh_Bits h,
           n_nonce = bh_Nonce h, n_timestamp = bh_Timestamp h, n_merkleRoot = bh_MerkleRoot h\<rparr>
     in if parent = NoNode then BlockNode f NoNode NoNode
        else let height = height_of parent + 1 in
          BlockNode (f\<lparr>n_height := height, n_workSum := n_workSum (blk parent) + CalcWork (bh_Bits h)\<rparr>) parent
            (node_Ancestor (getAncestorHeight height) parent))"

definition nodeHeader :: "blockNode \<Rightarrow> BlockHeader" where
  "nodeHeader n = \<lparr>bh_Version = n_version (blk n),
     bh_PrevBlock = (if n_parent n = NoNode then replicate 32 0 else hash_of (n_parent n)),
     bh_MerkleRoot = n_merkleRoot (blk n), bh_Timestamp = n_timestamp (blk n), bh_Bits = n_bits (blk n),
     bh_Nonce = n_nonce (blk n)\<rparr>"

definition IsAncestor :: "blockNode \<Rightarrow> blockNode \<Rightarrow> bool" where
  "IsAncestor node otherNode =
    (if otherNode = NoNode then False
     else let ancestor = node_Ancestor (height_of otherNode) node in
       if ancestor = NoNode then False
       else if height_of node = height_of ancestor then False
       else blk ancestor = blk otherNode)"

subsection \<open>The median time\<close>

fun lastTimes :: "nat \<Rightarrow> blockNode \<Rightarrow> int list" where
  "lastTimes 0 n = []"
| "lastTimes (Suc k) NoNode = []"
| "lastTimes (Suc k) (BlockNode f p a) = n_timestamp f # lastTimes k p"

definition medianTimeBlocks :: nat where
  "medianTimeBlocks = 11"

definition CalcPastMedianTime :: "blockNode \<Rightarrow> int outcome" where
  "CalcPastMedianTime node =
    (let timestamps = lastTimes medianTimeBlocks node; numNodes = length timestamps in
     if numNodes = 0 then Panic ''index out of range'' else Ok (sort timestamps ! (numNodes div 2)))"

subsection \<open>The index\<close>

type_synonym blockStatus = "8 word"

definition statusDataStored :: blockStatus where "statusDataStored = 1"
definition statusValid :: blockStatus where "statusValid = 2"
definition statusValidateFailed :: blockStatus where "statusValidateFailed = 4"
definition statusInvalidAncestor :: blockStatus where "statusInvalidAncestor = 8"

definition HaveData :: "blockStatus \<Rightarrow> bool" where
  "HaveData status \<longleftrightarrow> status AND statusDataStored \<noteq> 0"

definition KnownValid :: "blockStatus \<Rightarrow> bool" where
  "KnownValid status \<longleftrightarrow> status AND statusValid \<noteq> 0"

definition KnownInvalid :: "blockStatus \<Rightarrow> bool" where
  "KnownInvalid status \<longleftrightarrow> status AND (statusValidateFailed OR statusInvalidAncestor) \<noteq> 0"

record blockIndex =
  bi_index :: "hash \<rightharpoonup> blockNode"
  bi_status :: "blockNode \<Rightarrow> blockStatus"
  bi_dirty :: "blockNode set"

definition newBlockIndex :: blockIndex where
  "newBlockIndex = \<lparr>bi_index = Map.empty, bi_status = (\<lambda>_. 0), bi_dirty = {}\<rparr>"

definition HaveBlock :: "hash \<Rightarrow> blockIndex \<Rightarrow> bool" where
  "HaveBlock h bi \<longleftrightarrow> bi_index bi h \<noteq> None"

definition LookupNode :: "hash \<Rightarrow> blockIndex \<Rightarrow> blockNode" where
  "LookupNode h bi = (case bi_index bi h of None \<Rightarrow> NoNode | Some n \<Rightarrow> n)"

definition AddNode :: "blockNode \<Rightarrow> blockIndex \<Rightarrow> blockIndex" where
  "AddNode n bi = bi\<lparr>bi_index := (bi_index bi)(hash_of n \<mapsto> n), bi_dirty := insert n (bi_dirty bi)\<rparr>"

definition NodeStatus :: "blockNode \<Rightarrow> blockIndex \<Rightarrow> blockStatus" where
  "NodeStatus n bi = bi_status bi n"

definition SetStatusFlags :: "blockNode \<Rightarrow> blockStatus \<Rightarrow> blockIndex \<Rightarrow> blockIndex" where
  "SetStatusFlags n flags bi =
    bi\<lparr>bi_status := (bi_status bi)(n := bi_status bi n OR flags), bi_dirty := insert n (bi_dirty bi)\<rparr>"

definition UnsetStatusFlags :: "blockNode \<Rightarrow> blockStatus \<Rightarrow> blockIndex \<Rightarrow> blockIndex" where
  "UnsetStatusFlags n flags bi =
    bi\<lparr>bi_status := (bi_status bi)(n := bi_status bi n AND NOT flags), bi_dirty := insert n (bi_dirty bi)\<rparr>"

subsection \<open>The chain of a node\<close>

fun lineage :: "blockNode \<Rightarrow> blockNode list" where
  "lineage NoNode = []"
| "lineage (BlockNode f p a) = BlockNode f p a # lineage p"

text \<open>The walk along the parents.\<close>

fun upTo :: "int \<Rightarrow> blockNode \<Rightarrow> blockNode" where
  "upTo height NoNode = NoNode"
| "upTo height (BlockNode f p a) = (if n_height f = height then BlockNode f p a else upTo height p)"

fun block_ok :: "blockNode \<Rightarrow> bool" where
  "block_ok NoNode = True"
| "block_ok (BlockNode f p a) \<longleftrightarrow> block_ok p \<and>
    (if p = NoNode then n_height f = 0 \<and> a = NoNode
     else n_height f = height_of p + 1 \<and> a = upTo (getAncestorHeight (n_height f)) p)"

lemma block_ok_height: "block_ok n \<Longrightarrow> n \<noteq> NoNode \<Longrightarrow> height_of n = int (length (lineage n)) - 1"
  by (induction n rule: block_ok.induct) (auto split: if_splits)

lemma block_ok_nonneg: "block_ok n \<Longrightarrow> n \<noteq> NoNode \<Longrightarrow> 0 \<le> height_of n"
  using block_ok_height [of n] by (cases n) (auto simp del: block_ok.simps)

lemma getAncestorHeight_bounds:
  assumes "0 < h"
  shows "0 \<le> getAncestorHeight h" "getAncestorHeight h < h"
proof -
  have inv: "0 \<le> invertLowestOne n \<and> invertLowestOne n \<le> n" if "0 \<le> n" for n
    using that by (simp add: invertLowestOne_def AND_upper1)
  have "invertLowestOne h \<le> h - 1" using assms by (simp add: invertLowestOne_def AND_upper2)
  with inv [of h] inv [of "invertLowestOne h"] assms
  show "0 \<le> getAncestorHeight h" "getAncestorHeight h < h" by (auto simp: getAncestorHeight_def)
qed

lemma upTo_found:
  "block_ok n \<Longrightarrow> n \<noteq> NoNode \<Longrightarrow> 0 \<le> k \<Longrightarrow> k \<le> height_of n \<Longrightarrow>
   upTo k n \<noteq> NoNode \<and> block_ok (upTo k n) \<and> height_of (upTo k n) = k \<and> upTo k n \<in> set (lineage n)"
proof (induction n rule: block_ok.induct)
  case (2 f p a)
  then show ?case by (cases "p = NoNode") auto
qed simp

lemma upTo_below:
  "block_ok n \<Longrightarrow> n \<noteq> NoNode \<Longrightarrow> 0 \<le> j \<Longrightarrow> j \<le> k \<Longrightarrow> k \<le> height_of n \<Longrightarrow> upTo j (upTo k n) = upTo j n"
proof (induction n rule: block_ok.induct)
  case (2 f p a)
  then show ?case by (cases "p = NoNode") auto
qed simp

text \<open>The skip pointers lead where the parents lead.\<close>

lemma walkBack_upTo: "block_ok n \<Longrightarrow> 0 \<le> k \<Longrightarrow> n = NoNode \<or> k \<le> height_of n \<Longrightarrow> walkBack k n = upTo k n"
proof (induction n rule: walkBack.induct)
  case (2 k f p a)
  show ?case
  proof (cases "n_height f = k")
    case False
    with 2(3-5) have p: "p \<noteq> NoNode" "block_ok p" "n_height f = height_of p + 1" "k \<le> height_of p"
      "a = upTo (getAncestorHeight (n_height f)) p"
      by (auto split: if_splits)
    let ?g = "getAncestorHeight (n_height f)"
    have g: "0 \<le> ?g" "?g \<le> height_of p"
      using getAncestorHeight_bounds [of "n_height f"] p(3,4) 2(4) by auto
    have "walkBack k a = upTo k p" if "?g \<ge> k" "a \<noteq> NoNode"
    proof -
      have a: "block_ok a" "height_of a = ?g" using upTo_found [OF p(2,1) g] p(5) by auto
      with 2(1) [OF False] that 2(4) have "walkBack k a = upTo k a" by simp
      then show ?thesis using upTo_below [OF p(2,1) 2(4) that(1) g(2)] p(5) by simp
    qed
    moreover have "walkBack k p = upTo k p" if "\<not> (a \<noteq> NoNode \<and> ?g \<ge> k)"
      using 2(2) [OF False that p(2) 2(4)] p(4) by simp
    ultimately show ?thesis using False by auto
  qed simp
qed simp

lemma node_Ancestor_upTo:
  "block_ok n \<Longrightarrow> n \<noteq> NoNode \<Longrightarrow> 0 \<le> k \<Longrightarrow> k \<le> height_of n \<Longrightarrow> node_Ancestor k n = upTo k n"
  by (simp add: node_Ancestor_def walkBack_upTo)

lemma newBlockNode_ok: "block_ok p \<Longrightarrow> block_ok (newBlockNode bh h p)"
proof (cases "p = NoNode")
  case False
  assume ok: "block_ok p"
  let ?h = "height_of p + 1"
  have "0 < ?h" using block_ok_nonneg [OF ok False] by simp
  note g = getAncestorHeight_bounds [OF this]
  have "node_Ancestor (getAncestorHeight ?h) p = upTo (getAncestorHeight ?h) p"
    using g by (intro node_Ancestor_upTo ok False) auto
  with ok False show ?thesis by (simp add: newBlockNode_def Let_def)
qed (simp add: newBlockNode_def)

abbreviation built :: "(BlockHeader \<Rightarrow> hash) \<Rightarrow> BlockHeader list \<Rightarrow> blockNode" where
  "built bh hs \<equiv> foldr (newBlockNode bh) hs NoNode"

lemma newBlockNode_parts:
  "newBlockNode bh h p \<noteq> NoNode" "n_parent (newBlockNode bh h p) = p"
  "n_timestamp (blk (newBlockNode bh h p)) = bh_Timestamp h"
  "height_of (newBlockNode bh h p) = (if p = NoNode then 0 else height_of p + 1)"
  "n_workSum (blk (newBlockNode bh h p)) = (if p = NoNode then 0 else n_workSum (blk p)) + CalcWork (bh_Bits h)"
  by (simp_all add: newBlockNode_def Let_def)

lemma built_some: "built bh hs \<noteq> NoNode \<longleftrightarrow> hs \<noteq> []"
  by (cases hs) (simp_all add: newBlockNode_parts)

lemma built_ok: "block_ok (built bh hs)"
  by (induction hs) (simp_all add: newBlockNode_ok)

lemma built_height: "hs \<noteq> [] \<Longrightarrow> height_of (built bh hs) = int (length hs) - 1"
proof (induction hs)
  case (Cons h hs)
  then show ?case using built_some [of bh hs] by (cases "hs = []") (simp_all add: newBlockNode_parts)
qed simp

lemma upTo_step: "n \<noteq> NoNode \<Longrightarrow> height_of n \<noteq> k \<Longrightarrow> upTo k n = upTo k (n_parent n)"
  by (cases n) auto

lemma upTo_self: "n \<noteq> NoNode \<Longrightarrow> upTo (height_of n) n = n"
  by (cases n) auto

lemma upTo_built: "k < length hs \<Longrightarrow> upTo (int k) (built bh hs) = built bh (drop (length hs - Suc k) hs)"
proof (induction hs)
  case (Cons h hs)
  let ?n = "newBlockNode bh h (built bh hs)"
  have ht: "height_of ?n = int (length hs)" using built_height [of "h # hs" bh] by simp
  show ?case
  proof (cases "k = length hs")
    case True
    with ht newBlockNode_parts(1) upTo_self [of ?n] show ?thesis by simp
  next
    case False
    then have "upTo (int k) ?n = upTo (int k) (built bh hs)"
      using ht upTo_step [of ?n "int k"] newBlockNode_parts(1,2) by simp
    moreover have "length hs - k = Suc (length hs - Suc k)" using Cons.prems False by simp
    ultimately show ?thesis using Cons False by simp
  qed
qed simp

text \<open>C21: The skip pointers are sound.  In a chain of blocks made one on top of the other, \<open>Ancestor\<close> finds, over the
  skip pointers, the block of the asked height, and nothing for a height outside the chain; and the work of the
  tip is the sum of the work of all blocks.\<close>

theorem ancestor_of_built:
  assumes "hs \<noteq> []"
  shows "node_Ancestor k (built bh hs) =
      (if 0 \<le> k \<and> k < int (length hs) then built bh (drop (length hs - Suc (nat k)) hs) else NoNode) \<and>
    n_workSum (blk (built bh hs)) = (\<Sum>h\<leftarrow>hs. CalcWork (bh_Bits h))"
proof
  have ne: "built bh hs \<noteq> NoNode" using assms by (simp add: built_some)
  note ht = built_height [OF assms, of bh]
  show "node_Ancestor k (built bh hs) =
      (if 0 \<le> k \<and> k < int (length hs) then built bh (drop (length hs - Suc (nat k)) hs) else NoNode)"
  proof (cases "0 \<le> k \<and> k < int (length hs)")
    case True
    then have "node_Ancestor k (built bh hs) = upTo (int (nat k)) (built bh hs)"
      using node_Ancestor_upTo [OF built_ok ne, of k] ht by simp
    also have "\<dots> = built bh (drop (length hs - Suc (nat k)) hs)" using True by (intro upTo_built) auto
    finally show ?thesis using True by simp
  qed (auto simp: node_Ancestor_def ht)
next
  from assms show "n_workSum (blk (built bh hs)) = (\<Sum>h\<leftarrow>hs. CalcWork (bh_Bits h))"
  proof (induction hs)
    case (Cons h hs)
    then show ?case using built_some [of bh hs] by (cases "hs = []") (simp_all add: newBlockNode_parts)
  qed simp
qed

subsection \<open>The median time never decreases\<close>

lemma split_sorted_at:
  assumes "k < length xs"
  shows "x \<in> set (take (Suc k) (sort xs)) \<Longrightarrow> x \<le> sort xs ! k" "x \<in> set (drop k (sort xs)) \<Longrightarrow> sort xs ! k \<le> (x :: int)"
proof -
  assume "x \<in> set (take (Suc k) (sort xs))"
  then obtain i where "i < Suc k" "i < length xs" "x = sort xs ! i" by (auto simp: in_set_conv_nth)
  then show "x \<le> sort xs ! k" using assms by (simp add: sorted_nth_mono)
next
  assume "x \<in> set (drop k (sort xs))"
  then obtain i where "i < length xs - k" "x = sort xs ! (k + i)" by (auto simp: in_set_conv_nth)
  then show "sort xs ! k \<le> x" using sorted_nth_mono [of "sort xs" k "k + i"] by simp
qed

lemma filter_sort_split:
  "length (filter P xs) = length (filter P (take j (sort xs))) + length (filter P (drop j (sort (xs :: int list))))"
proof -
  have "length (filter P (sort xs)) = length (filter P xs)" by (metis mset_filter mset_sort size_mset)
  then show ?thesis by (metis append_take_drop_id filter_append length_append)
qed

lemma short_filter: "length (filter P (take k xs)) \<le> k"
  by (metis length_filter_le length_take min.cobounded2 order_trans)

lemma filter_take_drop: "length (filter P xs) \<le> length (filter P (take j xs)) + length (drop j xs)"
  by (induction xs arbitrary: j) (auto simp: take_Cons drop_Cons le_SucI split: nat.split)

lemma filter_take_le: "length (filter P (take j xs)) \<le> length (filter P xs)"
  by (induction xs arbitrary: j) (auto simp: take_Cons le_SucI split: nat.split)

lemma sorted_counts:
  assumes "k < length xs"
  shows "(m :: int) \<le> sort xs ! k \<longleftrightarrow> length (filter (\<lambda>x. x < m) xs) \<le> k"
    and "sort xs ! k \<le> m \<longleftrightarrow> k < length (filter (\<lambda>x. x \<le> m) xs)"
proof -
  note around = split_sorted_at [OF assms]
  have none: "filter P (drop k (sort xs)) = []" if "\<And>x. sort xs ! k \<le> x \<Longrightarrow> \<not> P x" for P
    using that around(2) by (simp add: filter_empty_conv)
  have all: "length (filter P (take (Suc k) (sort xs))) = Suc k" if "\<And>x. x \<le> sort xs ! k \<Longrightarrow> P x" for P
    using that around(1) assms by (simp add: filter_True)
  show "m \<le> sort xs ! k \<longleftrightarrow> length (filter (\<lambda>x. x < m) xs) \<le> k"
  proof
    assume "m \<le> sort xs ! k"
    then show "length (filter (\<lambda>x. x < m) xs) \<le> k"
      using filter_sort_split [of "\<lambda>x. x < m" xs k] short_filter none by force
  next
    assume le: "length (filter (\<lambda>x. x < m) xs) \<le> k"
    show "m \<le> sort xs ! k"
    proof (rule ccontr)
      assume "\<not> m \<le> sort xs ! k"
      with all [of "\<lambda>x. x < m"] le filter_sort_split [of "\<lambda>x. x < m" xs "Suc k"] show False by simp
    qed
  qed
  show "sort xs ! k \<le> m \<longleftrightarrow> k < length (filter (\<lambda>x. x \<le> m) xs)"
  proof
    assume "sort xs ! k \<le> m"
    with all [of "\<lambda>x. x \<le> m"] filter_sort_split [of "\<lambda>x. x \<le> m" xs "Suc k"]
    show "k < length (filter (\<lambda>x. x \<le> m) xs)" by simp
  next
    assume lt: "k < length (filter (\<lambda>x. x \<le> m) xs)"
    show "sort xs ! k \<le> m"
    proof (rule ccontr)
      assume "\<not> sort xs ! k \<le> m"
      then have "length (filter (\<lambda>x. x \<le> m) xs) \<le> k"
        using filter_sort_split [of "\<lambda>x. x \<le> m" xs k] short_filter none [of "\<lambda>x. x \<le> m"] by simp
      with lt show False by simp
    qed
  qed
qed

text \<open>Adding a time above the median, and forgetting the oldest of more than \<open>k\<close> times, does not lower the
  median; the new median is at most the new time.\<close>

lemma median_step:
  fixes xs :: "int list" and t :: int
  defines "ys \<equiv> t # (if length xs < 11 then xs else take 10 xs)"
  assumes "xs \<noteq> []" and "length xs \<le> 11" and "sort xs ! (length xs div 2) < t"
  shows "sort xs ! (length xs div 2) \<le> sort ys ! (length ys div 2)" "sort ys ! (length ys div 2) \<le> t"
proof -
  let ?k = "length xs div 2" and ?m = "sort xs ! (length xs div 2)"
  let ?xs = "if length xs < 11 then xs else take 10 xs"
  have k: "?k < length xs" using assms(2) by (simp add: Suc_leI length_greater_0_conv)
  have ys: "length ys div 2 < length ys" by (simp add: ys_def)
  have "length (filter (\<lambda>x. x < ?m) ?xs) \<le> length (filter (\<lambda>x. x < ?m) xs)"
    by (simp add: filter_take_le)
  also have "\<dots> \<le> ?k" using sorted_counts(1) [OF k, of ?m] by simp
  finally have "length (filter (\<lambda>x. x < ?m) ys) \<le> length ys div 2" using assms(3,4) by (auto simp: ys_def)
  then show "?m \<le> sort ys ! (length ys div 2)" using sorted_counts(1) [OF ys] by blast
  have "?k < length (filter (\<lambda>x. x \<le> t) xs)" using sorted_counts(2) [OF k, of t] assms(4) by simp
  moreover have "length (filter (\<lambda>x. x \<le> t) xs) \<le> length (filter (\<lambda>x. x \<le> t) (take 10 xs)) + length (drop 10 xs)"
    by (rule filter_take_drop)
  ultimately have "length ys div 2 < length (filter (\<lambda>x. x \<le> t) ys)" using assms(3) by (auto simp: ys_def)
  then show "sort ys ! (length ys div 2) \<le> t" using sorted_counts(2) [OF ys] by blast
qed

lemma lastTimes_Suc: "n \<noteq> NoNode \<Longrightarrow> lastTimes (Suc k) n = n_timestamp (blk n) # lastTimes k (n_parent n)"
  by (cases n) auto

lemma lastTimes_take: "lastTimes k n = take k (map (n_timestamp \<circ> blk) (lineage n))"
  by (induction k n rule: lastTimes.induct) auto

lemma median_time_step:
  assumes "CalcPastMedianTime p = Ok m" and "m < bh_Timestamp h"
  shows "\<exists>m'. CalcPastMedianTime (newBlockNode bh h p) = Ok m' \<and> m \<le> m' \<and> m' \<le> bh_Timestamp h"
proof -
  let ?xs = "lastTimes 11 p" and ?n = "newBlockNode bh h p"
  have xs: "?xs \<noteq> []" "length ?xs \<le> 11" "sort ?xs ! (length ?xs div 2) = m"
    using assms(1) by (auto simp: CalcPastMedianTime_def medianTimeBlocks_def Let_def lastTimes_take split: if_splits)
  have "lastTimes 11 ?n = bh_Timestamp h # lastTimes 10 p"
    using lastTimes_Suc [OF newBlockNode_parts(1), of 10] by (simp add: newBlockNode_parts numeral_eq_Suc)
  also have "lastTimes 10 p = (if length ?xs < 11 then ?xs else take 10 ?xs)"
    by (auto simp: lastTimes_take min_def not_le)
  finally have "lastTimes 11 ?n = bh_Timestamp h # (if length ?xs < 11 then ?xs else take 10 ?xs)" .
  with median_step [OF xs(1,2), of "bh_Timestamp h"] assms(2) xs(3) show ?thesis
    by (simp add: CalcPastMedianTime_def medianTimeBlocks_def)
qed

text \<open>C32: The median time never decreases.  When a block whose time is after the median time of its parent's last
  eleven blocks is put on top of the parent, its own median time lies between the parent's median time and the
  block's time.\<close>

theorem median_time_monotone:
  assumes "CalcPastMedianTime p = Ok m" and "m < bh_Timestamp h"
  shows "\<exists>m'. CalcPastMedianTime (newBlockNode bh h p) = Ok m' \<and> m \<le> m' \<and> m' \<le> bh_Timestamp h"
  using assms by (rule median_time_step)

subsection \<open>Examples\<close>

text \<open>A chain with one block per second; the hash of block \<open>i\<close> is \<open>i + 1\<close> ones, filled up to 32 bytes.\<close>

definition demoName :: "nat \<Rightarrow> hash" where
  "demoName i = replicate i 1 @ replicate (32 - i) 0"

lemma demoName_ones: "length (filter (\<lambda>b. b = 1) (demoName i)) = i"
  by (simp add: demoName_def)

lemma demoName_eq: "demoName i = demoName j \<longleftrightarrow> i = j"
  using demoName_ones by metis

lemma demoName_length: "i \<le> 32 \<Longrightarrow> length (demoName i) = 32"
  by (simp add: demoName_def)

lemma demoName_zero: "demoName i = replicate 32 0 \<longleftrightarrow> i = 0"
  using demoName_eq [of i 0] by (simp add: demoName_def)

definition demoHash :: "BlockHeader \<Rightarrow> hash" where
  "demoHash h = demoName (Suc (nat (bh_Timestamp h - 1600000000)))"

definition demoHeaderAt :: "nat \<Rightarrow> BlockHeader" where
  "demoHeaderAt i = \<lparr>bh_Version = 0x20000001, bh_PrevBlock = [], bh_MerkleRoot = replicate 32 0, bh_Timestamp = 1600000000 + int i,
     bh_Bits = 0x1d00ffff, bh_Nonce = 0\<rparr>"

primrec demoChain :: "nat \<Rightarrow> blockNode" where
  "demoChain 0 = NoNode"
| "demoChain (Suc i) = newBlockNode demoHash (demoHeaderAt i) (demoChain i)"

lemma newBlockNode_copies:
  "hash_of (newBlockNode bh h p) = bh h" "n_version (blk (newBlockNode bh h p)) = bh_Version h"
  by (simp_all add: newBlockNode_def Let_def)

lemma demoChain_ok: "block_ok (demoChain i)"
  by (induction i) (simp_all add: newBlockNode_ok)

lemma demoChain_parts:
  "demoChain (Suc i) \<noteq> NoNode" "n_parent (demoChain (Suc i)) = demoChain i"
  "hash_of (demoChain (Suc i)) = demoName (Suc i)" "n_timestamp (blk (demoChain (Suc i))) = 1600000000 + int i"
  "n_version (blk (demoChain (Suc i))) = 0x20000001"
  by (simp_all add: newBlockNode_parts newBlockNode_copies demoHash_def demoHeaderAt_def)

lemma demoChain_height: "height_of (demoChain (Suc i)) = int i"
proof (induction i)
  case (Suc i)
  then show ?case using newBlockNode_parts(4) [of demoHash "demoHeaderAt (Suc i)" "demoChain (Suc i)"] demoChain_parts(1) [of i]
    by simp
qed (simp add: newBlockNode_parts)

lemma demoChain_lineage: "lineage (demoChain m) = map demoChain (rev [1..<Suc m])"
proof (induction m)
  case (Suc m)
  obtain f p a where n: "demoChain (Suc m) = BlockNode f p a" using demoChain_parts(1) [of m] by (cases "demoChain (Suc m)") auto
  then have "p = demoChain m" using demoChain_parts(2) [of m] by simp
  with n Suc show ?case by (simp del: demoChain.simps)
qed simp

lemma demoChain_in_lineage: "n \<in> set (lineage (demoChain m)) \<longleftrightarrow> (\<exists>i<m. n = demoChain (Suc i))"
  unfolding demoChain_lineage by (auto simp del: demoChain.simps upt_Suc) (metis Suc_le_D less_Suc_eq_le Suc_le_lessD)

lemma demoChain_built: "demoChain m = built demoHash (map demoHeaderAt (rev [0..<m]))"
  by (induction m) simp_all

theorem ancestor_of_built_witness:
  "node_Ancestor 3 (demoChain 12) = demoChain 4 \<and> n_workSum (blk (demoChain 2)) = 2 * CalcWork 0x1d00ffff"
proof
  have "drop 8 (map demoHeaderAt (rev [0..<12])) = map demoHeaderAt (rev [0..<4])" by (simp add: upt_rec)
  then show "node_Ancestor 3 (demoChain 12) = demoChain 4"
    using ancestor_of_built [of "map demoHeaderAt (rev [0..<12])" 3 demoHash] unfolding demoChain_built by simp
  show "n_workSum (blk (demoChain 2)) = 2 * CalcWork 0x1d00ffff"
    using ancestor_of_built [of "map demoHeaderAt (rev [0..<2])" 0 demoHash] unfolding demoChain_built
    by (simp add: upt_rec demoHeaderAt_def)
qed

theorem median_time_monotone_witness:
  "\<exists>m'. CalcPastMedianTime (demoChain 2) = Ok m' \<and> 1600000000 \<le> m' \<and> m' \<le> 1600000001"
proof -
  have "CalcPastMedianTime (demoChain 1) = Ok 1600000000"
    by (simp add: CalcPastMedianTime_def medianTimeBlocks_def lastTimes_take demoChain_lineage upt_rec demoChain_parts(4)
        del: demoChain.simps)
  from median_time_monotone [OF this, of "demoHeaderAt 1" demoHash] show ?thesis
    by (simp add: numeral_2_eq_2) (simp add: demoHeaderAt_def)
qed

end
