(* ===== verification/Coin_View.thy ===== *)
theory Coin_View
  imports Coin_Index
begin

text \<open>
  The view of one branch of the block tree as an array (\<open>src/btcd/blockchain/chainview.go\<close>), with the fork search and the
  block locators that peers exchange.  A nil entry of the array is \<open>NoNode\<close>.  The mutex is left out: the exported
  methods lock it around the methods modelled here.

  The lemmas show that the array always holds exactly the ancestors of its tip, although \<open>setTip\<close> rewrites only
  the part above the fork, that the fork search finds the highest common block, and which blocks a
  locator lists, and how many.
\<close>

subsection \<open>Operations\<close>

record chainView =
  cv_nodes :: "blockNode list"

fun fillNodes :: "blockNode \<Rightarrow> blockNode list \<Rightarrow> blockNode list outcome" where
  "fillNodes NoNode nodes = Ok nodes"
| "fillNodes (BlockNode f p a) nodes =
    (let h = n_height f in
     if h < 0 \<or> h \<ge> int (length nodes) then Panic ''index out of range''
     else if nodes ! nat h = BlockNode f p a then Ok nodes
     else fillNodes p (nodes[nat h := BlockNode f p a]))"

definition setTip :: "blockNode \<Rightarrow> chainView \<Rightarrow> chainView outcome" where
  "setTip node c =
    (if node = NoNode then Ok (c\<lparr>cv_nodes := []\<rparr>)
     else
       let needed = nat (height_of node + 1);
           nodes = take needed (cv_nodes c) @ replicate (needed - length (cv_nodes c)) NoNode
       in case fillNodes node nodes of
         Ok nodes' \<Rightarrow> Ok (c\<lparr>cv_nodes := nodes'\<rparr>)
       | Err e \<Rightarrow> Err e
       | Panic e \<Rightarrow> Panic e
       | Blocked \<Rightarrow> Blocked)"

definition newChainView :: "blockNode \<Rightarrow> chainView outcome" where
  "newChainView tip = setTip tip \<lparr>cv_nodes = []\<rparr>"

definition genesis :: "chainView \<Rightarrow> blockNode" where
  "genesis c = (if length (cv_nodes c) = 0 then NoNode else cv_nodes c ! 0)"

definition tip :: "chainView \<Rightarrow> blockNode" where
  "tip c = (if length (cv_nodes c) = 0 then NoNode else cv_nodes c ! (length (cv_nodes c) - 1))"

definition cv_height :: "chainView \<Rightarrow> int" where
  "cv_height c = int (length (cv_nodes c)) - 1"

definition nodeByHeight :: "int \<Rightarrow> chainView \<Rightarrow> blockNode" where
  "nodeByHeight height c =
    (if height < 0 \<or> height \<ge> int (length (cv_nodes c)) then NoNode else cv_nodes c ! nat height)"

definition cv_Equals :: "chainView \<Rightarrow> chainView \<Rightarrow> bool" where
  "cv_Equals c other \<longleftrightarrow> length (cv_nodes c) = length (cv_nodes other) \<and> tip c = tip other"

definition cv_contains :: "blockNode \<Rightarrow> chainView \<Rightarrow> bool" where
  "cv_contains node c \<longleftrightarrow> nodeByHeight (height_of node) c = node"

definition cv_next :: "blockNode \<Rightarrow> chainView \<Rightarrow> blockNode" where
  "cv_next node c = (if node = NoNode \<or> \<not> cv_contains node c then NoNode else nodeByHeight (height_of node + 1) c)"

fun forkLoop :: "blockNode \<Rightarrow> chainView \<Rightarrow> blockNode" where
  "forkLoop NoNode c = NoNode"
| "forkLoop (BlockNode f p a) c = (if cv_contains (BlockNode f p a) c then BlockNode f p a else forkLoop p c)"

definition findFork :: "blockNode \<Rightarrow> chainView \<Rightarrow> blockNode" where
  "findFork node c =
    (if node = NoNode then NoNode
     else forkLoop (if height_of node > cv_height c then node_Ancestor (cv_height c) node else node) c)"

text \<open>The masks of \<open>fastLog2Floor\<close> with the exponents they go with.\<close>

definition log2Step :: "32 word \<Rightarrow> nat \<Rightarrow> 32 word \<times> nat \<Rightarrow> 32 word \<times> nat" where
  "log2Step m e s = (case s of (n, rv) \<Rightarrow> if n AND m \<noteq> 0 then (drop_bit e n, rv + e) else (n, rv))"

definition fastLog2Floor :: "32 word \<Rightarrow> nat" where
  "fastLog2Floor n =
    snd (log2Step 0x2 1 (log2Step 0xc 2 (log2Step 0xf0 4 (log2Step 0xff00 8 (log2Step 0xffff0000 16 (n, 0))))))"

definition maxEntries :: "int \<Rightarrow> nat" where
  "maxEntries height = (if height \<le> 12 then nat height + 1 else 12 + fastLog2Floor (of_int height - 10))"

definition wrap32 :: "int \<Rightarrow> int" where
  "wrap32 n = (n + 2 ^ 31) mod 2 ^ 32 - 2 ^ 31"

partial_function (option) locatorLoop :: "chainView \<Rightarrow> blockNode \<Rightarrow> int \<Rightarrow> hash list \<Rightarrow> hash list option" where
  "locatorLoop c node step locator =
    (if node = NoNode then Some locator
     else
       let locator = locator @ [hash_of node] in
       if height_of node = 0 then Some locator
       else
         let h = wrap32 (height_of node - step); h = (if h < 0 then 0 else h);
             node' = (if cv_contains node c then cv_nodes c ! nat h else node_Ancestor h node)
         in locatorLoop c node' (if length locator > 10 then wrap32 (step * 2) else step) locator)"

definition blockLocator :: "blockNode \<Rightarrow> chainView \<Rightarrow> hash list option" where
  "blockLocator node c =
    (let node = (if node = NoNode then tip c else node) in
     if node = NoNode then Some [] else locatorLoop c node 1 [])"

subsection \<open>The array holds the ancestors of the tip\<close>

definition view_of :: "blockNode \<Rightarrow> chainView \<Rightarrow> bool" where
  "view_of t c \<longleftrightarrow> block_ok t \<and> cv_nodes c = rev (lineage t)"

lemma rev_lineage_nth:
  "block_ok n \<Longrightarrow> i < length (lineage n) \<Longrightarrow> rev (lineage n) ! i = upTo (int i) n"
proof (induction n rule: block_ok.induct)
  case (2 f p a)
  have "n_height f = int (length (lineage p))"
    using block_ok_height [OF 2(2)] by simp
  then show ?case using 2 by (cases "i = length (lineage p)") (auto simp: nth_append)
qed simp

lemma take_rev_lineage:
  "block_ok n \<Longrightarrow> i < length (lineage n) \<Longrightarrow> take (Suc i) (rev (lineage n)) = rev (lineage (upTo (int i) n))"
proof (induction n rule: block_ok.induct)
  case (2 f p a)
  have "n_height f = int (length (lineage p))"
    using block_ok_height [OF 2(2)] by simp
  then show ?case using 2 by (cases "i = length (lineage p)") auto
qed simp

text \<open>What is at a place of the array comes with its ancestors below it.\<close>

definition closed_below :: "nat \<Rightarrow> blockNode list \<Rightarrow> bool" where
  "closed_below k xs \<longleftrightarrow> (\<forall>i<k. xs ! i = NoNode \<or> take (Suc i) xs = rev (lineage (xs ! i)))"

lemma closed_below_upd: "closed_below (Suc k) xs \<Longrightarrow> closed_below k (xs[k := y])"
  by (simp add: closed_below_def)

lemma fillNodes_spec:
  "block_ok n \<Longrightarrow> n \<noteq> NoNode \<Longrightarrow> height_of n < int (length xs) \<Longrightarrow> closed_below (Suc (nat (height_of n))) xs \<Longrightarrow>
   fillNodes n xs = Ok (rev (lineage n) @ drop (Suc (nat (height_of n))) xs)"
proof (induction n xs rule: fillNodes.induct)
  case (2 f p a xs)
  let ?n = "BlockNode f p a" and ?h = "nat (n_height f)"
  have len: "n_height f = int (length (lineage p))"
    using block_ok_height [OF 2(2)] by simp
  then have h: "?h = length (lineage p)" "?h < length xs" using 2(4) by auto
  show ?case
  proof (cases "xs ! ?h = ?n")
    case True
    then have "take (Suc ?h) xs = rev (lineage ?n)" using 2(5) by (auto simp: closed_below_def)
    then have "xs = rev (lineage ?n) @ drop (Suc ?h) xs" by (metis append_take_drop_id)
    then show ?thesis using True len h by simp
  next
    case False
    let ?xs = "xs[?h := ?n]"
    have "fillNodes p ?xs = Ok (rev (lineage p) @ drop ?h ?xs)"
    proof (cases "p = NoNode")
      case True
      then show ?thesis using h by simp
    next
      case p: False
      have ok: "block_ok p" using 2(2) by simp
      have "height_of p = n_height f - 1" using 2(2) p by simp
      then have hp: "Suc (nat (height_of p)) = ?h" using block_ok_nonneg [OF ok p] by simp
      have "fillNodes p ?xs = Ok (rev (lineage p) @ drop (Suc (nat (height_of p))) ?xs)"
      proof (rule 2(1) [OF refl _ False ok p])
        show "\<not> (n_height f < 0 \<or> int (length xs) \<le> n_height f)" using len h by simp
        show "height_of p < int (length ?xs)" using hp h by simp
        show "closed_below (Suc (nat (height_of p))) ?xs"
          unfolding hp using 2(5) by (intro closed_below_upd) simp
      qed
      then show ?thesis unfolding hp .
    qed
    moreover have "drop ?h ?xs = ?n # drop (Suc ?h) xs" using h(2) by (simp add: Cons_nth_drop_Suc [symmetric])
    ultimately show ?thesis using False len h by simp
  qed
qed simp

lemma setTip_spec:
  assumes "view_of t c" and "block_ok n"
  shows "\<exists>c'. setTip n c = Ok c' \<and> view_of n c'"
proof (cases "n = NoNode")
  case True
  then show ?thesis by (simp add: setTip_def view_of_def)
next
  case False
  have t: "block_ok t" "cv_nodes c = rev (lineage t)" using assms(1) by (auto simp: view_of_def)
  let ?k = "nat (height_of n + 1)"
  let ?xs = "take ?k (cv_nodes c) @ replicate (?k - length (cv_nodes c)) NoNode"
  have h: "height_of n = int (length (lineage n)) - 1" using block_ok_height [OF assms(2) False] .
  have pos: "0 < length (lineage n)" using False by (cases n) auto
  have len: "length ?xs = ?k" by simp
  have k: "Suc (nat (height_of n)) = ?k" using block_ok_nonneg [OF assms(2) False] by arith
  have "closed_below ?k ?xs"
    unfolding closed_below_def
  proof (intro allI impI)
    fix i
    assume i: "i < ?k"
    show "?xs ! i = NoNode \<or> take (Suc i) ?xs = rev (lineage (?xs ! i))"
    proof (cases "i < length (lineage t)")
      case True
      then have "?xs ! i = rev (lineage t) ! i" "take (Suc i) ?xs = take (Suc i) (rev (lineage t))"
        using i t(2) by (simp_all add: nth_append)
      then show ?thesis using rev_lineage_nth [OF t(1) True] take_rev_lineage [OF t(1) True] by simp
    next
      case False
      then have "?xs ! i = NoNode" using i t(2) by (simp add: nth_append)
      then show ?thesis ..
    qed
  qed
  then have "fillNodes n ?xs = Ok (rev (lineage n) @ drop ?k ?xs)"
    using fillNodes_spec [OF assms(2) False, of ?xs] k len h pos by simp
  then have "fillNodes n ?xs = Ok (rev (lineage n))" using len by simp
  then show ?thesis using False assms(2) by (simp add: setTip_def Let_def view_of_def)
qed

lemma nodeByHeight_spec:
  assumes "view_of t c"
  shows "nodeByHeight h c = (if t = NoNode then NoNode else node_Ancestor h t)"
proof -
  have t: "block_ok t" "cv_nodes c = rev (lineage t)" using assms by (auto simp: view_of_def)
  show ?thesis
  proof (cases "t = NoNode")
    case False
    note ht = block_ok_height [OF t(1) False]
    show ?thesis
    proof (cases "0 \<le> h \<and> h \<le> height_of t")
      case True
      then have "nat h < length (lineage t)" using ht by arith
      from rev_lineage_nth [OF t(1) this] True False node_Ancestor_upTo [OF t(1) False, of h] ht t(2) show ?thesis
        by (simp add: nodeByHeight_def)
    next
      case out: False
      then show ?thesis using False ht t(2) by (auto simp: nodeByHeight_def node_Ancestor_def)
    qed
  qed (auto simp: nodeByHeight_def t(2))
qed

lemma upTo_in_lineage: "n \<in> set (lineage t) \<Longrightarrow> block_ok t \<Longrightarrow> upTo (height_of n) t = n \<and> block_ok n \<and> n \<noteq> NoNode \<and> height_of n \<le> height_of t"
proof (induction t rule: block_ok.induct)
  case (2 f p a)
  show ?case
  proof (cases "n = BlockNode f p a")
    case True
    then show ?thesis using 2(3) by simp
  next
    case False
    then have n: "n \<in> set (lineage p)" "p \<noteq> NoNode" using 2(2) by auto
    then have "upTo (height_of n) p = n \<and> block_ok n \<and> n \<noteq> NoNode \<and> height_of n \<le> height_of p" using 2 by simp
    moreover have "n_height f = height_of p + 1" using 2(3) n(2) by simp
    ultimately show ?thesis by auto
  qed
qed simp

lemma cv_contains_iff:
  assumes "view_of t c" and "n \<noteq> NoNode"
  shows "cv_contains n c \<longleftrightarrow> n \<in> set (lineage t)"
proof -
  have t: "block_ok t" using assms(1) by (simp add: view_of_def)
  show ?thesis
  proof
    assume "cv_contains n c"
    then have "nat (height_of n) < length (cv_nodes c)" "cv_nodes c ! nat (height_of n) = n"
      using assms(2) by (auto simp: cv_contains_def nodeByHeight_def split: if_splits)
    then have "n \<in> set (cv_nodes c)" by (metis nth_mem)
    then show "n \<in> set (lineage t)" using assms(1) by (simp add: view_of_def)
  next
    assume n: "n \<in> set (lineage t)"
    have u: "upTo (height_of n) t = n" "block_ok n" "height_of n \<le> height_of t" using upTo_in_lineage [OF n t] by auto
    have "t \<noteq> NoNode" using n by auto
    then show "cv_contains n c"
      using nodeByHeight_spec [OF assms(1)] node_Ancestor_upTo [OF t, of "height_of n"] u block_ok_nonneg [OF u(2) assms(2)]
      by (simp add: cv_contains_def)
  qed
qed

subsection \<open>Refinement\<close>

fun setTips :: "blockNode list \<Rightarrow> chainView \<Rightarrow> chainView outcome" where
  "setTips [] c = Ok c"
| "setTips (n # ns) c = (case setTip n c of Ok c' \<Rightarrow> setTips ns c' | r \<Rightarrow> r)"

lemma setTips_spec:
  "view_of t c \<Longrightarrow> \<forall>n \<in> set ns. block_ok n \<Longrightarrow> \<exists>c'. setTips ns c = Ok c' \<and> view_of (last (t # ns)) c'"
proof (induction ns arbitrary: t c)
  case (Cons n ns)
  then obtain c' where "setTip n c = Ok c'" "view_of n c'" using setTip_spec by (metis list.set_intros(1))
  with Cons show ?case by simp
qed simp

lemma parent_facts:
  "block_ok m \<Longrightarrow> m \<noteq> NoNode \<Longrightarrow> 0 < height_of m \<Longrightarrow> n_parent m \<noteq> NoNode \<and> height_of (n_parent m) = height_of m - 1"
  by (cases m) (auto split: if_splits)

lemma empty_view: "view_of NoNode \<lparr>cv_nodes = []\<rparr>"
  by (simp add: view_of_def)

text \<open>C15: The view is the branch of its tip.  However often and in whatever order the tip is moved between branches, no
  move fails, and afterwards the view answers as the tip itself would: a lookup by height is the ancestor of the tip at
  that height, exactly the ancestors of the tip are contained in it, and each is followed by its child on the branch.\<close>

theorem view_refines_branch:
  assumes "\<forall>n \<in> set ns. block_ok n" and "block_ok t" and "t \<noteq> NoNode"
  shows "\<exists>c. setTips (ns @ [t]) \<lparr>cv_nodes = []\<rparr> = Ok c \<and> tip c = t \<and> cv_height c = height_of t \<and>
    (\<forall>h. nodeByHeight h c = node_Ancestor h t) \<and>
    (\<forall>n. n \<noteq> NoNode \<longrightarrow> (cv_contains n c \<longleftrightarrow> n \<in> set (lineage t))) \<and>
    (\<forall>n. n \<in> set (lineage t) \<and> n \<noteq> t \<longrightarrow> n_parent (cv_next n c) = n)"
proof -
  obtain c where c: "setTips (ns @ [t]) \<lparr>cv_nodes = []\<rparr> = Ok c" "view_of t c"
    using setTips_spec [OF empty_view, of "ns @ [t]"] assms by auto
  have nodes: "cv_nodes c = rev (lineage t)" using c(2) by (simp add: view_of_def)
  obtain f p a where t: "t = BlockNode f p a" using assms(3) by (cases t) auto
  have "tip c = t" using t by (simp add: tip_def nodes nth_append)
  moreover have "cv_height c = height_of t" using block_ok_height [OF assms(2,3)] by (simp add: cv_height_def nodes)
  moreover have "n_parent (cv_next n c) = n" if n: "n \<in> set (lineage t)" "n \<noteq> t" for n
  proof -
    have u: "upTo (height_of n) t = n" "block_ok n" "n \<noteq> NoNode" "height_of n \<le> height_of t"
      using upTo_in_lineage [OF n(1) assms(2)] by auto
    let ?m = "upTo (height_of n + 1) t"
    have "height_of n \<noteq> height_of t" using u(1) n(2) upTo_self [OF assms(3)] by auto
    then have b: "0 \<le> height_of n + 1" "height_of n + 1 \<le> height_of t" using u(4) block_ok_nonneg [OF u(2,3)] by auto
    have m: "?m \<noteq> NoNode" "block_ok ?m" "height_of ?m = height_of n + 1" using upTo_found [OF assms(2,3) b] by auto
    have "n = upTo (height_of n) ?m" using upTo_below [OF assms(2,3) _ _ b(2), of "height_of n"] u block_ok_nonneg [OF u(2,3)] by simp
    also have "\<dots> = upTo (height_of n) (n_parent ?m)" using m by (intro upTo_step) auto
    also have "\<dots> = n_parent ?m"
      using parent_facts [OF m(2,1)] m(3) block_ok_nonneg [OF u(2,3)] upTo_self [of "n_parent ?m"] by simp
    finally have "n_parent ?m = n" by simp
    moreover have "cv_next n c = ?m"
      using cv_contains_iff [OF c(2) u(3)] n(1) u(3) nodeByHeight_spec [OF c(2)] assms(3) node_Ancestor_upTo [OF assms(2,3) b]
      by (simp add: cv_next_def)
    ultimately show ?thesis by simp
  qed
  ultimately show ?thesis
    using c cv_contains_iff [OF c(2)] nodeByHeight_spec [OF c(2)] assms(3) by (intro exI [of _ c]) auto
qed

subsection \<open>Forks\<close>

lemma forkLoop_spec:
  assumes "view_of t c"
  shows "block_ok n \<Longrightarrow> (forkLoop n c \<noteq> NoNode \<longrightarrow> forkLoop n c \<in> set (lineage n) \<inter> set (lineage t)) \<and>
    (\<forall>m \<in> set (lineage n) \<inter> set (lineage t). forkLoop n c \<noteq> NoNode \<and> height_of m \<le> height_of (forkLoop n c))"
proof (induction n)
  case (BlockNode f p a)
  note iff = cv_contains_iff [OF assms, of "BlockNode f p a"]
  show ?case
  proof (cases "cv_contains (BlockNode f p a) c")
    case True
    with iff upTo_in_lineage [OF _ BlockNode(3)] show ?thesis by auto
  next
    case False
    with iff BlockNode(1,3) show ?thesis by auto
  qed
qed simp

lemma lineage_upTo:
  assumes "block_ok n" and "n \<noteq> NoNode" and "0 \<le> k" and "k \<le> height_of n"
  shows "set (lineage (upTo k n)) = {m \<in> set (lineage n). height_of m \<le> k}"
  using assms
proof (induction n rule: block_ok.induct)
  case (2 f p a)
  show ?case
  proof (cases "n_height f = k")
    case True
    then show ?thesis using upTo_in_lineage [OF _ 2(2)] by auto
  next
    case False
    then have p: "p \<noteq> NoNode" "block_ok p" "k \<le> height_of p" "n_height f = height_of p + 1"
      using 2(2,4,5) by (auto split: if_splits)
    with 2(1,4) False show ?thesis by auto
  qed
qed simp

text \<open>The fork search finds the fork.  For a view of the branch of \<open>t\<close> and any block of the tree, \<open>findFork\<close> returns a
  block that both branches have, at least as high as every block they share, and nothing only if they share none.\<close>

theorem findFork_highest:
  assumes "view_of t c" and "block_ok n"
  shows "(findFork n c \<noteq> NoNode \<longrightarrow> findFork n c \<in> set (lineage n) \<inter> set (lineage t)) \<and>
    (\<forall>m \<in> set (lineage n) \<inter> set (lineage t). findFork n c \<noteq> NoNode \<and> height_of m \<le> height_of (findFork n c))"
proof (cases "n \<noteq> NoNode \<and> height_of n > cv_height c")
  case False
  then show ?thesis using forkLoop_spec [OF assms] by (auto simp: findFork_def)
next
  case True
  have t: "block_ok t" "cv_height c = int (length (lineage t)) - 1" using assms(1) by (auto simp: view_of_def cv_height_def)
  let ?k = "cv_height c"
  have find: "findFork n c = forkLoop (node_Ancestor ?k n) c" using True by (simp add: findFork_def)
  show ?thesis
  proof (cases "t = NoNode")
    case True
    then show ?thesis using find t(2) by (simp add: node_Ancestor_def)
  next
    case False
    then have k: "?k = height_of t" "0 \<le> ?k" using block_ok_height [OF t(1) False] t(2) block_ok_nonneg [OF t(1) False] by auto
    have anc: "node_Ancestor ?k n = upTo ?k n" using True k by (intro node_Ancestor_upTo assms(2)) auto
    have "block_ok (upTo ?k n)" using upTo_found [OF assms(2)] True k by simp
    note f = forkLoop_spec [OF assms(1) this]
    have "set (lineage (upTo ?k n)) \<inter> set (lineage t) = set (lineage n) \<inter> set (lineage t)"
      using lineage_upTo [OF assms(2)] True k upTo_in_lineage [OF _ t(1)] by auto
    with f show ?thesis by (simp add: find anc)
  qed
qed

subsection \<open>Locators\<close>

text \<open>The heights a locator lists, by the height, the step and the number of entries before.\<close>

fun heights :: "nat \<Rightarrow> nat \<Rightarrow> nat \<Rightarrow> nat list" where
  "heights x s k = x # (if x = 0 \<or> s = 0 then [] else heights (x - s) (if k < 10 then s else 2 * s) (Suc k))"

declare heights.simps [simp del]

lemma and_high:
  assumes "unat (n :: 32 word) < 2 ^ (2 * e)" and "unat m = push_bit e (mask e)"
  shows "n AND m = 0 \<longleftrightarrow> unat n < 2 ^ e"
proof -
  have "unat (n AND m) = unat n AND push_bit e (mask e)" by (simp add: unsigned_and_eq assms(2))
  also have "\<dots> = push_bit e (take_bit e (drop_bit e (unat n)))"
    by (rule bit_eqI) (auto simp: bit_simps)
  also have "\<dots> = 2 ^ e * (unat n div 2 ^ e mod 2 ^ e)"
    by (simp add: push_bit_eq_mult take_bit_eq_mod drop_bit_eq_div)
  also have "unat n div 2 ^ e mod 2 ^ e = unat n div 2 ^ e"
    using assms(1) by (simp add: div_less_iff_less_mult power_add mult_2)
  finally have "unat (n AND m) = 2 ^ e * (unat n div 2 ^ e)" .
  then have "n AND m = 0 \<longleftrightarrow> unat n div 2 ^ e = 0" by (metis mult_eq_0_iff power_not_zero unat_eq_zero zero_neq_numeral)
  then show ?thesis by (simp add: div_eq_0_iff)
qed

definition log2_inv :: "32 word \<Rightarrow> nat \<Rightarrow> 32 word \<times> nat \<Rightarrow> bool" where
  "log2_inv n0 b s \<longleftrightarrow> fst s \<noteq> 0 \<and> unat (fst s) < 2 ^ b \<and> unat (fst s) = unat n0 div 2 ^ snd s"

lemma log2Step_inv:
  assumes "log2_inv n0 (2 * e) s" and "unat m = push_bit e (mask e)"
  shows "log2_inv n0 e (log2Step m e s)"
proof -
  obtain n rv where s: "s = (n, rv)" by (cases s)
  have n: "n \<noteq> 0" "unat n < 2 ^ (2 * e)" "unat n = unat n0 div 2 ^ rv" using assms(1) by (auto simp: log2_inv_def s)
  have dr: "unat (drop_bit e n) = unat n div 2 ^ e" by (rule trans [OF unat_drop_bit_eq drop_bit_eq_div])
  show ?thesis
  proof (cases "unat n < 2 ^ e")
    case True
    with and_high [OF n(2) assms(2)] n show ?thesis by (simp add: log2Step_def log2_inv_def s)
  next
    case False
    then have "n AND m \<noteq> 0" using and_high [OF n(2) assms(2)] by simp
    moreover have "unat n div 2 ^ e < 2 ^ e" using n(2) by (simp add: div_less_iff_less_mult power_add mult_2)
    moreover have "unat n div 2 ^ e \<noteq> 0" using False by (simp add: div_eq_0_iff)
    moreover have "unat n div 2 ^ e = unat n0 div 2 ^ (rv + e)" by (simp add: n(3) div_mult2_eq power_add)
    ultimately show ?thesis using dr by (auto simp: log2Step_def log2_inv_def s unat_eq_zero)
  qed
qed

lemma fastLog2Floor_spec:
  assumes "n \<noteq> 0"
  shows "2 ^ fastLog2Floor n \<le> unat n \<and> unat n < 2 ^ Suc (fastLog2Floor n)"
proof -
  note step = log2Step_inv [of n, unfolded mask_eq_exp_minus_1 push_bit_eq_mult]
  have "log2_inv n (2 * 16) (n, 0)" using assms unsigned_less [of n] by (simp add: log2_inv_def)
  then have "log2_inv n (2 * 8) (log2Step 0xffff0000 16 (n, 0))" using step [where e = 16 and m = "0xffff0000"] by simp
  then have "log2_inv n (2 * 4) (log2Step 0xff00 8 (log2Step 0xffff0000 16 (n, 0)))" using step [where e = 8 and m = "0xff00"] by simp
  then have "log2_inv n (2 * 2) (log2Step 0xf0 4 (log2Step 0xff00 8 (log2Step 0xffff0000 16 (n, 0))))"
    using step [where e = 4 and m = "0xf0"] by simp
  then have "log2_inv n (2 * 1) (log2Step 0xc 2 (log2Step 0xf0 4 (log2Step 0xff00 8 (log2Step 0xffff0000 16 (n, 0)))))"
    using step [where e = 2 and m = "0xc"] by simp
  then have "log2_inv n 1 (log2Step 0x2 1 (log2Step 0xc 2 (log2Step 0xf0 4 (log2Step 0xff00 8 (log2Step 0xffff0000 16 (n, 0))))))"
    using step [where e = 1 and m = "0x2"] by simp
  then have "unat n div 2 ^ fastLog2Floor n = 1"
    by (auto simp: log2_inv_def fastLog2Floor_def unat_eq_zero dest: less_2_cases)
  then have "unat n = 2 ^ fastLog2Floor n + unat n mod 2 ^ fastLog2Floor n" by (metis mult.right_neutral mult_div_mod_eq)
  moreover have "unat n mod 2 ^ fastLog2Floor n < 2 ^ fastLog2Floor n" by simp
  ultimately show ?thesis by (metis add_less_cancel_left le_add1 mult_2 power_Suc)
qed

lemma length_heights_doubling:
  assumes "2 ^ e \<le> a" and "a < 2 ^ Suc e" and "10 \<le> k"
  shows "2 ^ i \<le> a \<Longrightarrow> length (heights (a + 1 - 2 ^ i) (2 ^ i) k) = e - i + 2"
  using assms
proof (induction "a + 1 - 2 ^ i" arbitrary: i k rule: less_induct)
  case less
  let ?x = "a + 1 - 2 ^ i"
  have x: "0 < ?x" using less.prems(1) by simp
  have ie: "i \<le> e"
  proof (rule ccontr)
    assume "\<not> i \<le> e"
    then have "(2 :: nat) ^ Suc e \<le> 2 ^ i" by (intro power_increasing) auto
    with less.prems show False by simp
  qed
  show ?case
  proof (cases "2 ^ Suc i \<le> a")
    case True
    then have "Suc i \<le> e" using less.prems(3) power_increasing_iff [of "2 :: nat" "Suc e" "Suc i"]
      by (metis le_trans less_eq_Suc_le linorder_not_le nat_less_le one_less_numeral_iff power_strict_increasing_iff semiring_norm(76))
    moreover have "length (heights (a + 1 - 2 ^ Suc i) (2 ^ Suc i) (Suc k)) = e - Suc i + 2"
      using less.prems True by (intro less.hyps diff_less_mono2) auto
    moreover have "?x - 2 ^ i = a + 1 - 2 ^ Suc i" by simp
    ultimately show ?thesis using x less.prems(4) by (subst heights.simps) simp
  next
    case False
    then have "?x - 2 ^ i = 0" by simp
    moreover have "e = i"
    proof (rule antisym [OF _ ie])
      show "e \<le> i"
      proof (rule ccontr)
        assume "\<not> e \<le> i"
        then have "(2 :: nat) ^ Suc i \<le> 2 ^ e" by (intro power_increasing) auto
        with False less.prems show False by simp
      qed
    qed
    moreover have "length (heights 0 s j) = 1" for s j by (simp add: heights.simps)
    ultimately show ?thesis using x less.prems(4) by (subst heights.simps) simp
  qed
qed

lemma length_heights_linear: "k + m = 10 \<Longrightarrow> length (heights (x + m) 1 k) = m + length (heights x 1 10)"
proof (induction m arbitrary: k)
  case (Suc m)
  then show ?case by (subst heights.simps) simp
qed simp

lemma length_heights_small: "k + x \<le> 10 \<Longrightarrow> length (heights x 1 k) = x + 1"
proof (induction x arbitrary: k)
  case 0
  then show ?case by (simp add: heights.simps)
next
  case (Suc x)
  then show ?case by (subst heights.simps) simp
qed

lemma length_heights:
  assumes "int x < 2 ^ 31"
  shows "length (heights x 1 0) = maxEntries (int x)"
proof (cases "x \<le> 12")
  case True
  consider "x \<le> 10" | "x = 11" | "x = 12" using True by linarith
  then show ?thesis
  proof cases
    case 1
    then show ?thesis using length_heights_small [of 0 x] by (simp add: maxEntries_def)
  next
    case 2
    then show ?thesis using length_heights_linear [of 0 10 1] by (simp add: maxEntries_def heights.simps)
  next
    case 3
    then show ?thesis using length_heights_linear [of 0 10 2] by (simp add: maxEntries_def heights.simps)
  qed
next
  case False
  let ?a = "x - 10" and ?w = "of_int (int x) - 10 :: 32 word"
  have "?w = of_nat ?a" using False by simp
  then have w: "unat ?w = ?a" using assms by (simp add: unsigned_of_nat take_bit_nat_eq_self_iff)
  have "?w \<noteq> 0"
  proof
    assume "?w = 0"
    with w False show False by simp
  qed
  then have e: "2 ^ fastLog2Floor ?w \<le> ?a" "?a < 2 ^ Suc (fastLog2Floor ?w)" using fastLog2Floor_spec w by metis+
  have "0 < fastLog2Floor ?w" using e False by (cases "fastLog2Floor ?w") auto
  then have "length (heights (?a + 1 - 2 ^ 1) (2 ^ 1) 11) = fastLog2Floor ?w + 1"
    using length_heights_doubling [OF e, of 11 1] False by simp
  moreover have "length (heights ?a 1 10) = Suc (length (heights (?a + 1 - 2 ^ 1) (2 ^ 1) 11))"
    using False by (subst heights.simps) simp
  ultimately show ?thesis using length_heights_linear [of 0 10 ?a] False by (simp add: maxEntries_def)
qed

lemma heights_bound: "x \<in> set (heights y s k) \<Longrightarrow> x \<le> y"
proof (induction y s k rule: heights.induct)
  case (1 y s k)
  from 1(2) have "x = y \<or> \<not> (y = 0 \<or> s = 0) \<and> x \<in> set (heights (y - s) (if k < 10 then s else 2 * s) (Suc k))"
    by (subst (asm) heights.simps) (auto split: if_splits)
  with 1(1) show ?case by auto
qed

lemma heights_sorted: "0 < s \<Longrightarrow> sorted_wrt (>) (heights y s k) \<and> hd (heights y s k) = y \<and> last (heights y s k) = 0"
proof (induction y s k rule: heights.induct)
  case (1 y s k)
  show ?case
  proof (cases "y = 0")
    case False
    let ?r = "heights (y - s) (if k < 10 then s else 2 * s) (Suc k)"
    have r: "heights y s k = y # ?r" using False 1(2) by (subst heights.simps) simp
    have "\<forall>x \<in> set ?r. x < y" using heights_bound False 1(2) by fastforce
    moreover have "?r \<noteq> []" by (simp add: heights.simps)
    ultimately show ?thesis using 1 False by (simp add: r)
  qed (simp add: heights.simps)
qed

lemma wrap32_id: "- (2 ^ 31) \<le> i \<Longrightarrow> i < 2 ^ 31 \<Longrightarrow> wrap32 i = i"
  by (simp add: wrap32_def)

lemma locatorLoop_spec:
  assumes "view_of t c"
  shows "block_ok n \<Longrightarrow> n \<noteq> NoNode \<Longrightarrow> height_of n = 0 \<or> 1 \<le> s \<and> height_of n + s \<le> 2 ^ 31 \<Longrightarrow>
    locatorLoop c n s l = Some (l @ map (\<lambda>x. hash_of (upTo (int x) n)) (heights (nat (height_of n)) (nat s) (length l)))"
proof (induction "nat (height_of n)" arbitrary: n s l rule: less_induct)
  case less
  note nn = block_ok_nonneg [OF less.prems(1,2)]
  show ?case
  proof (cases "height_of n = 0")
    case True
    then show ?thesis using less.prems(2) upTo_self [OF less.prems(2)] by (subst locatorLoop.simps) (simp add: heights.simps)
  next
    case False
    then have pos: "0 < height_of n" and s: "1 \<le> s" "height_of n + s \<le> 2 ^ 31" using nn less.prems(3) by auto
    let ?h = "if height_of n - s < 0 then 0 else height_of n - s"
    let ?m = "upTo ?h n" and ?s = "if length (l @ [hash_of n]) > 10 then wrap32 (s * 2) else s"
    have w: "wrap32 (height_of n - s) = height_of n - s" using pos s by (intro wrap32_id) auto
    have h: "0 \<le> ?h" "?h < height_of n" using pos s by auto
    have m: "?m \<noteq> NoNode" "block_ok ?m" "height_of ?m = ?h" using upTo_found [OF less.prems(1,2) h(1)] h(2) by auto
    have step: "(if cv_contains n c then cv_nodes c ! nat ?h else node_Ancestor ?h n) = ?m"
    proof (cases "cv_contains n c")
      case True
      then have n: "n \<in> set (lineage t)" using cv_contains_iff [OF assms less.prems(2)] by simp
      have t: "block_ok t" "cv_nodes c = rev (lineage t)" "t \<noteq> NoNode" using assms n by (auto simp: view_of_def)
      have u: "upTo (height_of n) t = n" "height_of n \<le> height_of t" using upTo_in_lineage [OF n t(1)] by auto
      have "nat ?h < length (lineage t)" using u(2) h block_ok_height [OF t(1,3)] by auto
      then have "cv_nodes c ! nat ?h = upTo ?h t" using rev_lineage_nth [OF t(1)] t(2) h(1) by simp
      also have "\<dots> = ?m" using upTo_below [OF t(1,3) h(1), of "height_of n"] h(2) u by simp
      finally show ?thesis using True by simp
    next
      case False
      then show ?thesis using node_Ancestor_upTo [OF less.prems(1,2) h(1)] h(2) by simp
    qed
    have sum: "height_of ?m = 0 \<or> 1 \<le> ?s \<and> height_of ?m + ?s \<le> 2 ^ 31"
    proof (cases "height_of n - s \<le> 0")
      case True
      then show ?thesis using m(3) by auto
    next
      case False
      then have "s * 2 < 2 ^ 31" using s by simp
      then have "wrap32 (s * 2) = s * 2" using s by (intro wrap32_id) auto
      then show ?thesis using m(3) s False by auto
    qed
    have rest: "map (\<lambda>x. hash_of (upTo (int x) ?m)) xs = map (\<lambda>x. hash_of (upTo (int x) n)) xs"
      if "\<forall>x \<in> set xs. int x \<le> ?h" for xs
      using that upTo_below [OF less.prems(1,2) _ _ less_imp_le [OF h(2)]] by auto
    let ?k = "Suc (length l)" and ?g = "if length l < 10 then nat s else 2 * nat s"
    have "heights (nat ?h) (nat ?s) ?k = heights (nat ?h) ?g ?k"
    proof (cases "height_of n - s \<le> 0")
      case True
      then have "nat ?h = 0" by auto
      then show ?thesis by (simp add: heights.simps)
    next
      case False
      then have "s * 2 < 2 ^ 31" using s by simp
      then have "wrap32 (s * 2) = s * 2" using s by (intro wrap32_id) auto
      then have "nat ?s = ?g" using s by (auto simp: nat_mult_distrib)
      then show ?thesis by simp
    qed
    moreover have "nat ?h = nat (height_of n) - nat s" using s by auto
    ultimately have tail: "heights (nat (height_of n)) (nat s) (length l) = nat (height_of n) # heights (nat ?h) (nat ?s) ?k"
      using pos s by (subst heights.simps) simp
    have "locatorLoop c n s l = locatorLoop c ?m ?s (l @ [hash_of n])"
      using False less.prems(2) step by (subst locatorLoop.simps) (simp add: w Let_def)
    also have "\<dots> = Some ((l @ [hash_of n]) @ map (\<lambda>x. hash_of (upTo (int x) ?m)) (heights (nat ?h) (nat ?s) ?k))"
      using less.hyps [OF _ m(2,1) sum, of "l @ [hash_of n]"] h m(3) by simp
    also have "map (\<lambda>x. hash_of (upTo (int x) ?m)) (heights (nat ?h) (nat ?s) ?k) =
        map (\<lambda>x. hash_of (upTo (int x) n)) (heights (nat ?h) (nat ?s) ?k)"
      using heights_bound h(1) by (intro rest) (metis int_nat_eq of_nat_mono)
    finally show ?thesis using tail upTo_self [OF less.prems(2)] pos by simp
  qed
qed

text \<open>What a block locator lists.  For a block of the view's tree, in the view or not, the locator is built without
  failure: it lists hashes of the block's ancestors from the block itself down to the first block of the chain, at
  strictly decreasing heights, and has exactly as many entries as were allocated for it, at most twelve plus the
  binary logarithm of the height.\<close>

theorem blockLocator_spec:
  assumes "view_of t c" and "block_ok n" and "n \<noteq> NoNode" and "height_of n < 2 ^ 31"
  shows "\<exists>hs. blockLocator n c = Some (map (\<lambda>x. hash_of (node_Ancestor (int x) n)) hs) \<and>
    length hs = maxEntries (height_of n) \<and> hd hs = nat (height_of n) \<and> last hs = 0 \<and> sorted_wrt (>) hs"
proof -
  let ?hs = "heights (nat (height_of n)) 1 0"
  note nn = block_ok_nonneg [OF assms(2,3)]
  have "blockLocator n c = Some (map (\<lambda>x. hash_of (upTo (int x) n)) ?hs)"
    using locatorLoop_spec [OF assms(1,2,3), of 1 "[]"] assms(3,4) by (simp add: blockLocator_def)
  also have "map (\<lambda>x. hash_of (upTo (int x) n)) ?hs = map (\<lambda>x. hash_of (node_Ancestor (int x) n)) ?hs"
  proof (rule map_cong [OF refl])
    fix x
    assume "x \<in> set ?hs"
    then have "int x \<le> height_of n" using heights_bound nn by (metis int_nat_eq of_nat_mono)
    then show "hash_of (upTo (int x) n) = hash_of (node_Ancestor (int x) n)" using node_Ancestor_upTo [OF assms(2,3)] by simp
  qed
  finally show ?thesis
    using length_heights [of "nat (height_of n)"] nn assms(4) heights_sorted [of 1 "nat (height_of n)" 0] by (intro exI [of _ ?hs]) simp
qed

subsection \<open>Examples\<close>

definition demoFork :: blockNode where
  "demoFork = newBlockNode demoHash (demoHeaderAt 9) (demoChain 1)"

definition demoBranch :: "nat \<Rightarrow> chainView" where
  "demoBranch m = \<lparr>cv_nodes = rev (lineage (demoChain m))\<rparr>"

lemma demo_view: "view_of (demoChain m) (demoBranch m)"
  by (simp add: view_of_def demoBranch_def demoChain_ok)

lemma demoChain_some: "0 < m \<Longrightarrow> demoChain m \<noteq> NoNode"
  using demoChain_parts(1) [of "m - 1"] by simp

lemma demoFork_ok: "block_ok demoFork"
  unfolding demoFork_def by (intro newBlockNode_ok demoChain_ok)

theorem view_refines_branch_witness:
  "\<exists>c. setTips [demoFork, demoChain 3] \<lparr>cv_nodes = []\<rparr> = Ok c \<and> tip c = demoChain 3 \<and> cv_contains (demoChain 2) c"
proof -
  have "demoChain (Suc 1) \<in> set (lineage (demoChain 3))" unfolding demoChain_in_lineage by (intro exI [of _ 1]) simp
  then have "demoChain 2 \<in> set (lineage (demoChain 3))" by (simp only: Suc_1)
  with view_refines_branch [of "[demoFork]" "demoChain 3"] demoFork_ok demoChain_ok demoChain_some [of 3] demoChain_some [of 2]
  show ?thesis by auto
qed

theorem findFork_highest_witness: "findFork demoFork (demoBranch 3) \<noteq> NoNode"
proof -
  have one: "demoChain 1 \<in> set (lineage (demoChain m))" if "0 < m" for m
    unfolding demoChain_in_lineage using that by (intro exI [of _ 0]) simp
  have "demoChain 1 \<in> set (lineage demoFork)"
  proof -
    obtain f p a where d: "demoFork = BlockNode f p a" using newBlockNode_parts(1) unfolding demoFork_def by (metis blockNode.exhaust)
    then have "p = demoChain 1" using newBlockNode_parts(2) [of demoHash "demoHeaderAt 9" "demoChain 1"] unfolding demoFork_def by simp
    with one [of 1] show ?thesis unfolding d by (simp del: demoChain.simps)
  qed
  then show ?thesis using one [of 3] findFork_highest [OF demo_view [of 3] demoFork_ok] by auto
qed

theorem blockLocator_spec_witness:
  "\<exists>hs. blockLocator (demoChain 30) (demoBranch 30) = Some (map (\<lambda>x. hash_of (node_Ancestor (int x) (demoChain 30))) hs) \<and>
    length hs = 16 \<and> last hs = 0"
proof -
  have "height_of (demoChain 30) = 29" using demoChain_height [of 29] by (simp del: demoChain.simps)
  moreover have "maxEntries 29 = 16" by (simp add: maxEntries_def fastLog2Floor_def log2Step_def)
  ultimately show ?thesis
    using blockLocator_spec [OF demo_view [of 30] demoChain_ok [of 30] demoChain_some [of 30]] by auto
qed

end
