(* ===== verification/Coin_Deploy.thy ===== *)
theory Coin_Deploy
  imports Coin_View
begin

text \<open>
  Deployment of rule changes by miners' votes: the state machine and its cache (\<open>src/btcd/blockchain/thresholdstate.go\<close>), the
  deployment checker and the version of the next block (\<open>versionbits.go\<close>), the start and end of a vote by median time
  (\<open>chaincfg/deployment_time_frame.go\<close>) and the deployments of the main network (\<open>chaincfg/params.go\<close>).  The cache of a
  deployment is a map from block hashes.  The zero time, which starts a vote at once or never ends it, is \<open>None\<close>.
  The checker that only warns of unknown votes is left out.

  The lemmas show that the cached walk over the windows computes the state that the votes of all windows define, in
  which order the states follow each other and what an activation needs, and that on a chain
  begun after 2017 the two deployments of that time have failed from the first window on.
\<close>

subsection \<open>Parameters\<close>

datatype ThresholdState = ThresholdDefined | ThresholdStarted | ThresholdLockedIn | ThresholdActive | ThresholdFailed

record deployment =
  BitNumber :: nat
  MinActivationHeight :: "32 word"
  CustomActivationThreshold :: "32 word"
  startTime :: "int option"
  endTime :: "int option"

record voting =
  RuleChangeActivationThreshold :: "32 word"
  MinerConfirmationWindow :: "32 word"
  Deployments :: "deployment list"

definition MainNetVoting :: voting where
  "MainNetVoting = \<lparr>RuleChangeActivationThreshold = 1916, MinerConfirmationWindow = 2016, Deployments = [
     \<lparr>BitNumber = 28, MinActivationHeight = 0, CustomActivationThreshold = 0, startTime = Some 11991456010, endTime = Some 1230767999\<rparr>,
     \<lparr>BitNumber = 22, MinActivationHeight = 100000, CustomActivationThreshold = 1815, startTime = None, endTime = None\<rparr>,
     \<lparr>BitNumber = 0, MinActivationHeight = 0, CustomActivationThreshold = 0, startTime = Some 1462060800, endTime = Some 1493596800\<rparr>,
     \<lparr>BitNumber = 1, MinActivationHeight = 0, CustomActivationThreshold = 0, startTime = Some 1479168000, endTime = Some 1510704000\<rparr>,
     \<lparr>BitNumber = 2, MinActivationHeight = 709632, CustomActivationThreshold = 1815, startTime = Some 1619222400, endTime = Some 1628640000\<rparr>]\<rparr>"

definition DeploymentCSV :: nat where "DeploymentCSV = 2"
definition DeploymentSegwit :: nat where "DeploymentSegwit = 3"
definition DeploymentTaproot :: nat where "DeploymentTaproot = 4"

text \<open>What the checkers know of the chain: its parameters, its index and the hash of a header.\<close>

record vchain =
  vc_params :: voting
  vc_index :: blockIndex
  vc_hash :: "BlockHeader \<Rightarrow> hash"

subsection \<open>The checker of a deployment\<close>

definition PastMedianTime :: "vchain \<Rightarrow> BlockHeader \<Rightarrow> int outcome" where
  "PastMedianTime b header =
    (let prevNode = LookupNode (bh_PrevBlock header) (vc_index b) in
     if prevNode = NoNode then Err ''blockHeader has no previous node''
     else CalcPastMedianTime (newBlockNode (vc_hash b) header prevNode))"

definition starter_HasStarted :: "vchain \<Rightarrow> deployment \<Rightarrow> BlockHeader \<Rightarrow> bool outcome" where
  "starter_HasStarted b d header = (case startTime d of
      None \<Rightarrow> Ok True
    | Some t \<Rightarrow> (case PastMedianTime b header of
        Ok medianTime \<Rightarrow> Ok (medianTime > t \<or> medianTime = t)
      | Err e \<Rightarrow> Err e | Panic e \<Rightarrow> Panic e | Blocked \<Rightarrow> Blocked))"

definition ender_HasEnded :: "vchain \<Rightarrow> deployment \<Rightarrow> BlockHeader \<Rightarrow> bool outcome" where
  "ender_HasEnded b d header = (case endTime d of
      None \<Rightarrow> Ok False
    | Some t \<Rightarrow> (case PastMedianTime b header of
        Ok medianTime \<Rightarrow> Ok (medianTime > t \<or> medianTime = t)
      | Err e \<Rightarrow> Err e | Panic e \<Rightarrow> Panic e | Blocked \<Rightarrow> Blocked))"

text \<open>The errors are dropped; the value that comes with an error is false.\<close>

definition HasStarted :: "vchain \<Rightarrow> deployment \<Rightarrow> blockNode \<Rightarrow> bool" where
  "HasStarted b d n = (starter_HasStarted b d (nodeHeader n) = Ok True)"

definition HasEnded :: "vchain \<Rightarrow> deployment \<Rightarrow> blockNode \<Rightarrow> bool" where
  "HasEnded b d n = (ender_HasEnded b d (nodeHeader n) = Ok True)"

definition ActivationThreshold :: "vchain \<Rightarrow> deployment \<Rightarrow> 32 word" where
  "ActivationThreshold b d =
    (if CustomActivationThreshold d \<noteq> 0 then CustomActivationThreshold d else RuleChangeActivationThreshold (vc_params b))"

definition EligibleToActivate :: "deployment \<Rightarrow> blockNode \<Rightarrow> bool" where
  "EligibleToActivate d n =
    (if MinActivationHeight d = 0 then True else of_int (height_of n) + 1 \<ge> MinActivationHeight d)"

definition IsSpeedy :: "deployment \<Rightarrow> bool" where
  "IsSpeedy d \<longleftrightarrow> MinActivationHeight d \<noteq> 0 \<or> CustomActivationThreshold d \<noteq> 0"

definition vbTopBits :: "32 word" where "vbTopBits = 0x20000000"
definition vbTopMask :: "32 word" where "vbTopMask = 0xe0000000"

definition Condition :: "deployment \<Rightarrow> blockNode \<Rightarrow> bool outcome" where
  "Condition d n =
    (if n = NoNode then Panic ''invalid memory address or nil pointer dereference''
     else let conditionMask = push_bit (BitNumber d) (1 :: 32 word); version = of_int (n_version (blk n)) in
       Ok (version AND vbTopMask = vbTopBits \<and> version AND conditionMask \<noteq> 0))"

subsection \<open>The state machine\<close>

fun countVotes :: "deployment \<Rightarrow> nat \<Rightarrow> blockNode \<Rightarrow> 32 word \<Rightarrow> 32 word outcome" where
  "countVotes d 0 countNode votes = Ok votes"
| "countVotes d (Suc i) countNode votes = (case Condition d countNode of
      Ok c \<Rightarrow> countVotes d i (n_parent countNode) (if c then votes + 1 else votes)
    | Err e \<Rightarrow> Err e | Panic e \<Rightarrow> Panic e | Blocked \<Rightarrow> Blocked)"

definition thresholdStateTransition ::
  "vchain \<Rightarrow> deployment \<Rightarrow> ThresholdState \<Rightarrow> blockNode \<Rightarrow> int \<Rightarrow> ThresholdState outcome" where
  "thresholdStateTransition b d state prevNode confirmationWindow = (case state of
      ThresholdDefined \<Rightarrow>
        if \<not> IsSpeedy d \<and> HasEnded b d prevNode then Ok ThresholdFailed
        else if HasStarted b d prevNode then Ok ThresholdStarted
        else Ok ThresholdDefined
    | ThresholdStarted \<Rightarrow>
        if \<not> IsSpeedy d \<and> HasEnded b d prevNode then Ok ThresholdFailed
        else (case countVotes d (nat confirmationWindow) prevNode 0 of
            Ok votes \<Rightarrow>
              if votes \<ge> ActivationThreshold b d then Ok ThresholdLockedIn
              else if IsSpeedy d \<and> HasEnded b d prevNode then Ok ThresholdFailed
              else Ok ThresholdStarted
          | Err e \<Rightarrow> Err e | Panic e \<Rightarrow> Panic e | Blocked \<Rightarrow> Blocked)
    | ThresholdLockedIn \<Rightarrow>
        if \<not> EligibleToActivate d prevNode then Ok ThresholdLockedIn else Ok ThresholdActive
    | ThresholdActive \<Rightarrow> Ok ThresholdActive
    | ThresholdFailed \<Rightarrow> Ok ThresholdFailed)"

type_synonym cache = "hash \<rightharpoonup> ThresholdState"

text \<open>The walk back over the windows: the blocks whose state is needed, the newest first, the block it stopped at
  and the cache.\<close>

partial_function (option) neededLoop ::
  "vchain \<Rightarrow> deployment \<Rightarrow> int \<Rightarrow> blockNode \<Rightarrow> cache \<Rightarrow> blockNode list \<Rightarrow> (blockNode list \<times> blockNode \<times> cache) option" where
  "neededLoop b d window prevNode cache needed =
    (if prevNode = NoNode then Some (needed, NoNode, cache)
     else if cache (hash_of prevNode) \<noteq> None then Some (needed, prevNode, cache)
     else if \<not> HasStarted b d prevNode then Some (needed, prevNode, cache(hash_of prevNode \<mapsto> ThresholdDefined))
     else neededLoop b d window (node_RelativeAncestor window prevNode) cache (needed @ [prevNode]))"

fun calcStates ::
  "vchain \<Rightarrow> deployment \<Rightarrow> int \<Rightarrow> blockNode list \<Rightarrow> ThresholdState \<Rightarrow> cache \<Rightarrow> ThresholdState outcome \<times> cache" where
  "calcStates b d window [] state cache = (Ok state, cache)"
| "calcStates b d window (prevNode # ns) state cache =
    (case thresholdStateTransition b d state prevNode window of
       Ok state' \<Rightarrow> calcStates b d window ns state' (cache(hash_of prevNode \<mapsto> state'))
     | r \<Rightarrow> (r, cache))"

definition thresholdState ::
  "vchain \<Rightarrow> deployment \<Rightarrow> blockNode \<Rightarrow> cache \<Rightarrow> (ThresholdState outcome \<times> cache) option" where
  "thresholdState b d prevNode cache =
    (let window = sint (MinerConfirmationWindow (vc_params b)) in
     if prevNode = NoNode \<or> height_of prevNode + 1 < window then Some (Ok ThresholdDefined, cache)
     else if window = 0 then Some (Panic ''integer divide by zero'', cache)
     else
       let prevNode = node_Ancestor (height_of prevNode - go_rem (height_of prevNode + 1) window) prevNode in
       case neededLoop b d window prevNode cache [] of
         None \<Rightarrow> None
       | Some (needed, stop, cache') \<Rightarrow>
           (case (if stop \<noteq> NoNode then cache' (hash_of stop) else Some ThresholdDefined) of
              None \<Rightarrow> Some (Err ''thresholdState: cache lookup failed'', cache')
            | Some state \<Rightarrow> Some (calcStates b d window (rev needed) state cache')))"

definition deploymentState ::
  "vchain \<Rightarrow> blockNode \<Rightarrow> nat \<Rightarrow> cache list \<Rightarrow> (ThresholdState outcome \<times> cache list) option" where
  "deploymentState b prevNode deploymentID caches =
    (if deploymentID > length (Deployments (vc_params b)) then Some (Err ''deployment ID does not exist'', caches)
     else if deploymentID \<ge> length (Deployments (vc_params b)) \<or> deploymentID \<ge> length caches
     then Some (Panic ''index out of range'', caches)
     else map_option (\<lambda>(r, cache). (r, caches[deploymentID := cache]))
            (thresholdState b (Deployments (vc_params b) ! deploymentID) prevNode (caches ! deploymentID)))"

fun versionLoop ::
  "vchain \<Rightarrow> blockNode \<Rightarrow> nat \<Rightarrow> deployment list \<Rightarrow> cache list \<Rightarrow> 32 word \<Rightarrow> (32 word outcome \<times> cache list) option" where
  "versionLoop b prevNode i [] caches expectedVersion = Some (Ok expectedVersion, caches)"
| "versionLoop b prevNode i (d # ds) caches expectedVersion =
    (if i \<ge> length caches then Some (Panic ''index out of range'', caches)
     else case thresholdState b d prevNode (caches ! i) of
       None \<Rightarrow> None
     | Some (Ok state, cache) \<Rightarrow>
         versionLoop b prevNode (Suc i) ds (caches[i := cache])
           (if state = ThresholdStarted \<or> state = ThresholdLockedIn then expectedVersion OR push_bit (BitNumber d) 1
            else expectedVersion)
     | Some (Err e, cache) \<Rightarrow> Some (Err e, caches[i := cache])
     | Some (Panic e, cache) \<Rightarrow> Some (Panic e, caches[i := cache])
     | Some (Blocked, cache) \<Rightarrow> Some (Blocked, caches[i := cache]))"

definition calcNextBlockVersion :: "vchain \<Rightarrow> blockNode \<Rightarrow> cache list \<Rightarrow> (32 word outcome \<times> cache list) option" where
  "calcNextBlockVersion b prevNode caches = versionLoop b prevNode 0 (Deployments (vc_params b)) caches vbTopBits"

definition IsDeploymentActive :: "vchain \<Rightarrow> blockNode \<Rightarrow> nat \<Rightarrow> cache list \<Rightarrow> (bool outcome \<times> cache list) option" where
  "IsDeploymentActive b bestTip deploymentID caches =
    map_option (\<lambda>(r, cs). (case r of Ok s \<Rightarrow> Ok (s = ThresholdActive) | Err e \<Rightarrow> Err e | Panic e \<Rightarrow> Panic e | Blocked \<Rightarrow> Blocked, cs))
      (deploymentState b bestTip deploymentID caches)"

subsection \<open>The state defined by the votes\<close>

definition signals :: "deployment \<Rightarrow> blockNode \<Rightarrow> bool" where
  "signals d n \<longleftrightarrow> Condition d n = Ok True"

definition window :: "vchain \<Rightarrow> nat" where
  "window b = nat (sint (MinerConfirmationWindow (vc_params b)))"

definition votesFor :: "vchain \<Rightarrow> deployment \<Rightarrow> blockNode \<Rightarrow> nat" where
  "votesFor b d n = length (filter (signals d) (take (window b) (lineage n)))"

text \<open>The step at the last block \<open>n\<close> of a window, and the state after \<open>k\<close> windows of the branch of \<open>t\<close>.\<close>

fun nextState :: "vchain \<Rightarrow> deployment \<Rightarrow> blockNode \<Rightarrow> ThresholdState \<Rightarrow> ThresholdState" where
  "nextState b d n ThresholdDefined =
    (if \<not> IsSpeedy d \<and> HasEnded b d n then ThresholdFailed
     else if HasStarted b d n then ThresholdStarted else ThresholdDefined)"
| "nextState b d n ThresholdStarted =
    (if \<not> IsSpeedy d \<and> HasEnded b d n then ThresholdFailed
     else if votesFor b d n \<ge> unat (ActivationThreshold b d) then ThresholdLockedIn
     else if IsSpeedy d \<and> HasEnded b d n then ThresholdFailed else ThresholdStarted)"
| "nextState b d n ThresholdLockedIn = (if EligibleToActivate d n then ThresholdActive else ThresholdLockedIn)"
| "nextState b d n ThresholdActive = ThresholdActive"
| "nextState b d n ThresholdFailed = ThresholdFailed"

primrec stateAfter :: "vchain \<Rightarrow> deployment \<Rightarrow> blockNode \<Rightarrow> nat \<Rightarrow> ThresholdState" where
  "stateAfter b d t 0 = ThresholdDefined"
| "stateAfter b d t (Suc k) = nextState b d (upTo (int (Suc k * window b) - 1) t) (stateAfter b d t k)"

definition windowsOf :: "vchain \<Rightarrow> blockNode \<Rightarrow> nat" where
  "windowsOf b n = nat (height_of n + 1) div window b"

definition stateOf :: "vchain \<Rightarrow> deployment \<Rightarrow> blockNode \<Rightarrow> ThresholdState" where
  "stateOf b d n = (if n = NoNode then ThresholdDefined else stateAfter b d n (windowsOf b n))"

lemma countVotes_spec:
  "w \<le> length (lineage n) \<Longrightarrow> countVotes d w n c = Ok (c + of_nat (length (filter (signals d) (take w (lineage n)))))"
proof (induction d w n c rule: countVotes.induct)
  case (2 d i n c)
  then obtain f p a where n: "n = BlockNode f p a" by (cases n) auto
  obtain s where s: "Condition d n = Ok s" by (auto simp: Condition_def n Let_def)
  with 2 n show ?case by (simp add: signals_def)
qed simp

lemma transition_spec:
  assumes "window b \<le> length (lineage n)"
  shows "thresholdStateTransition b d s n (int (window b)) = Ok (nextState b d n s)"
proof (cases s)
  case ThresholdStarted
  have "votesFor b d n \<le> window b" by (simp add: votesFor_def) (metis length_filter_le length_take min.cobounded2 order_trans)
  also have "window b < 2 ^ 32"
  proof -
    have "sint (MinerConfirmationWindow (vc_params b)) < 2 ^ 31" using sint_lt [of "MinerConfirmationWindow (vc_params b)"] by simp
    then show ?thesis by (simp add: window_def)
  qed
  finally have v: "unat (of_nat (votesFor b d n) :: 32 word) = votesFor b d n" by (rule unat_small32)
  have "countVotes d (window b) n 0 = Ok (of_nat (votesFor b d n))" using countVotes_spec [OF assms, of d 0] by (simp add: votesFor_def)
  then show ?thesis using v by (simp add: ThresholdStarted thresholdStateTransition_def word_le_nat_alt)
qed (simp_all add: thresholdStateTransition_def)

lemma stateAfter_prefix:
  assumes "block_ok t" and "n \<in> set (lineage t)" and "int (k * window b) \<le> height_of n + 1" and "0 < window b"
  shows "stateAfter b d t k = stateAfter b d n k"
  using assms(3)
proof (induction k)
  case (Suc k)
  have n: "upTo (height_of n) t = n" "height_of n \<le> height_of t" "t \<noteq> NoNode" using upTo_in_lineage [OF assms(2,1)] assms(2) by auto
  let ?h = "int (Suc k * window b) - 1"
  have "0 \<le> ?h" "?h \<le> height_of n" using Suc.prems assms(4) by (auto intro: add_pos_nonneg)
  then have "upTo ?h t = upTo ?h n" using upTo_below [OF assms(1) n(3), of ?h "height_of n"] n by simp
  moreover have "stateAfter b d t k = stateAfter b d n k" using Suc by simp
  ultimately show ?case by simp
qed simp

text \<open>A vote that has started does not stop being started further up the branch, and ends only after it started.\<close>

definition orderly :: "vchain \<Rightarrow> deployment \<Rightarrow> blockNode set \<Rightarrow> bool" where
  "orderly b d N \<longleftrightarrow> (\<forall>n \<in> N. \<forall>m \<in> set (lineage n). HasStarted b d m \<longrightarrow> HasStarted b d n) \<and>
     (\<forall>n \<in> N. HasEnded b d n \<longrightarrow> HasStarted b d n)"

text \<open>A part of the block tree: with a block also its ancestors, and no two blocks of the same hash.\<close>

definition tree :: "blockNode set \<Rightarrow> bool" where
  "tree N \<longleftrightarrow> (\<forall>n \<in> N. block_ok n \<and> n \<noteq> NoNode \<and> set (lineage n) \<subseteq> N) \<and> inj_on hash_of N"

lemma not_started_defined:
  assumes "orderly b d N" and "tree N" and "t \<in> N" and "0 < window b"
  shows "int (k * window b) \<le> height_of t + 1 \<Longrightarrow> k = 0 \<or> \<not> HasStarted b d (upTo (int (k * window b) - 1) t) \<Longrightarrow>
    stateAfter b d t k = ThresholdDefined"
proof (induction k)
  case (Suc k)
  have t: "block_ok t" "t \<noteq> NoNode" "set (lineage t) \<subseteq> N" using assms(2,3) by (auto simp: tree_def)
  let ?n = "upTo (int (Suc k * window b) - 1) t"
  have h: "0 \<le> int (Suc k * window b) - 1" "int (Suc k * window b) - 1 \<le> height_of t" using Suc.prems(1) assms(4) by (auto intro: add_pos_nonneg)
  have n: "?n \<in> N" "?n \<noteq> NoNode" "block_ok ?n" "height_of ?n = int (Suc k * window b) - 1"
    using upTo_found [OF t(1,2) h] t(3) by auto
  have ns: "\<not> HasStarted b d ?n" using Suc.prems(2) by simp
  have "k = 0 \<or> \<not> HasStarted b d (upTo (int (k * window b) - 1) t)"
  proof (cases "k = 0")
    case False
    let ?m = "upTo (int (k * window b) - 1) t"
    have "?m = upTo (int (k * window b) - 1) ?n" using upTo_below [OF t(1,2) _ _ h(2)] False assms(4) by simp
    moreover have "upTo (int (k * window b) - 1) ?n \<in> set (lineage ?n)"
      using upTo_found [OF n(3,2)] n(4) False assms(4) by simp
    ultimately show ?thesis using ns n(1) assms(1) by (auto simp: orderly_def)
  qed simp
  then have "stateAfter b d t k = ThresholdDefined" using Suc.IH Suc.prems(1) by simp
  moreover have "\<not> HasEnded b d ?n" using ns n(1) assms(1) by (auto simp: orderly_def)
  ultimately show ?case using ns by simp
qed simp

subsection \<open>The cached computation\<close>

definition cache_ok :: "vchain \<Rightarrow> deployment \<Rightarrow> blockNode set \<Rightarrow> cache \<Rightarrow> bool" where
  "cache_ok b d N c \<longleftrightarrow> (\<forall>n \<in> N. \<forall>s. c (hash_of n) = Some s \<longrightarrow> s = stateOf b d n)"

lemma cache_ok_upd: "cache_ok b d N c \<Longrightarrow> tree N \<Longrightarrow> n \<in> N \<Longrightarrow> s = stateOf b d n \<Longrightarrow> cache_ok b d N (c(hash_of n \<mapsto> s))"
  by (auto simp: cache_ok_def tree_def dest: inj_onD)

lemma calcStates_append:
  "calcStates b d w (xs @ ys) s c = (case calcStates b d w xs s c of
      (Ok s', c') \<Rightarrow> calcStates b d w ys s' c'
    | r \<Rightarrow> r)"
  by (induction xs arbitrary: s c) (simp_all split: outcome.split)

text \<open>A block at the end of its window.\<close>

definition window_end :: "vchain \<Rightarrow> nat \<Rightarrow> blockNode \<Rightarrow> bool" where
  "window_end b k n \<longleftrightarrow> (if k = 0 then n = NoNode else n \<noteq> NoNode \<and> height_of n + 1 = int (k * window b))"

lemma windowsOf_end: "height_of n + 1 = int (k * window b) \<Longrightarrow> 0 < window b \<Longrightarrow> windowsOf b n = k"
  by (simp only: windowsOf_def nat_int nonzero_mult_div_cancel_right neq0_conv)

lemma window_end_step:
  assumes "window_end b (Suc k) n" and "block_ok n" and "0 < window b"
  shows "window_end b k (node_RelativeAncestor (int (window b)) n)"
    "node_RelativeAncestor (int (window b)) n \<noteq> NoNode \<Longrightarrow> node_RelativeAncestor (int (window b)) n \<in> set (lineage n)"
    "window b \<le> length (lineage n)"
    "stateOf b d n = nextState b d n (stateOf b d (node_RelativeAncestor (int (window b)) n))"
proof -
  let ?m = "node_RelativeAncestor (int (window b)) n"
  have n: "n \<noteq> NoNode" "height_of n + 1 = int (Suc k * window b)" using assms(1) by (auto simp: window_end_def)
  have m: "?m = (if k = 0 then NoNode else upTo (int (k * window b) - 1) n)"
  proof (cases "k = 0")
    case False
    then have "0 \<le> int (k * window b) - 1" "int (k * window b) - 1 \<le> height_of n" using n assms(3) by auto
    moreover have "height_of n - int (window b) = int (k * window b) - 1" using n by simp
    ultimately show ?thesis using False node_Ancestor_upTo [OF assms(2) n(1)] by (simp add: node_RelativeAncestor_def)
  qed (use n in \<open>simp add: node_RelativeAncestor_def node_Ancestor_def\<close>)
  have f: "?m \<noteq> NoNode \<and> ?m \<in> set (lineage n) \<and> height_of ?m = int (k * window b) - 1" if "k \<noteq> 0"
    using that m upTo_found [OF assms(2) n(1), of "int (k * window b) - 1"] n(2) assms(3) by simp
  show "window_end b k ?m" using f m by (auto simp: window_end_def)
  show "?m \<noteq> NoNode \<Longrightarrow> ?m \<in> set (lineage n)" using f m by (cases "k = 0") auto
  have "length (lineage n) = Suc k * window b" using block_ok_height [OF assms(2) n(1)] n(2) by linarith
  then show "window b \<le> length (lineage n)" by simp
  have kn: "windowsOf b n = Suc k" using n(2) assms(3) by (rule windowsOf_end)
  have "stateOf b d ?m = stateAfter b d n k"
  proof (cases "k = 0")
    case False
    then have "windowsOf b ?m = k" using f assms(3) by (intro windowsOf_end) simp_all
    moreover have "stateAfter b d n k = stateAfter b d ?m k"
      using stateAfter_prefix [OF assms(2) _ _ assms(3), of ?m k] f False by simp
    ultimately show ?thesis using f False by (simp add: stateOf_def)
  qed (simp add: m stateOf_def)
  moreover have "int (Suc k * window b) - 1 = height_of n" using n(2) by simp
  then have "stateAfter b d n (Suc k) = nextState b d n (stateAfter b d n k)" using upTo_self [OF n(1)] by simp
  ultimately show "stateOf b d n = nextState b d n (stateOf b d ?m)" using n(1) kn by (simp add: stateOf_def)
qed

lemma cached_walk:
  assumes "tree N" and "orderly b d N" and "0 < window b"
  shows "window_end b k n \<Longrightarrow> n = NoNode \<or> n \<in> N \<Longrightarrow> cache_ok b d N c \<Longrightarrow>
    \<exists>ns stop c' c''. neededLoop b d (int (window b)) n c l = Some (l @ ns, stop, c') \<and>
      (stop \<noteq> NoNode \<longrightarrow> c' (hash_of stop) = Some (stateOf b d stop)) \<and>
      calcStates b d (int (window b)) (rev ns) (stateOf b d stop) c' = (Ok (stateOf b d n), c'') \<and> cache_ok b d N c''"
proof (induction k arbitrary: n l)
  case 0
  then show ?case by (subst neededLoop.simps) (auto simp: window_end_def)
next
  case (Suc k)
  have n: "n \<noteq> NoNode" "n \<in> N" "block_ok n" "set (lineage n) \<subseteq> N" "height_of n + 1 = int (Suc k * window b)"
    using Suc.prems assms(1) by (auto simp: window_end_def tree_def)
  note step = window_end_step [OF Suc.prems(1) n(3) assms(3)]
  let ?m = "node_RelativeAncestor (int (window b)) n"
  consider (cached) s where "c (hash_of n) = Some s" | (early) "c (hash_of n) = None" "\<not> HasStarted b d n"
    | (needed) "c (hash_of n) = None" "HasStarted b d n" by fastforce
  then show ?case
  proof cases
    case cached
    then have "s = stateOf b d n" using Suc.prems(3) n(2) by (simp add: cache_ok_def)
    with cached n(1) Suc.prems(3) show ?thesis by (subst neededLoop.simps) auto
  next
    case early
    have "stateAfter b d n (Suc k) = ThresholdDefined"
    proof (rule not_started_defined [OF assms(2,1) n(2) assms(3)])
      have "int (Suc k * window b) - 1 = height_of n" using n(5) by linarith
      then show "Suc k = 0 \<or> \<not> HasStarted b d (upTo (int (Suc k * window b) - 1) n)" using early(2) upTo_self [OF n(1)] by metis
    qed (use n(5) in linarith)
    moreover have "windowsOf b n = Suc k" using n(5) assms(3) by (rule windowsOf_end)
    ultimately have s: "stateOf b d n = ThresholdDefined" using n(1) by (simp only: stateOf_def if_False)
    with early n(1) cache_ok_upd [OF Suc.prems(3) assms(1) n(2) s [symmetric]] show ?thesis
      by (subst neededLoop.simps) auto
  next
    case needed
    have "?m = NoNode \<or> ?m \<in> N" using step(2) n(4) by blast
    from Suc.IH [OF step(1) this Suc.prems(3), of "l @ [n]"] obtain ns stop c' c'' where
      r: "neededLoop b d (int (window b)) ?m c (l @ [n]) = Some ((l @ [n]) @ ns, stop, c')"
        "stop \<noteq> NoNode \<longrightarrow> c' (hash_of stop) = Some (stateOf b d stop)"
        "calcStates b d (int (window b)) (rev ns) (stateOf b d stop) c' = (Ok (stateOf b d ?m), c'')" "cache_ok b d N c''"
      by blast
    have "calcStates b d (int (window b)) (rev (n # ns)) (stateOf b d stop) c' = (Ok (stateOf b d n), c''(hash_of n \<mapsto> stateOf b d n))"
      using transition_spec [OF step(3)] step(4) by (simp add: calcStates_append r(3))
    moreover have "neededLoop b d (int (window b)) n c l = Some (l @ n # ns, stop, c')"
      using needed n(1) r(1) by (subst neededLoop.simps) simp
    ultimately show ?thesis using r(2) cache_ok_upd [OF r(4) assms(1) n(2) refl] by blast
  qed
qed

lemma thresholdState_spec:
  assumes "tree N" and "orderly b d N" and "0 < window b" and "t \<in> N" and "cache_ok b d N c"
  shows "\<exists>c'. thresholdState b d t c = Some (Ok (stateOf b d t), c') \<and> cache_ok b d N c'"
proof -
  let ?w = "window b" and ?h = "height_of t + 1"
  have t: "t \<noteq> NoNode" "block_ok t" "set (lineage t) \<subseteq> N" using assms(1,4) by (auto simp: tree_def)
  have w: "sint (MinerConfirmationWindow (vc_params b)) = int ?w" using assms(3) by (simp add: window_def)
  note nn = block_ok_nonneg [OF t(2,1)]
  show ?thesis
  proof (cases "?h < int ?w")
    case True
    then have "nat ?h < ?w" using nn by linarith
    then have "windowsOf b t = 0" by (simp add: windowsOf_def)
    then show ?thesis using True t(1) assms(5) by (simp add: thresholdState_def w stateOf_def)
  next
    case False
    define k where "k = nat ?h div ?w"
    let ?e = "height_of t - go_rem ?h (int ?w)"
    have rem: "go_rem ?h (int ?w) = ?h mod int ?w"
      using nn assms(3) by (simp add: go_rem_def go_div_nonneg minus_mult_div_eq_mod)
    have hk: "?h = int (k * ?w) + ?h mod int ?w"
    proof -
      have "?h = ?h div int ?w * int ?w + ?h mod int ?w" by simp
      moreover have "?h div int ?w = int k" using nn by (simp add: k_def zdiv_int)
      ultimately show ?thesis by simp
    qed
    then have e: "?e + 1 = int (k * ?w)" using rem by linarith
    have k: "0 < k" using False nn assms(3) by (simp add: k_def div_greater_zero_iff)
    have m: "0 \<le> ?h mod int ?w" using assms(3) by simp
    have "1 \<le> k * ?w" using k assms(3) by (simp add: Suc_leI)
    then have eb: "0 \<le> ?e" "?e \<le> height_of t" using e hk m by linarith+
    let ?n = "node_Ancestor ?e t"
    have anc: "?n = upTo ?e t" using node_Ancestor_upTo [OF t(2,1) eb] .
    have n: "?n \<noteq> NoNode" "height_of ?n = ?e" "?n \<in> set (lineage t)" "block_ok ?n"
      using upTo_found [OF t(2,1) eb] anc by auto
    have we: "window_end b k ?n" using n(1,2) e k by (simp add: window_end_def)
    have "stateAfter b d t k = stateAfter b d ?n k" using stateAfter_prefix [OF t(2) n(3) _ assms(3)] n(2) e by simp
    then have st: "stateOf b d ?n = stateOf b d t"
      using n(1,2) t(1) e windowsOf_end [of ?n k b] assms(3) by (simp add: stateOf_def) (simp add: windowsOf_def k_def)
    obtain ns stop c' c'' where r: "neededLoop b d (int ?w) ?n c [] = Some ([] @ ns, stop, c')"
      "stop \<noteq> NoNode \<longrightarrow> c' (hash_of stop) = Some (stateOf b d stop)"
      "calcStates b d (int ?w) (rev ns) (stateOf b d stop) c' = (Ok (stateOf b d ?n), c'')" "cache_ok b d N c''"
      using cached_walk [OF assms(1,2,3) we _ assms(5), of "[]"] n(3) t(3) by blast
    have "(if stop \<noteq> NoNode then c' (hash_of stop) else Some ThresholdDefined) = Some (stateOf b d stop)"
      using r(2) by (simp add: stateOf_def)
    then have "thresholdState b d t c = Some (Ok (stateOf b d t), c'')"
      using False t(1) assms(3) r(1,3) st by (simp add: thresholdState_def w Let_def)
    with r(4) show ?thesis by blast
  qed
qed

subsection \<open>Times\<close>

text \<open>The blocks of a branch obey the rule that a block is later than the median time of its parent.\<close>

definition timely :: "blockNode set \<Rightarrow> bool" where
  "timely N \<longleftrightarrow> (\<forall>n \<in> N. \<forall>m. n_parent n \<noteq> NoNode \<longrightarrow> CalcPastMedianTime (n_parent n) = Ok m \<longrightarrow> m < n_timestamp (blk n))"

definition indexed :: "vchain \<Rightarrow> blockNode set \<Rightarrow> bool" where
  "indexed b N \<longleftrightarrow> (\<forall>n \<in> N. bi_index (vc_index b) (hash_of n) = Some n) \<and> (\<forall>n. bi_index (vc_index b) (replicate 32 0) \<noteq> Some n)"

definition medianOf :: "blockNode \<Rightarrow> int" where
  "medianOf n = sort (lastTimes 11 n) ! (length (lastTimes 11 n) div 2)"

lemma CalcPastMedianTime_some: "n \<noteq> NoNode \<Longrightarrow> CalcPastMedianTime n = Ok (medianOf n)"
  by (cases n) (simp_all add: CalcPastMedianTime_def medianTimeBlocks_def medianOf_def numeral_eq_Suc)

lemma medianOf_in: "n \<noteq> NoNode \<Longrightarrow> medianOf n \<in> set (lastTimes 11 n)"
proof -
  assume "n \<noteq> NoNode"
  then have "length (lastTimes 11 n) div 2 < length (lastTimes 11 n)" by (cases n) (simp_all add: numeral_eq_Suc)
  then show ?thesis unfolding medianOf_def by (metis length_sort nth_mem set_sort)
qed

lemma medianOf_new: "medianOf (newBlockNode bh (nodeHeader n) (n_parent n)) = medianOf n" if "n \<noteq> NoNode"
proof -
  let ?m = "newBlockNode bh (nodeHeader n) (n_parent n)"
  have "n_timestamp (blk ?m) = n_timestamp (blk n)" by (simp add: newBlockNode_parts nodeHeader_def)
  then have "lastTimes (Suc 10) ?m = lastTimes (Suc 10) n"
    unfolding lastTimes_Suc [OF newBlockNode_parts(1)] lastTimes_Suc [OF that] newBlockNode_parts(2) by simp
  then show ?thesis by (simp add: medianOf_def numeral_eq_Suc)
qed

lemma medianOf_parent:
  assumes "timely N" and "n \<in> N" and "n_parent n \<noteq> NoNode" and "n \<noteq> NoNode"
  shows "medianOf (n_parent n) \<le> medianOf n"
proof -
  have "medianOf (n_parent n) < bh_Timestamp (nodeHeader n)"
    using assms CalcPastMedianTime_some [OF assms(3)] by (simp add: timely_def nodeHeader_def)
  from median_time_step [OF CalcPastMedianTime_some [OF assms(3)] this]
  show ?thesis using CalcPastMedianTime_some [OF newBlockNode_parts(1)] medianOf_new [OF assms(4)] by simp
qed

lemma PastMedianTime_node:
  assumes "indexed b N" and "tree N" and "n \<in> N"
  shows "PastMedianTime b (nodeHeader n) =
    (if n_parent n = NoNode then Err ''blockHeader has no previous node'' else Ok (medianOf n))"
proof (cases "n_parent n = NoNode")
  case True
  then have "LookupNode (bh_PrevBlock (nodeHeader n)) (vc_index b) = NoNode"
    using assms(1) by (simp add: indexed_def LookupNode_def nodeHeader_def split: option.split)
  then show ?thesis using True by (simp add: PastMedianTime_def)
next
  case False
  have n: "n \<noteq> NoNode" "set (lineage n) \<subseteq> N" using assms(2,3) by (auto simp: tree_def)
  have "n_parent n \<in> N" using n False by (cases n; cases "n_parent n") auto
  then have "LookupNode (bh_PrevBlock (nodeHeader n)) (vc_index b) = n_parent n"
    using assms(1) False by (simp add: indexed_def LookupNode_def nodeHeader_def)
  then show ?thesis
    using False CalcPastMedianTime_some [OF newBlockNode_parts(1)] medianOf_new [OF n(1)] by (simp add: PastMedianTime_def)
qed

lemma medianOf_lineage:
  assumes "timely N" and "tree N" and "n \<in> N"
  shows "m \<in> set (lineage n) \<Longrightarrow> medianOf m \<le> medianOf n"
  using assms(3)
proof (induction n)
  case (BlockNode f p a)
  have N: "set (lineage (BlockNode f p a)) \<subseteq> N" using BlockNode.prems(2) assms(2) unfolding tree_def by blast
  show ?case
  proof (cases "m = BlockNode f p a")
    case False
    then have p: "m \<in> set (lineage p)" "p \<noteq> NoNode" using BlockNode.prems(1) by auto
    then have "p \<in> N" using N by (cases p) auto
    with BlockNode.IH(1) p have "medianOf m \<le> medianOf p" by blast
    also have "\<dots> \<le> medianOf (BlockNode f p a)" using medianOf_parent [OF assms(1) BlockNode.prems(2)] p(2) by simp
    finally show ?thesis .
  qed simp
qed simp

lemma HasStarted_node:
  assumes "indexed b N" and "tree N" and "n \<in> N"
  shows "HasStarted b d n \<longleftrightarrow> (case startTime d of None \<Rightarrow> True | Some t \<Rightarrow> n_parent n \<noteq> NoNode \<and> t \<le> medianOf n)"
    "HasEnded b d n \<longleftrightarrow> (case endTime d of None \<Rightarrow> False | Some t \<Rightarrow> n_parent n \<noteq> NoNode \<and> t \<le> medianOf n)"
  using PastMedianTime_node [OF assms]
  by (auto simp: HasStarted_def HasEnded_def starter_HasStarted_def ender_HasEnded_def split: option.split)

lemma lineage_parent: "m \<in> set (lineage n) \<Longrightarrow> n_parent m \<noteq> NoNode \<Longrightarrow> n_parent n \<noteq> NoNode"
  by (induction n) auto

definition starts_before_end :: "deployment \<Rightarrow> bool" where
  "starts_before_end d \<longleftrightarrow> (case startTime d of None \<Rightarrow> True
     | Some s \<Rightarrow> (case endTime d of None \<Rightarrow> True | Some e \<Rightarrow> s \<le> e))"

lemma timely_orderly:
  assumes "indexed b N" and "tree N" and "timely N" and "starts_before_end d"
  shows "orderly b d N"
  unfolding orderly_def
proof (intro conjI ballI impI)
  fix n m
  assume n: "n \<in> N" and m: "m \<in> set (lineage n)" and s: "HasStarted b d m"
  have "m \<in> N" using n m assms(2) by (auto simp: tree_def)
  then show "HasStarted b d n"
    using s medianOf_lineage [OF assms(3,2) n m] lineage_parent [OF m]
      HasStarted_node(1) [OF assms(1,2), of n] HasStarted_node(1) [OF assms(1,2), of m] n
    by (auto split: option.splits)
next
  fix n
  assume "n \<in> N" "HasEnded b d n"
  then show "HasStarted b d n"
    using HasStarted_node [OF assms(1,2)] assms(4) by (auto simp: starts_before_end_def split: option.splits)
qed

text \<open>C14: The cache does not change the answer.  On a block tree whose blocks obey the rule on timestamps, for a
  deployment that does not end before it starts, and starting from a cache that only holds right answers, the function
  \<open>thresholdState\<close> returns the state that the votes of all windows up to the block define, and leaves a cache that only holds right
  answers.\<close>

theorem thresholdState_correct:
  assumes "tree N" and "indexed b N" and "timely N" and "starts_before_end d" and "0 < window b"
    and "t \<in> N" and "cache_ok b d N c"
  shows "\<exists>c'. thresholdState b d t c = Some (Ok (stateAfter b d t (windowsOf b t)), c') \<and> cache_ok b d N c'"
proof -
  have "t \<noteq> NoNode" using assms(1,6) by (auto simp: tree_def)
  with thresholdState_spec [OF assms(1) timely_orderly [OF assms(2,1,3,4)] assms(5-7)] show ?thesis by (simp add: stateOf_def)
qed

subsection \<open>The order of the states\<close>

lemma lastTimes_nodes:
  "block_ok n \<Longrightarrow> x \<in> set (lastTimes k n) \<Longrightarrow>
   \<exists>m \<in> set (lineage n). x = n_timestamp (blk m) \<and> height_of n - int k < height_of m"
proof (induction k n rule: lastTimes.induct)
  case (3 k f p a)
  show ?case
  proof (cases "x = n_timestamp f")
    case False
    then have x: "x \<in> set (lastTimes k p)" using 3(3) by simp
    have "lastTimes k NoNode = []" by (cases k) simp_all
    then have "p \<noteq> NoNode" using x by auto
    then have p: "block_ok p" "n_height f = height_of p + 1" using 3(2) by simp_all
    from 3(1) [OF p(1) x] obtain m where "m \<in> set (lineage p)" "x = n_timestamp (blk m)" "height_of p - int k < height_of m"
      by blast
    then show ?thesis using p(2) by (intro bexI [of _ m]) simp_all
  next
    case True
    then show ?thesis by (intro bexI [of _ "BlockNode f p a"]) simp_all
  qed
qed simp_all

lemma state_stays:
  "stateAfter b d t k = ThresholdActive \<Longrightarrow> stateAfter b d t (k + j) = ThresholdActive"
  "stateAfter b d t k = ThresholdFailed \<Longrightarrow> stateAfter b d t (k + j) = ThresholdFailed"
  by (induction j) simp_all

lemma locked_in_voted:
  "stateAfter b d t k = ThresholdLockedIn \<or> stateAfter b d t k = ThresholdActive \<Longrightarrow>
   \<exists>j<k. stateAfter b d t j = ThresholdStarted \<and>
     votesFor b d (upTo (int (Suc j * window b) - 1) t) \<ge> unat (ActivationThreshold b d)"
proof (induction k)
  case (Suc k)
  show ?case
  proof (cases "stateAfter b d t k")
    case ThresholdStarted
    with Suc.prems show ?thesis by (intro exI [of _ k]) (auto split: if_splits)
  qed (use Suc in \<open>auto split: if_splits intro: less_SucI\<close>)
qed simp

lemma windowsOf_mono:
  assumes "block_ok u" and "t \<in> set (lineage u)" and "0 < window b"
  shows "windowsOf b t \<le> windowsOf b u" "stateAfter b d u (windowsOf b t) = stateAfter b d t (windowsOf b t)"
proof -
  have t: "height_of t \<le> height_of u" "block_ok t" "t \<noteq> NoNode" using upTo_in_lineage [OF assms(2,1)] by auto
  note nn = block_ok_nonneg [OF t(2,3)]
  show "windowsOf b t \<le> windowsOf b u" using t(1) unfolding windowsOf_def by (intro div_le_mono nat_mono) simp
  have "int (windowsOf b t * window b) \<le> height_of t + 1"
  proof -
    have "windowsOf b t * window b \<le> nat (height_of t + 1)" by (simp add: windowsOf_def)
    then show ?thesis using nn by linarith
  qed
  then show "stateAfter b d u (windowsOf b t) = stateAfter b d t (windowsOf b t)"
    by (intro stateAfter_prefix [OF assms(1,2) _ assms(3)])
qed

text \<open>No activation without a vote, and none is taken back.  When \<open>thresholdState\<close> reports a deployment active,
  an earlier window of the branch, in which the vote was open, has at least the required number of signalling blocks;
  and for every block above, from whatever right cache, it reports the deployment active again.\<close>

theorem activation_needs_votes:
  assumes "tree N" and "indexed b N" and "timely N" and "starts_before_end d" and "0 < window b"
    and "t \<in> N" and "cache_ok b d N c" and "thresholdState b d t c = Some (Ok ThresholdActive, c')"
  shows "(\<exists>j < windowsOf b t. stateAfter b d t j = ThresholdStarted \<and>
      votesFor b d (upTo (int (Suc j * window b) - 1) t) \<ge> unat (ActivationThreshold b d)) \<and>
    (\<forall>u \<in> N. t \<in> set (lineage u) \<longrightarrow> (\<exists>c''. thresholdState b d u c' = Some (Ok ThresholdActive, c'')))"
proof -
  note spec = thresholdState_spec [OF assms(1) timely_orderly [OF assms(2,1,3,4)] assms(5)]
  have N: "block_ok u \<and> u \<noteq> NoNode" if "u \<in> N" for u using that assms(1) by (auto simp: tree_def)
  have act: "stateAfter b d t (windowsOf b t) = ThresholdActive" "cache_ok b d N c'"
    using spec [OF assms(6,7)] assms(8) N [OF assms(6)] by (auto simp: stateOf_def)
  have "\<exists>c''. thresholdState b d u c' = Some (Ok ThresholdActive, c'')" if u: "u \<in> N" "t \<in> set (lineage u)" for u
  proof -
    have ok: "block_ok u" using N [OF u(1)] by simp
    have "stateAfter b d u (windowsOf b t + (windowsOf b u - windowsOf b t)) = ThresholdActive"
      using windowsOf_mono(2) [OF ok u(2) assms(5)] act(1) by (intro state_stays(1)) simp
    then have "stateOf b d u = ThresholdActive"
      using windowsOf_mono(1) [OF ok u(2) assms(5)] N [OF u(1)] by (simp add: stateOf_def)
    then show ?thesis using spec [OF u(1) act(2)] by auto
  qed
  with locked_in_voted [of b d t "windowsOf b t"] act(1) show ?thesis by blast
qed

subsection \<open>The main network\<close>

text \<open>The deployments of 2017 have failed on OrcaNet.  On a chain with the parameters of the main network whose blocks
  other than the first were all made after the end of the votes, CSV and segregated witness are defined during the
  first 2016 blocks and failed from then on.\<close>

theorem old_deployments_fail:
  assumes "tree N" and "indexed b N" and "timely N" and "vc_params b = MainNetVoting" and "t \<in> N"
    and "\<forall>n \<in> N. n_parent n \<noteq> NoNode \<longrightarrow> n_timestamp (blk n) > 1510704000"
    and "i = DeploymentCSV \<or> i = DeploymentSegwit"
    and "length caches = 5" and "cache_ok b (Deployments MainNetVoting ! i) N (caches ! i)"
  shows "\<exists>caches'. deploymentState b t i caches =
    Some (Ok (if height_of t < 2015 then ThresholdDefined else ThresholdFailed), caches')"
proof -
  define d where "d = Deployments MainNetVoting ! i"
  have d: "starts_before_end d" "\<not> IsSpeedy d" "\<exists>e. endTime d = Some e \<and> e \<le> 1510704000"
    using assms(7) by (auto simp: d_def MainNetVoting_def DeploymentCSV_def DeploymentSegwit_def starts_before_end_def IsSpeedy_def)
  have w: "window b = 2016" by (simp add: window_def assms(4) MainNetVoting_def)
  have t: "t \<noteq> NoNode" "block_ok t" "set (lineage t) \<subseteq> N" using assms(1,5) by (auto simp: tree_def)
  note nn = block_ok_nonneg [OF t(2,1)]
  have fail: "stateAfter b d t (windowsOf b t) = (if height_of t < 2015 then ThresholdDefined else ThresholdFailed)"
  proof (cases "height_of t < 2015")
    case True
    then have "windowsOf b t = 0" using w by (simp add: windowsOf_def)
    then show ?thesis using True by simp
  next
    case False
    let ?n = "upTo 2015 t"
    have n: "?n \<noteq> NoNode" "block_ok ?n" "height_of ?n = 2015" "?n \<in> N" using upTo_found [OF t(2,1), of 2015] False t(3) by auto
    have par: "n_parent m \<noteq> NoNode" if "m \<in> set (lineage ?n)" "0 < height_of m" for m
      using parent_facts [of m] upTo_in_lineage [OF that(1) n(2)] that(2) by simp
    have N: "set (lineage ?n) \<subseteq> N" using n(4) assms(1) by (auto simp: tree_def)
    have "1510704000 < x" if x: "x \<in> set (lastTimes 11 ?n)" for x
      using lastTimes_nodes [OF n(2) x] par N n(3) assms(6) by fastforce
    moreover have "medianOf ?n \<in> set (lastTimes 11 ?n)" using n(1) by (rule medianOf_in)
    ultimately have med: "1510704000 < medianOf ?n" by blast
    have "?n \<in> set (lineage ?n)" using n(1) by (cases ?n) auto
    then have "n_parent ?n \<noteq> NoNode" using par n(3) by simp
    then have "HasEnded b d ?n" using HasStarted_node(2) [OF assms(2,1) n(4)] d(3) med by (auto split: option.split)
    then have "stateAfter b d t 1 = ThresholdFailed" using d(2) by (simp add: w)
    moreover have "1 \<le> windowsOf b t" using False by (simp add: windowsOf_def w div_greater_zero_iff Suc_le_eq)
    ultimately show ?thesis using False state_stays(2) [of b d t 1 "windowsOf b t - 1"] by simp
  qed
  have "i < 5" "length (Deployments MainNetVoting) = 5"
    using assms(7) by (auto simp: DeploymentCSV_def DeploymentSegwit_def MainNetVoting_def)
  moreover obtain c' where "thresholdState b d t (caches ! i) = Some (Ok (stateAfter b d t (windowsOf b t)), c')"
    using thresholdState_spec [OF assms(1) timely_orderly [OF assms(2,1,3) d(1)] _ assms(5), of "caches ! i"] assms(9) w t(1)
    by (auto simp: d_def [symmetric] stateOf_def)
  ultimately show ?thesis using assms(4,8) fail by (simp add: deploymentState_def d_def [symmetric])
qed

subsection \<open>Examples\<close>

definition demoVoteChain :: "voting \<Rightarrow> nat \<Rightarrow> vchain" where
  "demoVoteChain v m = \<lparr>vc_params = v,
     vc_index = newBlockIndex\<lparr>bi_index := map_of (map (\<lambda>i. (demoName i, demoChain i)) [1..<Suc m])\<rparr>, vc_hash = demoHash\<rparr>"

abbreviation demoTree :: "nat \<Rightarrow> blockNode set" where
  "demoTree m \<equiv> set (lineage (demoChain m))"

lemma demo_tree: "tree (demoTree m)"
proof -
  have "set (lineage n) \<subseteq> demoTree m" if n: "n \<in> demoTree m" for n
  proof -
    obtain i where i: "i < m" "n = demoChain (Suc i)" using n by (auto simp only: demoChain_in_lineage)
    show ?thesis
    proof
      fix x
      assume "x \<in> set (lineage n)"
      then obtain j where "j < Suc i" "x = demoChain (Suc j)" unfolding i(2) by (auto simp only: demoChain_in_lineage)
      then show "x \<in> demoTree m" using i(1) unfolding demoChain_in_lineage by (intro exI [of _ j]) simp
    qed
  qed
  moreover have "inj_on hash_of (demoTree m)"
  proof (rule inj_onI)
    fix x y
    assume "x \<in> demoTree m" "y \<in> demoTree m" and h: "hash_of x = hash_of y"
    then obtain i j where ij: "x = demoChain (Suc i)" "y = demoChain (Suc j)" by (auto simp only: demoChain_in_lineage)
    then have "demoName (Suc i) = demoName (Suc j)" using h demoChain_parts(3) by metis
    then have "Suc i = Suc j" by (simp only: demoName_eq)
    with ij show "x = y" by simp
  qed
  moreover have "block_ok n \<and> n \<noteq> NoNode" if "n \<in> demoTree m" for n
    using that demoChain_ok demoChain_parts(1) by (metis demoChain_in_lineage)
  ultimately show ?thesis by (simp add: tree_def)
qed

lemma demo_index: "(map_of (map (\<lambda>i. (demoName i, demoChain i)) [1..<Suc m])) (demoName (Suc i)) =
    (if i < m then Some (demoChain (Suc i)) else None)"
proof -
  let ?xs = "map (\<lambda>i. (demoName i, demoChain i)) [1..<Suc m]"
  have "distinct (map fst ?xs)"
    by (auto simp: distinct_map inj_on_def comp_def demoName_eq simp del: demoChain.simps upt_Suc)
  moreover have "(demoName (Suc i), demoChain (Suc i)) \<in> set ?xs" if "i < m"
    using that by (auto simp del: demoChain.simps upt_Suc replicate_Suc intro!: image_eqI [of _ _ "Suc i"])
  moreover have "map_of ?xs (demoName (Suc i)) = None" if "\<not> i < m"
    using that by (auto simp: map_of_eq_None_iff demoName_eq simp del: demoChain.simps upt_Suc)
  ultimately show ?thesis by (auto simp del: demoChain.simps upt_Suc replicate_Suc)
qed

lemma demo_indexed: "indexed (demoVoteChain v m) (demoTree m)"
proof -
  let ?xs = "map (\<lambda>i. (demoName i, demoChain i)) [1..<Suc m]"
  have "map_of ?xs (hash_of n) = Some n" if n: "n \<in> demoTree m" for n
  proof -
    obtain i where i: "i < m" "n = demoChain (Suc i)" using n by (auto simp only: demoChain_in_lineage)
    then show ?thesis using demo_index [of m i] demoChain_parts(3) [of i] by (simp del: demoChain.simps upt_Suc replicate_Suc)
  qed
  moreover have "map_of ?xs (replicate 32 0) \<noteq> Some n" for n
  proof
    assume "map_of ?xs (replicate 32 0) = Some n"
    then have "(replicate 32 0, n) \<in> set ?xs" by (rule map_of_SomeD)
    then show False by (auto simp: demoName_zero simp del: upt_Suc dest!: sym [of "replicate 32 0"])
  qed
  ultimately show ?thesis
    by (simp add: indexed_def demoVoteChain_def newBlockIndex_def del: upt_Suc)
qed

lemma demo_timely: "timely (demoTree m)"
  unfolding timely_def
proof (intro ballI allI impI)
  fix n t
  assume n: "n \<in> demoTree m" and p: "n_parent n \<noteq> NoNode" and med: "CalcPastMedianTime (n_parent n) = Ok t"
  obtain i where i: "n = demoChain (Suc i)" using n by (auto simp only: demoChain_in_lineage)
  let ?p = "demoChain i"
  have pn: "n_parent n = ?p" using i demoChain_parts(2) by simp
  have "t = medianOf ?p" using med p CalcPastMedianTime_some [OF p] pn by simp
  then have "t \<in> set (lastTimes 11 ?p)" using medianOf_in p pn by simp
  then obtain x where "x \<in> set (lineage ?p)" "t = n_timestamp (blk x)"
    by (metis (no_types, lifting) comp_apply image_iff in_set_takeD lastTimes_take list.set_map)
  then obtain j where "j < i" "t = 1600000000 + int j" using demoChain_parts(4) by (auto simp only: demoChain_in_lineage)
  then show "t < n_timestamp (blk n)" using i demoChain_parts(4) [of i] by simp
qed

lemma demo_empty_cache: "cache_ok b d N Map.empty"
  by (simp add: cache_ok_def)

text \<open>A vote with windows of one block, open from the start, on the lowest version bit.\<close>

definition demoVote :: voting where
  "demoVote = \<lparr>RuleChangeActivationThreshold = 1, MinerConfirmationWindow = 1, Deployments = [
     \<lparr>BitNumber = 0, MinActivationHeight = 0, CustomActivationThreshold = 0, startTime = None, endTime = None\<rparr>]\<rparr>"

abbreviation demoDeployment :: deployment where
  "demoDeployment \<equiv> Deployments demoVote ! 0"

lemma demo_state:
  "window (demoVoteChain demoVote 3) = 1" "windowsOf (demoVoteChain demoVote 3) (demoChain 3) = 3"
  "stateAfter (demoVoteChain demoVote 3) demoDeployment (demoChain 3) 3 = ThresholdActive" "demoChain 3 \<in> demoTree 3"
proof -
  let ?b = "demoVoteChain demoVote 3"
  show w: "window ?b = 1" by (simp add: window_def demoVoteChain_def demoVote_def)
  have "height_of (demoChain 3) = 2" using demoChain_height [of 2] by (simp del: demoChain.simps)
  then show "windowsOf ?b (demoChain 3) = 3" by (simp add: windowsOf_def w)
  show in3: "demoChain 3 \<in> demoTree 3" unfolding demoChain_in_lineage by (intro exI [of _ 2]) (simp del: demoChain.simps)
  have flags: "IsSpeedy demoDeployment = False" "HasEnded ?b demoDeployment n = False" "HasStarted ?b demoDeployment n"
    "EligibleToActivate demoDeployment n" "ActivationThreshold ?b demoDeployment = 1" for n
    by (simp_all add: IsSpeedy_def HasEnded_def HasStarted_def starter_HasStarted_def ender_HasEnded_def EligibleToActivate_def
        ActivationThreshold_def demoVoteChain_def demoVote_def)
  have "upTo 1 (demoChain 3) = demoChain 2"
    using upTo_in_lineage [of "demoChain 2" "demoChain 3"] demoChain_height [of 1] demoChain_ok [of 3]
      demoChain_in_lineage [of "demoChain 2" 3] by (metis One_nat_def Suc_1 Suc_lessI lessI less_Suc_eq numeral_3_eq_3 of_nat_1)
  moreover have "votesFor ?b demoDeployment (demoChain 2) = 1"
  proof -
    have "signals demoDeployment (demoChain 2)"
      using demoChain_parts(5) [of 1] demoChain_parts(1) [of 1]
      by (simp add: signals_def Condition_def Let_def vbTopMask_def vbTopBits_def demoVote_def numeral_2_eq_2 del: demoChain.simps)
    then show ?thesis by (simp add: votesFor_def w demoChain_lineage upt_rec numeral_2_eq_2 del: demoChain.simps)
  qed
  ultimately have "votesFor ?b demoDeployment (upTo 1 (demoChain 3)) = 1" by simp
  moreover have "stateAfter ?b demoDeployment t k = ThresholdActive"
    if "k = Suc (Suc (Suc 0))" "votesFor ?b demoDeployment (upTo 1 t) = 1" for t k
    using that by (simp add: w flags)
  ultimately show "stateAfter ?b demoDeployment (demoChain 3) 3 = ThresholdActive" using numeral_3_eq_3 by blast
qed

theorem thresholdState_correct_witness:
  "\<exists>c'. thresholdState (demoVoteChain demoVote 3) demoDeployment (demoChain 3) Map.empty = Some (Ok ThresholdActive, c')"
proof -
  have "starts_before_end demoDeployment" by (simp add: starts_before_end_def demoVote_def)
  from thresholdState_correct [OF demo_tree demo_indexed [of demoVote] demo_timely this _ demo_state(4) demo_empty_cache] demo_state(1-3)
  show ?thesis by auto
qed

theorem activation_needs_votes_witness:
  "\<exists>j < 3. stateAfter (demoVoteChain demoVote 3) demoDeployment (demoChain 3) j = ThresholdStarted \<and>
     votesFor (demoVoteChain demoVote 3) demoDeployment (upTo (int j) (demoChain 3)) \<ge> 1"
proof -
  let ?b = "demoVoteChain demoVote 3"
  have d: "starts_before_end demoDeployment" "ActivationThreshold ?b demoDeployment = 1"
    by (simp_all add: starts_before_end_def ActivationThreshold_def demoVoteChain_def demoVote_def)
  obtain c' where r: "thresholdState ?b demoDeployment (demoChain 3) Map.empty = Some (Ok ThresholdActive, c')"
    using thresholdState_spec [OF demo_tree timely_orderly [OF demo_indexed [of demoVote] demo_tree demo_timely d(1)] _ demo_state(4) demo_empty_cache]
      demo_state(1-3) demoChain_some [of 3] by (auto simp: stateOf_def)
  from activation_needs_votes [OF demo_tree demo_indexed demo_timely d(1) _ demo_state(4) demo_empty_cache r]
  show ?thesis using demo_state(1,2) d(2) by auto
qed

theorem old_deployments_fail_witness:
  "\<exists>caches'. deploymentState (demoVoteChain MainNetVoting 2016) (demoChain 2016) DeploymentSegwit (replicate 5 Map.empty) =
     Some (Ok ThresholdFailed, caches')"
proof -
  let ?b = "demoVoteChain MainNetVoting 2016"
  have t: "demoChain 2016 \<in> demoTree 2016" unfolding demoChain_in_lineage by (intro exI [of _ 2015]) (simp del: demoChain.simps)
  have late: "\<forall>n \<in> demoTree 2016. n_parent n \<noteq> NoNode \<longrightarrow> 1510704000 < n_timestamp (blk n)"
    using demoChain_parts(4) by (auto simp only: demoChain_in_lineage)
  have "height_of (demoChain 2016) = 2015" using demoChain_height [of 2015] by (simp del: demoChain.simps)
  moreover have "vc_params ?b = MainNetVoting" by (simp add: demoVoteChain_def)
  moreover have "cache_ok ?b d N (replicate 5 Map.empty ! DeploymentSegwit)" for d N
    by (simp add: DeploymentSegwit_def demo_empty_cache)
  ultimately show ?thesis
    using old_deployments_fail [OF demo_tree demo_indexed demo_timely _ t late, of MainNetVoting DeploymentSegwit "replicate 5 Map.empty"]
    by simp
qed

end
