(* ===== verification/Coin_Compress.thy ===== *)
theory Coin_Compress
  imports Go_Floats "HOL-Library.Word"
begin

text \<open>
  The encoding of unspent outputs in the coin node's database (\<open>src/btcd/blockchain/compress.go\<close>): variable
  length quantities, compressed scripts, compressed amounts and the two together.  A byte is an
  \<open>8 word\<close>, a \<open>uint64\<close> a \<open>64 word\<close>.  A function that writes into a target slice returns the bytes it writes;
  the size functions that the callers allocate the slice with are shown to be their number, so no write
  is out of range.  Slices have their length as capacity.  Parsing public keys is secp256k1 code outside the
  repository: the parameter \<open>parse\<close> gives the uncompressed form of a valid key.

  The lemmas show that every encoding is decoded to what it was, that the announced sizes are right, and
  which corrupt encodings make the decoder panic.
\<close>

unbundle bit_operations_syntax

type_synonym octets = "8 word list"

subsection \<open>Variable length quantities\<close>

lemma vlq_decreases:
  fixes n :: "64 word"
  assumes "n > 0x7f"
  shows "unat (drop_bit 7 n - 1) < unat n"
proof -
  have n: "0x7f < unat n" using assms by (simp add: word_less_nat_alt)
  have "unat (drop_bit 7 n) = unat n div 128" unfolding unat_drop_bit_eq by (simp add: drop_bit_eq_div)
  moreover have "0 < unat n div 128" using n by simp
  ultimately have "unat (drop_bit 7 n - 1) \<le> unat n div 128" by (metis One_nat_def diff_le_self neq0_conv unat_0 unat_minus_one)
  also have "\<dots> < unat n" using n by simp
  finally show ?thesis .
qed

function serializeSizeVLQ :: "64 word \<Rightarrow> nat" where
  "serializeSizeVLQ n = (if n > 0x7f then 1 + serializeSizeVLQ (drop_bit 7 n - 1) else 1)"
  by pat_completeness auto
termination by (relation "measure unat") (simp_all add: vlq_decreases)

declare serializeSizeVLQ.simps [simp del]

text \<open>The bytes in the order the first loop writes them, the low one first.\<close>

function vlqBytes :: "64 word \<Rightarrow> nat \<Rightarrow> octets" where
  "vlqBytes n offset =
    (let highBitMask = (if offset = 0 then 0x00 else 0x80); b = ucast (n AND 0x7f) OR highBitMask in
     if n \<le> 0x7f then [b] else b # vlqBytes (drop_bit 7 n - 1) (offset + 1))"
  by pat_completeness auto
termination by (relation "measure (unat \<circ> fst)") (simp_all add: vlq_decreases not_le)

declare vlqBytes.simps [simp del]

definition putVLQ :: "64 word \<Rightarrow> octets" where
  "putVLQ n = rev (vlqBytes n 0)"

fun vlqLoop :: "octets \<Rightarrow> 64 word \<Rightarrow> nat \<Rightarrow> 64 word \<times> nat" where
  "vlqLoop [] n sz = (n, sz)"
| "vlqLoop (val # vs) n sz =
    (let n' = push_bit 7 n OR ucast (val AND 0x7f) in
     if val AND 0x80 \<noteq> 0x80 then (n', sz + 1) else vlqLoop vs (n' + 1) (sz + 1))"

definition deserializeVLQ :: "octets \<Rightarrow> 64 word \<times> nat" where
  "deserializeVLQ serialized = vlqLoop serialized 0 0"

lemma length_vlqBytes: "length (vlqBytes n i) = serializeSizeVLQ n"
  by (induction n i rule: vlqBytes.induct)
    (subst vlqBytes.simps, subst serializeSizeVLQ.simps, auto simp: Let_def not_le not_less)

lemma length_putVLQ [simp]: "length (putVLQ n) = serializeSizeVLQ n"
  by (simp add: putVLQ_def length_vlqBytes)

lemma bit_0x80: "bit (0x80 :: 8 word) i \<longleftrightarrow> i = 7" "bit (0x80 :: int) i \<longleftrightarrow> i = 7"
  using bit_exp_iff [of 7 i, where 'a = "8 word"] bit_exp_iff [of 7 i, where 'a = int] by (auto simp: possible_bit_word)

text \<open>What reading one written byte does to the number read so far.\<close>

lemma low_bits: "ucast ((ucast (n AND 0x7f) OR m) AND 0x7f :: 8 word) = n AND (0x7f :: 64 word)" if "m = 0 \<or> m = 0x80"
proof -
  have e: "(0x7f :: 64 word) = mask 7" "(0x7f :: 8 word) = mask 7"
    by (simp_all add: mask_eq_exp_minus_1)
  show ?thesis using that unfolding e by (auto intro!: bit_eqI simp: bit_simps bit_0x80)
qed

lemma high_bit: "(ucast (n AND (0x7f :: 64 word)) OR m) AND (0x80 :: 8 word) = m" if "m = 0 \<or> m = 0x80"
proof -
  have e: "(0x7f :: 64 word) = mask 7"
    by (simp_all add: mask_eq_exp_minus_1)
  show ?thesis using that unfolding e by (auto intro!: bit_eqI simp: bit_simps bit_0x80)
qed

lemma join_bits: "push_bit 7 (drop_bit 7 n) OR (n AND 0x7f) = n" for n :: "64 word"
proof -
  have e: "(0x7f :: 64 word) = mask 7" by (simp add: mask_eq_exp_minus_1)
  show ?thesis unfolding e by (auto intro!: bit_eqI simp: bit_simps)
qed

lemma small_bits: "n AND 0x7f = n" if "n \<le> 0x7f" for n :: "64 word"
proof -
  have "unat n < 2 ^ 7" using that by (simp add: word_le_nat_alt)
  then have "take_bit 7 n = n" by (metis take_bit_nat_eq_self unsigned_take_bit_eq word_unat_eq_iff)
  then show ?thesis by (simp add: take_bit_eq_mask mask_eq_exp_minus_1)
qed

lemma vlqLoop_digit:
  assumes "m = 0 \<or> m = 0x80"
  shows "vlqLoop ((ucast (n AND 0x7f) OR m) # rest) (drop_bit 7 n) sz =
      (if m = 0 then (n, sz + 1) else vlqLoop rest (n + 1) (sz + 1))"
  using assms by (auto simp: Let_def low_bits high_bit join_bits)

lemma vlqLoop_high:
  "vlqLoop (rev (vlqBytes n (Suc i)) @ rest) 0 sz = vlqLoop rest (n + 1) (sz + serializeSizeVLQ n)"
proof (induction n "Suc i" arbitrary: i rest sz rule: vlqBytes.induct)
  case (1 n)
  let ?b = "ucast (n AND 0x7f) OR 0x80 :: 8 word"
  have digit: "vlqLoop (?b # rest) (drop_bit 7 n) s = vlqLoop rest (n + 1) (s + 1)" for s
    using vlqLoop_digit [of "0x80" n rest s] by simp
  show ?case
  proof (cases "n \<le> 0x7f")
    case True
    then have "drop_bit 7 n = 0"
      by (simp add: word_unat_eq_iff unat_drop_bit_eq drop_bit_eq_div word_le_nat_alt div_eq_0_iff unat_div)
    with True leD [OF True] digit [of sz] show ?thesis
      by (subst vlqBytes.simps, subst serializeSizeVLQ.simps) (simp add: Let_def)
  next
    case False
    let ?m = "drop_bit 7 n - 1"
    have "vlqLoop (rev (vlqBytes ?m (Suc (Suc i))) @ ?b # rest) 0 sz = vlqLoop (?b # rest) (?m + 1) (sz + serializeSizeVLQ ?m)"
      using 1 [of "0x80" ?b "Suc i"] False by simp
    also have "\<dots> = vlqLoop rest (n + 1) (sz + serializeSizeVLQ n)"
      using False digit by (subst (2) serializeSizeVLQ.simps) (simp add: not_le)
    finally show ?thesis using False by (subst vlqBytes.simps) (simp add: Let_def)
  qed
qed

lemma vlq_roundtrip: "deserializeVLQ (putVLQ n @ rest) = (n, serializeSizeVLQ n)"
proof (cases "n \<le> 0x7f")
  case True
  then show ?thesis
    using small_bits [OF True] low_bits [of 0 n] high_bit [of 0 n] leD [OF True]
    by (simp add: deserializeVLQ_def putVLQ_def vlqBytes.simps [of n] serializeSizeVLQ.simps [of n] Let_def)
next
  case False
  let ?m = "drop_bit 7 n - 1"
  have "deserializeVLQ (putVLQ n @ rest) =
      vlqLoop (rev (vlqBytes ?m (Suc 0)) @ (ucast (n AND 0x7f) OR 0) # rest) 0 0"
    using False by (simp add: deserializeVLQ_def putVLQ_def vlqBytes.simps [of n] Let_def)
  also have "\<dots> = (n, serializeSizeVLQ n)"
    using False vlqLoop_digit [of 0 n rest "serializeSizeVLQ ?m"]
    by (simp only: vlqLoop_high) (simp add: serializeSizeVLQ.simps [of n] not_le)
  finally show ?thesis .
qed

subsection \<open>Amounts\<close>

lemma tens_decrease: "e < 9 \<Longrightarrow> 9 - unat (e + 1) < 9 - unat e" for e :: "64 word"
proof -
  assume "e < 9"
  then have "unat e < 9" by (simp add: word_less_nat_alt)
  then have "unat (e + 1) = unat e + 1" by (subst unat_add_lem [THEN iffD1]) simp_all
  with \<open>unat e < 9\<close> show ?thesis by simp
qed

function stripTens :: "64 word \<Rightarrow> 64 word \<Rightarrow> 64 word \<times> 64 word" where
  "stripTens amount e = (if amount mod 10 = 0 \<and> e < 9 then stripTens (amount div 10) (e + 1) else (amount, e))"
  by pat_completeness auto
termination by (relation "measure (\<lambda>(_, e). 9 - unat e)") (simp_all add: tens_decrease)

declare stripTens.simps [simp del]

definition compressTxOutAmount :: "64 word \<Rightarrow> 64 word" where
  "compressTxOutAmount amount =
    (if amount = 0 then 0
     else case stripTens amount 0 of (a, e) \<Rightarrow>
       if e < 9 then 1 + 10 * (9 * (a div 10) + a mod 10 - 1) + e else 10 + 10 * (a - 1))"

function timesTens :: "64 word \<Rightarrow> 64 word \<Rightarrow> 64 word" where
  "timesTens n e = (if e > 0 then timesTens (n * 10) (e - 1) else n)"
  by pat_completeness auto
termination
proof (relation "measure (unat \<circ> snd)")
  show "((n * 10, e - 1), (n, e)) \<in> measure (unat \<circ> snd)" if "e > 0" for n e :: "64 word"
    using that by (simp add: unat_minus_one word_gt_0 word_less_nat_alt unat_gt_0)
qed simp

declare timesTens.simps [simp del]

definition decompressTxOutAmount :: "64 word \<Rightarrow> 64 word" where
  "decompressTxOutAmount amount =
    (if amount = 0 then 0
     else
       let amount = amount - 1; e = amount mod 10; amount = amount div 10;
           n = (if e < 9 then amount div 9 * 10 + (amount mod 9 + 1) else amount + 1)
       in timesTens n e)"

text \<open>Words below \<open>2 ^ 64\<close> divide as natural numbers do.\<close>

lemma unat_of_nat_small: "m < 2 ^ 64 \<Longrightarrow> unat (of_nat m :: 64 word) = m"
  by (simp add: unat_of_nat)

lemma of_nat_small_eq_0:
  assumes "x < 2 ^ 64"
  shows "(of_nat x :: 64 word) = 0 \<longleftrightarrow> x = 0"
proof
  assume "(of_nat x :: 64 word) = 0"
  then have "unat (of_nat x :: 64 word) = 0" by (simp only: unat_0)
  with unat_of_nat_small [OF assms] show "x = 0" by (simp only:)
qed simp

lemma of_nat_div_mod_word:
  assumes "m < 2 ^ 64" and "k < 2 ^ 64"
  shows "(of_nat m :: 64 word) div of_nat k = of_nat (m div k)" "(of_nat m :: 64 word) mod of_nat k = of_nat (m mod k)"
proof -
  have u: "unat (of_nat x :: 64 word) = x" if "x < 2 ^ 64" for x using that by (rule unat_of_nat_small)
  have "m div k < 2 ^ 64" "m mod k < 2 ^ 64" using assms(1) by (meson div_le_dividend mod_less_eq_dividend le_less_trans)+
  then show "(of_nat m :: 64 word) div of_nat k = of_nat (m div k)" "(of_nat m :: 64 word) mod of_nat k = of_nat (m mod k)"
    using assms by (simp_all only: word_unat_eq_iff unat_div unat_mod u)
qed

lemma stripTens_spec:
  "m < 2 ^ 64 \<Longrightarrow> 0 < m \<Longrightarrow> i \<le> 9 \<Longrightarrow> \<exists>b j. stripTens (of_nat m) (of_nat i) = (of_nat b, of_nat j) \<and> i \<le> j \<and> j \<le> 9 \<and>
     m = b * 10 ^ (j - i) \<and> (j < 9 \<longrightarrow> b mod 10 \<noteq> 0)"
proof (induction "9 - i" arbitrary: m i)
  case 0
  then have i: "i = 9" by simp
  have "stripTens (of_nat m) (of_nat i) = (of_nat m, of_nat i)"
    using i stripTens.simps [of "of_nat m" 9] by (simp only: of_nat_numeral) simp
  with i show ?case by (intro exI [of _ m] exI [of _ 9]) simp
next
  case (Suc d)
  then have i: "i < 9" by simp
  have small: "(of_nat i :: 64 word) < 9" using i by (simp add: word_less_nat_alt unat_of_nat_small)
  have z: "(of_nat m :: 64 word) mod 10 = 0 \<longleftrightarrow> m mod 10 = 0"
  proof -
    have "m mod 10 < 2 ^ 64" by (rule less_trans [of _ 10]) simp_all
    then have "(of_nat (m mod 10) :: 64 word) = 0 \<longleftrightarrow> m mod 10 = 0" by (rule of_nat_small_eq_0)
    with of_nat_div_mod_word(2) [of m 10] Suc.prems(1) show ?thesis by simp
  qed
  show ?case
  proof (cases "m mod 10 = 0")
    case False
    then have "stripTens (of_nat m) (of_nat i) = (of_nat m, of_nat i)" using z by (subst stripTens.simps) simp
    with False i show ?thesis by (intro exI [of _ m] exI [of _ i]) simp
  next
    case True
    have step: "stripTens (of_nat m) (of_nat i) = stripTens (of_nat (m div 10)) (of_nat (Suc i))"
      using True z small of_nat_div_mod_word(1) [of m 10] Suc.prems(1) by (subst stripTens.simps) (simp add: add.commute)
    have pre: "d = 9 - Suc i" "m div 10 < 2 ^ 64" "0 < m div 10" "Suc i \<le> 9" using Suc True i by auto
    obtain b j where bj: "stripTens (of_nat m) (of_nat i) = (of_nat b, of_nat j)" "Suc i \<le> j" "j \<le> 9"
      "m div 10 = b * 10 ^ (j - Suc i)" "j < 9 \<longrightarrow> b mod 10 \<noteq> 0"
      using Suc.hyps(1) [OF pre] unfolding step by blast
    have "m = b * 10 ^ (j - i)"
    proof -
      have "m = m div 10 * 10" using True by auto
      moreover have "j - i = Suc (j - Suc i)" using bj(2) by simp
      ultimately show ?thesis using bj(4) by simp
    qed
    with bj show ?thesis by (intro exI [of _ b] exI [of _ j]) auto
  qed
qed

lemma timesTens_spec:
  "n * 10 ^ e < 2 ^ 64 \<Longrightarrow> e < 2 ^ 64 \<Longrightarrow> timesTens (of_nat n) (of_nat e) = of_nat (n * 10 ^ e)"
proof (induction e arbitrary: n)
  case 0
  then show ?case by (subst timesTens.simps) simp
next
  case (Suc e)
  have "(of_nat (Suc e) :: 64 word) \<noteq> 0" using of_nat_small_eq_0 [OF Suc.prems(2)] by (simp only: nat.distinct not_False_eq_True)
  then have "timesTens (of_nat n) (of_nat (Suc e)) = timesTens (of_nat (n * 10)) (of_nat e)"
    by (subst timesTens.simps) (simp add: word_gt_0)
  with Suc.IH [of "n * 10"] Suc.prems show ?case by (simp add: mult.assoc)
qed

text \<open>The compressed amount as a natural number.\<close>

lemma compress_parts:
  assumes "0 < m" and "m < 2 ^ 60"
  obtains b e where "m = b * 10 ^ e" and "e \<le> 9" and "0 < b" and "b \<le> m" and "e < 9 \<longrightarrow> b mod 10 \<noteq> 0"
    and "compressTxOutAmount (of_nat m) =
      of_nat (if e < 9 then 10 * (9 * (b div 10) + (b mod 10 - 1)) + e + 1 else 10 * (b - 1) + e + 1)"
proof -
  have m: "m < 2 ^ 64" using assms(2) by simp
  obtain b e where 
    be: "stripTens (of_nat m) (of_nat 0) = (of_nat b, of_nat e)" "e \<le> 9" "m = b * 10 ^ (e - 0)" "e < 9 \<longrightarrow> b mod 10 \<noteq> 0"
    using stripTens_spec [OF m assms(1) le0] by blast
  note be = be [unfolded of_nat_0 diff_zero]
  have b: "0 < b" "b \<le> m" using be(3) assms(1) by (auto intro: Nat.gr0I)
  have nz: "(of_nat m :: 64 word) \<noteq> 0" using of_nat_small_eq_0 [OF m] assms(1) by simp
  have e9: "(of_nat e :: 64 word) < 9 \<longleftrightarrow> e < 9" using be(2) by (simp add: word_less_nat_alt unat_of_nat_small)
  have bm: "b < 2 ^ 64" using b(2) m by simp
  have dm: "(of_nat b :: 64 word) div 10 = of_nat (b div 10)" "(of_nat b :: 64 word) mod 10 = of_nat (b mod 10)"
    using of_nat_div_mod_word [OF bm, of 10] by simp_all
  have "compressTxOutAmount (of_nat m) =
      of_nat (if e < 9 then 10 * (9 * (b div 10) + (b mod 10 - 1)) + e + 1 else 10 * (b - 1) + e + 1)"
  proof (cases "e < 9")
    case True
    then obtain d where "b mod 10 = Suc d" using be(4) by (cases "b mod 10") auto
    with True show ?thesis using nz be(1) e9 dm
      by (simp add: compressTxOutAmount_def algebra_simps)
  next
    case False
    then obtain d where "b = Suc d" "e = 9" using b(1) be(2) by (cases b) auto
    with False show ?thesis using nz be(1) e9 by (simp add: compressTxOutAmount_def algebra_simps)
  qed
  then show thesis using that be b by blast
qed

lemma decompress_parts:
  assumes "q < 2 ^ 60" and "e \<le> 9" and "10 * q + e + 1 < 2 ^ 64"
  shows "decompressTxOutAmount (of_nat (10 * q + e + 1)) =
    timesTens (of_nat (if e < 9 then q div 9 * 10 + (q mod 9 + 1) else q + 1)) (of_nat e)"
proof -
  let ?w = "of_nat (10 * q + e + 1) :: 64 word"
  have nz: "?w \<noteq> 0" using of_nat_small_eq_0 [OF assms(3)] by simp
  have minus: "?w - 1 = of_nat (10 * q + e)" by simp
  have small: "10 * q + e < 2 ^ 64" "q < 2 ^ 64" using assms by simp_all
  have ed: "(of_nat (10 * q + e) :: 64 word) mod 10 = of_nat e" "(of_nat (10 * q + e) :: 64 word) div 10 = of_nat q"
    using of_nat_div_mod_word [OF small(1), of 10] assms(2) by simp_all
  have e9: "(of_nat e :: 64 word) < 9 \<longleftrightarrow> e < 9" using assms(2) by (simp add: word_less_nat_alt unat_of_nat_small)
  have q9: "(of_nat q :: 64 word) div 9 = of_nat (q div 9)" "(of_nat q :: 64 word) mod 9 = of_nat (q mod 9)"
    using of_nat_div_mod_word [OF small(2), of 9] by simp_all
  show ?thesis unfolding decompressTxOutAmount_def Let_def minus ed q9 e9 using nz by (simp add: ac_simps)
qed

lemma amount_roundtrip_nat:
  assumes "m < 2 ^ 60"
  shows "decompressTxOutAmount (compressTxOutAmount (of_nat m)) = of_nat m"
proof (cases "m = 0")
  case True
  then show ?thesis by (simp add: compressTxOutAmount_def decompressTxOutAmount_def)
next
  case False
  then obtain b e where be: "m = b * 10 ^ e" "e \<le> 9" "0 < b" "b \<le> m" "e < 9 \<longrightarrow> b mod 10 \<noteq> 0"
    and c: "compressTxOutAmount (of_nat m) =
      of_nat (if e < 9 then 10 * (9 * (b div 10) + (b mod 10 - 1)) + e + 1 else 10 * (b - 1) + e + 1)"
    using compress_parts [OF _ assms] by blast
  define q where "q = (if e < 9 then 9 * (b div 10) + (b mod 10 - 1) else b - 1)"
  have q: "q \<le> b \<and> (if e < 9 then q div 9 * 10 + (q mod 9 + 1) else q + 1) = b"
  proof (cases "e < 9")
    case True
    obtain x d where xd: "b = 10 * x + Suc d" "d < 9"
    proof (rule that [of "b div 10" "b mod 10 - 1"])
      have "0 < b mod 10" "b mod 10 < 10" using True be(5) by auto
      then show "b = 10 * (b div 10) + Suc (b mod 10 - 1)" "b mod 10 - 1 < 9" by auto
    qed
    then have "b div 10 = x" "b mod 10 = Suc d" by auto
    with True have "q = 9 * x + d" by (simp add: q_def)
    moreover have "(9 * x + d) div 9 = x" "(9 * x + d) mod 9 = d" using xd(2) by auto
    ultimately show ?thesis using True xd(1) by simp
  qed (use be(3) in \<open>simp add: q_def\<close>)
  have "10 * q + e + 1 < 2 ^ 64" using q be(2,4) assms by simp
  moreover have "q < 2 ^ 60" using q be(4) assms by simp
  ultimately have "decompressTxOutAmount (compressTxOutAmount (of_nat m)) = timesTens (of_nat b) (of_nat e)"
    using decompress_parts [of q e] be(2) c conjunct2 [OF q] by (auto simp: q_def split: if_splits)
  also have "\<dots> = of_nat m" using timesTens_spec [of b e] be(1,2) assms by simp
  finally show ?thesis .
qed

lemma amount_roundtrip: "amount < 2 ^ 60 \<Longrightarrow> decompressTxOutAmount (compressTxOutAmount amount) = amount"
  using amount_roundtrip_nat [of "unat amount"] by (simp add: word_less_nat_alt)

subsection \<open>Scripts\<close>

definition OP_DATA_20 :: "8 word" where "OP_DATA_20 = 0x14"
definition OP_DATA_33 :: "8 word" where "OP_DATA_33 = 0x21"
definition OP_DATA_65 :: "8 word" where "OP_DATA_65 = 0x41"
definition OP_DUP :: "8 word" where "OP_DUP = 0x76"
definition OP_EQUAL :: "8 word" where "OP_EQUAL = 0x87"
definition OP_EQUALVERIFY :: "8 word" where "OP_EQUALVERIFY = 0x88"
definition OP_HASH160 :: "8 word" where "OP_HASH160 = 0xa9"
definition OP_CHECKSIG :: "8 word" where "OP_CHECKSIG = 0xac"

definition sub :: "nat \<Rightarrow> nat \<Rightarrow> octets \<Rightarrow> octets" where
  "sub lo hi s = take (hi - lo) (drop lo s)"

definition slice :: "nat \<Rightarrow> nat \<Rightarrow> octets \<Rightarrow> octets outcome" where
  "slice lo hi s = (if hi \<le> length s then Ok (sub lo hi s) else Panic ''slice bounds out of range'')"

definition isPubKeyHash :: "octets \<Rightarrow> octets option" where
  "isPubKeyHash s =
    (if length s = 25 \<and> s ! 0 = OP_DUP \<and> s ! 1 = OP_HASH160 \<and> s ! 2 = OP_DATA_20 \<and> s ! 23 = OP_EQUALVERIFY \<and>
       s ! 24 = OP_CHECKSIG then Some (sub 3 23 s) else None)"

definition isScriptHash :: "octets \<Rightarrow> octets option" where
  "isScriptHash s =
    (if length s = 23 \<and> s ! 0 = OP_HASH160 \<and> s ! 1 = OP_DATA_20 \<and> s ! 22 = OP_EQUAL
     then Some (sub 2 22 s) else None)"

definition isPubKey :: "(octets \<Rightarrow> octets option) \<Rightarrow> octets \<Rightarrow> octets option" where
  "isPubKey parse s =
    (if length s = 35 \<and> s ! 0 = OP_DATA_33 \<and> s ! 34 = OP_CHECKSIG \<and> (s ! 1 = 0x02 \<or> s ! 1 = 0x03) \<and>
       parse (sub 1 34 s) \<noteq> None then Some (sub 1 34 s)
     else if length s = 67 \<and> s ! 0 = OP_DATA_65 \<and> s ! 66 = OP_CHECKSIG \<and> s ! 1 = 0x04 \<and>
       parse (sub 1 66 s) \<noteq> None then Some (sub 1 66 s)
     else None)"

definition numSpecialScripts :: nat where
  "numSpecialScripts = 6"

definition compressedScriptSize :: "(octets \<Rightarrow> octets option) \<Rightarrow> octets \<Rightarrow> nat" where
  "compressedScriptSize parse s =
    (if isPubKeyHash s \<noteq> None then 21
     else if isScriptHash s \<noteq> None then 21
     else if isPubKey parse s \<noteq> None then 33
     else serializeSizeVLQ (of_nat (length s + numSpecialScripts)) + length s)"

definition decodeCompressedScriptSize :: "octets \<Rightarrow> int" where
  "decodeCompressedScriptSize serialized = (case deserializeVLQ serialized of (scriptSize, bytesRead) \<Rightarrow>
     if bytesRead = 0 then 0
     else if scriptSize = 0 then 21
     else if scriptSize = 1 then 21
     else if scriptSize = 2 \<or> scriptSize = 3 \<or> scriptSize = 4 \<or> scriptSize = 5 then 33
     else sint (scriptSize - of_nat numSpecialScripts + of_nat bytesRead))"

definition putCompressedScript :: "(octets \<Rightarrow> octets option) \<Rightarrow> octets \<Rightarrow> octets" where
  "putCompressedScript parse s =
    (let general = putVLQ (of_nat (length s + numSpecialScripts)) @ s in
     case isPubKeyHash s of
       Some hash \<Rightarrow> 0 # hash
     | None \<Rightarrow> (case isScriptHash s of
         Some hash \<Rightarrow> 1 # hash
       | None \<Rightarrow> (case isPubKey parse s of
           Some k \<Rightarrow>
             (if k ! 0 = 0x02 \<or> k ! 0 = 0x03 then k ! 0 # sub 1 33 k
              else if k ! 0 = 0x04 then (k ! 0 OR (k ! 64 AND 0x01)) # sub 1 33 k
              else general)
         | None \<Rightarrow> general)))"

text \<open>\<open>copy\<close> fills the rest of a fresh slice with zeros.\<close>

definition fill :: "nat \<Rightarrow> octets \<Rightarrow> octets" where
  "fill n s = take n (s @ replicate n 0)"

definition decompressScript :: "(octets \<Rightarrow> octets option) \<Rightarrow> octets \<Rightarrow> octets outcome" where
  "decompressScript parse c =
    (if c = [] then Ok []
     else case deserializeVLQ c of (n, bytesRead) \<Rightarrow>
       if n = 0 then
         map_outcome (\<lambda>h. [OP_DUP, OP_HASH160, OP_DATA_20] @ h @ [OP_EQUALVERIFY, OP_CHECKSIG])
           (slice bytesRead (bytesRead + 20) c)
       else if n = 1 then
         map_outcome (\<lambda>h. [OP_HASH160, OP_DATA_20] @ h @ [OP_EQUAL]) (slice bytesRead (bytesRead + 20) c)
       else if n = 2 \<or> n = 3 then
         map_outcome (\<lambda>x. [OP_DATA_33, ucast n] @ x @ [OP_CHECKSIG]) (slice bytesRead (bytesRead + 32) c)
       else if n = 4 \<or> n = 5 then
         (case parse (ucast (n - 2) # fill 32 (drop 1 c)) of
            None \<Rightarrow> Ok []
          | Some k \<Rightarrow> Ok (OP_DATA_65 # fill 65 k @ [OP_CHECKSIG]))
       else
         let scriptSize = sint (n - of_nat numSpecialScripts) in
         if scriptSize < 0 then Panic ''makeslice: len out of range''
         else slice bytesRead (bytesRead + nat scriptSize) c)"

subsection \<open>Outputs\<close>

definition compressedTxOutSize :: "(octets \<Rightarrow> octets option) \<Rightarrow> 64 word \<Rightarrow> octets \<Rightarrow> nat" where
  "compressedTxOutSize parse amount s = serializeSizeVLQ (compressTxOutAmount amount) + compressedScriptSize parse s"

definition putCompressedTxOut :: "(octets \<Rightarrow> octets option) \<Rightarrow> 64 word \<Rightarrow> octets \<Rightarrow> octets" where
  "putCompressedTxOut parse amount s = putVLQ (compressTxOutAmount amount) @ putCompressedScript parse s"

definition decodeCompressedTxOut :: "(octets \<Rightarrow> octets option) \<Rightarrow> octets \<Rightarrow> (64 word \<times> octets \<times> nat) outcome" where
  "decodeCompressedTxOut parse serialized = (case deserializeVLQ serialized of (compressedAmount, bytesRead) \<Rightarrow>
     if bytesRead \<ge> length serialized then Err ''unexpected end of data after compressed amount''
     else
       let rest = drop bytesRead serialized; scriptSize = decodeCompressedScriptSize rest in
       if int (length rest) < scriptSize then Err ''unexpected end of data after script size''
       else if scriptSize < 0 then Panic ''slice bounds out of range''
       else map_outcome (\<lambda>s. (decompressTxOutAmount compressedAmount, s, bytesRead + nat scriptSize))
              (decompressScript parse (take (nat scriptSize) rest)))"

subsection \<open>Round trips\<close>

lemma small_vlq:
  assumes "n \<le> 0x7f"
  shows "putVLQ n = [ucast n]" "serializeSizeVLQ n = 1"
  using small_bits [OF assms] assms leD [OF assms]
  by (simp_all add: putVLQ_def vlqBytes.simps [of n] serializeSizeVLQ.simps [of n])

text \<open>A leading byte below 128 is a quantity of its own.\<close>

lemma deserialize_small: "n \<le> 0x7f \<Longrightarrow> b = ucast n \<Longrightarrow> deserializeVLQ (b # rest) = (n, 1)"
  using vlq_roundtrip [of n rest] by (simp add: small_vlq)

lemma take_nths:
  "1 \<le> length s \<Longrightarrow> take 1 s = [s ! 0]" "2 \<le> length s \<Longrightarrow> take 2 s = [s ! 0, s ! 1]"
  "3 \<le> length s \<Longrightarrow> take 3 s = [s ! 0, s ! 1, s ! 2]"
  by (auto simp: numeral_2_eq_2 numeral_3_eq_3 Suc_le_length_iff)

lemma drop_nths:
  "length s = n + 1 \<Longrightarrow> drop n s = [s ! n]" "length s = n + 2 \<Longrightarrow> drop n s = [s ! n, s ! (n + 1)]"
  by (simp_all add: Cons_nth_drop_Suc [symmetric])

lemma split_sub: "lo \<le> hi \<Longrightarrow> hi \<le> length s \<Longrightarrow> s = take lo s @ sub lo hi s @ drop hi s"
  by (metis append_take_drop_id drop_drop le_add_diff_inverse2 sub_def)

lemma length_sub: "hi \<le> length s \<Longrightarrow> length (sub lo hi s) = hi - lo"
  by (simp add: sub_def)

lemma isPubKeyHash_shape:
  assumes "isPubKeyHash s = Some h"
  shows "s = [OP_DUP, OP_HASH160, OP_DATA_20] @ h @ [OP_EQUALVERIFY, OP_CHECKSIG] \<and> length h = 20"
proof -
  from assms have h: "length s = 25" "s ! 0 = OP_DUP" "s ! 1 = OP_HASH160" "s ! 2 = OP_DATA_20" "s ! 23 = OP_EQUALVERIFY"
    "s ! 24 = OP_CHECKSIG" "h = sub 3 23 s" by (auto simp: isPubKeyHash_def split: if_splits)
  then have "take 3 s = [OP_DUP, OP_HASH160, OP_DATA_20]" "drop 23 s = [OP_EQUALVERIFY, OP_CHECKSIG]"
    using take_nths(3) [of s] drop_nths(2) [of s 23] by simp_all
  with split_sub [of 3 23 s] h(1,7) length_sub [of 23 s 3] show ?thesis by simp
qed

lemma isScriptHash_shape:
  assumes "isScriptHash s = Some h"
  shows "s = [OP_HASH160, OP_DATA_20] @ h @ [OP_EQUAL] \<and> length h = 20"
proof -
  from assms have h: "length s = 23" "s ! 0 = OP_HASH160" "s ! 1 = OP_DATA_20" "s ! 22 = OP_EQUAL" "h = sub 2 22 s"
    by (auto simp: isScriptHash_def split: if_splits)
  then have "take 2 s = [OP_HASH160, OP_DATA_20]" "drop 22 s = [OP_EQUAL]"
    using take_nths(2) [of s] drop_nths(1) [of s 22] by simp_all
  with split_sub [of 2 22 s] h(1,5) length_sub [of 22 s 2] show ?thesis by simp
qed

lemma isPubKey_shape:
  assumes "isPubKey parse s = Some k"
  shows "(\<exists>b x. k = b # x \<and> length x = 32 \<and> (b = 2 \<or> b = 3) \<and> s = OP_DATA_33 # b # x @ [OP_CHECKSIG]) \<or>
    (\<exists>x y. k = 4 # x @ y \<and> length x = 32 \<and> length y = 32 \<and> s = OP_DATA_65 # k @ [OP_CHECKSIG] \<and> parse k \<noteq> None)"
proof -
  consider (comp) "length s = 35" "s ! 0 = OP_DATA_33" "s ! 34 = OP_CHECKSIG" "s ! 1 = 0x02 \<or> s ! 1 = 0x03" "k = sub 1 34 s"
    | (full) "length s = 67" "s ! 0 = OP_DATA_65" "s ! 66 = OP_CHECKSIG" "s ! 1 = 0x04" "k = sub 1 66 s" "parse k \<noteq> None"
    using assms by (auto simp: isPubKey_def split: if_splits)
  then show ?thesis
  proof cases
    case comp
    have s: "s = [OP_DATA_33] @ k @ [OP_CHECKSIG]"
      using split_sub [of 1 34 s] comp take_nths(1) [of s] drop_nths(1) [of s 34] by simp
    have "length k = 33" using comp(1,5) length_sub [of 34 s 1] by simp
    then obtain b x where "k = b # x" "length x = 32" by (cases k) auto
    with s comp(4) show ?thesis by auto
  next
    case full
    have s: "s = [OP_DATA_65] @ k @ [OP_CHECKSIG]"
      using split_sub [of 1 66 s] full take_nths(1) [of s] drop_nths(1) [of s 66] by simp
    have "length k = 65" using full(1,5) length_sub [of 66 s 1] by simp
    then obtain b x where bx: "k = b # x" "length x = 64" by (cases k) auto
    with s full(4) have "k = 4 # take 32 x @ drop 32 x" "length (take 32 x) = 32" "length (drop 32 x) = 32" by auto
    with s full(6) show ?thesis by (intro disjI2 exI [of _ "take 32 x"] exI [of _ "drop 32 x"]) simp
  qed
qed

text \<open>What the secp256k1 library documents: an uncompressed key parses to itself, and so does its compressed form, which
  names the parity of the second coordinate.\<close>

definition key_laws :: "(octets \<Rightarrow> octets option) \<Rightarrow> bool" where
  "key_laws parse \<longleftrightarrow> (\<forall>x y. length x = 32 \<longrightarrow> length y = 32 \<longrightarrow> parse (4 # x @ y) \<noteq> None \<longrightarrow>
     parse ((if last y AND 1 = 1 then 3 else 2) # x) = Some (4 # x @ y))"

lemma slice_tail: "length x = n \<Longrightarrow> slice 1 (1 + n) (b # x) = Ok x"
  by (simp add: slice_def sub_def)

text \<open>The special scripts, by the first byte of their encoding.\<close>

lemma special_roundtrip:
  assumes "key_laws parse" and "length s < 2 ^ 32"
    and "\<not> (isPubKeyHash s = None \<and> isScriptHash s = None \<and> isPubKey parse s = None)"
  shows "decompressScript parse (putCompressedScript parse s) = Ok s \<and>
    decodeCompressedScriptSize (putCompressedScript parse s @ rest) = int (compressedScriptSize parse s) \<and>
    length (putCompressedScript parse s) = compressedScriptSize parse s"
proof -
  have d: "deserializeVLQ (b # r) = (ucast b, 1)" if "b \<in> {0, 1, 2, 3, 4, 5}" for b r
    using that deserialize_small [of "ucast b" b r] by auto
  consider (pkh) h where "isPubKeyHash s = Some h"
    | (sh) h where "isPubKeyHash s = None" "isScriptHash s = Some h"
    | (pk) k where "isPubKeyHash s = None" "isScriptHash s = None" "isPubKey parse s = Some k"
    using assms(3) by (metis option.exhaust)
  then show ?thesis
  proof cases
    case pkh
    then show ?thesis using isPubKeyHash_shape [OF pkh] slice_tail [of h 20 0]
      by (simp add: putCompressedScript_def decompressScript_def decodeCompressedScriptSize_def compressedScriptSize_def d)
  next
    case sh
    then show ?thesis using isScriptHash_shape [OF sh(2)] slice_tail [of h 20 1]
      by (simp add: putCompressedScript_def decompressScript_def decodeCompressedScriptSize_def compressedScriptSize_def d)
  next
    case pk
    from isPubKey_shape [OF pk(3)] consider
      (comp) b x where "k = b # x" "length x = 32" "s = OP_DATA_33 # b # x @ [OP_CHECKSIG]" "b = 2 \<or> b = 3"
      | (full) x y where "k = 4 # x @ y" "length x = 32" "length y = 32" "s = OP_DATA_65 # k @ [OP_CHECKSIG]" "parse k \<noteq> None"
      by blast
    then show ?thesis
    proof cases
      case comp
      note k = comp(1-3) and b = comp(4)
      have put: "putCompressedScript parse s = b # x" using pk k b by (auto simp: putCompressedScript_def sub_def)
      have "compressedScriptSize parse s = 33" using pk by (simp add: compressedScriptSize_def)
      with put k b slice_tail [OF k(2), of b] show ?thesis
        by (auto simp: decompressScript_def decodeCompressedScriptSize_def d)
    next
      case full
      note k = full
      define p where "p = last y AND 1"
      have last: "k ! 64 = last y" using k(1-3) by (cases y rule: rev_cases) (simp_all add: nth_append)
      have p: "p = 0 \<or> p = 1" by (auto simp: p_def and_one_eq)
      have law: "parse ((if p = 1 then 3 else 2) # x) = Some k" using assms(1) k by (auto simp: key_laws_def p_def)
      have put: "putCompressedScript parse s = (4 OR p) # x"
        using pk k last by (simp add: putCompressedScript_def sub_def p_def)
      have "compressedScriptSize parse s = 33" using pk by (simp add: compressedScriptSize_def)
      moreover have "fill 32 x = x" "fill 65 k = k" using k(1-3) by (simp_all add: fill_def)
      ultimately show ?thesis using put k p law
        by (auto simp: decompressScript_def decodeCompressedScriptSize_def d)
    qed
  qed
qed

lemma serializeSizeVLQ_le: "serializeSizeVLQ n \<le> unat n + 1"
proof (induction n rule: serializeSizeVLQ.induct)
  case (1 n)
  show ?case
  proof (cases "n > 0x7f")
    case True
    with 1 vlq_decreases [OF True] show ?thesis by (subst serializeSizeVLQ.simps) simp
  qed (subst serializeSizeVLQ.simps, simp)
qed

lemma sint_of_nat_small: "m < 2 ^ 63 \<Longrightarrow> sint (of_nat m :: 64 word) = int m"
  by (simp add: signed_of_nat signed_take_bit_int_eq_self)

lemma general_roundtrip:
  assumes "length s < 2 ^ 32" and "putCompressedScript parse s = putVLQ (of_nat (length s + numSpecialScripts)) @ s"
    and "compressedScriptSize parse s = serializeSizeVLQ (of_nat (length s + numSpecialScripts)) + length s"
  shows "decompressScript parse (putCompressedScript parse s) = Ok s \<and>
    decodeCompressedScriptSize (putCompressedScript parse s @ rest) = int (compressedScriptSize parse s) \<and>
    length (putCompressedScript parse s) = compressedScriptSize parse s"
proof -
  define n :: "64 word" where "n = of_nat (length s + 6)"
  have u: "unat n = length s + 6" unfolding n_def by (rule unat_of_nat_small) (use assms(1) in simp)
  have big: "n \<noteq> 0" "n \<noteq> 1" "n \<noteq> 2" "n \<noteq> 3" "n \<noteq> 4" "n \<noteq> 5" using u by auto
  have "n - 6 = of_nat (length s)" by (simp add: n_def)
  then have size: "sint (n - 6) = int (length s)" using assms(1) sint_of_nat_small [of "length s"] by simp
  have "serializeSizeVLQ n \<le> 2 ^ 32 + 7" using serializeSizeVLQ_le [of n] u assms(1) by simp
  then have "length s + serializeSizeVLQ n < 2 ^ 63" using assms(1) by simp
  moreover have "n - 6 + of_nat (serializeSizeVLQ n) = of_nat (length s + serializeSizeVLQ n)" by (simp add: n_def)
  ultimately have total: "sint (n - 6 + of_nat (serializeSizeVLQ n)) = int (length s + serializeSizeVLQ n)"
    using sint_of_nat_small by metis
  have pos: "0 < serializeSizeVLQ n" by (subst serializeSizeVLQ.simps) simp
  have put: "putCompressedScript parse s = putVLQ n @ s" using assms(2) by (simp add: n_def numSpecialScripts_def)
  have sz: "compressedScriptSize parse s = serializeSizeVLQ n + length s" using assms(3) by (simp add: n_def numSpecialScripts_def)
  have "putVLQ n @ s \<noteq> []" using pos length_putVLQ [of n] by (metis append_is_Nil_conv list.size(3) less_numeral_extra(3))
  moreover have "slice (serializeSizeVLQ n) (serializeSizeVLQ n + length s) (putVLQ n @ s) = Ok s"
    by (simp add: slice_def sub_def)
  ultimately have "decompressScript parse (putVLQ n @ s) = Ok s"
    using big size by (simp add: decompressScript_def vlq_roundtrip numSpecialScripts_def)
  moreover have "decodeCompressedScriptSize ((putVLQ n @ s) @ rest) = int (serializeSizeVLQ n + length s)"
    using big total pos vlq_roundtrip [of n "s @ rest"]
    by (simp add: decodeCompressedScriptSize_def numSpecialScripts_def)
  ultimately show ?thesis using put sz by simp
qed

lemma script_roundtrip:
  assumes "key_laws parse" and "length s < 2 ^ 32"
  shows "decompressScript parse (putCompressedScript parse s) = Ok s \<and>
    decodeCompressedScriptSize (putCompressedScript parse s @ rest) = int (compressedScriptSize parse s) \<and>
    length (putCompressedScript parse s) = compressedScriptSize parse s"
proof (cases "isPubKeyHash s = None \<and> isScriptHash s = None \<and> isPubKey parse s = None")
  case True
  then show ?thesis
    by (intro general_roundtrip [OF assms(2)]) (simp_all add: putCompressedScript_def compressedScriptSize_def)
next
  case False
  with assms show ?thesis by (rule special_roundtrip)
qed

lemma compressed_txout:
  assumes "key_laws parse" and "amount < 2 ^ 60" and "length s < 2 ^ 32"
  shows "length (putCompressedTxOut parse amount s) = compressedTxOutSize parse amount s \<and>
    decodeCompressedTxOut parse (putCompressedTxOut parse amount s @ rest) = Ok (amount, s, compressedTxOutSize parse amount s)"
proof -
  let ?c = "putCompressedScript parse s" and ?z = "serializeSizeVLQ (compressTxOutAmount amount)"
  have rt: "decompressScript parse ?c = Ok s" "decodeCompressedScriptSize (?c @ rest) = int (compressedScriptSize parse s)"
    "length ?c = compressedScriptSize parse s" using script_roundtrip [OF assms(1,3)] by auto
  have v: "deserializeVLQ (putCompressedTxOut parse amount s @ rest) = (compressTxOutAmount amount, ?z)"
    by (simp add: putCompressedTxOut_def vlq_roundtrip)
  have "?c \<noteq> []"
    using serializeSizeVLQ.simps [of "of_nat (length s + numSpecialScripts)"] rt(3)
    by (auto simp: compressedScriptSize_def split: if_splits)
  then have "?z < length (putCompressedTxOut parse amount s @ rest)" by (simp add: putCompressedTxOut_def)
  moreover have "drop ?z (putCompressedTxOut parse amount s @ rest) = ?c @ rest" by (simp add: putCompressedTxOut_def)
  moreover have "take (compressedScriptSize parse s) (?c @ rest) = ?c" using rt(3) by simp
  ultimately have "decodeCompressedTxOut parse (putCompressedTxOut parse amount s @ rest) =
      Ok (amount, s, compressedTxOutSize parse amount s)"
    using rt v amount_roundtrip [OF assms(2)] by (simp add: decodeCompressedTxOut_def compressedTxOutSize_def)
  then show ?thesis using rt(3) by (simp add: putCompressedTxOut_def compressedTxOutSize_def)
qed

text \<open>C11: An unspent output survives the database.  For every amount below \<open>2 ^ 60\<close> (more than a thousand times the
  coin supply) and every script, the compressed output has exactly the announced size, and decoding it,
  whatever follows it in the record, returns the amount, the script and that size.\<close>

theorem txout_roundtrip:
  assumes "key_laws parse" and "amount < 2 ^ 60" and "length s < 2 ^ 32"
  shows "length (putCompressedTxOut parse amount s) = compressedTxOutSize parse amount s \<and>
    decodeCompressedTxOut parse (putCompressedTxOut parse amount s @ rest) = Ok (amount, s, compressedTxOutSize parse amount s)"
  using assms by (rule compressed_txout)

text \<open>A corrupt script length crashes the decoder.  When the stored script length, less the special cases and plus
  its own size, is negative as a signed integer, decoding the output panics instead of returning the
  deserialization error.\<close>

theorem corrupt_script_length_panics:
  assumes "5 < n" and "sint (n - 6 + of_nat (serializeSizeVLQ n)) < 0"
  shows "decodeCompressedTxOut parse (putVLQ a @ putVLQ n @ rest) = Panic ''slice bounds out of range''"
proof -
  have big: "n \<noteq> 0" "n \<noteq> 1" "n \<noteq> 2" "n \<noteq> 3" "n \<noteq> 4" "n \<noteq> 5" using assms(1) by auto
  have pos: "0 < serializeSizeVLQ n" by (subst serializeSizeVLQ.simps) simp
  have "deserializeVLQ (putVLQ a @ putVLQ n @ rest) = (a, serializeSizeVLQ a)" by (rule vlq_roundtrip)
  moreover have "decodeCompressedScriptSize (putVLQ n @ rest) < 0"
    using assms(2) big pos by (simp add: decodeCompressedScriptSize_def vlq_roundtrip numSpecialScripts_def)
  ultimately show ?thesis using pos by (simp add: decodeCompressedTxOut_def Let_def)
qed

text \<open>A parser that knows no keys obeys the laws of the library, and so does one that knows a single one.\<close>

definition ones :: "nat \<Rightarrow> octets" where
  "ones n = replicate n 1"

definition oneKey :: "octets \<Rightarrow> octets option" where
  "oneKey k = (if k = 4 # ones 64 \<or> k = 3 # ones 32 then Some (4 # ones 64) else None)"

lemma oneKey_laws: "key_laws oneKey"
  unfolding key_laws_def
proof (intro allI impI)
  fix x y :: octets
  assume len: "length x = 32" "length y = 32" and "oneKey (4 # x @ y) \<noteq> None"
  then have xy: "x @ y = ones 64" by (auto simp: oneKey_def split: if_splits)
  also have "ones 64 = ones 32 @ ones 32" by (simp only: ones_def replicate_add [symmetric]) simp
  finally have eq: "x = ones 32" "y = ones 32" using len by (simp_all add: ones_def)
  have "last y = 1" unfolding eq ones_def by (subst last_replicate) simp_all
  then have "(if last y AND 1 = 1 then 3 else 2) # x = 3 # ones 32" using eq(1) by simp
  then show "oneKey ((if last y AND 1 = 1 then 3 else 2) # x) = Some (4 # x @ y)" using xy by (simp add: oneKey_def)
qed

theorem txout_roundtrip_witness:
  "decodeCompressedTxOut oneKey (putCompressedTxOut oneKey 5000000000 (OP_DATA_65 # (4 # ones 64) @ [OP_CHECKSIG]) @ [7]) =
   Ok (5000000000, OP_DATA_65 # (4 # ones 64) @ [OP_CHECKSIG],
     compressedTxOutSize oneKey 5000000000 (OP_DATA_65 # (4 # ones 64) @ [OP_CHECKSIG]))"
proof -
  have "length (OP_DATA_65 # (4 # ones 64) @ [OP_CHECKSIG]) < 2 ^ 32" by (simp add: ones_def)
  from txout_roundtrip [OF oneKey_laws _ this, of 5000000000 "[7]"] show ?thesis by simp
qed

theorem corrupt_script_length_panics_witness:
  "decodeCompressedTxOut oneKey (putVLQ 1 @ putVLQ 0x8000000000000100 @ []) = Panic ''slice bounds out of range''"
proof (rule corrupt_script_length_panics)
  have "serializeSizeVLQ 0x8000000000000100 = 9"
    by (simp add: serializeSizeVLQ.simps)
  then show "sint (0x8000000000000100 - 6 + of_nat (serializeSizeVLQ 0x8000000000000100) :: 64 word) < 0" by simp
qed simp

end
