(* ===== verification/Coin_Ledger.thy ===== *)
theory Coin_Ledger
  imports Coin_Compress Coin_Difficulty
begin

text \<open>
  The ledger rules of the coin node: which scripts are unspendable (\<open>src/btcd/txscript/script.go\<close>,
  \<open>tokenizer.go\<close>), the context-free and the input checks of a transaction (\<open>blockchain/validate.go\<close>) and the view of
  unspent outputs a block is connected to (\<open>blockchain/utxoviewpoint.go\<close>).  Amounts are \<open>int64\<close> and every sum is
  written with its wrap-around.  The hashes of a transaction are fields of it, as \<open>btcutil.Tx\<close> caches them: how they
  are computed plays no role here.

  The lemmas show that the checks exclude overflow, that a transaction that passes them can be
  connected, that connecting it destroys at least as many coins as it creates, and that no later
  transaction can spend the same output.
\<close>

subsection \<open>Transactions\<close>

type_synonym outpoint = "octets \<times> 32 word"

record TxIn =
  PreviousOutPoint :: outpoint
  SignatureScript :: octets
  Witness :: "octets list"
  Sequence :: "32 word"

record TxOut =
  Value :: int
  PkScript :: octets

record MsgTx =
  tx_hash :: octets
  tx_ins :: "TxIn list"
  tx_outs :: "TxOut list"
  tx_version :: int
  tx_lockTime :: "32 word"
  tx_witnessHash :: octets

definition zeroHash :: octets where
  "zeroHash = replicate 32 0"

definition MaxSatoshi :: int where
  "MaxSatoshi = 2100000000000000"

definition isNullOutpoint :: "outpoint \<Rightarrow> bool" where
  "isNullOutpoint p \<longleftrightarrow> snd p = 0xffffffff \<and> fst p = zeroHash"

definition IsCoinBase :: "MsgTx \<Rightarrow> bool" where
  "IsCoinBase tx \<longleftrightarrow> length (tx_ins tx) = 1 \<and> \<not> (snd (PreviousOutPoint (tx_ins tx ! 0)) \<noteq> 0xffffffff \<or>
     fst (PreviousOutPoint (tx_ins tx ! 0)) \<noteq> zeroHash)"

definition VarIntSerializeSize :: "nat \<Rightarrow> nat" where
  "VarIntSerializeSize v = (if v < 0xfd then 1 else if v \<le> 0xffff then 3 else if v \<le> 0xffffffff then 5 else 9)"

definition TxIn_SerializeSize :: "TxIn \<Rightarrow> nat" where
  "TxIn_SerializeSize i = 40 + VarIntSerializeSize (length (SignatureScript i)) + length (SignatureScript i)"

definition TxOut_SerializeSize :: "TxOut \<Rightarrow> nat" where
  "TxOut_SerializeSize out = 8 + VarIntSerializeSize (length (PkScript out)) + length (PkScript out)"

definition baseSize :: "MsgTx \<Rightarrow> nat" where
  "baseSize tx = 8 + VarIntSerializeSize (length (tx_ins tx)) + VarIntSerializeSize (length (tx_outs tx)) +
     sum_list (map TxIn_SerializeSize (tx_ins tx)) + sum_list (map TxOut_SerializeSize (tx_outs tx))"

subsection \<open>Unspendable scripts\<close>

text \<open>The number of length bytes of a parsed push, by opcode.\<close>

definition pushBytes :: "nat \<Rightarrow> nat option" where
  "pushBytes op = (if op = 0x4c then Some 1 else if op = 0x4d then Some 2 else if op = 0x4e then Some 4 else None)"

fun littleEndian :: "octets \<Rightarrow> nat" where
  "littleEndian [] = 0"
| "littleEndian (b # bs) = unat b + 256 * littleEndian bs"

definition dataLen :: "octets \<Rightarrow> int" where
  "dataLen bs = sint (of_nat (littleEndian bs) :: 32 word)"

function checkScriptParses :: "octets \<Rightarrow> bool" where
  "checkScriptParses [] = True"
| "checkScriptParses (b # rest) =
    (let op = unat b in
     if 1 \<le> op \<and> op \<le> 75 then length rest \<ge> op \<and> checkScriptParses (drop op rest)
     else case pushBytes op of
       Some n \<Rightarrow>
         length rest \<ge> n \<and> \<not> (dataLen (take n rest) > int (length (drop n rest)) \<or> dataLen (take n rest) < 0) \<and>
         checkScriptParses (drop (nat (dataLen (take n rest))) (drop n rest))
     | None \<Rightarrow> checkScriptParses rest)"
  by pat_completeness auto
termination by (relation "measure length") auto

definition IsUnspendable :: "octets \<Rightarrow> bool" where
  "IsUnspendable s =
    (if length s > 0 \<and> s ! 0 = 0x6a then True
     else if length s > 10000 then True
     else \<not> checkScriptParses s)"

subsection \<open>Checks\<close>

datatype tx_error = ErrNoTxInputs | ErrNoTxOutputs | ErrTxTooBig | ErrBadTxOutValue | ErrDuplicateTxInputs
  | ErrBadCoinbaseScriptLen | ErrBadTxInput | ErrMissingTxOut | ErrImmatureSpend | ErrSpendTooHigh | ErrTooManySigOps

fun checkOutputs :: "TxOut list \<Rightarrow> int \<Rightarrow> tx_error option" where
  "checkOutputs [] acc = None"
| "checkOutputs (out # outs) acc =
    (if Value out < 0 then Some ErrBadTxOutValue
     else if Value out > MaxSatoshi then Some ErrBadTxOutValue
     else let acc' = wrap64 (acc + Value out) in
       if acc' < 0 then Some ErrBadTxOutValue
       else if acc' > MaxSatoshi then Some ErrBadTxOutValue
       else checkOutputs outs acc')"

fun hasDuplicate :: "outpoint set \<Rightarrow> TxIn list \<Rightarrow> bool" where
  "hasDuplicate seen [] = False"
| "hasDuplicate seen (i # is) =
    (if PreviousOutPoint i \<in> seen then True else hasDuplicate (insert (PreviousOutPoint i) seen) is)"

definition CheckTransactionSanity :: "MsgTx \<Rightarrow> tx_error option" where
  "CheckTransactionSanity tx =
    (if length (tx_ins tx) = 0 then Some ErrNoTxInputs
     else if length (tx_outs tx) = 0 then Some ErrNoTxOutputs
     else if baseSize tx > 1000000 then Some ErrTxTooBig
     else case checkOutputs (tx_outs tx) 0 of
       Some e \<Rightarrow> Some e
     | None \<Rightarrow>
         if hasDuplicate {} (tx_ins tx) then Some ErrDuplicateTxInputs
         else if IsCoinBase tx then
           (let slen = length (SignatureScript (tx_ins tx ! 0)) in
            if slen < 2 \<or> slen > 100 then Some ErrBadCoinbaseScriptLen else None)
         else if \<exists>i \<in> set (tx_ins tx). isNullOutpoint (PreviousOutPoint i) then Some ErrBadTxInput
         else None)"

subsection \<open>The view of unspent outputs\<close>

record UtxoEntry =
  amount :: int
  pkScript :: octets
  blockHeight :: int
  ent_coinbase :: bool
  ent_spent :: bool
  ent_modified :: bool
  ent_fresh :: bool

type_synonym view = "outpoint \<rightharpoonup> UtxoEntry"

definition Spend :: "UtxoEntry \<Rightarrow> UtxoEntry" where
  "Spend e = (if ent_spent e then e else e\<lparr>ent_spent := True, ent_modified := True\<rparr>)"

definition addTxOut :: "outpoint \<Rightarrow> TxOut \<Rightarrow> bool \<Rightarrow> int \<Rightarrow> view \<Rightarrow> view" where
  "addTxOut p out isCoinBase height v =
    (if IsUnspendable (PkScript out) then v
     else v(p \<mapsto> \<lparr>amount = Value out, pkScript = PkScript out, blockHeight = height, ent_coinbase = isCoinBase,
       ent_spent = False, ent_modified = True, ent_fresh = True\<rparr>))"

fun addOuts :: "octets \<Rightarrow> bool \<Rightarrow> int \<Rightarrow> nat \<Rightarrow> TxOut list \<Rightarrow> view \<Rightarrow> view" where
  "addOuts h cb height i [] v = v"
| "addOuts h cb height i (out # outs) v = addOuts h cb height (Suc i) outs (addTxOut (h, of_nat i) out cb height v)"

definition AddTxOuts :: "MsgTx \<Rightarrow> int \<Rightarrow> view \<Rightarrow> view" where
  "AddTxOuts tx height v = addOuts (tx_hash tx) (IsCoinBase tx) height 0 (tx_outs tx) v"

record SpentTxOut =
  st_Amount :: int
  st_PkScript :: octets
  st_Height :: int
  st_IsCoinBase :: bool

fun spendIns :: "TxIn list \<Rightarrow> view \<Rightarrow> SpentTxOut list \<Rightarrow> (view \<times> SpentTxOut list) outcome" where
  "spendIns [] v stxos = Ok (v, stxos)"
| "spendIns (i # is) v stxos = (case v (PreviousOutPoint i) of
      None \<Rightarrow> Err ''view missing input''
    | Some e \<Rightarrow> spendIns is (v(PreviousOutPoint i \<mapsto> Spend e))
        (stxos @ [\<lparr>st_Amount = amount e, st_PkScript = pkScript e, st_Height = blockHeight e, st_IsCoinBase = ent_coinbase e\<rparr>]))"

definition connectTransaction :: "MsgTx \<Rightarrow> int \<Rightarrow> view \<times> SpentTxOut list \<Rightarrow> (view \<times> SpentTxOut list) outcome" where
  "connectTransaction tx height vs = (case vs of (v, stxos) \<Rightarrow>
     if IsCoinBase tx then Ok (AddTxOuts tx height v, stxos)
     else (case spendIns (tx_ins tx) v stxos of
         Ok (v', stxos') \<Rightarrow> Ok (AddTxOuts tx height v', stxos')
       | Err e \<Rightarrow> Err e
       | Panic e \<Rightarrow> Panic e
       | Blocked \<Rightarrow> Blocked))"

fun connectTransactions :: "MsgTx list \<Rightarrow> int \<Rightarrow> view \<times> SpentTxOut list \<Rightarrow> (view \<times> SpentTxOut list) outcome" where
  "connectTransactions [] height vs = Ok vs"
| "connectTransactions (tx # txs) height vs = (case connectTransaction tx height vs of
      Ok vs' \<Rightarrow> connectTransactions txs height vs'
    | e \<Rightarrow> e)"

text \<open>The inputs of a transaction against the view: the total of what they spend, or the rule they break.\<close>

fun checkIns :: "int \<Rightarrow> int \<Rightarrow> TxIn list \<Rightarrow> view \<Rightarrow> int \<Rightarrow> tx_error + int" where
  "checkIns txHeight maturity [] v acc = Inr acc"
| "checkIns txHeight maturity (i # is) v acc = (case v (PreviousOutPoint i) of
      None \<Rightarrow> Inl ErrMissingTxOut
    | Some utxo \<Rightarrow>
        if ent_spent utxo then Inl ErrMissingTxOut
        else if ent_coinbase utxo \<and> txHeight - blockHeight utxo < maturity then Inl ErrImmatureSpend
        else if amount utxo < 0 then Inl ErrBadTxOutValue
        else if amount utxo > MaxSatoshi then Inl ErrBadTxOutValue
        else let acc' = wrap64 (acc + amount utxo) in
          if acc' < acc \<or> acc' > MaxSatoshi then Inl ErrBadTxOutValue
          else checkIns txHeight maturity is v acc')"

definition CheckTransactionInputs :: "MsgTx \<Rightarrow> int \<Rightarrow> view \<Rightarrow> params \<Rightarrow> tx_error + int" where
  "CheckTransactionInputs tx txHeight v p =
    (if IsCoinBase tx then Inr 0
     else case checkIns txHeight (CoinbaseMaturity p) (tx_ins tx) v 0 of
       Inl e \<Rightarrow> Inl e
     | Inr totalIn \<Rightarrow>
         let totalOut = fold (\<lambda>out t. wrap64 (t + Value out)) (tx_outs tx) 0 in
         if totalIn < totalOut then Inl ErrSpendTooHigh else Inr (wrap64 (totalIn - totalOut)))"

subsection \<open>The value of a view\<close>

definition worth :: "UtxoEntry \<Rightarrow> int" where
  "worth e = (if ent_spent e then 0 else amount e)"

definition worthAt :: "view \<Rightarrow> outpoint \<Rightarrow> int" where
  "worthAt v p = (case v p of None \<Rightarrow> 0 | Some e \<Rightarrow> worth e)"

definition valueOf :: "view \<Rightarrow> int" where
  "valueOf v = (\<Sum>p \<in> dom v. worthAt v p)"

lemma valueOf_upd:
  assumes "finite (dom v)"
  shows "valueOf (v(p \<mapsto> e)) = valueOf v - worthAt v p + worth e"
proof -
  have same: "(\<Sum>q \<in> dom v - {p}. worthAt (v(p \<mapsto> e)) q) = (\<Sum>q \<in> dom v - {p}. worthAt v q)"
    by (rule sum.cong) (auto simp: worthAt_def)
  have "dom (v(p \<mapsto> e)) = insert p (dom v - {p})" by auto
  then have "valueOf (v(p \<mapsto> e)) = worthAt (v(p \<mapsto> e)) p + (\<Sum>q \<in> dom v - {p}. worthAt (v(p \<mapsto> e)) q)"
    unfolding valueOf_def using assms by (metis (no_types, lifting) Diff_iff finite_Diff insertI1 sum.insert)
  then have "valueOf (v(p \<mapsto> e)) = worth e + (\<Sum>q \<in> dom v - {p}. worthAt v q)"
    unfolding same by (simp add: worthAt_def)
  moreover have "valueOf v = worthAt v p + (\<Sum>q \<in> dom v - {p}. worthAt v q)"
    unfolding valueOf_def using assms by (cases "p \<in> dom v") (auto simp: sum.remove worthAt_def domIff)
  ultimately show ?thesis by simp
qed

lemma wrap64_sum: "0 \<le> a \<Longrightarrow> a \<le> MaxSatoshi \<Longrightarrow> 0 \<le> b \<Longrightarrow> b \<le> MaxSatoshi \<Longrightarrow> wrap64 (a + b) = a + b"
  by (rule wrap64_id) (auto simp: MaxSatoshi_def)

lemma checkOutputs_spec:
  "checkOutputs outs acc = None \<Longrightarrow> 0 \<le> acc \<Longrightarrow> acc \<le> MaxSatoshi \<Longrightarrow>
   fold (\<lambda>out t. wrap64 (t + Value out)) outs acc = acc + sum_list (map Value outs) \<and>
   acc + sum_list (map Value outs) \<le> MaxSatoshi \<and> (\<forall>out \<in> set outs. 0 \<le> Value out)"
proof (induction outs arbitrary: acc)
  case (Cons out outs)
  from Cons.prems have v: "0 \<le> Value out" "Value out \<le> MaxSatoshi" by (auto split: if_splits)
  then have w: "wrap64 (acc + Value out) = acc + Value out" using Cons.prems wrap64_sum by blast
  with Cons.prems v have "checkOutputs outs (acc + Value out) = None" "acc + Value out \<le> MaxSatoshi"
    by (auto simp: Let_def split: if_splits)
  with Cons.IH [of "acc + Value out"] Cons.prems v w show ?case by (simp add: add.assoc)
qed simp

lemma hasDuplicate_iff:
  "hasDuplicate seen is \<longleftrightarrow> \<not> (distinct (map PreviousOutPoint is) \<and> seen \<inter> PreviousOutPoint ` set is = {})"
  by (induction seen "is" rule: hasDuplicate.induct) auto

definition spendable :: "view \<Rightarrow> outpoint \<Rightarrow> bool" where
  "spendable v p \<longleftrightarrow> (\<exists>e. v p = Some e \<and> \<not> ent_spent e)"

lemma checkIns_spec:
  "checkIns ht m is v acc = Inr t \<Longrightarrow> 0 \<le> acc \<Longrightarrow> acc \<le> MaxSatoshi \<Longrightarrow>
   t = acc + sum_list (map (\<lambda>i. worthAt v (PreviousOutPoint i)) is) \<and> 0 \<le> t \<and> t \<le> MaxSatoshi \<and>
   (\<forall>i \<in> set is. spendable v (PreviousOutPoint i))"
proof (induction "is" arbitrary: acc)
  case (Cons i "is")
  from Cons.prems(1) obtain e where e: "v (PreviousOutPoint i) = Some e" "\<not> ent_spent e" "0 \<le> amount e" "amount e \<le> MaxSatoshi"
    by (auto split: option.splits if_splits)
  then have w: "wrap64 (acc + amount e) = acc + amount e" using Cons.prems wrap64_sum by blast
  with Cons.prems e have "checkIns ht m is v (acc + amount e) = Inr t" "acc + amount e \<le> MaxSatoshi"
    by (auto simp: Let_def split: if_splits)
  with Cons.IH [of "acc + amount e"] Cons.prems e show ?case by (auto simp: worthAt_def worth_def spendable_def)
qed simp

lemma checkIns_missing: "i \<in> set is \<Longrightarrow> \<not> spendable v (PreviousOutPoint i) \<Longrightarrow> \<exists>e. checkIns ht m is v acc = Inl e"
  by (induction "is" arbitrary: acc) (auto simp: spendable_def Let_def split: option.split)

lemma spendIns_spec:
  assumes "finite (dom v)" and "distinct (map PreviousOutPoint is)" and "\<forall>i \<in> set is. spendable v (PreviousOutPoint i)"
  shows "\<exists>v' s'. spendIns is v s = Ok (v', s') \<and> finite (dom v') \<and> length s' = length s + length is \<and>
    valueOf v' = valueOf v - sum_list (map (\<lambda>i. worthAt v (PreviousOutPoint i)) is) \<and>
    (\<forall>p. spendable v' p \<longleftrightarrow> spendable v p \<and> p \<notin> PreviousOutPoint ` set is)"
  using assms
proof (induction "is" arbitrary: v s)
  case (Cons i "is")
  let ?p = "PreviousOutPoint i"
  obtain e where e: "v ?p = Some e" "\<not> ent_spent e" using Cons.prems(3) by (auto simp: spendable_def)
  let ?v = "v(?p \<mapsto> Spend e)"
  let ?s = "s @ [\<lparr>st_Amount = amount e, st_PkScript = pkScript e, st_Height = blockHeight e, st_IsCoinBase = ent_coinbase e\<rparr>]"
  have sp: "ent_spent (Spend e)" "worth (Spend e) = 0" by (auto simp: Spend_def worth_def)
  have keep: "spendable ?v p \<longleftrightarrow> spendable v p \<and> p \<noteq> ?p" for p using sp(1) by (auto simp: spendable_def)
  have other: "PreviousOutPoint j \<noteq> ?p" if "j \<in> set is" for j
  proof -
    have "?p \<notin> PreviousOutPoint ` set is" using Cons.prems(2) by simp
    with that show ?thesis by (metis imageI)
  qed
  have same: "map (\<lambda>j. worthAt ?v (PreviousOutPoint j)) is = map (\<lambda>j. worthAt v (PreviousOutPoint j)) is"
  proof (rule map_cong [OF refl])
    fix j
    assume "j \<in> set is"
    then have "PreviousOutPoint j \<noteq> ?p" by (rule other)
    then show "worthAt ?v (PreviousOutPoint j) = worthAt v (PreviousOutPoint j)" by (simp add: worthAt_def)
  qed
  have rest: "\<forall>j \<in> set is. spendable ?v (PreviousOutPoint j)" using Cons.prems(3) keep other by simp
  have fin: "finite (dom ?v)" and d: "distinct (map PreviousOutPoint is)" using Cons.prems(1,2) by simp_all
  obtain v' s' where r: "spendIns is ?v ?s = Ok (v', s')" "finite (dom v')" "length s' = length ?s + length is"
    "valueOf v' = valueOf ?v - sum_list (map (\<lambda>j. worthAt ?v (PreviousOutPoint j)) is)"
    "\<forall>p. spendable v' p \<longleftrightarrow> spendable ?v p \<and> p \<notin> PreviousOutPoint ` set is"
    using Cons.IH [OF fin d rest, of ?s] by blast
  from r(1-3,5) r(4) [unfolded same] e keep valueOf_upd [OF Cons.prems(1), of ?p "Spend e"] sp(2) show ?case
    by (intro exI [of _ v'] exI [of _ s']) auto
qed simp

lemma addOuts_spec:
  assumes "finite (dom v)" and "\<forall>k. i \<le> k \<and> k < i + length outs \<longrightarrow> \<not> spendable v (h, of_nat k)"
    and "i + length outs \<le> 2 ^ 32"
  shows "finite (dom (addOuts h cb ht i outs v)) \<and>
    valueOf (addOuts h cb ht i outs v) = valueOf v + sum_list (map Value (filter (\<lambda>out. \<not> IsUnspendable (PkScript out)) outs)) \<and>
    (\<forall>p. fst p \<noteq> h \<longrightarrow> addOuts h cb ht i outs v p = v p)"
  using assms
proof (induction outs arbitrary: i v)
  case (Cons out outs)
  let ?v = "addTxOut (h, of_nat i) out cb ht v"
  have "\<not> spendable v (h, of_nat i)" using Cons.prems(2) by auto
  then have "worthAt v (h, of_nat i) = 0" by (auto simp: worthAt_def worth_def spendable_def split: option.split)
  then have val: "valueOf ?v = valueOf v + (if IsUnspendable (PkScript out) then 0 else Value out)"
    using valueOf_upd [OF Cons.prems(1)] by (simp add: addTxOut_def worth_def)
  have fin: "finite (dom ?v)" using Cons.prems(1) by (simp add: addTxOut_def)
  have fresh: "\<forall>k. Suc i \<le> k \<and> k < Suc i + length outs \<longrightarrow> \<not> spendable ?v (h, of_nat k)"
  proof (intro allI impI)
    fix k
    assume k: "Suc i \<le> k \<and> k < Suc i + length outs"
    then have "k < 2 ^ 32" "i < 2 ^ 32" using Cons.prems(3) by auto
    then have "unat (of_nat k :: 32 word) \<noteq> unat (of_nat i :: 32 word)" using k by (simp only: unat_small32) simp
    then have "?v (h, of_nat k) = v (h, of_nat k)" by (auto simp: addTxOut_def)
    moreover have "\<not> spendable v (h, of_nat k)" using Cons.prems(2) k by simp
    ultimately show "\<not> spendable ?v (h, of_nat k)" by (simp add: spendable_def)
  qed
  from Cons.IH [OF fin fresh] Cons.prems(3) val show ?case by (auto simp: addTxOut_def)
qed simp

subsection \<open>Conservation\<close>

lemma many_outputs: "9 * length outs \<le> sum_list (map TxOut_SerializeSize outs)"
  by (induction outs) (simp_all add: TxOut_SerializeSize_def VarIntSerializeSize_def)

lemma sane_facts:
  assumes "CheckTransactionSanity tx = None"
  shows "checkOutputs (tx_outs tx) 0 = None" "distinct (map PreviousOutPoint (tx_ins tx))" "length (tx_outs tx) \<le> 2 ^ 32"
proof -
  have "baseSize tx \<le> 1000000" "checkOutputs (tx_outs tx) 0 = None \<and> \<not> hasDuplicate {} (tx_ins tx)"
    using assms by (auto simp: CheckTransactionSanity_def split: if_splits option.splits)
  then show "checkOutputs (tx_outs tx) 0 = None" "distinct (map PreviousOutPoint (tx_ins tx))"
    "length (tx_outs tx) \<le> 2 ^ 32"
    using many_outputs [of "tx_outs tx"] by (auto simp: hasDuplicate_iff baseSize_def)
qed

lemma sane_values:
  assumes "CheckTransactionSanity tx = None"
  shows "\<forall>out \<in> set (tx_outs tx). 0 \<le> Value out" "sum_list (map Value (tx_outs tx)) \<le> MaxSatoshi"
    "0 \<le> sum_list (map Value (filter P (tx_outs tx)))"
proof -
  have m0: "(0 :: int) \<le> MaxSatoshi" by (simp add: MaxSatoshi_def)
  show out: "\<forall>out \<in> set (tx_outs tx). 0 \<le> Value out" "sum_list (map Value (tx_outs tx)) \<le> MaxSatoshi"
    using checkOutputs_spec [OF sane_facts(1) [OF assms] order_refl m0] by simp_all
  then show "0 \<le> sum_list (map Value (filter P (tx_outs tx)))" by (intro sum_list_nonneg) auto
qed

text \<open>A new transaction: the view has no unspent output under its hash.\<close>

definition new_tx :: "MsgTx \<Rightarrow> view \<Rightarrow> bool" where
  "new_tx tx v \<longleftrightarrow> (\<forall>i. \<not> spendable v (tx_hash tx, i))"

lemma connect_spec:
  assumes "finite (dom v)" and "new_tx tx v" and "\<not> IsCoinBase tx" and "CheckTransactionSanity tx = None"
    and "CheckTransactionInputs tx ht v p = Inr fee"
  shows "\<exists>v' stxos'. connectTransaction tx ht (v, stxos) = Ok (v', stxos') \<and> finite (dom v') \<and>
    length stxos' = length stxos + length (tx_ins tx) \<and> 0 \<le> fee \<and>
    valueOf v' + sum_list (map Value (filter (\<lambda>out. IsUnspendable (PkScript out)) (tx_outs tx))) + fee = valueOf v \<and>
    (\<forall>i \<in> set (tx_ins tx). \<not> spendable v' (PreviousOutPoint i))"
proof -
  note sane = sane_facts [OF assms(4)]
  let ?outs = "sum_list (map Value (tx_outs tx))" and ?ins = "sum_list (map (\<lambda>i. worthAt v (PreviousOutPoint i)) (tx_ins tx))"
  have m0: "(0 :: int) \<le> MaxSatoshi" by (simp add: MaxSatoshi_def)
  have out: "fold (\<lambda>out t. wrap64 (t + Value out)) (tx_outs tx) 0 = ?outs" "?outs \<le> MaxSatoshi" "\<forall>x \<in> set (tx_outs tx). 0 \<le> Value x"
    using checkOutputs_spec [OF sane(1) order_refl m0] by simp_all
  obtain t where t: "checkIns ht (CoinbaseMaturity p) (tx_ins tx) v 0 = Inr t" "?outs \<le> t" "fee = wrap64 (t - ?outs)"
    using assms(3,5) out(1) by (auto simp: CheckTransactionInputs_def Let_def split: sum.splits if_splits)
  have ins: "t = ?ins" "0 \<le> t" "t \<le> MaxSatoshi" "\<forall>i \<in> set (tx_ins tx). spendable v (PreviousOutPoint i)"
    using checkIns_spec [OF t(1) order_refl m0] by auto
  have nonneg: "0 \<le> ?outs" using out(3) by (intro sum_list_nonneg) auto
  have fee: "fee = t - ?outs" "0 \<le> fee"
  proof -
    have "wrap64 (t - ?outs) = t - ?outs" using ins(3) t(2) nonneg by (intro wrap64_id) (auto simp: MaxSatoshi_def)
    then show "fee = t - ?outs" "0 \<le> fee" using t(2,3) by simp_all
  qed
  obtain v1 s1 where sp: "spendIns (tx_ins tx) v stxos = Ok (v1, s1)" "finite (dom v1)" "length s1 = length stxos + length (tx_ins tx)"
    "valueOf v1 = valueOf v - ?ins" "\<forall>q. spendable v1 q \<longleftrightarrow> spendable v q \<and> q \<notin> PreviousOutPoint ` set (tx_ins tx)"
    using spendIns_spec [OF assms(1) sane(2) ins(4), of stxos] by blast
  let ?v = "AddTxOuts tx ht v1"
  have "\<forall>k. 0 \<le> k \<and> k < 0 + length (tx_outs tx) \<longrightarrow> \<not> spendable v1 (tx_hash tx, of_nat k)"
    using assms(2) sp(5) by (auto simp: new_tx_def)
  from addOuts_spec [OF sp(2) this] sane(3) have add: "finite (dom ?v)"
    "valueOf ?v = valueOf v1 + sum_list (map Value (filter (\<lambda>out. \<not> IsUnspendable (PkScript out)) (tx_outs tx)))"
    "\<forall>q. fst q \<noteq> tx_hash tx \<longrightarrow> ?v q = v1 q"
    by (simp_all add: AddTxOuts_def)
  have split: "sum_list (map Value (filter (\<lambda>out. IsUnspendable (PkScript out)) xs)) +
      sum_list (map Value (filter (\<lambda>out. \<not> IsUnspendable (PkScript out)) xs)) = sum_list (map Value xs)" for xs
    by (induction xs) auto
  have gone: "\<not> spendable ?v (PreviousOutPoint i)" if i: "i \<in> set (tx_ins tx)" for i
  proof -
    have "fst (PreviousOutPoint i) \<noteq> tx_hash tx" using ins(4) i assms(2) by (metis new_tx_def prod.collapse)
    then have "?v (PreviousOutPoint i) = v1 (PreviousOutPoint i)" using add(3) by blast
    moreover have "\<not> spendable v1 (PreviousOutPoint i)" using sp(5) i by blast
    ultimately show ?thesis by (simp add: spendable_def)
  qed
  have "connectTransaction tx ht (v, stxos) = Ok (?v, s1)" using assms(3) sp(1) by (simp add: connectTransaction_def)
  with add fee sp(3,4) ins(1) split [of "tx_outs tx"] gone show ?thesis by (intro exI [of _ ?v] exI [of _ s1]) auto
qed

text \<open>C8: No coins from nothing.  A new transaction that is not a coinbase and passes the checks can be connected to the
  view; the value of all unspent outputs then falls by exactly its fee, computed in 64-bit arithmetic, and what it pays to
  unspendable outputs.  Neither of the two is negative, no output of the transaction is, and its outputs together are worth
  at most 21 million coins.\<close>

theorem transaction_conserves_value:
  assumes "finite (dom v)" and "new_tx tx v" and "\<not> IsCoinBase tx" and "CheckTransactionSanity tx = None"
    and "CheckTransactionInputs tx ht v p = Inr fee"
  shows "\<exists>v' stxos'. connectTransaction tx ht (v, stxos) = Ok (v', stxos') \<and> 0 \<le> fee \<and>
    0 \<le> sum_list (map Value (filter (\<lambda>out. IsUnspendable (PkScript out)) (tx_outs tx))) \<and>
    (\<forall>out \<in> set (tx_outs tx). 0 \<le> Value out) \<and> sum_list (map Value (tx_outs tx)) \<le> 21000000 * 100000000 \<and>
    valueOf v' + sum_list (map Value (filter (\<lambda>out. IsUnspendable (PkScript out)) (tx_outs tx))) + fee = valueOf v"
  using connect_spec [OF assms, of stxos] sane_values [OF assms(4)] unfolding MaxSatoshi_def by simp blast

text \<open>C19: No output is spent twice.  Once a transaction that passed the checks is connected, every other transaction with
  one of its inputs fails the input check.\<close>

theorem no_double_spend:
  assumes "finite (dom v)" and "new_tx tx v" and "\<not> IsCoinBase tx" and "CheckTransactionSanity tx = None"
    and "CheckTransactionInputs tx ht v p = Inr fee" and "connectTransaction tx ht (v, stxos) = Ok (v', stxos')"
    and "\<not> IsCoinBase tx'" and "i \<in> set (tx_ins tx)" and "j \<in> set (tx_ins tx')" and "PreviousOutPoint i = PreviousOutPoint j"
  shows "\<exists>e. CheckTransactionInputs tx' ht' v' p' = Inl e"
proof -
  have "\<not> spendable v' (PreviousOutPoint j)" using connect_spec [OF assms(1-5), of stxos] assms(6,8,10) by auto
  then obtain e where "checkIns ht' (CoinbaseMaturity p') (tx_ins tx') v' 0 = Inl e" using checkIns_missing assms(9) by blast
  with assms(7) show ?thesis by (simp add: CheckTransactionInputs_def)
qed

subsection \<open>Examples\<close>

definition demoPay :: MsgTx where
  "demoPay = \<lparr>tx_hash = [9], tx_ins = [\<lparr>PreviousOutPoint = ([7], 0), SignatureScript = [], Witness = [], Sequence = 0xffffffff\<rparr>],
    tx_outs = [\<lparr>Value = 60, PkScript = []\<rparr>, \<lparr>Value = 10, PkScript = [0x6a]\<rparr>], tx_version = 1, tx_lockTime = 0, tx_witnessHash = [9]\<rparr>"

definition demoView :: view where
  "demoView = [([7], 0) \<mapsto> \<lparr>amount = 100, pkScript = [], blockHeight = 3, ent_coinbase = True, ent_spent = False,
    ent_modified = False, ent_fresh = False\<rparr>]"

lemma demo_checks:
  "finite (dom demoView)" "new_tx demoPay demoView" "\<not> IsCoinBase demoPay" "CheckTransactionSanity demoPay = None"
  "CheckTransactionInputs demoPay 4 demoView MainNetParams = Inr 30" "IsUnspendable [0x6a]" "\<not> IsUnspendable []"
proof -
  show nc: "\<not> IsCoinBase demoPay" by (simp add: IsCoinBase_def demoPay_def)
  show "CheckTransactionSanity demoPay = None"
    using nc by (simp add: CheckTransactionSanity_def) (simp add: demoPay_def baseSize_def TxIn_SerializeSize_def
        TxOut_SerializeSize_def VarIntSerializeSize_def MaxSatoshi_def wrap64_def isNullOutpoint_def)
  show "CheckTransactionInputs demoPay 4 demoView MainNetParams = Inr 30"
    using nc by (simp add: CheckTransactionInputs_def)
      (simp add: demoPay_def demoView_def MainNetParams_def wrap64_def MaxSatoshi_def)
  show "finite (dom demoView)" "new_tx demoPay demoView"
    by (auto simp: demoView_def demoPay_def new_tx_def spendable_def)
  show "IsUnspendable [0x6a]" "\<not> IsUnspendable []" by (simp_all add: IsUnspendable_def)
qed

theorem transaction_conserves_value_witness:
  "\<exists>v' stxos'. connectTransaction demoPay 4 (demoView, []) = Ok (v', stxos') \<and> valueOf v' + 10 + 30 = valueOf demoView"
proof -
  have "sum_list (map Value (filter (\<lambda>out. IsUnspendable (PkScript out)) (tx_outs demoPay))) = 10"
    using demo_checks(6,7) by (simp add: demoPay_def)
  with transaction_conserves_value [OF demo_checks(1-5), of "[]"] show ?thesis by auto
qed

theorem no_double_spend_witness:
  "\<exists>v' stxos' e. connectTransaction demoPay 4 (demoView, []) = Ok (v', stxos') \<and>
     CheckTransactionInputs (demoPay\<lparr>tx_hash := [10]\<rparr>) 5 v' MainNetParams = Inl e"
proof -
  obtain v' s' where c: "connectTransaction demoPay 4 (demoView, []) = Ok (v', s')"
    using demo_checks by (auto simp: connectTransaction_def) (auto simp: demoPay_def demoView_def)
  have "\<not> IsCoinBase (demoPay\<lparr>tx_hash := [10]\<rparr>)" using demo_checks(3) by (simp add: IsCoinBase_def)
  from no_double_spend [OF demo_checks(1-5) c this, of "\<lparr>PreviousOutPoint = ([7], 0), SignatureScript = [], Witness = [], Sequence = 0xffffffff\<rparr>"
      "\<lparr>PreviousOutPoint = ([7], 0), SignatureScript = [], Witness = [], Sequence = 0xffffffff\<rparr>" 5 MainNetParams] c show ?thesis
    by (auto simp: demoPay_def)
qed

end
