(* ===== verification/Coin_Store.thy ===== *)
theory Coin_Store
  imports Coin_Ledger
begin

text \<open>
  What the coin node keeps in its database of the ledger (\<open>src/btcd/blockchain/chainio.go\<close>): the unspent outputs, by a key made
  of the transaction's hash and the output's index, and for every block of the main chain the outputs it spent, so that the
  block can be disconnected.  A bucket is a map from keys to values, both byte strings; that the database itself fails is not
  modelled.  As in the theory of the compressed outputs a function that writes into a slice returns the bytes it
  writes, and \<open>parse\<close> gives the uncompressed form of a public key.

  The lemmas show that the keys are unambiguous, that every output and every spend journal is read back as it was written,
  and that the two buckets obey the laws of a map.
\<close>

type_synonym bucket = "octets \<rightharpoonup> octets"

subsection \<open>The spend journal\<close>

definition headerCode :: "int \<Rightarrow> bool \<Rightarrow> 64 word" where
  "headerCode height isCoinBase = (let code = push_bit 1 (word_of_int height) in if isCoinBase then code OR 0x01 else code)"

definition spentTxOutHeaderCode :: "SpentTxOut \<Rightarrow> 64 word" where
  "spentTxOutHeaderCode stxo = headerCode (st_Height stxo) (st_IsCoinBase stxo)"

definition spentTxOutSerializeSize :: "(octets \<Rightarrow> octets option) \<Rightarrow> SpentTxOut \<Rightarrow> nat" where
  "spentTxOutSerializeSize parse stxo =
    serializeSizeVLQ (spentTxOutHeaderCode stxo) + (if st_Height stxo > 0 then serializeSizeVLQ 0 else 0) +
    compressedTxOutSize parse (word_of_int (st_Amount stxo)) (st_PkScript stxo)"

definition putSpentTxOut :: "(octets \<Rightarrow> octets option) \<Rightarrow> SpentTxOut \<Rightarrow> octets" where
  "putSpentTxOut parse stxo =
    putVLQ (spentTxOutHeaderCode stxo) @ (if st_Height stxo > 0 then putVLQ 0 else []) @
    putCompressedTxOut parse (word_of_int (st_Amount stxo)) (st_PkScript stxo)"

definition codeHeight :: "64 word \<Rightarrow> int" where
  "codeHeight code = sint (ucast (drop_bit 1 code) :: 32 word)"

definition codeCoinBase :: "64 word \<Rightarrow> bool" where
  "codeCoinBase code \<longleftrightarrow> code AND 0x01 \<noteq> 0"

text \<open>The bytes read and the output, or the error of the text.\<close>

definition decodeSpentTxOut :: "(octets \<Rightarrow> octets option) \<Rightarrow> octets \<Rightarrow> (nat \<times> SpentTxOut) outcome" where
  "decodeSpentTxOut parse serialized =
    (if length serialized = 0 then Err ''no serialized bytes''
     else case deserializeVLQ serialized of (code, offset) \<Rightarrow>
       if offset \<ge> length serialized then Err ''unexpected end of data after header code''
       else
         let offset' = (if codeHeight code > 0 then offset + snd (deserializeVLQ (drop offset serialized)) else offset) in
         if codeHeight code > 0 \<and> offset' \<ge> length serialized then Err ''unexpected end of data after reserved''
         else (case decodeCompressedTxOut parse (drop offset' serialized) of
             Ok (amt, script, bytesRead) \<Rightarrow> Ok (offset' + bytesRead,
               \<lparr>st_Amount = sint amt, st_PkScript = script, st_Height = codeHeight code, st_IsCoinBase = codeCoinBase code\<rparr>)
           | Err e \<Rightarrow> Err (''unable to decode txout: '' @ e)
           | Panic e \<Rightarrow> Panic e
           | Blocked \<Rightarrow> Blocked))"

definition serializeSpendJournalEntry :: "(octets \<Rightarrow> octets option) \<Rightarrow> SpentTxOut list \<Rightarrow> octets" where
  "serializeSpendJournalEntry parse stxos = concat (map (putSpentTxOut parse) (rev stxos))"

text \<open>The inputs from the last one on, filling the list from its end.\<close>

fun readStxos :: "(octets \<Rightarrow> octets option) \<Rightarrow> TxIn list \<Rightarrow> octets \<Rightarrow> SpentTxOut list \<Rightarrow> SpentTxOut list outcome" where
  "readStxos parse [] serialized stxos = Ok stxos"
| "readStxos parse (i # is) serialized stxos = (case decodeSpentTxOut parse serialized of
      Ok (n, stxo) \<Rightarrow> readStxos parse is (drop n serialized) (stxo # stxos)
    | Err e \<Rightarrow> Err (''unable to decode stxo: '' @ e)
    | Panic e \<Rightarrow> Panic e
    | Blocked \<Rightarrow> Blocked)"

definition deserializeSpendJournalEntry :: "(octets \<Rightarrow> octets option) \<Rightarrow> octets \<Rightarrow> MsgTx list \<Rightarrow> SpentTxOut list outcome" where
  "deserializeSpendJournalEntry parse serialized txns =
    (let numStxos = sum_list (map (length \<circ> tx_ins) txns) in
     if length serialized = 0 then
       (if numStxos \<noteq> 0 then Err ''mismatched spend journal serialization'' else Ok [])
     else readStxos parse (concat (map (rev \<circ> tx_ins) (rev txns))) serialized [])"

definition dbFetchSpendJournalEntry :: "(octets \<Rightarrow> octets option) \<Rightarrow> bucket \<Rightarrow> octets \<Rightarrow> MsgTx list \<Rightarrow> SpentTxOut list outcome" where
  "dbFetchSpendJournalEntry parse spendBucket blockHash transactions =
    (let serialized = (case spendBucket blockHash of None \<Rightarrow> [] | Some bs \<Rightarrow> bs) in
     if transactions = [] then Panic ''slice bounds out of range''
     else deserializeSpendJournalEntry parse serialized (tl transactions))"

definition dbPutSpendJournalEntry :: "(octets \<Rightarrow> octets option) \<Rightarrow> octets \<Rightarrow> SpentTxOut list \<Rightarrow> bucket \<Rightarrow> bucket" where
  "dbPutSpendJournalEntry parse blockHash stxos spendBucket = spendBucket(blockHash \<mapsto> serializeSpendJournalEntry parse stxos)"

definition dbRemoveSpendJournalEntry :: "octets \<Rightarrow> bucket \<Rightarrow> bucket" where
  "dbRemoveSpendJournalEntry blockHash spendBucket = spendBucket(blockHash := None)"

definition dbPruneSpendJournalEntry :: "octets list \<Rightarrow> bucket \<Rightarrow> bucket" where
  "dbPruneSpendJournalEntry blockHashes spendBucket = fold (\<lambda>h b. b(h := None)) blockHashes spendBucket"

subsection \<open>The unspent outputs\<close>

definition outpointKey :: "outpoint \<Rightarrow> octets" where
  "outpointKey outpoint = fst outpoint @ putVLQ (ucast (snd outpoint))"

definition utxoEntryHeaderCode :: "UtxoEntry \<Rightarrow> 64 word outcome" where
  "utxoEntryHeaderCode entry =
    (if ent_spent entry then Err ''attempt to serialize spent utxo header''
     else Ok (headerCode (blockHeight entry) (ent_coinbase entry)))"

definition serializeUtxoEntry :: "(octets \<Rightarrow> octets option) \<Rightarrow> UtxoEntry \<Rightarrow> octets outcome" where
  "serializeUtxoEntry parse entry =
    (if ent_spent entry then Ok []
     else map_outcome (\<lambda>code. putVLQ code @ putCompressedTxOut parse (word_of_int (amount entry)) (pkScript entry))
       (utxoEntryHeaderCode entry))"

definition deserializeUtxoEntry :: "(octets \<Rightarrow> octets option) \<Rightarrow> octets \<Rightarrow> UtxoEntry outcome" where
  "deserializeUtxoEntry parse serialized = (case deserializeVLQ serialized of (code, offset) \<Rightarrow>
     if offset \<ge> length serialized then Err ''unexpected end of data after header''
     else (case decodeCompressedTxOut parse (drop offset serialized) of
         Ok (amt, script, bytesRead) \<Rightarrow> Ok \<lparr>amount = sint amt, pkScript = script, blockHeight = codeHeight code,
           ent_coinbase = codeCoinBase code, ent_spent = False, ent_modified = False, ent_fresh = False\<rparr>
       | Err e \<Rightarrow> Err (''unable to decode utxo: '' @ e)
       | Panic e \<Rightarrow> Panic e
       | Blocked \<Rightarrow> Blocked))"

definition dbFetchUtxoEntry :: "(octets \<Rightarrow> octets option) \<Rightarrow> bucket \<Rightarrow> outpoint \<Rightarrow> UtxoEntry option outcome" where
  "dbFetchUtxoEntry parse utxoBucket outpoint = (case utxoBucket (outpointKey outpoint) of
      None \<Rightarrow> Ok None
    | Some serializedUtxo \<Rightarrow>
        if length serializedUtxo = 0 then Err ''database contains entry for spent tx output''
        else map_outcome Some (deserializeUtxoEntry parse serializedUtxo))"

definition dbDeleteUtxoEntry :: "outpoint \<Rightarrow> bucket \<Rightarrow> bucket" where
  "dbDeleteUtxoEntry outpoint utxoBucket = utxoBucket(outpointKey outpoint := None)"

definition dbPutUtxoEntry :: "(octets \<Rightarrow> octets option) \<Rightarrow> outpoint \<Rightarrow> UtxoEntry option \<Rightarrow> bucket \<Rightarrow> bucket outcome" where
  "dbPutUtxoEntry parse outpoint entry utxoBucket = (case entry of
      None \<Rightarrow> Err ''trying to store nil or spent entry''
    | Some e \<Rightarrow>
        if ent_spent e then Err ''trying to store nil or spent entry''
        else map_outcome (\<lambda>bs. utxoBucket(outpointKey outpoint \<mapsto> bs)) (serializeUtxoEntry parse e))"

text \<open>The entries of a view, in the order the map is ranged over.\<close>

fun dbPutUtxoView :: "(octets \<Rightarrow> octets option) \<Rightarrow> (outpoint \<times> UtxoEntry option) list \<Rightarrow> bucket \<Rightarrow> bucket outcome" where
  "dbPutUtxoView parse [] utxoBucket = Ok utxoBucket"
| "dbPutUtxoView parse ((outpoint, entry) # es) utxoBucket = (case entry of
      None \<Rightarrow> dbPutUtxoView parse es utxoBucket
    | Some e \<Rightarrow>
        if \<not> ent_modified e then dbPutUtxoView parse es utxoBucket
        else if ent_spent e then dbPutUtxoView parse es (dbDeleteUtxoEntry outpoint utxoBucket)
        else (case dbPutUtxoEntry parse outpoint entry utxoBucket of
            Ok b \<Rightarrow> dbPutUtxoView parse es b
          | r \<Rightarrow> r))"

subsection \<open>Round trips\<close>

lemma sint_word32: "- (2 ^ 31) \<le> h \<Longrightarrow> h < 2 ^ 31 \<Longrightarrow> sint (word_of_int h :: 32 word) = h"
  by (simp add: sint_sbintrunc' signed_take_bit_int_eq_self)

lemma sint_word64: "- (2 ^ 63) \<le> a \<Longrightarrow> a < 2 ^ 63 \<Longrightarrow> sint (word_of_int a :: 64 word) = a"
  by (simp add: sint_sbintrunc' signed_take_bit_int_eq_self)

lemma header_code:
  assumes "0 \<le> h" and "h < 2 ^ 31"
  shows "codeHeight (headerCode h cb) = h" and "codeCoinBase (headerCode h cb) = cb"
proof -
  let ?c = "if cb then 0x01 else 0 :: 64 word"
  have c: "headerCode h cb = push_bit 1 (word_of_int h) OR ?c" by (simp add: headerCode_def Let_def)
  have "ucast (drop_bit 1 (headerCode h cb)) = (word_of_int h :: 32 word)"
  proof (rule bit_word_eqI)
    fix n assume n: "n < LENGTH(32)"
    have "bit (ucast (drop_bit 1 (headerCode h cb)) :: 32 word) n = bit (headerCode h cb) (1 + n)"
      using n by (simp add: bit_ucast_iff bit_drop_bit_eq)
    also have "\<dots> = bit (word_of_int h :: 64 word) n"
      using n unfolding c bit_or_iff bit_push_bit_iff by (auto simp: bit_1_iff possible_bit_word)
    finally show "bit (ucast (drop_bit 1 (headerCode h cb)) :: 32 word) n = bit (word_of_int h :: 32 word) n"
      using n by (simp add: bit_word_of_int_iff)
  qed
  then show "codeHeight (headerCode h cb) = h" using assms by (simp only: codeHeight_def sint_word32)
  have "bit (headerCode h cb) 0 = cb" unfolding c bit_or_iff bit_push_bit_iff by (auto simp: bit_1_iff)
  moreover have "headerCode h cb AND 0x01 = of_bool (bit (headerCode h cb) 0)"
    by (simp add: and_one_eq mod_2_eq_odd bit_0)
  ultimately show "codeCoinBase (headerCode h cb) = cb" by (simp add: codeCoinBase_def)
qed

text \<open>What the database can store: a height of the chain, an amount below the bound of the compression, a script of
  a length that fits.\<close>

definition storable :: "int \<Rightarrow> octets \<Rightarrow> int \<Rightarrow> bool" where
  "storable amt script height \<longleftrightarrow> 0 \<le> amt \<and> amt < 2 ^ 60 \<and> length script < 2 ^ 32 \<and> 0 \<le> height \<and> height < 2 ^ 31"

lemma amount_word: "storable a s h \<Longrightarrow> (word_of_int a :: 64 word) < 2 ^ 60 \<and> sint (word_of_int a :: 64 word) = a"
  by (auto simp: storable_def word_less_alt uint_word_of_int take_bit_int_eq_self sint_word64)

lemma length_putSpentTxOut:
  "key_laws parse \<Longrightarrow> storable (st_Amount t) (st_PkScript t) (st_Height t) \<Longrightarrow>
   length (putSpentTxOut parse t) = spentTxOutSerializeSize parse t"
  using compressed_txout [of parse "word_of_int (st_Amount t)" "st_PkScript t"] amount_word [of "st_Amount t"]
  by (auto simp: putSpentTxOut_def spentTxOutSerializeSize_def storable_def)

lemma putCompressedTxOut_nonempty: "putCompressedTxOut parse a s \<noteq> []"
  by (metis append_is_Nil_conv length_0_conv length_putVLQ putCompressedTxOut_def serializeSizeVLQ.simps
      add_is_0 one_neq_zero)

lemma decode_put:
  assumes "key_laws parse" and "storable (st_Amount t) (st_PkScript t) (st_Height t)"
  shows "decodeSpentTxOut parse (putSpentTxOut parse t @ rest) = Ok (length (putSpentTxOut parse t), t)"
proof -
  let ?code = "spentTxOutHeaderCode t" and ?out = "putCompressedTxOut parse (word_of_int (st_Amount t)) (st_PkScript t)"
  let ?res = "if st_Height t > 0 then putVLQ 0 else []"
  let ?bs = "putSpentTxOut parse t @ rest"
  have bs: "?bs = putVLQ ?code @ ?res @ ?out @ rest" by (simp add: putSpentTxOut_def)
  have ne: "?out \<noteq> []" by (rule putCompressedTxOut_nonempty)
  have h: "codeHeight ?code = st_Height t" "codeCoinBase ?code = st_IsCoinBase t"
    using assms(2) header_code by (simp_all add: spentTxOutHeaderCode_def storable_def)
  have v: "deserializeVLQ ?bs = (?code, serializeSizeVLQ ?code)" unfolding bs by (rule vlq_roundtrip)
  have d: "drop (serializeSizeVLQ ?code) ?bs = ?res @ ?out @ rest" unfolding bs by simp
  have off: "(if codeHeight ?code > 0 then serializeSizeVLQ ?code + snd (deserializeVLQ (drop (serializeSizeVLQ ?code) ?bs))
      else serializeSizeVLQ ?code) = length (putVLQ ?code @ ?res)"
    unfolding d h by (simp add: vlq_roundtrip)
  have d2: "drop (length (putVLQ ?code @ ?res)) ?bs = ?out @ rest" unfolding bs by (auto simp del: length_putVLQ)
  have out: "decodeCompressedTxOut parse (?out @ rest) = Ok (word_of_int (st_Amount t), st_PkScript t, length ?out)"
    using compressed_txout [OF assms(1), of "word_of_int (st_Amount t)" "st_PkScript t" rest] amount_word [OF assms(2)] assms(2)
    by (simp add: storable_def)
  have lt: "length (putVLQ ?code @ ?res) < length ?bs" "serializeSizeVLQ ?code < length ?bs" "length ?bs \<noteq> 0"
    using ne unfolding bs by auto
  have "decodeSpentTxOut parse ?bs = Ok (length (putVLQ ?code @ ?res) + length ?out, t)"
    unfolding decodeSpentTxOut_def v prod.case Let_def off d2 out
    using lt h amount_word [OF assms(2)] by (simp del: length_append)
  then show ?thesis by (simp add: putSpentTxOut_def)
qed

lemma readStxos_put:
  "key_laws parse \<Longrightarrow> \<forall>t \<in> set ts. storable (st_Amount t) (st_PkScript t) (st_Height t) \<Longrightarrow> length is = length ts \<Longrightarrow>
   readStxos parse is (concat (map (putSpentTxOut parse) ts) @ rest) acc = Ok (rev ts @ acc)"
  by (induction ts arbitrary: "is" acc) (auto simp: decode_put length_Suc_conv)

lemma journal_roundtrip:
  assumes "key_laws parse" and "\<forall>t \<in> set ts. storable (st_Amount t) (st_PkScript t) (st_Height t)"
    and "length ts = sum_list (map (length \<circ> tx_ins) txns)"
  shows "deserializeSpendJournalEntry parse (serializeSpendJournalEntry parse ts) txns = Ok ts"
proof (cases "ts = []")
  case True
  then show ?thesis using assms(3) by (simp add: deserializeSpendJournalEntry_def serializeSpendJournalEntry_def)
next
  case False
  have "putSpentTxOut parse t \<noteq> []" for t using putCompressedTxOut_nonempty by (simp add: putSpentTxOut_def)
  then have ne: "serializeSpendJournalEntry parse ts \<noteq> []"
    using False by (cases ts rule: rev_cases) (simp_all add: serializeSpendJournalEntry_def)
  have n0: "length (serializeSpendJournalEntry parse ts) \<noteq> 0" using ne by (simp only: length_0_conv not_False_eq_True)
  have len: "length (concat (map (rev \<circ> tx_ins) (rev txns))) = length (rev ts)"
    unfolding length_rev assms(3) by (induction txns) simp_all
  have "readStxos parse (concat (map (rev \<circ> tx_ins) (rev txns))) (concat (map (putSpentTxOut parse) (rev ts)) @ []) [] = Ok (rev (rev ts) @ [])"
    using assms(2) by (intro readStxos_put [OF assms(1) _ len]) simp
  then show ?thesis unfolding deserializeSpendJournalEntry_def Let_def if_not_P [OF n0]
    by (simp add: serializeSpendJournalEntry_def)
qed

lemma decode_utxo:
  assumes "key_laws parse" and "storable (amount e) (pkScript e) (blockHeight e)" and "\<not> ent_spent e"
  shows "\<exists>bs. serializeUtxoEntry parse e = Ok bs \<and> bs \<noteq> [] \<and>
    deserializeUtxoEntry parse bs = Ok (e\<lparr>ent_modified := False, ent_fresh := False\<rparr>)"
proof -
  let ?code = "headerCode (blockHeight e) (ent_coinbase e)" and ?out = "putCompressedTxOut parse (word_of_int (amount e)) (pkScript e)"
  have ne: "?out \<noteq> []" by (rule putCompressedTxOut_nonempty)
  have ser: "serializeUtxoEntry parse e = Ok (putVLQ ?code @ ?out)"
    using assms(3) by (simp add: serializeUtxoEntry_def utxoEntryHeaderCode_def)
  have h: "codeHeight ?code = blockHeight e" "codeCoinBase ?code = ent_coinbase e"
    using assms(2) header_code by (simp_all add: storable_def)
  have out: "decodeCompressedTxOut parse ?out = Ok (word_of_int (amount e), pkScript e, length ?out)"
    using compressed_txout [OF assms(1), of "word_of_int (amount e)" "pkScript e" "[]"] amount_word [OF assms(2)] assms(2)
    by (simp add: storable_def)
  have "deserializeUtxoEntry parse (putVLQ ?code @ ?out) = Ok (e\<lparr>ent_modified := False, ent_fresh := False\<rparr>)"
    using ne assms(3) amount_word [OF assms(2)] by (simp add: deserializeUtxoEntry_def vlq_roundtrip out h)
  with ser ne show ?thesis by simp
qed

lemma outpointKey_inject:
  assumes "length (fst p) = 32" and "length (fst q) = 32"
  shows "outpointKey p = outpointKey q \<longleftrightarrow> p = q"
proof
  assume "outpointKey p = outpointKey q"
  then have eq: "fst p = fst q" "putVLQ (ucast (snd p)) = putVLQ (ucast (snd q))"
    using assms by (simp_all add: outpointKey_def)
  from eq(2) have "deserializeVLQ (putVLQ (ucast (snd p)) @ []) = deserializeVLQ (putVLQ (ucast (snd q)) @ [])" by simp
  then have "(ucast (snd p) :: 64 word) = ucast (snd q)" unfolding vlq_roundtrip by simp
  then have "snd p = snd q"
  proof (intro bit_word_eqI)
    fix n assume same: "(ucast (snd p) :: 64 word) = ucast (snd q)" and n: "n < LENGTH(32)"
    from same have "bit (ucast (snd p) :: 64 word) n = bit (ucast (snd q) :: 64 word) n" by simp
    with n show "bit (snd p) n = bit (snd q) n" by (simp add: bit_ucast_iff)
  qed
  with eq(1) show "p = q" by (simp add: prod_eq_iff)
qed simp

subsection \<open>The bucket of unspent outputs is a map\<close>

text \<open>The outputs that a way to fetch them gives for the well-formed outpoints, and that it never fails on those.\<close>

definition fetched :: "(outpoint \<Rightarrow> UtxoEntry option outcome) \<Rightarrow> view" where
  "fetched fetch p = (if length (fst p) = 32 then (case fetch p of Ok r \<Rightarrow> r | _ \<Rightarrow> None) else None)"

definition sound :: "(outpoint \<Rightarrow> UtxoEntry option outcome) \<Rightarrow> bool" where
  "sound fetch \<longleftrightarrow> (\<forall>p. length (fst p) = 32 \<longrightarrow> (\<exists>r. fetch p = Ok r))"

text \<open>What the clients of the bucket rely on: reading after writing and after deleting, on the outpoints of 32-byte hashes
  and the outputs that can be stored.\<close>

locale coin_bucket =
  fixes fetch :: "'b \<Rightarrow> outpoint \<Rightarrow> UtxoEntry option outcome"
    and store :: "outpoint \<Rightarrow> UtxoEntry \<Rightarrow> 'b \<Rightarrow> 'b outcome"
    and delete :: "outpoint \<Rightarrow> 'b \<Rightarrow> 'b"
    and good :: "UtxoEntry \<Rightarrow> bool"
  assumes fetch_store: "good e \<Longrightarrow> \<not> ent_spent e \<Longrightarrow> length (fst p) = 32 \<Longrightarrow>
      \<exists>b'. store p e b = Ok b' \<and> fetch b' p = Ok (Some (e\<lparr>ent_modified := False, ent_fresh := False\<rparr>)) \<and>
        (\<forall>q. length (fst q) = 32 \<and> q \<noteq> p \<longrightarrow> fetch b' q = fetch b q)"
    and fetch_delete: "length (fst p) = 32 \<Longrightarrow> length (fst q) = 32 \<Longrightarrow> fetch (delete p b) q = (if q = p then Ok None else fetch b q)"
begin

lemma sound_store: "sound (fetch b) \<Longrightarrow> good e \<Longrightarrow> \<not> ent_spent e \<Longrightarrow> length (fst p) = 32 \<Longrightarrow>
  \<exists>b'. store p e b = Ok b' \<and> sound (fetch b') \<and> fetched (fetch b') = (fetched (fetch b))(p \<mapsto> e\<lparr>ent_modified := False, ent_fresh := False\<rparr>)"
proof -
  assume a: "sound (fetch b)" "good e" "\<not> ent_spent e" "length (fst p) = 32"
  obtain b' where b: "store p e b = Ok b'" "fetch b' p = Ok (Some (e\<lparr>ent_modified := False, ent_fresh := False\<rparr>))"
    "\<And>q. length (fst q) = 32 \<Longrightarrow> q \<noteq> p \<Longrightarrow> fetch b' q = fetch b q"
    using fetch_store [OF a(2-4), of b] by blast
  have "sound (fetch b')" using a(1) b(2,3) unfolding sound_def by (metis (no_types, lifting))
  moreover have "fetched (fetch b') q = ((fetched (fetch b))(p \<mapsto> e\<lparr>ent_modified := False, ent_fresh := False\<rparr>)) q" for q
    using a(4) b(2) b(3) [of q] by (auto simp: fetched_def)
  ultimately show ?thesis using b(1) by (intro exI [of _ b'] conjI ext)
qed

lemma sound_delete: "sound (fetch b) \<Longrightarrow> length (fst p) = 32 \<Longrightarrow> sound (fetch (delete p b)) \<and> fetched (fetch (delete p b)) = (fetched (fetch b))(p := None)"
  by (auto simp: sound_def fetched_def fetch_delete)

end

lemma fetch_put:
  assumes "key_laws parse" and "storable (amount e) (pkScript e) (blockHeight e)" and "\<not> ent_spent e" and "length (fst p) = 32"
  shows "\<exists>b'. dbPutUtxoEntry parse p (Some e) b = Ok b' \<and>
    dbFetchUtxoEntry parse b' p = Ok (Some (e\<lparr>ent_modified := False, ent_fresh := False\<rparr>)) \<and>
    (\<forall>q. length (fst q) = 32 \<and> q \<noteq> p \<longrightarrow> dbFetchUtxoEntry parse b' q = dbFetchUtxoEntry parse b q)"
proof -
  obtain bs where bs: "serializeUtxoEntry parse e = Ok bs" "bs \<noteq> []"
    "deserializeUtxoEntry parse bs = Ok (e\<lparr>ent_modified := False, ent_fresh := False\<rparr>)"
    using decode_utxo [OF assms(1-3)] by blast
  then show ?thesis using assms(3,4) outpointKey_inject [of _ p]
    by (auto simp: dbPutUtxoEntry_def dbFetchUtxoEntry_def)
qed

lemma fetch_del: "length (fst p) = 32 \<Longrightarrow> length (fst q) = 32 \<Longrightarrow>
  dbFetchUtxoEntry parse (dbDeleteUtxoEntry p b) q = (if q = p then Ok None else dbFetchUtxoEntry parse b q)"
  using outpointKey_inject [of p q] by (auto simp: dbFetchUtxoEntry_def dbDeleteUtxoEntry_def)

text \<open>The parsers of public keys that the laws of the library hold for, and what the node's bucket can store with one.\<close>

definition good_entry :: "(octets \<Rightarrow> octets option) \<Rightarrow> UtxoEntry \<Rightarrow> bool" where
  "good_entry parse e \<longleftrightarrow> key_laws parse \<and> storable (amount e) (pkScript e) (blockHeight e)"

interpretation coins: coin_bucket "dbFetchUtxoEntry parse" "\<lambda>p e. dbPutUtxoEntry parse p (Some e)" dbDeleteUtxoEntry "good_entry parse" for parse
proof (unfold_locales, goal_cases)
  case (1 e p b)
  then show ?case using fetch_put [of parse e p b] by (auto simp: good_entry_def)
next
  case (2 p q b)
  then show ?case by (rule fetch_del)
qed

text \<open>C24: The ledger survives the database.  Whatever else the bucket of unspent outputs holds, an unspent output written under
  its outpoint (a 32-byte hash and an index) is read back with its amount, script, height and coinbase flag, no longer
  modified or fresh, and every other outpoint reads as before: no two outpoints share a key.  Under the laws of the
  public key library, for amounts below \<open>2 ^ 60\<close> and heights below \<open>2 ^ 31\<close>.\<close>

theorem utxo_entry_roundtrip:
  assumes "key_laws parse" and "storable (amount e) (pkScript e) (blockHeight e)" and "\<not> ent_spent e" and "length (fst p) = 32"
  shows "\<exists>b'. dbPutUtxoEntry parse p (Some e) b = Ok b' \<and>
    dbFetchUtxoEntry parse b' p = Ok (Some (e\<lparr>ent_modified := False, ent_fresh := False\<rparr>)) \<and>
    (\<forall>q. length (fst q) = 32 \<and> q \<noteq> p \<longrightarrow> dbFetchUtxoEntry parse b' q = dbFetchUtxoEntry parse b q)"
  using assms by (rule fetch_put)

text \<open>C23: The spend journal survives the database.  The journal written when a block is connected, with one spent output for
  every input after the coinbase, is read back unchanged, in order, from the block's transactions, although it is
  stored backwards and says nowhere how many outputs it has.\<close>

theorem spend_journal_roundtrip:
  assumes "key_laws parse" and "\<forall>t \<in> set stxos. storable (st_Amount t) (st_PkScript t) (st_Height t)"
    and "txns \<noteq> []" and "length stxos = sum_list (map (length \<circ> tx_ins) (tl txns))"
  shows "dbFetchSpendJournalEntry parse (dbPutSpendJournalEntry parse h stxos b) h txns = Ok stxos"
  using journal_roundtrip [OF assms(1,2,4)] assms(3)
  by (simp add: dbFetchSpendJournalEntry_def dbPutSpendJournalEntry_def)

definition demoEntry :: UtxoEntry where
  "demoEntry = \<lparr>amount = 5000000000, pkScript = [0x51], blockHeight = 9, ent_coinbase = True, ent_spent = False,
    ent_modified = True, ent_fresh = True\<rparr>"

theorem utxo_entry_roundtrip_witness:
  "\<exists>b'. dbPutUtxoEntry oneKey (zeroHash, 3) (Some demoEntry) Map.empty = Ok b' \<and>
    dbFetchUtxoEntry oneKey b' (zeroHash, 3) = Ok (Some (demoEntry\<lparr>ent_modified := False, ent_fresh := False\<rparr>))"
proof -
  have "storable (amount demoEntry) (pkScript demoEntry) (blockHeight demoEntry)" "\<not> ent_spent demoEntry"
    "length (fst (zeroHash, 3 :: 32 word)) = 32" by (simp_all add: demoEntry_def storable_def zeroHash_def)
  from utxo_entry_roundtrip [OF oneKey_laws this, of Map.empty] show ?thesis by blast
qed

theorem spend_journal_roundtrip_witness:
  "dbFetchSpendJournalEntry oneKey (dbPutSpendJournalEntry oneKey [1]
     [\<lparr>st_Amount = 100, st_PkScript = [0x51], st_Height = 7, st_IsCoinBase = True\<rparr>] Map.empty) [1] [demoPay, demoPay] =
   Ok [\<lparr>st_Amount = 100, st_PkScript = [0x51], st_Height = 7, st_IsCoinBase = True\<rparr>]"
  by (rule spend_journal_roundtrip [OF oneKey_laws]) (simp_all add: storable_def demoPay_def)

end
