(* ===== verification/Coin_Merkle.thy ===== *)
theory Coin_Merkle
  imports Coin_Ledger
begin

text \<open>
  Merkle trees of the transactions of a block (\<open>src/btcd/blockchain/merkle.go\<close>, \<open>rolling_merkle.go\<close>) and the witness commitment.
  The double SHA-256 is the parameter \<open>dsha\<close>.  A nil hash of the linear tree is \<open>None\<close>.  The logarithm that \<open>nextPowerOfTwo\<close>
  takes in floating point is exact for the number of transactions of any block.

  The lemmas show that both computations, the tree stored in a linear array and the rolling computation that keeps only a
  logarithmic number of roots, give the root that the definition of the tree gives, and what an accepted witness
  commitment commits to.
\<close>

subsection \<open>The linear tree\<close>

fun log2floor :: "nat \<Rightarrow> nat" where
  "log2floor n = (if n < 2 then 0 else Suc (log2floor (n div 2)))"

declare log2floor.simps [simp del]

definition nextPowerOfTwo :: "nat \<Rightarrow> nat" where
  "nextPowerOfTwo n = (if n AND (n - 1) = 0 then n else push_bit (log2floor n + 1) 1)"

definition HashMerkleBranches :: "(octets \<Rightarrow> octets) \<Rightarrow> octets \<Rightarrow> octets \<Rightarrow> octets" where
  "HashMerkleBranches dsha l r = dsha (l @ r)"

definition leafHash :: "bool \<Rightarrow> nat \<Rightarrow> MsgTx \<Rightarrow> octets" where
  "leafHash witness i tx =
    (if witness \<and> i = 0 then zeroHash else if witness then tx_witnessHash tx else tx_hash tx)"

definition leaves :: "bool \<Rightarrow> MsgTx list \<Rightarrow> octets list" where
  "leaves witness txs = map (\<lambda>(i, tx). leafHash witness i tx) (enumerate 0 txs)"

definition parentHash :: "(octets \<Rightarrow> octets) \<Rightarrow> octets option \<Rightarrow> octets option \<Rightarrow> octets option" where
  "parentHash dsha l r = (case l of
      None \<Rightarrow> None
    | Some x \<Rightarrow> (case r of
        None \<Rightarrow> Some (HashMerkleBranches dsha x x)
      | Some y \<Rightarrow> Some (HashMerkleBranches dsha x y)))"

function buildLoop :: "(octets \<Rightarrow> octets) \<Rightarrow> nat \<Rightarrow> nat \<Rightarrow> octets option list \<Rightarrow> octets option list" where
  "buildLoop dsha i offset merkles =
    (if i + 1 < length merkles
     then buildLoop dsha (i + 2) (offset + 1) (merkles[offset := parentHash dsha (merkles ! i) (merkles ! (i + 1))])
     else merkles)"
  by pat_completeness auto
termination by (relation "measure (\<lambda>(d, i, offset, ms). length ms - i)") auto

declare buildLoop.simps [simp del]

definition BuildMerkleTreeStore :: "(octets \<Rightarrow> octets) \<Rightarrow> MsgTx list \<Rightarrow> bool \<Rightarrow> octets option list outcome" where
  "BuildMerkleTreeStore dsha transactions witness =
    (let nextPoT = nextPowerOfTwo (length transactions); arraySize = int nextPoT * 2 - 1 in
     if arraySize < 0 then Panic ''makeslice: len out of range''
     else
       let base = map Some (leaves witness transactions) in
       Ok (buildLoop dsha 0 nextPoT (base @ replicate (nat arraySize - length base) None)))"

subsection \<open>The rolling computation\<close>

record rollingMerkleTreeStore =
  roots :: "octets list"
  numLeaves :: "64 word"

definition newRollingMerkleTreeStore :: rollingMerkleTreeStore where
  "newRollingMerkleTreeStore = \<lparr>roots = [], numLeaves = 0\<rparr>"

function addLoop :: "(octets \<Rightarrow> octets) \<Rightarrow> nat \<Rightarrow> 64 word \<Rightarrow> octets list \<Rightarrow> octets \<Rightarrow> octets list outcome" where
  "addLoop dsha h n rs newRoot =
    (if bit n h
     then if rs = [] then Panic ''index out of range''
          else addLoop dsha (Suc h) n (butlast rs) (HashMerkleBranches dsha (last rs) newRoot)
     else Ok (rs @ [newRoot]))"
  by pat_completeness auto
termination
  by (relation "measure (\<lambda>(d, h, n, rs, x). 64 - h)") (auto dest: bit_imp_le_length)

declare addLoop.simps [simp del]

definition rm_add :: "(octets \<Rightarrow> octets) \<Rightarrow> octets \<Rightarrow> rollingMerkleTreeStore \<Rightarrow> rollingMerkleTreeStore outcome" where
  "rm_add dsha x s = (case addLoop dsha 0 (numLeaves s) (roots s) x of
      Ok rs \<Rightarrow> Ok \<lparr>roots = rs, numLeaves = numLeaves s + 1\<rparr>
    | Err e \<Rightarrow> Err e | Panic e \<Rightarrow> Panic e | Blocked \<Rightarrow> Blocked)"

fun addAll :: "(octets \<Rightarrow> octets) \<Rightarrow> octets list \<Rightarrow> rollingMerkleTreeStore \<Rightarrow> rollingMerkleTreeStore outcome" where
  "addAll dsha [] s = Ok s"
| "addAll dsha (x # xs) s = (case rm_add dsha x s of Ok s' \<Rightarrow> addAll dsha xs s' | r \<Rightarrow> r)"

partial_function (option) shiftLoop :: "64 word \<Rightarrow> nat \<Rightarrow> 64 word \<Rightarrow> 64 word option" where
  "shiftLoop currentLeaves h n =
    (if bit currentLeaves h then Some n else shiftLoop currentLeaves (Suc h) (drop_bit 1 n))"

partial_function (option) climb :: "(octets \<Rightarrow> octets) \<Rightarrow> rollingMerkleTreeStore \<Rightarrow> rollingMerkleTreeStore outcome option" where
  "climb dsha s =
    (if length (roots s) > 1
     then case shiftLoop (numLeaves s) 0 (numLeaves s) of
         None \<Rightarrow> None
       | Some n \<Rightarrow> (case rm_add dsha (last (roots s)) (s\<lparr>numLeaves := n\<rparr>) of
             Ok s' \<Rightarrow> climb dsha s'
           | Err e \<Rightarrow> Some (Err e) | Panic e \<Rightarrow> Some (Panic e) | Blocked \<Rightarrow> Some Blocked)
     else Some (Ok s))"

definition firstRoot :: "rollingMerkleTreeStore \<Rightarrow> octets outcome" where
  "firstRoot s = (if roots s = [] then Panic ''index out of range'' else Ok (roots s ! 0))"

definition calcMerkleRoot :: "(octets \<Rightarrow> octets) \<Rightarrow> MsgTx list \<Rightarrow> bool \<Rightarrow> rollingMerkleTreeStore \<Rightarrow> octets outcome option" where
  "calcMerkleRoot dsha adds witness s = (case addAll dsha (leaves witness adds) s of
      Ok s1 \<Rightarrow>
        if numLeaves s1 = 1 then Some (firstRoot s1)
        else (case (if length adds > 0 \<and> length adds mod 2 \<noteq> 0
                    then rm_add dsha (if witness then tx_witnessHash (last adds) else tx_hash (last adds)) s1 else Ok s1) of
            Ok s2 \<Rightarrow> (case climb dsha s2 of
                None \<Rightarrow> None
              | Some (Ok s3) \<Rightarrow> Some (firstRoot s3)
              | Some (Err e) \<Rightarrow> Some (Err e) | Some (Panic e) \<Rightarrow> Some (Panic e) | Some Blocked \<Rightarrow> Some Blocked)
          | Err e \<Rightarrow> Some (Err e) | Panic e \<Rightarrow> Some (Panic e) | Blocked \<Rightarrow> Some Blocked)
    | Err e \<Rightarrow> Some (Err e) | Panic e \<Rightarrow> Some (Panic e) | Blocked \<Rightarrow> Some Blocked)"

definition CalcMerkleRoot :: "(octets \<Rightarrow> octets) \<Rightarrow> MsgTx list \<Rightarrow> bool \<Rightarrow> octets outcome option" where
  "CalcMerkleRoot dsha transactions witness = calcMerkleRoot dsha transactions witness newRollingMerkleTreeStore"

subsection \<open>The witness commitment\<close>

definition WitnessMagicBytes :: octets where
  "WitnessMagicBytes = [0x6a, 0x24, 0xaa, 0x21, 0xa9, 0xed]"

fun findCommitment :: "TxOut list \<Rightarrow> octets option" where
  "findCommitment [] = None"
| "findCommitment (out # outs) =
    (if length (PkScript out) \<ge> 38 \<and> take 6 (PkScript out) = WitnessMagicBytes then Some (take 32 (drop 6 (PkScript out)))
     else findCommitment outs)"

definition ExtractWitnessCommitment :: "MsgTx \<Rightarrow> octets option" where
  "ExtractWitnessCommitment tx = (if \<not> IsCoinBase tx then None else findCommitment (rev (tx_outs tx)))"

datatype commitment_error = NoTransactions | NoInputs | UnexpectedWitness | InvalidWitnessCommitment | CommitmentMismatch

definition HasWitness :: "MsgTx \<Rightarrow> bool" where
  "HasWitness tx \<longleftrightarrow> (\<exists>i \<in> set (tx_ins tx). length (Witness i) \<noteq> 0)"

definition ValidateWitnessCommitment :: "(octets \<Rightarrow> octets) \<Rightarrow> MsgTx list \<Rightarrow> commitment_error option outcome option" where
  "ValidateWitnessCommitment dsha txs =
    (if length txs = 0 then Some (Ok (Some NoTransactions))
     else if length (tx_ins (txs ! 0)) = 0 then Some (Ok (Some NoInputs))
     else case ExtractWitnessCommitment (txs ! 0) of
       None \<Rightarrow> Some (Ok (if \<exists>tx \<in> set txs. HasWitness tx then Some UnexpectedWitness else None))
     | Some commitment \<Rightarrow>
         let coinbaseWitness = Witness (tx_ins (txs ! 0) ! 0) in
         if length coinbaseWitness \<noteq> 1 then Some (Ok (Some InvalidWitnessCommitment))
         else if length (coinbaseWitness ! 0) \<noteq> 32 then Some (Ok (Some InvalidWitnessCommitment))
         else (case CalcMerkleRoot dsha txs True of
             None \<Rightarrow> None
           | Some (Ok rt) \<Rightarrow> Some (Ok (if dsha (rt @ coinbaseWitness ! 0) \<noteq> commitment then Some CommitmentMismatch else None))
           | Some (Err e) \<Rightarrow> Some (Err e) | Some (Panic e) \<Rightarrow> Some (Panic e) | Some Blocked \<Rightarrow> Some Blocked))"

subsection \<open>The tree\<close>

text \<open>The row above a row, the root of a row, and the roots of the full subtrees of a row, the highest first.\<close>

fun level :: "(octets \<Rightarrow> octets) \<Rightarrow> octets list \<Rightarrow> octets list" where
  "level dsha [] = []"
| "level dsha [x] = [HashMerkleBranches dsha x x]"
| "level dsha (x # y # xs) = HashMerkleBranches dsha x y # level dsha xs"

lemma length_level [simp]: "length (level dsha xs) = (length xs + 1) div 2"
  by (induction dsha xs rule: level.induct) auto

lemma level_eq_Nil [simp]: "level dsha xs = [] \<longleftrightarrow> xs = []"
  by (cases "(dsha, xs)" rule: level.cases) auto

function merkleRoot :: "(octets \<Rightarrow> octets) \<Rightarrow> octets list \<Rightarrow> octets" where
  "merkleRoot dsha xs = (if length xs < 2 then hd xs else merkleRoot dsha (level dsha xs))"
  by pat_completeness auto
termination by (relation "measure (\<lambda>(d, xs). length xs)") auto

declare merkleRoot.simps [simp del]

function peaks :: "(octets \<Rightarrow> octets) \<Rightarrow> octets list \<Rightarrow> octets list" where
  "peaks dsha xs =
    (if xs = [] then []
     else if even (length xs) then peaks dsha (level dsha xs)
     else peaks dsha (level dsha (butlast xs)) @ [last xs])"
  by pat_completeness auto
termination
proof (relation "measure (\<lambda>(d, xs). length xs)")
  fix dsha :: "octets \<Rightarrow> octets" and xs :: "octets list"
  assume "xs \<noteq> []"
  then have len: "0 < length xs" by simp
  show "even (length xs) \<Longrightarrow> ((dsha, level dsha xs), dsha, xs) \<in> measure (\<lambda>(d, xs). length xs)" using len by simp
  show "((dsha, level dsha (butlast xs)), dsha, xs) \<in> measure (\<lambda>(d, xs). length xs)" using len by simp
qed simp

declare peaks.simps [simp del]

lemma level_append: "even (length xs) \<Longrightarrow> level dsha (xs @ ys) = level dsha xs @ level dsha ys"
  by (induction dsha xs rule: level.induct) auto

lemma level_pair: "odd (length xs) \<Longrightarrow> level dsha (xs @ [y]) = level dsha (butlast xs) @ [HashMerkleBranches dsha (last xs) y]"
proof -
  assume odd: "odd (length xs)"
  then have "xs = butlast xs @ [last xs]" by (metis append_butlast_last_id even_zero list.size(3))
  then have "level dsha (xs @ [y]) = level dsha (butlast xs @ [last xs, y])" by (metis append_Cons append_Nil append_assoc)
  with odd show ?thesis by (simp add: level_append)
qed

lemma level_odd: "odd (length xs) \<Longrightarrow> level dsha (xs @ [last xs]) = level dsha xs"
proof -
  assume odd: "odd (length xs)"
  then have x: "xs = butlast xs @ [last xs]" by (metis append_butlast_last_id even_zero list.size(3))
  have "level dsha xs = level dsha (butlast xs) @ [HashMerkleBranches dsha (last xs) (last xs)]"
    using odd by (subst x) (simp add: level_append)
  with level_pair [OF odd] show ?thesis by simp
qed

lemma merkleRoot_level: "2 \<le> length xs \<Longrightarrow> merkleRoot dsha (level dsha xs) = merkleRoot dsha xs"
  by (subst (2) merkleRoot.simps) simp

lemma peaks_even: "even (length xs) \<Longrightarrow> peaks dsha (level dsha xs) = peaks dsha xs"
  by (subst (2) peaks.simps) (simp add: peaks.simps [of dsha "[]"])

lemma peaks_odd: "odd (length xs) \<Longrightarrow> peaks dsha xs = peaks dsha (level dsha (butlast xs)) @ [last xs]"
  by (subst peaks.simps) auto

lemma peaks_Nil [simp]: "peaks dsha xs = [] \<longleftrightarrow> xs = []"
proof (induction dsha xs rule: peaks.induct)
  case (1 dsha xs)
  then show ?case by (subst peaks.simps) auto
qed

lemma single_peak: "length (peaks dsha xs) \<le> 1 \<Longrightarrow> xs \<noteq> [] \<Longrightarrow> peaks dsha xs = [merkleRoot dsha xs]"
proof (induction dsha xs rule: peaks.induct)
  case (1 dsha xs)
  show ?case
  proof (cases "even (length xs)")
    case True
    then have len: "2 \<le> length xs" using 1(4) by (cases xs; cases "tl xs") auto
    have "peaks dsha (level dsha xs) = [merkleRoot dsha (level dsha xs)]"
      using 1(1) [OF 1(4) True] 1(3,4) peaks_even [OF True, of dsha] by simp
    then show ?thesis unfolding peaks_even [OF True] merkleRoot_level [OF len] .
  next
    case False
    then have p: "peaks dsha xs = peaks dsha (level dsha (butlast xs)) @ [last xs]" by (rule peaks_odd)
    then have "butlast xs = []" using 1(3) by auto
    then obtain x where "xs = [x]" using 1(4) by (metis append_Nil append_butlast_last_id)
    then show ?thesis by (simp add: p merkleRoot.simps) (simp add: peaks.simps)
  qed
qed

subsection \<open>The rolling computation is right\<close>

lemma bit_unat: "bit (n :: 64 word) h \<longleftrightarrow> odd (unat n div 2 ^ h)"
proof -
  have "bit n h = bit (unat n) h" by (simp add: bit_unsigned_iff)
  then show ?thesis by (simp only: bit_iff_odd [of "unat n" h])
qed

lemma div_power_Suc: "(n :: nat) div 2 ^ h div 2 = n div 2 ^ Suc h"
  by (metis div_mult2_eq power_Suc2)

lemma addLoop_spec:
  "length xs = unat n div 2 ^ h \<Longrightarrow> rs = peaks dsha xs \<Longrightarrow> addLoop dsha h n rs x = Ok (peaks dsha (xs @ [x]))"
proof (induction dsha h n rs x arbitrary: xs rule: addLoop.induct)
  case (1 dsha h n rs x)
  show ?case
  proof (cases "odd (length xs)")
    case True
    let ?ys = "level dsha (butlast xs)"
    have p: "peaks dsha xs = peaks dsha ?ys @ [last xs]" using True by (rule peaks_odd)
    have "length ?ys = unat n div 2 ^ Suc h"
    proof -
      have "length ?ys = length xs div 2" using True by simp
      also have "\<dots> = unat n div 2 ^ Suc h" by (simp only: 1(2) div_power_Suc)
      finally show ?thesis .
    qed
    moreover have "bit n h" using True 1(2) by (simp add: bit_unat)
    ultimately have "addLoop dsha h n rs x = Ok (peaks dsha (?ys @ [HashMerkleBranches dsha (last xs) x]))"
      using 1(1) [of ?ys] p 1(3) by (subst addLoop.simps) simp
    also have "?ys @ [HashMerkleBranches dsha (last xs) x] = level dsha (xs @ [x])" using level_pair [OF True] by simp
    also have "peaks dsha (level dsha (xs @ [x])) = peaks dsha (xs @ [x])" using True by (intro peaks_even) simp
    finally show ?thesis .
  next
    case False
    then have "\<not> bit n h" using 1(2) by (simp add: bit_unat)
    moreover have "peaks dsha (xs @ [x]) = peaks dsha xs @ [x]"
      using False by (simp add: peaks_odd peaks_even)
    ultimately show ?thesis using 1(3) by (subst addLoop.simps) simp
  qed
qed

text \<open>The store holds the full subtrees of a row.\<close>

definition holds :: "(octets \<Rightarrow> octets) \<Rightarrow> octets list \<Rightarrow> rollingMerkleTreeStore \<Rightarrow> bool" where
  "holds dsha xs s \<longleftrightarrow> roots s = peaks dsha xs \<and> unat (numLeaves s) = length xs \<and> length xs < 2 ^ 63"

lemma rm_add_spec:
  assumes "holds dsha xs s" and "length xs + 1 < 2 ^ 63"
  shows "\<exists>s'. rm_add dsha x s = Ok s' \<and> holds dsha (xs @ [x]) s'"
proof -
  have "addLoop dsha 0 (numLeaves s) (roots s) x = Ok (peaks dsha (xs @ [x]))"
    using assms(1) by (intro addLoop_spec) (simp_all add: holds_def)
  moreover have "unat (numLeaves s + 1) = length xs + 1"
    using assms by (simp add: holds_def unat_word_ariths)
  ultimately show ?thesis using assms(2) by (simp add: rm_add_def holds_def)
qed

lemma addAll_spec:
  "holds dsha xs s \<Longrightarrow> length xs + length ys < 2 ^ 63 \<Longrightarrow> \<exists>s'. addAll dsha ys s = Ok s' \<and> holds dsha (xs @ ys) s'"
proof (induction ys arbitrary: xs s)
  case (Cons y ys)
  then obtain s' where s': "rm_add dsha y s = Ok s'" "holds dsha (xs @ [y]) s'" using rm_add_spec [of dsha xs s y] by auto
  with Cons.IH [of "xs @ [y]" s'] Cons.prems(2) show ?case by simp
qed simp

lemma shiftLoop_spec:
  "xs \<noteq> [] \<Longrightarrow> length xs = unat n \<Longrightarrow> unat n = unat c div 2 ^ h \<Longrightarrow>
   \<exists>n' ys. shiftLoop c h n = Some n' \<and> length ys = unat n' \<and> odd (length ys) \<and> peaks dsha ys = peaks dsha xs \<and>
     merkleRoot dsha ys = merkleRoot dsha xs \<and> (if odd (length xs) then ys = xs else 2 * length ys \<le> length xs)"
proof (induction "length xs" arbitrary: xs n h rule: less_induct)
  case less
  show ?case
  proof (cases "odd (length xs)")
    case True
    then show ?thesis using less.prems by (subst shiftLoop.simps) (simp add: bit_unat)
  next
    case False
    let ?xs = "level dsha xs"
    have len: "2 \<le> length xs" using False less.prems(1) by (cases xs; cases "tl xs") auto
    have half: "unat (drop_bit 1 n) = unat n div 2" using trans [OF unat_drop_bit_eq drop_bit_eq_div, of 1 n] by simp
    have l: "length ?xs = unat (drop_bit 1 n)" using False less.prems(2) half by simp
    have c: "unat (drop_bit 1 n) = unat c div 2 ^ Suc h"
      using half less.prems(3) by (simp only: div_power_Suc)
    have lt: "length ?xs < length xs" using len False by simp
    have ne: "?xs \<noteq> []" using less.prems(1) by simp
    from less.hyps [OF lt ne l c] obtain n' ys where y: "shiftLoop c (Suc h) (drop_bit 1 n) = Some n'" "length ys = unat n'" "odd (length ys)"
      "peaks dsha ys = peaks dsha ?xs" "merkleRoot dsha ys = merkleRoot dsha ?xs"
      "if odd (length ?xs) then ys = ?xs else 2 * length ys \<le> length ?xs" by blast
    have "2 * length ys \<le> length xs" using y(6) False by (auto split: if_splits)
    moreover have "shiftLoop c h n = Some n'" using y(1) False less.prems by (subst shiftLoop.simps) (simp add: bit_unat)
    ultimately show ?thesis using y(2-5) False merkleRoot_level [OF len] peaks_even [of xs dsha]
      by (intro exI [of _ n'] exI [of _ ys]) simp
  qed
qed

lemma climb_spec:
  "holds dsha xs s \<Longrightarrow> xs \<noteq> [] \<Longrightarrow> even (length xs) \<Longrightarrow> \<exists>s'. climb dsha s = Some (Ok s') \<and> roots s' = [merkleRoot dsha xs]"
proof (induction "length xs" arbitrary: xs s rule: less_induct)
  case less
  have rs: "roots s = peaks dsha xs" "unat (numLeaves s) = length xs" "length xs < 2 ^ 63" using less.prems(1) by (auto simp: holds_def)
  show ?case
  proof (cases "length (peaks dsha xs) > 1")
    case False
    then show ?thesis using single_peak [of dsha xs] less.prems(2) rs(1) by (subst climb.simps) simp
  next
    case True
    obtain n ys where y: "shiftLoop (numLeaves s) 0 (numLeaves s) = Some n" "length ys = unat n" "odd (length ys)"
      "peaks dsha ys = peaks dsha xs" "merkleRoot dsha ys = merkleRoot dsha xs" "2 * length ys \<le> length xs"
      using shiftLoop_spec [OF less.prems(2), of "numLeaves s" "numLeaves s" 0 dsha] rs(2) less.prems(3) by auto
    have len: "2 \<le> length ys"
    proof (rule ccontr)
      assume "\<not> 2 \<le> length ys"
      then obtain z where "ys = [z]" using y(3) by (cases ys; cases "tl ys") auto
      then have "length (peaks dsha ys) = 1" by (simp add: peaks.simps)
      with True y(4) show False by simp
    qed
    have last: "last (roots s) = last ys" using rs(1) y(4) peaks_odd [OF y(3), of dsha] by (metis last_snoc)
    have "holds dsha ys (s\<lparr>numLeaves := n\<rparr>)" using rs y(2,4,6) by (simp add: holds_def)
    then obtain s' where s': "rm_add dsha (last ys) (s\<lparr>numLeaves := n\<rparr>) = Ok s'" "holds dsha (ys @ [last ys]) s'"
      using rm_add_spec [of dsha ys _ "last ys"] y(6) rs(3) len by fastforce
    have root: "merkleRoot dsha (ys @ [last ys]) = merkleRoot dsha xs"
      using level_odd [OF y(3), of dsha] merkleRoot_level [of ys dsha] merkleRoot_level [of "ys @ [last ys]" dsha] len y(5) by simp
    have "\<exists>s''. climb dsha s' = Some (Ok s'') \<and> roots s'' = [merkleRoot dsha (ys @ [last ys])]"
      using y(3,6) len by (intro less.hyps s'(2)) auto
    then show ?thesis using True y(1) s'(1) root rs(1) last by (subst climb.simps) simp
  qed
qed

lemma length_leaves [simp]: "length (leaves w txs) = length txs"
  by (simp add: leaves_def)

lemma last_leaf: "2 \<le> length txs \<Longrightarrow> last (leaves w txs) = (if w then tx_witnessHash (last txs) else tx_hash (last txs))"
proof -
  assume len: "2 \<le> length txs"
  then have "txs \<noteq> []" by auto
  then have "last (leaves w txs) = leaves w txs ! (length txs - 1)" by (metis last_conv_nth length_0_conv length_leaves)
  also have "\<dots> = leafHash w (length txs - 1) (txs ! (length txs - 1))"
    using len by (simp add: leaves_def nth_enumerate_eq)
  finally show ?thesis using len \<open>txs \<noteq> []\<close> by (auto simp: leafHash_def last_conv_nth)
qed

lemma CalcMerkleRoot_spec:
  assumes "txs \<noteq> []" and "length txs < 2 ^ 62"
  shows "CalcMerkleRoot dsha txs w = Some (Ok (merkleRoot dsha (leaves w txs)))"
proof -
  let ?xs = "leaves w txs"
  have ne: "?xs \<noteq> []" using assms(1) by (metis length_0_conv length_leaves)
  have "holds dsha [] newRollingMerkleTreeStore" by (simp add: holds_def newRollingMerkleTreeStore_def peaks.simps)
  then obtain s where s: "addAll dsha ?xs newRollingMerkleTreeStore = Ok s" "holds dsha ?xs s"
    using addAll_spec [of dsha "[]" _ ?xs] assms(2) by auto
  have n: "unat (numLeaves s) = length txs" "roots s = peaks dsha ?xs" using s(2) by (auto simp: holds_def)
  show ?thesis
  proof (cases "length txs = 1")
    case True
    then obtain x where x: "?xs = [x]" by (metis One_nat_def length_0_conv length_Suc_conv length_leaves)
    have "numLeaves s = 1" using n(1) True by (metis unat_1 word_unat_eq_iff)
    then show ?thesis using s(1) n(2)
      by (simp add: CalcMerkleRoot_def calcMerkleRoot_def firstRoot_def x merkleRoot.simps) (simp add: peaks.simps)
  next
    case False
    then have len: "2 \<le> length txs" using assms(1) by (cases txs; cases "tl txs") auto
    have one: "numLeaves s \<noteq> 1" using n(1) False by auto
    let ?add = "if length txs > 0 \<and> length txs mod 2 \<noteq> 0
      then rm_add dsha (if w then tx_witnessHash (last txs) else tx_hash (last txs)) s else Ok s"
    have "\<exists>s2 ys. ?add = Ok s2 \<and> holds dsha ys s2 \<and> ys \<noteq> [] \<and> even (length ys) \<and> merkleRoot dsha ys = merkleRoot dsha ?xs"
    proof (cases "odd (length txs)")
      case True
      obtain s2 where s2: "rm_add dsha (last ?xs) s = Ok s2" "holds dsha (?xs @ [last ?xs]) s2"
        using rm_add_spec [OF s(2), of "last ?xs"] assms(2) by auto
      moreover have "merkleRoot dsha (?xs @ [last ?xs]) = merkleRoot dsha ?xs"
        using level_odd [of ?xs dsha] True len merkleRoot_level [of ?xs dsha] merkleRoot_level [of "?xs @ [last ?xs]" dsha] by simp
      ultimately show ?thesis using True len last_leaf [OF len, of w] by (intro exI [of _ s2] exI [of _ "?xs @ [last ?xs]"]) (auto simp: odd_iff_mod_2_eq_one)
    next
      case False
      then show ?thesis using s(2) ne by (intro exI [of _ s] exI [of _ ?xs]) (auto simp: even_iff_mod_2_eq_zero)
    qed
    then obtain s2 ys where s2: "?add = Ok s2" "holds dsha ys s2" "ys \<noteq> []" "even (length ys)" "merkleRoot dsha ys = merkleRoot dsha ?xs"
      by blast
    obtain s3 where "climb dsha s2 = Some (Ok s3)" "roots s3 = [merkleRoot dsha ys]" using climb_spec [OF s2(2-4)] by blast
    then show ?thesis using s(1) one s2(1,5) by (simp add: CalcMerkleRoot_def calcMerkleRoot_def firstRoot_def)
  qed
qed

subsection \<open>The linear tree is right\<close>

lemma log2floor_bounds: "0 < n \<Longrightarrow> 2 ^ log2floor n \<le> n \<and> n < 2 ^ Suc (log2floor n)"
proof (induction n rule: log2floor.induct)
  case (1 n)
  show ?case
  proof (cases "n < 2")
    case False
    with 1 have "2 ^ log2floor (n div 2) \<le> n div 2" "n div 2 < 2 ^ Suc (log2floor (n div 2))" by auto
    moreover have "log2floor n = Suc (log2floor (n div 2))" using False by (subst log2floor.simps) simp
    ultimately show ?thesis by (simp, linarith)
  qed (use 1 in \<open>simp add: log2floor.simps\<close>)
qed

lemma power_of_two_iff: "0 < n \<Longrightarrow> n AND (n - 1) = 0 \<Longrightarrow> \<exists>k. n = 2 ^ k" for n :: nat
proof (induction n rule: less_induct)
  case (less n)
  have r: "n AND (n - 1) = of_bool (odd n \<and> odd (n - 1)) + 2 * ((n div 2) AND ((n - 1) div 2))" by (rule and_rec)
  show ?case
  proof (cases "even n")
    case True
    then obtain m where m: "n = 2 * m" by blast
    then have "(n - 1) div 2 = m - 1" "n div 2 = m" by auto
    with r less.prems m have "m AND (m - 1) = 0" by simp
    with less.IH [of m] less.prems(1) m obtain k where "m = 2 ^ k" by auto
    then have "n = 2 ^ Suc k" by (simp add: m)
    then show ?thesis ..
  next
    case False
    then obtain m where m: "n = 2 * m + 1" using oddE by blast
    with r less.prems(2) have "m AND m = 0" by simp
    then have "n = 2 ^ 0" using m by simp
    then show ?thesis ..
  qed
qed

lemma nextPowerOfTwo_bounds: "0 < n \<Longrightarrow> \<exists>k. nextPowerOfTwo n = 2 ^ k \<and> n \<le> 2 ^ k \<and> 2 ^ k < 2 * n"
proof (cases "n AND (n - 1) = 0")
  case True
  assume "0 < n"
  with True power_of_two_iff [of n] show ?thesis by (auto simp: nextPowerOfTwo_def)
next
  case False
  assume n: "0 < n"
  have "n \<noteq> 2 ^ log2floor n"
  proof
    assume "n = 2 ^ log2floor n"
    moreover have "(2 :: nat) ^ log2floor n AND (2 ^ log2floor n - 1) = 0"
      unfolding mask_eq_exp_minus_1 [symmetric] take_bit_eq_mask [symmetric] by simp
    ultimately show False using False by simp
  qed
  with log2floor_bounds [OF n] False show ?thesis
    by (intro exI [of _ "Suc (log2floor n)"]) (auto simp: nextPowerOfTwo_def push_bit_eq_mult)
qed

text \<open>A linear tree over \<open>n\<close> leaves: entry \<open>n + m\<close> is the parent of the entries \<open>2 m\<close> and \<open>2 m + 1\<close>.\<close>

definition linear_tree :: "(octets \<Rightarrow> octets) \<Rightarrow> nat \<Rightarrow> octets option list \<Rightarrow> bool" where
  "linear_tree dsha n F \<longleftrightarrow> length F = 2 * n - 1 \<and> (\<forall>m < n - 1. F ! (n + m) = parentHash dsha (F ! (2 * m)) (F ! (2 * m + 1)))"

lemma buildLoop_spec:
  assumes "length ms = 2 * n - 1" "i = 2 * m" "offset = n + m" "m \<le> n - 1" "0 < n"
  shows "length (buildLoop dsha i offset ms) = length ms \<and> (\<forall>j < offset. buildLoop dsha i offset ms ! j = ms ! j) \<and>
    (\<forall>j. m \<le> j \<and> j < n - 1 \<longrightarrow> buildLoop dsha i offset ms ! (n + j) =
      parentHash dsha (buildLoop dsha i offset ms ! (2 * j)) (buildLoop dsha i offset ms ! (2 * j + 1)))"
  using assms
proof (induction dsha i offset ms arbitrary: m rule: buildLoop.induct)
  case (1 dsha i offset ms)
  show ?case
  proof (cases "i + 1 < length ms")
    case False
    then show ?thesis using 1(2-6) by (subst (1 2) buildLoop.simps) auto
  next
    case True
    let ?ms = "ms[offset := parentHash dsha (ms ! i) (ms ! (i + 1))]" and ?F = "buildLoop dsha i offset ms"
    have F: "?F = buildLoop dsha (i + 2) (offset + 1) ?ms" using True by (subst buildLoop.simps) simp
    have m: "m < n - 1" using True 1(2,3) by auto
    have IH: "length ?F = length ms" "\<forall>j < offset + 1. ?F ! j = ?ms ! j"
      "\<And>j. m + 1 \<le> j \<Longrightarrow> j < n - 1 \<Longrightarrow> ?F ! (n + j) = parentHash dsha (?F ! (2 * j)) (?F ! (2 * j + 1))"
      using 1(1) [OF True, of "m + 1"] 1(2-6) m unfolding F by auto
    have "?F ! (n + m) = parentHash dsha (?F ! (2 * m)) (?F ! (2 * m + 1))"
      using IH(2) m 1(2-4) by auto
    then have "\<forall>j. m \<le> j \<and> j < n - 1 \<longrightarrow> ?F ! (n + j) = parentHash dsha (?F ! (2 * j)) (?F ! (2 * j + 1))"
      using IH(3) by (metis Suc_eq_plus1 le_antisym not_less_eq_eq)
    then show ?thesis using IH(1,2) by simp
  qed
qed

lemma nth_level: "m < length (level dsha xs) \<Longrightarrow>
  level dsha xs ! m = HashMerkleBranches dsha (xs ! (2 * m)) (if 2 * m + 1 < length xs then xs ! (2 * m + 1) else xs ! (2 * m))"
  by (induction dsha xs arbitrary: m rule: level.induct) (auto simp: nth_Cons split: nat.splits)

text \<open>A row of a linear tree: the hashes, then nil up to the power of two.\<close>

definition padded :: "nat \<Rightarrow> octets list \<Rightarrow> octets option list" where
  "padded n xs = map Some xs @ replicate (n - length xs) None"

lemma nth_padded: "i < n \<Longrightarrow> length xs \<le> n \<Longrightarrow> padded n xs ! i = (if i < length xs then Some (xs ! i) else None)"
  by (auto simp: padded_def nth_append)

lemma linear_tree_up:
  assumes "linear_tree dsha (2 * n) F" "take (2 * n) F = padded (2 * n) xs" "length xs \<le> 2 * n" "0 < n"
  shows "linear_tree dsha n (drop (2 * n) F) \<and> take n (drop (2 * n) F) = padded n (level dsha xs)"
proof -
  have len: "length F = 4 * n - 1" and rec: "\<And>m. m < 2 * n - 1 \<Longrightarrow> F ! (2 * n + m) = parentHash dsha (F ! (2 * m)) (F ! (2 * m + 1))"
    using assms(1) by (auto simp: linear_tree_def)
  have F: "F ! i = (if i < length xs then Some (xs ! i) else None)" if "i < 2 * n" for i
    using that assms(2,3) by (metis nth_padded nth_take)
  have "linear_tree dsha n (drop (2 * n) F)"
    unfolding linear_tree_def
  proof (intro conjI allI impI)
    fix m assume m: "m < n - 1"
    then show "drop (2 * n) F ! (n + m) = parentHash dsha (drop (2 * n) F ! (2 * m)) (drop (2 * n) F ! (2 * m + 1))"
      using rec [of "n + m"] len by (simp add: algebra_simps)
  qed (use len in simp)
  moreover have "take n (drop (2 * n) F) ! i = padded n (level dsha xs) ! i" if "i < n" for i
    using that assms(3) rec [of i] len F [of "2 * i"] F [of "2 * i + 1"] nth_level [of i dsha xs]
    by (auto simp: nth_padded parentHash_def)
  moreover have "length (take n (drop (2 * n) F)) = length (padded n (level dsha xs))"
    using len assms(3,4) by (simp add: padded_def)
  ultimately show ?thesis using len by (auto intro!: nth_equalityI)
qed

lemma linear_root:
  "linear_tree dsha (2 ^ k) F \<Longrightarrow> take (2 ^ k) F = padded (2 ^ k) xs \<Longrightarrow> length xs \<le> 2 ^ k \<Longrightarrow> 2 ^ k < 2 * length xs \<Longrightarrow>
   last F = Some (merkleRoot dsha xs)"
proof (induction k arbitrary: F xs)
  case 0
  then obtain x where "xs = [x]" by (cases xs) auto
  with 0(1,2) show ?case by (cases F) (auto simp: linear_tree_def padded_def merkleRoot.simps)
next
  case (Suc k)
  have up: "linear_tree dsha (2 ^ k) (drop (2 * 2 ^ k) F)" "take (2 ^ k) (drop (2 * 2 ^ k) F) = padded (2 ^ k) (level dsha xs)"
    using linear_tree_up [of dsha "2 ^ k" F xs] Suc.prems by auto
  have len: "2 \<le> length xs" using Suc.prems(4) one_le_power [of "2 :: nat" k] by (simp, linarith)
  have "last (drop (2 * 2 ^ k) F) = Some (merkleRoot dsha (level dsha xs))"
    using Suc.prems(3,4) by (intro Suc.IH up) auto
  moreover have "drop (2 * 2 ^ k) F \<noteq> []"
  proof -
    have "2 * 2 ^ k < length F" using Suc.prems(1) one_le_power [of "2 :: nat" k] unfolding linear_tree_def power_Suc by linarith
    then show ?thesis by simp
  qed
  ultimately show ?case using merkleRoot_level [OF len] by (simp add: last_drop)
qed

lemma BuildMerkleTreeStore_spec:
  assumes "txs \<noteq> []"
  shows "\<exists>store. BuildMerkleTreeStore dsha txs w = Ok store \<and> length store = 2 * nextPowerOfTwo (length txs) - 1 \<and>
    last store = Some (merkleRoot dsha (leaves w txs))"
proof -
  obtain k where k: "nextPowerOfTwo (length txs) = 2 ^ k" "length txs \<le> 2 ^ k" "2 ^ k < 2 * length txs"
    using nextPowerOfTwo_bounds [of "length txs"] assms by auto
  let ?n = "2 ^ k :: nat" and ?xs = "leaves w txs"
  let ?ms = "map Some ?xs @ replicate (2 * ?n - 1 - length ?xs) None"
  let ?F = "buildLoop dsha 0 ?n ?ms"
  have pos: "0 < ?n" by simp
  have len: "length ?ms = 2 * ?n - 1" using k(2) pos by simp
  note b = buildLoop_spec [OF len, of 0 0 ?n dsha]
  have lt: "linear_tree dsha ?n ?F" using b len by (simp add: linear_tree_def)
  have bl: "\<forall>j < ?n. ?F ! j = ?ms ! j" "length ?F = length ?ms" using b by simp_all
  from bl have "take ?n ?F = take ?n ?ms" by (intro nth_take_lemma) (simp_all only: len, simp_all)
  then have tk: "take ?n ?F = padded ?n ?xs" using k(2) pos by (simp add: padded_def min_def)
  have "last ?F = Some (merkleRoot dsha ?xs)" using linear_root [OF lt tk] k(2,3) by simp
  moreover have "BuildMerkleTreeStore dsha txs w = Ok ?F"
  proof -
    have "int ?n * 2 - 1 = int (2 * ?n - 1)" using pos by (simp add: of_nat_diff)
    then show ?thesis
      by (simp only: BuildMerkleTreeStore_def k(1) Let_def of_nat_less_0_iff if_False nat_int length_map)
  qed
  ultimately show ?thesis using trans [OF bl(2) len] unfolding k(1) by blast
qed

subsection \<open>The two computations agree\<close>

definition demoTxs :: "MsgTx list" where
  "demoTxs = map (\<lambda>i. \<lparr>tx_hash = [of_nat i], tx_ins = [\<lparr>PreviousOutPoint = (zeroHash, 0xffffffff),
      SignatureScript = [0x51, 0x52], Witness = [replicate 32 0], Sequence = 0\<rparr>],
    tx_outs = [\<lparr>Value = 50, PkScript = WitnessMagicBytes @ [42] @ replicate 31 0\<rparr>], tx_version = 1, tx_lockTime = 0,
    tx_witnessHash = [of_nat i + 100]\<rparr>) [0 ..< 3]"

definition demoSha :: "octets \<Rightarrow> octets" where
  "demoSha xs = (if length xs \<ge> 33 then 42 else sum_list xs + 1) # (if length xs \<ge> 33 then replicate 31 0 else [])"

text \<open>C13: The root of the merkle tree.  For the transactions of a block (at least one, fewer than $2^{62}$) the tree stored in a
  linear array ends with, and the rolling computation that keeps only the roots of the full subtrees returns, the root
  given by the definition of the tree: a row is hashed in pairs, the last hash of an odd row with itself, until one hash is
  left.  So the root that a miner builds and the one a node checks are the same, for the ids and for the witness ids.\<close>

theorem merkle_computations_agree:
  assumes "txs \<noteq> []" and "length txs < 2 ^ 62"
  shows "CalcMerkleRoot dsha txs witness = Some (Ok (merkleRoot dsha (leaves witness txs))) \<and>
    (\<exists>store. BuildMerkleTreeStore dsha txs witness = Ok store \<and> length store = 2 * nextPowerOfTwo (length txs) - 1 \<and>
      last store = Some (merkleRoot dsha (leaves witness txs)))"
  using CalcMerkleRoot_spec [OF assms] BuildMerkleTreeStore_spec [OF assms(1)] by blast

theorem merkle_computations_agree_witness:
  "CalcMerkleRoot demoSha demoTxs False = Some (Ok [8])"
proof -
  have "CalcMerkleRoot demoSha demoTxs False = Some (Ok (merkleRoot demoSha (leaves False demoTxs)))"
    using merkle_computations_agree [of demoTxs demoSha False] by (simp add: demoTxs_def)
  also have "merkleRoot demoSha (leaves False demoTxs) = [8]" by code_simp
  finally show ?thesis .
qed

text \<open>C25: An accepted witness commitment.  When \<open>ValidateWitnessCommitment\<close> accepts a block, of fewer than \<open>2 ^ 62\<close> transactions, its coinbase either has no
  commitment output and then no transaction of the block carries a witness, or its last commitment output commits, with the
  32-byte nonce of the coinbase's only witness element, to the root of the tree of the witness hashes in which the
  coinbase counts as zero.\<close>

theorem accepted_commitment:
  assumes "ValidateWitnessCommitment dsha txs = Some (Ok None)" and "length txs < 2 ^ 62"
  shows "txs \<noteq> [] \<and> (case ExtractWitnessCommitment (hd txs) of
      None \<Rightarrow> \<forall>tx \<in> set txs. \<not> HasWitness tx
    | Some c \<Rightarrow> \<exists>nonce. Witness (hd (tx_ins (hd txs))) = [nonce] \<and> length nonce = 32 \<and>
        dsha (merkleRoot dsha (leaves True txs) @ nonce) = c)"
proof -
  have ne: "txs \<noteq> []" using assms(1) by (auto simp: ValidateWitnessCommitment_def)
  then have hd: "txs ! 0 = hd txs" by (simp add: hd_conv_nth)
  have ins: "tx_ins (hd txs) \<noteq> []" using assms(1) ne by (auto simp: ValidateWitnessCommitment_def hd)
  then have hi: "tx_ins (hd txs) ! 0 = hd (tx_ins (hd txs))" by (simp add: hd_conv_nth)
  show ?thesis
  proof (cases "ExtractWitnessCommitment (hd txs)")
    case None
    then show ?thesis using assms(1) ne ins by (auto simp: ValidateWitnessCommitment_def hd split: if_splits)
  next
    case (Some c)
    let ?w = "Witness (hd (tx_ins (hd txs)))"
    have w: "length ?w = 1 \<and> length (?w ! 0) = 32 \<and> dsha (merkleRoot dsha (leaves True txs) @ ?w ! 0) = c"
      using assms(1) ne ins Some CalcMerkleRoot_spec [OF ne assms(2), of dsha True]
      by (auto simp: ValidateWitnessCommitment_def hd hi Let_def split: if_splits)
    then have "?w = [?w ! 0]" by (metis One_nat_def length_0_conv length_Suc_conv nth_Cons_0)
    with w ne Some show ?thesis by auto
  qed
qed

theorem accepted_commitment_witness:
  "\<exists>c nonce. ExtractWitnessCommitment (hd demoTxs) = Some c \<and> demoSha (merkleRoot demoSha (leaves True demoTxs) @ nonce) = c"
proof -
  have "CalcMerkleRoot demoSha demoTxs True = Some (Ok (merkleRoot demoSha (leaves True demoTxs)))"
    by (rule CalcMerkleRoot_spec) (simp_all add: demoTxs_def)
  moreover have "merkleRoot demoSha (leaves True demoTxs) = 42 # replicate 31 0" by code_simp
  moreover have x: "ExtractWitnessCommitment (hd demoTxs) = Some (42 # replicate 31 0)" by code_simp
  moreover have "ExtractWitnessCommitment (demoTxs ! 0) = Some (42 # replicate 31 0)" by code_simp
  moreover have "Witness (tx_ins (demoTxs ! 0) ! 0) = [replicate 32 0]" by code_simp
  moreover have "length (tx_ins (demoTxs ! 0)) = 1" "length demoTxs = 3" by code_simp+
  ultimately have "ValidateWitnessCommitment demoSha demoTxs = Some (Ok None)"
    by (simp add: ValidateWitnessCommitment_def Let_def) (simp add: demoSha_def)
  moreover have "length demoTxs < 2 ^ 62" by (simp add: demoTxs_def)
  ultimately show ?thesis using accepted_commitment [of demoSha demoTxs] unfolding x by auto
qed

end
