(* ===== verification/Coin_Cache.thy ===== *)
theory Coin_Cache
  imports Coin_Store Coin_Merkle "HOL-Library.AList" "HOL-Library.While_Combinator"
begin

text \<open>
  The cache of unspent outputs between the chain and the database (\<open>src/btcd/blockchain/utxocache.go\<close>, \<open>sizehelper.go\<close>).
  The cache is a slice of maps, each of a bounded number of entries; a map is a list of distinct keys with their
  entries, an entry \<open>None\<close> is the nil that records a miss.  The struct's database is part of its state: the bucket of unspent
  outputs and the hash of the block it is consistent with.  An operation returns its outcome and the new state, so that an
  error leaves what was done before it.  Go's \<open>range\<close> visits a map in any order; every statement here holds for every order
  of the lists.  The conversion of the logarithm of zero or of a negative number to \<open>uint8\<close> is 0, as on amd64.

  The lemmas show that cache and database together are the ledger: connecting a block to them is connecting it to the map of
  unspent outputs they represent, a flush changes nothing but where the outputs are kept, and what goes wrong when an
  output that the database still holds is created a second time.
\<close>

subsection \<open>The size of a map\<close>

definition class_to_size :: "nat list" where
  "class_to_size = [0, 8, 16, 24, 32, 48, 64, 80, 96, 112, 128, 144, 160, 176, 192, 208, 224, 240, 256, 288, 320, 352, 384, 416,
    448, 480, 512, 576, 640, 704, 768, 896, 1024, 1152, 1280, 1408, 1536, 1792, 2048, 2304, 2688, 3072, 3200,
    3456, 4096, 4864, 5376, 6144, 6528, 6784, 6912, 8192, 9472, 9728, 10240, 10880, 12288, 13568, 14336, 16384,
    18432, 19072, 20480, 21760, 24576, 27264, 28672, 32768]"

definition size_to_class8 :: "nat list" where
  "size_to_class8 = [0, 1, 2, 3, 4, 5, 5, 6, 6, 7, 7, 8, 8, 9, 9, 10, 10, 11, 11, 12, 12, 13, 13, 14, 14, 15, 15, 16, 16, 17, 17,
    18, 18, 19, 19, 19, 19, 20, 20, 20, 20, 21, 21, 21, 21, 22, 22, 22, 22, 23, 23, 23, 23, 24, 24, 24, 24, 25,
    25, 25, 25, 26, 26, 26, 26, 27, 27, 27, 27, 27, 27, 27, 27, 28, 28, 28, 28, 28, 28, 28, 28, 29, 29, 29, 29,
    29, 29, 29, 29, 30, 30, 30, 30, 30, 30, 30, 30, 31, 31, 31, 31, 31, 31, 31, 31, 31, 31, 31, 31, 31, 31, 31,
    31, 32, 32, 32, 32, 32, 32, 32, 32, 32, 32, 32, 32, 32, 32, 32, 32]"

definition size_to_class128 :: "nat list" where
  "size_to_class128 = [32, 33, 34, 35, 36, 37, 37, 38, 38, 39, 39, 40, 40, 40, 41, 41, 41, 42, 43, 43, 44, 44, 44, 44, 44, 45, 45,
    45, 45, 45, 45, 46, 46, 46, 46, 47, 47, 47, 47, 47, 47, 48, 48, 48, 49, 49, 50, 51, 51, 51, 51, 51, 51, 51,
    51, 51, 51, 52, 52, 52, 52, 52, 52, 52, 52, 52, 52, 53, 53, 54, 54, 54, 54, 55, 55, 55, 55, 55, 56, 56, 56,
    56, 56, 56, 56, 56, 56, 56, 56, 57, 57, 57, 57, 57, 57, 57, 57, 57, 57, 58, 58, 58, 58, 58, 58, 59, 59, 59,
    59, 59, 59, 59, 59, 59, 59, 59, 59, 59, 59, 59, 59, 60, 60, 60, 60, 60, 60, 60, 60, 60, 60, 60, 60, 60, 60,
    60, 60, 61, 61, 61, 61, 61, 62, 62, 62, 62, 62, 62, 62, 62, 62, 62, 62, 63, 63, 63, 63, 63, 63, 63, 63, 63,
    63, 64, 64, 64, 64, 64, 64, 64, 64, 64, 64, 64, 64, 64, 64, 64, 64, 64, 64, 64, 64, 64, 64, 65, 65, 65, 65,
    65, 65, 65, 65, 65, 65, 65, 65, 65, 65, 65, 65, 65, 65, 65, 65, 65, 66, 66, 66, 66, 66, 66, 66, 66, 66, 66,
    66, 67, 67, 67, 67, 67, 67, 67, 67, 67, 67, 67, 67, 67, 67, 67, 67, 67, 67, 67, 67, 67, 67, 67, 67, 67, 67,
    67, 67, 67, 67, 67, 67]"

definition mulUintptr :: "64 word \<Rightarrow> 64 word \<Rightarrow> 64 word \<times> bool" where
  "mulUintptr a b =
    (if a OR b < push_bit 32 1 \<or> a = 0 then (a * b, False) else (a * b, b > (NOT 0) div a))"

definition divRoundUp :: "64 word \<Rightarrow> 64 word \<Rightarrow> 64 word" where
  "divRoundUp n a = (n + a - 1) div a"

definition alignUp :: "64 word \<Rightarrow> 64 word \<Rightarrow> 64 word" where
  "alignUp n a = (n + a - 1) AND NOT (a - 1)"

definition roundupsize :: "64 word \<Rightarrow> 64 word" where
  "roundupsize sz =
    (if sz < 32768 then
       (if sz \<le> 1024 - 8 then of_nat (class_to_size ! (size_to_class8 ! unat (divRoundUp sz 8)))
        else of_nat (class_to_size ! (size_to_class128 ! unat (divRoundUp (sz - 1024) 128))))
     else if sz + 8192 < sz then sz
     else alignUp sz 8192)"

definition bucketShift :: "8 word \<Rightarrow> 64 word" where
  "bucketShift b = push_bit (unat (b AND 63)) 1"

definition overLoadFactor :: "int \<Rightarrow> 8 word \<Rightarrow> bool" where
  "overLoadFactor cnt B \<longleftrightarrow> cnt > 8 \<and> word_of_int cnt > 13 * (bucketShift B div 2)"

definition calculateRoughMapSize :: "int \<Rightarrow> 64 word \<Rightarrow> int" where
  "calculateRoughMapSize hint bucketSz =
    (let (mem, overflow) = mulUintptr (word_of_int hint) bucketSz;
         hint' = (if overflow \<or> mem > push_bit 40 1 then 0 else hint);
         B = while (\<lambda>B. overLoadFactor hint' B) (\<lambda>B. B + 1) 0;
         base = bucketShift B;
         numBuckets = (if B \<ge> 4 then
             let nb = base + bucketShift (B - 4); sz = bucketSz * nb; up = roundupsize sz in
             if up \<noteq> sz then up div bucketSz else nb
           else base);
         tot = fst (mulUintptr bucketSz numBuckets);
         tot' = (if base \<noteq> numBuckets then tot + 24 else tot)
     in sint (tot' + 48))"

definition calculateMinEntries :: "int \<Rightarrow> int \<Rightarrow> int" where
  "calculateMinEntries totalBytes bucketSz =
    (let numBuckets = go_div (wrap64 (totalBytes - 48)) bucketSz;
         B = (if numBuckets \<le> 0 then 0 else of_nat (log2floor (nat numBuckets)) :: 8 word) in
     if B < 4 then (if B = 0 then 0 else if B = 1 then 9 else if B = 2 then 14 else 27)
     else sint (13 * (bucketShift (B - 1) div 2)) + 1)"

definition bucketSize :: int where
  "bucketSize = 16 + 8 * 36 + 8 * 8"

definition baseEntrySize :: int where
  "baseEntrySize = 40"

definition avgEntrySize :: int where
  "avgEntrySize = baseEntrySize + (25 + 7)"

subsection \<open>The slice of maps\<close>

type_synonym cmap = "(outpoint \<times> UtxoEntry option) list"

record mapSlice =
  ms_maps :: "cmap list"
  ms_maxEntries :: "int list"
  ms_maxTotal :: "64 word"

definition ms_length :: "mapSlice \<Rightarrow> nat" where
  "ms_length ms = sum_list (map length (ms_maps ms))"

definition ms_size :: "mapSlice \<Rightarrow> int" where
  "ms_size ms = sum_list (map (\<lambda>num. calculateRoughMapSize num (word_of_int bucketSize)) (ms_maxEntries ms))"

fun getFrom :: "cmap list \<Rightarrow> outpoint \<Rightarrow> UtxoEntry option option" where
  "getFrom [] op = None"
| "getFrom (m # ms) op = (case map_of m op of Some e \<Rightarrow> Some e | None \<Rightarrow> getFrom ms op)"

definition ms_get :: "mapSlice \<Rightarrow> outpoint \<Rightarrow> UtxoEntry option option" where
  "ms_get ms op = getFrom (ms_maps ms) op"

text \<open>The first loop of \<open>put\<close> overwrites the key where it is found, the second adds it to the first map with room.\<close>

fun overwrite :: "outpoint \<Rightarrow> UtxoEntry option \<Rightarrow> cmap list \<Rightarrow> cmap list option" where
  "overwrite op e [] = None"
| "overwrite op e (m # ms) = (case map_of m op of
      Some _ \<Rightarrow> Some (AList.update op e m # ms)
    | None \<Rightarrow> map_option ((#) m) (overwrite op e ms))"

fun addToFirst :: "outpoint \<Rightarrow> UtxoEntry option \<Rightarrow> int list \<Rightarrow> cmap list \<Rightarrow> cmap list option" where
  "addToFirst op e (maxNum # ns) (m # ms) =
    (if int (length m) \<ge> maxNum then map_option ((#) m) (addToFirst op e ns ms) else Some (AList.update op e m # ms))"
| "addToFirst op e _ _ = None"

definition makeNewMap :: "64 word \<Rightarrow> mapSlice \<Rightarrow> mapSlice" where
  "makeNewMap tot ms =
    (let memSize = fold (\<lambda>maxNum sz. sz - word_of_int (calculateRoughMapSize maxNum (word_of_int bucketSize))) (ms_maxEntries ms)
           (ms_maxTotal ms - tot);
         numMaxElements = calculateMinEntries (sint memSize) (bucketSize + avgEntrySize) - 1 in
     ms\<lparr>ms_maxEntries := ms_maxEntries ms @ [numMaxElements], ms_maps := ms_maps ms @ [[]]\<rparr>)"

definition ms_put :: "outpoint \<Rightarrow> UtxoEntry option \<Rightarrow> 64 word \<Rightarrow> mapSlice \<Rightarrow> mapSlice" where
  "ms_put op e tot ms = (case overwrite op e (ms_maps ms) of
      Some ms' \<Rightarrow> ms\<lparr>ms_maps := ms'\<rparr>
    | None \<Rightarrow> (case addToFirst op e (ms_maxEntries ms) (ms_maps ms) of
        Some ms' \<Rightarrow> ms\<lparr>ms_maps := ms'\<rparr>
      | None \<Rightarrow> let ms' = makeNewMap tot ms in
          ms'\<lparr>ms_maps := butlast (ms_maps ms') @ [AList.update op e (last (ms_maps ms'))]\<rparr>))"

definition ms_delete :: "outpoint \<Rightarrow> mapSlice \<Rightarrow> mapSlice" where
  "ms_delete op ms = ms\<lparr>ms_maps := map (AList.delete op) (ms_maps ms)\<rparr>"

definition deleteMaps :: "mapSlice \<Rightarrow> mapSlice outcome" where
  "deleteMaps ms =
    (if ms_maxEntries ms = [] then Panic ''index out of range''
     else if ms_maps ms = [] then Panic ''slice bounds out of range''
     else Ok (ms\<lparr>ms_maxEntries := [ms_maxEntries ms ! 0], ms_maps := take 1 (ms_maps ms)\<rparr>))"

subsection \<open>The cache\<close>

record utxoCache =
  maxTotalMemoryUsage :: "64 word"
  cachedEntries :: mapSlice
  totalEntryMemory :: "64 word"
  lastFlushHash :: octets
  lastFlushTime :: int
  utxoBucket :: bucket
  stateConsistency :: "octets option"

definition memoryUsage :: "UtxoEntry option \<Rightarrow> 64 word" where
  "memoryUsage entry = (case entry of None \<Rightarrow> 0 | Some e \<Rightarrow> word_of_int baseEntrySize + of_nat (length (pkScript e)))"

definition newUtxoCache :: "bucket \<Rightarrow> octets option \<Rightarrow> 64 word \<Rightarrow> utxoCache" where
  "newUtxoCache b consistency maxTotal =
    \<lparr>maxTotalMemoryUsage = maxTotal,
     cachedEntries = \<lparr>ms_maps = [[]], ms_maxEntries = [calculateMinEntries (sint maxTotal) (bucketSize + avgEntrySize) - 1],
       ms_maxTotal = maxTotal\<rparr>,
     totalEntryMemory = 0, lastFlushHash = zeroHash, lastFlushTime = 0, utxoBucket = b, stateConsistency = consistency\<rparr>"

definition totalMemoryUsage :: "utxoCache \<Rightarrow> 64 word" where
  "totalMemoryUsage s = word_of_int (ms_size (cachedEntries s)) + totalEntryMemory s"

fun fetchMissing :: "(octets \<Rightarrow> octets option) \<Rightarrow> bucket \<Rightarrow> outpoint list \<Rightarrow> UtxoEntry option list outcome" where
  "fetchMissing parse b [] = Ok []"
| "fetchMissing parse b (op # ops) = (case dbFetchUtxoEntry parse b op of
      Ok e \<Rightarrow> map_outcome ((#) e) (fetchMissing parse b ops)
    | Err e \<Rightarrow> Err e
    | Panic e \<Rightarrow> Panic e
    | Blocked \<Rightarrow> Blocked)"

fun putAll :: "(outpoint \<times> UtxoEntry option) list \<Rightarrow> utxoCache \<Rightarrow> utxoCache" where
  "putAll [] s = s"
| "putAll ((op, e) # es) s = putAll es (s\<lparr>cachedEntries := ms_put op e (totalEntryMemory s) (cachedEntries s),
     totalEntryMemory := totalEntryMemory s + memoryUsage e\<rparr>)"

text \<open>The entries in the order of the outpoints: from the cache where it had them, the others from the database.\<close>

fun fillIn :: "mapSlice \<Rightarrow> outpoint list \<Rightarrow> UtxoEntry option list \<Rightarrow> UtxoEntry option list" where
  "fillIn ms [] dbEntries = []"
| "fillIn ms (op # ops) dbEntries = (case ms_get ms op of
      Some e \<Rightarrow> e # fillIn ms ops dbEntries
    | None \<Rightarrow> hd dbEntries # fillIn ms ops (tl dbEntries))"

definition fetchEntries :: "(octets \<Rightarrow> octets option) \<Rightarrow> outpoint list \<Rightarrow> (utxoCache, UtxoEntry option list) act" where
  "fetchEntries parse outpoints = (\<lambda>s.
     let missingOps = filter (\<lambda>op. ms_get (cachedEntries s) op = None) outpoints in
     if missingOps = [] then (Ok (fillIn (cachedEntries s) outpoints []), s)
     else (case fetchMissing parse (utxoBucket s) missingOps of
         Ok dbEntries \<Rightarrow> (Ok (fillIn (cachedEntries s) outpoints dbEntries), putAll (zip missingOps dbEntries) s)
       | Err e \<Rightarrow> (Err e, s)
       | Panic e \<Rightarrow> (Panic e, s)
       | Blocked \<Rightarrow> (Blocked, s)))"

definition cache_addTxOut :: "outpoint \<Rightarrow> TxOut \<Rightarrow> bool \<Rightarrow> int \<Rightarrow> utxoCache \<Rightarrow> utxoCache" where
  "cache_addTxOut op out isCoinBase height s =
    (if IsUnspendable (PkScript out) then s
     else let entry = Some \<lparr>amount = Value out, pkScript = PkScript out, blockHeight = height, ent_coinbase = isCoinBase,
            ent_spent = False, ent_modified = True, ent_fresh = True\<rparr> in
       s\<lparr>cachedEntries := ms_put op entry (totalEntryMemory s) (cachedEntries s),
         totalEntryMemory := totalEntryMemory s + memoryUsage entry\<rparr>)"

fun cache_addOuts :: "octets \<Rightarrow> bool \<Rightarrow> int \<Rightarrow> nat \<Rightarrow> TxOut list \<Rightarrow> utxoCache \<Rightarrow> utxoCache" where
  "cache_addOuts h cb height i [] s = s"
| "cache_addOuts h cb height i (out # outs) s = cache_addOuts h cb height (Suc i) outs (cache_addTxOut (h, of_nat i) out cb height s)"

definition cache_addTxOuts :: "MsgTx \<Rightarrow> int \<Rightarrow> utxoCache \<Rightarrow> utxoCache" where
  "cache_addTxOuts tx height s = cache_addOuts (tx_hash tx) (IsCoinBase tx) height 0 (tx_outs tx) s"

definition stxoOf :: "UtxoEntry \<Rightarrow> SpentTxOut" where
  "stxoOf e = \<lparr>st_Amount = amount e, st_PkScript = pkScript e, st_Height = blockHeight e, st_IsCoinBase = ent_coinbase e\<rparr>"

text \<open>Spending mutates the entry that the cache holds; a fresh one is then deleted.  In the other branch the local pointer is nil
  when its memory is subtracted.\<close>

definition spendCached :: "outpoint \<Rightarrow> UtxoEntry \<Rightarrow> utxoCache \<Rightarrow> utxoCache" where
  "spendCached op e s =
    (if ent_fresh (Spend e)
     then s\<lparr>cachedEntries := ms_delete op (cachedEntries s), totalEntryMemory := totalEntryMemory s - memoryUsage (Some (Spend e))\<rparr>
     else s\<lparr>cachedEntries := (case overwrite op (Some (Spend e)) (ms_maps (cachedEntries s)) of
           Some ms' \<Rightarrow> (cachedEntries s)\<lparr>ms_maps := ms'\<rparr> | None \<Rightarrow> cachedEntries s),
         totalEntryMemory := totalEntryMemory s - memoryUsage None\<rparr>)"

definition addTxIn :: "(octets \<Rightarrow> octets option) \<Rightarrow> TxIn \<Rightarrow> SpentTxOut list option \<Rightarrow> (utxoCache, SpentTxOut list option) act" where
  "addTxIn parse i stxos = bind_act (fetchEntries parse [PreviousOutPoint i]) (\<lambda>entries.
     if length entries \<noteq> 1 \<or> entries ! 0 = None then fail_act ''missing input''
     else bind_act (upd_act (spendCached (PreviousOutPoint i) (the (entries ! 0)))) (\<lambda>_.
       ret_act (map_option (\<lambda>ts. ts @ [stxoOf (the (entries ! 0))]) stxos)))"

fun addIns :: "(octets \<Rightarrow> octets option) \<Rightarrow> TxIn list \<Rightarrow> SpentTxOut list option \<Rightarrow> (utxoCache, SpentTxOut list option) act" where
  "addIns parse [] stxos = ret_act stxos"
| "addIns parse (i # is) stxos = bind_act (addTxIn parse i stxos) (addIns parse is)"

definition addTxIns :: "(octets \<Rightarrow> octets option) \<Rightarrow> MsgTx \<Rightarrow> SpentTxOut list option \<Rightarrow> (utxoCache, SpentTxOut list option) act" where
  "addTxIns parse tx stxos = (if IsCoinBase tx then ret_act stxos else addIns parse (tx_ins tx) stxos)"

definition cache_connectTransaction :: "(octets \<Rightarrow> octets option) \<Rightarrow> MsgTx \<Rightarrow> int \<Rightarrow> SpentTxOut list option \<Rightarrow> (utxoCache, SpentTxOut list option) act" where
  "cache_connectTransaction parse tx height stxos = bind_act (addTxIns parse tx stxos) (\<lambda>stxos'.
     bind_act (upd_act (cache_addTxOuts tx height)) (\<lambda>_. ret_act stxos'))"

fun cache_connectTransactions :: "(octets \<Rightarrow> octets option) \<Rightarrow> MsgTx list \<Rightarrow> int \<Rightarrow> SpentTxOut list option \<Rightarrow> (utxoCache, SpentTxOut list option) act" where
  "cache_connectTransactions parse [] height stxos = ret_act stxos"
| "cache_connectTransactions parse (tx # txs) height stxos =
    bind_act (cache_connectTransaction parse tx height stxos) (cache_connectTransactions parse txs height)"

subsection \<open>Flushing\<close>

datatype FlushMode = FlushRequired | FlushPeriodic | FlushIfNeeded

definition writeEntry :: "(octets \<Rightarrow> octets option) \<Rightarrow> outpoint \<Rightarrow> UtxoEntry option \<Rightarrow> bucket \<Rightarrow> bucket outcome" where
  "writeEntry parse op entry b = (case entry of
      None \<Rightarrow> Ok (dbDeleteUtxoEntry op b)
    | Some e \<Rightarrow>
        if ent_spent e then Ok (dbDeleteUtxoEntry op b)
        else if \<not> ent_modified e then Ok b
        else dbPutUtxoEntry parse op (Some e) b)"

text \<open>The entries that a failure leaves in the map come back with the outcome.\<close>

fun writeMap :: "(octets \<Rightarrow> octets option) \<Rightarrow> cmap \<Rightarrow> bucket \<Rightarrow> unit outcome \<times> cmap \<times> bucket" where
  "writeMap parse [] b = (Ok (), [], b)"
| "writeMap parse ((op, entry) # m) b = (case writeEntry parse op entry b of
      Ok b' \<Rightarrow> writeMap parse m b'
    | Err e \<Rightarrow> (Err e, (op, entry) # m, b)
    | Panic e \<Rightarrow> (Panic e, (op, entry) # m, b)
    | Blocked \<Rightarrow> (Blocked, (op, entry) # m, b))"

fun writeMaps :: "(octets \<Rightarrow> octets option) \<Rightarrow> cmap list \<Rightarrow> bucket \<Rightarrow> unit outcome \<times> cmap list \<times> bucket" where
  "writeMaps parse [] b = (Ok (), [], b)"
| "writeMaps parse (m # ms) b = (case writeMap parse m b of
      (Ok _, m', b') \<Rightarrow> (case writeMaps parse ms b' of (r, ms', b'') \<Rightarrow> (r, m' # ms', b''))
    | (r, m', b') \<Rightarrow> (r, m' # ms, b'))"

definition writeCache :: "(octets \<Rightarrow> octets option) \<Rightarrow> int \<Rightarrow> octets \<Rightarrow> (utxoCache, unit) act" where
  "writeCache parse now bestHash = (\<lambda>s. case writeMaps parse (ms_maps (cachedEntries s)) (utxoBucket s) of (r, ms, b) \<Rightarrow>
     let s1 = s\<lparr>cachedEntries := (cachedEntries s)\<lparr>ms_maps := ms\<rparr>, utxoBucket := b\<rparr> in
     (case r of
         Ok _ \<Rightarrow> (case deleteMaps (cachedEntries s1) of
             Ok c \<Rightarrow> (Ok (), s1\<lparr>cachedEntries := c, totalEntryMemory := 0, stateConsistency := Some bestHash,
               lastFlushHash := bestHash, lastFlushTime := now\<rparr>)
           | Err e \<Rightarrow> (Err e, s1) | Panic e \<Rightarrow> (Panic e, s1) | Blocked \<Rightarrow> (Blocked, s1))
       | Err e \<Rightarrow> (Err e, s1) | Panic e \<Rightarrow> (Panic e, s1) | Blocked \<Rightarrow> (Blocked, s1)))"

definition utxoFlushPeriodicInterval :: int where
  "utxoFlushPeriodicInterval = 5 * 60 * 1000000000"

definition cache_flush :: "(octets \<Rightarrow> octets option) \<Rightarrow> int \<Rightarrow> FlushMode \<Rightarrow> octets \<Rightarrow> (utxoCache, unit) act" where
  "cache_flush parse now mode bestHash = (\<lambda>s.
     let atLeast = (\<lambda>threshold. if totalMemoryUsage s \<ge> threshold then writeCache parse now bestHash s else (Ok (), s)) in
     case mode of
       FlushRequired \<Rightarrow> atLeast 0
     | FlushIfNeeded \<Rightarrow> if bestHash = lastFlushHash s then (Ok (), s) else atLeast (maxTotalMemoryUsage s)
     | FlushPeriodic \<Rightarrow> atLeast (if now - lastFlushTime s > utxoFlushPeriodicInterval then 0 else maxTotalMemoryUsage s))"

subsection \<open>The slice of maps is a map\<close>

text \<open>What the cache relies on: reading after a put and after a delete, whatever memory is left.\<close>

locale entry_map =
  fixes get :: "'m \<Rightarrow> outpoint \<rightharpoonup> UtxoEntry option"
    and put :: "outpoint \<Rightarrow> UtxoEntry option \<Rightarrow> 64 word \<Rightarrow> 'm \<Rightarrow> 'm"
    and del :: "outpoint \<Rightarrow> 'm \<Rightarrow> 'm"
    and ok :: "'m \<Rightarrow> bool"
  assumes get_put: "get (put p e x m) = (get m)(p \<mapsto> e)"
    and get_del: "get (del p m) = (get m)(p := None)"
    and ok_put: "ok m \<Longrightarrow> ok (put p e x m)"
    and ok_del: "ok m \<Longrightarrow> ok (del p m)"
begin

lemma get_put_del: "get (del p (put p e x m)) = get (del p m)" "get (put p e x (del p m)) = get (put p e y m)"
  by (simp_all add: get_put get_del)

lemma put_keeps: "q \<noteq> p \<Longrightarrow> get (put p e x m) q = get m q"
  by (simp add: get_put)

end

definition keysOf :: "cmap list \<Rightarrow> outpoint list" where
  "keysOf ms = map fst (concat ms)"

lemma keysOf_simps [simp]: "keysOf [] = []" "keysOf (m # ms) = map fst m @ keysOf ms"
  by (simp_all add: keysOf_def)

definition slice_ok :: "mapSlice \<Rightarrow> bool" where
  "slice_ok ms \<longleftrightarrow> distinct (keysOf (ms_maps ms)) \<and> length (ms_maps ms) = length (ms_maxEntries ms) \<and> ms_maps ms \<noteq> []"

lemma overwrite_get: "overwrite op e ms = Some ms' \<Longrightarrow> getFrom ms' = (getFrom ms)(op \<mapsto> e)"
proof (induction ms arbitrary: ms')
  case (Cons m ms)
  show ?case
  proof (cases "map_of m op")
    case None
    then obtain ms1 where "overwrite op e ms = Some ms1" "ms' = m # ms1" using Cons.prems by auto
    with None Cons.IH show ?thesis by (auto simp: fun_eq_iff split: option.split)
  next
    case (Some x)
    then have "ms' = AList.update op e m # ms" using Cons.prems by simp
    then show ?thesis by (auto simp: fun_eq_iff update_conv' split: option.split)
  qed
qed simp

lemma overwrite_None: "overwrite op e ms = None \<longleftrightarrow> getFrom ms op = None"
  by (induction ms) (auto split: option.split)

lemma overwrite_keys: "overwrite op e ms = Some ms' \<Longrightarrow> keysOf ms' = keysOf ms \<and> length ms' = length ms"
proof (induction ms arbitrary: ms')
  case (Cons m ms)
  show ?case
  proof (cases "map_of m op")
    case None
    then show ?thesis using Cons by auto
  next
    case (Some x)
    then have "op \<in> fst ` set m" using map_of_eq_None_iff [of m op] by simp
    moreover have "ms' = AList.update op e m # ms" using Cons.prems Some by simp
    ultimately show ?thesis by (simp add: update_keys)
  qed
qed simp

lemma getFrom_None: "getFrom ms op = None \<longleftrightarrow> op \<notin> set (keysOf ms)"
proof (induction ms)
  case (Cons m ms)
  then show ?case using map_of_eq_None_iff [of m op] by (cases "map_of m op") simp_all
qed simp

lemma addToFirst_get: "addToFirst op e ns ms = Some ms' \<Longrightarrow> getFrom ms op = None \<Longrightarrow> getFrom ms' = (getFrom ms)(op \<mapsto> e)"
proof (induction op e ns ms arbitrary: ms' rule: addToFirst.induct)
  case (1 op e maxNum ns m ms)
  have no: "map_of m op = None" "getFrom ms op = None" using 1(3) by (simp_all split: option.splits)
  show ?case
  proof (cases "int (length m) \<ge> maxNum")
    case True
    then obtain ms1 where m1: "addToFirst op e ns ms = Some ms1" "ms' = m # ms1" using 1(2) by auto
    then have "getFrom ms1 = (getFrom ms)(op \<mapsto> e)" using 1(1) [OF True _ no(2)] by blast
    with m1(2) no(1) show ?thesis by (intro ext) (auto split: option.split)
  next
    case False
    then have "ms' = AList.update op e m # ms" using 1(2) by simp
    then show ?thesis by (simp add: fun_eq_iff update_conv' split: option.split)
  qed
qed simp_all

lemma addToFirst_keys: "addToFirst op e ns ms = Some ms' \<Longrightarrow> getFrom ms op = None \<Longrightarrow> distinct (keysOf ms) \<Longrightarrow>
  distinct (keysOf ms') \<and> set (keysOf ms') = insert op (set (keysOf ms)) \<and> length ms' = length ms"
proof (induction op e ns ms arbitrary: ms' rule: addToFirst.induct)
  case (1 op e maxNum ns m ms)
  have "op \<notin> set (keysOf (m # ms))" using 1(3) by (simp only: getFrom_None not_False_eq_True)
  then have notin: "op \<notin> fst ` set m" "op \<notin> set (keysOf ms)" "getFrom ms op = None"
    by (simp_all add: getFrom_None)
  show ?case
  proof (cases "int (length m) \<ge> maxNum")
    case True
    then obtain ms1 where "addToFirst op e ns ms = Some ms1" "ms' = m # ms1" using 1(2) by auto
    then show ?thesis using 1(1) [OF True _ notin(3)] 1(4) notin by auto
  next
    case False
    then have "ms' = AList.update op e m # ms" using 1(2) by simp
    then show ?thesis using 1(4) notin by (auto simp: update_keys)
  qed
qed simp_all

lemma delete_get: "getFrom (map (AList.delete op) ms) = (getFrom ms)(op := None)"
  by (induction ms) (auto simp: fun_eq_iff delete_conv' split: option.split)

lemma delete_keys_of: "keysOf (map (AList.delete op) ms) = removeAll op (keysOf ms)"
  by (induction ms) (simp_all add: delete_keys)

lemma getFrom_append: "getFrom (ms @ ms') op = (case getFrom ms op of None \<Rightarrow> getFrom ms' op | Some e \<Rightarrow> Some e)"
  by (induction ms) (auto split: option.split)

lemma keysOf_append [simp]: "keysOf (ms @ ms') = keysOf ms @ keysOf ms'"
  by (simp add: keysOf_def)

lemma ms_put_cases:
  obtains ms' where "overwrite op e (ms_maps ms) = Some ms'" "ms_put op e x ms = ms\<lparr>ms_maps := ms'\<rparr>"
  | ms' where "getFrom (ms_maps ms) op = None" "addToFirst op e (ms_maxEntries ms) (ms_maps ms) = Some ms'" "ms_put op e x ms = ms\<lparr>ms_maps := ms'\<rparr>"
  | n where "getFrom (ms_maps ms) op = None" "ms_put op e x ms = ms\<lparr>ms_maxEntries := ms_maxEntries ms @ [n], ms_maps := ms_maps ms @ [[(op, e)]]\<rparr>"
proof (cases "overwrite op e (ms_maps ms)")
  case None
  then have g: "getFrom (ms_maps ms) op = None" by (simp only: overwrite_None)
  show ?thesis
  proof (cases "addToFirst op e (ms_maxEntries ms) (ms_maps ms)")
    case None': None
    show ?thesis using that(3) [OF g] None None' by (simp add: ms_put_def makeNewMap_def Let_def butlast_append)
  next
    case (Some ms')
    show ?thesis using that(2) [OF g Some] None Some by (simp add: ms_put_def)
  qed
next
  case (Some ms')
  then show ?thesis using that(1) by (simp add: ms_put_def)
qed

interpretation slice: entry_map ms_get ms_put ms_delete slice_ok
proof (unfold_locales, goal_cases)
  case (1 p e x m)
  have get: "ms_get m' = getFrom (ms_maps m')" for m' by (simp add: fun_eq_iff ms_get_def)
  show ?case
  proof (cases rule: ms_put_cases [of p e m x])
    case (1 ms')
    then show ?thesis by (simp add: get overwrite_get)
  next
    case (2 ms')
    then show ?thesis by (simp add: get addToFirst_get)
  next
    case (3 n)
    then show ?thesis by (auto simp: get fun_eq_iff getFrom_append split: option.split)
  qed
next
  case (2 p m)
  show ?case by (simp add: ms_get_def fun_eq_iff ms_delete_def delete_get)
next
  case (3 m p e x)
  show ?case
  proof (cases rule: ms_put_cases [of p e m x])
    case (1 ms')
    then show ?thesis using overwrite_keys [OF 1(1)] 3 by (auto simp: slice_ok_def)
  next
    case (2 ms')
    then show ?thesis using addToFirst_keys [OF 2(2,1)] 3 by (auto simp: slice_ok_def)
  next
    case (3 n)
    then show ?thesis using \<open>slice_ok m\<close> by (auto simp: slice_ok_def getFrom_None)
  qed
next
  case (4 m p)
  then show ?case by (simp add: slice_ok_def ms_delete_def delete_keys_of distinct_removeAll)
qed

subsection \<open>The ledger that cache and database represent\<close>

declare split_paired_All [simp del] split_paired_Ex [simp del]

abbreviation core :: "UtxoEntry \<Rightarrow> UtxoEntry" where
  "core e \<equiv> e\<lparr>ent_modified := False, ent_fresh := False\<rparr>"

definition coinOf :: "UtxoEntry option \<Rightarrow> UtxoEntry option" where
  "coinOf x = (case x of None \<Rightarrow> None | Some e \<Rightarrow> if ent_spent e then None else Some (core e))"

definition dbCoins :: "(octets \<Rightarrow> octets option) \<Rightarrow> utxoCache \<Rightarrow> view" where
  "dbCoins parse s = fetched (dbFetchUtxoEntry parse (utxoBucket s))"

definition ledger :: "(octets \<Rightarrow> octets option) \<Rightarrow> utxoCache \<Rightarrow> view" where
  "ledger parse s p = (case ms_get (cachedEntries s) p of Some x \<Rightarrow> coinOf x | None \<Rightarrow> dbCoins parse s p)"

text \<open>What the flags of a cached entry promise of the database: nothing under a miss or a fresh entry, the same output under
  an unmodified one.\<close>

definition entry_ok :: "(octets \<Rightarrow> octets option) \<Rightarrow> view \<Rightarrow> outpoint \<Rightarrow> UtxoEntry option \<Rightarrow> bool" where
  "entry_ok parse db p x \<longleftrightarrow> length (fst p) = 32 \<and> (case x of
      None \<Rightarrow> db p = None
    | Some e \<Rightarrow> good_entry parse e \<and> (ent_fresh e \<longrightarrow> db p = None) \<and> (\<not> ent_modified e \<longrightarrow> db p = Some (core e)))"

definition cache_inv :: "(octets \<Rightarrow> octets option) \<Rightarrow> utxoCache \<Rightarrow> bool" where
  "cache_inv parse s \<longleftrightarrow> slice_ok (cachedEntries s) \<and> sound (dbFetchUtxoEntry parse (utxoBucket s)) \<and>
    (\<forall>p e. dbCoins parse s p = Some e \<longrightarrow> good_entry parse e) \<and>
    (\<forall>p x. ms_get (cachedEntries s) p = Some x \<longrightarrow> entry_ok parse (dbCoins parse s) p x)"

lemma map_outcome_Ok: "map_outcome f r = Ok y \<longleftrightarrow> (\<exists>x. r = Ok x \<and> y = f x)"
  by (cases r) auto

lemma fetched_flags:
  assumes "dbFetchUtxoEntry parse b p = Ok (Some e)"
  shows "\<not> ent_spent e \<and> \<not> ent_modified e \<and> \<not> ent_fresh e"
  using assms
  by (auto simp: dbFetchUtxoEntry_def deserializeUtxoEntry_def map_outcome_Ok split: option.splits if_splits prod.splits outcome.splits)

lemma dbCoins_flags: "dbCoins parse s p = Some e \<Longrightarrow> \<not> ent_spent e \<and> \<not> ent_modified e \<and> \<not> ent_fresh e"
  using fetched_flags by (auto simp: dbCoins_def fetched_def split: if_splits outcome.splits)

lemma core_id: "\<not> ent_modified e \<Longrightarrow> \<not> ent_fresh e \<Longrightarrow> core e = e"
  by (cases e) simp

lemma coinOf_dbCoins [simp]: "coinOf (dbCoins parse s p) = dbCoins parse s p"
  using dbCoins_flags [of parse s p] by (auto simp: coinOf_def core_id split: option.split)

lemma dbCoins_fetch: "sound (dbFetchUtxoEntry parse (utxoBucket s)) \<Longrightarrow> length (fst p) = 32 \<Longrightarrow>
  dbFetchUtxoEntry parse (utxoBucket s) p = Ok (dbCoins parse s p)"
  by (auto simp: sound_def dbCoins_def fetched_def split: outcome.split)

lemma dbCoins_upd [simp]:
  "dbCoins parse (s\<lparr>cachedEntries := c\<rparr>) = dbCoins parse s" "dbCoins parse (s\<lparr>totalEntryMemory := n\<rparr>) = dbCoins parse s"
  by (simp_all add: dbCoins_def)

text \<open>Storing an entry that keeps the promises.\<close>

lemma cache_inv_put:
  assumes "cache_inv parse s" and "entry_ok parse (dbCoins parse s) p x"
  shows "cache_inv parse (s\<lparr>cachedEntries := ms_put p x n (cachedEntries s), totalEntryMemory := t\<rparr>)"
  using assms by (auto simp: cache_inv_def slice.get_put slice.ok_put)

lemma ledger_put: "ledger parse (s\<lparr>cachedEntries := ms_put p x n (cachedEntries s), totalEntryMemory := t\<rparr>) = (ledger parse s)(p := coinOf x)"
  by (rule ext) (simp add: ledger_def slice.get_put split: option.split)

lemma ledger_wf: "cache_inv parse s \<Longrightarrow> ledger parse s p = Some e \<Longrightarrow> length (fst p) = 32"
proof (cases "ms_get (cachedEntries s) p")
  case None
  assume "ledger parse s p = Some e"
  with None show ?thesis by (auto simp: ledger_def dbCoins_def fetched_def split: if_splits)
next
  case (Some x)
  assume "cache_inv parse s"
  with Some show ?thesis by (auto simp: cache_inv_def entry_ok_def)
qed

lemma miss_ok: "cache_inv parse s \<Longrightarrow> length (fst p) = 32 \<Longrightarrow> entry_ok parse (dbCoins parse s) p (dbCoins parse s p)"
proof (cases "dbCoins parse s p")
  case (Some e)
  assume "cache_inv parse s" "length (fst p) = 32"
  with Some dbCoins_flags [OF Some] show ?thesis by (simp add: entry_ok_def cache_inv_def core_id)
qed (simp add: entry_ok_def)

text \<open>What a step that only reads leaves: the ledger and the bucket.\<close>

definition same_ledger :: "(octets \<Rightarrow> octets option) \<Rightarrow> utxoCache \<Rightarrow> utxoCache \<Rightarrow> bool" where
  "same_ledger parse s s' \<longleftrightarrow> cache_inv parse s' \<and> ledger parse s' = ledger parse s \<and> utxoBucket s' = utxoBucket s \<and>
     stateConsistency s' = stateConsistency s"

lemma putAll_spec:
  assumes "cache_inv parse s"
    and "\<forall>(p, x) \<in> set es. length (fst p) = 32 \<and> x = dbCoins parse s p \<and> ms_get (cachedEntries s) p \<in> {None, Some x}"
  shows "same_ledger parse s (putAll es s) \<and>
    (\<forall>p. ms_get (cachedEntries (putAll es s)) p = (if p \<in> fst ` set es then Some (dbCoins parse s p) else ms_get (cachedEntries s) p))"
  using assms
proof (induction es arbitrary: s)
  case (Cons e es)
  obtain p x where e: "e = (p, x)" by (cases e)
  let ?s = "s\<lparr>cachedEntries := ms_put p x (totalEntryMemory s) (cachedEntries s), totalEntryMemory := totalEntryMemory s + memoryUsage x\<rparr>"
  have px: "length (fst p) = 32" "x = dbCoins parse s p" "ms_get (cachedEntries s) p \<in> {None, Some x}" using Cons.prems(2) e by auto
  have inv: "cache_inv parse ?s" using cache_inv_put [OF Cons.prems(1)] miss_ok [OF Cons.prems(1) px(1)] px(2) by simp
  have "coinOf x = ledger parse s p" using px(2,3) by (auto simp: ledger_def)
  then have led: "ledger parse ?s = ledger parse s" unfolding ledger_put by (simp add: fun_eq_iff)
  have db: "dbCoins parse ?s = dbCoins parse s" by simp
  have "\<forall>(q, y) \<in> set es. length (fst q) = 32 \<and> y = dbCoins parse ?s q \<and> ms_get (cachedEntries ?s) q \<in> {None, Some y}"
  proof (intro ballI, clarify)
    fix h i y assume y: "((h, i), y) \<in> set es"
    then have "length h = 32" "y = dbCoins parse s (h, i)" "ms_get (cachedEntries s) (h, i) \<in> {None, Some y}"
      using Cons.prems(2) by auto
    then show "length (fst (h, i)) = 32 \<and> y = dbCoins parse ?s (h, i) \<and> ms_get (cachedEntries ?s) (h, i) \<in> {None, Some y}"
      using px(2) by (auto simp: slice.get_put)
  qed
  from Cons.IH [OF inv this] led db px(2) show ?case
    by (auto simp: e same_ledger_def slice.get_put)
qed (simp add: same_ledger_def)

lemma fetchMissing_spec: "sound (dbFetchUtxoEntry parse (utxoBucket s)) \<Longrightarrow> \<forall>p \<in> set ops. length (fst p) = 32 \<Longrightarrow>
  fetchMissing parse (utxoBucket s) ops = Ok (map (dbCoins parse s) ops)"
  by (induction ops) (simp_all add: dbCoins_fetch)

lemma fillIn_spec: "fillIn ms ops (map f (filter (\<lambda>op. ms_get ms op = None) ops)) =
  map (\<lambda>op. case ms_get ms op of Some e \<Rightarrow> e | None \<Rightarrow> f op) ops"
  by (induction ops) (auto split: option.split)

lemma zip_map_self: "zip xs (map f xs) = map (\<lambda>x. (x, f x)) xs"
  by (induction xs) simp_all

lemma fetchEntries_spec:
  assumes "cache_inv parse s" and "\<forall>p \<in> set ops. length (fst p) = 32"
  shows "\<exists>xs s'. fetchEntries parse ops s = (Ok xs, s') \<and> same_ledger parse s s' \<and> map coinOf xs = map (ledger parse s) ops \<and>
    map (ms_get (cachedEntries s')) ops = map Some xs"
proof -
  let ?miss = "filter (\<lambda>op. ms_get (cachedEntries s) op = None) ops"
  let ?xs = "map (\<lambda>op. case ms_get (cachedEntries s) op of Some e \<Rightarrow> e | None \<Rightarrow> dbCoins parse s op) ops"
  let ?es = "zip ?miss (map (dbCoins parse s) ?miss)"
  have es: "(p, x) \<in> set ?es \<longleftrightarrow> p \<in> set ?miss \<and> x = dbCoins parse s p" for p x
    by (auto simp: zip_map_self)
  have pre: "\<forall>(p, x) \<in> set ?es. length (fst p) = 32 \<and> x = dbCoins parse s p \<and> ms_get (cachedEntries s) p \<in> {None, Some x}"
    using assms(2) es by auto
  have put: "same_ledger parse s (putAll ?es s)"
    "\<And>p. ms_get (cachedEntries (putAll ?es s)) p = (if p \<in> fst ` set ?es then Some (dbCoins parse s p) else ms_get (cachedEntries s) p)"
    using putAll_spec [OF assms(1) pre] by simp_all
  have fst_es: "fst ` set ?es = set ?miss" by (simp add: zip_map_self image_image)
  have "fetchEntries parse ops s = (Ok ?xs, putAll ?es s)"
  proof (cases "?miss = []")
    case True
    then have all: "\<forall>op \<in> set ops. ms_get (cachedEntries s) op \<noteq> None" by (simp add: filter_empty_conv)
    have "fillIn (cachedEntries s) ops [] = ?xs" using fillIn_spec [of "cachedEntries s" ops "dbCoins parse s"] True by simp
    with True show ?thesis by (simp add: fetchEntries_def)
  next
    case False
    have "fetchMissing parse (utxoBucket s) ?miss = Ok (map (dbCoins parse s) ?miss)"
      using assms by (intro fetchMissing_spec) (auto simp: cache_inv_def)
    with False show ?thesis by (simp add: fetchEntries_def fillIn_spec Let_def)
  qed
  moreover have "map coinOf ?xs = map (ledger parse s) ops"
    by (simp add: ledger_def split: option.split)
  moreover have "map (ms_get (cachedEntries (putAll ?es s))) ops = map Some ?xs"
    by (auto simp: put(2) fst_es split: option.split)
  ultimately show ?thesis using put(1) by blast
qed

subsection \<open>Connecting transactions\<close>

text \<open>The ledger after the outputs of a transaction, after a transaction and after a block: its specification.\<close>

definition newCoin :: "bool \<Rightarrow> int \<Rightarrow> TxOut \<Rightarrow> UtxoEntry" where
  "newCoin cb height out = \<lparr>amount = Value out, pkScript = PkScript out, blockHeight = height, ent_coinbase = cb,
    ent_spent = False, ent_modified = False, ent_fresh = False\<rparr>"

fun ledgerOuts :: "octets \<Rightarrow> bool \<Rightarrow> int \<Rightarrow> nat \<Rightarrow> TxOut list \<Rightarrow> view \<Rightarrow> view" where
  "ledgerOuts h cb height i [] U = U"
| "ledgerOuts h cb height i (out # outs) U = ledgerOuts h cb height (Suc i) outs
     (if IsUnspendable (PkScript out) then U else U((h, of_nat i) \<mapsto> newCoin cb height out))"

definition spentOutpoints :: "MsgTx \<Rightarrow> outpoint set" where
  "spentOutpoints tx = (if IsCoinBase tx then {} else PreviousOutPoint ` set (tx_ins tx))"

definition ledgerTx :: "MsgTx \<Rightarrow> int \<Rightarrow> view \<Rightarrow> view" where
  "ledgerTx tx height U = ledgerOuts (tx_hash tx) (IsCoinBase tx) height 0 (tx_outs tx) (U |` (- spentOutpoints tx))"

fun ledgerBlock :: "MsgTx list \<Rightarrow> int \<Rightarrow> view \<Rightarrow> view" where
  "ledgerBlock [] height U = U"
| "ledgerBlock (tx # txs) height U = ledgerBlock txs height (ledgerTx tx height U)"

text \<open>A transaction spends outputs of the ledger, each once; a block does so one transaction after the other.\<close>

definition canSpend :: "view \<Rightarrow> MsgTx \<Rightarrow> bool" where
  "canSpend U tx \<longleftrightarrow> IsCoinBase tx \<or>
    (distinct (map PreviousOutPoint (tx_ins tx)) \<and> (\<forall>i \<in> set (tx_ins tx). PreviousOutPoint i \<in> dom U))"

fun canConnect :: "view \<Rightarrow> int \<Rightarrow> MsgTx list \<Rightarrow> bool" where
  "canConnect U height [] = True"
| "canConnect U height (tx # txs) \<longleftrightarrow> canSpend U tx \<and> canConnect (ledgerTx tx height U) height txs"

definition spentCoins :: "view \<Rightarrow> MsgTx \<Rightarrow> SpentTxOut list" where
  "spentCoins U tx = (if IsCoinBase tx then [] else map (\<lambda>i. stxoOf (the (U (PreviousOutPoint i)))) (tx_ins tx))"

fun blockSpends :: "view \<Rightarrow> int \<Rightarrow> MsgTx list \<Rightarrow> SpentTxOut list" where
  "blockSpends U height [] = []"
| "blockSpends U height (tx # txs) = spentCoins U tx @ blockSpends (ledgerTx tx height U) height txs"

text \<open>The outputs of a transaction can be stored.\<close>

definition storable_tx :: "int \<Rightarrow> MsgTx \<Rightarrow> bool" where
  "storable_tx height tx \<longleftrightarrow> length (tx_hash tx) = 32 \<and> (\<forall>out \<in> set (tx_outs tx). storable (Value out) (PkScript out) height)"

text \<open>A step that takes the ledger to \<open>U\<close> and leaves the bucket.\<close>

definition moves :: "(octets \<Rightarrow> octets option) \<Rightarrow> utxoCache \<Rightarrow> view \<Rightarrow> utxoCache \<Rightarrow> bool" where
  "moves parse s U s' \<longleftrightarrow> cache_inv parse s' \<and> ledger parse s' = U \<and> utxoBucket s' = utxoBucket s \<and> stateConsistency s' = stateConsistency s"

lemma dbCoins_bucket: "utxoBucket s' = utxoBucket s \<Longrightarrow> dbCoins parse s' = dbCoins parse s"
  by (simp add: dbCoins_def)

lemma addTxIn_spec:
  assumes "cache_inv parse s" and c: "ledger parse s (PreviousOutPoint i) = Some c"
  shows "\<exists>s'. addTxIn parse i stxos s = (Ok (map_option (\<lambda>ts. ts @ [stxoOf c]) stxos), s') \<and>
    moves parse s ((ledger parse s)(PreviousOutPoint i := None)) s'"
proof -
  let ?p = "PreviousOutPoint i"
  have len: "\<forall>p \<in> set [?p]. length (fst p) = 32" using ledger_wf [OF assms] by simp
  obtain xs s1 where f: "fetchEntries parse [?p] s = (Ok xs, s1)" "same_ledger parse s s1" "map coinOf xs = map (ledger parse s) [?p]"
    "map (ms_get (cachedEntries s1)) [?p] = map Some xs" using fetchEntries_spec [OF assms(1) len] by blast
  have "length xs = 1" using f(3) by (metis length_map One_nat_def length_Cons list.size(3))
  then obtain x where xs: "xs = [x]" by (metis One_nat_def length_0_conv length_Suc_conv)
  with f(3) c obtain e where e: "x = Some e" "\<not> ent_spent e" "c = core e"
    by (auto simp: coinOf_def split: option.splits if_splits)
  have g: "ms_get (cachedEntries s1) ?p = Some (Some e)" using f(4) xs e(1) by simp
  have inv: "cache_inv parse s1" and led: "ledger parse s1 = ledger parse s" and b: "utxoBucket s1 = utxoBucket s" "stateConsistency s1 = stateConsistency s"
    using f(2) by (simp_all add: same_ledger_def)
  have ok: "entry_ok parse (dbCoins parse s1) ?p (Some e)" using inv g by (simp add: cache_inv_def)
  let ?s = "spendCached ?p e s1"
  have sp: "ent_fresh (Spend e) = ent_fresh e" "ent_spent (Spend e)" "ent_modified (Spend e)"
    "amount (Spend e) = amount e" "pkScript (Spend e) = pkScript e" "blockHeight (Spend e) = blockHeight e"
    using e(2) by (simp_all add: Spend_def)
  have "cache_inv parse ?s \<and> ledger parse ?s = (ledger parse s1)(?p := None) \<and> utxoBucket ?s = utxoBucket s1 \<and> stateConsistency ?s = stateConsistency s1"
  proof (cases "ent_fresh e")
    case True
    then have "dbCoins parse s1 ?p = None" using ok by (simp add: entry_ok_def)
    then show ?thesis using inv True
      by (auto simp: spendCached_def sp cache_inv_def slice.get_del slice.ok_del ledger_def fun_eq_iff split: option.split)
  next
    case False
    obtain ms' where o: "overwrite ?p (Some (Spend e)) (ms_maps (cachedEntries s1)) = Some ms'"
      using g overwrite_None [of ?p "Some (Spend e)" "ms_maps (cachedEntries s1)"] by (auto simp: ms_get_def)
    have g': "ms_get ((cachedEntries s1)\<lparr>ms_maps := ms'\<rparr>) = (ms_get (cachedEntries s1))(?p \<mapsto> Some (Spend e))"
      using overwrite_get [OF o] by (simp add: ms_get_def fun_eq_iff)
    have so: "slice_ok ((cachedEntries s1)\<lparr>ms_maps := ms'\<rparr>)" using overwrite_keys [OF o] inv by (auto simp: slice_ok_def cache_inv_def)
    have "entry_ok parse (dbCoins parse s1) ?p (Some (Spend e))" using ok False by (simp add: entry_ok_def sp good_entry_def)
    then show ?thesis using inv False so sp(2)
      by (auto simp: spendCached_def sp(1) o cache_inv_def g' ledger_def fun_eq_iff coinOf_def split: option.split)
  qed
  moreover have "addTxIn parse i stxos s = (Ok (map_option (\<lambda>ts. ts @ [stxoOf e]) stxos), ?s)"
    using f(1) by (simp add: addTxIn_def bind_act_def xs e(1) act_defs)
  moreover have "stxoOf c = stxoOf e" by (simp add: e(3) stxoOf_def)
  ultimately show ?thesis using led b by (simp add: moves_def)
qed

lemma addIns_spec:
  assumes "cache_inv parse s" and "distinct (map PreviousOutPoint is)" and "\<forall>i \<in> set is. PreviousOutPoint i \<in> dom (ledger parse s)"
  shows "\<exists>s'. addIns parse is stxos s = (Ok (map_option (\<lambda>ts. ts @ map (\<lambda>i. stxoOf (the (ledger parse s (PreviousOutPoint i)))) is) stxos), s') \<and>
    moves parse s (ledger parse s |` (- (PreviousOutPoint ` set is))) s'"
  using assms
proof (induction "is" arbitrary: s stxos)
  case Nil
  then show ?case by (simp add: act_defs moves_def option.map_ident)
next
  case (Cons i "is")
  let ?p = "PreviousOutPoint i"
  obtain c where c: "ledger parse s ?p = Some c" using Cons.prems(3) by auto
  obtain s1 where s1: "addTxIn parse i stxos s = (Ok (map_option (\<lambda>ts. ts @ [stxoOf c]) stxos), s1)"
    "moves parse s ((ledger parse s)(?p := None)) s1" using addTxIn_spec [OF Cons.prems(1) c] by blast
  have m: "cache_inv parse s1" "ledger parse s1 = (ledger parse s)(?p := None)" "utxoBucket s1 = utxoBucket s" "stateConsistency s1 = stateConsistency s"
    using s1(2) by (simp_all add: moves_def)
  have other: "PreviousOutPoint j \<noteq> ?p" if "j \<in> set is" for j
  proof -
    have "?p \<notin> PreviousOutPoint ` set is" using Cons.prems(2) by simp
    with that show ?thesis by (metis imageI)
  qed
  have same: "ledger parse s1 (PreviousOutPoint j) = ledger parse s (PreviousOutPoint j)" if "j \<in> set is" for j
    using other [OF that] by (simp add: m(2))
  have d: "distinct (map PreviousOutPoint is)" using Cons.prems(2) by simp
  have dom: "\<forall>j \<in> set is. PreviousOutPoint j \<in> dom (ledger parse s1)"
    using Cons.prems(3) same by (simp add: domIff)
  obtain s2 where s2: "addIns parse is (map_option (\<lambda>ts. ts @ [stxoOf c]) stxos) s1 =
      (Ok (map_option (\<lambda>ts. ts @ map (\<lambda>j. stxoOf (the (ledger parse s1 (PreviousOutPoint j)))) is) (map_option (\<lambda>ts. ts @ [stxoOf c]) stxos)), s2)"
    "moves parse s1 (ledger parse s1 |` (- (PreviousOutPoint ` set is))) s2"
    using Cons.IH [OF m(1) d dom] by blast
  have maps: "map (\<lambda>j. stxoOf (the (ledger parse s1 (PreviousOutPoint j)))) is = map (\<lambda>j. stxoOf (the (ledger parse s (PreviousOutPoint j)))) is"
    using same by (intro map_cong) simp_all
  have led: "(ledger parse s)(?p := None) |` (- (PreviousOutPoint ` set is)) = ledger parse s |` (- (PreviousOutPoint ` set (i # is)))"
    by (auto simp: restrict_map_def fun_eq_iff)
  have "addIns parse (i # is) stxos s = (Ok (map_option (\<lambda>ts. ts @ map (\<lambda>j. stxoOf (the (ledger parse s (PreviousOutPoint j)))) (i # is)) stxos), s2)"
    using s1(1) s2(1) unfolding maps by (simp add: bind_act_def option.map_comp o_def c)
  moreover have "moves parse s (ledger parse s |` (- (PreviousOutPoint ` set (i # is)))) s2"
    using s2(2) m(2-4) led by (simp add: moves_def)
  ultimately show ?case by blast
qed

lemma addOuts_refines:
  assumes "cache_inv parse s" and "key_laws parse" and "length h = 32" and "\<forall>out \<in> set outs. storable (Value out) (PkScript out) ht"
    and "\<forall>j. dbCoins parse s (h, j) = None"
  shows "moves parse s (ledgerOuts h cb ht i outs (ledger parse s)) (cache_addOuts h cb ht i outs s)"
  using assms
proof (induction outs arbitrary: i s)
  case (Cons out outs)
  let ?s = "cache_addTxOut (h, of_nat i) out cb ht s"
  let ?e = "\<lparr>amount = Value out, pkScript = PkScript out, blockHeight = ht, ent_coinbase = cb, ent_spent = False, ent_modified = True, ent_fresh = True\<rparr>"
  have ok: "entry_ok parse (dbCoins parse s) (h, of_nat i) (Some ?e)"
    using Cons.prems by (simp add: entry_ok_def good_entry_def)
  have step: "cache_inv parse ?s" "utxoBucket ?s = utxoBucket s" "stateConsistency ?s = stateConsistency s"
    "ledger parse ?s = (if IsUnspendable (PkScript out) then ledger parse s else (ledger parse s)((h, of_nat i) \<mapsto> newCoin cb ht out))"
    using Cons.prems(1) cache_inv_put [OF Cons.prems(1) ok]
    by (simp_all add: cache_addTxOut_def Let_def ledger_put) (simp add: coinOf_def newCoin_def)
  have "moves parse ?s (ledgerOuts h cb ht (Suc i) outs (ledger parse ?s)) (cache_addOuts h cb ht (Suc i) outs ?s)"
    using Cons.prems by (intro Cons.IH step(1)) (auto simp: dbCoins_bucket [OF step(2)])
  then show ?case using step(2-4) by (simp add: moves_def)
qed (simp add: moves_def)

lemma connectTx_refines:
  assumes "cache_inv parse s" and "key_laws parse" and "storable_tx ht tx" and "canSpend (ledger parse s) tx"
    and "\<forall>j. dbCoins parse s (tx_hash tx, j) = None"
  shows "\<exists>s'. cache_connectTransaction parse tx ht stxos s = (Ok (map_option (\<lambda>ts. ts @ spentCoins (ledger parse s) tx) stxos), s') \<and>
    moves parse s (ledgerTx tx ht (ledger parse s)) s'"
proof -
  let ?U = "ledger parse s |` (- spentOutpoints tx)" and ?st = "map_option (\<lambda>ts. ts @ spentCoins (ledger parse s) tx) stxos"
  have "\<exists>s1. addTxIns parse tx stxos s = (Ok ?st, s1) \<and> moves parse s ?U s1"
  proof (cases "IsCoinBase tx")
    case True
    then show ?thesis using assms(1)
      by (simp add: addTxIns_def act_defs spentCoins_def spentOutpoints_def moves_def option.map_ident restrict_map_def)
  next
    case False
    then show ?thesis using addIns_spec [OF assms(1), of "tx_ins tx" stxos] assms(4)
      by (simp add: canSpend_def addTxIns_def spentCoins_def spentOutpoints_def)
  qed
  then obtain s1 where s1: "addTxIns parse tx stxos s = (Ok ?st, s1)" "cache_inv parse s1" "ledger parse s1 = ?U" "utxoBucket s1 = utxoBucket s"
    "stateConsistency s1 = stateConsistency s" by (auto simp: moves_def)
  have "moves parse s1 (ledgerOuts (tx_hash tx) (IsCoinBase tx) ht 0 (tx_outs tx) (ledger parse s1)) (cache_addTxOuts tx ht s1)"
    unfolding cache_addTxOuts_def
    using assms(3,5) by (intro addOuts_refines s1(2) assms(2)) (auto simp: storable_tx_def dbCoins_bucket [OF s1(4)])
  with s1 show ?thesis
    by (intro exI [of _ "cache_addTxOuts tx ht s1"]) (simp add: cache_connectTransaction_def bind_act_def act_defs moves_def ledgerTx_def)
qed

lemma connectBlock_refines:
  assumes "cache_inv parse s" and "key_laws parse" and "\<forall>tx \<in> set txs. storable_tx ht tx" and "canConnect (ledger parse s) ht txs"
    and "\<forall>tx \<in> set txs. \<forall>j. dbCoins parse s (tx_hash tx, j) = None"
  shows "\<exists>s'. cache_connectTransactions parse txs ht stxos s = (Ok (map_option (\<lambda>ts. ts @ blockSpends (ledger parse s) ht txs) stxos), s') \<and>
    moves parse s (ledgerBlock txs ht (ledger parse s)) s'"
  using assms
proof (induction txs arbitrary: s stxos)
  case Nil
  then show ?case by (simp add: act_defs moves_def option.map_ident)
next
  case (Cons tx txs)
  obtain s1 where s1: "cache_connectTransaction parse tx ht stxos s = (Ok (map_option (\<lambda>ts. ts @ spentCoins (ledger parse s) tx) stxos), s1)"
    "moves parse s (ledgerTx tx ht (ledger parse s)) s1"
    using connectTx_refines [of parse s ht tx stxos] Cons.prems by auto
  have m: "cache_inv parse s1" "ledger parse s1 = ledgerTx tx ht (ledger parse s)" "utxoBucket s1 = utxoBucket s" "stateConsistency s1 = stateConsistency s"
    using s1(2) by (simp_all add: moves_def)
  obtain s2 where s2: "cache_connectTransactions parse txs ht (map_option (\<lambda>ts. ts @ spentCoins (ledger parse s) tx) stxos) s1 =
      (Ok (map_option (\<lambda>ts. ts @ blockSpends (ledger parse s1) ht txs) (map_option (\<lambda>ts. ts @ spentCoins (ledger parse s) tx) stxos)), s2)"
    "moves parse s1 (ledgerBlock txs ht (ledger parse s1)) s2"
    using Cons.IH [OF m(1), of "map_option (\<lambda>ts. ts @ spentCoins (ledger parse s) tx) stxos"] Cons.prems m(2)
    by (auto simp: dbCoins_bucket [OF m(3)])
  then show ?case using s1(1) m(2-4) by (intro exI [of _ s2]) (simp add: bind_act_def option.map_comp o_def moves_def)
qed

subsection \<open>Flushing moves the ledger to the database\<close>

lemma writeEntry_spec:
  assumes "sound (dbFetchUtxoEntry parse b)" and "length (fst p) = 32" and "\<forall>e. x = Some e \<longrightarrow> good_entry parse e"
  shows "\<exists>b'. writeEntry parse p x b = Ok b' \<and> sound (dbFetchUtxoEntry parse b') \<and>
    fetched (dbFetchUtxoEntry parse b') = (case x of
        Some e \<Rightarrow> if \<not> ent_spent e \<and> \<not> ent_modified e then fetched (dbFetchUtxoEntry parse b)
          else (fetched (dbFetchUtxoEntry parse b))(p := coinOf x)
      | None \<Rightarrow> (fetched (dbFetchUtxoEntry parse b))(p := coinOf x))"
proof (cases x)
  case None
  then show ?thesis using coins.sound_delete [OF assms(1,2)] by (simp add: writeEntry_def coinOf_def)
next
  case (Some e)
  then have good: "good_entry parse e" using assms(3) by simp
  show ?thesis
    using coins.sound_delete [OF assms(1,2)] coins.sound_store [OF assms(1) good _ assms(2)] assms(1) Some
    by (cases "ent_spent e"; cases "ent_modified e") (auto simp: writeEntry_def coinOf_def)
qed

text \<open>The outputs of the database after the entries of a list are written.\<close>

lemma writeMap_spec:
  assumes "sound (dbFetchUtxoEntry parse b)" and "distinct (map fst es)"
    and "\<forall>(p, x) \<in> set es. entry_ok parse (fetched (dbFetchUtxoEntry parse b)) p x"
  shows "\<exists>b'. writeMap parse es b = (Ok (), [], b') \<and> sound (dbFetchUtxoEntry parse b') \<and>
    fetched (dbFetchUtxoEntry parse b') = (\<lambda>p. case map_of es p of Some x \<Rightarrow> coinOf x | None \<Rightarrow> fetched (dbFetchUtxoEntry parse b) p)"
  using assms
proof (induction es arbitrary: b)
  case (Cons px es)
  obtain p x where px: "px = (p, x)" by (cases px)
  let ?db = "fetched (dbFetchUtxoEntry parse b)"
  have ok: "entry_ok parse ?db p x" using Cons.prems(3) px by simp
  obtain b1 where b1: "writeEntry parse p x b = Ok b1" "sound (dbFetchUtxoEntry parse b1)" "fetched (dbFetchUtxoEntry parse b1) = ?db(p := coinOf x)"
  proof -
    have "?db p = coinOf x" if "x = Some e" "\<not> ent_spent e" "\<not> ent_modified e" for e
      using that ok by (simp add: entry_ok_def coinOf_def)
    then have "(case x of Some e \<Rightarrow> if \<not> ent_spent e \<and> \<not> ent_modified e then ?db else ?db(p := coinOf x) | None \<Rightarrow> ?db(p := coinOf x)) = ?db(p := coinOf x)"
      by (auto simp: fun_upd_idem split: option.split)
    moreover have "length (fst p) = 32" "\<forall>e. x = Some e \<longrightarrow> good_entry parse e" using ok by (auto simp: entry_ok_def)
    ultimately show ?thesis using writeEntry_spec [OF Cons.prems(1), of p x] that by metis
  qed
  have notin: "p \<notin> fst ` set es" and d: "distinct (map fst es)" using Cons.prems(2) px by simp_all
  have "\<forall>(q, y) \<in> set es. entry_ok parse (fetched (dbFetchUtxoEntry parse b1)) q y"
  proof (clarify)
    fix h i y assume y: "((h, i), y) \<in> set es"
    then have "(h, i) \<noteq> p" using notin by (metis fst_conv imageI)
    moreover have "entry_ok parse ?db (h, i) y" using Cons.prems(3) y by auto
    ultimately show "entry_ok parse (fetched (dbFetchUtxoEntry parse b1)) (h, i) y"
      unfolding b1(3) by (cases y) (simp_all add: entry_ok_def)
  qed
  from Cons.IH [OF b1(2) d this] obtain b2 where b2: "writeMap parse es b1 = (Ok (), [], b2)" "sound (dbFetchUtxoEntry parse b2)"
    "fetched (dbFetchUtxoEntry parse b2) = (\<lambda>q. case map_of es q of Some y \<Rightarrow> coinOf y | None \<Rightarrow> (?db(p := coinOf x)) q)"
    unfolding b1(3) by blast
  have "map_of es p = None" using notin by (simp add: map_of_eq_None_iff)
  then show ?case using b1(1) b2 by (intro exI [of _ b2]) (auto simp: px fun_eq_iff split: option.split)
qed simp

lemma writeMaps_append:
  "writeMap parse (concat ms) b = (Ok (), [], b') \<Longrightarrow> writeMaps parse ms b = (Ok (), map (\<lambda>_. []) ms, b')"
proof (induction ms arbitrary: b)
  case (Cons m ms)
  have split: "writeMap parse (m1 @ m2) c = (Ok (), [], c') \<Longrightarrow>
      \<exists>c1. writeMap parse m1 c = (Ok (), [], c1) \<and> writeMap parse m2 c1 = (Ok (), [], c')" for m1 m2 c c'
    by (induction m1 arbitrary: c) (auto split: outcome.splits)
  obtain b1 where "writeMap parse m b = (Ok (), [], b1)" "writeMap parse (concat ms) b1 = (Ok (), [], b')"
    using split [of m "concat ms" b b'] Cons.prems by auto
  with Cons.IH show ?case by simp
qed simp

lemma getFrom_concat: "getFrom ms p = map_of (concat ms) p"
  by (induction ms) (auto simp: map_add_def split: option.split)

lemma writeCache_spec:
  assumes "cache_inv parse s"
  shows "\<exists>s'. writeCache parse now h s = (Ok (), s') \<and> cache_inv parse s' \<and> ledger parse s' = ledger parse s \<and>
    dbCoins parse s' = ledger parse s \<and> ms_length (cachedEntries s') = 0 \<and> stateConsistency s' = Some h"
proof -
  let ?ms = "ms_maps (cachedEntries s)" and ?db = "dbFetchUtxoEntry parse (utxoBucket s)"
  have inv: "distinct (map fst (concat ?ms))" "length ?ms = length (ms_maxEntries (cachedEntries s))" "?ms \<noteq> []" "sound ?db"
    "\<And>p e. dbCoins parse s p = Some e \<Longrightarrow> good_entry parse e"
    "\<And>p x. ms_get (cachedEntries s) p = Some x \<Longrightarrow> entry_ok parse (fetched ?db) p x"
    using assms by (auto simp: cache_inv_def slice_ok_def keysOf_def dbCoins_def)
  have get: "ms_get (cachedEntries s) = map_of (concat ?ms)" by (simp add: fun_eq_iff ms_get_def getFrom_concat)
  have pre: "\<forall>(p, x) \<in> set (concat ?ms). entry_ok parse (fetched ?db) p x"
  proof (clarify)
    fix h i x assume "((h, i), x) \<in> set (concat ?ms)"
    then have "ms_get (cachedEntries s) (h, i) = Some x" unfolding get using inv(1) by (simp only: map_of_eq_Some_iff)
    then show "entry_ok parse (fetched ?db) (h, i) x" by (rule inv(6))
  qed
  have led0: "ledger parse s = (\<lambda>p. case map_of (concat ?ms) p of Some x \<Rightarrow> coinOf x | None \<Rightarrow> fetched ?db p)"
    by (rule ext) (simp add: ledger_def get dbCoins_def split: option.split)
  from writeMap_spec [OF inv(4,1) pre] obtain b where b: "writeMap parse (concat ?ms) (utxoBucket s) = (Ok (), [], b)"
    "sound (dbFetchUtxoEntry parse b)" "fetched (dbFetchUtxoEntry parse b) = ledger parse s"
    unfolding led0 by blast
  have ne: "ms_maxEntries (cachedEntries s) \<noteq> []" using inv(2,3) by auto
  let ?c = "\<lparr>ms_maps = [[]], ms_maxEntries = [ms_maxEntries (cachedEntries s) ! 0], ms_maxTotal = ms_maxTotal (cachedEntries s)\<rparr>"
  let ?s = "s\<lparr>cachedEntries := ?c, totalEntryMemory := 0, lastFlushHash := h, lastFlushTime := now, utxoBucket := b, stateConsistency := Some h\<rparr>"
  have "take 1 (map (\<lambda>_. []) ?ms) = [[] :: cmap]" using inv(3) by (cases ?ms) simp_all
  then have w: "writeCache parse now h s = (Ok (), ?s)"
    using writeMaps_append [OF b(1)] ne inv(3) by (simp add: writeCache_def deleteMaps_def Let_def)
  have empty: "ms_get ?c = Map.empty" by (simp add: fun_eq_iff ms_get_def)
  have db: "dbCoins parse ?s = ledger parse s" using b(3) by (simp add: dbCoins_def)
  have led: "ledger parse ?s = ledger parse s" using db by (simp add: ledger_def fun_eq_iff empty)
  have good: "good_entry parse e" if "ledger parse s p = Some e" for p e
  proof (cases "ms_get (cachedEntries s) p")
    case None
    with that show ?thesis by (simp add: ledger_def inv(5))
  next
    case (Some x)
    with that inv(6) [OF Some] show ?thesis by (auto simp: ledger_def coinOf_def entry_ok_def good_entry_def split: option.splits if_splits)
  qed
  have "cache_inv parse ?s" unfolding cache_inv_def db using b(2) good empty by (simp add: slice_ok_def)
  with w led db show ?thesis by (simp add: ms_length_def)
qed

lemma flush_spec:
  assumes "cache_inv parse s"
  shows "\<exists>s'. cache_flush parse now mode h s = (Ok (), s') \<and> cache_inv parse s' \<and> ledger parse s' = ledger parse s \<and>
    (mode = FlushRequired \<longrightarrow> dbCoins parse s' = ledger parse s \<and> ms_length (cachedEntries s') = 0 \<and> stateConsistency s' = Some h)"
proof -
  obtain s' where w: "writeCache parse now h s = (Ok (), s')" "cache_inv parse s'" "ledger parse s' = ledger parse s"
    "dbCoins parse s' = ledger parse s" "ms_length (cachedEntries s') = 0" "stateConsistency s' = Some h"
    using writeCache_spec [OF assms] by blast
  have "cache_flush parse now mode h s \<in> {(Ok (), s), (Ok (), s')}" "mode = FlushRequired \<Longrightarrow> cache_flush parse now mode h s = (Ok (), s')"
    using w(1) by (auto simp: cache_flush_def Let_def split: FlushMode.split)
  with w assms show ?thesis by (cases "mode = FlushRequired") (auto intro: exI [of _ s] exI [of _ s'])
qed

subsection \<open>Statements\<close>

text \<open>C7: Cache and database are the ledger.  Connecting the transactions of a block to the cache succeeds when they spend, one
  after the other, outputs of the ledger that cache and database represent, each once, and the database
  holds nothing yet under their hashes; the cache then represents the ledger with those outputs removed and the spendable new
  ones added, the spent outputs are appended to the spend journal in the order of the inputs, and the promises of the
  flags still hold, whatever part of the ledger is cached, however the entries are spread over the maps, and with no write to the
  database.\<close>

theorem utxo_cache_refines_ledger:
  assumes "cache_inv parse s" and "key_laws parse" and "\<forall>tx \<in> set txs. storable_tx ht tx" and "canConnect (ledger parse s) ht txs"
    and "\<forall>tx \<in> set txs. \<forall>j. dbCoins parse s (tx_hash tx, j) = None"
  shows "\<exists>s'. cache_connectTransactions parse txs ht (Some stxos) s = (Ok (Some (stxos @ blockSpends (ledger parse s) ht txs)), s') \<and>
    cache_inv parse s' \<and> ledger parse s' = ledgerBlock txs ht (ledger parse s) \<and> utxoBucket s' = utxoBucket s"
  using connectBlock_refines [OF assms, of "Some stxos"] by (auto simp: moves_def)

text \<open>C20: A flush moves the ledger, it does not change it.  In every mode the flush succeeds, keeps the invariant of the cache
  and the ledger; a required flush leaves the cache empty, the whole ledger in the database and the block's hash as the
  one the database is consistent with.\<close>

theorem flush_keeps_ledger:
  assumes "cache_inv parse s"
  shows "\<exists>s'. cache_flush parse now mode h s = (Ok (), s') \<and> cache_inv parse s' \<and> ledger parse s' = ledger parse s \<and>
    (mode = FlushRequired \<longrightarrow> dbCoins parse s' = ledger parse s \<and> ms_length (cachedEntries s') = 0 \<and> stateConsistency s' = Some h)"
  using assms by (rule flush_spec)

text \<open>C40: An output created a second time comes back after it is spent.  \<open>addTxOut\<close> marks every output fresh, although the
  database may still hold an earlier output under the same outpoint, spent in the cache but not yet flushed.  When the new output
  is spent, the fresh entry is deleted, nothing remembers that the database's output was spent, and the ledger
  has it again: it can be spent once more.\<close>

theorem recreated_output_returns:
  assumes "cache_inv parse s" and "dbCoins parse s (PreviousOutPoint i) = Some old"
    and "ms_get (cachedEntries s) (PreviousOutPoint i) = Some (Some e)" and "ent_spent e" and "\<not> IsUnspendable (PkScript out)"
  shows "ledger parse s (PreviousOutPoint i) = None \<and>
    (\<exists>s'. addTxIn parse i stxos (cache_addTxOut (PreviousOutPoint i) out cb ht s) =
        (Ok (map_option (\<lambda>ts. ts @ [stxoOf (newCoin cb ht out)]) stxos), s') \<and>
      ledger parse s' (PreviousOutPoint i) = Some old)"
proof -
  let ?p = "PreviousOutPoint i" and ?s = "cache_addTxOut (PreviousOutPoint i) out cb ht s"
  let ?e = "\<lparr>amount = Value out, pkScript = PkScript out, blockHeight = ht, ent_coinbase = cb, ent_spent = False, ent_modified = True, ent_fresh = True\<rparr>"
  have g: "ms_get (cachedEntries ?s) ?p = Some (Some ?e)" using assms(5) by (simp add: cache_addTxOut_def Let_def slice.get_put)
  have f: "fetchEntries parse [?p] ?s = (Ok [Some ?e], ?s)" using g by (simp add: fetchEntries_def)
  have fresh: "ent_fresh (Spend ?e)" by (simp add: Spend_def)
  have "addTxIn parse i stxos ?s = (Ok (map_option (\<lambda>ts. ts @ [stxoOf ?e]) stxos), spendCached ?p ?e ?s)"
    using f by (simp add: addTxIn_def bind_act_def act_defs)
  moreover have "stxoOf ?e = stxoOf (newCoin cb ht out)" by (simp add: stxoOf_def newCoin_def)
  moreover have "dbCoins parse (spendCached ?p ?e ?s) = dbCoins parse s"
    using assms(5) by (simp add: spendCached_def fresh cache_addTxOut_def Let_def)
  moreover have "ms_get (cachedEntries (spendCached ?p ?e ?s)) ?p = None" by (simp add: spendCached_def fresh slice.get_del)
  ultimately have "addTxIn parse i stxos ?s = (Ok (map_option (\<lambda>ts. ts @ [stxoOf (newCoin cb ht out)]) stxos), spendCached ?p ?e ?s) \<and>
      ledger parse (spendCached ?p ?e ?s) ?p = Some old" using assms(2) by (simp add: ledger_def)
  moreover have "ledger parse s ?p = None" using assms(3,4) by (simp add: ledger_def coinOf_def)
  ultimately show ?thesis by blast
qed

subsection \<open>Examples\<close>

text \<open>A database with one output, and a transaction that spends it.\<close>

definition coinHash :: octets where
  "coinHash = 7 # replicate 31 0"

definition demoBucket :: bucket where
  "demoBucket = (case dbPutUtxoEntry oneKey (coinHash, 0) (Some demoEntry) Map.empty of Ok b \<Rightarrow> b | _ \<Rightarrow> Map.empty)"

definition demoCache :: utxoCache where
  "demoCache = newUtxoCache demoBucket None 1000000"

definition demoSpend :: MsgTx where
  "demoSpend = \<lparr>tx_hash = zeroHash, tx_ins = [\<lparr>PreviousOutPoint = (coinHash, 0), SignatureScript = [], Witness = [], Sequence = 0\<rparr>],
    tx_outs = [\<lparr>Value = 5000000000, PkScript = [0x51]\<rparr>], tx_version = 1, tx_lockTime = 0, tx_witnessHash = []\<rparr>"

lemma coinHash_nonzero: "coinHash \<noteq> zeroHash" "zeroHash \<noteq> coinHash" "length coinHash = 32" "length zeroHash = 32"
proof -
  have "hd coinHash = 7" "hd zeroHash = 0" by (simp_all add: coinHash_def zeroHash_def)
  then show "coinHash \<noteq> zeroHash" "zeroHash \<noteq> coinHash" by auto
qed (simp_all add: coinHash_def zeroHash_def)

lemma demo_db: "dbCoins oneKey demoCache = [(coinHash, 0) \<mapsto> core demoEntry]" "sound (dbFetchUtxoEntry oneKey demoBucket)"
  and demo_cached: "ms_get (cachedEntries demoCache) = Map.empty"
proof -
  have good: "good_entry oneKey demoEntry" "\<not> ent_spent demoEntry" by (simp_all add: good_entry_def oneKey_laws storable_def demoEntry_def)
  have none: "sound (dbFetchUtxoEntry oneKey Map.empty)" "fetched (dbFetchUtxoEntry oneKey Map.empty) = Map.empty"
    by (auto simp: sound_def fetched_def dbFetchUtxoEntry_def fun_eq_iff)
  have "length (fst (coinHash, 0 :: 32 word)) = 32" by (simp add: coinHash_def)
  from coins.sound_store [OF none(1) good this] none(2)
  show "dbCoins oneKey demoCache = [(coinHash, 0) \<mapsto> core demoEntry]" "sound (dbFetchUtxoEntry oneKey demoBucket)"
    by (auto simp: demoBucket_def dbCoins_def demoCache_def newUtxoCache_def)
  show "ms_get (cachedEntries demoCache) = Map.empty" by (simp add: demoCache_def newUtxoCache_def ms_get_def fun_eq_iff)
qed

lemma demo_inv: "cache_inv oneKey demoCache" "ledger oneKey demoCache = [(coinHash, 0) \<mapsto> core demoEntry]"
proof -
  have "slice_ok (cachedEntries demoCache)" by (simp add: demoCache_def newUtxoCache_def slice_ok_def)
  moreover have "utxoBucket demoCache = demoBucket" by (simp add: demoCache_def newUtxoCache_def)
  moreover have "good_entry oneKey (core demoEntry)" by (simp add: good_entry_def oneKey_laws storable_def demoEntry_def)
  ultimately show "cache_inv oneKey demoCache"
    using demo_db(2) by (simp add: cache_inv_def demo_db(1) demo_cached)
  show "ledger oneKey demoCache = [(coinHash, 0) \<mapsto> core demoEntry]"
    by (simp add: ledger_def fun_eq_iff demo_cached demo_db(1))
qed

lemma demo_spend: "\<not> IsCoinBase demoSpend" "canConnect (ledger oneKey demoCache) 10 [demoSpend]" "storable_tx 10 demoSpend"
  "\<forall>j. dbCoins oneKey demoCache (tx_hash demoSpend, j) = None"
  by (auto simp: IsCoinBase_def demoSpend_def coinHash_nonzero canSpend_def demo_inv(2) storable_tx_def storable_def demo_db(1))

theorem utxo_cache_refines_ledger_witness:
  "\<exists>s'. cache_connectTransactions oneKey [demoSpend] 10 (Some []) demoCache = (Ok (Some [stxoOf demoEntry]), s') \<and>
    ledger oneKey s' (coinHash, 0) = None"
proof -
  obtain s' where s': "cache_connectTransactions oneKey [demoSpend] 10 (Some []) demoCache =
      (Ok (Some ([] @ blockSpends (ledger oneKey demoCache) 10 [demoSpend])), s')"
    "ledger oneKey s' = ledgerBlock [demoSpend] 10 (ledger oneKey demoCache)"
    using utxo_cache_refines_ledger [OF demo_inv(1) oneKey_laws, of "[demoSpend]" 10 "[]"] demo_spend by auto
  have "blockSpends (ledger oneKey demoCache) 10 [demoSpend] = [stxoOf demoEntry]"
    using demo_spend(1) by (simp add: spentCoins_def demo_inv(2)) (simp add: demoSpend_def stxoOf_def)
  moreover have "ledgerBlock [demoSpend] 10 (ledger oneKey demoCache) (coinHash, 0) = None"
    using demo_spend(1) by (simp add: ledgerTx_def spentOutpoints_def) (simp add: demoSpend_def coinHash_nonzero)
  ultimately show ?thesis using s' by simp
qed

theorem flush_keeps_ledger_witness:
  "\<exists>s'. cache_flush oneKey 0 FlushRequired [1] demoCache = (Ok (), s') \<and> dbCoins oneKey s' = [(coinHash, 0) \<mapsto> core demoEntry]"
  using flush_keeps_ledger [OF demo_inv(1), of 0 FlushRequired "[1]"] demo_inv(2) by auto

definition spentCache :: utxoCache where
  "spentCache = demoCache\<lparr>cachedEntries := (cachedEntries demoCache)\<lparr>ms_maps := [[((coinHash, 0), Some (Spend (core demoEntry)))]]\<rparr>\<rparr>"

theorem recreated_output_returns_witness:
  "ledger oneKey spentCache (coinHash, 0) = None \<and>
   (\<exists>s'. addTxIn oneKey (hd (tx_ins demoSpend)) None (cache_addTxOut (coinHash, 0) \<lparr>Value = 60, PkScript = []\<rparr> True 11 spentCache) = (Ok None, s') \<and>
     ledger oneKey s' (coinHash, 0) = Some (core demoEntry))"
proof -
  let ?i = "hd (tx_ins demoSpend)"
  have p: "PreviousOutPoint ?i = (coinHash, 0)" by (simp add: demoSpend_def)
  have get: "ms_get (cachedEntries spentCache) = [(coinHash, 0) \<mapsto> Some (Spend (core demoEntry))]"
    by (simp add: spentCache_def ms_get_def fun_eq_iff)
  have db: "dbCoins oneKey spentCache = [(coinHash, 0) \<mapsto> core demoEntry]" "utxoBucket spentCache = demoBucket"
    using demo_db(1) by (simp_all add: spentCache_def demoCache_def newUtxoCache_def dbCoins_def)
  have ok: "entry_ok oneKey [(coinHash, 0) \<mapsto> core demoEntry] (coinHash, 0) (Some (Spend (core demoEntry)))"
    by (simp add: entry_ok_def coinHash_def good_entry_def oneKey_laws storable_def demoEntry_def Spend_def)
  have "slice_ok (cachedEntries spentCache)" by (simp add: spentCache_def demoCache_def newUtxoCache_def slice_ok_def)
  then have inv: "cache_inv oneKey spentCache"
    using demo_db(2) demo_inv(1) ok by (auto simp: cache_inv_def get db demo_db(1))
  have "dbCoins oneKey spentCache (PreviousOutPoint ?i) = Some (core demoEntry)"
    "ms_get (cachedEntries spentCache) (PreviousOutPoint ?i) = Some (Some (Spend (core demoEntry)))" "ent_spent (Spend (core demoEntry))"
    "\<not> IsUnspendable (PkScript \<lparr>Value = 60, PkScript = []\<rparr>)"
    using demo_checks(7) by (simp_all add: p get db Spend_def)
  from recreated_output_returns [OF inv this, of None True 11] show ?thesis by (simp add: p)
qed

end
