(* ===== verification/Coin_Sigops.thy ===== *)
theory Coin_Sigops
  imports Coin_Merkle
begin

text \<open>
  Scripts as sequences of opcodes and the signature operations they are charged for: the tokenizer
  (\<open>src/btcd/txscript/tokenizer.go\<close>), the counting functions (\<open>txscript/script.go\<close>, \<open>standard.go\<close>), the sizes and weights of
  transactions and blocks (\<open>wire/msgtx.go\<close>, \<open>msgblock.go\<close>, \<open>blockchain/weight.go\<close>) and the counts that the block rules limit
  (\<open>blockchain/validate.go\<close>).  A loop over the tokenizer is a function of the opcodes up to the first malformed one.

  The lemmas show that the count of a script is bounded by its length, that the precise count is never above
  the quick one, and that no sum of counts can overflow.
\<close>

subsection \<open>The tokenizer\<close>

text \<open>One opcode of a script that is not at its end: the opcode, its data, the rest; \<open>None\<close> for a malformed push.\<close>

definition nextOp :: "8 word \<Rightarrow> octets \<Rightarrow> (octets \<times> octets) option" where
  "nextOp b rest =
    (let op = unat b in
     if 1 \<le> op \<and> op \<le> 75 then (if length rest < op then None else Some (take op rest, drop op rest))
     else case pushBytes op of
       Some n \<Rightarrow>
         if length rest < n then None
         else if dataLen (take n rest) > int (length (drop n rest)) \<or> dataLen (take n rest) < 0 then None
         else let d = nat (dataLen (take n rest)) in Some (take d (drop n rest), drop d (drop n rest))
     | None \<Rightarrow> Some ([], rest))"

lemma nextOp_shorter: "nextOp b rest = Some (d, rest') \<Longrightarrow> length rest' \<le> length rest"
  by (auto simp: nextOp_def Let_def split: if_splits option.splits)

text \<open>The opcodes with their data up to the first failure, and whether there was none.\<close>

function tokens :: "octets \<Rightarrow> (8 word \<times> octets) list \<times> bool" where
  "tokens [] = ([], True)"
| "tokens (b # rest) = (case nextOp b rest of
      None \<Rightarrow> ([], False)
    | Some (d, rest') \<Rightarrow> (case tokens rest' of (ts, ok) \<Rightarrow> ((b, d) # ts, ok)))"
  by pat_completeness auto
termination by (relation "measure length") (auto dest: nextOp_shorter)

definition IsSmallInt :: "8 word \<Rightarrow> bool" where
  "IsSmallInt op \<longleftrightarrow> op = 0 \<or> (op \<ge> 0x51 \<and> op \<le> 0x60)"

definition AsSmallInt :: "8 word \<Rightarrow> nat" where
  "AsSmallInt op = (if op = 0 then 0 else unat (op - (0x51 - 1)))"

definition MaxPubKeysPerMultiSig :: nat where
  "MaxPubKeysPerMultiSig = 20"

fun sigOpsLoop :: "bool \<Rightarrow> 8 word \<Rightarrow> (8 word \<times> octets) list \<Rightarrow> nat \<Rightarrow> nat" where
  "sigOpsLoop precise prevOp [] numSigOps = numSigOps"
| "sigOpsLoop precise prevOp ((op, d) # ts) numSigOps =
    sigOpsLoop precise op ts
      (if op = 0xac \<or> op = 0xad then numSigOps + 1
       else if op = 0xae \<or> op = 0xaf then
         numSigOps + (if precise \<and> prevOp \<ge> 0x51 \<and> prevOp \<le> 0x60 then AsSmallInt prevOp else MaxPubKeysPerMultiSig)
       else numSigOps)"

definition countSigOpsV0 :: "octets \<Rightarrow> bool \<Rightarrow> nat" where
  "countSigOpsV0 script precise = sigOpsLoop precise 0xff (fst (tokens script)) 0"

definition GetSigOpCount :: "octets \<Rightarrow> nat" where
  "GetSigOpCount script = countSigOpsV0 script False"

definition IsPushOnlyScript :: "octets \<Rightarrow> bool" where
  "IsPushOnlyScript script \<longleftrightarrow> (case tokens script of (ts, ok) \<Rightarrow> (\<forall>(op, d) \<in> set ts. \<not> op > 0x60) \<and> ok)"

definition finalOpcodeData :: "octets \<Rightarrow> octets" where
  "finalOpcodeData script =
    (if length script = 0 then []
     else case tokens script of (ts, ok) \<Rightarrow> if \<not> ok \<or> ts = [] then [] else snd (last ts))"

definition isScriptHashScript :: "octets \<Rightarrow> bool" where
  "isScriptHashScript script \<longleftrightarrow> length script = 23 \<and> script ! 0 = 0xa9 \<and> script ! 1 = 0x14 \<and> script ! 22 = 0x87"

definition GetPreciseSigOpCount :: "octets \<Rightarrow> octets \<Rightarrow> nat" where
  "GetPreciseSigOpCount scriptSig scriptPubKey =
    (if \<not> isScriptHashScript scriptPubKey then countSigOpsV0 scriptPubKey True
     else if length scriptSig = 0 \<or> \<not> IsPushOnlyScript scriptSig then 0
     else if length (finalOpcodeData scriptSig) = 0 then 0
     else countSigOpsV0 (finalOpcodeData scriptSig) True)"

definition isCanonicalPush :: "8 word \<Rightarrow> octets \<Rightarrow> bool" where
  "isCanonicalPush op d =
    (if op > 0x60 then True
     else if op < 0x4c \<and> op > 0 \<and> (length d = 1 \<and> d ! 0 \<le> 16) then False
     else if op = 0x4c \<and> length d < 0x4c then False
     else if op = 0x4d \<and> length d \<le> 0xff then False
     else if op = 0x4e \<and> length d \<le> 0xffff then False
     else True)"

definition extractWitnessProgramInfo :: "octets \<Rightarrow> (nat \<times> octets) option" where
  "extractWitnessProgramInfo script =
    (if length script < 4 \<or> length script > 42 then None
     else case tokens script of
       ((op1, d1) # (op2, d2) # ts, ok) \<Rightarrow>
         if IsSmallInt op1 \<and> isCanonicalPush op2 d2 \<and> ts = [] \<and> ok then Some (AsSmallInt op1, d2) else None
     | _ \<Rightarrow> None)"

definition isWitnessProgramScript :: "octets \<Rightarrow> bool" where
  "isWitnessProgramScript script \<longleftrightarrow> extractWitnessProgramInfo script \<noteq> None"

definition getWitnessSigOps :: "octets \<Rightarrow> octets list \<Rightarrow> nat" where
  "getWitnessSigOps script witness = (case extractWitnessProgramInfo script of
      None \<Rightarrow> 0
    | Some (witnessVersion, witnessProgram) \<Rightarrow>
        if witnessVersion = 0 then
          (if length witnessProgram = 20 then 1
           else if length witnessProgram = 32 \<and> length witness > 0 then countSigOpsV0 (last witness) True
           else 0)
        else 0)"

definition GetWitnessSigOpCount :: "octets \<Rightarrow> octets \<Rightarrow> octets list \<Rightarrow> nat" where
  "GetWitnessSigOpCount sigScript script witness =
    (if isWitnessProgramScript script then getWitnessSigOps script witness
     else if isScriptHashScript script \<and> IsPushOnlyScript sigScript \<and> length sigScript > 0 \<and> isWitnessProgramScript (drop 1 sigScript)
     then getWitnessSigOps (drop 1 sigScript) witness
     else 0)"

subsection \<open>Transactions and blocks\<close>

definition WitnessScaleFactor :: nat where
  "WitnessScaleFactor = 4"

definition MaxBlockSigOpsCost :: nat where
  "MaxBlockSigOpsCost = 80000"

definition MaxBlockBaseSize :: nat where
  "MaxBlockBaseSize = 1000000"

definition MaxBlockWeight :: nat where
  "MaxBlockWeight = 4000000"

definition TxWitness_SerializeSize :: "octets list \<Rightarrow> nat" where
  "TxWitness_SerializeSize t =
    VarIntSerializeSize (length t) + sum_list (map (\<lambda>w. VarIntSerializeSize (length w) + length w) t)"

definition tx_SerializeSize :: "MsgTx \<Rightarrow> nat" where
  "tx_SerializeSize tx = baseSize tx +
    (if HasWitness tx then 2 + sum_list (map (\<lambda>i. TxWitness_SerializeSize (Witness i)) (tx_ins tx)) else 0)"

definition block_SerializeSize :: "MsgTx list \<Rightarrow> nat" where
  "block_SerializeSize txs = 80 + VarIntSerializeSize (length txs) + sum_list (map tx_SerializeSize txs)"

definition block_SerializeSizeStripped :: "MsgTx list \<Rightarrow> nat" where
  "block_SerializeSizeStripped txs = 80 + VarIntSerializeSize (length txs) + sum_list (map baseSize txs)"

definition GetBlockWeight :: "MsgTx list \<Rightarrow> nat" where
  "GetBlockWeight txs = block_SerializeSizeStripped txs * (WitnessScaleFactor - 1) + block_SerializeSize txs"

definition GetTransactionWeight :: "MsgTx \<Rightarrow> nat" where
  "GetTransactionWeight tx = baseSize tx * (WitnessScaleFactor - 1) + tx_SerializeSize tx"

definition CountSigOps :: "MsgTx \<Rightarrow> nat" where
  "CountSigOps tx = sum_list (map (\<lambda>i. GetSigOpCount (SignatureScript i)) (tx_ins tx)) +
    sum_list (map (\<lambda>out. GetSigOpCount (PkScript out)) (tx_outs tx))"

text \<open>The counts are \<open>int\<close>s of 64 bits: the check for an overflow of the accumulator is kept with its wrap-around.\<close>

fun countP2SH :: "TxIn list \<Rightarrow> view \<Rightarrow> int \<Rightarrow> tx_error + int" where
  "countP2SH [] v totalSigOps = Inr totalSigOps"
| "countP2SH (i # is) v totalSigOps = (case v (PreviousOutPoint i) of
      None \<Rightarrow> Inl ErrMissingTxOut
    | Some utxo \<Rightarrow>
        if ent_spent utxo then Inl ErrMissingTxOut
        else if \<not> isScriptHashScript (pkScript utxo) then countP2SH is v totalSigOps
        else let total' = wrap64 (totalSigOps + int (GetPreciseSigOpCount (SignatureScript i) (pkScript utxo))) in
          if total' < totalSigOps then Inl ErrTooManySigOps else countP2SH is v total')"

definition CountP2SHSigOps :: "MsgTx \<Rightarrow> bool \<Rightarrow> view \<Rightarrow> tx_error + int" where
  "CountP2SHSigOps tx isCoinBaseTx v = (if isCoinBaseTx then Inr 0 else countP2SH (tx_ins tx) v 0)"

fun countWitness :: "TxIn list \<Rightarrow> view \<Rightarrow> int \<Rightarrow> tx_error + int" where
  "countWitness [] v numSigOps = Inr numSigOps"
| "countWitness (i # is) v numSigOps = (case v (PreviousOutPoint i) of
      None \<Rightarrow> Inl ErrMissingTxOut
    | Some utxo \<Rightarrow>
        if ent_spent utxo then Inl ErrMissingTxOut
        else countWitness is v (wrap64 (numSigOps + int (GetWitnessSigOpCount (SignatureScript i) (pkScript utxo) (Witness i)))))"

text \<open>An error of the count of script hashes ends the function with the cost 0 and no error.\<close>

definition GetSigOpCost :: "MsgTx \<Rightarrow> bool \<Rightarrow> view \<Rightarrow> bool \<Rightarrow> bool \<Rightarrow> tx_error + int" where
  "GetSigOpCost tx isCoinBaseTx v bip16 segWit =
    (let numSigOps = wrap64 (int (CountSigOps tx) * int WitnessScaleFactor);
         p2sh = (if bip16 then CountP2SHSigOps tx isCoinBaseTx v else Inr 0) in
     case p2sh of
       Inl e \<Rightarrow> Inr 0
     | Inr numP2SH \<Rightarrow>
         let num = (if bip16 then wrap64 (numSigOps + wrap64 (numP2SH * int WitnessScaleFactor)) else numSigOps) in
         if segWit \<and> \<not> isCoinBaseTx then countWitness (tx_ins tx) v num else Inr num)"

subsection \<open>Bounds\<close>

text \<open>The tokenizer parses the scripts that \<open>checkScriptParses\<close> accepts, and has at most one opcode and one byte of data for every byte.\<close>

lemma tokens_parse: "snd (tokens s) = checkScriptParses s"
proof (induction s rule: tokens.induct)
  case (2 b rest)
  show ?case
  proof (cases "nextOp b rest")
    case None
    then show ?thesis by (auto simp: nextOp_def Let_def split: if_splits option.splits)
  next
    case (Some x)
    obtain d rest' where x: "x = (d, rest')" by (cases x)
    have "checkScriptParses (b # rest) = checkScriptParses rest'"
      using Some unfolding x by (auto simp: nextOp_def Let_def split: if_splits option.splits)
    moreover have "snd (tokens rest') = checkScriptParses rest'" using 2 Some x by blast
    ultimately show ?thesis using Some by (cases "tokens rest'") (simp add: x)
  qed
qed simp

lemma tokens_length: "(\<Sum>(op, d) \<leftarrow> fst (tokens s). 1 + length d) \<le> length s"
proof (induction s rule: tokens.induct)
  case (2 b rest)
  show ?case
  proof (cases "nextOp b rest")
    case (Some x)
    obtain d rest' where x: "x = (d, rest')" by (cases x)
    have "length d + length rest' \<le> length rest"
      using Some unfolding x by (auto simp: nextOp_def Let_def split: if_splits option.splits)
    moreover have "(\<Sum>(op, d) \<leftarrow> fst (tokens rest'). 1 + length d) \<le> length rest'" using 2 Some x by blast
    ultimately show ?thesis using Some by (cases "tokens rest'") (simp add: x)
  qed simp
qed simp

lemma tokens_count: "length (fst (tokens s)) \<le> length s"
proof -
  have "length ts \<le> (\<Sum>(op, d) \<leftarrow> ts. 1 + length d)" for ts :: "(8 word \<times> octets) list" by (induction ts) auto
  then show ?thesis using tokens_length [of s] le_trans by blast
qed

lemma token_data: "(op, d) \<in> set (fst (tokens s)) \<Longrightarrow> length d < length s"
proof -
  assume "(op, d) \<in> set (fst (tokens s))"
  moreover have "(op, d) \<in> set ts \<Longrightarrow> 1 + length d \<le> (\<Sum>(op, d) \<leftarrow> ts. 1 + length d)" for ts :: "(8 word \<times> octets) list"
    by (induction ts) auto
  ultimately have "1 + length d \<le> (\<Sum>(op, d) \<leftarrow> fst (tokens s). 1 + length d)" by blast
  with tokens_length [of s] show ?thesis by linarith
qed

lemma AsSmallInt_le: "0x51 \<le> op \<Longrightarrow> op \<le> 0x60 \<Longrightarrow> AsSmallInt op \<le> 16"
proof -
  assume op: "0x51 \<le> op" "op \<le> 0x60"
  then have "unat op \<le> 96" "81 \<le> unat op" by (simp_all add: word_le_nat_alt)
  moreover have "unat (op - (0x51 - 1)) = unat op - 80" using op by (subst unat_sub) (simp_all add: word_le_nat_alt)
  moreover from calculation have "unat op - 80 \<le> 16" by linarith
  ultimately show ?thesis by (simp add: AsSmallInt_def)
qed

text \<open>What one opcode adds to the count.\<close>

definition opCost :: "bool \<Rightarrow> 8 word \<Rightarrow> 8 word \<Rightarrow> nat" where
  "opCost precise prevOp op = (if op = 0xac \<or> op = 0xad then 1 else if op = 0xae \<or> op = 0xaf then
     (if precise \<and> prevOp \<ge> 0x51 \<and> prevOp \<le> 0x60 then AsSmallInt prevOp else MaxPubKeysPerMultiSig) else 0)"

lemma sigOpsLoop_Cons: "sigOpsLoop precise prevOp ((op, d) # ts) n = sigOpsLoop precise op ts (n + opCost precise prevOp op)"
  by (simp add: opCost_def)

lemma opCost_le: "opCost precise prevOp op \<le> 20" "opCost True prevOp op \<le> opCost False prevOp op"
  using AsSmallInt_le [of prevOp] by (auto simp: opCost_def MaxPubKeysPerMultiSig_def)

declare sigOpsLoop.simps(2) [simp del]

lemma sigOpsLoop_le: "sigOpsLoop precise prevOp ts n \<le> n + 20 * length ts"
proof (induction ts arbitrary: prevOp n)
  case (Cons t ts)
  obtain op d where t: "t = (op, d)" by (cases t)
  have "sigOpsLoop precise op ts (n + opCost precise prevOp op) \<le> n + opCost precise prevOp op + 20 * length ts" by (rule Cons.IH)
  with opCost_le(1) [of precise prevOp op] show ?case by (simp add: t sigOpsLoop_Cons)
qed simp

lemma sigOpsLoop_precise: "n \<le> m \<Longrightarrow> sigOpsLoop True prevOp ts n \<le> sigOpsLoop False prevOp ts m"
proof (induction ts arbitrary: prevOp n m)
  case (Cons t ts)
  obtain op d where t: "t = (op, d)" by (cases t)
  show ?case unfolding t sigOpsLoop_Cons using Cons.prems opCost_le(2) [of prevOp op] by (intro Cons.IH) simp
qed simp

lemma countSigOps_le: "countSigOpsV0 script precise \<le> 20 * length script"
proof -
  have "sigOpsLoop precise 0xff (fst (tokens script)) 0 \<le> 0 + 20 * length (fst (tokens script))" by (rule sigOpsLoop_le)
  moreover have "length (fst (tokens script)) \<le> length script" by (rule tokens_count)
  ultimately show ?thesis unfolding countSigOpsV0_def by linarith
qed

lemma finalOpcodeData_le: "length (finalOpcodeData s) \<le> length s"
proof (cases "fst (tokens s) = []")
  case False
  then have "last (fst (tokens s)) \<in> set (fst (tokens s))" by simp
  then have "length (snd (last (fst (tokens s)))) < length s" using token_data by (metis prod.collapse)
  then show ?thesis by (cases "tokens s") (simp add: finalOpcodeData_def)
next
  case True
  then show ?thesis by (cases "tokens s") (simp add: finalOpcodeData_def)
qed

lemma precise_le: "isScriptHashScript script \<Longrightarrow> GetPreciseSigOpCount sig script \<le> 20 * length sig"
proof -
  assume sh: "isScriptHashScript script"
  have "countSigOpsV0 (finalOpcodeData sig) True \<le> 20 * length sig"
    using countSigOps_le [of "finalOpcodeData sig" True] finalOpcodeData_le [of sig] by linarith
  then show ?thesis using sh by (simp add: GetPreciseSigOpCount_def)
qed

lemma witness_le: "GetWitnessSigOpCount sig script w \<le> 1 + 20 * sum_list (map length w)"
proof -
  have "countSigOpsV0 (last w) True \<le> 20 * sum_list (map length w)" if "w \<noteq> []"
  proof -
    have "length (last w) \<le> sum_list (map length w)" using that by (simp add: member_le_sum_list)
    with countSigOps_le [of "last w" True] show ?thesis by linarith
  qed
  then have "getWitnessSigOps s w \<le> 1 + 20 * sum_list (map length w)" for s
    by (cases "extractWitnessProgramInfo s") (auto simp: getWitnessSigOps_def le_SucI)
  then show ?thesis by (simp add: GetWitnessSigOpCount_def)
qed

lemma CountSigOps_le: "CountSigOps tx \<le> 20 * baseSize tx"
proof -
  have ins: "sum_list (map (\<lambda>i. GetSigOpCount (SignatureScript i)) is) \<le> 20 * sum_list (map TxIn_SerializeSize is)" for "is"
  proof (induction "is")
    case (Cons i "is")
    then show ?case using countSigOps_le [of "SignatureScript i" False] by (simp add: GetSigOpCount_def TxIn_SerializeSize_def)
  qed simp
  have outs: "sum_list (map (\<lambda>out. GetSigOpCount (PkScript out)) outs) \<le> 20 * sum_list (map TxOut_SerializeSize outs)" for outs
  proof (induction outs)
    case (Cons out outs)
    then show ?case using countSigOps_le [of "PkScript out" False] by (simp add: GetSigOpCount_def TxOut_SerializeSize_def)
  qed simp
  show ?thesis using ins [of "tx_ins tx"] outs [of "tx_outs tx"] by (simp add: CountSigOps_def baseSize_def)
qed

text \<open>The exact sums.\<close>

definition p2shOps :: "view \<Rightarrow> TxIn list \<Rightarrow> nat" where
  "p2shOps v is = sum_list (map (\<lambda>i. case v (PreviousOutPoint i) of
     Some e \<Rightarrow> if isScriptHashScript (pkScript e) then GetPreciseSigOpCount (SignatureScript i) (pkScript e) else 0 | None \<Rightarrow> 0) is)"

definition witnessOps :: "view \<Rightarrow> TxIn list \<Rightarrow> nat" where
  "witnessOps v is = sum_list (map (\<lambda>i. case v (PreviousOutPoint i) of
     Some e \<Rightarrow> GetWitnessSigOpCount (SignatureScript i) (pkScript e) (Witness i) | None \<Rightarrow> 0) is)"

lemma p2shOps_le: "p2shOps v is \<le> 20 * sum_list (map (\<lambda>i. length (SignatureScript i)) is)"
proof (induction "is")
  case (Cons i "is")
  have "(case v (PreviousOutPoint i) of Some e \<Rightarrow> if isScriptHashScript (pkScript e) then GetPreciseSigOpCount (SignatureScript i) (pkScript e) else 0
      | None \<Rightarrow> 0) \<le> 20 * length (SignatureScript i)" using precise_le by (auto split: option.split)
  with Cons show ?case by (simp add: p2shOps_def)
qed (simp add: p2shOps_def)

lemma countP2SH_spec:
  "\<forall>i \<in> set is. spendable v (PreviousOutPoint i) \<Longrightarrow> 0 \<le> acc \<Longrightarrow> acc + int (p2shOps v is) < 2 ^ 63 \<Longrightarrow>
   countP2SH is v acc = Inr (acc + int (p2shOps v is))"
proof (induction "is" arbitrary: acc)
  case (Cons i "is")
  obtain e where e: "v (PreviousOutPoint i) = Some e" "\<not> ent_spent e" using Cons.prems(1) by (auto simp: spendable_def)
  let ?k = "if isScriptHashScript (pkScript e) then GetPreciseSigOpCount (SignatureScript i) (pkScript e) else 0"
  have p: "p2shOps v (i # is) = ?k + p2shOps v is" by (simp add: p2shOps_def e(1))
  have w: "wrap64 (acc + int ?k) = acc + int ?k" using Cons.prems(2,3) unfolding p by (intro wrap64_id) auto
  have "countP2SH is v (acc + int ?k) = Inr (acc + int ?k + int (p2shOps v is))"
    using Cons.prems unfolding p by (intro Cons.IH) auto
  with w e show ?case unfolding p by (auto simp: Let_def)
qed (simp add: p2shOps_def)

lemma countWitness_spec:
  "\<forall>i \<in> set is. spendable v (PreviousOutPoint i) \<Longrightarrow> 0 \<le> acc \<Longrightarrow> acc + int (witnessOps v is) < 2 ^ 63 \<Longrightarrow>
   countWitness is v acc = Inr (acc + int (witnessOps v is))"
proof (induction "is" arbitrary: acc)
  case (Cons i "is")
  obtain e where e: "v (PreviousOutPoint i) = Some e" "\<not> ent_spent e" using Cons.prems(1) by (auto simp: spendable_def)
  let ?k = "GetWitnessSigOpCount (SignatureScript i) (pkScript e) (Witness i)"
  have p: "witnessOps v (i # is) = ?k + witnessOps v is" by (simp add: witnessOps_def e(1))
  have w: "wrap64 (acc + int ?k) = acc + int ?k" using Cons.prems(2,3) unfolding p by (intro wrap64_id) auto
  have "countWitness is v (acc + int ?k) = Inr (acc + int ?k + int (witnessOps v is))"
    using Cons.prems unfolding p by (intro Cons.IH) auto
  with w e show ?case unfolding p by simp
qed (simp add: witnessOps_def)

lemma witnessOps_le: "witnessOps v is \<le> length is + 20 * sum_list (map (\<lambda>i. sum_list (map length (Witness i))) is)"
proof (induction "is")
  case (Cons i "is")
  have "(case v (PreviousOutPoint i) of Some e \<Rightarrow> GetWitnessSigOpCount (SignatureScript i) (pkScript e) (Witness i) | None \<Rightarrow> 0)
      \<le> 1 + 20 * sum_list (map length (Witness i))" using witness_le by (auto split: option.split)
  with Cons show ?case by (simp add: witnessOps_def)
qed (simp add: witnessOps_def)

text \<open>A transaction within the size limits, all inputs of which are in the view.\<close>

definition within_limits :: "MsgTx \<Rightarrow> bool" where
  "within_limits tx \<longleftrightarrow> baseSize tx \<le> MaxBlockBaseSize \<and> tx_SerializeSize tx \<le> MaxBlockWeight"

lemma sizes:
  "sum_list (map (\<lambda>i. length (SignatureScript i)) (tx_ins tx)) \<le> baseSize tx" "length (tx_ins tx) \<le> baseSize tx"
  "sum_list (map (\<lambda>i. sum_list (map length (Witness i))) (tx_ins tx)) \<le> tx_SerializeSize tx"
proof -
  have "sum_list (map (\<lambda>i. length (SignatureScript i)) is) \<le> sum_list (map TxIn_SerializeSize is) \<and>
      length is \<le> sum_list (map TxIn_SerializeSize is)" for "is"
    by (induction "is") (auto simp: TxIn_SerializeSize_def)
  then show "sum_list (map (\<lambda>i. length (SignatureScript i)) (tx_ins tx)) \<le> baseSize tx" "length (tx_ins tx) \<le> baseSize tx"
    unfolding baseSize_def by (metis add.commute trans_le_add2)+
  have el: "sum_list (map length w) \<le> TxWitness_SerializeSize w" for w :: "octets list"
  proof -
    have "sum_list (map length w) \<le> sum_list (map (\<lambda>w. VarIntSerializeSize (length w) + length w) w)" by (induction w) auto
    then show ?thesis by (simp add: TxWitness_SerializeSize_def)
  qed
  have le: "sum_list (map (\<lambda>i. sum_list (map length (Witness i))) is) \<le> sum_list (map (\<lambda>i. TxWitness_SerializeSize (Witness i)) is)" for "is"
    using el by (induction "is") (auto intro: add_mono)
  have zero: "\<forall>i \<in> set is. Witness i = [] \<Longrightarrow> sum_list (map (\<lambda>i. sum_list (map length (Witness i))) is) = 0" for "is"
    by (induction "is") auto
  show "sum_list (map (\<lambda>i. sum_list (map length (Witness i))) (tx_ins tx)) \<le> tx_SerializeSize tx"
  proof (cases "HasWitness tx")
    case True
    then show ?thesis using le [of "tx_ins tx"] by (simp add: tx_SerializeSize_def)
  next
    case False
    then have "\<forall>i \<in> set (tx_ins tx). Witness i = []" by (simp add: HasWitness_def)
    from zero [OF this] show ?thesis by (simp only: le0)
  qed
qed

text \<open>C31: The signature operations of a transaction are counted without overflow.  For a transaction that is not a coinbase, within the size limits of
  a block, whose inputs are all unspent in the view, the cost is the exact weighted sum of the counts, although every step is 64-bit
  arithmetic.  The sum is at most 161 for every byte of the base size plus 20 for every byte of the full serialized size.  The
  quick count of a script is at most 20 for every byte of it, and the precise count is never larger than the quick one.\<close>

theorem sigop_cost_exact:
  assumes "within_limits tx" and "\<forall>i \<in> set (tx_ins tx). spendable v (PreviousOutPoint i)"
  shows "GetSigOpCost tx False v bip16 segWit = Inr (int (4 * CountSigOps tx + (if bip16 then 4 * p2shOps v (tx_ins tx) else 0) +
      (if segWit then witnessOps v (tx_ins tx) else 0))) \<and>
    4 * CountSigOps tx + 4 * p2shOps v (tx_ins tx) + witnessOps v (tx_ins tx) \<le> 161 * baseSize tx + 20 * tx_SerializeSize tx \<and>
    (\<forall>s. countSigOpsV0 s True \<le> GetSigOpCount s \<and> GetSigOpCount s \<le> 20 * length s)"
proof -
  let ?c = "CountSigOps tx" and ?p = "p2shOps v (tx_ins tx)" and ?w = "witnessOps v (tx_ins tx)"
  have c: "?c \<le> 20 * baseSize tx" by (rule CountSigOps_le)
  have p: "?p \<le> 20 * baseSize tx" using p2shOps_le [of v "tx_ins tx"] sizes(1) [of tx] by linarith
  have w: "?w \<le> baseSize tx + 20 * tx_SerializeSize tx" using witnessOps_le [of v "tx_ins tx"] sizes(2,3) [of tx] by linarith
  have lim: "baseSize tx \<le> 1000000" "tx_SerializeSize tx \<le> 4000000"
    using assms(1) by (simp_all add: within_limits_def MaxBlockBaseSize_def MaxBlockWeight_def)
  have P: "countP2SH (tx_ins tx) v 0 = Inr (0 + int ?p)" using assms(2) p lim(1) by (intro countP2SH_spec) auto
  have W: "0 \<le> n \<Longrightarrow> n \<le> 160000000 \<Longrightarrow> countWitness (tx_ins tx) v n = Inr (n + int ?w)" for n
    using assms(2) w lim by (intro countWitness_spec) auto
  have small: "wrap64 (int ?c * 4) = int ?c * 4" "wrap64 (int ?p * 4) = int ?p * 4" "wrap64 (int ?c * 4 + int ?p * 4) = int ?c * 4 + int ?p * 4"
    using c p lim(1) by (auto intro!: wrap64_id)
  have "GetSigOpCost tx False v bip16 segWit = Inr (int (4 * ?c + (if bip16 then 4 * ?p else 0) + (if segWit then ?w else 0)))"
    using c p lim(1) W [of "int ?c * 4"] W [of "int ?c * 4 + int ?p * 4"]
    by (cases bip16; cases segWit) (simp_all add: GetSigOpCost_def WitnessScaleFactor_def CountP2SHSigOps_def P small Let_def)
  moreover have "4 * ?c + 4 * ?p + ?w \<le> 161 * baseSize tx + 20 * tx_SerializeSize tx" using c p w by linarith
  moreover have "countSigOpsV0 s True \<le> GetSigOpCount s \<and> GetSigOpCount s \<le> 20 * length s" for s
    using countSigOps_le [of s False] sigOpsLoop_precise [of 0 0 "0xff" "fst (tokens s)"] by (simp add: GetSigOpCount_def countSigOpsV0_def)
  ultimately show ?thesis by blast
qed

theorem sigop_cost_exact_witness: "GetSigOpCost demoPay False demoView True True = Inr 0"
proof -
  have "within_limits demoPay"
    by (simp add: within_limits_def MaxBlockBaseSize_def MaxBlockWeight_def tx_SerializeSize_def demoPay_def baseSize_def HasWitness_def
        TxIn_SerializeSize_def TxOut_SerializeSize_def VarIntSerializeSize_def)
  moreover have "\<forall>i \<in> set (tx_ins demoPay). spendable demoView (PreviousOutPoint i)" by (simp add: demoPay_def demoView_def spendable_def)
  ultimately have "GetSigOpCost demoPay False demoView True True =
      Inr (int (4 * CountSigOps demoPay + 4 * p2shOps demoView (tx_ins demoPay) + witnessOps demoView (tx_ins demoPay)))"
    using sigop_cost_exact [of demoPay demoView True True] by simp
  moreover have "CountSigOps demoPay = 0" by code_simp
  moreover have "p2shOps demoView (tx_ins demoPay) = 0" "witnessOps demoView (tx_ins demoPay) = 0"
    by (simp_all add: p2shOps_def witnessOps_def demoPay_def demoView_def isScriptHashScript_def GetWitnessSigOpCount_def
        isWitnessProgramScript_def extractWitnessProgramInfo_def)
  ultimately show ?thesis by simp
qed

end
