(* ===== verification/Coin_Block.thy ===== *)
theory Coin_Block
  imports Coin_Cache Coin_Sigops Coin_View
begin

text \<open>
  Blocks against the ledger: the context-free checks of a block and the checks that connect it
  (\<open>src/btcd/blockchain/validate.go\<close>), the relative lock times (\<open>chain.go\<close>), and the view of unspent outputs as it is loaded for
  a block and rolled back when the block is disconnected (\<open>utxoviewpoint.go\<close>).  The entries of a view that are nil are
  kept as the set of their outpoints.  A rule error is a value, any other error an \<open>Err\<close>.  Running the scripts is a parameter, and so
  are the states of the deployments, which the theory of the deployments computes.

  What the checks of a block guarantee is shown in \<open>Coin_Connect\<close>, what undoing a block restores in \<open>Coin_Undo\<close>.
\<close>

subsection \<open>The view of a block\<close>

record UtxoViewpoint =
  v_entries :: view
  v_nil :: "outpoint set"
  v_bestHash :: octets

definition NewUtxoViewpoint :: UtxoViewpoint where
  "NewUtxoViewpoint = \<lparr>v_entries = Map.empty, v_nil = {}, v_bestHash = zeroHash\<rparr>"

definition SetBestHash :: "octets \<Rightarrow> UtxoViewpoint \<Rightarrow> UtxoViewpoint" where
  "SetBestHash h vw = vw\<lparr>v_bestHash := h\<rparr>"

text \<open>Whether the map has the key, and writing a possibly nil entry.\<close>

definition v_known :: "UtxoViewpoint \<Rightarrow> outpoint \<Rightarrow> bool" where
  "v_known vw p \<longleftrightarrow> v_entries vw p \<noteq> None \<or> p \<in> v_nil vw"

definition v_set :: "outpoint \<times> UtxoEntry option \<Rightarrow> UtxoViewpoint \<Rightarrow> UtxoViewpoint" where
  "v_set px vw = (case px of (p, x) \<Rightarrow> vw\<lparr>v_entries := (v_entries vw)(p := x), v_nil := (if x = None then insert p (v_nil vw) else v_nil vw - {p})\<rparr>)"

definition fetchUtxosFromCache :: "(octets \<Rightarrow> octets option) \<Rightarrow> outpoint list \<Rightarrow> UtxoViewpoint \<Rightarrow> (utxoCache, UtxoViewpoint) act" where
  "fetchUtxosFromCache parse outpoints vw =
    (if outpoints = [] then ret_act vw
     else bind_act (fetchEntries parse outpoints) (\<lambda>entries. ret_act (fold v_set (zip outpoints entries) vw)))"

definition fetchUtxos :: "(octets \<Rightarrow> octets option) \<Rightarrow> outpoint list \<Rightarrow> UtxoViewpoint \<Rightarrow> (utxoCache, UtxoViewpoint) act" where
  "fetchUtxos parse outpoints vw =
    (if outpoints = [] then ret_act vw else fetchUtxosFromCache parse (filter (\<lambda>p. \<not> v_known vw p) outpoints) vw)"

definition txInFlight :: "MsgTx list \<Rightarrow> octets \<rightharpoonup> nat" where
  "txInFlight txs = fold (\<lambda>(i, tx) m. m(tx_hash tx \<mapsto> i)) (enumerate 0 txs) Map.empty"

fun findIns :: "MsgTx list \<Rightarrow> int \<Rightarrow> nat \<Rightarrow> TxIn list \<Rightarrow> outpoint list \<times> UtxoViewpoint \<Rightarrow> outpoint list \<times> UtxoViewpoint" where
  "findIns txs height i [] nv = nv"
| "findIns txs height i (txIn # is) (needed, vw) =
    (let p = PreviousOutPoint txIn in
     case txInFlight txs (fst p) of
       Some inFlightIndex \<Rightarrow>
         if i \<ge> inFlightIndex
         then findIns txs height i is (needed, vw\<lparr>v_entries := AddTxOuts (txs ! inFlightIndex) height (v_entries vw)\<rparr>)
         else findIns txs height i is (if v_known vw p then needed else needed @ [p], vw)
     | None \<Rightarrow> findIns txs height i is (if v_known vw p then needed else needed @ [p], vw))"

fun findTxs :: "MsgTx list \<Rightarrow> int \<Rightarrow> nat \<Rightarrow> MsgTx list \<Rightarrow> outpoint list \<times> UtxoViewpoint \<Rightarrow> outpoint list \<times> UtxoViewpoint" where
  "findTxs txs height i [] nv = nv"
| "findTxs txs height i (tx # rest) nv = findTxs txs height (Suc i) rest (findIns txs height i (tx_ins tx) nv)"

definition findInputsToFetch :: "MsgTx list \<Rightarrow> int \<Rightarrow> UtxoViewpoint \<Rightarrow> outpoint list \<times> UtxoViewpoint" where
  "findInputsToFetch txs height vw = findTxs txs height 0 (tl txs) ([], vw)"

definition fetchInputUtxos :: "(octets \<Rightarrow> octets option) \<Rightarrow> MsgTx list \<Rightarrow> int \<Rightarrow> UtxoViewpoint \<Rightarrow> (utxoCache, UtxoViewpoint) act" where
  "fetchInputUtxos parse txs height vw = (case findInputsToFetch txs height vw of (needed, vw') \<Rightarrow> fetchUtxosFromCache parse needed vw')"

subsection \<open>Disconnecting\<close>

definition countSpentOutputs :: "MsgTx list \<Rightarrow> nat" where
  "countSpentOutputs txs = sum_list (map (length \<circ> tx_ins) (tl txs))"

definition MaxOutputsPerBlock :: nat where
  "MaxOutputsPerBlock = MaxBlockWeight div (WitnessScaleFactor * 9)"

definition fetchEntryByHash :: "(octets \<Rightarrow> UtxoEntry option outcome) \<Rightarrow> octets \<Rightarrow> view \<Rightarrow> UtxoEntry option outcome" where
  "fetchEntryByHash dbFetch h v = (case List.find (\<lambda>idx. v (h, of_nat idx) \<noteq> None) [0 ..< MaxOutputsPerBlock] of
      Some idx \<Rightarrow> Ok (v (h, of_nat idx))
    | None \<Rightarrow> dbFetch h)"

fun undoOuts :: "octets \<Rightarrow> bool \<Rightarrow> int \<Rightarrow> nat \<Rightarrow> TxOut list \<Rightarrow> view \<Rightarrow> view" where
  "undoOuts h cb height i [] v = v"
| "undoOuts h cb height i (out # outs) v =
    (if IsUnspendable (PkScript out) then undoOuts h cb height (Suc i) outs v
     else let p = (h, of_nat i);
              entry = (case v p of Some e \<Rightarrow> e
                | None \<Rightarrow> \<lparr>amount = Value out, pkScript = PkScript out, blockHeight = height, ent_coinbase = cb, ent_spent = False,
                    ent_modified = False, ent_fresh = False\<rparr>) in
       undoOuts h cb height (Suc i) outs (v(p \<mapsto> Spend entry)))"

text \<open>The inputs and the journal from their ends; an input that is not in the view gets the zero entry first.\<close>

definition emptyEntry :: UtxoEntry where
  "emptyEntry = \<lparr>amount = 0, pkScript = [], blockHeight = 0, ent_coinbase = False, ent_spent = False, ent_modified = False, ent_fresh = False\<rparr>"

fun undoIns :: "(octets \<Rightarrow> UtxoEntry option outcome) \<Rightarrow> octets \<Rightarrow> TxIn list \<Rightarrow> SpentTxOut list \<Rightarrow> view \<Rightarrow> (view \<times> SpentTxOut list) outcome" where
  "undoIns dbFetch txHash [] stxos v = Ok (v, stxos)"
| "undoIns dbFetch txHash (txIn # is) [] v = Panic ''index out of range''"
| "undoIns dbFetch txHash (txIn # is) (stxo # stxos) v =
    (let originOut = PreviousOutPoint txIn;
         v' = (if v originOut = None then v(originOut \<mapsto> emptyEntry) else v);
         restore = (\<lambda>height cb. undoIns dbFetch txHash is stxos
           (v'(originOut \<mapsto> \<lparr>amount = st_Amount stxo, pkScript = st_PkScript stxo, blockHeight = height, ent_coinbase = cb,
             ent_spent = False, ent_modified = True, ent_fresh = False\<rparr>))) in
     if st_Height stxo = 0 then
       (case fetchEntryByHash dbFetch txHash v' of
           Ok None \<Rightarrow> Err ''unable to resurrect legacy stxo''
         | Ok (Some utxo) \<Rightarrow> restore (blockHeight utxo) (ent_coinbase utxo)
         | Err e \<Rightarrow> Err e
         | Panic e \<Rightarrow> Panic e
         | Blocked \<Rightarrow> Blocked)
     else restore (st_Height stxo) (st_IsCoinBase stxo))"

text \<open>The transactions from the last to the first, with their positions in the block.\<close>

fun undoTxs :: "(octets \<Rightarrow> UtxoEntry option outcome) \<Rightarrow> int \<Rightarrow> (nat \<times> MsgTx) list \<Rightarrow> SpentTxOut list \<Rightarrow> view \<Rightarrow> (view \<times> SpentTxOut list) outcome" where
  "undoTxs dbFetch height [] stxos v = Ok (v, stxos)"
| "undoTxs dbFetch height ((txIdx, tx) # txs) stxos v =
    (let v1 = undoOuts (tx_hash tx) (txIdx = 0) height 0 (tx_outs tx) v in
     if txIdx = 0 then undoTxs dbFetch height txs stxos v1
     else (case undoIns dbFetch (tx_hash tx) (rev (tx_ins tx)) stxos v1 of
         Ok (v2, stxos') \<Rightarrow> undoTxs dbFetch height txs stxos' v2
       | r \<Rightarrow> r))"

definition disconnectTransactions ::
  "(octets \<Rightarrow> UtxoEntry option outcome) \<Rightarrow> MsgTx list \<Rightarrow> int \<Rightarrow> octets \<Rightarrow> SpentTxOut list \<Rightarrow> UtxoViewpoint \<Rightarrow> UtxoViewpoint outcome" where
  "disconnectTransactions dbFetch txs height prevBlock stxos vw =
    (if length stxos \<noteq> countSpentOutputs txs then Err ''disconnectTransactions called with bad spent transaction out information''
     else map_outcome (\<lambda>(v, _). vw\<lparr>v_entries := v, v_bestHash := prevBlock\<rparr>)
       (undoTxs dbFetch height (rev (enumerate 0 txs)) (rev stxos) (v_entries vw)))"

definition v_commit :: "UtxoViewpoint \<Rightarrow> UtxoViewpoint" where
  "v_commit vw = vw\<lparr>v_entries := (\<lambda>p. case v_entries vw p of
       None \<Rightarrow> None
     | Some e \<Rightarrow> if ent_modified e \<and> ent_spent e then None else Some (e\<lparr>ent_modified := \<not> ent_modified e\<rparr>)), v_nil := {}\<rparr>"

subsection \<open>Checking a block\<close>

datatype block_error = RuleTx tx_error | RuleHeader rule_error | ErrInvalidTime | ErrTimeTooNew | ErrNoTransactions | ErrBlockTooBig
  | ErrFirstTxNotCoinbase | ErrMultipleCoinbases | ErrBadMerkleRoot | ErrDuplicateTx | ErrOverwriteTx | ErrBadFees
  | ErrBadCoinbaseValue | ErrUnfinalizedTx | ErrScript

record block =
  b_header :: BlockHeader
  b_hash :: octets
  b_nanos :: int
  b_txs :: "MsgTx list"

text \<open>The timestamp of a header is its seconds; \<open>b_nanos\<close> is what it has beyond them.  Times are in nanoseconds, \<open>adjusted\<close> is the
  network-adjusted time.\<close>

definition CheckBlockHeaderSanity :: "BlockHeader \<Rightarrow> octets \<Rightarrow> int \<Rightarrow> int \<Rightarrow> int \<Rightarrow> bool \<Rightarrow> block_error option" where
  "CheckBlockHeaderSanity h blockHash nanos powLimit adjusted noPoWCheck =
    (case checkProofOfWork (bh_Bits h) blockHash powLimit noPoWCheck of
       Some e \<Rightarrow> Some (RuleHeader e)
     | None \<Rightarrow>
         if nanos \<noteq> 0 then Some ErrInvalidTime
         else if bh_Timestamp h * second + nanos > adjusted + second * (2 * 60 * 60) then Some ErrTimeTooNew
         else None)"

fun firstInsane :: "MsgTx list \<Rightarrow> tx_error option" where
  "firstInsane [] = None"
| "firstInsane (tx # txs) = (case CheckTransactionSanity tx of Some e \<Rightarrow> Some e | None \<Rightarrow> firstInsane txs)"

fun sigOpsExceed :: "MsgTx list \<Rightarrow> int \<Rightarrow> bool" where
  "sigOpsExceed [] totalSigOps = False"
| "sigOpsExceed (tx # txs) totalSigOps =
    (let tot' = wrap64 (totalSigOps + wrap64 (int (CountSigOps tx) * int WitnessScaleFactor)) in
     if tot' < totalSigOps \<or> tot' > int MaxBlockSigOpsCost then True else sigOpsExceed txs tot')"

definition checkBlockSanity :: "(octets \<Rightarrow> octets) \<Rightarrow> block \<Rightarrow> int \<Rightarrow> int \<Rightarrow> bool \<Rightarrow> block_error option outcome option" where
  "checkBlockSanity dsha b powLimit adjusted noPoWCheck =
    (let txs = b_txs b in
     case CheckBlockHeaderSanity (b_header b) (b_hash b) (b_nanos b) powLimit adjusted noPoWCheck of
       Some e \<Rightarrow> Some (Ok (Some e))
     | None \<Rightarrow>
         if length txs = 0 then Some (Ok (Some ErrNoTransactions))
         else if length txs > MaxBlockBaseSize then Some (Ok (Some ErrBlockTooBig))
         else if block_SerializeSizeStripped txs > MaxBlockBaseSize then Some (Ok (Some ErrBlockTooBig))
         else if \<not> IsCoinBase (txs ! 0) then Some (Ok (Some ErrFirstTxNotCoinbase))
         else if \<exists>tx \<in> set (tl txs). IsCoinBase tx then Some (Ok (Some ErrMultipleCoinbases))
         else case firstInsane txs of
           Some e \<Rightarrow> Some (Ok (Some (RuleTx e)))
         | None \<Rightarrow> (case CalcMerkleRoot dsha txs False of
             None \<Rightarrow> None
           | Some (Ok rt) \<Rightarrow>
               if bh_MerkleRoot (b_header b) \<noteq> rt then Some (Ok (Some ErrBadMerkleRoot))
               else if \<not> distinct (map tx_hash txs) then Some (Ok (Some ErrDuplicateTx))
               else if sigOpsExceed txs 0 then Some (Ok (Some (RuleTx ErrTooManySigOps)))
               else Some (Ok None)
           | Some (Err e) \<Rightarrow> Some (Err e) | Some (Panic e) \<Rightarrow> Some (Panic e) | Some Blocked \<Rightarrow> Some Blocked))"

subsection \<open>Relative lock times\<close>

record SequenceLock =
  sl_Seconds :: int
  sl_BlockHeight :: int

fun lockIns :: "blockNode \<Rightarrow> TxIn list \<Rightarrow> view \<Rightarrow> SequenceLock \<Rightarrow> (tx_error + SequenceLock) outcome" where
  "lockIns node [] v lock = Ok (Inr lock)"
| "lockIns node (txIn # is) v lock = (case v (PreviousOutPoint txIn) of
      None \<Rightarrow> Ok (Inl ErrMissingTxOut)
    | Some utxo \<Rightarrow>
        let nextHeight = wrap32 (height_of node + 1);
            inputHeight = (if blockHeight utxo = 0x7fffffff then nextHeight else blockHeight utxo);
            sequenceNum = Sequence txIn;
            relativeLock = uint (sequenceNum AND 0x0000ffff) in
        if sequenceNum AND 0x80000000 = 0x80000000 then lockIns node is v lock
        else if sequenceNum AND 0x00400000 = 0x00400000 then
          (let prevInputHeight = max 0 (wrap32 (inputHeight - 1)) in
           case CalcPastMedianTime (node_Ancestor prevInputHeight node) of
             Ok medianTime \<Rightarrow>
               let timeLock = wrap64 (medianTime + (push_bit 9 relativeLock - 1)) in
               lockIns node is v (if timeLock > sl_Seconds lock then lock\<lparr>sl_Seconds := timeLock\<rparr> else lock)
           | Err e \<Rightarrow> Err e | Panic e \<Rightarrow> Panic e | Blocked \<Rightarrow> Blocked)
        else
          let lockHeight = wrap32 (inputHeight + wrap32 (relativeLock - 1)) in
          lockIns node is v (if lockHeight > sl_BlockHeight lock then lock\<lparr>sl_BlockHeight := lockHeight\<rparr> else lock))"

definition calcSequenceLock :: "blockNode \<Rightarrow> MsgTx \<Rightarrow> view \<Rightarrow> bool \<Rightarrow> (tx_error + SequenceLock) outcome" where
  "calcSequenceLock node tx v csvSoftforkActive =
    (let lock = \<lparr>sl_Seconds = -1, sl_BlockHeight = -1\<rparr>;
         sequenceLockActive = ((word_of_int (tx_version tx) :: 32 word) \<ge> 2 \<and> csvSoftforkActive) in
     if \<not> sequenceLockActive \<or> IsCoinBase tx then Ok (Inr lock) else lockIns node (tx_ins tx) v lock)"

definition SequenceLockActive :: "SequenceLock \<Rightarrow> int \<Rightarrow> int \<Rightarrow> bool" where
  "SequenceLockActive lock height medianTimePast =
    (if sl_Seconds lock \<ge> medianTimePast \<or> sl_BlockHeight lock \<ge> height then False else True)"

fun locksHold :: "blockNode \<Rightarrow> int \<Rightarrow> MsgTx list \<Rightarrow> view \<Rightarrow> block_error option outcome" where
  "locksHold node medianTime [] v = Ok None"
| "locksHold node medianTime (tx # txs) v = (case calcSequenceLock node tx v True of
      Ok (Inl e) \<Rightarrow> Ok (Some (RuleTx e))
    | Ok (Inr lock) \<Rightarrow> if \<not> SequenceLockActive lock (height_of node) medianTime then Ok (Some ErrUnfinalizedTx) else locksHold node medianTime txs v
    | Err e \<Rightarrow> Err e | Panic e \<Rightarrow> Panic e | Blocked \<Rightarrow> Blocked)"

subsection \<open>Connecting a block\<close>

record chainRules =
  rulesParams :: params
  GenesisHash :: octets
  BIP0034Height :: int
  BIP0065Height :: int
  BIP0066Height :: int

record scriptFlags =
  ScriptBip16 :: bool
  ScriptVerifyDERSignatures :: bool
  ScriptVerifyCheckLockTimeVerify :: bool
  ScriptVerifyCheckSequenceVerify :: bool
  ScriptVerifyWitness :: bool
  ScriptStrictMultiSig :: bool
  ScriptVerifyTaproot :: bool

text \<open>What connecting a block needs of the rest of the chain: the active deployments at its parent, the last checkpoint and the
  script engine.\<close>

record connectEnv =
  ce_rules :: chainRules
  ce_segwit :: "bool outcome"
  ce_csv :: "bool outcome"
  ce_taproot :: "bool outcome"
  ce_checkpoint :: "int option"
  ce_checkBlockScripts :: "MsgTx list \<Rightarrow> view \<Rightarrow> scriptFlags \<Rightarrow> bool"

definition block91842Hash :: octets where
  "block91842Hash = rev [0x00, 0x00, 0x00, 0x00, 0x00, 0x0a, 0x4d, 0x0a, 0x39, 0x81, 0x61, 0xff, 0xc1, 0x63, 0xc5, 0x03,
     0x76, 0x3b, 0x1f, 0x43, 0x60, 0x63, 0x93, 0x93, 0xe0, 0xe4, 0xc8, 0xe3, 0x00, 0xe0, 0xca, 0xec]"

definition block91880Hash :: octets where
  "block91880Hash = rev [0x00, 0x00, 0x00, 0x00, 0x00, 0x07, 0x43, 0xf1, 0x90, 0xa1, 0x8c, 0x55, 0x77, 0xa3, 0xc2, 0xd2,
     0xa1, 0xf6, 0x10, 0xae, 0x96, 0x01, 0xac, 0x04, 0x6a, 0x38, 0x08, 0x4c, 0xcb, 0x7c, 0xd7, 0x21]"

definition isBIP0030Node :: "blockNode \<Rightarrow> bool" where
  "isBIP0030Node node \<longleftrightarrow> height_of node = 91842 \<and> hash_of node = block91842Hash \<or> height_of node = 91880 \<and> hash_of node = block91880Hash"

definition outputsOf :: "MsgTx \<Rightarrow> outpoint list" where
  "outputsOf tx = map (\<lambda>i. (tx_hash tx, of_nat i)) [0 ..< length (tx_outs tx)]"

definition checkBIP0030 :: "(octets \<Rightarrow> octets option) \<Rightarrow> MsgTx list \<Rightarrow> UtxoViewpoint \<Rightarrow> (utxoCache, block_error + UtxoViewpoint) act" where
  "checkBIP0030 parse txs vw =
    (let fetch = concat (map outputsOf txs) in
     bind_act (fetchUtxos parse fetch vw) (\<lambda>vw'.
       ret_act (if \<exists>p \<in> set fetch. case v_entries vw' p of Some e \<Rightarrow> \<not> ent_spent e | None \<Rightarrow> False
                then Inl ErrOverwriteTx else Inr vw')))"

text \<open>The loop over the cost of the transactions, the first of which counts as the coinbase.\<close>

fun costLoop :: "bool \<Rightarrow> MsgTx list \<Rightarrow> view \<Rightarrow> bool \<Rightarrow> bool \<Rightarrow> int \<Rightarrow> block_error option" where
  "costLoop first [] v bip16 segWit tot = None"
| "costLoop first (tx # txs) v bip16 segWit tot = (case GetSigOpCost tx first v bip16 segWit of
      Inl e \<Rightarrow> Some (RuleTx e)
    | Inr cost \<Rightarrow>
        let tot' = wrap64 (tot + cost) in
        if tot' < tot \<or> tot' > int MaxBlockSigOpsCost then Some (RuleTx ErrTooManySigOps)
        else costLoop False txs v bip16 segWit tot')"

fun connectLoop :: "params \<Rightarrow> int \<Rightarrow> MsgTx list \<Rightarrow> view \<times> SpentTxOut list \<Rightarrow> int \<Rightarrow> (block_error + (view \<times> SpentTxOut list) \<times> int) outcome" where
  "connectLoop p height [] vs totalFees = Ok (Inr (vs, totalFees))"
| "connectLoop p height (tx # txs) vs totalFees = (case CheckTransactionInputs tx height (fst vs) p of
      Inl e \<Rightarrow> Ok (Inl (RuleTx e))
    | Inr txFee \<Rightarrow>
        let totalFees' = wrap64 (totalFees + txFee) in
        if totalFees' < totalFees then Ok (Inl ErrBadFees)
        else (case connectTransaction tx height vs of
            Ok vs' \<Rightarrow> connectLoop p height txs vs' totalFees'
          | Err e \<Rightarrow> Err e | Panic e \<Rightarrow> Panic e | Blocked \<Rightarrow> Blocked))"

definition checkValues :: "params \<Rightarrow> int \<Rightarrow> MsgTx list \<Rightarrow> view \<times> SpentTxOut list \<Rightarrow> (block_error + view \<times> SpentTxOut list) outcome" where
  "checkValues p height txs vs = (case connectLoop p height txs vs 0 of
      Ok (Inr (vs', totalFees)) \<Rightarrow>
        let totalSatoshiOut = fold (\<lambda>out t. wrap64 (t + Value out)) (tx_outs (txs ! 0)) 0;
            expectedSatoshiOut = wrap64 (CalcBlockSubsidy height p + totalFees) in
        Ok (if totalSatoshiOut > expectedSatoshiOut then Inl ErrBadCoinbaseValue else Inr vs')
    | Ok (Inl e) \<Rightarrow> Ok (Inl e)
    | Err e \<Rightarrow> Err e | Panic e \<Rightarrow> Panic e | Blocked \<Rightarrow> Blocked)"

definition checkLocksAndScripts :: "connectEnv \<Rightarrow> blockNode \<Rightarrow> block \<Rightarrow> bool \<Rightarrow> bool \<Rightarrow> view \<Rightarrow> block_error option outcome" where
  "checkLocksAndScripts env node b enforceBIP0016 enforceSegWit v =
    (let rules = ce_rules env; ver = bh_Version (b_header b); ht = height_of node;
         runScripts = (case ce_checkpoint env of Some c \<Rightarrow> \<not> ht \<le> c | None \<Rightarrow> True) in
     case ce_csv env of
       Ok csv \<Rightarrow>
         (case (if csv then (case CalcPastMedianTime (n_parent node) of
                   Ok medianTime \<Rightarrow> locksHold node medianTime (b_txs b) v | Err e \<Rightarrow> Err e | Panic e \<Rightarrow> Panic e | Blocked \<Rightarrow> Blocked)
                 else Ok None) of
            Ok (Some e) \<Rightarrow> Ok (Some e)
          | Ok None \<Rightarrow> (case ce_taproot env of
              Ok taproot \<Rightarrow>
                let flags = \<lparr>ScriptBip16 = enforceBIP0016, ScriptVerifyDERSignatures = (ver \<ge> 3 \<and> ht \<ge> BIP0066Height rules),
                      ScriptVerifyCheckLockTimeVerify = (ver \<ge> 4 \<and> ht \<ge> BIP0065Height rules), ScriptVerifyCheckSequenceVerify = csv,
                      ScriptVerifyWitness = enforceSegWit, ScriptStrictMultiSig = enforceSegWit, ScriptVerifyTaproot = taproot\<rparr> in
                Ok (if runScripts \<and> \<not> ce_checkBlockScripts env (b_txs b) v flags then Some ErrScript else None)
            | Err e \<Rightarrow> Err e | Panic e \<Rightarrow> Panic e | Blocked \<Rightarrow> Blocked)
          | Err e \<Rightarrow> Err e | Panic e \<Rightarrow> Panic e | Blocked \<Rightarrow> Blocked)
     | Err e \<Rightarrow> Err e | Panic e \<Rightarrow> Panic e | Blocked \<Rightarrow> Blocked)"

definition Bip16Activation :: int where
  "Bip16Activation = 1333238400"

text \<open>The checks once the inputs are in the view.\<close>

definition checkFetched :: "connectEnv \<Rightarrow> blockNode \<Rightarrow> block \<Rightarrow> UtxoViewpoint \<Rightarrow> SpentTxOut list \<Rightarrow> (block_error + UtxoViewpoint \<times> SpentTxOut list) outcome" where
  "checkFetched env node b vw stxos =
    (let txs = b_txs b; enforceBIP0016 = (n_timestamp (blk node) \<ge> Bip16Activation) in
     case ce_segwit env of
       Ok enforceSegWit \<Rightarrow>
         (case costLoop True txs (v_entries vw) enforceBIP0016 enforceSegWit 0 of
            Some e \<Rightarrow> Ok (Inl e)
          | None \<Rightarrow> (case checkValues (rulesParams (ce_rules env)) (height_of node) txs (v_entries vw, stxos) of
              Ok (Inl e) \<Rightarrow> Ok (Inl e)
            | Ok (Inr (v, stxos')) \<Rightarrow> (case checkLocksAndScripts env node b enforceBIP0016 enforceSegWit v of
                Ok (Some e) \<Rightarrow> Ok (Inl e)
              | Ok None \<Rightarrow> Ok (Inr (SetBestHash (hash_of node) (vw\<lparr>v_entries := v\<rparr>), stxos'))
              | Err e \<Rightarrow> Err e | Panic e \<Rightarrow> Panic e | Blocked \<Rightarrow> Blocked)
            | Err e \<Rightarrow> Err e | Panic e \<Rightarrow> Panic e | Blocked \<Rightarrow> Blocked))
     | Err e \<Rightarrow> Err e | Panic e \<Rightarrow> Panic e | Blocked \<Rightarrow> Blocked)"

definition checkConnectBlock ::
  "(octets \<Rightarrow> octets option) \<Rightarrow> connectEnv \<Rightarrow> blockNode \<Rightarrow> block \<Rightarrow> UtxoViewpoint \<Rightarrow> SpentTxOut list \<Rightarrow>
   (utxoCache, block_error + UtxoViewpoint \<times> SpentTxOut list) act" where
  "checkConnectBlock parse env node b vw stxos =
    (let rules = ce_rules env; txs = b_txs b; ht = height_of node in
     if hash_of node = GenesisHash rules then ret_act (Inl (RuleTx ErrMissingTxOut))
     else if v_bestHash vw \<noteq> bh_PrevBlock (b_header b) then fail_act ''inconsistent view when checking block connection''
     else bind_act (if \<not> isBIP0030Node node \<and> ht < BIP0034Height rules then checkBIP0030 parse txs vw else ret_act (Inr vw)) (\<lambda>r.
       case r of
         Inl e \<Rightarrow> ret_act (Inl e)
       | Inr vw1 \<Rightarrow> bind_act (fetchInputUtxos parse txs ht vw1) (\<lambda>vw2. lift_out (checkFetched env node b vw2 stxos))))"

end
