(* ===== verification/Coin_Connect.thy ===== *)
theory Coin_Connect
  imports Coin_Block
begin

text \<open>
  The value of the ledger under the checks of a block.  A block is checked on a view that holds only the outputs it needs,
  loaded from the cache, and then connected to the cache.  The view agrees with the ledger on every output that
  a transaction of the block spends, at the moment it is spent, so that the checks speak about the ledger; this needs that no
  transaction of the block spends an output of itself or of a later one, which the checks do not ensure.
\<close>

declare split_paired_All [simp del] split_paired_Ex [simp del]

subsection \<open>The unspent outputs of a view\<close>

definition unspent :: "view \<Rightarrow> view" where
  "unspent v p = coinOf (v p)"

lemma coinOf_eq_None: "coinOf (v p) = None \<longleftrightarrow> \<not> spendable v p"
  by (auto simp: coinOf_def spendable_def split: option.split)

lemma coinOf_Some [simp]: "coinOf (Some e) = (if ent_spent e then None else Some (core e))"
  by (simp add: coinOf_def)

lemma coinOf_None [simp]: "coinOf None = None"
  by (simp add: coinOf_def)

lemma coinOf_Spend [simp]: "coinOf (map_option Spend x) = None"
  by (cases x) (simp_all add: Spend_def)

lemma worthAt_unspent: "worthAt (unspent v) p = worthAt v p"
  by (auto simp: worthAt_def worth_def unspent_def coinOf_def split: option.split)

lemma valueOf_unspent:
  assumes "finite (dom v)"
  shows "valueOf (unspent v) = valueOf v" "finite (dom (unspent v))"
proof -
  have sub: "dom (unspent v) \<subseteq> dom v" by (auto simp: unspent_def coinOf_def split: option.splits)
  then show "finite (dom (unspent v))" using assms finite_subset by blast
  have "worthAt v p = 0" if "p \<in> dom v - dom (unspent v)" for p
    using that by (auto simp: unspent_def worthAt_def worth_def coinOf_def split: if_splits)
  then have "(\<Sum>p \<in> dom v. worthAt v p) = (\<Sum>p \<in> dom (unspent v). worthAt v p)"
    using sub assms by (intro sum.mono_neutral_right) auto
  then show "valueOf (unspent v) = valueOf v" by (simp add: valueOf_def worthAt_unspent)
qed

subsection \<open>New outputs\<close>

definition newOuts :: "int \<Rightarrow> MsgTx \<Rightarrow> view" where
  "newOuts ht tx = addOuts (tx_hash tx) (IsCoinBase tx) ht 0 (tx_outs tx) Map.empty"

lemma addOuts_add: "addOuts h cb ht i outs v = v ++ addOuts h cb ht i outs Map.empty"
proof (induction outs arbitrary: i v)
  case (Cons out outs)
  let ?a = "\<lambda>v. addTxOut (h, of_nat i) out cb ht v"
  have one: "?a v = v ++ ?a Map.empty" by (auto simp: addTxOut_def)
  have "addOuts h cb ht i (out # outs) v = ?a v ++ addOuts h cb ht (Suc i) outs Map.empty"
    unfolding addOuts.simps by (rule Cons.IH)
  also have "\<dots> = v ++ (?a Map.empty ++ addOuts h cb ht (Suc i) outs Map.empty)" by (subst one) (rule map_add_assoc [symmetric])
  also have "?a Map.empty ++ addOuts h cb ht (Suc i) outs Map.empty = addOuts h cb ht i (out # outs) Map.empty"
    unfolding addOuts.simps by (rule Cons.IH [symmetric])
  finally show ?case .
qed simp

lemma AddTxOuts_new: "AddTxOuts tx ht v = v ++ newOuts ht tx"
  unfolding AddTxOuts_def newOuts_def by (rule addOuts_add)

lemma addOuts_range: "addOuts h cb ht i outs v p = Some e \<Longrightarrow> v p = Some e \<or> fst p = h \<and> \<not> ent_spent e"
  by (induction outs arbitrary: i v) (fastforce simp: addTxOut_def split: if_splits)+

lemma newOuts_range: "newOuts ht tx p = Some e \<Longrightarrow> fst p = tx_hash tx \<and> \<not> ent_spent e"
  using addOuts_range [of "tx_hash tx" "IsCoinBase tx" ht 0 "tx_outs tx" Map.empty p e] by (simp add: newOuts_def)

lemma newOuts_other: "fst p \<noteq> tx_hash tx \<Longrightarrow> newOuts ht tx p = None"
  using newOuts_range by (cases "newOuts ht tx p") blast+

lemma ledgerOuts_unspent: "ledgerOuts h cb ht i outs (unspent v) = unspent (addOuts h cb ht i outs v)"
proof (induction outs arbitrary: i v)
  case (Cons out outs)
  have "(if IsUnspendable (PkScript out) then unspent v else (unspent v)((h, of_nat i) \<mapsto> newCoin cb ht out)) =
      unspent (addTxOut (h, of_nat i) out cb ht v)"
    by (auto simp: addTxOut_def unspent_def fun_eq_iff newCoin_def)
  with Cons.IH show ?case by simp
qed simp

subsection \<open>Connecting a transaction to a view\<close>

lemma spendIns_entries: "spendIns is v s = Ok (v', s') \<Longrightarrow>
  v' = (\<lambda>p. if p \<in> PreviousOutPoint ` set is then map_option Spend (v p) else v p)"
proof (induction "is" arbitrary: v s)
  case (Cons i "is")
  from Cons.prems obtain e where e: "v (PreviousOutPoint i) = Some e" by (auto split: option.splits)
  have idem: "Spend (Spend e) = Spend e" by (simp add: Spend_def)
  have "v' = (\<lambda>p. if p \<in> PreviousOutPoint ` set is then map_option Spend ((v(PreviousOutPoint i \<mapsto> Spend e)) p)
      else (v(PreviousOutPoint i \<mapsto> Spend e)) p)" using Cons.prems e by (intro Cons.IH) (simp only: spendIns.simps option.case)
  then show ?case using e idem by (auto simp: fun_eq_iff)
qed (simp add: fun_eq_iff)

lemma connect_entries:
  assumes "connectTransaction tx ht (v, s) = Ok (v', s')"
  shows "v' = (\<lambda>p. if p \<in> spentOutpoints tx then map_option Spend (v p) else v p) ++ newOuts ht tx"
proof (cases "IsCoinBase tx")
  case True
  then show ?thesis using assms by (auto simp: connectTransaction_def AddTxOuts_new spentOutpoints_def)
next
  case False
  then obtain v1 where v1: "spendIns (tx_ins tx) v s = Ok (v1, s')" "v' = AddTxOuts tx ht v1"
    using assms by (auto simp: connectTransaction_def split: outcome.splits)
  show ?thesis unfolding v1(2) AddTxOuts_new spendIns_entries [OF v1(1)] using False by (simp add: spentOutpoints_def)
qed

lemma connect_unspent:
  assumes "connectTransaction tx ht (v, s) = Ok (v', s')"
  shows "unspent v' = ledgerTx tx ht (unspent v)"
proof -
  let ?v = "\<lambda>p. if p \<in> spentOutpoints tx then map_option Spend (v p) else v p"
  have "unspent ?v = unspent v |` (- spentOutpoints tx)" by (auto simp: fun_eq_iff unspent_def restrict_map_def)
  then show ?thesis
    unfolding ledgerTx_def connect_entries [OF assms] newOuts_def addOuts_add [symmetric] by (simp only: ledgerOuts_unspent [symmetric])
qed

text \<open>The checks of the inputs see only the unspent outputs they ask for.\<close>

lemma checkIns_cong: "\<forall>i \<in> set is. coinOf (v (PreviousOutPoint i)) = coinOf (V (PreviousOutPoint i)) \<Longrightarrow>
  checkIns ht m is v acc = checkIns ht m is V acc"
proof (induction "is" arbitrary: acc)
  case (Cons i "is")
  have IH: "checkIns ht m is v a = checkIns ht m is V a" for a using Cons by simp
  have same: "coinOf (v (PreviousOutPoint i)) = coinOf (V (PreviousOutPoint i))" using Cons.prems by simp
  show ?case
  proof (cases "coinOf (v (PreviousOutPoint i))")
    case None
    then have "\<not> spendable v (PreviousOutPoint i)" "\<not> spendable V (PreviousOutPoint i)" using same by (simp_all flip: coinOf_eq_None)
    then show ?thesis by (auto simp: spendable_def split: option.split)
  next
    case (Some c)
    then obtain e E where e: "v (PreviousOutPoint i) = Some e" "V (PreviousOutPoint i) = Some E" "\<not> ent_spent e" "\<not> ent_spent E" "core e = core E"
      using same by (auto simp: coinOf_def split: option.splits if_splits)
    from arg_cong [OF e(5), of amount] arg_cong [OF e(5), of blockHeight] arg_cong [OF e(5), of ent_coinbase]
    have "amount e = amount E" "blockHeight e = blockHeight E" "ent_coinbase e = ent_coinbase E" by simp_all
    with e IH show ?thesis by (simp add: Let_def)
  qed
qed simp

lemma checkInputs_cong:
  "\<forall>p \<in> spentOutpoints tx. coinOf (v p) = coinOf (V p) \<Longrightarrow> CheckTransactionInputs tx ht v q = CheckTransactionInputs tx ht V q"
  using checkIns_cong [of "tx_ins tx" v V] by (auto simp: CheckTransactionInputs_def spentOutpoints_def)

lemma inputs_spendable: "CheckTransactionInputs tx ht v q = Inr fee \<Longrightarrow> p \<in> spentOutpoints tx \<Longrightarrow> spendable v p"
proof (rule ccontr)
  assume a: "CheckTransactionInputs tx ht v q = Inr fee" "p \<in> spentOutpoints tx" "\<not> spendable v p"
  then obtain i where i: "\<not> IsCoinBase tx" "i \<in> set (tx_ins tx)" "p = PreviousOutPoint i" by (auto simp: spentOutpoints_def split: if_splits)
  with a(3) checkIns_missing [of i "tx_ins tx" v ht "CoinbaseMaturity q" 0] obtain e where
    "checkIns ht (CoinbaseMaturity q) (tx_ins tx) v 0 = Inl e" by auto
  with a(1) i(1) show False by (simp add: CheckTransactionInputs_def)
qed

subsection \<open>The view agrees with the ledger\<close>

text \<open>On the outputs of transactions that are still to come the view may already have what they will create; on all
  others that are still to be spent it has what the ledger has.\<close>

definition agree :: "int \<Rightarrow> view \<Rightarrow> view \<Rightarrow> MsgTx list \<Rightarrow> bool" where
  "agree ht v V txs \<longleftrightarrow> (\<forall>tx \<in> set txs. \<forall>p \<in> spentOutpoints tx.
     if fst p \<in> tx_hash ` set txs then coinOf (v p) = None \<or> (\<exists>r \<in> set txs. newOuts ht r p \<noteq> None)
     else coinOf (v p) = coinOf (V p))"

text \<open>No transaction spends an output of itself or of a later one.\<close>

fun inOrder :: "MsgTx list \<Rightarrow> bool" where
  "inOrder [] = True"
| "inOrder (tx # txs) \<longleftrightarrow> (\<forall>p \<in> spentOutpoints tx. fst p \<notin> tx_hash ` set (tx # txs)) \<and> inOrder txs"

lemma agree_first:
  assumes "agree ht v V (tx # txs)" and "inOrder (tx # txs)" and "p \<in> spentOutpoints tx"
  shows "coinOf (v p) = coinOf (V p)"
proof -
  have "fst p \<notin> tx_hash ` set (tx # txs)" using assms(2,3) by simp
  moreover have "if fst p \<in> tx_hash ` set (tx # txs) then coinOf (v p) = None \<or> (\<exists>r \<in> set (tx # txs). newOuts ht r p \<noteq> None)
     else coinOf (v p) = coinOf (V p)" using assms(1,3) unfolding agree_def by (meson list.set_intros(1))
  ultimately show ?thesis by (simp only: if_False)
qed

lemma agree_step:
  assumes "agree ht v V (tx # txs)" and "distinct (map tx_hash (tx # txs))" and "new_tx tx V"
    and "v' = (\<lambda>p. if p \<in> spentOutpoints tx then map_option Spend (v p) else v p) ++ newOuts ht tx"
    and "V' = (\<lambda>p. if p \<in> spentOutpoints tx then map_option Spend (V p) else V p) ++ newOuts ht tx"
  shows "agree ht v' V' txs"
  unfolding agree_def
proof (intro ballI)
  fix t p
  assume t: "t \<in> set txs" "p \<in> spentOutpoints t"
  let ?in = "fst p \<in> tx_hash ` set (tx # txs)"
  have old: "if ?in then coinOf (v p) = None \<or> (\<exists>r \<in> set (tx # txs). newOuts ht r p \<noteq> None) else coinOf (v p) = coinOf (V p)"
    using assms(1) t unfolding agree_def by (meson list.set_intros(2))
  have notin: "tx_hash tx \<notin> tx_hash ` set txs" using assms(2) by simp
  have step: "coinOf (v' p) = (case newOuts ht tx p of Some e \<Rightarrow> coinOf (Some e) | None \<Rightarrow> if p \<in> spentOutpoints tx then None else coinOf (v p))"
    "coinOf (V' p) = (case newOuts ht tx p of Some e \<Rightarrow> coinOf (Some e) | None \<Rightarrow> if p \<in> spentOutpoints tx then None else coinOf (V p))"
    by (simp_all add: assms(4,5) map_add_def split: option.split)
  show "if fst p \<in> tx_hash ` set txs then coinOf (v' p) = None \<or> (\<exists>r \<in> set txs. newOuts ht r p \<noteq> None) else coinOf (v' p) = coinOf (V' p)"
  proof (cases "fst p = tx_hash tx")
    case True
    have "coinOf (V p) = None" using assms(3) True unfolding coinOf_eq_None new_tx_def by (metis prod.collapse)
    moreover have "coinOf (v p) = None" if "newOuts ht tx p = None"
    proof -
      have "newOuts ht r p = None" if "r \<in> set txs" for r
        using that True notin newOuts_other [of p r ht] by (metis imageI)
      then show ?thesis using old True that by auto
    qed
    ultimately show ?thesis using True notin step by (auto split: option.split)
  next
    case False
    then have n: "newOuts ht tx p = None" by (rule newOuts_other)
    show ?thesis using old False n step by (auto split: if_splits)
  qed
qed

lemma new_step:
  assumes "new_tx t V" and "tx_hash t \<noteq> tx_hash tx"
    and "V' = (\<lambda>p. if p \<in> spentOutpoints tx then map_option Spend (V p) else V p) ++ newOuts ht tx"
  shows "new_tx t V'"
proof -
  have "coinOf (V' (tx_hash t, i)) = None" for i
  proof -
    have "newOuts ht tx (tx_hash t, i) = None" using assms(2) by (intro newOuts_other) simp
    moreover have "coinOf (V (tx_hash t, i)) = None" using assms(1) unfolding coinOf_eq_None new_tx_def by blast
    ultimately show ?thesis by (simp add: assms(3) map_add_def)
  qed
  then show ?thesis unfolding new_tx_def coinOf_eq_None by blast
qed

subsection \<open>The loop over the transactions\<close>

definition minted :: "MsgTx \<Rightarrow> int" where
  "minted tx = (if IsCoinBase tx then sum_list (map Value (tx_outs tx)) else 0)"

lemma wrap64_range: "wrap64 a < 2 ^ 63"
  by (simp add: wrap64_def)

lemma fees_exact:
  assumes "0 \<le> a" "a < 2 ^ 63" "0 \<le> b" "b < 2 ^ 63" "\<not> wrap64 (a + b) < a"
  shows "wrap64 (a + b) = a + b \<and> a + b < 2 ^ 63"
proof (cases "a + b < 2 ^ 63")
  case True
  then show ?thesis using assms by (simp add: wrap64_id)
next
  case False
  have "(a + b + 2 ^ 63) mod 2 ^ 64 = (a + b + 2 ^ 63 - 2 ^ 64) mod 2 ^ 64" by (rule minus_mod_self2 [symmetric])
  also have "\<dots> = a + b + 2 ^ 63 - 2 ^ 64" using False assms by (intro mod_pos_pos_trivial) auto
  finally have "wrap64 (a + b) = a + b - 2 ^ 64" by (simp add: wrap64_def)
  with assms show ?thesis by simp
qed

lemma sane_outs: "CheckTransactionSanity tx = None \<Longrightarrow> out \<in> set (tx_outs tx) \<Longrightarrow> 0 \<le> Value out"
  using checkOutputs_spec [OF sane_facts(1), of tx] by (simp add: MaxSatoshi_def)

text \<open>Connecting one transaction to the whole ledger: what it destroys is at least its fee, and only a coinbase creates.\<close>

lemma step_value:
  assumes "finite (dom V)" and "new_tx tx V" and "CheckTransactionSanity tx = None" and "CheckTransactionInputs tx ht V q = Inr fee"
  shows "\<exists>V' s'. connectTransaction tx ht (V, []) = Ok (V', s') \<and> finite (dom V') \<and> 0 \<le> fee \<and> fee < 2 ^ 63 \<and>
    valueOf V' + fee \<le> valueOf V + minted tx"
proof (cases "IsCoinBase tx")
  case True
  let ?live = "sum_list (map Value (filter (\<lambda>out. \<not> IsUnspendable (PkScript out)) (tx_outs tx)))"
  have "finite (dom (AddTxOuts tx ht V)) \<and> valueOf (AddTxOuts tx ht V) = valueOf V + ?live"
    using addOuts_spec [OF assms(1), of 0 "tx_outs tx" "tx_hash tx" "IsCoinBase tx" ht] assms(2) sane_facts(3) [OF assms(3)]
    by (simp add: AddTxOuts_def new_tx_def)
  moreover have "?live \<le> sum_list (map Value (tx_outs tx))"
  proof -
    have "(\<forall>x \<in> set xs. 0 \<le> Value x) \<Longrightarrow>
        sum_list (map Value (filter (\<lambda>out. \<not> IsUnspendable (PkScript out)) xs)) \<le> sum_list (map Value xs)" for xs
      by (induction xs) auto
    with sane_outs [OF assms(3)] show ?thesis by blast
  qed
  moreover have "fee = 0" using assms(4) True by (simp add: CheckTransactionInputs_def)
  ultimately show ?thesis using True by (simp add: connectTransaction_def minted_def)
next
  case False
  have "0 \<le> sum_list (map Value (filter (\<lambda>out. IsUnspendable (PkScript out)) (tx_outs tx)))"
    using sane_outs [OF assms(3)] by (intro sum_list_nonneg) auto
  moreover have "fee < 2 ^ 63"
    using assms(4) False wrap64_range by (auto simp: CheckTransactionInputs_def Let_def split: sum.splits if_splits)
  ultimately show ?thesis using connect_spec [OF assms(1,2) False assms(3,4), of "[]"] False by (fastforce simp: minted_def)
qed

lemma connectLoop_value:
  assumes "finite (dom V)" and "agree ht v V txs" and "inOrder txs" and "distinct (map tx_hash txs)"
    and "\<forall>tx \<in> set txs. new_tx tx V \<and> CheckTransactionSanity tx = None" and "0 \<le> fees" and "fees < 2 ^ 63"
    and "connectLoop q ht txs (v, st) fees = Ok (Inr (vs', fees'))"
  shows "canConnect (unspent V) ht txs \<and> fees \<le> fees' \<and> fees' < 2 ^ 63 \<and>
    valueOf (ledgerBlock txs ht (unspent V)) + fees' \<le> valueOf V + fees + sum_list (map minted txs)"
  using assms
proof (induction txs arbitrary: v V st fees)
  case Nil
  then show ?case by (simp add: valueOf_unspent)
next
  case (Cons tx txs)
  from Cons.prems(8) obtain fee v1 st1 where loop: "CheckTransactionInputs tx ht v q = Inr fee" "\<not> wrap64 (fees + fee) < fees"
    "connectTransaction tx ht (v, st) = Ok (v1, st1)" "connectLoop q ht txs (v1, st1) (wrap64 (fees + fee)) = Ok (Inr (vs', fees'))"
    by (auto simp: Let_def split: sum.splits if_splits outcome.splits)
  have same: "\<forall>p \<in> spentOutpoints tx. coinOf (v p) = coinOf (V p)" using agree_first [OF Cons.prems(2,3)] by blast
  then have chk: "CheckTransactionInputs tx ht V q = Inr fee" using checkInputs_cong loop(1) by metis
  have new: "new_tx tx V" "CheckTransactionSanity tx = None" using Cons.prems(5) by simp_all
  obtain V1 s1 where V1: "connectTransaction tx ht (V, []) = Ok (V1, s1)" "finite (dom V1)" "0 \<le> fee" "fee < 2 ^ 63"
    "valueOf V1 + fee \<le> valueOf V + minted tx" using step_value [OF Cons.prems(1) new chk] by blast
  have fees: "wrap64 (fees + fee) = fees + fee" "fees + fee < 2 ^ 63" using fees_exact [OF Cons.prems(6,7) V1(3,4) loop(2)] by simp_all
  have ag: "agree ht v1 V1 txs"
    by (rule agree_step [OF Cons.prems(2,4) new(1) connect_entries [OF loop(3)] connect_entries [OF V1(1)]])
  have rest: "\<forall>t \<in> set txs. new_tx t V1 \<and> CheckTransactionSanity t = None"
  proof
    fix t assume t: "t \<in> set txs"
    then have "tx_hash t \<noteq> tx_hash tx" using Cons.prems(4) by (auto simp: image_iff)
    with t Cons.prems(5) new_step [OF _ _ connect_entries [OF V1(1)], of t] show "new_tx t V1 \<and> CheckTransactionSanity t = None" by simp
  qed
  have IH: "canConnect (unspent V1) ht txs \<and> fees + fee \<le> fees' \<and> fees' < 2 ^ 63 \<and>
      valueOf (ledgerBlock txs ht (unspent V1)) + fees' \<le> valueOf V1 + (fees + fee) + sum_list (map minted txs)"
    using Cons.prems(3,4,6) V1(3) fees loop(4) by (intro Cons.IH [OF V1(2) ag _ _ rest]) auto
  have "spendable V (PreviousOutPoint i)" if "\<not> IsCoinBase tx" "i \<in> set (tx_ins tx)" for i
    using that by (intro inputs_spendable [OF chk]) (simp add: spentOutpoints_def)
  then have "canSpend (unspent V) tx"
    using sane_facts(2) [OF new(2)] by (auto simp: canSpend_def unspent_def domIff coinOf_eq_None)
  with IH V1(5) connect_unspent [OF V1(1)] V1(3) show ?case by simp
qed

subsection \<open>Loading the view\<close>

lemma txInFlight_fold:
  "fold (\<lambda>(i, tx) m. m(tx_hash tx \<mapsto> i)) (enumerate k txs) m h = Some j \<Longrightarrow>
     m h = Some j \<or> k \<le> j \<and> j < k + length txs \<and> tx_hash (txs ! (j - k)) = h"
  "h \<in> tx_hash ` set txs \<or> m h \<noteq> None \<Longrightarrow> fold (\<lambda>(i, tx) m. m(tx_hash tx \<mapsto> i)) (enumerate k txs) m h \<noteq> None"
proof (induction txs arbitrary: k m)
  case (Cons tx txs)
  { case 1
    then have "fold (\<lambda>(i, tx) m. m(tx_hash tx \<mapsto> i)) (enumerate (Suc k) txs) (m(tx_hash tx \<mapsto> k)) h = Some j"
      by (simp del: fun_upd_apply)
    from Cons.IH(1) [OF this] show ?case by (auto simp: nth_Cons' Suc_le_eq split: if_splits) }
  { case 2
    then show ?case using Cons.IH(2) [of "m(tx_hash tx \<mapsto> k)" "Suc k"] by auto }
qed simp_all

lemma txInFlight_Some: "txInFlight txs h = Some j \<Longrightarrow> j < length txs \<and> tx_hash (txs ! j) = h"
  using txInFlight_fold(1) [of 0 txs Map.empty h j] by (simp add: txInFlight_def)

lemma txInFlight_None: "txInFlight txs h = None \<Longrightarrow> h \<notin> tx_hash ` set txs"
  using txInFlight_fold(2) [of h txs Map.empty 0] by (auto simp: txInFlight_def)

text \<open>Before the inputs are fetched the view has unspent only outputs of the block, and only keys of the block.\<close>

definition loads :: "int \<Rightarrow> MsgTx list \<Rightarrow> UtxoViewpoint \<Rightarrow> bool" where
  "loads ht txs vw \<longleftrightarrow> (\<forall>p. coinOf (v_entries vw p) = None \<or> (\<exists>r \<in> set txs. newOuts ht r p \<noteq> None)) \<and>
    (\<forall>p. v_known vw p \<longrightarrow> fst p \<in> tx_hash ` set txs)"

lemma loads_add:
  assumes "loads ht txs vw" and "tx \<in> set txs"
  shows "loads ht txs (vw\<lparr>v_entries := AddTxOuts tx ht (v_entries vw)\<rparr>)"
  unfolding loads_def
proof (intro conjI allI impI)
  fix p
  show "coinOf (v_entries (vw\<lparr>v_entries := AddTxOuts tx ht (v_entries vw)\<rparr>) p) = None \<or> (\<exists>r \<in> set txs. newOuts ht r p \<noteq> None)"
    using assms by (cases "newOuts ht tx p") (auto simp: loads_def AddTxOuts_new map_add_def)
  assume "v_known (vw\<lparr>v_entries := AddTxOuts tx ht (v_entries vw)\<rparr>) p"
  then show "fst p \<in> tx_hash ` set txs"
    using assms newOuts_range [of ht tx p] by (cases "newOuts ht tx p") (auto simp: loads_def AddTxOuts_new map_add_def v_known_def)
qed

lemma findIns_spec:
  assumes "loads ht txs vw" and "findIns txs ht i is (needed, vw) = (needed', vw')"
  shows "loads ht txs vw' \<and> set needed \<subseteq> set needed' \<and> set needed' \<subseteq> set needed \<union> PreviousOutPoint ` set is \<and>
    (\<forall>x \<in> set is. fst (PreviousOutPoint x) \<notin> tx_hash ` set txs \<longrightarrow> PreviousOutPoint x \<in> set needed') \<and> v_bestHash vw' = v_bestHash vw"
  using assms
proof (induction "is" arbitrary: needed vw)
  case (Cons x "is")
  let ?p = "PreviousOutPoint x"
  let ?vw = "\<lambda>j. vw\<lparr>v_entries := AddTxOuts (txs ! j) ht (v_entries vw)\<rparr>"
  show ?case
  proof (cases "\<exists>j. txInFlight txs (fst ?p) = Some j \<and> i \<ge> j")
    case True
    then obtain j where j: "txInFlight txs (fst ?p) = Some j" "i \<ge> j" by blast
    have m: "j < length txs" "tx_hash (txs ! j) = fst ?p" using txInFlight_Some [OF j(1)] by simp_all
    have l: "loads ht txs (?vw j)" using Cons.prems(1) m(1) by (intro loads_add) simp_all
    have "findIns txs ht i is (needed, ?vw j) = (needed', vw')" using Cons.prems(2) j by (simp add: Let_def)
    from Cons.IH [OF l this] m show ?thesis by (auto simp: image_iff) (metis nth_mem)
  next
    case False
    let ?n = "if v_known vw ?p then needed else needed @ [?p]"
    have step: "findIns txs ht i is (?n, vw) = (needed', vw')" using Cons.prems(2) False by (auto simp: Let_def split: option.splits)
    have "fst ?p \<notin> tx_hash ` set txs \<longrightarrow> ?p \<in> set ?n" using Cons.prems(1) by (auto simp: loads_def)
    with Cons.IH [OF Cons.prems(1) step] show ?thesis by (auto split: if_splits)
  qed
qed simp

lemma findTxs_spec:
  assumes "loads ht txs vw" and "findTxs txs ht i rest (needed, vw) = (needed', vw')"
  shows "loads ht txs vw' \<and> set needed \<subseteq> set needed' \<and> set needed' \<subseteq> set needed \<union> (\<Union>tx \<in> set rest. PreviousOutPoint ` set (tx_ins tx)) \<and>
    (\<forall>tx \<in> set rest. \<forall>x \<in> set (tx_ins tx). fst (PreviousOutPoint x) \<notin> tx_hash ` set txs \<longrightarrow> PreviousOutPoint x \<in> set needed') \<and>
    v_bestHash vw' = v_bestHash vw"
  using assms
proof (induction rest arbitrary: i needed vw)
  case (Cons tx rest)
  obtain n1 vw1 where f: "findIns txs ht i (tx_ins tx) (needed, vw) = (n1, vw1)" by fastforce
  have step: "findTxs txs ht (Suc i) rest (n1, vw1) = (needed', vw')" using Cons.prems(2) f by simp
  note one = findIns_spec [OF Cons.prems(1) f]
  have IH: "loads ht txs vw' \<and> set n1 \<subseteq> set needed' \<and> set needed' \<subseteq> set n1 \<union> (\<Union>tx \<in> set rest. PreviousOutPoint ` set (tx_ins tx)) \<and>
    (\<forall>tx \<in> set rest. \<forall>x \<in> set (tx_ins tx). fst (PreviousOutPoint x) \<notin> tx_hash ` set txs \<longrightarrow> PreviousOutPoint x \<in> set needed') \<and>
    v_bestHash vw' = v_bestHash vw1" by (rule Cons.IH [OF conjunct1 [OF one] step])
  from one IH show ?case by (simp del: split_paired_All) blast
qed simp

lemma fold_v_set:
  "map coinOf xs = map U ps \<Longrightarrow>
   coinOf (v_entries (fold v_set (zip ps xs) vw) p) = (if p \<in> set ps then U p else coinOf (v_entries vw p)) \<and>
   (v_known (fold v_set (zip ps xs) vw) p \<longleftrightarrow> v_known vw p \<or> p \<in> set ps) \<and> v_bestHash (fold v_set (zip ps xs) vw) = v_bestHash vw"
proof (induction ps arbitrary: xs vw)
  case (Cons q ps)
  then obtain x xs' where x: "xs = x # xs'" "coinOf x = U q" "map coinOf xs' = map U ps" by (cases xs) auto
  have "v_known (v_set (q, x) vw) p \<longleftrightarrow> v_known vw p \<or> p = q" by (auto simp: v_known_def v_set_def)
  then show ?case using Cons.IH [OF x(3), of "v_set (q, x) vw"] x(1,2) by (auto simp: v_set_def)
qed simp

lemma fetchUtxosFromCache_spec:
  assumes "cache_inv parse s" and "\<forall>p \<in> set ops. length (fst p) = 32"
  shows "\<exists>vw' s'. fetchUtxosFromCache parse ops vw s = (Ok vw', s') \<and> same_ledger parse s s' \<and>
    (\<forall>p. coinOf (v_entries vw' p) = (if p \<in> set ops then ledger parse s p else coinOf (v_entries vw p)) \<and>
      (v_known vw' p \<longleftrightarrow> v_known vw p \<or> p \<in> set ops)) \<and> v_bestHash vw' = v_bestHash vw"
proof (cases "ops = []")
  case True
  then show ?thesis using assms(1) by (simp add: fetchUtxosFromCache_def act_defs same_ledger_def)
next
  case False
  obtain xs s' where f: "fetchEntries parse ops s = (Ok xs, s')" "same_ledger parse s s'" "map coinOf xs = map (ledger parse s) ops"
    using fetchEntries_spec [OF assms] by blast
  show ?thesis
    using f False fold_v_set [OF f(3), of vw]
    by (intro exI [of _ "fold v_set (zip ops xs) vw"] exI [of _ s']) (auto simp: fetchUtxosFromCache_def bind_act_def act_defs)
qed

lemma coinOf_idem [simp]: "coinOf (coinOf x) = coinOf x"
  by (simp add: coinOf_def split: option.split)

lemma coinOf_ledger [simp]: "coinOf (ledger parse s p) = ledger parse s p"
  by (simp add: ledger_def split: option.split)

lemma unspent_ledger [simp]: "unspent (ledger parse s) = ledger parse s"
  by (simp add: unspent_def fun_eq_iff)

lemma new_in_ledger: "new_tx tx (ledger parse s) \<longleftrightarrow> (\<forall>i. ledger parse s (tx_hash tx, i) = None)"
  by (simp add: new_tx_def flip: coinOf_eq_None)

lemma loads_new: "loads ht txs (SetBestHash h NewUtxoViewpoint)"
  by (simp add: loads_def SetBestHash_def NewUtxoViewpoint_def v_known_def)

lemma BIP0030_loads:
  assumes "cache_inv parse s" and "loads ht txs vw"
    and "\<forall>tx \<in> set txs. length (tx_hash tx) = 32 \<and> new_tx tx (ledger parse s)"
  shows "\<exists>r vw' s'. checkBIP0030 parse txs vw s = (Ok r, s') \<and> (r = Inl ErrOverwriteTx \<or> r = Inr vw') \<and> same_ledger parse s s' \<and> loads ht txs vw' \<and> v_bestHash vw' = v_bestHash vw"
proof -
  define fetch where "fetch = concat (map outputsOf txs)"
  let ?n = "filter (\<lambda>p. \<not> v_known vw p) fetch"
  have own: "fst p \<in> tx_hash ` set txs" if "p \<in> set fetch" for p using that by (auto simp: fetch_def outputsOf_def)
  have "\<forall>p \<in> set ?n. length (fst p) = 32" using own assms(3) by fastforce
  from fetchUtxosFromCache_spec [OF assms(1) this, of vw] obtain vw' s' where
    f: "fetchUtxosFromCache parse ?n vw s = (Ok vw', s')" "same_ledger parse s s'" "v_bestHash vw' = v_bestHash vw"
    and e: "\<And>p. coinOf (v_entries vw' p) = (if p \<in> set ?n then ledger parse s p else coinOf (v_entries vw p))"
      "\<And>p. v_known vw' p \<longleftrightarrow> v_known vw p \<or> p \<in> set ?n" by blast
  have none: "ledger parse s p = None" if "p \<in> set fetch" for p
    using own [OF that] assms(3) by (auto simp: new_in_ledger) (metis prod.collapse)
  have l: "loads ht txs vw'" using assms(2) none own e unfolding loads_def by auto
  have fu: "fetchUtxos parse fetch vw s = (Ok vw', s')"
    using f(1) by (cases "fetch = []") (simp_all add: fetchUtxos_def fetchUtxosFromCache_def)
  show ?thesis
    using f(2,3) l fu unfolding checkBIP0030_def Let_def fetch_def [symmetric] by (fastforce simp: bind_act_def act_defs)
qed

lemma inputs_agree:
  assumes "cache_inv parse s" and "loads ht txs vw" and "txs = cb # rest" and "IsCoinBase cb"
    and "\<forall>tx \<in> set txs. new_tx tx (ledger parse s) \<and> (\<forall>i \<in> set (tx_ins tx). length (fst (PreviousOutPoint i)) = 32)"
  shows "\<exists>vw' s'. fetchInputUtxos parse txs ht vw s = (Ok vw', s') \<and> same_ledger parse s s' \<and>
    agree ht (v_entries vw') (ledger parse s) txs \<and> v_bestHash vw' = v_bestHash vw"
proof -
  obtain needed vw1 where f: "findTxs txs ht 0 rest ([], vw) = (needed, vw1)" by fastforce
  note spec = findTxs_spec [OF assms(2) f]
  have "length (fst p) = 32" if "p \<in> set needed" for p
  proof -
    from spec have "set needed \<subseteq> (\<Union>tx \<in> set rest. PreviousOutPoint ` set (tx_ins tx))" by simp
    with that obtain tx i where "tx \<in> set txs" "i \<in> set (tx_ins tx)" "p = PreviousOutPoint i" using assms(3) by (auto dest!: subsetD)
    then show ?thesis using assms(5) by simp
  qed
  then have "\<forall>p \<in> set needed. length (fst p) = 32" by blast
  from fetchUtxosFromCache_spec [OF assms(1) this, of vw1] obtain vw' s' where
    g: "fetchUtxosFromCache parse needed vw1 s = (Ok vw', s')" "same_ledger parse s s'" "v_bestHash vw' = v_bestHash vw1"
    and e: "\<And>p. coinOf (v_entries vw' p) = (if p \<in> set needed then ledger parse s p else coinOf (v_entries vw1 p))" by blast
  have "agree ht (v_entries vw') (ledger parse s) txs"
    unfolding agree_def
  proof (intro ballI)
    fix tx p
    assume tx: "tx \<in> set txs" "p \<in> spentOutpoints tx"
    show "if fst p \<in> tx_hash ` set txs then coinOf (v_entries vw' p) = None \<or> (\<exists>r \<in> set txs. newOuts ht r p \<noteq> None)
      else coinOf (v_entries vw' p) = coinOf (ledger parse s p)"
    proof (cases "fst p \<in> tx_hash ` set txs")
      case True
      then have "ledger parse s p = None" using assms(5) by (auto simp: new_in_ledger) (metis prod.collapse)
      then show ?thesis using True spec e unfolding loads_def by auto
    next
      case False
      have "tx \<in> set rest" using tx assms(3,4) by (auto simp: spentOutpoints_def)
      then have "p \<in> set needed" using False spec tx(2) by (auto simp: spentOutpoints_def split: if_splits)
      then show ?thesis using False e by simp
    qed
  qed
  then show ?thesis using g f spec assms(3) by (auto simp: fetchInputUtxos_def findInputsToFetch_def)
qed

subsection \<open>Blocks\<close>

lemma firstInsane_None: "firstInsane txs = None \<longleftrightarrow> (\<forall>tx \<in> set txs. CheckTransactionSanity tx = None)"
  by (induction txs) (auto split: option.split)

lemma sane_block:
  assumes "checkBlockSanity dsha b powLimit adjusted noPoW = Some (Ok None)"
  shows "\<exists>cb rest. b_txs b = cb # rest \<and> IsCoinBase cb \<and> (\<forall>tx \<in> set rest. \<not> IsCoinBase tx)"
    "\<forall>tx \<in> set (b_txs b). CheckTransactionSanity tx = None" "distinct (map tx_hash (b_txs b))"
proof -
  let ?txs = "b_txs b"
  have "?txs \<noteq> [] \<and> IsCoinBase (?txs ! 0) \<and> \<not> (\<exists>tx \<in> set (tl ?txs). IsCoinBase tx) \<and> firstInsane ?txs = None \<and> distinct (map tx_hash ?txs)"
    using assms by (simp add: checkBlockSanity_def Let_def split: if_splits option.splits outcome.splits)
  then show "\<exists>cb rest. ?txs = cb # rest \<and> IsCoinBase cb \<and> (\<forall>tx \<in> set rest. \<not> IsCoinBase tx)"
    "\<forall>tx \<in> set ?txs. CheckTransactionSanity tx = None" "distinct (map tx_hash ?txs)"
    by (auto simp: firstInsane_None neq_Nil_conv)
qed

lemma script_fits: "out \<in> set outs \<Longrightarrow> length (PkScript out) \<le> sum_list (map TxOut_SerializeSize outs)"
  by (induction outs) (auto simp: TxOut_SerializeSize_def)

lemma sane_storable:
  assumes "CheckTransactionSanity tx = None" and "length (tx_hash tx) = 32" and "0 \<le> ht" and "ht < 2 ^ 31"
  shows "storable_tx ht tx"
  unfolding storable_tx_def
proof (intro conjI ballI)
  fix out
  assume out: "out \<in> set (tx_outs tx)"
  have "baseSize tx \<le> 1000000" using assms(1) by (auto simp: CheckTransactionSanity_def split: if_splits)
  then have "length (PkScript out) \<le> 1000000" using script_fits [OF out] by (simp add: baseSize_def)
  moreover have sp: "sum_list (map Value (tx_outs tx)) \<le> MaxSatoshi" "\<forall>out \<in> set (tx_outs tx). 0 \<le> Value out"
    using checkOutputs_spec [OF sane_facts(1) [OF assms(1)]] by (simp_all add: MaxSatoshi_def)
  have "Value out \<le> sum_list (map Value (tx_outs tx))"
    using sp(2) out by (intro member_le_sum_list) auto
  ultimately show "storable (Value out) (PkScript out) ht" using sp out assms(3,4) by (simp add: storable_def MaxSatoshi_def)
qed (fact assms(2))

lemma wrap64_le: "0 \<le> x \<Longrightarrow> wrap64 x \<le> x"
proof -
  assume "0 \<le> x"
  then have "(x + 2 ^ 63) mod 2 ^ 64 \<le> x + 2 ^ 63" by (intro zmod_le_nonneg_dividend) simp
  then show ?thesis by (simp add: wrap64_def)
qed

lemma subsidy_nonneg: "0 \<le> CalcBlockSubsidy ht p"
  by (simp add: CalcBlockSubsidy_def baseSubsidy_def Let_def drop_bit_eq_div pos_imp_zdiv_nonneg_iff)

lemma minted_sum: "\<forall>tx \<in> set txs. \<not> IsCoinBase tx \<Longrightarrow> sum_list (map minted txs) = 0"
  by (induction txs) (simp_all add: minted_def)

lemma checkValues_value:
  assumes "checkValues q ht txs (v, st) = Ok (Inr (v', st'))" and "txs = cb # rest" and "IsCoinBase cb" and "\<forall>tx \<in> set rest. \<not> IsCoinBase tx"
    and "finite (dom V)" and "agree ht v V txs" and "inOrder txs" and "distinct (map tx_hash txs)"
    and "\<forall>tx \<in> set txs. new_tx tx V \<and> CheckTransactionSanity tx = None"
  shows "canConnect (unspent V) ht txs \<and> valueOf (ledgerBlock txs ht (unspent V)) \<le> valueOf V + CalcBlockSubsidy ht q"
proof -
  from assms(1) obtain fees where loop: "connectLoop q ht txs (v, st) 0 = Ok (Inr ((v', st'), fees))"
    and paid: "\<not> fold (\<lambda>out t. wrap64 (t + Value out)) (tx_outs cb) 0 > wrap64 (CalcBlockSubsidy ht q + fees)"
    using assms(2) by (auto simp: checkValues_def Let_def split: outcome.splits sum.splits prod.splits if_splits)
  note val = connectLoop_value [OF assms(5-9) _ _ loop]
  have "fold (\<lambda>out t. wrap64 (t + Value out)) (tx_outs cb) 0 = minted cb"
    using checkOutputs_spec [OF sane_facts(1), of cb] assms(2,3,9) by (simp add: minted_def MaxSatoshi_def)
  moreover have "0 \<le> fees" using val by simp
  then have "wrap64 (CalcBlockSubsidy ht q + fees) \<le> CalcBlockSubsidy ht q + fees"
    using subsidy_nonneg [of ht q] by (intro wrap64_le) simp
  moreover have "sum_list (map minted txs) = minted cb" using assms(2,4) minted_sum by simp
  ultimately show ?thesis using val paid by simp
qed

lemma checkFetched_Ok:
  assumes "checkFetched env node b vw stxos = Ok (Inr (vw', stxos'))"
  shows "\<exists>v. checkValues (rulesParams (ce_rules env)) (height_of node) (b_txs b) (v_entries vw, stxos) = Ok (Inr (v, stxos')) \<and>
    vw' = SetBestHash (hash_of node) (vw\<lparr>v_entries := v\<rparr>)"
  using assms by (auto simp: checkFetched_def Let_def split: outcome.splits option.splits sum.splits)

lemma checkConnect_steps:
  assumes "checkConnectBlock parse env node b vw stxos s = (Ok (Inr (vw', stxos')), s')"
  obtains vw1 s1 vw2 v where "if \<not> isBIP0030Node node \<and> height_of node < BIP0034Height (ce_rules env)
        then checkBIP0030 parse (b_txs b) vw s = (Ok (Inr vw1), s1) else vw1 = vw \<and> s1 = s"
    and "fetchInputUtxos parse (b_txs b) (height_of node) vw1 s1 = (Ok vw2, s')"
    and "checkValues (rulesParams (ce_rules env)) (height_of node) (b_txs b) (v_entries vw2, stxos) = Ok (Inr (v, stxos'))"
    and "vw' = SetBestHash (hash_of node) (vw2\<lparr>v_entries := v\<rparr>)"
proof -
  let ?c = "\<not> isBIP0030Node node \<and> height_of node < BIP0034Height (ce_rules env)"
  from assms obtain vw1 s1 vw2 where "if ?c then checkBIP0030 parse (b_txs b) vw s = (Ok (Inr vw1), s1) else vw1 = vw \<and> s1 = s"
    "fetchInputUtxos parse (b_txs b) (height_of node) vw1 s1 = (Ok vw2, s')" "checkFetched env node b vw2 stxos = Ok (Inr (vw', stxos'))"
    by (auto simp: checkConnectBlock_def Let_def ok_bind act_defs split: if_splits sum.splits) (metis sum.exhaust)
  with checkFetched_Ok show thesis using that by meson
qed

text \<open>A block whose hashes have their length, that spends only what comes before, and under whose hashes neither the ledger nor
  the database has anything yet.  The checks do not ensure this: below the BIP34 height they only see to it that no unspent output is
  overwritten, not that the database holds no old entry of a transaction that is created again, and an entry that this check leaves in
  the view lets a transaction pass that spends an output of a later one; from that height on they do not look for the hashes at
  all, since the height in the coinbase makes a second transaction with the same hash practically impossible.\<close>

definition fits :: "(octets \<Rightarrow> octets option) \<Rightarrow> MsgTx list \<Rightarrow> utxoCache \<Rightarrow> bool" where
  "fits parse txs s \<longleftrightarrow> inOrder txs \<and> (\<forall>tx \<in> set txs. length (tx_hash tx) = 32 \<and>
     (\<forall>i \<in> set (tx_ins tx). length (fst (PreviousOutPoint i)) = 32) \<and>
     (\<forall>j. ledger parse s (tx_hash tx, j) = None \<and> dbCoins parse s (tx_hash tx, j) = None))"

lemma same_ledger_trans: "same_ledger parse s s1 \<Longrightarrow> same_ledger parse s1 s2 \<Longrightarrow> same_ledger parse s s2"
  by (simp add: same_ledger_def)

lemma checked_agrees:
  assumes "cache_inv parse s" and "fits parse (b_txs b) s" and "b_txs b = cb # rest" and "IsCoinBase cb"
    and "checkConnectBlock parse env node b (SetBestHash h NewUtxoViewpoint) stxos s = (Ok (Inr (vw', stxos')), s')"
  shows "\<exists>v v'. agree (height_of node) v (ledger parse s) (b_txs b) \<and> same_ledger parse s s' \<and>
    checkValues (rulesParams (ce_rules env)) (height_of node) (b_txs b) (v, stxos) = Ok (Inr (v', stxos'))"
proof -
  let ?ht = "height_of node" and ?txs = "b_txs b"
  from checkConnect_steps [OF assms(5)] obtain vw1 s1 vw2 v' where
    pre: "if \<not> isBIP0030Node node \<and> ?ht < BIP0034Height (ce_rules env)
      then checkBIP0030 parse ?txs (SetBestHash h NewUtxoViewpoint) s = (Ok (Inr vw1), s1) else vw1 = SetBestHash h NewUtxoViewpoint \<and> s1 = s"
    and fetch: "fetchInputUtxos parse ?txs ?ht vw1 s1 = (Ok vw2, s')"
    and val: "checkValues (rulesParams (ce_rules env)) ?ht ?txs (v_entries vw2, stxos) = Ok (Inr (v', stxos'))" by metis
  have new: "\<forall>tx \<in> set ?txs. length (tx_hash tx) = 32 \<and> new_tx tx (ledger parse s)"
    using assms(2) by (simp add: fits_def new_in_ledger)
  have one: "loads ?ht ?txs vw1 \<and> same_ledger parse s s1"
    using pre BIP0030_loads [OF assms(1) loads_new [of ?ht ?txs h] new] loads_new [of ?ht ?txs h] assms(1)
    by (auto simp: same_ledger_def split: if_splits)
  then have s1: "cache_inv parse s1" "ledger parse s1 = ledger parse s" by (simp_all add: same_ledger_def)
  have "\<forall>tx \<in> set ?txs. new_tx tx (ledger parse s1) \<and> (\<forall>i \<in> set (tx_ins tx). length (fst (PreviousOutPoint i)) = 32)"
    using new assms(2) s1(2) by (simp add: fits_def)
  from inputs_agree [OF s1(1) conjunct1 [OF one] assms(3,4) this] fetch
  have "same_ledger parse s1 s'" "agree ?ht (v_entries vw2) (ledger parse s) ?txs" by (auto simp: s1(2))
  with val one same_ledger_trans show ?thesis by blast
qed

lemma block_value:
  assumes "cache_inv parse s" and "key_laws parse" and "finite (dom (ledger parse s))" and "fits parse (b_txs b) s"
    and "0 \<le> height_of node" and "height_of node < 2 ^ 31"
    and "checkBlockSanity dsha b powLimit adjusted noPoW = Some (Ok None)"
    and "checkConnectBlock parse env node b (SetBestHash h NewUtxoViewpoint) st s = (Ok (Inr (vw, st')), s1)"
  shows "\<exists>s2. cache_connectTransactions parse (b_txs b) (height_of node) (Some stxos) s1 =
      (Ok (Some (stxos @ blockSpends (ledger parse s) (height_of node) (b_txs b))), s2) \<and>
    cache_inv parse s2 \<and> ledger parse s2 = ledgerBlock (b_txs b) (height_of node) (ledger parse s) \<and>
    valueOf (ledger parse s2) \<le> valueOf (ledger parse s) + CalcBlockSubsidy (height_of node) (rulesParams (ce_rules env))"
proof -
  let ?ht = "height_of node" and ?txs = "b_txs b"
  obtain cb rest where cb: "?txs = cb # rest" "IsCoinBase cb" "\<forall>tx \<in> set rest. \<not> IsCoinBase tx" using sane_block(1) [OF assms(7)] by blast
  obtain v v' where ag: "agree ?ht v (ledger parse s) ?txs" "same_ledger parse s s1"
    "checkValues (rulesParams (ce_rules env)) ?ht ?txs (v, st) = Ok (Inr (v', st'))"
    using checked_agrees [OF assms(1,4) cb(1,2) assms(8)] by blast
  have val: "canConnect (ledger parse s) ?ht ?txs \<and>
      valueOf (ledgerBlock ?txs ?ht (ledger parse s)) \<le> valueOf (ledger parse s) + CalcBlockSubsidy ?ht (rulesParams (ce_rules env))"
    using checkValues_value [OF ag(3) cb assms(3) ag(1)] assms(4) sane_block(2,3) [OF assms(7)]
    by (simp add: fits_def new_in_ledger)
  have "\<forall>tx \<in> set ?txs. storable_tx ?ht tx"
    using sane_storable sane_block(2) [OF assms(7)] assms(4-6) by (simp add: fits_def)
  moreover have "dbCoins parse s1 = dbCoins parse s" using ag(2) by (intro dbCoins_bucket) (simp add: same_ledger_def)
  ultimately show ?thesis
    using connectBlock_refines [of parse s1 ?txs ?ht "Some stxos"] val ag(2) assms(2,4)
    by (auto simp: same_ledger_def moves_def fits_def)
qed

lemma ledgerOuts_finite: "finite (dom U) \<Longrightarrow> finite (dom (ledgerOuts h cb ht i outs U))"
  by (induction outs arbitrary: i U) auto

lemma ledgerBlock_finite: "finite (dom U) \<Longrightarrow> finite (dom (ledgerBlock txs ht U))"
proof (induction txs arbitrary: U)
  case (Cons tx txs)
  have "finite (dom (ledgerTx tx ht U))" unfolding ledgerTx_def using Cons.prems by (intro ledgerOuts_finite) simp
  then show ?case using Cons.IH by simp
qed simp

subsection \<open>The chain from its genesis block\<close>

text \<open>The cache after the blocks below height \<open>n\<close>: it starts with the empty ledger, since the coinbase of the genesis block cannot be
  spent, is flushed in any mode at any time, and grows by blocks that pass the checks and are then connected.  The blocks are
  assumed to fit in the sense of \<open>fits\<close>, which is more than the checks ensure.\<close>

inductive grown :: "(octets \<Rightarrow> octets option) \<Rightarrow> chainRules \<Rightarrow> nat \<Rightarrow> utxoCache \<Rightarrow> bool" for parse rules where
  genesis: "cache_inv parse s \<Longrightarrow> ledger parse s = Map.empty \<Longrightarrow> grown parse rules 1 s"
| flushed: "grown parse rules n s \<Longrightarrow> cache_flush parse now mode h s = (r, s') \<Longrightarrow> grown parse rules n s'"
| extended: "grown parse rules n s \<Longrightarrow> checkBlockSanity dsha b powLimit adjusted noPoW = Some (Ok None) \<Longrightarrow>
    ce_rules env = rules \<Longrightarrow> height_of node = int n \<Longrightarrow> n < 2 ^ 31 \<Longrightarrow> fits parse (b_txs b) s \<Longrightarrow>
    checkConnectBlock parse env node b (SetBestHash h NewUtxoViewpoint) [] s = (Ok (Inr checked), s1) \<Longrightarrow>
    cache_connectTransactions parse (b_txs b) (height_of node) (Some []) s1 = (r, s2) \<Longrightarrow> grown parse rules (Suc n) s2"

lemma grown_value:
  assumes "grown parse rules n s" and "key_laws parse"
  shows "cache_inv parse s \<and> finite (dom (ledger parse s)) \<and>
    valueOf (ledger parse s) \<le> (\<Sum>h<n. CalcBlockSubsidy (int h) (rulesParams rules))"
  using assms
proof (induction rule: grown.induct)
  case (genesis s)
  then show ?case using subsidy_nonneg by (simp add: valueOf_def)
next
  case (flushed n s now mode h r s')
  then show ?case using flush_spec [of parse s now mode h] by auto
next
  case (extended n s dsha b powLimit adjusted noPoW env node h checked s1 r s2)
  then have inv: "cache_inv parse s" "finite (dom (ledger parse s))"
    "valueOf (ledger parse s) \<le> (\<Sum>h<n. CalcBlockSubsidy (int h) (rulesParams rules))" by simp_all
  obtain vw st where c: "checked = (vw, st)" by fastforce
  have n: "0 \<le> height_of node" "height_of node < 2 ^ 31" using extended.hyps(4,5) by simp_all
  have "cache_inv parse s2 \<and> ledger parse s2 = ledgerBlock (b_txs b) (height_of node) (ledger parse s) \<and>
      valueOf (ledger parse s2) \<le> valueOf (ledger parse s) + CalcBlockSubsidy (height_of node) (rulesParams rules)"
    using block_value [OF inv(1) extended.prems inv(2) extended.hyps(6) n extended.hyps(2) extended.hyps(7) [unfolded c], of "[]"]
      extended.hyps(3,8) by auto
  then show ?case using ledgerBlock_finite [OF inv(2)] inv(3) extended.hyps(4) by auto
qed

subsection \<open>Statements\<close>

text \<open>C6: A checked block creates no more than its subsidy.  Let a block pass the context-free checks and the checks that connect it, on a
  view loaded from the cache.  Then connecting its transactions to the cache succeeds, keeps the invariant of the cache, takes the ledger to the
  one with the spent outputs removed and the new ones added, records the spent outputs, and the value of the ledger grows by at most
  the subsidy of the height: the fees the coinbase takes are exactly what the other transactions leave.  It is assumed that no transaction
  spends an output of itself or of a later one and that neither ledger nor database has anything under the hashes of the
  block.\<close>

theorem connected_block_value:
  assumes "cache_inv parse s" and "key_laws parse" and "finite (dom (ledger parse s))" and "fits parse (b_txs b) s"
    and "0 \<le> height_of node" and "height_of node < 2 ^ 31"
    and "checkBlockSanity dsha b powLimit adjusted noPoW = Some (Ok None)"
    and "checkConnectBlock parse env node b (SetBestHash h NewUtxoViewpoint) st s = (Ok (Inr (vw, st')), s1)"
  shows "\<exists>s2. cache_connectTransactions parse (b_txs b) (height_of node) (Some stxos) s1 =
      (Ok (Some (stxos @ blockSpends (ledger parse s) (height_of node) (b_txs b))), s2) \<and>
    cache_inv parse s2 \<and> ledger parse s2 = ledgerBlock (b_txs b) (height_of node) (ledger parse s) \<and>
    valueOf (ledger parse s2) \<le> valueOf (ledger parse s) + CalcBlockSubsidy (height_of node) (rulesParams (ce_rules env))"
  using assms by (rule block_value)

text \<open>C2: At most 21 million coins circulate, as long as no transaction is created twice.  Let the chain of the main network grow from its
  genesis block by blocks that pass the checks and are connected to the cache, with flushes in any mode between them.  It is assumed of each block that
  no transaction spends an output of itself or of a later one, that its hashes have 32 bytes, and that neither the ledger nor the database
  has anything under the hashes of its transactions when it is connected.  Then the unspent outputs that cache and database
  hold are worth no more than the subsidies of the heights so far, and no more than 21 million coins.  The checks do not ensure the assumption
  below the BIP34 height: a coinbase that is created again passes them, and the old coin can then return from the
  database.  Heights are below two to the 31st, and public keys are parsed as the secp256k1 library documents.\<close>

theorem circulating_supply:
  assumes "grown parse rules n s" and "key_laws parse" and "rulesParams rules = MainNetParams"
  shows "valueOf (ledger parse s) \<le> (\<Sum>h<n. CalcBlockSubsidy (int h) MainNetParams) \<and> valueOf (ledger parse s) \<le> 21000000 * 100000000"
  using grown_value [OF assms(1,2)] subsidies_bounded [of n] assms(3) by simp

subsection \<open>Examples\<close>

text \<open>A block that spends the output of the example database, whose fee its coinbase takes.\<close>

definition payCoinbase :: MsgTx where
  "payCoinbase = \<lparr>tx_hash = 9 # replicate 31 0,
    tx_ins = [\<lparr>PreviousOutPoint = (zeroHash, 0xffffffff), SignatureScript = [1, 10], Witness = [], Sequence = 0\<rparr>],
    tx_outs = [\<lparr>Value = 5000010000, PkScript = [0x51]\<rparr>], tx_version = 1, tx_lockTime = 0, tx_witnessHash = []\<rparr>"

definition payTx :: MsgTx where
  "payTx = demoSpend\<lparr>tx_hash := 8 # replicate 31 0, tx_outs := [\<lparr>Value = 4999990000, PkScript = [0x51]\<rparr>]\<rparr>"

definition payBlock :: block where
  "payBlock = \<lparr>b_header = \<lparr>bh_Version = 4, bh_PrevBlock = zeroHash, bh_MerkleRoot = zeroHash, bh_Timestamp = 0, bh_Bits = 0x1d00ffff, bh_Nonce = 0\<rparr>,
    b_hash = coinHash, b_nanos = 0, b_txs = [payCoinbase, payTx]\<rparr>"

definition payNode :: blockNode where
  "payNode = BlockNode \<lparr>n_hash = coinHash, n_workSum = 1, n_height = 10, n_version = 4, n_bits = 0x1d00ffff, n_nonce = 0, n_timestamp = 0,
     n_merkleRoot = zeroHash\<rparr> NoNode NoNode"

definition payEnv :: connectEnv where
  "payEnv = \<lparr>ce_rules = \<lparr>rulesParams = MainNetParams, GenesisHash = zeroHash, BIP0034Height = 10, BIP0065Height = 388381, BIP0066Height = 363725\<rparr>,
     ce_segwit = Ok False, ce_csv = Ok False, ce_taproot = Ok False, ce_checkpoint = None, ce_checkBlockScripts = (\<lambda>_ _ _. True)\<rparr>"

lemma pay_txs:
  "IsCoinBase payCoinbase" "\<not> IsCoinBase payTx" "CheckTransactionSanity payCoinbase = None" "CheckTransactionSanity payTx = None"
  "CountSigOps payCoinbase = 0" "CountSigOps payTx = 0"
proof -
  show cb: "IsCoinBase payCoinbase" by (simp add: IsCoinBase_def payCoinbase_def)
  show pay: "\<not> IsCoinBase payTx" by (simp add: IsCoinBase_def payTx_def demoSpend_def)
  show "CheckTransactionSanity payCoinbase = None" using cb
    by (simp add: CheckTransactionSanity_def) (simp add: payCoinbase_def baseSize_def TxIn_SerializeSize_def TxOut_SerializeSize_def
        VarIntSerializeSize_def MaxSatoshi_def wrap64_id)
  show "CheckTransactionSanity payTx = None" using pay
    by (simp add: CheckTransactionSanity_def) (simp add: payTx_def demoSpend_def baseSize_def TxIn_SerializeSize_def TxOut_SerializeSize_def
        VarIntSerializeSize_def MaxSatoshi_def wrap64_id isNullOutpoint_def)
qed code_simp+

lemma pay_merkle: "CalcMerkleRoot (\<lambda>_. zeroHash) (b_txs payBlock) False = Some (Ok zeroHash)"
proof -
  have "merkleRoot (\<lambda>_. zeroHash) (leaves False (b_txs payBlock)) = zeroHash" by code_simp
  then show ?thesis by (simp add: CalcMerkleRoot_spec payBlock_def)
qed

lemma pay_header: "CheckBlockHeaderSanity (b_header payBlock) (b_hash payBlock) (b_nanos payBlock) (2 ^ 224 - 1) 0 True = None"
proof -
  have "CompactToBig 0x1d00ffff = 0xffff * 2 ^ 208" using mainnet_params(6) by (simp add: MainNetParams_def)
  then show ?thesis by (simp add: CheckBlockHeaderSanity_def checkProofOfWork_def Let_def payBlock_def second_def)
qed

lemma pay_sane: "checkBlockSanity (\<lambda>_. zeroHash) payBlock (2 ^ 224 - 1) 0 True = Some (Ok None)"
proof -
  have txs: "b_txs payBlock = [payCoinbase, payTx]" "bh_MerkleRoot (b_header payBlock) = zeroHash" by (simp_all add: payBlock_def)
  have "block_SerializeSizeStripped [payCoinbase, payTx] \<le> MaxBlockBaseSize" "tx_hash payCoinbase \<noteq> tx_hash payTx" "2 \<le> MaxBlockBaseSize"
    by (simp_all add: block_SerializeSizeStripped_def MaxBlockBaseSize_def payCoinbase_def payTx_def demoSpend_def baseSize_def
        TxIn_SerializeSize_def TxOut_SerializeSize_def VarIntSerializeSize_def)
  moreover have "\<not> sigOpsExceed [payCoinbase, payTx] 0"
    by (simp add: pay_txs Let_def wrap64_id MaxBlockSigOpsCost_def)
  ultimately show ?thesis
    using pay_merkle pay_header by (simp add: checkBlockSanity_def Let_def txs pay_txs)
qed

lemma pay_fetched: "\<exists>vw s'. fetchInputUtxos oneKey [payCoinbase, payTx] 10 (SetBestHash zeroHash NewUtxoViewpoint) demoCache = (Ok vw, s') \<and>
  v_entries vw = [(coinHash, 0) \<mapsto> core demoEntry]"
proof -
  have h: "tx_hash payCoinbase \<noteq> coinHash" "tx_hash payTx \<noteq> coinHash" by code_simp+
  have "utxoBucket demoCache = demoBucket" by (simp add: demoCache_def newUtxoCache_def)
  then have "dbFetchUtxoEntry oneKey (utxoBucket demoCache) (coinHash, 0) = Ok (Some (core demoEntry))"
    using dbCoins_fetch [of oneKey demoCache "(coinHash, 0)"] demo_db by (simp add: coinHash_nonzero)
  then have "\<exists>s'. fetchEntries oneKey [(coinHash, 0)] demoCache = (Ok [Some (core demoEntry)], s')"
    by (simp add: fetchEntries_def demo_cached Let_def)
  moreover have "findInputsToFetch [payCoinbase, payTx] 10 (SetBestHash zeroHash NewUtxoViewpoint) = ([(coinHash, 0)], SetBestHash zeroHash NewUtxoViewpoint)"
    using h by (simp add: findInputsToFetch_def txInFlight_def)
      (simp add: payTx_def demoSpend_def Let_def txInFlight_def v_known_def SetBestHash_def NewUtxoViewpoint_def)
  ultimately show ?thesis
    by (auto simp: fetchInputUtxos_def fetchUtxosFromCache_def bind_act_def act_defs v_set_def SetBestHash_def NewUtxoViewpoint_def)
qed

lemma pay_loop: "\<exists>vs. connectLoop MainNetParams 10 [payCoinbase, payTx] ([(coinHash, 0) \<mapsto> core demoEntry], []) 0 = Ok (Inr (vs, 10000))"
proof -
  let ?v = "AddTxOuts payCoinbase 10 [(coinHash, 0) \<mapsto> core demoEntry]"
  have v: "?v (coinHash, 0) = Some (core demoEntry)"
    by (simp add: AddTxOuts_new map_add_def newOuts_other payCoinbase_def coinHash_def)
  have "CheckTransactionInputs payCoinbase 10 [(coinHash, 0) \<mapsto> core demoEntry] MainNetParams = Inr 0"
    "connectTransaction payCoinbase 10 ([(coinHash, 0) \<mapsto> core demoEntry], []) = Ok (?v, [])"
    by (simp_all add: CheckTransactionInputs_def connectTransaction_def pay_txs)
  moreover have "CheckTransactionInputs payTx 10 ?v MainNetParams = Inr 10000"
    using v by (simp add: CheckTransactionInputs_def pay_txs)
      (simp add: payTx_def demoSpend_def demoEntry_def MainNetParams_def MaxSatoshi_def wrap64_id Let_def)
  moreover have "\<exists>vs. connectTransaction payTx 10 (?v, []) = Ok vs"
    using v by (simp add: connectTransaction_def pay_txs) (simp add: payTx_def demoSpend_def)
  ultimately show ?thesis by (auto simp: Let_def wrap64_id)
qed

lemma pay_checked: "\<exists>vw st s'. checkConnectBlock oneKey payEnv payNode payBlock (SetBestHash zeroHash NewUtxoViewpoint) [] demoCache =
  (Ok (Inr (vw, st)), s')"
proof -
  obtain vw s' where f: "fetchInputUtxos oneKey [payCoinbase, payTx] 10 (SetBestHash zeroHash NewUtxoViewpoint) demoCache = (Ok vw, s')"
    "v_entries vw = [(coinHash, 0) \<mapsto> core demoEntry]" using pay_fetched by blast
  obtain v st where "connectLoop MainNetParams 10 [payCoinbase, payTx] (v_entries vw, []) 0 = Ok (Inr ((v, st), 10000))"
    using pay_loop f(2) by auto
  moreover have "CalcBlockSubsidy 10 MainNetParams = 5000000000" using subsidy_nat [of 10] by simp
  ultimately have "checkValues MainNetParams 10 [payCoinbase, payTx] (v_entries vw, []) = Ok (Inr (v, st))"
    by (simp add: checkValues_def Let_def) (simp add: payCoinbase_def wrap64_id)
  moreover have "costLoop True [payCoinbase, payTx] (v_entries vw) False False 0 = None"
    by (simp add: GetSigOpCost_def pay_txs Let_def wrap64_id MaxBlockSigOpsCost_def)
  moreover have "checkLocksAndScripts payEnv payNode payBlock False False v = Ok None"
    by (simp add: checkLocksAndScripts_def payEnv_def payNode_def)
  ultimately have "checkFetched payEnv payNode payBlock vw [] = Ok (Inr (SetBestHash coinHash (vw\<lparr>v_entries := v\<rparr>), st))"
    by (simp add: checkFetched_def Let_def) (simp add: payNode_def payBlock_def payEnv_def Bip16Activation_def)
  with f(1) show ?thesis
    by (simp add: checkConnectBlock_def) (simp add: payEnv_def payNode_def payBlock_def coinHash_nonzero SetBestHash_def bind_act_def act_defs)
qed

lemma pay_fits: "fits oneKey (b_txs payBlock) demoCache"
proof -
  have "tx_hash payCoinbase \<noteq> coinHash" "tx_hash payTx \<noteq> coinHash" "length (tx_hash payCoinbase) = 32" "length (tx_hash payTx) = 32"
    by (simp_all add: payCoinbase_def payTx_def coinHash_def)
  then show ?thesis
    by (auto simp: fits_def payBlock_def spentOutpoints_def pay_txs demo_inv(2) demo_db(1) coinHash_nonzero)
      (auto simp: payCoinbase_def payTx_def demoSpend_def coinHash_nonzero)
qed

theorem connected_block_value_witness:
  "\<exists>s1 s2. cache_connectTransactions oneKey (b_txs payBlock) 10 (Some []) s1 = (Ok (Some [stxoOf demoEntry]), s2) \<and>
    valueOf (ledger oneKey s2) \<le> 10000000000"
proof -
  obtain vw st s1 where c: "checkConnectBlock oneKey payEnv payNode payBlock (SetBestHash zeroHash NewUtxoViewpoint) [] demoCache = (Ok (Inr (vw, st)), s1)"
    using pay_checked by blast
  have node: "height_of payNode = 10" "rulesParams (ce_rules payEnv) = MainNetParams" "CalcBlockSubsidy 10 MainNetParams = 5000000000"
    using subsidy_nat [of 10] by (simp_all add: payNode_def payEnv_def)
  have led: "finite (dom (ledger oneKey demoCache))" "valueOf (ledger oneKey demoCache) = 5000000000"
    by (simp_all add: demo_inv(2) valueOf_def worthAt_def worth_def demoEntry_def)
  obtain s2 where s2: "cache_connectTransactions oneKey (b_txs payBlock) 10 (Some []) s1 =
      (Ok (Some (blockSpends (ledger oneKey demoCache) 10 (b_txs payBlock))), s2)"
    "valueOf (ledger oneKey s2) \<le> valueOf (ledger oneKey demoCache) + CalcBlockSubsidy 10 MainNetParams"
    using connected_block_value [OF demo_inv(1) oneKey_laws led(1) pay_fits _ _ pay_sane c, of "[]"] by (auto simp: node)
  have "ledgerTx payCoinbase 10 (ledger oneKey demoCache) (coinHash, 0) = Some (core demoEntry)"
    by (simp add: ledgerTx_def spentOutpoints_def pay_txs demo_inv(2)) (simp add: payCoinbase_def coinHash_def)
  then have "blockSpends (ledger oneKey demoCache) 10 (b_txs payBlock) = [stxoOf demoEntry]"
    by (simp add: payBlock_def spentCoins_def pay_txs) (simp add: payTx_def demoSpend_def stxoOf_def)
  with s2 led(2) node(3) show ?thesis by auto
qed

text \<open>The first block after the genesis block.\<close>

definition firstCoinbase :: MsgTx where
  "firstCoinbase = payCoinbase\<lparr>tx_outs := [\<lparr>Value = 5000000000, PkScript = [0x51]\<rparr>]\<rparr>"

definition firstBlock :: block where
  "firstBlock = payBlock\<lparr>b_header := (b_header payBlock)\<lparr>bh_MerkleRoot := tx_hash firstCoinbase\<rparr>, b_txs := [firstCoinbase]\<rparr>"

definition firstNode :: blockNode where
  "firstNode = BlockNode ((blk payNode)\<lparr>n_height := 1\<rparr>) NoNode NoNode"

definition firstEnv :: connectEnv where
  "firstEnv = payEnv\<lparr>ce_rules := (ce_rules payEnv)\<lparr>BIP0034Height := 0\<rparr>\<rparr>"

definition firstCache :: utxoCache where
  "firstCache = newUtxoCache Map.empty None 1000000"

lemma first_tx: "IsCoinBase firstCoinbase" "CheckTransactionSanity firstCoinbase = None" "CountSigOps firstCoinbase = 0"
proof -
  show cb: "IsCoinBase firstCoinbase" by (simp add: IsCoinBase_def firstCoinbase_def payCoinbase_def)
  show "CheckTransactionSanity firstCoinbase = None" using cb
    by (simp add: CheckTransactionSanity_def) (simp add: firstCoinbase_def payCoinbase_def baseSize_def TxIn_SerializeSize_def TxOut_SerializeSize_def
        VarIntSerializeSize_def MaxSatoshi_def wrap64_id)
qed code_simp

lemma first_inv: "cache_inv oneKey firstCache" "ledger oneKey firstCache = Map.empty" "dbCoins oneKey firstCache = Map.empty"
proof -
  have c: "ms_get (cachedEntries firstCache) = Map.empty" "slice_ok (cachedEntries firstCache)" "utxoBucket firstCache = Map.empty"
    by (simp_all add: firstCache_def newUtxoCache_def ms_get_def fun_eq_iff slice_ok_def)
  show db: "dbCoins oneKey firstCache = Map.empty" by (simp add: dbCoins_def c(3) fetched_def dbFetchUtxoEntry_def fun_eq_iff)
  show "ledger oneKey firstCache = Map.empty" by (simp add: ledger_def c(1) db fun_eq_iff)
  show "cache_inv oneKey firstCache" by (simp add: cache_inv_def c db) (simp add: sound_def dbFetchUtxoEntry_def)
qed

lemma first_sane: "checkBlockSanity (\<lambda>_. zeroHash) firstBlock (2 ^ 224 - 1) 0 True = Some (Ok None)"
proof -
  have txs: "b_txs firstBlock = [firstCoinbase]" "bh_MerkleRoot (b_header firstBlock) = tx_hash firstCoinbase" by (simp_all add: firstBlock_def)
  have root: "CalcMerkleRoot (\<lambda>_. zeroHash) [firstCoinbase] False = Some (Ok (tx_hash firstCoinbase))"
    by (simp add: CalcMerkleRoot_spec merkleRoot.simps leaves_def enumerate_eq_zip leafHash_def)
  have "CheckBlockHeaderSanity (b_header firstBlock) (b_hash firstBlock) (b_nanos firstBlock) (2 ^ 224 - 1) 0 True = None"
    using pay_header by (simp add: CheckBlockHeaderSanity_def firstBlock_def split: option.splits if_splits)
  moreover have "block_SerializeSizeStripped [firstCoinbase] \<le> MaxBlockBaseSize" "1 \<le> MaxBlockBaseSize"
    by (simp_all add: block_SerializeSizeStripped_def MaxBlockBaseSize_def firstCoinbase_def payCoinbase_def baseSize_def
        TxIn_SerializeSize_def TxOut_SerializeSize_def VarIntSerializeSize_def)
  moreover have "\<not> sigOpsExceed [firstCoinbase] 0" by (simp add: first_tx Let_def wrap64_id MaxBlockSigOpsCost_def)
  ultimately show ?thesis using root by (simp add: checkBlockSanity_def Let_def txs first_tx)
qed

lemma first_checked: "\<exists>vw st. checkConnectBlock oneKey firstEnv firstNode firstBlock (SetBestHash zeroHash NewUtxoViewpoint) [] firstCache =
  (Ok (Inr (vw, st)), firstCache)"
proof -
  let ?vw = "SetBestHash zeroHash NewUtxoViewpoint"
  have ht: "height_of firstNode = 1" "b_txs firstBlock = [firstCoinbase]" "hash_of firstNode = coinHash"
    by (simp_all add: firstNode_def firstBlock_def payNode_def)
  have env: "rulesParams (ce_rules firstEnv) = MainNetParams" "ce_segwit firstEnv = Ok False" "n_timestamp (blk firstNode) = 0"
    by (simp_all add: firstEnv_def payEnv_def firstNode_def payNode_def)
  have "fetchInputUtxos oneKey [firstCoinbase] 1 ?vw firstCache = (Ok ?vw, firstCache)"
    by (simp add: fetchInputUtxos_def findInputsToFetch_def fetchUtxosFromCache_def act_defs)
  moreover have "CalcBlockSubsidy 1 MainNetParams = 5000000000" using subsidy_nat [of 1] by simp
  then have "\<exists>v st. checkValues MainNetParams 1 [firstCoinbase] (v_entries ?vw, []) = Ok (Inr (v, st))"
    by (simp add: checkValues_def CheckTransactionInputs_def connectTransaction_def first_tx wrap64_id Let_def)
      (simp add: firstCoinbase_def wrap64_id)
  moreover have "costLoop True [firstCoinbase] (v_entries ?vw) False False 0 = None"
    by (simp add: GetSigOpCost_def first_tx Let_def wrap64_id MaxBlockSigOpsCost_def)
  moreover have "checkLocksAndScripts firstEnv firstNode firstBlock False False v = Ok None" for v
    by (simp add: checkLocksAndScripts_def firstEnv_def payEnv_def firstNode_def payNode_def)
  ultimately have "\<exists>vw st. checkFetched firstEnv firstNode firstBlock ?vw [] = Ok (Inr (vw, st))"
    by (auto simp: checkFetched_def Let_def ht env Bip16Activation_def)
  moreover have "fetchInputUtxos oneKey [firstCoinbase] 1 ?vw firstCache = (Ok ?vw, firstCache)" by fact
  ultimately show ?thesis
    by (simp add: checkConnectBlock_def ht) (simp add: firstEnv_def payEnv_def firstBlock_def payBlock_def coinHash_nonzero SetBestHash_def bind_act_def act_defs)
qed

lemma first_fits: "fits oneKey (b_txs firstBlock) firstCache"
  by (simp add: fits_def firstBlock_def spentOutpoints_def first_tx first_inv) (simp add: firstCoinbase_def payCoinbase_def coinHash_nonzero)

theorem circulating_supply_witness:
  "\<exists>s. grown oneKey (ce_rules firstEnv) 2 s \<and> valueOf (ledger oneKey s) \<le> 10000000000"
proof -
  obtain vw st where c: "checkConnectBlock oneKey firstEnv firstNode firstBlock (SetBestHash zeroHash NewUtxoViewpoint) [] firstCache = (Ok (Inr (vw, st)), firstCache)"
    using first_checked by blast
  obtain r s where r: "cache_connectTransactions oneKey (b_txs firstBlock) (height_of firstNode) (Some []) firstCache = (r, s)" by fastforce
  have g: "grown oneKey (ce_rules firstEnv) (Suc 1) s"
    by (rule extended [OF genesis [OF first_inv(1,2)] first_sane refl _ _ first_fits c r]) (simp_all add: firstNode_def)
  have "valueOf (ledger oneKey s) \<le> (\<Sum>h<Suc 1. CalcBlockSubsidy (int h) MainNetParams)"
    using circulating_supply [OF g oneKey_laws] by (simp add: firstEnv_def payEnv_def)
  also have "\<dots> = 10000000000" using subsidy_nat [of 0] subsidy_nat [of 1] by simp
  finally show ?thesis using g by (auto simp: numeral_2_eq_2)
qed

end
