(* ===== verification/Coin_Undo.thy ===== *)
theory Coin_Undo
  imports Coin_Connect
begin

text \<open>
  Blocks taken back and put on again.  A view of unspent outputs lies over the ledger of cache and database: what it knows replaces what the
  ledger has.  The lemmas follow a view through the steps of a reorganisation (\<open>src/btcd/blockchain/utxoviewpoint.go\<close>,
  \<open>chainio.go\<close>, \<open>validate.go\<close>): loading the inputs of a block does not change what the view says, undoing a
  block with its journal leads from the ledger with the block to the one before it, connecting a
  block leads forward, and writing the view to the database after a flush makes the database say what the view says.
\<close>

declare split_paired_All [simp del] split_paired_Ex [simp del]

subsection \<open>What a view says of the ledger\<close>

text \<open>A view lies over the ledger of the cache: an output whose key the view has is as the view has it, any other as the
  ledger has it.\<close>

definition overlay :: "UtxoViewpoint \<Rightarrow> view \<Rightarrow> view" where
  "overlay vw L p = (if v_known vw p then coinOf (v_entries vw p) else L p)"

text \<open>The outpoints of the spendable outputs of the transactions.\<close>

definition made :: "MsgTx list \<Rightarrow> outpoint set" where
  "made txs = {p. \<exists>r \<in> set txs. newOuts 0 r p \<noteq> None}"

lemma addOuts_dom: "(w p = None \<longleftrightarrow> w' p = None) \<Longrightarrow> addOuts h cb ht i outs w p = None \<longleftrightarrow> addOuts h cb' ht' i outs w' p = None"
proof (induction outs arbitrary: i w w')
  case (Cons out outs)
  show ?case unfolding addOuts.simps by (rule Cons.IH) (use Cons.prems in \<open>simp add: addTxOut_def\<close>)
qed simp

lemma newOuts_dom: "newOuts ht tx p = None \<longleftrightarrow> newOuts 0 tx p = None"
  unfolding newOuts_def by (rule addOuts_dom) simp

lemma made_simps [simp]: "made [] = {}" "p \<in> made (tx # txs) \<longleftrightarrow> newOuts ht tx p \<noteq> None \<or> p \<in> made txs"
  "p \<in> made (txs @ txs') \<longleftrightarrow> p \<in> made txs \<or> p \<in> made txs'"
  using newOuts_dom [of ht tx p] by (auto simp: made_def)

lemma newOuts_finite: "finite (dom (newOuts ht tx))"
proof -
  have "finite (dom w) \<Longrightarrow> finite (dom (addOuts h cb ht i outs w))" for h cb i outs w
    by (induction outs arbitrary: i w) (simp_all add: addTxOut_def)
  then show ?thesis by (simp add: newOuts_def)
qed

lemma made_hash: "p \<in> made txs \<Longrightarrow> fst p \<in> tx_hash ` set txs"
  by (auto simp: made_def dest: newOuts_range)

subsection \<open>The ledger one transaction back\<close>

lemma ledgerTx_eq: "ledgerTx tx ht U p = (case newOuts ht tx p of Some e \<Rightarrow> Some (core e) | None \<Rightarrow> if p \<in> spentOutpoints tx then None else U p)"
proof -
  have "ledgerOuts h cb ht i outs W p = (case addOuts h cb ht i outs Map.empty p of Some e \<Rightarrow> Some (core e) | None \<Rightarrow> W p)" for h cb i outs W
  proof (induction outs arbitrary: i W)
    case (Cons out outs)
    show ?case
      unfolding addOuts.simps addOuts_add [of h cb ht "Suc i" outs "addTxOut (h, of_nat i) out cb ht Map.empty"] ledgerOuts.simps Cons.IH
      by (auto simp: addTxOut_def newCoin_def map_add_def split: option.split)
  qed simp
  then show ?thesis by (simp add: ledgerTx_def newOuts_def restrict_map_def split: option.split)
qed

lemma ledgerBlock_append: "ledgerBlock (txs @ txs') ht U = ledgerBlock txs' ht (ledgerBlock txs ht U)"
  by (induction txs arbitrary: U) simp_all

lemma canConnect_append: "canConnect U ht (txs @ txs') \<longleftrightarrow> canConnect U ht txs \<and> canConnect (ledgerBlock txs ht U) ht txs'"
  by (induction txs arbitrary: U) simp_all

lemma blockSpends_append: "blockSpends U ht (txs @ txs') = blockSpends U ht txs @ blockSpends (ledgerBlock txs ht U) ht txs'"
  by (induction txs arbitrary: U) simp_all

lemma ledgerBlock_other: "p \<notin> made txs \<Longrightarrow> U p = None \<Longrightarrow> ledgerBlock txs ht U p = None"
proof (induction txs arbitrary: U)
  case (Cons tx txs)
  then have "newOuts ht tx p = None" "p \<notin> made txs" by (simp_all add: made_simps(2) [of p tx txs ht])
  then show ?case using Cons by (simp add: ledgerTx_eq)
qed simp

lemma addOuts_Cons_None: "addOuts h cb ht i (out # outs) Map.empty p = None \<longleftrightarrow>
  (IsUnspendable (PkScript out) \<or> p \<noteq> (h, of_nat i)) \<and> addOuts h cb ht (Suc i) outs Map.empty p = None"
  unfolding addOuts.simps addOuts_add [of h cb ht "Suc i" outs "addTxOut (h, of_nat i) out cb ht Map.empty"]
  by (auto simp: addTxOut_def map_add_None)

lemma undoOuts_other: "addOuts h cb ht i outs Map.empty p = None \<Longrightarrow> undoOuts h cb' ht' i outs v p = v p"
proof (induction outs arbitrary: i v)
  case (Cons out outs)
  then show ?case unfolding addOuts_Cons_None by (auto simp: Let_def)
qed simp

lemma Spend_spent [simp]: "ent_spent (Spend e)" "ent_modified (Spend e) \<longleftrightarrow> \<not> ent_spent e \<or> ent_modified e" "ent_fresh (Spend e) = ent_fresh e"
  by (simp_all add: Spend_def)

text \<open>An entry that is spent is modified.\<close>

definition tidy :: "view \<Rightarrow> bool" where
  "tidy v \<longleftrightarrow> (\<forall>p e. v p = Some e \<longrightarrow> ent_spent e \<longrightarrow> ent_modified e)"

lemma tidy_upd: "tidy v \<Longrightarrow> ent_spent e \<longrightarrow> ent_modified e \<Longrightarrow> tidy (v(p \<mapsto> e))"
  by (simp add: tidy_def)

lemma undoOuts_tidy: "tidy v \<Longrightarrow> tidy (undoOuts h cb ht i outs v)"
proof (induction outs arbitrary: i v)
  case (Cons out outs)
  have "tidy (v((h, of_nat i) \<mapsto> Spend (case v (h, of_nat i) of Some e \<Rightarrow> e
      | None \<Rightarrow> \<lparr>amount = Value out, pkScript = PkScript out, blockHeight = ht, ent_coinbase = cb, ent_spent = False,
          ent_modified = False, ent_fresh = False\<rparr>)))"
    using Cons.prems by (intro tidy_upd) (auto simp: tidy_def split: option.split)
  from Cons.IH [OF this] Cons.IH [OF Cons.prems] show ?case by (simp add: Let_def del: fun_upd_apply)
qed simp

lemma undoOuts_made:
  "addOuts h cb ht i outs Map.empty p \<noteq> None \<or> (\<exists>e. v p = Some e \<and> ent_spent e) \<Longrightarrow> \<exists>e. undoOuts h cb' ht' i outs v p = Some e \<and> ent_spent e"
proof (induction outs arbitrary: i v)
  case (Cons out outs)
  show ?case
  proof (cases "IsUnspendable (PkScript out)")
    case True
    then show ?thesis using Cons.prems Cons.IH [of "Suc i" v] by (auto simp: addTxOut_def)
  next
    case False
    let ?e = "case v (h, of_nat i) of Some e \<Rightarrow> e
      | None \<Rightarrow> \<lparr>amount = Value out, pkScript = PkScript out, blockHeight = ht', ent_coinbase = cb', ent_spent = False,
          ent_modified = False, ent_fresh = False\<rparr>"
    have "addOuts h cb ht (Suc i) outs Map.empty p \<noteq> None \<or> (\<exists>e. (v((h, of_nat i) \<mapsto> Spend ?e)) p = Some e \<and> ent_spent e)"
      using Cons.prems False addOuts_Cons_None [of h cb ht i out outs p] by auto
    then have "\<exists>e. undoOuts h cb' ht' (Suc i) outs (v((h, of_nat i) \<mapsto> Spend ?e)) p = Some e \<and> ent_spent e" by (rule Cons.IH)
    with False show ?thesis by (simp add: Let_def)
  qed
qed simp

definition restored :: "SpentTxOut \<Rightarrow> UtxoEntry" where
  "restored st = \<lparr>amount = st_Amount st, pkScript = st_PkScript st, blockHeight = st_Height st, ent_coinbase = st_IsCoinBase st,
     ent_spent = False, ent_modified = True, ent_fresh = False\<rparr>"

lemma undoIns_eq:
  "length is = length sts \<Longrightarrow> \<forall>st \<in> set sts. st_Height st \<noteq> 0 \<Longrightarrow>
   undoIns f h is (sts @ rest) v = Ok (v ++ map_of (rev (zip (map PreviousOutPoint is) (map restored sts))), rest)"
proof (induction "is" sts arbitrary: v rule: list_induct2')
  case (4 i "is" st sts)
  have "undoIns f h (i # is) ((st # sts) @ rest) v = undoIns f h is (sts @ rest) (v(PreviousOutPoint i \<mapsto> restored st))"
    using 4 by (simp add: Let_def restored_def fun_upd_twist)
  also have "\<dots> = Ok (v(PreviousOutPoint i \<mapsto> restored st) ++ map_of (rev (zip (map PreviousOutPoint is) (map restored sts))), rest)"
    using 4 by (intro "4.IH") simp_all
  finally show ?case by (simp add: map_of_append map_add_assoc [symmetric])
qed simp_all

lemma map_of_keyed: "map_of (map (\<lambda>x. (f x, g (f x))) xs) p = (if p \<in> f ` set xs then Some (g p) else None)"
  by (induction xs) auto

text \<open>The outputs of a ledger: unspent, with no flag of a cache, and not of the genesis block.\<close>

definition coins_ok :: "view \<Rightarrow> bool" where
  "coins_ok U \<longleftrightarrow> (\<forall>p e. U p = Some e \<longrightarrow> \<not> ent_spent e \<and> \<not> ent_modified e \<and> \<not> ent_fresh e \<and> blockHeight e \<noteq> 0)"

lemma coinOf_restored: "\<not> ent_spent e \<Longrightarrow> \<not> ent_modified e \<Longrightarrow> \<not> ent_fresh e \<Longrightarrow> coinOf (Some (restored (stxoOf e))) = Some e"
  by (cases e) (simp add: restored_def stxoOf_def)

lemma undo_step:
  assumes "coins_ok U" and "canSpend U tx" and "\<forall>p \<in> made [tx]. U p = None" and "k = 0 \<longleftrightarrow> IsCoinBase tx" and "tidy v"
    and "\<forall>p. p \<notin> made txs \<longrightarrow> p \<notin> made [tx] \<longrightarrow> overlay (vw\<lparr>v_entries := v\<rparr>) L p = ledgerTx tx ht U p"
  obtains v' where "undoTxs f ht ((k, tx) # rest) (rev (spentCoins U tx) @ sts) v = undoTxs f ht rest sts v'" and "tidy v'"
    and "\<forall>p. p \<notin> made txs \<longrightarrow> overlay (vw\<lparr>v_entries := v'\<rparr>) L p = U p"
proof -
  define v1 where "v1 = undoOuts (tx_hash tx) (k = 0) ht 0 (tx_outs tx) v"
  define v2 where "v2 = v1 ++ (\<lambda>p. if p \<in> spentOutpoints tx then Some (restored (stxoOf (the (U p)))) else None)"
  have new: "newOuts ht tx p \<noteq> None \<longleftrightarrow> p \<in> made [tx]" for p by (simp add: made_simps(2) [of p tx "[]" ht])
  have v1: "v1 p = v p" if "p \<notin> made [tx]" for p
    unfolding v1_def using that new [of p] unfolding newOuts_def by (intro undoOuts_other) auto
  have v1_made: "coinOf (v1 p) = None \<and> v1 p \<noteq> None" if "p \<in> made [tx]" for p
    using undoOuts_made [of "tx_hash tx" "IsCoinBase tx" ht 0 "tx_outs tx" p v "k = 0" ht] that new [of p]
    unfolding v1_def newOuts_def by auto
  have run: "undoTxs f ht ((k, tx) # rest) (rev (spentCoins U tx) @ sts) v = undoTxs f ht rest sts v2"
  proof (cases "IsCoinBase tx")
    case True
    then show ?thesis using assms(4) by (simp add: v2_def v1_def spentOutpoints_def spentCoins_def Let_def)
  next
    case False
    let ?c = "\<lambda>i. stxoOf (the (U (PreviousOutPoint i)))"
    have in_dom: "PreviousOutPoint i \<in> dom U" if "i \<in> set (tx_ins tx)" for i using assms(2) that False by (simp add: canSpend_def)
    have "st_Height (?c i) \<noteq> 0" if "i \<in> set (tx_ins tx)" for i
      using in_dom [OF that] assms(1) by (auto simp: coins_ok_def stxoOf_def)
    then have "undoIns f (tx_hash tx) (rev (tx_ins tx)) (map ?c (rev (tx_ins tx)) @ sts) v1 =
        Ok (v1 ++ map_of (rev (zip (map PreviousOutPoint (rev (tx_ins tx))) (map restored (map ?c (rev (tx_ins tx)))))), sts)"
      by (intro undoIns_eq) auto
    also have "map_of (rev (zip (map PreviousOutPoint (rev (tx_ins tx))) (map restored (map ?c (rev (tx_ins tx)))))) =
        map_of (map (\<lambda>i. (PreviousOutPoint i, restored (stxoOf (the (U (PreviousOutPoint i)))))) (tx_ins tx))"
    proof -
      have z: "zip (map PreviousOutPoint xs) (map restored (map ?c xs)) = map (\<lambda>i. (PreviousOutPoint i, restored (?c i))) xs" for xs
        by (induction xs) simp_all
      show ?thesis unfolding z by (simp add: rev_map)
    qed
    also have "\<dots> = (\<lambda>p. if p \<in> spentOutpoints tx then Some (restored (stxoOf (the (U p)))) else None)"
    proof
      fix p
      show "map_of (map (\<lambda>i. (PreviousOutPoint i, restored (?c i))) (tx_ins tx)) p =
          (if p \<in> spentOutpoints tx then Some (restored (stxoOf (the (U p)))) else None)"
        using map_of_keyed [of PreviousOutPoint "\<lambda>p. restored (stxoOf (the (U p)))" "tx_ins tx" p] False by (simp add: spentOutpoints_def)
    qed
    finally have ins: "undoIns f (tx_hash tx) (rev (tx_ins tx)) (map ?c (rev (tx_ins tx)) @ sts) v1 = Ok (v2, sts)" by (simp only: v2_def)
    moreover have "undoOuts (tx_hash tx) False ht 0 (tx_outs tx) v = v1" using False assms(4) by (simp add: v1_def)
    ultimately show ?thesis using False assms(4) by (simp add: Let_def spentCoins_def rev_map)
  qed
  have "tidy v1" unfolding v1_def by (rule undoOuts_tidy [OF assms(5)])
  then have "tidy v2" by (auto simp: v2_def tidy_def map_add_def restored_def split: if_splits)
  moreover have "overlay (vw\<lparr>v_entries := v2\<rparr>) L p = U p" if p: "p \<notin> made txs" for p
  proof (cases "p \<in> spentOutpoints tx")
    case True
    then obtain c where c: "U p = Some c" using assms(2) by (auto simp: canSpend_def spentOutpoints_def split: if_splits)
    then have "coinOf (Some (restored (stxoOf c))) = Some c" using assms(1) by (intro coinOf_restored) (auto simp: coins_ok_def)
    then show ?thesis using True c by (simp add: overlay_def v_known_def v2_def map_add_def)
  next
    case False
    then have v2: "v2 p = v1 p" by (simp add: v2_def map_add_def)
    show ?thesis
    proof (cases "p \<in> made [tx]")
      case True
      then show ?thesis using v1_made [OF True] v2 assms(3) by (simp add: overlay_def v_known_def)
    next
      case new': False
      then have "newOuts ht tx p = None" using new [of p] by blast
      then have "overlay (vw\<lparr>v_entries := v\<rparr>) L p = U p" using assms(6) p new' False by (simp add: ledgerTx_eq)
      then show ?thesis using v1 [OF new'] v2 by (auto simp: overlay_def v_known_def split: if_splits)
    qed
  qed
  ultimately show thesis using that run by blast
qed

lemma addOuts_height: "addOuts h cb ht i outs v p = Some e \<Longrightarrow> v p = Some e \<or> blockHeight e = ht"
  by (induction outs arbitrary: i v) (fastforce simp: addTxOut_def split: if_splits)+

lemma ledgerBlock_coins: "coins_ok U \<Longrightarrow> ht \<noteq> 0 \<Longrightarrow> coins_ok (ledgerBlock txs ht U)"
proof (induction txs arbitrary: U)
  case (Cons tx txs)
  have "coins_ok (ledgerTx tx ht U)"
    unfolding coins_ok_def
  proof (intro allI impI)
    fix p e
    assume e: "ledgerTx tx ht U p = Some e"
    have new: "blockHeight c = ht \<and> \<not> ent_spent c" if "newOuts ht tx p = Some c" for c
      using that newOuts_range [OF that] addOuts_height [of "tx_hash tx" "IsCoinBase tx" ht 0 "tx_outs tx" Map.empty p c] by (simp add: newOuts_def)
    show "\<not> ent_spent e \<and> \<not> ent_modified e \<and> \<not> ent_fresh e \<and> blockHeight e \<noteq> 0"
      using e new Cons.prems by (auto simp: ledgerTx_eq coins_ok_def split: option.splits if_splits)
  qed
  then show ?case using Cons by simp
qed simp

lemma undo_block:
  assumes "coins_ok U" and "ht \<noteq> 0" and "canConnect U ht txs"
    and "\<forall>p \<in> made txs. U p = None" and "distinct (map tx_hash txs)"
    and "\<forall>k < length txs. k = 0 \<longleftrightarrow> IsCoinBase (txs ! k)" and "tidy v"
    and "\<forall>p. p \<notin> made txs \<longrightarrow> overlay (vw\<lparr>v_entries := v\<rparr>) L p = ledgerBlock txs ht U p"
  shows "\<exists>v'. undoTxs f ht (rev (enumerate 0 txs)) (rev (blockSpends U ht txs)) v = Ok (v', []) \<and> tidy v' \<and> overlay (vw\<lparr>v_entries := v'\<rparr>) L = U"
  using assms
proof (induction txs arbitrary: v rule: rev_induct)
  case Nil
  then show ?case by (intro exI [of _ v]) (simp add: fun_eq_iff)
next
  case (snoc tx txs)
  let ?U = "ledgerBlock txs ht U"
  have out: "p \<notin> made txs" if "p \<in> made [tx]" for p
    using that made_hash [of p txs] made_hash [of p "[tx]"] snoc.prems(5) by auto
  have "?U p = None" if "p \<in> made [tx]" for p
    using out [OF that] that snoc.prems(4) by (intro ledgerBlock_other) auto
  moreover have "coins_ok ?U" using snoc.prems(1,2) by (rule ledgerBlock_coins)
  moreover have "canSpend ?U tx" using snoc.prems(3) by (simp add: canConnect_append)
  moreover have "length txs = 0 \<longleftrightarrow> IsCoinBase tx" using spec [OF snoc.prems(6), of "length txs"] by simp
  moreover have "\<forall>p. p \<notin> made txs \<longrightarrow> p \<notin> made [tx] \<longrightarrow> overlay (vw\<lparr>v_entries := v\<rparr>) L p = ledgerTx tx ht ?U p"
    using snoc.prems(8) by (simp add: ledgerBlock_append del: made_simps(2))
  ultimately obtain v1 where v1: "undoTxs f ht ((length txs, tx) # rev (enumerate 0 txs)) (rev (spentCoins ?U tx) @ rev (blockSpends U ht txs)) v =
      undoTxs f ht (rev (enumerate 0 txs)) (rev (blockSpends U ht txs)) v1" "tidy v1"
    "\<forall>p. p \<notin> made txs \<longrightarrow> overlay (vw\<lparr>v_entries := v1\<rparr>) L p = ?U p"
    using undo_step [of ?U tx "length txs" v txs vw L ht f "rev (enumerate 0 txs)" "rev (blockSpends U ht txs)"] snoc.prems(7) by blast
  have "\<forall>k < length txs. k = 0 \<longleftrightarrow> IsCoinBase (txs ! k)"
  proof (intro allI impI)
    fix k assume "k < length txs"
    then show "k = 0 \<longleftrightarrow> IsCoinBase (txs ! k)" using spec [OF snoc.prems(6), of k] by (simp add: nth_append)
  qed
  with snoc.prems have "\<exists>v'. undoTxs f ht (rev (enumerate 0 txs)) (rev (blockSpends U ht txs)) v1 = Ok (v', []) \<and> tidy v' \<and> overlay (vw\<lparr>v_entries := v'\<rparr>) L = U"
    by (intro snoc.IH [OF _ _ _ _ _ _ v1(2,3)]) (simp_all add: canConnect_append)
  with v1(1) show ?case by (simp add: enumerate_append_eq blockSpends_append)
qed

subsection \<open>Loading the inputs of a block\<close>

text \<open>What every entry of a view satisfies, over the ledger \<open>L\<close>: it can be stored, and if it is not modified the ledger has it.\<close>

definition fine :: "view \<Rightarrow> outpoint \<Rightarrow> UtxoEntry \<Rightarrow> bool" where
  "fine L p e \<longleftrightarrow> length (fst p) = 32 \<and> storable (amount e) (pkScript e) (blockHeight e) \<and> (ent_spent e \<longrightarrow> ent_modified e) \<and>
    (\<not> ent_modified e \<longrightarrow> L p = coinOf (Some e))"

definition view_ok :: "view \<Rightarrow> UtxoViewpoint \<Rightarrow> bool" where
  "view_ok L vw \<longleftrightarrow> finite (dom (v_entries vw)) \<and> (\<forall>p e. v_entries vw p = Some e \<longrightarrow> fine L p e) \<and> (\<forall>p. v_entries vw p = None \<longrightarrow> p \<in> v_nil vw \<longrightarrow> L p = None)"

lemma view_ok_tidy: "view_ok L vw \<Longrightarrow> tidy (v_entries vw)"
  by (auto simp: view_ok_def tidy_def fine_def)

lemma addOuts_fine:
  assumes "storable_tx ht tx" and "newOuts ht tx p = Some e"
  shows "fine L p e"
proof -
  have "addOuts h cb ht i outs v p = Some e \<Longrightarrow> v p = Some e \<or> (\<exists>out \<in> set outs. amount e = Value out \<and> pkScript e = PkScript out \<and> blockHeight e = ht \<and> ent_modified e)"
    for h cb i outs v by (induction outs arbitrary: i v) (fastforce simp: addTxOut_def split: if_splits)+
  from this [of "tx_hash tx" "IsCoinBase tx" 0 "tx_outs tx" Map.empty] assms newOuts_range [OF assms(2)]
  show ?thesis by (auto simp: fine_def newOuts_def storable_tx_def)
qed

lemma view_ok_add:
  assumes "view_ok L vw" and "storable_tx ht tx"
  shows "view_ok L (vw\<lparr>v_entries := AddTxOuts tx ht (v_entries vw)\<rparr>)"
  using assms(1) addOuts_fine [OF assms(2)] newOuts_finite [of ht tx] by (auto simp: view_ok_def AddTxOuts_new map_add_Some_iff)

text \<open>What loading keeps of a view: the outputs that are not of the block, and that all entries are right.\<close>

definition loaded :: "view \<Rightarrow> MsgTx list \<Rightarrow> UtxoViewpoint \<Rightarrow> UtxoViewpoint \<Rightarrow> bool" where
  "loaded L txs vw vw' \<longleftrightarrow> view_ok L vw' \<and> (\<forall>p. p \<notin> made txs \<longrightarrow> overlay vw' L p = overlay vw L p) \<and>
    (\<forall>p. v_known vw p \<longrightarrow> v_known vw' p) \<and> v_bestHash vw' = v_bestHash vw"

lemma loaded_trans: "loaded L txs vw vw1 \<Longrightarrow> loaded L txs vw1 vw2 \<Longrightarrow> loaded L txs vw vw2"
  by (simp add: loaded_def)

lemma loaded_add:
  assumes "view_ok L vw" and "tx \<in> set txs" and "storable_tx ht tx"
  shows "loaded L txs vw (vw\<lparr>v_entries := AddTxOuts tx ht (v_entries vw)\<rparr>)"
proof -
  have "newOuts ht tx p = None" if "p \<notin> made txs" for p using that assms(2) newOuts_dom [of ht tx p] by (auto simp: made_def)
  then show ?thesis
    using view_ok_add [OF assms(1,3)] by (auto simp: loaded_def overlay_def v_known_def AddTxOuts_new map_add_def split: option.splits)
qed

lemma findIns_loaded:
  assumes "view_ok L vw" and "\<forall>tx \<in> set txs. storable_tx ht tx" and "findIns txs ht i is (needed, vw) = (needed', vw')"
    and "\<forall>p \<in> set needed. p \<in> made txs \<or> \<not> v_known vw p"
  shows "loaded L txs vw vw' \<and> (\<forall>p \<in> set needed'. p \<in> made txs \<or> \<not> v_known vw' p) \<and> set needed \<subseteq> set needed' \<and>
    set needed' \<subseteq> set needed \<union> PreviousOutPoint ` set is \<and>
    (\<forall>x \<in> set is. fst (PreviousOutPoint x) \<notin> tx_hash ` set txs \<longrightarrow> PreviousOutPoint x \<in> set needed' \<or> v_known vw' (PreviousOutPoint x))"
  using assms
proof (induction "is" arbitrary: needed vw)
  case Nil
  then show ?case by (simp add: loaded_def)
next
  case (Cons x "is")
  let ?p = "PreviousOutPoint x"
  let ?vw = "\<lambda>j. vw\<lparr>v_entries := AddTxOuts (txs ! j) ht (v_entries vw)\<rparr>"
  show ?case
  proof (cases "\<exists>j. txInFlight txs (fst ?p) = Some j \<and> i \<ge> j")
    case True
    then obtain j where j: "txInFlight txs (fst ?p) = Some j" "i \<ge> j" by blast
    have m: "txs ! j \<in> set txs" "tx_hash (txs ! j) = fst ?p" using txInFlight_Some [OF j(1)] by simp_all
    have l: "loaded L txs vw (?vw j)" using Cons.prems(1,2) m(1) by (intro loaded_add) simp_all
    have "v_known (?vw j) p \<longleftrightarrow> v_known vw p" if "p \<notin> made txs" for p
      using that m(1) newOuts_dom [of ht "txs ! j" p] by (auto simp: made_def v_known_def AddTxOuts_new)
    then have n: "\<forall>p \<in> set needed. p \<in> made txs \<or> \<not> v_known (?vw j) p" using Cons.prems(4) by blast
    have step: "findIns txs ht i is (needed, ?vw j) = (needed', vw')" using Cons.prems(3) j by (simp add: Let_def)
    have "fst ?p \<in> tx_hash ` set txs" using m by (metis imageI)
    with Cons.IH [OF _ Cons.prems(2) step n] l loaded_trans [OF l] show ?thesis by (auto simp: loaded_def)
  next
    case False
    let ?n = "if v_known vw ?p then needed else needed @ [?p]"
    have step: "findIns txs ht i is (?n, vw) = (needed', vw')" using Cons.prems(3) False by (auto simp: Let_def split: option.splits)
    have n: "\<forall>p \<in> set ?n. p \<in> made txs \<or> \<not> v_known vw p" using Cons.prems(4) by auto
    note IH = Cons.IH [OF Cons.prems(1,2) step n]
    have "?p \<in> set needed' \<or> v_known vw' ?p" using IH by (cases "v_known vw ?p") (auto simp: loaded_def)
    with IH show ?thesis by (auto split: if_splits)
  qed
qed

lemma findTxs_loaded:
  assumes "view_ok L vw" and "\<forall>tx \<in> set txs. storable_tx ht tx" and "findTxs txs ht i rest (needed, vw) = (needed', vw')"
    and "\<forall>p \<in> set needed. p \<in> made txs \<or> \<not> v_known vw p"
  shows "loaded L txs vw vw' \<and> (\<forall>p \<in> set needed'. p \<in> made txs \<or> \<not> v_known vw' p) \<and> set needed \<subseteq> set needed' \<and>
    set needed' \<subseteq> set needed \<union> (\<Union>tx \<in> set rest. PreviousOutPoint ` set (tx_ins tx)) \<and>
    (\<forall>tx \<in> set rest. \<forall>x \<in> set (tx_ins tx). fst (PreviousOutPoint x) \<notin> tx_hash ` set txs \<longrightarrow>
      PreviousOutPoint x \<in> set needed' \<or> v_known vw' (PreviousOutPoint x))"
  using assms
proof (induction rest arbitrary: i needed vw)
  case Nil
  then show ?case by (simp add: loaded_def)
next
  case (Cons tx rest)
  obtain n1 vw1 where f: "findIns txs ht i (tx_ins tx) (needed, vw) = (n1, vw1)" by fastforce
  have step: "findTxs txs ht (Suc i) rest (n1, vw1) = (needed', vw')" using Cons.prems(3) f by simp
  note one = findIns_loaded [OF Cons.prems(1,2) f Cons.prems(4)]
  have IH: "loaded L txs vw1 vw' \<and> (\<forall>p \<in> set needed'. p \<in> made txs \<or> \<not> v_known vw' p) \<and> set n1 \<subseteq> set needed' \<and>
    set needed' \<subseteq> set n1 \<union> (\<Union>tx \<in> set rest. PreviousOutPoint ` set (tx_ins tx)) \<and>
    (\<forall>tx \<in> set rest. \<forall>x \<in> set (tx_ins tx). fst (PreviousOutPoint x) \<notin> tx_hash ` set txs \<longrightarrow>
      PreviousOutPoint x \<in> set needed' \<or> v_known vw' (PreviousOutPoint x))"
    using one by (intro Cons.IH [OF _ Cons.prems(2) step]) (simp_all add: loaded_def)
  have mono: "v_known vw1 p \<longrightarrow> v_known vw' p" for p using IH by (simp add: loaded_def)
  have first: "\<forall>x \<in> set (tx_ins tx). fst (PreviousOutPoint x) \<notin> tx_hash ` set txs \<longrightarrow>
      PreviousOutPoint x \<in> set needed' \<or> v_known vw' (PreviousOutPoint x)" using one IH mono by blast
  have "loaded L txs vw vw'" using one IH loaded_trans by blast
  moreover have "set needed' \<subseteq> set needed \<union> (\<Union>tx \<in> set (tx # rest). PreviousOutPoint ` set (tx_ins tx))" using one IH by auto
  ultimately show ?case using one IH first by (simp only: list.simps) blast
qed

lemma fold_v_set_map:
  "v_entries (fold v_set (zip ps (map X ps)) vw) p = (if p \<in> set ps then X p else v_entries vw p)"
  "p \<in> v_nil (fold v_set (zip ps (map X ps)) vw) \<longleftrightarrow> (if p \<in> set ps then X p = None else p \<in> v_nil vw)"
  "v_bestHash (fold v_set (zip ps (map X ps)) vw) = v_bestHash vw"
  by (induction ps arbitrary: vw) (auto simp: v_set_def)

lemma fetch_loaded:
  assumes "cache_inv parse s" and "\<forall>p \<in> set ops. length (fst p) = 32" and "view_ok (ledger parse s) vw"
    and "\<forall>p \<in> set ops. p \<in> made txs \<or> \<not> v_known vw p"
  shows "\<exists>vw' s'. fetchUtxosFromCache parse ops vw s = (Ok vw', s') \<and> same_ledger parse s s' \<and> loaded (ledger parse s) txs vw vw' \<and>
    (\<forall>p \<in> set ops. v_known vw' p)"
proof (cases "ops = []")
  case True
  then show ?thesis using assms(1,3) by (simp add: fetchUtxosFromCache_def act_defs same_ledger_def loaded_def)
next
  case False
  obtain xs s' where f: "fetchEntries parse ops s = (Ok xs, s')" "same_ledger parse s s'" "map coinOf xs = map (ledger parse s) ops"
    "map (ms_get (cachedEntries s')) ops = map Some xs"
    using fetchEntries_spec [OF assms(1,2)] by blast
  define X where "X p = the (ms_get (cachedEntries s') p)" for p
  have xs: "xs = map X ops"
  proof -
    have "map X ops = map the (map (ms_get (cachedEntries s')) ops)" by (simp add: X_def)
    then show ?thesis by (simp add: f(4) comp_def)
  qed
  have hit: "ms_get (cachedEntries s') p = Some (X p)" "coinOf (X p) = ledger parse s p" if "p \<in> set ops" for p
    using f(3,4) that unfolding xs by (simp_all add: X_def)
  define vw' where "vw' = fold v_set (zip ops xs) vw"
  have e: "v_entries vw' p = (if p \<in> set ops then X p else v_entries vw p)" "p \<in> v_nil vw' \<longleftrightarrow> (if p \<in> set ops then X p = None else p \<in> v_nil vw)" for p
    unfolding vw'_def xs by (rule fold_v_set_map)+
  have known: "v_known vw' p \<longleftrightarrow> v_known vw p \<or> p \<in> set ops" for p by (auto simp: v_known_def e)
  have "view_ok (ledger parse s) vw'"
    unfolding view_ok_def
  proof (intro conjI allI impI)
    have "dom (v_entries vw') \<subseteq> dom (v_entries vw) \<union> set ops" by (auto simp: e(1) split: if_splits)
    then show "finite (dom (v_entries vw'))" using assms(3) finite_subset unfolding view_ok_def by (metis List.finite_set finite_UnI)
  next
    fix p e'
    assume en: "v_entries vw' p = Some e'"
    show "fine (ledger parse s) p e'"
    proof (cases "p \<in> set ops")
      case True
      then have ok: "entry_ok parse (dbCoins parse s') p (Some e')" using hit(1) en e(1) f(2) by (auto simp: same_ledger_def cache_inv_def)
      then have "\<not> ent_modified e' \<longrightarrow> \<not> ent_spent e'" using dbCoins_flags [of parse s' p "core e'"] by (auto simp: entry_ok_def)
      then show ?thesis using ok hit(2) [OF True] en e(1) True by (auto simp: fine_def entry_ok_def good_entry_def)
    next
      case False
      then show ?thesis using assms(3) en e(1) by (simp add: view_ok_def)
    qed
  next
    fix p
    assume "v_entries vw' p = None" "p \<in> v_nil vw'"
    then show "ledger parse s p = None" using assms(3) hit(2) [of p] e by (cases "p \<in> set ops") (auto simp: view_ok_def)
  qed
  moreover have "overlay vw' (ledger parse s) p = overlay vw (ledger parse s) p" if "p \<notin> made txs" for p
    using that assms(4) hit(2) [of p] by (cases "p \<in> set ops") (auto simp: overlay_def known e)
  moreover have "v_bestHash vw' = v_bestHash vw" unfolding vw'_def xs by (rule fold_v_set_map)
  moreover have "fetchUtxosFromCache parse ops vw s = (Ok vw', s')"
    using f(1) False by (simp add: fetchUtxosFromCache_def bind_act_def act_defs vw'_def)
  ultimately show ?thesis using f(2) known by (auto simp: loaded_def)
qed

lemma inputs_loaded:
  assumes "cache_inv parse s" and "view_ok (ledger parse s) vw" and "\<forall>tx \<in> set txs. storable_tx ht tx"
    and "\<forall>tx \<in> set txs. \<forall>i \<in> set (tx_ins tx). length (fst (PreviousOutPoint i)) = 32"
  shows "\<exists>vw' s'. fetchInputUtxos parse txs ht vw s = (Ok vw', s') \<and> same_ledger parse s s' \<and> loaded (ledger parse s) txs vw vw' \<and>
    (\<forall>tx \<in> set (tl txs). \<forall>x \<in> set (tx_ins tx). fst (PreviousOutPoint x) \<notin> tx_hash ` set txs \<longrightarrow> v_known vw' (PreviousOutPoint x))"
proof -
  obtain needed vw1 where f: "findTxs txs ht 0 (tl txs) ([], vw) = (needed, vw1)" by fastforce
  note one = findTxs_loaded [OF assms(2,3) f, simplified]
  have "length (fst p) = 32" if "p \<in> set needed" for p
  proof -
    from one that have "p \<in> (\<Union>tx \<in> set (tl txs). PreviousOutPoint ` set (tx_ins tx))" by blast
    then obtain tx i where "tx \<in> set txs" "i \<in> set (tx_ins tx)" "p = PreviousOutPoint i" by (cases txs) auto
    then show ?thesis using assms(4) by simp
  qed
  then obtain vw' s' where g: "fetchUtxosFromCache parse needed vw1 s = (Ok vw', s')" "same_ledger parse s s'"
    "loaded (ledger parse s) txs vw1 vw'" "\<forall>p \<in> set needed. v_known vw' p"
    using fetch_loaded [OF assms(1), of needed vw1 txs] one by (auto simp: loaded_def)
  have "v_known vw1 p \<longrightarrow> v_known vw' p" for p using g(3) by (simp add: loaded_def)
  then show ?thesis using g one f loaded_trans by (simp add: fetchInputUtxos_def findInputsToFetch_def) blast
qed

lemma bestHash_irrelevant [simp]: "view_ok L (vw\<lparr>v_bestHash := h\<rparr>) = view_ok L vw" "overlay (vw\<lparr>v_bestHash := h\<rparr>) L = overlay vw L"
  by (simp_all add: view_ok_def overlay_def v_known_def fun_eq_iff)

subsection \<open>Disconnecting a block from a view\<close>

definition entries_fine :: "view \<Rightarrow> view \<Rightarrow> view \<Rightarrow> bool" where
  "entries_fine L v v' \<longleftrightarrow> finite (dom v') \<and> (\<forall>p e. v' p = Some e \<longrightarrow> fine L p e) \<and> (\<forall>p. v p \<noteq> None \<longrightarrow> v' p \<noteq> None)"

lemma entries_fine_refl: "finite (dom v) \<Longrightarrow> \<forall>p e. v p = Some e \<longrightarrow> fine L p e \<Longrightarrow> entries_fine L v v"
  by (simp add: entries_fine_def)

lemma entries_fine_upd: "entries_fine L v v1 \<Longrightarrow> fine L p e \<Longrightarrow> entries_fine L v (v1(p \<mapsto> e))"
  by (simp add: entries_fine_def)

lemma fine_Spend: "fine L p e \<Longrightarrow> fine L p (Spend e)"
  by (auto simp: fine_def Spend_def)

lemma undoOuts_fine:
  assumes "length h = 32" and "\<forall>out \<in> set outs. storable (Value out) (PkScript out) ht" and "entries_fine L v v1"
  shows "entries_fine L v (undoOuts h cb ht i outs v1)"
  using assms(2,3)
proof (induction outs arbitrary: i v1)
  case (Cons out outs)
  let ?e = "case v1 (h, of_nat i) of Some e \<Rightarrow> e
      | None \<Rightarrow> \<lparr>amount = Value out, pkScript = PkScript out, blockHeight = ht, ent_coinbase = cb, ent_spent = False,
          ent_modified = False, ent_fresh = False\<rparr>"
  have "fine L (h, of_nat i) (Spend ?e)"
  proof (cases "v1 (h, of_nat i)")
    case None
    then show ?thesis using Cons.prems(1) assms(1) by (simp add: fine_def Spend_def)
  next
    case (Some e)
    then have "fine L (h, of_nat i) e" using Cons.prems(2) by (simp add: entries_fine_def)
    then show ?thesis using Some fine_Spend by simp
  qed
  from entries_fine_upd [OF Cons.prems(2) this] have "entries_fine L v (v1((h, of_nat i) \<mapsto> Spend ?e))" .
  then have "entries_fine L v (undoOuts h cb ht (Suc i) outs (v1((h, of_nat i) \<mapsto> Spend ?e)))"
    using Cons.prems(1) by (intro Cons.IH) (simp_all del: fun_upd_apply)
  moreover have "entries_fine L v (undoOuts h cb ht (Suc i) outs v1)" using Cons.prems by (intro Cons.IH) simp_all
  ultimately show ?case by (simp add: Let_def del: fun_upd_apply)
qed simp

definition journal_ok :: "SpentTxOut list \<Rightarrow> bool" where
  "journal_ok sts \<longleftrightarrow> (\<forall>st \<in> set sts. st_Height st \<noteq> 0 \<and> storable (st_Amount st) (st_PkScript st) (st_Height st))"

lemma undoIns_fine:
  assumes "undoIns f h is sts v1 = Ok (v2, sts')" and "journal_ok sts" and "\<forall>i \<in> set is. length (fst (PreviousOutPoint i)) = 32"
    and "entries_fine L v v1"
  shows "entries_fine L v v2 \<and> journal_ok sts'"
  using assms
proof (induction "is" arbitrary: sts v1)
  case (Cons i "is")
  from Cons.prems(1) obtain st sts1 where st: "sts = st # sts1" by (cases sts) auto
  have "st_Height st \<noteq> 0" and j: "journal_ok sts1" using Cons.prems(2) st by (simp_all add: journal_ok_def)
  then have step: "undoIns f h is sts1 (v1(PreviousOutPoint i \<mapsto> restored st)) = Ok (v2, sts')"
    using Cons.prems(1) st by (simp add: Let_def restored_def fun_upd_twist split: if_splits)
  have "fine L (PreviousOutPoint i) (restored st)" using Cons.prems(2,3) st by (simp add: fine_def restored_def journal_ok_def)
  from entries_fine_upd [OF Cons.prems(4) this] show ?case using Cons.prems(3) by (intro Cons.IH [OF step j]) (simp_all del: fun_upd_apply)
qed simp

lemma undoTxs_fine:
  assumes "undoTxs f ht ktxs sts v1 = Ok (v2, sts')" and "journal_ok sts" and "entries_fine L v v1"
    and "\<forall>(k, tx) \<in> set ktxs. storable_tx ht tx \<and> (\<forall>i \<in> set (tx_ins tx). length (fst (PreviousOutPoint i)) = 32)"
  shows "entries_fine L v v2"
  using assms
proof (induction ktxs arbitrary: sts v1)
  case (Cons kt ktxs)
  obtain k tx where kt: "kt = (k, tx)" by fastforce
  let ?v = "undoOuts (tx_hash tx) (k = 0) ht 0 (tx_outs tx) v1"
  have o: "entries_fine L v ?v" using Cons.prems(3,4) kt by (intro undoOuts_fine) (simp_all add: storable_tx_def)
  show ?case
  proof (cases "k = 0")
    case True
    then have "undoTxs f ht ktxs sts ?v = Ok (v2, sts')" using Cons.prems(1) kt by (simp add: Let_def)
    then show ?thesis using Cons.prems(2,4) o by (intro Cons.IH) auto
  next
    case False
    then obtain v3 sts1 where i: "undoIns f (tx_hash tx) (rev (tx_ins tx)) sts ?v = Ok (v3, sts1)" "undoTxs f ht ktxs sts1 v3 = Ok (v2, sts')"
      using Cons.prems(1) kt by (auto simp: Let_def split: outcome.splits)
    have "entries_fine L v v3 \<and> journal_ok sts1" using Cons.prems(4) kt by (intro undoIns_fine [OF i(1) Cons.prems(2) _ o]) simp
    then show ?thesis using Cons.prems(4) by (intro Cons.IH [OF i(2)]) auto
  qed
qed simp

text \<open>A block as the checks leave it: the coinbase first, hashes of their length, outputs that can be stored.\<close>

definition proper :: "int \<Rightarrow> MsgTx list \<Rightarrow> bool" where
  "proper ht txs \<longleftrightarrow> txs \<noteq> [] \<and> (\<forall>k < length txs. k = 0 \<longleftrightarrow> IsCoinBase (txs ! k)) \<and> distinct (map tx_hash txs) \<and>
    (\<forall>tx \<in> set txs. storable_tx ht tx \<and> (\<forall>i \<in> set (tx_ins tx). length (fst (PreviousOutPoint i)) = 32))"

definition storable_coins :: "view \<Rightarrow> bool" where
  "storable_coins U \<longleftrightarrow> coins_ok U \<and> (\<forall>p e. U p = Some e \<longrightarrow> storable (amount e) (pkScript e) (blockHeight e))"

lemma proper_tl: "proper ht txs \<Longrightarrow> tx \<in> set (tl txs) \<Longrightarrow> \<not> IsCoinBase tx"
proof -
  assume a: "proper ht txs" "tx \<in> set (tl txs)"
  then obtain k where k: "Suc k < length txs" "tx = txs ! Suc k" by (auto simp: in_set_conv_nth nth_tl less_diff_conv)
  with a(1) show ?thesis unfolding proper_def by blast
qed

lemma spends_count: "proper ht txs \<Longrightarrow> length (blockSpends U ht txs) = countSpentOutputs txs"
proof -
  assume a: "proper ht txs"
  obtain cb rest where t: "txs = cb # rest" "IsCoinBase cb" using a by (cases txs) (auto simp: proper_def)
  have "\<forall>tx \<in> set rest. \<not> IsCoinBase tx" using proper_tl [OF a] t by simp
  then have "length (blockSpends W ht rest) = sum_list (map (length \<circ> tx_ins) rest)" for W
    by (induction rest arbitrary: W) (simp_all add: spentCoins_def)
  then show ?thesis using t by (simp add: countSpentOutputs_def spentCoins_def)
qed

lemma new_storable:
  assumes "storable_tx ht tx" and "newOuts ht tx p = Some e" shows "storable (amount e) (pkScript e) (blockHeight e)"
  using addOuts_fine [OF assms] by (simp add: fine_def)

lemma ledgerTx_storable: "storable_coins U \<Longrightarrow> ht \<noteq> 0 \<Longrightarrow> storable_tx ht tx \<Longrightarrow> storable_coins (ledgerTx tx ht U)"
  using ledgerBlock_coins [of U ht "[tx]"] new_storable [of ht tx]
  by (fastforce simp: storable_coins_def ledgerTx_eq split: option.splits if_splits)

lemma spends_journal: "storable_coins U \<Longrightarrow> ht \<noteq> 0 \<Longrightarrow> \<forall>tx \<in> set txs. storable_tx ht tx \<Longrightarrow> canConnect U ht txs \<Longrightarrow> journal_ok (blockSpends U ht txs)"
proof (induction txs arbitrary: U)
  case (Cons tx txs)
  have "journal_ok (spentCoins U tx)"
    using Cons.prems(1,4) by (fastforce simp: journal_ok_def spentCoins_def canSpend_def storable_coins_def coins_ok_def stxoOf_def)
  moreover have "journal_ok (blockSpends (ledgerTx tx ht U) ht txs)" using Cons.prems ledgerTx_storable by (intro Cons.IH) simp_all
  ultimately show ?case by (auto simp: journal_ok_def)
qed (simp add: journal_ok_def)

lemma disconnect_view:
  assumes "cache_inv parse s" and "view_ok (ledger parse s) vw" and "overlay vw (ledger parse s) = ledgerBlock txs ht U"
    and "proper ht txs" and "storable_coins U" and "ht \<noteq> 0" and "canConnect U ht txs" and "\<forall>p \<in> made txs. U p = None"
  shows "\<exists>vw1 s1 vw2. fetchInputUtxos parse txs ht vw s = (Ok vw1, s1) \<and> same_ledger parse s s1 \<and>
    disconnectTransactions f txs ht prev (blockSpends U ht txs) vw1 = Ok vw2 \<and> overlay vw2 (ledger parse s) = U \<and>
    view_ok (ledger parse s) vw2 \<and> v_bestHash vw2 = prev"
proof -
  let ?L = "ledger parse s"
  have txs: "\<forall>tx \<in> set txs. storable_tx ht tx" "\<forall>tx \<in> set txs. \<forall>i \<in> set (tx_ins tx). length (fst (PreviousOutPoint i)) = 32"
    using assms(4) by (simp_all add: proper_def)
  obtain vw1 s1 where l: "fetchInputUtxos parse txs ht vw s = (Ok vw1, s1)" "same_ledger parse s s1" "loaded ?L txs vw vw1"
    using inputs_loaded [OF assms(1,2) txs] by blast
  have ok1: "view_ok ?L vw1" using l(3) by (simp add: loaded_def)
  have same: "vw1\<lparr>v_entries := v_entries vw1\<rparr> = vw1" by simp
  obtain v' where v': "undoTxs f ht (rev (enumerate 0 txs)) (rev (blockSpends U ht txs)) (v_entries vw1) = Ok (v', [])"
    "overlay (vw1\<lparr>v_entries := v'\<rparr>) ?L = U"
    using undo_block [of U ht txs "v_entries vw1" vw1 ?L f] assms(4-8) l(3) view_ok_tidy [OF ok1] assms(3)
    by (auto simp: proper_def storable_coins_def loaded_def same)
  have "entries_fine ?L (v_entries vw1) v'"
  proof (rule undoTxs_fine [OF v'(1)])
    show "journal_ok (rev (blockSpends U ht txs))" using spends_journal [OF assms(5,6) txs(1) assms(7)] by (simp add: journal_ok_def)
    show "entries_fine ?L (v_entries vw1) (v_entries vw1)" using ok1 by (intro entries_fine_refl) (simp_all add: view_ok_def)
    show "\<forall>(k, tx) \<in> set (rev (enumerate 0 txs)). storable_tx ht tx \<and> (\<forall>i \<in> set (tx_ins tx). length (fst (PreviousOutPoint i)) = 32)"
      using txs by (auto simp: in_set_enumerate_eq)
  qed
  then have fine: "finite (dom v')" "\<forall>p e. v' p = Some e \<longrightarrow> fine ?L p e" "\<And>p. v' p = None \<Longrightarrow> v_entries vw1 p = None"
    unfolding entries_fine_def by blast+
  have "view_ok ?L (vw1\<lparr>v_entries := v'\<rparr>)" using ok1 fine by (simp add: view_ok_def)
  then have "view_ok ?L (vw1\<lparr>v_entries := v', v_bestHash := prev\<rparr>)" "overlay (vw1\<lparr>v_entries := v', v_bestHash := prev\<rparr>) ?L = U"
    using v'(2) by simp_all
  then show ?thesis using l v'(1) spends_count [OF assms(4)] by (auto simp: disconnectTransactions_def)
qed

subsection \<open>Writing a view to the database\<close>

lemma putView_spec:
  assumes "sound (dbFetchUtxoEntry parse b)" and "distinct (map fst es)"
    and "\<forall>(p, x) \<in> set es. \<forall>e. x = Some e \<longrightarrow> length (fst p) = 32 \<and> good_entry parse e"
  shows "\<exists>b'. dbPutUtxoView parse es b = Ok b' \<and> sound (dbFetchUtxoEntry parse b') \<and>
    fetched (dbFetchUtxoEntry parse b') = (\<lambda>p. case map_of es p of
        Some (Some e) \<Rightarrow> if ent_modified e then coinOf (Some e) else fetched (dbFetchUtxoEntry parse b) p
      | _ \<Rightarrow> fetched (dbFetchUtxoEntry parse b) p)"
  using assms
proof (induction es arbitrary: b)
  case (Cons px es)
  obtain p x where px: "px = (p, x)" by (cases px)
  let ?db = "fetched (dbFetchUtxoEntry parse b)"
  have rest: "distinct (map fst es)" "map_of es p = None" "\<forall>(p, x) \<in> set es. \<forall>e. x = Some e \<longrightarrow> length (fst p) = 32 \<and> good_entry parse e"
    using Cons.prems(2,3) px by (auto simp: map_of_eq_None_iff)
  obtain b1 where b1: "dbPutUtxoView parse (px # es) b = dbPutUtxoView parse es b1" "sound (dbFetchUtxoEntry parse b1)"
    "fetched (dbFetchUtxoEntry parse b1) = (case x of Some e \<Rightarrow> if ent_modified e then ?db(p := coinOf x) else ?db | None \<Rightarrow> ?db)"
  proof (cases "\<exists>e. x = Some e \<and> ent_modified e")
    case True
    then obtain e where e: "x = Some e" "ent_modified e" by blast
    then have good: "length (fst p) = 32" "good_entry parse e" using Cons.prems(3) px by auto
    show ?thesis
    proof (cases "ent_spent e")
      case True
      then show ?thesis using that [of "dbDeleteUtxoEntry p b"] coins.sound_delete [OF Cons.prems(1) good(1)] e px by simp
    next
      case False
      obtain b' where "dbPutUtxoEntry parse p (Some e) b = Ok b'" "sound (dbFetchUtxoEntry parse b')"
        "fetched (dbFetchUtxoEntry parse b') = ?db(p \<mapsto> core e)"
        using coins.sound_store [OF Cons.prems(1) good(2) False good(1)] by auto
      then show ?thesis using that [of b'] e False px by simp
    qed
  next
    case False
    then show ?thesis using that [of b] Cons.prems(1) px by (auto split: option.split)
  qed
  from Cons.IH [OF b1(2) rest(1,3)] obtain b2 where b2: "dbPutUtxoView parse es b1 = Ok b2" "sound (dbFetchUtxoEntry parse b2)"
    "fetched (dbFetchUtxoEntry parse b2) = (\<lambda>q. case map_of es q of
        Some (Some e) \<Rightarrow> if ent_modified e then coinOf (Some e) else fetched (dbFetchUtxoEntry parse b1) q
      | _ \<Rightarrow> fetched (dbFetchUtxoEntry parse b1) q)" by blast
  have "fetched (dbFetchUtxoEntry parse b2) q = (case map_of (px # es) q of
        Some (Some e) \<Rightarrow> if ent_modified e then coinOf (Some e) else ?db q | _ \<Rightarrow> ?db q)" for q
    using rest(2) unfolding b2(3) b1(3) px by (auto split: option.split)
  with b1(1) b2(1,2) show ?case by auto
qed simp

text \<open>How the entries of a view may be enumerated: each key once; nil entries may come with it.\<close>

definition enumerates :: "(view \<Rightarrow> (outpoint \<times> UtxoEntry option) list) \<Rightarrow> bool" where
  "enumerates ent \<longleftrightarrow> (\<forall>v. finite (dom v) \<longrightarrow> distinct (map fst (ent v)) \<and> (\<forall>p e. (p, Some e) \<in> set (ent v) \<longleftrightarrow> v p = Some e))"

lemma core_flags [simp]: "core (e\<lparr>ent_modified := m\<rparr>) = core e"
  by simp

lemma written_view:
  assumes "cache_inv parse s" and "key_laws parse" and "enumerates ent" and "view_ok (ledger parse s) vw"
    and "dbCoins parse s = ledger parse s" and "ms_length (cachedEntries s) = 0"
  shows "\<exists>b. dbPutUtxoView parse (ent (v_entries vw)) (utxoBucket s) = Ok b \<and> cache_inv parse (s\<lparr>utxoBucket := b\<rparr>) \<and>
    dbCoins parse (s\<lparr>utxoBucket := b\<rparr>) = overlay vw (ledger parse s) \<and> ledger parse (s\<lparr>utxoBucket := b\<rparr>) = overlay vw (ledger parse s)"
proof -
  let ?v = "v_entries vw" and ?L = "ledger parse s"
  have fin: "finite (dom ?v)" and fine: "\<And>p e. ?v p = Some e \<Longrightarrow> fine ?L p e" using assms(4) by (auto simp: view_ok_def)
  have ent: "distinct (map fst (ent ?v))" "\<And>p e. (p, Some e) \<in> set (ent ?v) \<longleftrightarrow> ?v p = Some e"
    using assms(3) fin by (auto simp: enumerates_def)
  have "\<forall>(p, x) \<in> set (ent ?v). \<forall>e. x = Some e \<longrightarrow> length (fst p) = 32 \<and> good_entry parse e"
    using ent(2) fine assms(2) by (fastforce simp: fine_def good_entry_def)
  from putView_spec [OF _ ent(1) this, of "utxoBucket s"] assms(1) obtain b where
    b: "dbPutUtxoView parse (ent ?v) (utxoBucket s) = Ok b" "sound (dbFetchUtxoEntry parse b)"
      "fetched (dbFetchUtxoEntry parse b) = (\<lambda>p. case map_of (ent ?v) p of
        Some (Some e) \<Rightarrow> if ent_modified e then coinOf (Some e) else dbCoins parse s p | _ \<Rightarrow> dbCoins parse s p)"
    unfolding cache_inv_def dbCoins_def by blast
  have hit: "map_of (ent ?v) p = Some (Some e) \<longleftrightarrow> ?v p = Some e" for p e
    using ent by (simp add: map_of_eq_Some_iff)
  have new: "fetched (dbFetchUtxoEntry parse b) p = overlay vw ?L p" for p
  proof (cases "?v p")
    case None
    then have "fetched (dbFetchUtxoEntry parse b) p = ?L p"
      unfolding b(3) assms(5) using hit [of p] by (auto split: option.split)
    then show ?thesis using None assms(4) by (auto simp: overlay_def v_known_def view_ok_def)
  next
    case (Some e)
    then have "map_of (ent ?v) p = Some (Some e)" using hit by blast
    then show ?thesis using Some fine [OF Some] unfolding b(3) assms(5) by (simp add: overlay_def v_known_def fine_def)
  qed
  let ?s = "s\<lparr>utxoBucket := b\<rparr>"
  have "getFrom (ms_maps (cachedEntries s)) p = None" for p
    using assms(6) by (auto simp: ms_length_def getFrom_concat map_of_eq_None_iff)
  then have empty: "ms_get (cachedEntries s) = Map.empty" by (simp add: ms_get_def fun_eq_iff)
  have db: "dbCoins parse ?s = overlay vw ?L" using new by (simp add: dbCoins_def fun_eq_iff)
  have led: "ledger parse ?s = overlay vw ?L" using db by (simp add: ledger_def fun_eq_iff empty)
  have "good_entry parse e" if "overlay vw ?L p = Some e" for p e
  proof (cases "?v p")
    case None
    then have "?L p = Some e" using that assms(4) by (auto simp: overlay_def v_known_def split: if_splits)
    then show ?thesis using assms(1,5) by (auto simp: cache_inv_def)
  next
    case (Some x)
    then show ?thesis using that fine [OF Some] assms(2) by (auto simp: overlay_def v_known_def fine_def good_entry_def split: if_splits)
  qed
  then have "cache_inv parse ?s" using assms(1) b(2) empty db unfolding cache_inv_def by simp
  with b(1) db led show ?thesis by blast
qed

lemma commit_view:
  assumes "view_ok L vw"
  shows "view_ok (overlay vw L) (v_commit vw)" "overlay (v_commit vw) (overlay vw L) = overlay vw L" "v_bestHash (v_commit vw) = v_bestHash vw"
proof -
  have e: "v_entries (v_commit vw) p = (case v_entries vw p of None \<Rightarrow> None
      | Some e \<Rightarrow> if ent_modified e \<and> ent_spent e then None else Some (e\<lparr>ent_modified := \<not> ent_modified e\<rparr>))" "v_nil (v_commit vw) = {}" for p
    by (simp_all add: v_commit_def)
  have "dom (v_entries (v_commit vw)) \<subseteq> dom (v_entries vw)" by (auto simp: e split: option.splits if_splits)
  then have "finite (dom (v_entries (v_commit vw)))" using assms finite_subset by (auto simp: view_ok_def)
  moreover have "fine (overlay vw L) p e'" if c: "v_entries (v_commit vw) p = Some e'" for p e'
  proof -
    obtain x where x: "v_entries vw p = Some x" "e' = x\<lparr>ent_modified := \<not> ent_modified x\<rparr>" "\<not> (ent_modified x \<and> ent_spent x)"
      using c unfolding e(1) by (cases "v_entries vw p") (auto split: if_splits)
    moreover have "fine L p x" using assms x(1) by (simp add: view_ok_def)
    ultimately show ?thesis by (auto simp: fine_def overlay_def v_known_def)
  qed
  ultimately show "view_ok (overlay vw L) (v_commit vw)" by (simp add: view_ok_def e(2))
  show "overlay (v_commit vw) (overlay vw L) = overlay vw L"
  proof
    fix p
    show "overlay (v_commit vw) (overlay vw L) p = overlay vw L p"
    proof (cases "v_entries vw p")
      case (Some x)
      then have "fine L p x" using assms by (simp add: view_ok_def)
      then show ?thesis using Some by (auto simp: overlay_def v_known_def e fine_def)
    qed (simp add: overlay_def v_known_def e)
  qed
  show "v_bestHash (v_commit vw) = v_bestHash vw" by (simp add: v_commit_def)
qed

subsection \<open>Connecting a block to a view\<close>

lemma spendIns_known: "spendIns is v st = Ok r \<Longrightarrow> i \<in> set is \<Longrightarrow> v (PreviousOutPoint i) \<noteq> None"
proof (induction "is" arbitrary: v st)
  case (Cons x "is")
  then obtain e where e: "v (PreviousOutPoint x) = Some e" by (auto split: option.splits)
  show ?case
  proof (cases "i \<in> set is")
    case True
    then have "(v(PreviousOutPoint x \<mapsto> Spend e)) (PreviousOutPoint i) \<noteq> None"
      using Cons.prems(1) e by (intro Cons.IH) (simp_all del: fun_upd_apply)
    then show ?thesis using e by (auto split: if_splits)
  qed (use Cons.prems e in auto)
qed simp

lemma spendIns_Ok: "\<forall>i \<in> set is. v (PreviousOutPoint i) \<noteq> None \<Longrightarrow> \<exists>r. spendIns is v st = Ok r"
proof (induction "is" arbitrary: v st)
  case (Cons x "is")
  then obtain e where e: "v (PreviousOutPoint x) = Some e" by auto
  have "\<exists>r. spendIns is (v(PreviousOutPoint x \<mapsto> Spend e)) st' = Ok r" for st' using Cons.prems by (intro Cons.IH) simp
  then show ?case using e by simp
qed simp

lemma connect_known:
  "connectTransaction tx ht (v, st) = Ok vs \<Longrightarrow> p \<in> spentOutpoints tx \<Longrightarrow> v p \<noteq> None"
  by (auto simp: connectTransaction_def spentOutpoints_def dest: spendIns_known split: if_splits outcome.splits)

lemma connect_Ok: "\<forall>p \<in> spentOutpoints tx. v p \<noteq> None \<Longrightarrow> \<exists>v' st'. connectTransaction tx ht (v, st) = Ok (v', st')"
  using spendIns_Ok [of "tx_ins tx" v st] by (auto simp: connectTransaction_def spentOutpoints_def)

lemma connect_fine:
  assumes "connectTransaction tx ht (v, st) = Ok (v', st')" and "storable_tx ht tx" and "view_ok L (vw\<lparr>v_entries := v\<rparr>)"
  shows "view_ok L (vw\<lparr>v_entries := v'\<rparr>)"
proof -
  let ?s = "\<lambda>p. if p \<in> spentOutpoints tx then map_option Spend (v p) else v p"
  have e: "v' = ?s ++ newOuts ht tx" using assms(1) by (rule connect_entries)
  have "dom ?s \<subseteq> dom v" by (auto split: if_splits)
  then have "finite (dom v')" using assms(3) newOuts_finite [of ht tx] finite_subset [of "dom ?s" "dom v"] by (simp add: e view_ok_def)
  moreover have "fine L p x" if x: "v' p = Some x" for p x
  proof (cases "newOuts ht tx p")
    case None
    then obtain y where "v p = Some y" "x = (if p \<in> spentOutpoints tx then Spend y else y)"
      using x by (auto simp: e map_add_Some_iff split: if_splits)
    then show ?thesis using assms(3) fine_Spend by (simp add: view_ok_def)
  next
    case (Some y)
    then show ?thesis using x addOuts_fine [OF assms(2) Some] by (simp add: e map_add_Some_iff)
  qed
  moreover have "v p = None" if "v' p = None" for p using that by (auto simp: e split: if_splits)
  ultimately show ?thesis using assms(3) by (simp add: view_ok_def)
qed

lemma inOrder_made: "inOrder (tx # txs) \<Longrightarrow> p \<in> spentOutpoints tx \<Longrightarrow> p \<notin> made (tx # txs)"
  using made_hash [of p "tx # txs"] by auto

text \<open>What the view says of all outputs but those of the transactions still to come.\<close>

definition says :: "UtxoViewpoint \<Rightarrow> view \<Rightarrow> view \<Rightarrow> MsgTx list \<Rightarrow> view \<Rightarrow> bool" where
  "says vw L v txs W \<longleftrightarrow> (\<forall>p. p \<notin> made txs \<longrightarrow> overlay (vw\<lparr>v_entries := v\<rparr>) L p = W p)"

lemma says_step:
  assumes "says vw L v (tx # txs) W" and "inOrder (tx # txs)" and "connectTransaction tx ht (v, st) = Ok (v', st')"
  shows "says vw L v' txs (ledgerTx tx ht W)"
  unfolding says_def
proof (intro allI impI)
  fix p
  assume p: "p \<notin> made txs"
  have v': "v' p = (case newOuts ht tx p of Some e \<Rightarrow> Some e | None \<Rightarrow> if p \<in> spentOutpoints tx then map_option Spend (v p) else v p)"
    unfolding connect_entries [OF assms(3)] by (simp add: map_add_def split: option.split)
  show "overlay (vw\<lparr>v_entries := v'\<rparr>) L p = ledgerTx tx ht W p"
  proof (cases "newOuts ht tx p")
    case None
    then have "p \<notin> made (tx # txs)" using p by (simp add: made_simps(2) [of p tx txs ht])
    then have W: "overlay (vw\<lparr>v_entries := v\<rparr>) L p = W p" using assms(1) by (simp add: says_def)
    show ?thesis
    proof (cases "p \<in> spentOutpoints tx")
      case True
      then obtain e where "v p = Some e" using connect_known [OF assms(3)] by blast
      then show ?thesis using None True v' by (simp add: overlay_def v_known_def ledgerTx_eq)
    next
      case False
      then show ?thesis using None v' W by (auto simp: overlay_def v_known_def ledgerTx_eq split: if_splits)
    qed
  next
    case (Some e)
    then show ?thesis using v' newOuts_range [OF Some] by (simp add: overlay_def v_known_def ledgerTx_eq)
  qed
qed

lemma says_all:
  assumes "connectTransactions txs ht (v, st) = Ok (v', st')" and "says vw L v txs W" and "inOrder txs"
  shows "overlay (vw\<lparr>v_entries := v'\<rparr>) L = ledgerBlock txs ht W"
  using assms
proof (induction txs arbitrary: v st W)
  case Nil
  then show ?case by (simp add: says_def fun_eq_iff)
next
  case (Cons tx txs)
  then obtain v1 st1 where one: "connectTransaction tx ht (v, st) = Ok (v1, st1)" "connectTransactions txs ht (v1, st1) = Ok (v', st')"
    by (auto split: outcome.splits)
  from Cons.IH [OF one(2) says_step [OF Cons.prems(2,3) one(1)]] Cons.prems(3) show ?case by simp
qed

lemma connected_fine:
  assumes "connectTransactions txs ht (v, st) = Ok (v', st')" and "\<forall>tx \<in> set txs. storable_tx ht tx" and "view_ok L (vw\<lparr>v_entries := v\<rparr>)"
  shows "view_ok L (vw\<lparr>v_entries := v'\<rparr>)"
  using assms
proof (induction txs arbitrary: v st)
  case (Cons tx txs)
  then obtain v1 st1 where one: "connectTransaction tx ht (v, st) = Ok (v1, st1)" "connectTransactions txs ht (v1, st1) = Ok (v', st')"
    by (auto split: outcome.splits)
  show ?case using Cons.prems(2) by (intro Cons.IH [OF one(2)] connect_fine [OF one(1) _ Cons.prems(3)]) simp_all
qed simp

text \<open>The checks pass only if the block can be connected to what the view says.\<close>

definition onceEach :: "MsgTx list \<Rightarrow> bool" where
  "onceEach txs \<longleftrightarrow> (\<forall>tx \<in> set txs. IsCoinBase tx \<or> distinct (map PreviousOutPoint (tx_ins tx)))"

lemma checked_connects:
  assumes "connectLoop q ht txs (v, st) fees = Ok (Inr ((v', st'), fees'))" and "says vw L v txs W" and "inOrder txs" and "onceEach txs"
  shows "connectTransactions txs ht (v, st) = Ok (v', st') \<and> canConnect W ht txs"
  using assms
proof (induction txs arbitrary: v st fees W)
  case (Cons tx txs)
  from Cons.prems(1) obtain fee vs where one: "CheckTransactionInputs tx ht v q = Inr fee" "connectTransaction tx ht (v, st) = Ok vs"
    "connectLoop q ht txs vs (wrap64 (fees + fee)) = Ok (Inr ((v', st'), fees'))"
    by (auto simp: Let_def split: sum.splits outcome.splits if_splits)
  obtain v1 st1 where vs: "vs = (v1, st1)" by fastforce
  have "p \<in> dom W" if p: "p \<in> spentOutpoints tx" for p
  proof -
    obtain e where "v p = Some e" "\<not> ent_spent e" using inputs_spendable [OF one(1) p] by (auto simp: spendable_def split: option.splits)
    then have "overlay (vw\<lparr>v_entries := v\<rparr>) L p = Some (core e)" by (simp add: overlay_def v_known_def)
    then show ?thesis using Cons.prems(2) inOrder_made [OF Cons.prems(3) p] by (auto simp: says_def)
  qed
  then have "PreviousOutPoint i \<in> dom W" if "\<not> IsCoinBase tx" "i \<in> set (tx_ins tx)" for i
    using that unfolding spentOutpoints_def by simp
  then have "canSpend W tx" using Cons.prems(4) unfolding canSpend_def onceEach_def by auto
  moreover have "connectTransactions txs ht (v1, st1) = Ok (v', st') \<and> canConnect (ledgerTx tx ht W) ht txs"
    using Cons.prems(3,4) one(3) vs by (intro Cons.IH [OF _ says_step [OF Cons.prems(2,3) one(2) [unfolded vs]]]) (simp_all add: onceEach_def)
  ultimately show ?case using one(2) vs by simp
qed simp

text \<open>A block that can be connected to what the view says is connected to the view, if its inputs are loaded.\<close>

lemma connectable_connects:
  assumes "canConnect W ht txs" and "says vw L v txs W" and "inOrder txs" and "distinct (map tx_hash txs)"
    and "\<forall>tx \<in> set txs. \<forall>j. W (tx_hash tx, j) = None"
    and "\<forall>tx \<in> set txs. \<forall>p \<in> spentOutpoints tx. fst p \<notin> tx_hash ` set txs \<longrightarrow> W p \<noteq> None \<longrightarrow> v_known (vw\<lparr>v_entries := v\<rparr>) p"
  shows "\<exists>v' st'. connectTransactions txs ht (v, st) = Ok (v', st')"
  using assms
proof (induction txs arbitrary: v st W)
  case (Cons tx txs)
  have "v p \<noteq> None" if p: "p \<in> spentOutpoints tx" for p
  proof -
    have W: "W p \<noteq> None" using Cons.prems(1) p by (auto simp: canSpend_def spentOutpoints_def split: if_splits)
    have "fst p \<notin> tx_hash ` set (tx # txs)" using Cons.prems(3) p by simp
    then have "v_known (vw\<lparr>v_entries := v\<rparr>) p" using Cons.prems(6) p W by (meson list.set_intros(1))
    moreover have "overlay (vw\<lparr>v_entries := v\<rparr>) L p = W p" using Cons.prems(2) inOrder_made [OF Cons.prems(3) p] by (simp add: says_def)
    ultimately show ?thesis using W by (cases "v p") (auto simp: overlay_def)
  qed
  then obtain v1 st1 where one: "connectTransaction tx ht (v, st) = Ok (v1, st1)" using connect_Ok [of tx v ht st] by blast
  have new: "tx_hash tx \<notin> tx_hash ` set txs" using Cons.prems(4) by simp
  have fresh: "\<forall>t \<in> set txs. \<forall>j. ledgerTx tx ht W (tx_hash t, j) = None"
  proof (intro ballI allI)
    fix t j assume "t \<in> set txs"
    then have "newOuts ht tx (tx_hash t, j) = None" using new by (intro newOuts_other) (metis fst_conv imageI)
    then show "ledgerTx tx ht W (tx_hash t, j) = None" using Cons.prems(5) \<open>t \<in> set txs\<close> by (simp add: ledgerTx_eq)
  qed
  have known: "v_known (vw\<lparr>v_entries := v1\<rparr>) p"
    if p: "t \<in> set txs" "p \<in> spentOutpoints t" "fst p \<notin> tx_hash ` set txs" "ledgerTx tx ht W p \<noteq> None" for t p
  proof (cases "newOuts ht tx p")
    case None
    then have W: "W p \<noteq> None" using p(4) by (simp add: ledgerTx_eq split: if_splits)
    have "fst p \<noteq> tx_hash tx" using W Cons.prems(5) by (metis list.set_intros(1) prod.collapse)
    then have "fst p \<notin> tx_hash ` set (tx # txs)" using p(3) by simp
    then have "v_known (vw\<lparr>v_entries := v\<rparr>) p" using Cons.prems(6) p W by (meson list.set_intros(2))
    then show ?thesis unfolding connect_entries [OF one] by (auto simp: v_known_def)
  next
    case (Some e)
    then show ?thesis unfolding connect_entries [OF one] by (simp add: v_known_def)
  qed
  have "\<exists>v' st'. connectTransactions txs ht (v1, st1) = Ok (v', st')"
    using Cons.prems(1,3,4) fresh known by (intro Cons.IH [OF _ says_step [OF Cons.prems(2,3) one]]) simp_all
  then show ?case using one by simp
qed simp

lemma says_loaded: "loaded L txs vw vw1 \<Longrightarrow> overlay vw L = U \<Longrightarrow> says vw1 L (v_entries vw1) txs U"
  by (auto simp: says_def loaded_def)

lemma proper_txs:
  assumes "proper ht txs"
  shows "\<forall>tx \<in> set txs. storable_tx ht tx" "\<forall>tx \<in> set txs. \<forall>i \<in> set (tx_ins tx). length (fst (PreviousOutPoint i)) = 32" "distinct (map tx_hash txs)"
  using assms by (simp_all add: proper_def)

lemma attach_valid:
  assumes "cache_inv parse s" and "view_ok (ledger parse s) vw" and "overlay vw (ledger parse s) = U"
    and "proper ht txs" and "inOrder txs" and "canConnect U ht txs" and "\<forall>tx \<in> set txs. \<forall>j. U (tx_hash tx, j) = None"
  shows "\<exists>vw1 s1 v st. fetchInputUtxos parse txs ht vw s = (Ok vw1, s1) \<and> same_ledger parse s s1 \<and>
    connectTransactions txs ht (v_entries vw1, []) = Ok (v, st) \<and> view_ok (ledger parse s) (vw1\<lparr>v_entries := v\<rparr>) \<and>
    overlay (vw1\<lparr>v_entries := v\<rparr>) (ledger parse s) = ledgerBlock txs ht U"
proof -
  note p = proper_txs [OF assms(4)]
  obtain vw1 s1 where l: "fetchInputUtxos parse txs ht vw s = (Ok vw1, s1)" "same_ledger parse s s1" "loaded (ledger parse s) txs vw vw1"
    and known: "\<forall>tx \<in> set (tl txs). \<forall>x \<in> set (tx_ins tx). fst (PreviousOutPoint x) \<notin> tx_hash ` set txs \<longrightarrow> v_known vw1 (PreviousOutPoint x)"
    using inputs_loaded [OF assms(1,2) p(1,2)] by blast
  have same: "vw1\<lparr>v_entries := v_entries vw1\<rparr> = vw1" by simp
  note says = says_loaded [OF l(3) assms(3)]
  obtain cb rest where t: "txs = cb # rest" "IsCoinBase cb" using assms(4) by (cases txs) (auto simp: proper_def)
  have "\<forall>tx \<in> set txs. \<forall>p \<in> spentOutpoints tx. fst p \<notin> tx_hash ` set txs \<longrightarrow> U p \<noteq> None \<longrightarrow> v_known (vw1\<lparr>v_entries := v_entries vw1\<rparr>) p"
  proof (intro ballI impI)
    fix tx p assume a: "tx \<in> set txs" "p \<in> spentOutpoints tx" "fst p \<notin> tx_hash ` set txs"
    then have "tx \<in> set (tl txs)" "\<exists>x \<in> set (tx_ins tx). p = PreviousOutPoint x" using t by (auto simp: spentOutpoints_def split: if_splits)
    then show "v_known (vw1\<lparr>v_entries := v_entries vw1\<rparr>) p" using known a(3) unfolding same by blast
  qed
  from connectable_connects [OF assms(6) says assms(5) p(3) assms(7) this] obtain v st where
    v: "connectTransactions txs ht (v_entries vw1, []) = Ok (v, st)" by blast
  have "view_ok (ledger parse s) (vw1\<lparr>v_entries := v\<rparr>)"
    using connected_fine [OF v p(1), of "ledger parse s" vw1] l(3) by (simp add: loaded_def)
  then show ?thesis using l v says_all [OF v says assms(5)] by blast
qed

lemma BIP0030_loaded:
  assumes "cache_inv parse s" and "view_ok (ledger parse s) vw" and "\<forall>tx \<in> set txs. length (tx_hash tx) = 32"
  shows "\<exists>r vw' s'. checkBIP0030 parse txs vw s = (Ok r, s') \<and> (r = Inl ErrOverwriteTx \<or> r = Inr vw') \<and> same_ledger parse s s' \<and>
    loaded (ledger parse s) txs vw vw'"
proof -
  define fetch where "fetch = concat (map outputsOf txs)"
  let ?n = "filter (\<lambda>p. \<not> v_known vw p) fetch"
  have len: "\<forall>p \<in> set ?n. length (fst p) = 32" using assms(3) by (auto simp: fetch_def outputsOf_def)
  have "\<forall>p \<in> set ?n. p \<in> made txs \<or> \<not> v_known vw p" by simp
  from fetch_loaded [OF assms(1) len assms(2) this] obtain vw' s' where
    f: "fetchUtxosFromCache parse ?n vw s = (Ok vw', s')" "same_ledger parse s s'" "loaded (ledger parse s) txs vw vw'" by blast
  have "fetchUtxos parse fetch vw s = (Ok vw', s')"
    using f(1) by (cases "fetch = []") (simp_all add: fetchUtxos_def fetchUtxosFromCache_def)
  then show ?thesis
    using f(2,3) unfolding checkBIP0030_def Let_def fetch_def [symmetric] by (fastforce simp: bind_act_def act_defs)
qed

lemma same_ledger_refl: "cache_inv parse s \<Longrightarrow> same_ledger parse s s"
  by (simp add: same_ledger_def)

text \<open>The steps of the check on a view that lies over the ledger.\<close>

lemma check_loads:
  assumes "cache_inv parse s" and "view_ok (ledger parse s) vw" and "proper (height_of node) (b_txs b)"
    and "checkConnectBlock parse env node b vw st s = (r, s')"
  shows "same_ledger parse s s' \<and> (\<forall>vw' st'. r = Ok (Inr (vw', st')) \<longrightarrow> (\<exists>vw2 v. loaded (ledger parse s) (b_txs b) vw vw2 \<and>
    checkValues (rulesParams (ce_rules env)) (height_of node) (b_txs b) (v_entries vw2, st) = Ok (Inr (v, st')) \<and>
    vw' = SetBestHash (hash_of node) (vw2\<lparr>v_entries := v\<rparr>)))"
proof -
  let ?c = "\<not> isBIP0030Node node \<and> height_of node < BIP0034Height (ce_rules env)" and ?txs = "b_txs b"
  note p = proper_txs [OF assms(3)]
  have refl: "loaded (ledger parse s) ?txs vw vw" using assms(2) by (simp add: loaded_def)
  define m where "m = (if ?c then checkBIP0030 parse ?txs vw else ret_act (Inr vw))"
  consider (early) "s' = s" "\<forall>x. r \<noteq> Ok (Inr x)"
    | (run) "bind_act m (\<lambda>r. case r of
         Inl e \<Rightarrow> ret_act (Inl e)
       | Inr vw1 \<Rightarrow> bind_act (fetchInputUtxos parse ?txs (height_of node) vw1) (\<lambda>vw2. lift_out (checkFetched env node b vw2 st))) s = (r, s')"
    using assms(4) by (fastforce simp: m_def checkConnectBlock_def Let_def act_defs split: if_splits)
  then show ?thesis
  proof cases
    case early
    then show ?thesis using same_ledger_refl [OF assms(1)] by simp
  next
    case run
    have "\<forall>tx \<in> set ?txs. length (tx_hash tx) = 32" using p(1) by (simp add: storable_tx_def)
    from BIP0030_loaded [OF assms(1,2) this] refl same_ledger_refl [OF assms(1)] obtain r1 vw1 s1 where
      one: "m s = (Ok r1, s1)" "r1 = Inl ErrOverwriteTx \<or> r1 = Inr vw1"
        "same_ledger parse s s1" "loaded (ledger parse s) ?txs vw vw1"
      by (cases ?c) (auto simp: m_def act_defs)
    show ?thesis
    proof (cases "r1 = Inr vw1")
      case False
      then have "r = Ok (Inl ErrOverwriteTx)" "s' = s1" using one run by (auto simp: bind_act_apply(1) [of m, OF one(1)] act_defs)
      then show ?thesis using one(3) by simp
    next
      case True
      have s1: "cache_inv parse s1" "ledger parse s1 = ledger parse s" using one(3) by (simp_all add: same_ledger_def)
      have "view_ok (ledger parse s1) vw1" using one(4) s1(2) by (simp add: loaded_def)
      from inputs_loaded [OF s1(1) this p(1,2)] obtain vw2 s2 where
        two: "fetchInputUtxos parse ?txs (height_of node) vw1 s1 = (Ok vw2, s2)" "same_ledger parse s1 s2" "loaded (ledger parse s) ?txs vw1 vw2"
        unfolding s1(2) by blast
      have r: "r = checkFetched env node b vw2 st" "s' = s2"
        using run True by (simp_all add: bind_act_apply(1) [of m, OF one(1)] bind_act_apply(1) [of "fetchInputUtxos parse ?txs (height_of node) vw1", OF two(1)] act_defs)
      show ?thesis
        using same_ledger_trans [OF one(3) two(2)] loaded_trans [OF one(4) two(3)] checkFetched_Ok [of env node b vw2 st] r by metis
    qed
  qed
qed

lemma attach_checked:
  assumes "cache_inv parse s" and "view_ok (ledger parse s) vw" and "overlay vw (ledger parse s) = U"
    and "proper (height_of node) (b_txs b)" and "inOrder (b_txs b)" and "onceEach (b_txs b)"
    and "checkConnectBlock parse env node b vw st s = (r, s')"
  shows "same_ledger parse s s' \<and> (\<forall>vw' st'. r = Ok (Inr (vw', st')) \<longrightarrow> canConnect U (height_of node) (b_txs b) \<and>
    view_ok (ledger parse s) vw' \<and> overlay vw' (ledger parse s) = ledgerBlock (b_txs b) (height_of node) U \<and> v_bestHash vw' = hash_of node)"
proof (intro conjI allI impI)
  note l = check_loads [OF assms(1,2,4,7)]
  then show "same_ledger parse s s'" by blast
  fix vw' st'
  assume "r = Ok (Inr (vw', st'))"
  with l obtain vw2 v where vw2: "loaded (ledger parse s) (b_txs b) vw vw2"
    "checkValues (rulesParams (ce_rules env)) (height_of node) (b_txs b) (v_entries vw2, st) = Ok (Inr (v, st'))"
    "vw' = SetBestHash (hash_of node) (vw2\<lparr>v_entries := v\<rparr>)" by blast
  note says = says_loaded [OF vw2(1) assms(3)]
  obtain fees where "connectLoop (rulesParams (ce_rules env)) (height_of node) (b_txs b) (v_entries vw2, st) 0 = Ok (Inr ((v, st'), fees))"
    using vw2(2) by (auto simp: checkValues_def Let_def split: outcome.splits sum.splits if_splits)
  from checked_connects [OF this says assms(5,6)]
  have c: "connectTransactions (b_txs b) (height_of node) (v_entries vw2, st) = Ok (v, st')" "canConnect U (height_of node) (b_txs b)" by simp_all
  show "canConnect U (height_of node) (b_txs b)" by fact
  have "view_ok (ledger parse s) (vw2\<lparr>v_entries := v\<rparr>)"
    using connected_fine [OF c(1) proper_txs(1) [OF assms(4)], of "ledger parse s" vw2] vw2(1) by (simp add: loaded_def)
  then show "view_ok (ledger parse s) vw'" by (simp add: vw2(3) SetBestHash_def)
  show "overlay vw' (ledger parse s) = ledgerBlock (b_txs b) (height_of node) U"
    using says_all [OF c(1) says assms(5)] by (simp add: vw2(3) SetBestHash_def)
  show "v_bestHash vw' = hash_of node" by (simp add: vw2(3) SetBestHash_def)
qed

end
