(* ===== verification/Coin_State.thy ===== *)
theory Coin_State
  imports Coin_Block
begin

text \<open>
  The state of the chain in the database (\<open>src/btcd/blockchain/chainio.go\<close>, \<open>blockindex.go\<close> and
  \<open>src/btcd/wire/blockheader.go\<close>): the main chain by height and by hash, the best state, the rows of the block index.
  A hash is an array of 32 bytes.  The lemmas show that what is written is read back.
\<close>

subsection \<open>Integers as bytes\<close>

text \<open>\<open>PutUint32\<close> and \<open>PutUint64\<close> in the order of the database, the lowest byte first.\<close>

definition putLE :: "nat \<Rightarrow> nat \<Rightarrow> octets" where
  "putLE k n = map (\<lambda>i. of_nat (n div 256 ^ i)) [0 ..< k]"

definition big_Bytes :: "int \<Rightarrow> octets" where
  "big_Bytes n = rev (putLE (byteLen (nat \<bar>n\<bar>)) (nat \<bar>n\<bar>))"

definition big_SetBytes :: "octets \<Rightarrow> int" where
  "big_SetBytes bs = int (littleEndian (rev bs))"

subsection \<open>The main chain by height and by hash\<close>

definition dbPutBlockIndex :: "octets \<Rightarrow> int \<Rightarrow> bucket \<times> bucket \<Rightarrow> bucket \<times> bucket" where
  "dbPutBlockIndex h height b = (case b of (hashIndex, heightIndex) \<Rightarrow>
     let serializedHeight = putLE 4 (unat (word_of_int height :: 32 word)) in
     (hashIndex(h \<mapsto> serializedHeight), heightIndex(serializedHeight \<mapsto> h)))"

definition dbRemoveBlockIndex :: "octets \<Rightarrow> int \<Rightarrow> bucket \<times> bucket \<Rightarrow> bucket \<times> bucket" where
  "dbRemoveBlockIndex h height b = (case b of (hashIndex, heightIndex) \<Rightarrow>
     let serializedHeight = putLE 4 (unat (word_of_int height :: 32 word)) in
     (hashIndex(h := None), heightIndex(serializedHeight := None)))"

definition dbFetchHeightByHash :: "octets \<Rightarrow> bucket \<times> bucket \<Rightarrow> int outcome" where
  "dbFetchHeightByHash h b = (case fst b h of
      None \<Rightarrow> Err ''not in the main chain''
    | Some bs \<Rightarrow> if length bs < 4 then Panic ''index out of range'' else Ok (sint (of_nat (littleEndian (take 4 bs)) :: 32 word)))"

definition dbFetchHashByHeight :: "int \<Rightarrow> bucket \<times> bucket \<Rightarrow> octets outcome" where
  "dbFetchHashByHeight height b = (case snd b (putLE 4 (unat (word_of_int height :: 32 word))) of
      None \<Rightarrow> Err ''no block at height exists''
    | Some bs \<Rightarrow> Ok (take 32 (bs @ replicate 32 0)))"

subsection \<open>The best state\<close>

record bestChainState =
  bcs_hash :: octets
  bcs_height :: "32 word"
  bcs_totalTxns :: "64 word"
  bcs_workSum :: int

definition serializeBestChainState :: "bestChainState \<Rightarrow> octets" where
  "serializeBestChainState state =
    (let workSumBytes = big_Bytes (bcs_workSum state) in
     bcs_hash state @ putLE 4 (unat (bcs_height state)) @ putLE 8 (unat (bcs_totalTxns state)) @ putLE 4 (length workSumBytes) @ workSumBytes)"

definition deserializeBestChainState :: "octets \<Rightarrow> bestChainState outcome" where
  "deserializeBestChainState data =
    (if length data < 32 + 16 then Err ''corrupt best chain state''
     else
       let workSumBytesLen = (of_nat (littleEndian (take 4 (drop 44 data))) :: 32 word);
           hi = 48 + workSumBytesLen in
       if (of_nat (length (drop 48 data)) :: 32 word) < workSumBytesLen then Err ''corrupt best chain state''
       else if hi < 48 then Panic ''slice bounds out of range''
       else Ok \<lparr>bcs_hash = take 32 data, bcs_height = of_nat (littleEndian (take 4 (drop 32 data))),
         bcs_totalTxns = of_nat (littleEndian (take 8 (drop 36 data))),
         bcs_workSum = big_SetBytes (take (unat workSumBytesLen) (drop 48 data))\<rparr>)"

record BestState =
  bs_Hash :: octets
  bs_Height :: int
  bs_Bits :: "32 word"
  bs_BlockSize :: "64 word"
  bs_BlockWeight :: "64 word"
  bs_NumTxns :: "64 word"
  bs_TotalTxns :: "64 word"
  bs_MedianTime :: int

definition newBestState :: "blockNode \<Rightarrow> 64 word \<Rightarrow> 64 word \<Rightarrow> 64 word \<Rightarrow> 64 word \<Rightarrow> int \<Rightarrow> BestState" where
  "newBestState node blockSize blockWeight numTxns totalTxns medianTime =
    \<lparr>bs_Hash = hash_of node, bs_Height = height_of node, bs_Bits = n_bits (blk node), bs_BlockSize = blockSize,
     bs_BlockWeight = blockWeight, bs_NumTxns = numTxns, bs_TotalTxns = totalTxns, bs_MedianTime = medianTime\<rparr>"

text \<open>The value stored under the key of the chain state.\<close>

definition dbPutBestState :: "BestState \<Rightarrow> int \<Rightarrow> octets" where
  "dbPutBestState snapshot workSum = serializeBestChainState
     \<lparr>bcs_hash = bs_Hash snapshot, bcs_height = word_of_int (bs_Height snapshot), bcs_totalTxns = bs_TotalTxns snapshot, bcs_workSum = workSum\<rparr>"

subsection \<open>The rows of the block index\<close>

definition writeBlockHeader :: "BlockHeader \<Rightarrow> octets" where
  "writeBlockHeader h = putLE 4 (unat (word_of_int (bh_Version h) :: 32 word)) @ bh_PrevBlock h @ bh_MerkleRoot h @
     putLE 4 (unat (word_of_int (bh_Timestamp h) :: 32 word)) @ putLE 4 (unat (bh_Bits h)) @ putLE 4 (unat (bh_Nonce h))"

definition readBlockHeader :: "octets \<Rightarrow> (BlockHeader \<times> octets) outcome" where
  "readBlockHeader r =
    (if length r < 80 then Err (if length r \<in> {0, 4, 36, 68, 72, 76} then ''EOF'' else ''unexpected EOF'')
     else Ok (\<lparr>bh_Version = sint (of_nat (littleEndian (take 4 r)) :: 32 word), bh_PrevBlock = take 32 (drop 4 r),
       bh_MerkleRoot = take 32 (drop 36 r), bh_Timestamp = int (littleEndian (take 4 (drop 68 r))),
       bh_Bits = of_nat (littleEndian (take 4 (drop 72 r))), bh_Nonce = of_nat (littleEndian (take 4 (drop 76 r)))\<rparr>, drop 80 r))"

definition blockIndexKey :: "octets \<Rightarrow> 32 word \<Rightarrow> octets" where
  "blockIndexKey blockHash height = rev (putLE 4 (unat height)) @ blockHash"

definition dbStoreBlockNode :: "blockIndex \<Rightarrow> blockNode \<Rightarrow> bucket \<Rightarrow> bucket" where
  "dbStoreBlockNode bi node b =
    b(blockIndexKey (hash_of node) (word_of_int (height_of node)) \<mapsto> writeBlockHeader (nodeHeader node) @ [NodeStatus node bi])"

definition deserializeBlockRow :: "octets \<Rightarrow> (BlockHeader \<times> blockStatus) outcome" where
  "deserializeBlockRow blockRow = (case readBlockHeader blockRow of
      Ok (h, []) \<Rightarrow> Err ''EOF''
    | Ok (h, s # _) \<Rightarrow> Ok (h, s)
    | Err e \<Rightarrow> Err e | Panic e \<Rightarrow> Panic e | Blocked \<Rightarrow> Blocked)"

text \<open>The nodes are written in the order in which the dirty set is iterated.\<close>

definition flushToDB :: "blockNode list \<Rightarrow> blockIndex \<times> bucket \<Rightarrow> blockIndex \<times> bucket" where
  "flushToDB order s = (case s of (bi, b) \<Rightarrow>
     if bi_dirty bi = {} then s else (bi\<lparr>bi_dirty := {}\<rparr>, fold (dbStoreBlockNode bi) order b))"

subsection \<open>What is written is read back\<close>

lemma putLE_length [simp]: "length (putLE k n) = k"
  by (simp add: putLE_def)

lemma putLE_Suc: "putLE (Suc k) n = of_nat n # putLE k (n div 256)"
  by (rule nth_equalityI) (auto simp: putLE_def nth_Cons' div_mult2_eq [symmetric] simp del: upt_Suc split: nat.split simp flip: power_Suc)

lemma putLE_read: "littleEndian (putLE k n) = n mod 256 ^ k"
proof (induction k arbitrary: n)
  case (Suc k)
  have "littleEndian (putLE (Suc k) n) = n mod 256 + 256 * (n div 256 mod 256 ^ k)"
    unfolding putLE_Suc by (simp add: Suc unat_of_nat)
  also have "\<dots> = n mod 256 ^ Suc k" by (simp add: mod_mult2_eq)
  finally show ?case .
qed (simp add: putLE_def)

lemma putLE_word: "littleEndian (putLE 4 (unat (w :: 32 word))) = unat w" "littleEndian (putLE 8 (unat (v :: 64 word))) = unat v"
  using unsigned_less [of w, where ?'a = nat] unsigned_less [of v, where ?'a = nat] by (simp_all add: putLE_read)

lemma putLE_inj: "putLE 4 (unat (w :: 32 word)) = putLE 4 (unat w') \<longleftrightarrow> w = w'"
  by (metis putLE_word(1) unsigned_word_eqI)

lemma big_roundtrip: "big_SetBytes (big_Bytes n) = \<bar>n\<bar>"
proof (cases "n = 0")
  case False
  then show ?thesis using byteLen_bounds [of "nat \<bar>n\<bar>"] by (simp add: big_SetBytes_def big_Bytes_def putLE_read)
qed (simp add: big_SetBytes_def big_Bytes_def byteLen.simps putLE_def)

lemma best_state_roundtrip:
  assumes "length (bcs_hash st) = 32" and "0 \<le> bcs_workSum st" and "bcs_workSum st < 256 ^ 64"
  shows "deserializeBestChainState (serializeBestChainState st) = Ok st"
proof -
  let ?b = "big_Bytes (bcs_workSum st)" and ?d = "serializeBestChainState st"
  let ?h = "putLE 4 (unat (bcs_height st))" and ?t = "putLE 8 (unat (bcs_totalTxns st))" and ?l = "putLE 4 (length ?b)"
  have "nat (bcs_workSum st) < 256 ^ 64" using assms(2,3) by (simp only: nat_less_iff) simp
  then have len: "length ?b \<le> 64" using byteLen_le [of "nat (bcs_workSum st)" 64] assms(2) by (simp add: big_Bytes_def)
  have d: "?d = bcs_hash st @ ?h @ ?t @ ?l @ ?b" by (simp add: serializeBestChainState_def Let_def)
  have parts: "take 32 ?d = bcs_hash st" "take 4 (drop 32 ?d) = ?h" "take 8 (drop 36 ?d) = ?t" "take 4 (drop 44 ?d) = ?l" "drop 48 ?d = ?b"
    using assms(1) by (simp_all add: d)
  have n: "littleEndian ?l = length ?b" using len by (simp add: putLE_read)
  have w: "unat (of_nat (length ?b) :: 32 word) = length ?b" using len by (simp add: unat_of_nat)
  have "unat (48 + of_nat (length ?b) :: 32 word) = 48 + length ?b"
    using w len by (subst unat_plus_if') simp
  then have hi: "\<not> (48 + of_nat (length ?b) :: 32 word) < 48" by (simp add: word_less_nat_alt)
  show ?thesis unfolding deserializeBestChainState_def Let_def parts n
    using assms(1,2) hi w by (simp add: d putLE_word big_roundtrip)
qed

lemma header_roundtrip:
  assumes "length (bh_PrevBlock h) = 32" and "length (bh_MerkleRoot h) = 32" and "bh_Version h \<in> {- (2 ^ 31) ..< 2 ^ 31}" and "bh_Timestamp h \<in> {0 ..< 2 ^ 32}"
  shows "readBlockHeader (writeBlockHeader h @ rest) = Ok (h, rest)"
proof -
  let ?v = "putLE 4 (unat (word_of_int (bh_Version h) :: 32 word))" and ?t = "putLE 4 (unat (word_of_int (bh_Timestamp h) :: 32 word))"
  let ?b = "putLE 4 (unat (bh_Bits h))" and ?n = "putLE 4 (unat (bh_Nonce h))" and ?d = "writeBlockHeader h @ rest"
  have d: "?d = ?v @ bh_PrevBlock h @ bh_MerkleRoot h @ ?t @ ?b @ ?n @ rest" by (simp add: writeBlockHeader_def)
  have parts: "take 4 ?d = ?v" "take 32 (drop 4 ?d) = bh_PrevBlock h" "take 32 (drop 36 ?d) = bh_MerkleRoot h" "take 4 (drop 68 ?d) = ?t"
    "take 4 (drop 72 ?d) = ?b" "take 4 (drop 76 ?d) = ?n" "drop 80 ?d = rest" "\<not> length ?d < 80"
    using assms(1,2) by (simp_all add: d)
  have v: "sint (word_of_int (bh_Version h) :: 32 word) = bh_Version h"
    using sint_word32 [of "bh_Version h"] assms(3) by simp
  have t: "uint (word_of_int (bh_Timestamp h) :: 32 word) = bh_Timestamp h"
    using assms(4) by (simp add: uint_word_of_int)
  show ?thesis unfolding readBlockHeader_def parts using parts(8) by (simp add: putLE_word v t del: length_append)
qed

lemma height_index_roundtrip:
  assumes "height \<in> {- (2 ^ 31) ..< 2 ^ 31}" and "length h = 32"
  shows "dbFetchHeightByHash h (dbPutBlockIndex h height b) = Ok height" "dbFetchHashByHeight height (dbPutBlockIndex h height b) = Ok h"
proof -
  have "sint (word_of_int height :: 32 word) = height" using sint_word32 [of height] assms(1) by simp
  then show "dbFetchHeightByHash h (dbPutBlockIndex h height b) = Ok height" "dbFetchHashByHeight height (dbPutBlockIndex h height b) = Ok h"
    using assms(2) by (cases b; simp add: dbFetchHeightByHash_def dbPutBlockIndex_def dbFetchHashByHeight_def Let_def putLE_word)+
qed
end
