(* ===== verification/Coin_Chain.thy ===== *)
theory Coin_Chain
  imports Coin_Undo Coin_State
begin

text \<open>
  The chain of blocks (\<open>src/btcd/blockchain/chain.go\<close>): connecting a block to the end of the best chain, disconnecting the last one,
  verifying and carrying out a reorganisation, and choosing between the branches by their work.

  The record \<open>BlockChain\<close> has the fields of the struct that change, with the cache of unspent outputs and the block index,
  the buckets of the database (\<open>db_\<dots>\<close>; the bucket of unspent outputs is a field of the cache), and the notifications that were sent.
  Blocks are stored decoded.  A transaction of the database that fails leaves the database as it was, but not the memory.
  A rule error is a value of the result (\<open>Inl\<close>, or \<open>Some\<close> where nothing else is returned), any other error is an \<open>Err\<close>.
  The database itself does not fail.

  The record \<open>chainEnv\<close> holds what comes from elsewhere: what the checks of a block need for each node (deployments, scripts, checkpoints),
  the clock, the warning of unknown rules, the choice of the blocks to prune, the optional indexes, the lookup of an output by the hash of its transaction
  alone, and the orders in which Go iterates over the set of changed nodes and over a view.
\<close>

declare split_paired_All [simp del] split_paired_Ex [simp del]

subsection \<open>The chain\<close>

datatype notification = NTBlockAccepted block | NTBlockConnected block | NTBlockDisconnected block

record BlockChain =
  bc_index :: blockIndex
  bc_bestChain :: chainView
  bc_utxoCache :: utxoCache
  bc_stateSnapshot :: BestState
  bc_pruneTarget :: "64 word"
  bc_sent :: "notification list"
  db_blocks :: "octets \<rightharpoonup> block"
  db_spendJournal :: bucket
  db_mainChain :: "bucket \<times> bucket"
  db_chainState :: "octets option"
  db_blockIndex :: bucket

record chainEnv =
  che_connect :: "blockNode \<Rightarrow> connectEnv"
  che_adjusted :: int
  che_now :: int
  che_warnUnknownRules :: "blockNode \<Rightarrow> string option"
  che_PruneBlocks :: "64 word \<Rightarrow> (octets \<rightharpoonup> block) \<Rightarrow> octets list"
  che_indexConnect :: "block \<Rightarrow> SpentTxOut list \<Rightarrow> string option"
  che_indexDisconnect :: "block \<Rightarrow> SpentTxOut list \<Rightarrow> string option"
  che_fetchByHash :: "octets \<Rightarrow> UtxoEntry option outcome"
  che_dirty :: "blockNode set \<Rightarrow> blockNode list"
  che_entries :: "view \<Rightarrow> (outpoint \<times> UtxoEntry option) list"

definition on_cache :: "(utxoCache, 'a) act \<Rightarrow> (BlockChain, 'a) act" where
  "on_cache m s = (case m (bc_utxoCache s) of (r, c) \<Rightarrow> (r, s\<lparr>bc_utxoCache := c\<rparr>))"

definition on_index :: "(blockIndex \<Rightarrow> blockIndex) \<Rightarrow> (BlockChain, unit) act" where
  "on_index f = upd_act (\<lambda>s. s\<lparr>bc_index := f (bc_index s)\<rparr>)"

definition dbRollback :: "BlockChain \<Rightarrow> BlockChain \<Rightarrow> BlockChain" where
  "dbRollback s s' = s'\<lparr>bc_utxoCache := (bc_utxoCache s')\<lparr>utxoBucket := utxoBucket (bc_utxoCache s), stateConsistency := stateConsistency (bc_utxoCache s)\<rparr>,
     db_blocks := db_blocks s, db_spendJournal := db_spendJournal s, db_mainChain := db_mainChain s, db_chainState := db_chainState s,
     db_blockIndex := db_blockIndex s\<rparr>"

definition dbUpdate :: "(BlockChain, 'a) act \<Rightarrow> (BlockChain, 'a) act" where
  "dbUpdate m s = (case m s of (Ok x, s') \<Rightarrow> (Ok x, s') | (r, s') \<Rightarrow> (r, dbRollback s s'))"

definition flushIndex :: "chainEnv \<Rightarrow> (BlockChain, unit) act" where
  "flushIndex env = upd_act (\<lambda>s. case flushToDB (che_dirty env (bi_dirty (bc_index s))) (bc_index s, db_blockIndex s) of
     (bi, b) \<Rightarrow> s\<lparr>bc_index := bi, db_blockIndex := b\<rparr>)"

definition sendNotification :: "notification \<Rightarrow> (BlockChain, unit) act" where
  "sendNotification n = upd_act (\<lambda>s. s\<lparr>bc_sent := bc_sent s @ [n]\<rparr>)"

definition SetTip :: "blockNode \<Rightarrow> (BlockChain, unit) act" where
  "SetTip node s = (case setTip node (bc_bestChain s) of
      Ok c \<Rightarrow> (Ok (), s\<lparr>bc_bestChain := c\<rparr>)
    | Err e \<Rightarrow> (Err e, s) | Panic e \<Rightarrow> (Panic e, s) | Blocked \<Rightarrow> (Blocked, s))"

definition dbFetchBlockByNode :: "blockNode \<Rightarrow> (BlockChain, block) act" where
  "dbFetchBlockByNode node s =
    (if node = NoNode then Panic ''nil pointer dereference''
     else case db_blocks s (hash_of node) of None \<Rightarrow> Err ''block does not exist'' | Some b \<Rightarrow> Ok b, s)"

definition isCurrent :: "chainEnv \<Rightarrow> chainView \<Rightarrow> bool" where
  "isCurrent env c =
    (if (case ce_checkpoint (che_connect env (tip c)) of Some h \<Rightarrow> height_of (tip c) < h | None \<Rightarrow> False) then False
     else n_timestamp (blk (tip c)) \<ge> (che_adjusted env - 24 * 60 * 60 * second) div second)"

subsection \<open>Connecting and disconnecting a block\<close>

definition flushNeededAfterPrune :: "octets list \<Rightarrow> blockIndex \<Rightarrow> octets \<Rightarrow> bool" where
  "flushNeededAfterPrune deletedHashes bi lastFlush =
    (let node = LookupNode lastFlush bi in
     if node = NoNode then True
     else let highest = fold (\<lambda>h m. let n = LookupNode h bi in if n = NoNode then m else if height_of n > m then height_of n else m)
                deletedHashes (-1) in
       highest \<ge> height_of node)"

definition pruneOldBlocks :: "(octets \<Rightarrow> octets option) \<Rightarrow> chainEnv \<Rightarrow> BestState \<Rightarrow> (BlockChain, unit) act" where
  "pruneOldBlocks parse env state = (\<lambda>s.
     if bc_pruneTarget s = 0 then (Ok (), s)
     else let deleted = che_PruneBlocks env (bc_pruneTarget s) (db_blocks s);
              s1 = s\<lparr>db_blocks := db_blocks s |` (- set deleted)\<rparr> in
       if deleted = [] then (Ok (), s1)
       else let s2 = s1\<lparr>db_spendJournal := dbPruneSpendJournalEntry deleted (db_spendJournal s1)\<rparr> in
         if flushNeededAfterPrune deleted (bc_index s2) (lastFlushHash (bc_utxoCache s2))
         then on_cache (cache_flush parse (che_now env) FlushRequired (bs_Hash state)) s2
         else (Ok (), s2))"

definition bestStateOf :: "blockNode \<Rightarrow> block \<Rightarrow> 64 word \<Rightarrow> int \<Rightarrow> BestState" where
  "bestStateOf node b totalTxns medianTime = newBestState node (of_nat (block_SerializeSize (b_txs b))) (of_nat (GetBlockWeight (b_txs b)))
     (of_nat (length (b_txs b))) totalTxns medianTime"

definition connectBlock :: "(octets \<Rightarrow> octets option) \<Rightarrow> chainEnv \<Rightarrow> blockNode \<Rightarrow> block \<Rightarrow> SpentTxOut list \<Rightarrow> (BlockChain, unit) act" where
  "connectBlock parse env node b stxos = (\<lambda>s.
     if tip (bc_bestChain s) = NoNode then (Panic ''nil pointer dereference'', s)
     else if bh_PrevBlock (b_header b) \<noteq> hash_of (tip (bc_bestChain s)) then (Err ''connectBlock must be called with a block that extends the main chain'', s)
     else if length stxos \<noteq> countSpentOutputs (b_txs b) then (Err ''connectBlock called with inconsistent spent transaction out information'', s)
     else
       (bind_act (if isCurrent env (bc_bestChain s) then lift_err (che_warnUnknownRules env node) else ret_act ()) (\<lambda>_.
        bind_act (flushIndex env) (\<lambda>_.
        bind_act (lift_out (CalcPastMedianTime node)) (\<lambda>medianTime.
        let state = bestStateOf node b (bs_TotalTxns (bc_stateSnapshot s) + of_nat (length (b_txs b))) medianTime in
        bind_act (dbUpdate (
          bind_act (pruneOldBlocks parse env state) (\<lambda>_.
          bind_act (upd_act (\<lambda>s. s\<lparr>db_chainState := Some (dbPutBestState state (n_workSum (blk node))),
              db_mainChain := dbPutBlockIndex (b_hash b) (height_of node) (db_mainChain s),
              db_spendJournal := dbPutSpendJournalEntry parse (b_hash b) stxos (db_spendJournal s)\<rparr>)) (\<lambda>_.
          lift_err (che_indexConnect env b stxos))))) (\<lambda>_.
        bind_act (SetTip node) (\<lambda>_.
        bind_act (upd_act (\<lambda>s. s\<lparr>bc_stateSnapshot := state\<rparr>)) (\<lambda>_.
        bind_act (sendNotification (NTBlockConnected b)) (\<lambda>_.
        dbUpdate (on_cache (cache_flush parse (che_now env) FlushIfNeeded (bs_Hash state))))))))))) s)"

definition putUtxoView :: "(octets \<Rightarrow> octets option) \<Rightarrow> chainEnv \<Rightarrow> UtxoViewpoint \<Rightarrow> (BlockChain, unit) act" where
  "putUtxoView parse env vw = (\<lambda>s. case dbPutUtxoView parse (che_entries env (v_entries vw)) (utxoBucket (bc_utxoCache s)) of
      Ok b \<Rightarrow> (Ok (), s\<lparr>bc_utxoCache := (bc_utxoCache s)\<lparr>utxoBucket := b\<rparr>\<rparr>)
    | Err e \<Rightarrow> (Err e, s) | Panic e \<Rightarrow> (Panic e, s) | Blocked \<Rightarrow> (Blocked, s))"

definition disconnectBlock :: "(octets \<Rightarrow> octets option) \<Rightarrow> chainEnv \<Rightarrow> blockNode \<Rightarrow> block \<Rightarrow> UtxoViewpoint \<Rightarrow> (BlockChain, UtxoViewpoint) act" where
  "disconnectBlock parse env node b vw = (\<lambda>s.
     if tip (bc_bestChain s) = NoNode then (Panic ''nil pointer dereference'', s)
     else if hash_of node \<noteq> hash_of (tip (bc_bestChain s)) then (Err ''disconnectBlock must be called with the block at the end of the main chain'', s)
     else
       (bind_act (dbFetchBlockByNode (n_parent node)) (\<lambda>prevBlock.
        bind_act (flushIndex env) (\<lambda>_.
        bind_act (lift_out (CalcPastMedianTime (n_parent node))) (\<lambda>medianTime.
        let state = bestStateOf (n_parent node) prevBlock (bs_TotalTxns (bc_stateSnapshot s) - of_nat (length (b_txs b))) medianTime in
        bind_act (dbUpdate (
          bind_act (upd_act (\<lambda>s. s\<lparr>db_chainState := Some (dbPutBestState state (n_workSum (blk node))),
              db_mainChain := dbRemoveBlockIndex (b_hash b) (height_of node) (db_mainChain s)\<rparr>)) (\<lambda>_.
          bind_act (on_cache (cache_flush parse (che_now env) FlushRequired (bs_Hash state))) (\<lambda>_.
          bind_act (putUtxoView parse env vw) (\<lambda>_.
          bind_act (\<lambda>s. (dbFetchSpendJournalEntry parse (db_spendJournal s) (b_hash b) (b_txs b), s)) (\<lambda>stxos.
          bind_act (upd_act (\<lambda>s. s\<lparr>db_spendJournal := dbRemoveSpendJournalEntry (b_hash b) (db_spendJournal s)\<rparr>)) (\<lambda>_.
          lift_err (che_indexDisconnect env b stxos)))))))) (\<lambda>_.
        bind_act (SetTip (n_parent node)) (\<lambda>_.
        bind_act (upd_act (\<lambda>s. s\<lparr>bc_stateSnapshot := state\<rparr>)) (\<lambda>_.
        bind_act (sendNotification (NTBlockDisconnected b)) (\<lambda>_. ret_act (v_commit vw)))))))) s))"

subsection \<open>Reorganising\<close>

fun attachLoop :: "blockIndex \<Rightarrow> blockNode \<Rightarrow> blockNode \<Rightarrow> blockNode list \<Rightarrow> bool \<times> blockNode list" where
  "attachLoop bi forkNode NoNode attach = (False, attach)"
| "attachLoop bi forkNode (BlockNode f p a) attach =
    (if BlockNode f p a = forkNode then (False, attach)
     else if KnownInvalid (NodeStatus (BlockNode f p a) bi) then (True, attach)
     else attachLoop bi forkNode p (BlockNode f p a # attach))"

fun detachLoop :: "blockNode \<Rightarrow> blockNode \<Rightarrow> blockNode list" where
  "detachLoop forkNode NoNode = []"
| "detachLoop forkNode (BlockNode f p a) = (if BlockNode f p a = forkNode then [] else BlockNode f p a # detachLoop forkNode p)"

definition getReorganizeNodes :: "blockNode \<Rightarrow> (BlockChain, blockNode list \<times> blockNode list) act" where
  "getReorganizeNodes node = (\<lambda>s.
     if n_parent node = NoNode then (Panic ''nil pointer dereference'', s)
     else if KnownInvalid (NodeStatus (n_parent node) (bc_index s))
     then (Ok ([], []), s\<lparr>bc_index := SetStatusFlags node statusInvalidAncestor (bc_index s)\<rparr>)
     else let forkNode = findFork node (bc_bestChain s) in
       case attachLoop (bc_index s) forkNode node [] of
         (True, attach) \<Rightarrow> (Ok ([], []), s\<lparr>bc_index := fold (\<lambda>n. SetStatusFlags n statusInvalidAncestor) attach (bc_index s)\<rparr>)
       | (False, attach) \<Rightarrow> (Ok (detachLoop forkNode (tip (bc_bestChain s)), attach), s))"

text \<open>The blocks to detach with their journals, and the view without them.\<close>

fun verifyDetach :: "(octets \<Rightarrow> octets option) \<Rightarrow> chainEnv \<Rightarrow> blockNode list \<Rightarrow> UtxoViewpoint \<Rightarrow>
  (BlockChain, (block \<times> SpentTxOut list) list \<times> UtxoViewpoint) act" where
  "verifyDetach parse env [] vw = ret_act ([], vw)"
| "verifyDetach parse env (n # ns) vw =
    bind_act (dbFetchBlockByNode n) (\<lambda>b.
      if hash_of n \<noteq> b_hash b then fail_act ''detach block node hash does not match previous parent block hash''
      else bind_act (on_cache (fetchInputUtxos parse (b_txs b) (height_of n) vw)) (\<lambda>vw1.
        bind_act (\<lambda>s. (dbFetchSpendJournalEntry parse (db_spendJournal s) (b_hash b) (b_txs b), s)) (\<lambda>stxos.
        bind_act (lift_out (disconnectTransactions (che_fetchByHash env) (b_txs b) (height_of n) (bh_PrevBlock (b_header b)) stxos vw1)) (\<lambda>vw2.
        bind_act (verifyDetach parse env ns vw2) (\<lambda>(bs, vw3). ret_act ((b, stxos) # bs, vw3))))))"

fun verifyAttach :: "(octets \<Rightarrow> octets option) \<Rightarrow> chainEnv \<Rightarrow> blockNode list \<Rightarrow> UtxoViewpoint \<Rightarrow> (BlockChain, block_error + block list) act" where
  "verifyAttach parse env [] vw = ret_act (Inr [])"
| "verifyAttach parse env (n # ns) vw =
    bind_act (dbFetchBlockByNode n) (\<lambda>b.
    bind_act (get_act (\<lambda>s. KnownValid (NodeStatus n (bc_index s)))) (\<lambda>valid.
      let next = (\<lambda>vw'. bind_act (verifyAttach parse env ns vw') (\<lambda>r. ret_act (map_sum id ((#) b) r))) in
      if valid then
        bind_act (on_cache (fetchInputUtxos parse (b_txs b) (height_of n) vw)) (\<lambda>vw1.
        bind_act (lift_out (connectTransactions (b_txs b) (height_of n) (v_entries vw1, []))) (\<lambda>(v, _).
        next (SetBestHash (b_hash b) (vw1\<lparr>v_entries := v\<rparr>))))
      else
        bind_act (on_cache (checkConnectBlock parse (che_connect env n) n b vw [])) (\<lambda>r. case r of
          Inl e \<Rightarrow> bind_act (on_index (\<lambda>bi. fold (\<lambda>dn. SetStatusFlags dn statusInvalidAncestor) ns (SetStatusFlags n statusValidateFailed bi)))
            (\<lambda>_. ret_act (Inl e))
        | Inr (vw1, _) \<Rightarrow> bind_act (on_index (SetStatusFlags n statusValid)) (\<lambda>_. next vw1))))"

definition verifyReorganizationValidity :: "(octets \<Rightarrow> octets option) \<Rightarrow> chainEnv \<Rightarrow> blockNode list \<Rightarrow> blockNode list \<Rightarrow>
  (BlockChain, block_error + (block \<times> SpentTxOut list) list \<times> block list) act" where
  "verifyReorganizationValidity parse env detachNodes attachNodes = (\<lambda>s.
     let t = tip (bc_bestChain s) in
     if detachNodes = [] \<and> attachNodes = [] then (Ok (Inr ([], [])), s)
     else if t = NoNode then (Panic ''nil pointer dereference'', s)
     else if detachNodes \<noteq> [] \<and> hash_of (hd detachNodes) \<noteq> hash_of t
     then (Err ''reorganize nodes to detach are not for the current best chain'', s)
     else if attachNodes \<noteq> [] \<and> detachNodes \<noteq> [] \<and> (n_parent (hd attachNodes) = NoNode \<or> n_parent (last detachNodes) = NoNode)
     then (Panic ''nil pointer dereference'', s)
     else if attachNodes \<noteq> [] \<and> detachNodes \<noteq> [] \<and> hash_of (n_parent (hd attachNodes)) \<noteq> hash_of (n_parent (last detachNodes))
     then (Err ''reorganize nodes do not have the same fork point'', s)
     else bind_act (verifyDetach parse env detachNodes (SetBestHash (hash_of t) NewUtxoViewpoint)) (\<lambda>(bs, vw).
       bind_act (verifyAttach parse env attachNodes vw) (\<lambda>r. ret_act (map_sum id (\<lambda>abs. (bs, abs)) r))) s)"

fun detachAll :: "(octets \<Rightarrow> octets option) \<Rightarrow> chainEnv \<Rightarrow> (blockNode \<times> block \<times> SpentTxOut list) list \<Rightarrow> UtxoViewpoint \<Rightarrow> (BlockChain, unit) act" where
  "detachAll parse env [] vw = ret_act ()"
| "detachAll parse env ((n, b, stxos) # ns) vw =
    bind_act (on_cache (fetchInputUtxos parse (b_txs b) (height_of n) vw)) (\<lambda>vw1.
    bind_act (lift_out (disconnectTransactions (che_fetchByHash env) (b_txs b) (height_of n) (bh_PrevBlock (b_header b)) stxos vw1)) (\<lambda>vw2.
    bind_act (disconnectBlock parse env n b vw2) (detachAll parse env ns)))"

definition attachBlock :: "(octets \<Rightarrow> octets option) \<Rightarrow> chainEnv \<Rightarrow> blockNode \<Rightarrow> block \<Rightarrow> (BlockChain, unit) act" where
  "attachBlock parse env n b =
    bind_act (on_cache (cache_connectTransactions parse (b_txs b) (height_of n) (Some []))) (\<lambda>stxos. connectBlock parse env n b (the stxos))"

fun attachAll :: "(octets \<Rightarrow> octets option) \<Rightarrow> chainEnv \<Rightarrow> (blockNode \<times> block) list \<Rightarrow> (BlockChain, unit) act" where
  "attachAll parse env [] = ret_act ()"
| "attachAll parse env ((n, b) # ns) = bind_act (attachBlock parse env n b) (\<lambda>_. attachAll parse env ns)"

definition reorganizeChain :: "(octets \<Rightarrow> octets option) \<Rightarrow> chainEnv \<Rightarrow> blockNode list \<Rightarrow> blockNode list \<Rightarrow> (BlockChain, block_error option) act" where
  "reorganizeChain parse env detachNodes attachNodes =
    bind_act (verifyReorganizationValidity parse env detachNodes attachNodes) (\<lambda>r. case r of
      Inl e \<Rightarrow> ret_act (Some e)
    | Inr (detachBlocks, attachBlocks) \<Rightarrow> (\<lambda>s.
        if tip (bc_bestChain s) = NoNode then (Panic ''nil pointer dereference'', s)
        else (bind_act (detachAll parse env (zip detachNodes detachBlocks) (SetBestHash (hash_of (tip (bc_bestChain s))) NewUtxoViewpoint)) (\<lambda>_.
          bind_act (attachAll parse env (zip attachNodes attachBlocks)) (\<lambda>_. ret_act None))) s))"

text \<open>Extending the main chain by a block that is considered valid.\<close>

definition connectValidated :: "(octets \<Rightarrow> octets option) \<Rightarrow> chainEnv \<Rightarrow> blockNode \<Rightarrow> block \<Rightarrow> bool \<Rightarrow> (BlockChain, block_error + bool) act" where
  "connectValidated parse env node b fastAdd =
    bind_act (on_cache (cache_connectTransactions parse (b_txs b) (height_of node) (Some []))) (\<lambda>stxos.
    bind_act (\<lambda>s. case connectBlock parse env node b (the stxos) s of (Err e, s') \<Rightarrow> (Err e, snd (flushIndex env s')) | r \<Rightarrow> r) (\<lambda>_.
    bind_act (get_act (\<lambda>s. KnownValid (NodeStatus node (bc_index s)))) (\<lambda>valid.
      if fastAdd \<or> \<not> valid
      then bind_act (on_index (SetStatusFlags node statusValid)) (\<lambda>_. bind_act (flushIndex env) (\<lambda>_. ret_act (Inr True)))
      else ret_act (Inr True))))"

definition connectBestChain :: "(octets \<Rightarrow> octets option) \<Rightarrow> chainEnv \<Rightarrow> blockNode \<Rightarrow> block \<Rightarrow> bool \<Rightarrow> (BlockChain, block_error + bool) act" where
  "connectBestChain parse env node b fastAdd = (\<lambda>s.
     let t = tip (bc_bestChain s); parentHash = bh_PrevBlock (b_header b) in
     if t = NoNode then (Panic ''nil pointer dereference'', s)
     else if parentHash = hash_of t then
       (if fastAdd \<or> KnownValid (NodeStatus node (bc_index s)) then connectValidated parse env node b True s
        else (bind_act (on_cache (checkConnectBlock parse (che_connect env node) node b (SetBestHash parentHash NewUtxoViewpoint) [])) (\<lambda>r. case r of
            Inl e \<Rightarrow> bind_act (on_index (SetStatusFlags node statusValidateFailed)) (\<lambda>_. bind_act (flushIndex env) (\<lambda>_. ret_act (Inl e)))
          | Inr _ \<Rightarrow> bind_act (on_index (SetStatusFlags node statusValid)) (\<lambda>_. bind_act (flushIndex env) (\<lambda>_.
              connectValidated parse env node b False)))) s)
     else if n_workSum (blk node) \<le> n_workSum (blk t) then
       (if findFork node (bc_bestChain s) = NoNode then (Panic ''nil pointer dereference'', s) else (Ok (Inr False), s))
     else (bind_act (getReorganizeNodes node) (\<lambda>(detachNodes, attachNodes). \<lambda>s1.
       case reorganizeChain parse env detachNodes attachNodes s1 of
         (Ok None, s2) \<Rightarrow> (Ok (Inr True), snd (flushIndex env s2))
       | (Ok (Some e), s2) \<Rightarrow> (Ok (Inl e), snd (flushIndex env s2))
       | (Err e, s2) \<Rightarrow> (Err e, snd (flushIndex env s2))
       | (Panic e, s2) \<Rightarrow> (Panic e, s2)
       | (Blocked, s2) \<Rightarrow> (Blocked, s2))) s)"

end
