(* ===== verification/Coin_Reorg.thy ===== *)
theory Coin_Reorg
  imports Coin_Chain "HOL-Library.List_Lexorder" "HOL-Library.Product_Lexorder"
begin

text \<open>
  Reorganisations of the chain.  The ledger of a branch is what its blocks leave unspent, one after the other, from the genesis
  block.  The invariant of the chain says that the chain view holds the branch of its tip, that cache and database represent
  the ledger of this branch, that the database alone has the ledger of some block of it, and that the spend journal of every
  block is stored.  The lemmas take it through every step: detaching the last block restores the ledger of its parent,
  attaching a block leads to its own, and verifying changes nothing but the cache and the marks of the index.

  It is assumed that the blocks of a branch are stored, have passed the context-free checks, and that no two transactions of a
  branch have the same hash.  The checks that connect a block do not ensure that it spends only what comes before it: a
  view in which the outputs of a later transaction of the block are already entered lets it pass, and the cache then refuses it half-way.
  The theorems therefore ask this of the blocks to be attached that are not marked as valid; of connected blocks it is proved.
\<close>

declare split_paired_All [simp del] split_paired_Ex [simp del]

subsection \<open>The ledger of a branch\<close>

text \<open>The unspent outputs after the blocks of a branch, from its genesis block, whose outputs cannot be spent.\<close>

definition txsAt :: "(octets \<rightharpoonup> block) \<Rightarrow> blockNode \<Rightarrow> MsgTx list" where
  "txsAt B n = b_txs (the (B (hash_of n)))"

fun ledgerAt :: "(octets \<rightharpoonup> block) \<Rightarrow> blockNode \<Rightarrow> view" where
  "ledgerAt B NoNode = Map.empty"
| "ledgerAt B (BlockNode f p a) =
    (if p = NoNode then Map.empty else ledgerBlock (txsAt B (BlockNode f p a)) (n_height f) (ledgerAt B p))"

text \<open>The block of a node is in the database under its hash, names the parent, and has the form that the context-free checks leave:
  the coinbase first, different hashes, outputs that can be stored, no input twice in a transaction.\<close>

definition stored_block :: "(octets \<rightharpoonup> block) \<Rightarrow> blockNode \<Rightarrow> bool" where
  "stored_block B m \<longleftrightarrow> 0 \<le> n_workSum (blk m) \<and> n_workSum (blk m) < 256 ^ 64 \<and> (\<exists>b. B (hash_of m) = Some b \<and> b_hash b = hash_of m \<and> (n_parent m \<noteq> NoNode \<longrightarrow>
     bh_PrevBlock (b_header b) = hash_of (n_parent m) \<and> proper (height_of m) (b_txs b) \<and> onceEach (b_txs b)))"

text \<open>A branch whose blocks are stored and well-formed, with different hashes and no transaction twice in it.  The last is what the height in
  the coinbase gives above the BIP34 height; below it the code only checks that no unspent output is overwritten.\<close>

definition branch_ok :: "(octets \<rightharpoonup> block) \<Rightarrow> blockNode \<Rightarrow> bool" where
  "branch_ok B n \<longleftrightarrow> block_ok n \<and> (\<forall>m \<in> set (lineage n). stored_block B m) \<and> distinct (map hash_of (lineage n)) \<and>
     (\<forall>m \<in> set (lineage n). \<forall>m' \<in> set (lineage n). m \<noteq> m' \<longrightarrow> n_parent m \<noteq> NoNode \<longrightarrow> n_parent m' \<noteq> NoNode \<longrightarrow>
       tx_hash ` set (txsAt B m) \<inter> tx_hash ` set (txsAt B m') = {})"

definition connectable :: "(octets \<rightharpoonup> block) \<Rightarrow> blockNode \<Rightarrow> bool" where
  "connectable B m \<longleftrightarrow> canConnect (ledgerAt B (n_parent m)) (height_of m) (txsAt B m)"

definition blockAt :: "(octets \<rightharpoonup> block) \<Rightarrow> blockNode \<Rightarrow> block" where
  "blockAt B n = the (B (hash_of n))"

text \<open>The best state of the tip, in memory and in the database.  The work that is stored is not that of the tip after a block was disconnected.\<close>

definition synced :: "blockNode \<Rightarrow> BlockChain \<Rightarrow> bool" where
  "synced t s \<longleftrightarrow> (\<exists>medianTime total work. CalcPastMedianTime t = Ok medianTime \<and> 0 \<le> work \<and> work < 256 ^ 64 \<and>
     bc_stateSnapshot s = bestStateOf t (blockAt (db_blocks s) t) total medianTime \<and>
     db_chainState s = Some (dbPutBestState (bc_stateSnapshot s) work))"

lemma syncedI:
  "CalcPastMedianTime t = Ok mt \<Longrightarrow> 0 \<le> w \<and> w < 256 ^ 64 \<Longrightarrow> bc_stateSnapshot s = bestStateOf t (blockAt (db_blocks s) t) k mt \<Longrightarrow>
    db_chainState s = Some (dbPutBestState (bc_stateSnapshot s) w) \<Longrightarrow> synced t s"
  unfolding synced_def by blast

lemma synced_upd [simp]:
  "synced t (s\<lparr>bc_utxoCache := c\<rparr>) = synced t s" "synced t (s\<lparr>bc_index := bi\<rparr>) = synced t s" "synced t (s\<lparr>db_blockIndex := d\<rparr>) = synced t s"
  by (simp_all add: synced_def)

text \<open>The chain with the tip \<open>t\<close>: cache and database have the ledger of its branch, the database alone that of the block
  whose hash it has as the last consistent one, and every block has its journal.\<close>

definition chain_inv :: "(octets \<Rightarrow> octets option) \<Rightarrow> blockNode \<Rightarrow> BlockChain \<Rightarrow> bool" where
  "chain_inv parse t s \<longleftrightarrow> t \<noteq> NoNode \<and> cache_inv parse (bc_utxoCache s) \<and> view_of t (bc_bestChain s) \<and> branch_ok (db_blocks s) t \<and>
     ledger parse (bc_utxoCache s) = ledgerAt (db_blocks s) t \<and>
     (\<exists>m \<in> set (lineage t). dbCoins parse (bc_utxoCache s) = ledgerAt (db_blocks s) m \<and>
        stateConsistency (bc_utxoCache s) = Some (hash_of m)) \<and> synced t s \<and>
     (\<forall>m \<in> set (lineage t). n_parent m \<noteq> NoNode \<longrightarrow> connectable (db_blocks s) m \<and>
        dbFetchSpendJournalEntry parse (db_spendJournal s) (hash_of m) (txsAt (db_blocks s) m) =
          Ok (blockSpends (ledgerAt (db_blocks s) (n_parent m)) (height_of m) (txsAt (db_blocks s) m)))"

lemma lineage_self: "n \<noteq> NoNode \<Longrightarrow> lineage n = n # lineage (n_parent n)"
  by (cases n) simp_all

lemma lineage_some: "m \<in> set (lineage n) \<Longrightarrow> m \<noteq> NoNode"
  by (induction n) auto

lemma ledgerAt_step: "n_parent n \<noteq> NoNode \<Longrightarrow> ledgerAt B n = ledgerBlock (txsAt B n) (height_of n) (ledgerAt B (n_parent n))"
  by (cases n) simp_all

lemma branch_parent: "branch_ok B n \<Longrightarrow> n_parent n \<noteq> NoNode \<Longrightarrow> branch_ok B (n_parent n)"
  by (cases n) (auto simp: branch_ok_def)

lemma branch_mem: "branch_ok B n \<Longrightarrow> m \<in> set (lineage n) \<Longrightarrow> branch_ok B m"
proof (induction n)
  case (BlockNode f p a)
  show ?case
  proof (cases "m = BlockNode f p a")
    case False
    then have "m \<in> set (lineage p)" "p \<noteq> NoNode" using BlockNode.prems(2) by auto
    then show ?thesis using BlockNode.IH(1) branch_parent [OF BlockNode.prems(1)] by simp
  qed (use BlockNode.prems in simp)
qed simp

lemma branch_block:
  assumes "branch_ok B n" and "n \<noteq> NoNode"
  obtains b where "B (hash_of n) = Some b" "b_hash b = hash_of n" "txsAt B n = b_txs b"
    and "n_parent n \<noteq> NoNode \<Longrightarrow> bh_PrevBlock (b_header b) = hash_of (n_parent n) \<and> proper (height_of n) (b_txs b) \<and> onceEach (b_txs b)"
proof -
  have "stored_block B n" using assms lineage_self [OF assms(2)] by (simp add: branch_ok_def)
  then show thesis using that by (auto simp: stored_block_def txsAt_def)
qed

lemma branch_height: "branch_ok B n \<Longrightarrow> n_parent n \<noteq> NoNode \<Longrightarrow> 0 < height_of n"
  using block_ok_nonneg [of "n_parent n"] by (cases n) (auto simp: branch_ok_def)

lemma ledgerAt_hash: "ledgerAt B n p \<noteq> None \<Longrightarrow> \<exists>m \<in> set (lineage n). n_parent m \<noteq> NoNode \<and> fst p \<in> tx_hash ` set (txsAt B m)"
proof (induction n)
  case (BlockNode f p' a)
  let ?n = "BlockNode f p' a"
  show ?case
  proof (cases "p' \<noteq> NoNode \<and> p \<in> made (txsAt B ?n)")
    case True
    then show ?thesis using made_hash [of p "txsAt B ?n"] by auto
  next
    case False
    then have "ledgerAt B p' p \<noteq> None"
      using BlockNode.prems ledgerBlock_other [of p "txsAt B ?n" "ledgerAt B p'" "n_height f"] by (cases "ledgerAt B p' p") (auto split: if_splits)
    then show ?thesis using BlockNode.IH(1) by auto
  qed
qed simp

lemma branch_fresh:
  assumes "branch_ok B n" and "n_parent n \<noteq> NoNode" and "m \<in> set (lineage (n_parent n))" and "tx \<in> set (txsAt B n)"
  shows "ledgerAt B m (tx_hash tx, j) = None"
proof (rule ccontr)
  assume "ledgerAt B m (tx_hash tx, j) \<noteq> None"
  then obtain k where k: "k \<in> set (lineage m)" "n_parent k \<noteq> NoNode" "tx_hash tx \<in> tx_hash ` set (txsAt B k)"
    using ledgerAt_hash [of B m "(tx_hash tx, j)"] by auto
  have sub: "x \<in> set (lineage y) \<Longrightarrow> y \<in> set (lineage z) \<Longrightarrow> x \<in> set (lineage z)" for x y z by (induction z) auto
  obtain f p a where n: "n = BlockNode f p a" using assms(2) by (cases n) auto
  have kp: "k \<in> set (lineage p)" using sub [OF k(1) assms(3)] n by simp
  moreover have "hash_of n \<notin> hash_of ` set (lineage p)" using assms(1) n by (simp add: branch_ok_def)
  ultimately have "n \<noteq> k" by blast
  moreover have "n \<in> set (lineage n)" "k \<in> set (lineage n)" using n kp by simp_all
  ultimately have "tx_hash ` set (txsAt B n) \<inter> tx_hash ` set (txsAt B k) = {}"
    using assms(1,2) k(2) unfolding branch_ok_def by blast
  then show False using assms(4) k(3) by blast
qed

lemma ledgerAt_storable: "branch_ok B n \<Longrightarrow> storable_coins (ledgerAt B n)"
proof (induction n)
  case (BlockNode f p a)
  let ?n = "BlockNode f p a"
  have run: "storable_coins U \<Longrightarrow> ht \<noteq> 0 \<Longrightarrow> \<forall>tx \<in> set txs. storable_tx ht tx \<Longrightarrow> storable_coins (ledgerBlock txs ht U)" for U ht txs
    by (induction txs arbitrary: U) (simp_all add: ledgerTx_storable)
  show ?case
  proof (cases "p = NoNode")
    case False
    then have p: "n_parent ?n \<noteq> NoNode" by simp
    have "stored_block B ?n" using BlockNode.prems by (simp add: branch_ok_def)
    then obtain b :: block where b: "txsAt B ?n = b_txs b" "proper (height_of ?n) (b_txs b)" using p by (auto simp: stored_block_def txsAt_def)
    have "storable_coins (ledgerAt B p)" using BlockNode.IH(1) branch_parent [OF BlockNode.prems p] by simp
    then show ?thesis using run [of "ledgerAt B p" "n_height f" "b_txs b"] branch_height [OF BlockNode.prems p] proper_txs(1) [OF b(2)] False b(1) by simp
  qed (simp add: storable_coins_def coins_ok_def)
qed (simp add: storable_coins_def coins_ok_def)

lemma branch_made:
  assumes "branch_ok B n" and "n_parent n \<noteq> NoNode" and "p \<in> made (txsAt B n)"
  shows "ledgerAt B (n_parent n) p = None"
proof -
  obtain tx where tx: "tx \<in> set (txsAt B n)" "fst p = tx_hash tx" using made_hash [OF assms(3)] by auto
  have "n_parent n \<in> set (lineage (n_parent n))" using assms(2) lineage_self by simp
  from branch_fresh [OF assms(1,2) this tx(1), of "snd p"] tx(2) show ?thesis by (metis prod.collapse)
qed

lemma view_tip: "view_of t c \<Longrightarrow> tip c = t"
  by (cases t) (auto simp: view_of_def tip_def nth_append)

lemma chain_tip: "chain_inv parse t s \<Longrightarrow> tip (bc_bestChain s) = t \<and> t \<noteq> NoNode"
  by (simp add: chain_inv_def view_tip)

lemma medianTime_Ok: "n \<noteq> NoNode \<Longrightarrow> \<exists>m. CalcPastMedianTime n = Ok m"
  by (cases n) (simp_all add: CalcPastMedianTime_def medianTimeBlocks_def numeral_eq_Suc Let_def)

text \<open>What a block of the branch satisfies before it is connected.\<close>

lemma block_at:
  assumes "branch_ok B n" and "n_parent n \<noteq> NoNode"
  obtains b where "B (hash_of n) = Some b" "b_hash b = hash_of n" "txsAt B n = b_txs b" "bh_PrevBlock (b_header b) = hash_of (n_parent n)"
    "proper (height_of n) (b_txs b)" "onceEach (b_txs b)" "storable_coins (ledgerAt B (n_parent n))" "height_of n \<noteq> 0"
    "\<forall>p \<in> made (b_txs b). ledgerAt B (n_parent n) p = None" "\<forall>tx \<in> set (b_txs b). \<forall>j. ledgerAt B (n_parent n) (tx_hash tx, j) = None"
    "ledgerAt B n = ledgerBlock (b_txs b) (height_of n) (ledgerAt B (n_parent n))"
proof -
  have "n \<noteq> NoNode" using assms(2) by auto
  then obtain b where b: "B (hash_of n) = Some b" "b_hash b = hash_of n" "txsAt B n = b_txs b"
    "bh_PrevBlock (b_header b) = hash_of (n_parent n)" "proper (height_of n) (b_txs b)" "onceEach (b_txs b)"
    using branch_block [OF assms(1)] assms(2) by metis
  have "n_parent n \<in> set (lineage (n_parent n))" using assms(2) lineage_self by simp
  then have "\<forall>tx \<in> set (b_txs b). \<forall>j. ledgerAt B (n_parent n) (tx_hash tx, j) = None"
    using branch_fresh [OF assms] b(3) by simp
  moreover have "\<forall>p \<in> made (b_txs b). ledgerAt B (n_parent n) p = None" using branch_made [OF assms] b(3) by simp
  moreover have "height_of n \<noteq> 0" using branch_height [OF assms] by simp
  moreover have "storable_coins (ledgerAt B (n_parent n))" using ledgerAt_storable [OF branch_parent [OF assms]] .
  moreover have "ledgerAt B n = ledgerBlock (b_txs b) (height_of n) (ledgerAt B (n_parent n))" using ledgerAt_step [OF assms(2)] b(3) by metis
  ultimately show thesis using that b by blast
qed

text \<open>A block that can be connected spends only outputs of what comes before.\<close>

lemma canConnect_inOrder:
  "canConnect U ht txs \<Longrightarrow> distinct (map tx_hash txs) \<Longrightarrow> \<forall>tx \<in> set txs. \<forall>j. U (tx_hash tx, j) = None \<Longrightarrow> inOrder txs"
proof (induction txs arbitrary: U)
  case (Cons tx txs)
  have "fst p \<notin> tx_hash ` set (tx # txs)" if "p \<in> spentOutpoints tx" for p
  proof
    assume "fst p \<in> tx_hash ` set (tx # txs)"
    then obtain k where "k \<in> set (tx # txs)" "fst p = tx_hash k" by auto
    then have "U p = None" using Cons.prems(3) by (metis prod.collapse)
    then show False using Cons.prems(1) that by (auto simp: canSpend_def spentOutpoints_def split: if_splits)
  qed
  moreover have "\<forall>k \<in> set txs. \<forall>j. ledgerTx tx ht U (tx_hash k, j) = None"
  proof (intro ballI allI)
    fix k j assume k: "k \<in> set txs"
    have "tx_hash k \<noteq> tx_hash tx" using Cons.prems(2) imageI [OF k, of tx_hash] by fastforce
    moreover have "U (tx_hash k, j) = None" using Cons.prems(3) k by simp
    ultimately
    show "ledgerTx tx ht U (tx_hash k, j) = None" using ledgerBlock_other [of "(tx_hash k, j)" "[tx]" U ht] made_hash [of "(tx_hash k, j)" "[tx]"]
      by auto
  qed
  ultimately show ?case using Cons.IH [of "ledgerTx tx ht U"] Cons.prems by simp
qed simp

lemma connectable_inOrder:
  assumes "branch_ok B n" and "n_parent n \<noteq> NoNode" and "connectable B n"
  shows "inOrder (txsAt B n)"
proof -
  obtain b :: block where b: "txsAt B n = b_txs b" "proper (height_of n) (b_txs b)" "\<forall>tx \<in> set (b_txs b). \<forall>j. ledgerAt B (n_parent n) (tx_hash tx, j) = None"
    using block_at [OF assms(1,2)] by metis
  then show ?thesis using assms(3) canConnect_inOrder [of "ledgerAt B (n_parent n)" "height_of n" "b_txs b"] proper_txs(3) [OF b(2)]
    by (simp add: connectable_def)
qed

lemma consistency_upd:
  "dbCoins parse (c\<lparr>stateConsistency := x\<rparr>) = dbCoins parse c" "ledger parse (c\<lparr>stateConsistency := x\<rparr>) = ledger parse c"
  "cache_inv parse (c\<lparr>stateConsistency := x\<rparr>) = cache_inv parse c"
proof -
  show db: "dbCoins parse (c\<lparr>stateConsistency := x\<rparr>) = dbCoins parse c" by (simp add: dbCoins_def)
  show "ledger parse (c\<lparr>stateConsistency := x\<rparr>) = ledger parse c" by (rule ext) (simp add: ledger_def db split: option.split)
  show "cache_inv parse (c\<lparr>stateConsistency := x\<rparr>) = cache_inv parse c" by (simp add: cache_inv_def db)
qed

subsection \<open>Disconnecting the last block\<close>

text \<open>What the theorems ask of the surroundings: the entries of a view are enumerated, and the optional indexes and the warnings of
  unknown rules report no error.\<close>

definition env_ok :: "chainEnv \<Rightarrow> bool" where
  "env_ok env \<longleftrightarrow> enumerates (che_entries env) \<and> (\<forall>n. che_warnUnknownRules env n = None) \<and>
     (\<forall>b st. che_indexConnect env b st = None \<and> che_indexDisconnect env b st = None)"

text \<open>What no step of a reorganisation changes.\<close>

definition keeps :: "BlockChain \<Rightarrow> BlockChain \<Rightarrow> bool" where
  "keeps s s' \<longleftrightarrow> db_blocks s' = db_blocks s \<and> bi_status (bc_index s') = bi_status (bc_index s) \<and> bc_pruneTarget s' = bc_pruneTarget s"

lemma keeps_trans: "keeps s s1 \<Longrightarrow> keeps s1 s2 \<Longrightarrow> keeps s s2"
  by (simp add: keeps_def)

lemma flushIndex_eq: "\<exists>bi d. flushIndex env s = (Ok (), s\<lparr>bc_index := bi, db_blockIndex := d\<rparr>) \<and> bi_status bi = bi_status (bc_index s)"
proof (cases "bi_dirty (bc_index s) = {}")
  case True
  then show ?thesis by (intro exI [of _ "bc_index s"] exI [of _ "db_blockIndex s"]) (simp add: flushIndex_def flushToDB_def act_defs)
qed (auto simp: flushIndex_def flushToDB_def act_defs)

lemma fetch_removed: "h \<noteq> h' \<Longrightarrow> dbFetchSpendJournalEntry parse (dbRemoveSpendJournalEntry h j) h' txs = dbFetchSpendJournalEntry parse j h' txs"
  by (simp add: dbFetchSpendJournalEntry_def dbRemoveSpendJournalEntry_def)

lemma branch_apart:
  assumes "branch_ok B n" and "n \<noteq> NoNode" and "m \<in> set (lineage (n_parent n))"
  shows "hash_of m \<noteq> hash_of n"
proof -
  have "distinct (map hash_of (n # lineage (n_parent n)))" using assms(1) lineage_self [OF assms(2)] by (metis branch_ok_def)
  then have "hash_of n \<notin> hash_of ` set (lineage (n_parent n))" by simp
  then show ?thesis using assms(3) by (metis imageI)
qed

lemma chain_parent:
  assumes "chain_inv parse n s" and "n_parent n \<noteq> NoNode" and "branch_ok (db_blocks s) n"
    and "cache_inv parse c" and "ledger parse c = ledgerAt (db_blocks s) (n_parent n)" and "dbCoins parse c = ledger parse c"
    and "stateConsistency c = Some (hash_of (n_parent n))" and "view_of (n_parent n) v" and "synced (n_parent n) s'"
    and "bc_utxoCache s' = c" and "bc_bestChain s' = v" and "db_blocks s' = db_blocks s"
    and "db_spendJournal s' = dbRemoveSpendJournalEntry (hash_of n) (db_spendJournal s)"
  shows "chain_inv parse (n_parent n) s'"
proof -
  have n: "n \<noteq> NoNode" using assms(2) by auto
  have sub: "set (lineage (n_parent n)) \<subseteq> set (lineage n)" "n_parent n \<in> set (lineage (n_parent n))"
    using lineage_self [OF n] lineage_self [OF assms(2)] by auto
  have "dbFetchSpendJournalEntry parse (db_spendJournal s') (hash_of m) txs = dbFetchSpendJournalEntry parse (db_spendJournal s) (hash_of m) txs"
    if "m \<in> set (lineage (n_parent n))" for m txs
    using branch_apart [OF assms(3) n that] fetch_removed [of "hash_of n" "hash_of m"] assms(13) by simp
  then show ?thesis
    using assms sub branch_parent [OF assms(3,2)] unfolding chain_inv_def by (auto 4 3)
qed

lemma branch_work: "branch_ok B n \<Longrightarrow> n \<noteq> NoNode \<Longrightarrow> 0 \<le> n_workSum (blk n) \<and> n_workSum (blk n) < 256 ^ 64"
  using lineage_self [of n] by (simp add: branch_ok_def stored_block_def)

lemma disconnectBlock_spec:
  assumes "env_ok env" and "key_laws parse" and "chain_inv parse n s" and "n_parent n \<noteq> NoNode" and "db_blocks s (hash_of n) = Some b"
    and "view_ok (ledger parse (bc_utxoCache s)) vw" and "overlay vw (ledger parse (bc_utxoCache s)) = ledgerAt (db_blocks s) (n_parent n)"
  shows "\<exists>s'. disconnectBlock parse env n b vw s = (Ok (v_commit vw), s') \<and> chain_inv parse (n_parent n) s' \<and> keeps s s'"
proof -
  let ?c = "bc_utxoCache s" and ?B = "db_blocks s"
  have inv: "cache_inv parse ?c" "view_of n (bc_bestChain s)" "branch_ok ?B n" "tip (bc_bestChain s) = n" "n \<noteq> NoNode"
    using assms(3) chain_tip [OF assms(3)] by (simp_all add: chain_inv_def)
  obtain pb where pb: "?B (hash_of (n_parent n)) = Some pb" using branch_block [OF branch_parent [OF inv(3) assms(4)] assms(4)] by metis
  have b: "b_hash b = hash_of n" "txsAt ?B n = b_txs b" using branch_block [OF inv(3,5)] assms(5) by (metis option.inject)+
  obtain mt where mt: "CalcPastMedianTime (n_parent n) = Ok mt" using medianTime_Ok [OF assms(4)] by blast
  let ?st = "bestStateOf (n_parent n) pb (bs_TotalTxns (bc_stateSnapshot s) - of_nat (length (b_txs b))) mt"
  obtain bi d where f: "flushIndex env s = (Ok (), s\<lparr>bc_index := bi, db_blockIndex := d\<rparr>)" "bi_status bi = bi_status (bc_index s)"
    using flushIndex_eq by blast
  obtain c1 where c1: "cache_flush parse (che_now env) FlushRequired (bs_Hash ?st) ?c = (Ok (), c1)" "cache_inv parse c1"
    "ledger parse c1 = ledger parse ?c" "dbCoins parse c1 = ledger parse c1" "ms_length (cachedEntries c1) = 0"
    "stateConsistency c1 = Some (bs_Hash ?st)"
    using flush_spec [OF inv(1), of "che_now env" FlushRequired "bs_Hash ?st"] by auto
  obtain k where k: "dbPutUtxoView parse (che_entries env (v_entries vw)) (utxoBucket c1) = Ok k" "cache_inv parse (c1\<lparr>utxoBucket := k\<rparr>)"
    "dbCoins parse (c1\<lparr>utxoBucket := k\<rparr>) = ledgerAt ?B (n_parent n)" "ledger parse (c1\<lparr>utxoBucket := k\<rparr>) = ledgerAt ?B (n_parent n)"
    using written_view [OF c1(2) assms(2) _ _ c1(4,5), of "che_entries env" vw] assms(1,6,7) c1(3) by (auto simp: env_ok_def)
  have "n \<in> set (lineage n)" using lineage_self [OF inv(5)] by simp
  then obtain stx where j: "dbFetchSpendJournalEntry parse (db_spendJournal s) (b_hash b) (b_txs b) = Ok stx"
    using assms(3,4) b unfolding chain_inv_def by metis
  obtain v where v: "setTip (n_parent n) (bc_bestChain s) = Ok v" "view_of (n_parent n) v"
    using setTip_spec [OF inv(2), of "n_parent n"] inv(3) by (cases n) (auto simp: branch_ok_def)
  define s' where "s' = s\<lparr>bc_index := bi, db_blockIndex := d, db_chainState := Some (dbPutBestState ?st (n_workSum (blk n))),
    db_mainChain := dbRemoveBlockIndex (b_hash b) (height_of n) (db_mainChain s), bc_utxoCache := c1\<lparr>utxoBucket := k\<rparr>,
    db_spendJournal := dbRemoveSpendJournalEntry (b_hash b) (db_spendJournal s), bc_bestChain := v, bc_stateSnapshot := ?st,
    bc_sent := bc_sent s @ [NTBlockDisconnected b]\<rparr>"
  have "disconnectBlock parse env n b vw s = (Ok (v_commit vw), s')"
    using inv(4,5) pb mt f(1) c1(1) k(1) j v(1) assms(1,4)
    by (simp add: disconnectBlock_def dbFetchBlockByNode_def bind_act_def act_defs Let_def dbUpdate_def on_cache_def putUtxoView_def SetTip_def
        sendNotification_def env_ok_def lift_err_def s'_def)
  moreover have "chain_inv parse (n_parent n) s'"
  proof (rule chain_parent [OF assms(3,4) inv(3) k(2) k(4) _ _ v(2)])
    have "bs_Hash ?st = hash_of (n_parent n)" by (simp add: bestStateOf_def newBestState_def)
    then show "stateConsistency (c1\<lparr>utxoBucket := k\<rparr>) = Some (hash_of (n_parent n))" using c1(6) by simp
    show "synced (n_parent n) s'"
      by (rule syncedI [OF mt branch_work [OF inv(3,5)]]) (simp_all add: s'_def blockAt_def pb)
  qed (simp_all add: s'_def b(1) k(3,4))
  moreover have "keeps s s'" using f(2) by (simp add: keeps_def s'_def)
  ultimately show ?thesis by blast
qed

subsection \<open>Detaching blocks\<close>

text \<open>The nodes from \<open>t\<close> down to the child of \<open>f\<close>, and those from the child of \<open>f\<close> up to \<open>t\<close>.\<close>

fun pathDown :: "blockNode \<Rightarrow> blockNode list \<Rightarrow> blockNode \<Rightarrow> bool" where
  "pathDown t [] f \<longleftrightarrow> t = f"
| "pathDown t (n # ns) f \<longleftrightarrow> n = t \<and> n_parent t \<noteq> NoNode \<and> pathDown (n_parent t) ns f"

fun pathUp :: "blockNode \<Rightarrow> blockNode list \<Rightarrow> blockNode \<Rightarrow> bool" where
  "pathUp f [] t \<longleftrightarrow> f = t"
| "pathUp f (n # ns) t \<longleftrightarrow> n_parent n = f \<and> pathUp n ns t"

definition spendsAt :: "(octets \<rightharpoonup> block) \<Rightarrow> blockNode \<Rightarrow> SpentTxOut list" where
  "spendsAt B n = blockSpends (ledgerAt B (n_parent n)) (height_of n) (txsAt B n)"

lemma blockAt_txs: "b_txs (blockAt B n) = txsAt B n"
  by (simp add: blockAt_def txsAt_def)

lemma blockAt_stored: "branch_ok B n \<Longrightarrow> n_parent n \<noteq> NoNode \<Longrightarrow> B (hash_of n) = Some (blockAt B n) \<and> b_hash (blockAt B n) = hash_of n"
  by (erule (1) block_at) (simp add: blockAt_def)

lemma chain_inv_cache: "chain_inv parse t s \<Longrightarrow> same_ledger parse (bc_utxoCache s) c \<Longrightarrow> chain_inv parse t (s\<lparr>bc_utxoCache := c\<rparr>)"
  using dbCoins_bucket [of c "bc_utxoCache s" parse] by (simp add: chain_inv_def same_ledger_def)

text \<open>Undoing a block of the branch on a view that says its ledger.\<close>

lemma undo_at:
  assumes "cache_inv parse c" and "view_ok (ledger parse c) vw" and "overlay vw (ledger parse c) = ledgerAt B n"
    and "branch_ok B n" and "n_parent n \<noteq> NoNode" and "connectable B n"
  shows "\<exists>vw1 c1 vw2. fetchInputUtxos parse (txsAt B n) (height_of n) vw c = (Ok vw1, c1) \<and> same_ledger parse c c1 \<and>
    disconnectTransactions f (txsAt B n) (height_of n) (bh_PrevBlock (b_header (blockAt B n))) (spendsAt B n) vw1 = Ok vw2 \<and>
    overlay vw2 (ledger parse c) = ledgerAt B (n_parent n) \<and> view_ok (ledger parse c) vw2 \<and> v_bestHash vw2 = hash_of (n_parent n)"
proof -
  obtain b where b: "B (hash_of n) = Some b" "txsAt B n = b_txs b" "bh_PrevBlock (b_header b) = hash_of (n_parent n)"
    "proper (height_of n) (b_txs b)" "storable_coins (ledgerAt B (n_parent n))" "height_of n \<noteq> 0"
    "\<forall>p \<in> made (b_txs b). ledgerAt B (n_parent n) p = None" "ledgerAt B n = ledgerBlock (b_txs b) (height_of n) (ledgerAt B (n_parent n))"
    using block_at [OF assms(4,5)] by metis
  have "canConnect (ledgerAt B (n_parent n)) (height_of n) (b_txs b)" using assms(6) b(2) by (simp add: connectable_def)
  from disconnect_view [OF assms(1,2) assms(3) [unfolded b(8)] b(4,5,6) this b(7), of f "hash_of (n_parent n)"]
  show ?thesis by (simp add: b(2,3) spendsAt_def blockAt_def b(1))
qed

lemma detach_step:
  assumes "env_ok env" and "key_laws parse" and "chain_inv parse n s" and "n_parent n \<noteq> NoNode"
    and "view_ok (ledger parse (bc_utxoCache s)) vw" and "overlay vw (ledger parse (bc_utxoCache s)) = ledger parse (bc_utxoCache s)"
  shows "\<exists>vw' s'. detachAll parse env ((n, blockAt (db_blocks s) n, spendsAt (db_blocks s) n) # ns) vw s = detachAll parse env ns vw' s' \<and>
    chain_inv parse (n_parent n) s' \<and> keeps s s' \<and> view_ok (ledger parse (bc_utxoCache s')) vw' \<and>
    overlay vw' (ledger parse (bc_utxoCache s')) = ledger parse (bc_utxoCache s')"
proof -
  let ?B = "db_blocks s" and ?c = "bc_utxoCache s"
  have inv: "cache_inv parse ?c" "branch_ok ?B n" "ledger parse ?c = ledgerAt ?B n" "n \<in> set (lineage n)" "connectable ?B n"
    using assms(3,4) lineage_self [of n] by (auto simp: chain_inv_def)
  obtain vw1 c1 vw2 where u: "fetchInputUtxos parse (txsAt ?B n) (height_of n) vw ?c = (Ok vw1, c1)" "same_ledger parse ?c c1"
    "disconnectTransactions (che_fetchByHash env) (txsAt ?B n) (height_of n) (bh_PrevBlock (b_header (blockAt ?B n))) (spendsAt ?B n) vw1 = Ok vw2"
    "overlay vw2 (ledger parse ?c) = ledgerAt ?B (n_parent n)" "view_ok (ledger parse ?c) vw2"
    using undo_at [OF inv(1) assms(5) _ inv(2) assms(4) inv(5)] assms(6) inv(3) by metis
  define s1 where "s1 = s\<lparr>bc_utxoCache := c1\<rparr>"
  have s1: "chain_inv parse n s1" "db_blocks s1 = ?B" "bc_utxoCache s1 = c1" "ledger parse c1 = ledger parse ?c"
    using chain_inv_cache [OF assms(3) u(2)] u(2) by (simp_all add: s1_def same_ledger_def)
  have blk: "?B (hash_of n) = Some (blockAt ?B n)" using blockAt_stored [OF inv(2) assms(4)] by blast
  obtain s2 where s2: "disconnectBlock parse env n (blockAt ?B n) vw2 s1 = (Ok (v_commit vw2), s2)" "chain_inv parse (n_parent n) s2" "keeps s1 s2"
    using disconnectBlock_spec [OF assms(1,2) s1(1) assms(4), of "blockAt ?B n" vw2] blk u(4,5) s1 by auto
  have led: "ledger parse (bc_utxoCache s2) = overlay vw2 (ledger parse ?c)"
    using s2(2,3) s1(2) u(4) by (simp add: chain_inv_def keeps_def)
  have "detachAll parse env ((n, blockAt ?B n, spendsAt ?B n) # ns) vw s = detachAll parse env ns (v_commit vw2) s2"
    using u(1,3) s2(1) by (simp add: bind_act_def act_defs on_cache_def blockAt_txs s1_def)
  moreover have "keeps s s2" using s2(3) by (simp add: keeps_def s1_def)
  ultimately show ?thesis using s2(2) commit_view [OF u(5)] led by metis
qed

lemma detachAll_spec:
  assumes "env_ok env" and "key_laws parse" and "pathDown t ns f" and "chain_inv parse t s"
    and "view_ok (ledger parse (bc_utxoCache s)) vw" and "overlay vw (ledger parse (bc_utxoCache s)) = ledger parse (bc_utxoCache s)"
  shows "\<exists>s'. detachAll parse env (zip ns (map (\<lambda>n. (blockAt (db_blocks s) n, spendsAt (db_blocks s) n)) ns)) vw s = (Ok (), s') \<and>
    chain_inv parse f s' \<and> keeps s s'"
  using assms(3-6)
proof (induction ns arbitrary: t s vw)
  case Nil
  then show ?case by (simp add: act_defs keeps_def)
next
  case (Cons n ns)
  then have n: "n = t" "n_parent t \<noteq> NoNode" "pathDown (n_parent t) ns f" by simp_all
  obtain vw' s1 where s1: "detachAll parse env ((t, blockAt (db_blocks s) t, spendsAt (db_blocks s) t) # ms) vw s = detachAll parse env ms vw' s1"
    "chain_inv parse (n_parent t) s1" "keeps s s1" "view_ok (ledger parse (bc_utxoCache s1)) vw'"
    "overlay vw' (ledger parse (bc_utxoCache s1)) = ledger parse (bc_utxoCache s1)" if "ms = zip ns (map (\<lambda>n. (blockAt (db_blocks s) n, spendsAt (db_blocks s) n)) ns)" for ms
    using detach_step [OF assms(1,2) Cons.prems(2) n(2) Cons.prems(3,4), of "zip ns (map (\<lambda>n. (blockAt (db_blocks s) n, spendsAt (db_blocks s) n)) ns)"] by blast
  note s1 = s1 [OF refl]
  have B: "db_blocks s1 = db_blocks s" using s1(3) by (simp add: keeps_def)
  from Cons.IH [OF n(3) s1(2,4,5)] obtain s2 where
    "detachAll parse env (zip ns (map (\<lambda>n. (blockAt (db_blocks s) n, spendsAt (db_blocks s) n)) ns)) vw' s1 = (Ok (), s2)" "chain_inv parse f s2" "keeps s1 s2"
    unfolding B by blast
  then show ?case using s1(1) keeps_trans [OF s1(3)] n(1) by auto
qed

subsection \<open>Attaching blocks\<close>

lemma flush_db:
  assumes "cache_inv parse s"
  shows "\<exists>s'. cache_flush parse now mode h s = (Ok (), s') \<and> cache_inv parse s' \<and> ledger parse s' = ledger parse s \<and>
    (dbCoins parse s' = dbCoins parse s \<and> stateConsistency s' = stateConsistency s \<or> dbCoins parse s' = ledger parse s \<and> stateConsistency s' = Some h)"
proof -
  obtain s' where w: "writeCache parse now h s = (Ok (), s')" "cache_inv parse s'" "ledger parse s' = ledger parse s" "dbCoins parse s' = ledger parse s"
    "stateConsistency s' = Some h" using writeCache_spec [OF assms] by blast
  have "cache_flush parse now mode h s \<in> {(Ok (), s), (Ok (), s')}"
    using w(1) by (auto simp: cache_flush_def Let_def split: FlushMode.split)
  with w assms show ?thesis by (auto intro: exI [of _ s] exI [of _ s'])
qed

lemma fetch_written:
  "h \<noteq> h' \<Longrightarrow> dbFetchSpendJournalEntry parse (dbPutSpendJournalEntry parse h st j) h' txs = dbFetchSpendJournalEntry parse j h' txs"
  by (simp add: dbFetchSpendJournalEntry_def dbPutSpendJournalEntry_def)

lemma journal_at:
  assumes "key_laws parse" and "branch_ok B n" and "n_parent n \<noteq> NoNode" and "connectable B n"
  shows "dbFetchSpendJournalEntry parse (dbPutSpendJournalEntry parse h (spendsAt B n) j) h (txsAt B n) = Ok (spendsAt B n)"
    "length (spendsAt B n) = countSpentOutputs (txsAt B n)"
proof -
  obtain b where b: "txsAt B n = b_txs b" "B (hash_of n) = Some b" "proper (height_of n) (b_txs b)" "storable_coins (ledgerAt B (n_parent n))" "height_of n \<noteq> 0"
    using block_at [OF assms(2,3)] by metis
  show len: "length (spendsAt B n) = countSpentOutputs (txsAt B n)" using spends_count [OF b(3)] by (simp add: spendsAt_def b(1))
  have "journal_ok (spendsAt B n)"
    using spends_journal [OF b(4,5) proper_txs(1) [OF b(3)]] assms(4) by (simp add: spendsAt_def connectable_def b(1))
  then have "\<forall>t \<in> set (spendsAt B n). storable (st_Amount t) (st_PkScript t) (st_Height t)" by (simp add: journal_ok_def)
  from journal_roundtrip [OF assms(1) this, of "tl (txsAt B n)"] len b(3)
  show "dbFetchSpendJournalEntry parse (dbPutSpendJournalEntry parse h (spendsAt B n) j) h (txsAt B n) = Ok (spendsAt B n)"
    by (simp add: dbFetchSpendJournalEntry_def dbPutSpendJournalEntry_def countSpentOutputs_def b(1) proper_def)
qed

lemma chain_child:
  assumes "chain_inv parse (n_parent n) s" and "branch_ok (db_blocks s) n" and "connectable (db_blocks s) n" and "key_laws parse"
    and "cache_inv parse c" and "ledger parse c = ledgerAt (db_blocks s) n"
    and "dbCoins parse c = dbCoins parse (bc_utxoCache s) \<and> stateConsistency c = stateConsistency (bc_utxoCache s) \<or>
      dbCoins parse c = ledger parse c \<and> stateConsistency c = Some (hash_of n)" and "view_of n v" and "synced n s'"
    and "bc_utxoCache s' = c" and "bc_bestChain s' = v" and "db_blocks s' = db_blocks s"
    and "db_spendJournal s' = dbPutSpendJournalEntry parse (hash_of n) (spendsAt (db_blocks s) n) (db_spendJournal s)"
  shows "chain_inv parse n s'"
proof -
  let ?B = "db_blocks s" and ?p = "n_parent n"
  have p: "?p \<noteq> NoNode" using assms(1) by (simp add: chain_inv_def)
  then have n: "n \<noteq> NoNode" by auto
  have lin: "lineage n = n # lineage ?p" by (rule lineage_self [OF n])
  obtain m where m: "m \<in> set (lineage ?p)" "dbCoins parse (bc_utxoCache s) = ledgerAt ?B m"
    "stateConsistency (bc_utxoCache s) = Some (hash_of m)" using assms(1) by (auto simp: chain_inv_def)
  have db: "\<exists>m \<in> set (lineage n). dbCoins parse c = ledgerAt ?B m \<and> stateConsistency c = Some (hash_of m)"
    using assms(6,7) m lin by (metis list.set_intros)
  have new: "dbFetchSpendJournalEntry parse (db_spendJournal s') (hash_of n) (txsAt ?B n) = Ok (blockSpends (ledgerAt ?B ?p) (height_of n) (txsAt ?B n))"
    using journal_at(1) [OF assms(4,2) p assms(3)] assms(13) by (simp add: spendsAt_def)
  have old: "dbFetchSpendJournalEntry parse (db_spendJournal s') (hash_of k) txs = dbFetchSpendJournalEntry parse (db_spendJournal s) (hash_of k) txs"
    if "k \<in> set (lineage ?p)" for k txs
    using branch_apart [OF assms(2) n that] fetch_written [of "hash_of n" "hash_of k"] assms(13) by simp
  have "connectable ?B k \<and> dbFetchSpendJournalEntry parse (db_spendJournal s') (hash_of k) (txsAt ?B k) =
      Ok (blockSpends (ledgerAt ?B (n_parent k)) (height_of k) (txsAt ?B k))" if "k \<in> set (lineage n)" "n_parent k \<noteq> NoNode" for k
  proof (cases "k = n")
    case True
    then show ?thesis using new assms(3) by simp
  next
    case False
    then have "k \<in> set (lineage ?p)" using that lin by simp
    then show ?thesis using assms(1) that(2) old by (simp add: chain_inv_def)
  qed
  then show ?thesis using assms n db unfolding chain_inv_def by simp
qed

text \<open>Connecting the transactions of a block to the cache of its parent.\<close>

lemma connect_at:
  assumes "key_laws parse" and "branch_ok B n" and "connectable B n" and "n_parent n \<noteq> NoNode" and "cache_inv parse c"
    and "ledger parse c = ledgerAt B (n_parent n)" and "m \<in> set (lineage (n_parent n))" and "dbCoins parse c = ledgerAt B m"
  shows "\<exists>c1. cache_connectTransactions parse (txsAt B n) (height_of n) stxos c = (Ok (map_option (\<lambda>ts. ts @ spendsAt B n) stxos), c1) \<and>
    cache_inv parse c1 \<and> ledger parse c1 = ledgerAt B n \<and> dbCoins parse c1 = dbCoins parse c \<and> stateConsistency c1 = stateConsistency c"
proof -
  let ?txs = "txsAt B n"
  obtain b :: block where b: "?txs = b_txs b" "proper (height_of n) (b_txs b)" "ledgerAt B n = ledgerBlock (b_txs b) (height_of n) (ledgerAt B (n_parent n))"
    using block_at [OF assms(2,4)] by metis
  have "\<forall>tx \<in> set ?txs. \<forall>j. dbCoins parse c (tx_hash tx, j) = None" using branch_fresh [OF assms(2,4,7)] assms(8) by simp
  moreover have "\<forall>tx \<in> set ?txs. storable_tx (height_of n) tx" using proper_txs(1) [OF b(2)] b(1) by simp
  moreover have "canConnect (ledger parse c) (height_of n) ?txs" using assms(3,6) by (simp add: connectable_def)
  ultimately obtain c1 where c1: "cache_connectTransactions parse ?txs (height_of n) stxos c = (Ok (map_option (\<lambda>ts. ts @ spendsAt B n) stxos), c1)"
    "moves parse c (ledgerAt B n) c1"
    using connectBlock_refines [OF assms(5,1), of ?txs "height_of n" stxos] assms(6) b(1,3) by (auto simp: spendsAt_def)
  then show ?thesis using dbCoins_bucket [of c1 c parse] by (auto simp: moves_def)
qed

lemma attachBlock_spec:
  assumes "env_ok env" and "key_laws parse" and "chain_inv parse (n_parent n) s" and "branch_ok (db_blocks s) n"
    and "connectable (db_blocks s) n" and "bc_pruneTarget s = 0"
  shows "\<exists>s'. attachBlock parse env n (blockAt (db_blocks s) n) s = (Ok (), s') \<and> chain_inv parse n s' \<and> keeps s s'"
proof -
  let ?B = "db_blocks s" and ?c = "bc_utxoCache s" and ?p = "n_parent n" and ?txs = "txsAt (db_blocks s) n" and ?b = "blockAt (db_blocks s) n"
  have p: "?p \<noteq> NoNode" "tip (bc_bestChain s) = ?p" using chain_tip [OF assms(3)] by auto
  obtain b where b: "?B (hash_of n) = Some b" "b_hash b = hash_of n" "?txs = b_txs b" "bh_PrevBlock (b_header b) = hash_of ?p"
    "proper (height_of n) (b_txs b)" "ledgerAt ?B n = ledgerBlock (b_txs b) (height_of n) (ledgerAt ?B ?p)"
    using block_at [OF assms(4) p(1)] by metis
  have bb: "?b = b" by (simp add: blockAt_def b(1))
  have inv: "cache_inv parse ?c" "ledger parse ?c = ledgerAt ?B ?p" "view_of ?p (bc_bestChain s)" using assms(3) by (simp_all add: chain_inv_def)
  obtain m where m: "m \<in> set (lineage ?p)" "dbCoins parse ?c = ledgerAt ?B m" using assms(3) by (auto simp: chain_inv_def)
  obtain c1 where c1: "cache_connectTransactions parse ?txs (height_of n) (Some []) ?c = (Ok (Some (spendsAt ?B n)), c1)" and
    m1: "cache_inv parse c1" "ledger parse c1 = ledgerAt ?B n" "dbCoins parse c1 = dbCoins parse ?c" "stateConsistency c1 = stateConsistency ?c"
    using connect_at [OF assms(2,4,5) p(1) inv(1,2) m, of "Some []"] by auto
  obtain mt where mt: "CalcPastMedianTime n = Ok mt" using medianTime_Ok [of n] p(1) by (cases n) auto
  let ?st = "bestStateOf n b (bs_TotalTxns (bc_stateSnapshot s) + of_nat (length (b_txs b))) mt"
  obtain bi d where f: "flushIndex env (s\<lparr>bc_utxoCache := c1\<rparr>) = (Ok (), s\<lparr>bc_utxoCache := c1, bc_index := bi, db_blockIndex := d\<rparr>)" "bi_status bi = bi_status (bc_index s)"
    using flushIndex_eq [of env "s\<lparr>bc_utxoCache := c1\<rparr>"] by auto
  obtain c2 where c2: "cache_flush parse (che_now env) FlushIfNeeded (bs_Hash ?st) c1 = (Ok (), c2)" "cache_inv parse c2" "ledger parse c2 = ledgerAt ?B n"
    "dbCoins parse c2 = dbCoins parse ?c \<and> stateConsistency c2 = stateConsistency ?c \<or>
      dbCoins parse c2 = ledger parse c2 \<and> stateConsistency c2 = Some (hash_of n)"
    using flush_db [OF m1(1), of "che_now env" FlushIfNeeded "bs_Hash ?st"] m1(2-4) by (auto simp: bestStateOf_def newBestState_def)
  obtain v where v: "setTip n (bc_bestChain s) = Ok v" "view_of n v"
    using setTip_spec [OF inv(3), of n] assms(4) by (auto simp: branch_ok_def)
  define s' where "s' = s\<lparr>bc_utxoCache := c2, bc_index := bi, db_blockIndex := d, db_chainState := Some (dbPutBestState ?st (n_workSum (blk n))),
    db_mainChain := dbPutBlockIndex (b_hash b) (height_of n) (db_mainChain s),
    db_spendJournal := dbPutSpendJournalEntry parse (b_hash b) (spendsAt ?B n) (db_spendJournal s), bc_bestChain := v, bc_stateSnapshot := ?st,
    bc_sent := bc_sent s @ [NTBlockConnected b]\<rparr>"
  have "attachBlock parse env n ?b s = (Ok (), s')"
    using c1 p b(4) journal_at(2) [OF assms(2,4) p(1) assms(5)] mt f(1) c2(1) v(1) assms(1,6)
    by (simp add: attachBlock_def connectBlock_def bb b(3) [symmetric] bind_act_def act_defs Let_def dbUpdate_def on_cache_def pruneOldBlocks_def SetTip_def
        sendNotification_def env_ok_def lift_err_def s'_def)
  moreover have "chain_inv parse n s'"
  proof (rule chain_child [OF assms(3,4,5,2) c2(2,3,4) v(2)])
    show "synced n s'"
      by (rule syncedI [OF mt branch_work [OF assms(4)]]) (use p(1) in \<open>auto simp: s'_def blockAt_def b(1)\<close>)
  qed (simp_all add: s'_def b(2))
  moreover have "keeps s s'" using f(2) by (simp add: keeps_def s'_def)
  ultimately show ?thesis by blast
qed

lemma attachAll_spec:
  assumes "env_ok env" and "key_laws parse" and "pathUp f ns t" and "chain_inv parse f s" and "\<forall>n \<in> set ns. branch_ok (db_blocks s) n \<and> connectable (db_blocks s) n"
    and "bc_pruneTarget s = 0"
  shows "\<exists>s'. attachAll parse env (zip ns (map (blockAt (db_blocks s)) ns)) s = (Ok (), s') \<and> chain_inv parse t s' \<and> keeps s s'"
  using assms(3-6)
proof (induction ns arbitrary: f s)
  case Nil
  then show ?case by (simp add: act_defs keeps_def)
next
  case (Cons n ns)
  then have n: "n_parent n = f" "pathUp n ns t" by simp_all
  obtain s1 where s1: "attachBlock parse env n (blockAt (db_blocks s) n) s = (Ok (), s1)" "chain_inv parse n s1" "keeps s s1"
    using attachBlock_spec [OF assms(1,2), of n s] Cons.prems n(1) by auto
  have k: "db_blocks s1 = db_blocks s" "bc_pruneTarget s1 = 0" using s1(3) Cons.prems(4) by (simp_all add: keeps_def)
  have "\<forall>m \<in> set ns. branch_ok (db_blocks s1) m \<and> connectable (db_blocks s1) m" using Cons.prems(3) k(1) by simp
  from Cons.IH [OF n(2) s1(2) this k(2)] obtain s2 where
    "attachAll parse env (zip ns (map (blockAt (db_blocks s)) ns)) s1 = (Ok (), s2)" "chain_inv parse t s2" "keeps s1 s2" unfolding k(1) by blast
  then show ?case using s1(1) keeps_trans [OF s1(3)] by (auto simp: bind_act_def)
qed

subsection \<open>Verifying a reorganisation\<close>

text \<open>Verifying changes only what is cached and the block index.\<close>

definition checks :: "(octets \<Rightarrow> octets option) \<Rightarrow> BlockChain \<Rightarrow> BlockChain \<Rightarrow> bool" where
  "checks parse s s' \<longleftrightarrow> (\<exists>c bi. s' = s\<lparr>bc_utxoCache := c, bc_index := bi\<rparr> \<and> same_ledger parse (bc_utxoCache s) c)"

lemma checks_trans: "checks parse s s1 \<Longrightarrow> checks parse s1 s2 \<Longrightarrow> checks parse s s2"
  using same_ledger_trans by (fastforce simp: checks_def)

lemma checks_cache: "same_ledger parse (bc_utxoCache s) c \<Longrightarrow> checks parse s (s\<lparr>bc_utxoCache := c\<rparr>)"
  unfolding checks_def by (intro exI [of _ c] exI [of _ "bc_index s"]) simp

lemma checks_index: "checks parse s s' \<Longrightarrow> checks parse s (s'\<lparr>bc_index := bi\<rparr>)"
proof -
  assume "checks parse s s'"
  then obtain c bi' where "s' = s\<lparr>bc_utxoCache := c, bc_index := bi'\<rparr>" "same_ledger parse (bc_utxoCache s) c" unfolding checks_def by blast
  then show ?thesis unfolding checks_def by (intro exI [of _ c] exI [of _ bi]) simp
qed

lemma checks_chain: "chain_inv parse t s \<Longrightarrow> checks parse s s' \<Longrightarrow> chain_inv parse t s'"
proof -
  assume a: "chain_inv parse t s" "checks parse s s'"
  then obtain c bi where s': "s' = s\<lparr>bc_utxoCache := c, bc_index := bi\<rparr>" "same_ledger parse (bc_utxoCache s) c" unfolding checks_def by blast
  from chain_inv_cache [OF a(1) s'(2)] show ?thesis by (simp add: s'(1) chain_inv_def)
qed

lemma checks_same:
  assumes "checks parse s s'"
  shows "db_blocks s' = db_blocks s" "ledger parse (bc_utxoCache s') = ledger parse (bc_utxoCache s)" "cache_inv parse (bc_utxoCache s')"
    "bc_pruneTarget s' = bc_pruneTarget s" "bc_bestChain s' = bc_bestChain s" "db_spendJournal s' = db_spendJournal s"
  using assms by (auto simp: checks_def same_ledger_def)

lemma lineage_up: "m \<in> set (lineage t) \<Longrightarrow> n_parent m \<noteq> NoNode \<Longrightarrow> n_parent m \<in> set (lineage t)"
proof (induction t)
  case (BlockNode f p a)
  have "p \<in> set (lineage p)" if "p \<noteq> NoNode" using that by (cases p) simp_all
  then show ?case using BlockNode by (cases "m = BlockNode f p a") simp_all
qed simp

lemma fetchBlock_at: "branch_ok (db_blocks s) n \<Longrightarrow> n_parent n \<noteq> NoNode \<Longrightarrow> dbFetchBlockByNode n s = (Ok (blockAt (db_blocks s) n), s)"
  using blockAt_stored [of "db_blocks s" n] by (auto simp: dbFetchBlockByNode_def)

lemma verifyDetach_spec:
  assumes "chain_inv parse t s" and "pathDown m ns f" and "m \<in> set (lineage t)"
    and "view_ok (ledger parse (bc_utxoCache s)) vw" and "overlay vw (ledger parse (bc_utxoCache s)) = ledgerAt (db_blocks s) m"
    and "v_bestHash vw = hash_of m"
  shows "\<exists>vw' s'. verifyDetach parse env ns vw s = (Ok (map (\<lambda>n. (blockAt (db_blocks s) n, spendsAt (db_blocks s) n)) ns, vw'), s') \<and>
    checks parse s s' \<and> bc_index s' = bc_index s \<and> view_ok (ledger parse (bc_utxoCache s)) vw' \<and>
    overlay vw' (ledger parse (bc_utxoCache s)) = ledgerAt (db_blocks s) f \<and> v_bestHash vw' = hash_of f"
  using assms
proof (induction ns arbitrary: m s vw)
  case Nil
  then show ?case using checks_cache [of parse s "bc_utxoCache s"] by (auto simp: act_defs same_ledger_def chain_inv_def)
next
  case (Cons n ns)
  let ?B = "db_blocks s" and ?c = "bc_utxoCache s"
  have n: "n = m" "n_parent m \<noteq> NoNode" "pathDown (n_parent m) ns f" using Cons.prems(2) by simp_all
  have inv: "cache_inv parse ?c" "branch_ok ?B m" "connectable ?B m"
    "dbFetchSpendJournalEntry parse (db_spendJournal s) (hash_of m) (txsAt ?B m) = Ok (spendsAt ?B m)"
    using Cons.prems(1,3) n(2) branch_mem by (auto simp: chain_inv_def spendsAt_def)
  have st: "dbFetchBlockByNode m s = (Ok (blockAt ?B m), s)" "b_hash (blockAt ?B m) = hash_of m"
    using fetchBlock_at [OF inv(2) n(2)] blockAt_stored [OF inv(2) n(2)] by auto
  obtain vw1 c1 vw2 where u: "fetchInputUtxos parse (txsAt ?B m) (height_of m) vw ?c = (Ok vw1, c1)" "same_ledger parse ?c c1"
    "disconnectTransactions (che_fetchByHash env) (txsAt ?B m) (height_of m) (bh_PrevBlock (b_header (blockAt ?B m))) (spendsAt ?B m) vw1 = Ok vw2"
    "overlay vw2 (ledger parse ?c) = ledgerAt ?B (n_parent m)" "view_ok (ledger parse ?c) vw2" "v_bestHash vw2 = hash_of (n_parent m)"
    using undo_at [OF inv(1) Cons.prems(4,5) inv(2) n(2) inv(3)] by metis
  define s1 where "s1 = s\<lparr>bc_utxoCache := c1\<rparr>"
  have s1: "checks parse s s1" "bc_index s1 = bc_index s" using checks_cache [OF u(2)] by (simp_all add: s1_def)
  note same = checks_same [OF s1(1)]
  have "n_parent m \<in> set (lineage t)"
    using lineage_up [OF Cons.prems(3) n(2)] .
  with Cons.IH [OF checks_chain [OF Cons.prems(1) s1(1)] n(3), of vw2] u(4,5,6) obtain vw3 s2 where
    s2: "verifyDetach parse env ns vw2 s1 = (Ok (map (\<lambda>n. (blockAt ?B n, spendsAt ?B n)) ns, vw3), s2)" "checks parse s1 s2" "bc_index s2 = bc_index s1"
      "view_ok (ledger parse ?c) vw3" "overlay vw3 (ledger parse ?c) = ledgerAt ?B f" "v_bestHash vw3 = hash_of f"
    unfolding same by blast
  have "verifyDetach parse env (n # ns) vw s = (Ok (map (\<lambda>n. (blockAt ?B n, spendsAt ?B n)) (n # ns), vw3), s2)"
    using st u(1,3) inv(4) s2(1) n(1) by (simp add: bind_act_def act_defs on_cache_def blockAt_txs s1_def)
  then show ?case using s2(3-6) s1(2) checks_trans [OF s1(1) s2(2)] by (intro exI [of _ vw3] exI [of _ s2]) simp
qed

lemma invalid_flags:
  "KnownInvalid (st OR fl) \<longleftrightarrow> KnownInvalid st \<or> KnownInvalid fl" "KnownInvalid statusValidateFailed" "KnownInvalid statusInvalidAncestor"
  by (simp_all add: KnownInvalid_def statusValidateFailed_def statusInvalidAncestor_def bit.conj_disj_distrib2 or_eq_0_iff)

lemma invalid_set:
  "KnownInvalid (NodeStatus m (SetStatusFlags n fl bi)) \<longleftrightarrow> KnownInvalid (NodeStatus m bi) \<or> m = n \<and> KnownInvalid fl"
  by (simp add: NodeStatus_def SetStatusFlags_def invalid_flags)

lemma invalid_fold:
  "KnownInvalid (NodeStatus m (fold (\<lambda>n. SetStatusFlags n statusInvalidAncestor) ns bi)) \<longleftrightarrow> KnownInvalid (NodeStatus m bi) \<or> m \<in> set ns"
  by (induction ns arbitrary: bi) (auto simp: invalid_set invalid_flags)

lemma valid_set: "NodeStatus m (SetStatusFlags n fl bi) = (if m = n then NodeStatus m bi OR fl else NodeStatus m bi)"
  by (simp add: NodeStatus_def SetStatusFlags_def)

lemma SetBestHash_irrelevant [simp]: "view_ok L (SetBestHash h vw) = view_ok L vw" "overlay (SetBestHash h vw) L = overlay vw L"
  by (simp_all add: SetBestHash_def)

text \<open>A block marked as valid can be connected.\<close>

definition marks_ok :: "(octets \<rightharpoonup> block) \<Rightarrow> blockNode list \<Rightarrow> blockIndex \<Rightarrow> bool" where
  "marks_ok B ns bi \<longleftrightarrow> (\<forall>n \<in> set ns. n_parent n \<noteq> NoNode \<longrightarrow> KnownValid (NodeStatus n bi) \<longrightarrow> connectable B n)"

text \<open>A step that marks as valid only blocks that can be connected, and keeps the stored blocks.\<close>

definition marks_kept :: "BlockChain \<Rightarrow> BlockChain \<Rightarrow> bool" where
  "marks_kept s s' \<longleftrightarrow> db_blocks s' = db_blocks s \<and> bc_pruneTarget s' = bc_pruneTarget s \<and>
     (\<forall>m. KnownValid (NodeStatus m (bc_index s')) \<longrightarrow> KnownValid (NodeStatus m (bc_index s)) \<or> connectable (db_blocks s) m)"

lemma marks_trans: "marks_kept s s1 \<Longrightarrow> marks_kept s1 s2 \<Longrightarrow> marks_kept s s2"
  by (fastforce simp: marks_kept_def)

lemma marks_same: "db_blocks s' = db_blocks s \<Longrightarrow> bc_pruneTarget s' = bc_pruneTarget s \<Longrightarrow> bi_status (bc_index s') = bi_status (bc_index s) \<Longrightarrow> marks_kept s s'"
  by (simp add: marks_kept_def NodeStatus_def)

lemma marks_keeps: "keeps s s' \<Longrightarrow> marks_kept s s'"
  by (simp add: keeps_def marks_same)

lemma valid_flags: "KnownValid (st OR fl) \<longleftrightarrow> KnownValid st \<or> KnownValid fl" "\<not> KnownValid statusValidateFailed" "\<not> KnownValid statusInvalidAncestor"
  by (simp_all add: KnownValid_def statusValidateFailed_def statusInvalidAncestor_def statusValid_def bit.conj_disj_distrib2 or_eq_0_iff)

lemma marks_set:
  assumes "marks_kept s s1" and "KnownValid fl \<longrightarrow> connectable (db_blocks s) n"
  shows "marks_kept s (s1\<lparr>bc_index := SetStatusFlags n fl (bc_index s1)\<rparr>)"
  using assms by (auto simp: marks_kept_def valid_set valid_flags)

lemma marks_fold: "marks_kept s s1 \<Longrightarrow> marks_kept s (s1\<lparr>bc_index := fold (\<lambda>n. SetStatusFlags n statusInvalidAncestor) ns (bc_index s1)\<rparr>)"
proof (induction ns arbitrary: s1)
  case (Cons n ns)
  from Cons.IH [OF marks_set [OF Cons.prems, of statusInvalidAncestor n]] show ?case by (simp add: valid_flags)
qed simp

lemma marks_truthful: "marks_kept s s' \<Longrightarrow> marks_ok (db_blocks s) ns (bc_index s) \<Longrightarrow> marks_ok (db_blocks s') ns (bc_index s')"
  by (auto simp: marks_kept_def marks_ok_def)

text \<open>Blocks that spend only outputs of what comes before.  Blocks of the main chain and those marked as valid do.\<close>

definition spendsBack :: "(octets \<rightharpoonup> block) \<Rightarrow> blockNode list \<Rightarrow> bool" where
  "spendsBack B ns \<longleftrightarrow> (\<forall>n \<in> set ns. n_parent n \<noteq> NoNode \<longrightarrow> inOrder (txsAt B n))"

lemma spendsBackI:
  assumes "chain_inv parse t s" and "branch_ok (db_blocks s) node" and "marks_ok (db_blocks s) (lineage node) (bc_index s)"
    and "\<forall>m \<in> set (lineage node) - set (lineage t). KnownValid (NodeStatus m (bc_index s)) \<or> inOrder (txsAt (db_blocks s) m)"
  shows "spendsBack (db_blocks s) (lineage node)"
  unfolding spendsBack_def
proof (intro ballI impI)
  fix m assume m: "m \<in> set (lineage node)" "n_parent m \<noteq> NoNode"
  show "inOrder (txsAt (db_blocks s) m)"
  proof (cases "m \<in> set (lineage t) \<or> KnownValid (NodeStatus m (bc_index s))")
    case True
    then have "connectable (db_blocks s) m" using assms(1,3) m by (auto simp: chain_inv_def marks_ok_def)
    then show ?thesis using connectable_inOrder [OF branch_mem [OF assms(2) m(1)] m(2)] by blast
  qed (use assms(4) m in blast)
qed

text \<open>What verifying the rest of the nodes gives, after a first one.\<close>

definition attached :: "(octets \<Rightarrow> octets option) \<Rightarrow> BlockChain \<Rightarrow> blockNode list \<Rightarrow> (block_error + block list) outcome \<times> BlockChain \<Rightarrow> bool" where
  "attached parse s ns rs \<longleftrightarrow> (case rs of (r, s') \<Rightarrow> checks parse s s' \<and> marks_kept s s' \<and>
     (\<forall>bs. r = Ok (Inr bs) \<longrightarrow> bs = map (blockAt (db_blocks s)) ns \<and> (\<forall>n \<in> set ns. connectable (db_blocks s) n)) \<and>
     (\<forall>e. r = Ok (Inl e) \<longrightarrow> ns \<noteq> [] \<and> KnownInvalid (NodeStatus (last ns) (bc_index s'))))"

lemma attached_next:
  assumes "checks parse s s1" and "connectable (db_blocks s) n" and "attached parse s1 ns (m s1)" and "marks_kept s s1"
  shows "attached parse s (n # ns) (bind_act m (\<lambda>r. ret_act (map_sum id ((#) (blockAt (db_blocks s) n)) r)) s1)"
proof -
  obtain r s2 where m: "m s1 = (r, s2)" by fastforce
  have c: "checks parse s s2" "marks_kept s s2" using checks_trans [OF assms(1)] marks_trans [OF assms(4)] assms(3) m by (simp_all add: attached_def)
  have B: "db_blocks s1 = db_blocks s" using checks_same(1) [OF assms(1)] .
  show ?thesis
  proof (cases r)
    case (Ok x)
    then show ?thesis using assms(2,3) m c B by (cases x) (auto simp: attached_def bind_act_def act_defs)
  qed (use m c in \<open>simp_all add: attached_def bind_act_def\<close>)
qed

lemma verifyAttach_valid:
  assumes "cache_inv parse (bc_utxoCache s)" and "view_ok (ledger parse (bc_utxoCache s)) vw"
    and "overlay vw (ledger parse (bc_utxoCache s)) = ledgerAt (db_blocks s) (n_parent n)"
    and "branch_ok (db_blocks s) n" and "n_parent n \<noteq> NoNode" and "connectable (db_blocks s) n" and "KnownValid (NodeStatus n (bc_index s))"
  shows "\<exists>vw' s1. verifyAttach parse env (n # ns) vw s =
      bind_act (verifyAttach parse env ns vw') (\<lambda>r. ret_act (map_sum id ((#) (blockAt (db_blocks s) n)) r)) s1 \<and>
    checks parse s s1 \<and> bc_index s1 = bc_index s \<and> view_ok (ledger parse (bc_utxoCache s)) vw' \<and>
    overlay vw' (ledger parse (bc_utxoCache s)) = ledgerAt (db_blocks s) n"
proof -
  let ?B = "db_blocks s" and ?c = "bc_utxoCache s" and ?txs = "txsAt (db_blocks s) n"
  obtain b where b: "?B (hash_of n) = Some b" "?txs = b_txs b" "proper (height_of n) (b_txs b)"
    "\<forall>tx \<in> set (b_txs b). \<forall>j. ledgerAt ?B (n_parent n) (tx_hash tx, j) = None"
    "ledgerAt ?B n = ledgerBlock (b_txs b) (height_of n) (ledgerAt ?B (n_parent n))"
    using block_at [OF assms(4,5)] by metis
  have ord: "inOrder (b_txs b)" using connectable_inOrder [OF assms(4-6)] b(2) by simp
  have "canConnect (ledgerAt ?B (n_parent n)) (height_of n) (b_txs b)" using assms(6) b(2) by (simp add: connectable_def)
  from attach_valid [OF assms(1,2,3) b(3) ord this b(4)] obtain vw1 c1 v st where
    a: "fetchInputUtxos parse ?txs (height_of n) vw ?c = (Ok vw1, c1)" "same_ledger parse ?c c1"
      "connectTransactions ?txs (height_of n) (v_entries vw1, []) = Ok (v, st)" "view_ok (ledger parse ?c) (vw1\<lparr>v_entries := v\<rparr>)"
      "overlay (vw1\<lparr>v_entries := v\<rparr>) (ledger parse ?c) = ledgerAt ?B n"
    unfolding b(2) [symmetric] b(5) by blast
  let ?vw = "SetBestHash (b_hash (blockAt ?B n)) (vw1\<lparr>v_entries := v\<rparr>)" and ?s = "s\<lparr>bc_utxoCache := c1\<rparr>"
  have "verifyAttach parse env (n # ns) vw s =
      bind_act (verifyAttach parse env ns ?vw) (\<lambda>r. ret_act (map_sum id ((#) (blockAt ?B n)) r)) ?s"
    using fetchBlock_at [OF assms(4,5)] a(1,3) assms(7)
    by (simp add: bind_act_apply(1) [of "dbFetchBlockByNode n"] bind_act_run Let_def blockAt_txs)
      (simp add: bind_act_def on_cache_def act_defs)
  then show ?thesis using a(4,5) checks_cache [OF a(2)] by (intro exI [of _ ?vw] exI [of _ ?s]) simp
qed

lemma verifyAttach_checked:
  assumes "cache_inv parse (bc_utxoCache s)" and "view_ok (ledger parse (bc_utxoCache s)) vw"
    and "overlay vw (ledger parse (bc_utxoCache s)) = ledgerAt (db_blocks s) (n_parent n)"
    and "branch_ok (db_blocks s) n" and "n_parent n \<noteq> NoNode" and "\<not> KnownValid (NodeStatus n (bc_index s))" and "inOrder (txsAt (db_blocks s) n)"
  shows "attached parse s (n # ns) (verifyAttach parse env (n # ns) vw s) \<or>
   (\<exists>vw' s1. verifyAttach parse env (n # ns) vw s =
      bind_act (verifyAttach parse env ns vw') (\<lambda>r. ret_act (map_sum id ((#) (blockAt (db_blocks s) n)) r)) s1 \<and>
    checks parse s s1 \<and> bc_index s1 = SetStatusFlags n statusValid (bc_index s) \<and> connectable (db_blocks s) n \<and>
    view_ok (ledger parse (bc_utxoCache s)) vw' \<and> overlay vw' (ledger parse (bc_utxoCache s)) = ledgerAt (db_blocks s) n)"
proof -
  let ?B = "db_blocks s" and ?c = "bc_utxoCache s" and ?b = "blockAt (db_blocks s) n"
  obtain b where b: "?B (hash_of n) = Some b" "txsAt ?B n = b_txs b" "proper (height_of n) (b_txs b)" "inOrder (b_txs b)" "onceEach (b_txs b)"
    "ledgerAt ?B n = ledgerBlock (b_txs b) (height_of n) (ledgerAt ?B (n_parent n))"
    using block_at [OF assms(4,5)] assms(7) by metis
  have bb: "?b = b" by (simp add: blockAt_def b(1))
  obtain r c1 where r: "checkConnectBlock parse (che_connect env n) n ?b vw [] ?c = (r, c1)" by fastforce
  note chk = attach_checked [OF assms(1,2,3) b(3,4,5) r [unfolded bb]]
  let ?s = "s\<lparr>bc_utxoCache := c1\<rparr>"
  have c: "checks parse s ?s" using checks_cache chk by blast
  have run: "verifyAttach parse env (n # ns) vw s = (case r of
      Ok (Inl e) \<Rightarrow> (Ok (Inl e), ?s\<lparr>bc_index := fold (\<lambda>dn. SetStatusFlags dn statusInvalidAncestor) ns (SetStatusFlags n statusValidateFailed (bc_index s))\<rparr>)
    | Ok (Inr (vw1, st)) \<Rightarrow> bind_act (verifyAttach parse env ns vw1) (\<lambda>r. ret_act (map_sum id ((#) ?b) r)) (?s\<lparr>bc_index := SetStatusFlags n statusValid (bc_index s)\<rparr>)
    | Err e \<Rightarrow> (Err e, ?s) | Panic e \<Rightarrow> (Panic e, ?s) | Blocked \<Rightarrow> (Blocked, ?s))"
    using fetchBlock_at [OF assms(4,5)] r assms(6)
    by (simp add: bind_act_apply(1) [of "dbFetchBlockByNode n"] bind_act_run Let_def)
      (simp add: bind_act_def on_cache_def on_index_def act_defs split: outcome.split sum.split prod.split)
  show ?thesis
  proof (cases "\<exists>vw1 st. r = Ok (Inr (vw1, st))")
    case True
    then obtain vw1 st where r1: "r = Ok (Inr (vw1, st))" by blast
    then have "canConnect (ledgerAt ?B (n_parent n)) (height_of n) (b_txs b)" "view_ok (ledger parse ?c) vw1"
      "overlay vw1 (ledger parse ?c) = ledgerAt ?B n" using chk b(6) by auto
    then show ?thesis using run r1 checks_index [OF c] b(2)
      by (intro disjI2 exI [of _ vw1] exI [of _ "?s\<lparr>bc_index := SetStatusFlags n statusValid (bc_index s)\<rparr>"]) (simp add: connectable_def)
  next
    case False
    have "KnownInvalid (NodeStatus (last (n # ns)) (fold (\<lambda>dn. SetStatusFlags dn statusInvalidAncestor) ns (SetStatusFlags n statusValidateFailed (bc_index s))))"
      by (auto simp: invalid_fold invalid_set invalid_flags)
    moreover have k: "marks_kept s ?s" by (rule marks_same) simp_all
    moreover have "marks_kept s (?s\<lparr>bc_index := fold (\<lambda>dn. SetStatusFlags dn statusInvalidAncestor) ns (SetStatusFlags n statusValidateFailed (bc_index s))\<rparr>)"
      using marks_fold [OF marks_set [OF k, of statusValidateFailed n], of ns] valid_flags(2) by simp
    ultimately have "attached parse s (n # ns) (verifyAttach parse env (n # ns) vw s)"
      unfolding run using False c checks_index [OF c] by (auto simp: attached_def split: outcome.split sum.split)
    then show ?thesis ..
  qed
qed

lemma verifyAttach_spec:
  assumes "cache_inv parse (bc_utxoCache s)" and "view_ok (ledger parse (bc_utxoCache s)) vw"
    and "overlay vw (ledger parse (bc_utxoCache s)) = ledgerAt (db_blocks s) f" and "pathUp f ns t"
    and "\<forall>n \<in> set ns. branch_ok (db_blocks s) n \<and> n_parent n \<noteq> NoNode" and "marks_ok (db_blocks s) ns (bc_index s)"
    and "spendsBack (db_blocks s) ns"
  shows "attached parse s ns (verifyAttach parse env ns vw s)"
  using assms
proof (induction ns arbitrary: f s vw)
  case Nil
  then show ?case using checks_cache [of parse s "bc_utxoCache s"] by (simp add: attached_def act_defs same_ledger_def marks_kept_def)
next
  case (Cons n ns)
  let ?B = "db_blocks s" and ?L = "ledger parse (bc_utxoCache s)"
  have n: "n_parent n = f" "pathUp n ns t" "branch_ok ?B n" "n_parent n \<noteq> NoNode" using Cons.prems(4,5) by simp_all
  have go: "attached parse s (n # ns) (verifyAttach parse env (n # ns) vw s)"
    if g: "verifyAttach parse env (n # ns) vw s = bind_act (verifyAttach parse env ns vw') (\<lambda>r. ret_act (map_sum id ((#) (blockAt ?B n)) r)) s1"
      "checks parse s s1" "connectable ?B n" "view_ok ?L vw'" "overlay vw' ?L = ledgerAt ?B n" "marks_ok ?B ns (bc_index s1)" "marks_kept s s1" for vw' s1
  proof -
    note same = checks_same [OF g(2)]
    have "attached parse s1 ns (verifyAttach parse env ns vw' s1)"
      using Cons.IH [of s1 vw' n] g(4-6) n(2) Cons.prems(5,7) by (simp add: same spendsBack_def)
    then show ?thesis unfolding g(1) by (rule attached_next [OF g(2,3) _ g(7)])
  qed
  have kept: "marks_kept s s1" if "checks parse s s1" "bc_index s1 = SetStatusFlags n statusValid (bc_index s) \<and> connectable ?B n \<or> bc_index s1 = bc_index s" for s1
    using that checks_same(1,4) [OF that(1)] by (auto simp: marks_kept_def valid_set valid_flags split: if_splits)
  show ?case
  proof (cases "KnownValid (NodeStatus n (bc_index s))")
    case True
    then have c: "connectable ?B n" using Cons.prems(6) n(4) by (simp add: marks_ok_def)
    have "marks_ok ?B ns (bc_index s)" using Cons.prems(6) by (simp add: marks_ok_def)
    then show ?thesis using verifyAttach_valid [OF Cons.prems(1,2) _ n(3,4) c True, of env ns] Cons.prems(3) n(1) c go kept by metis
  next
    case False
    have "marks_ok ?B ns (SetStatusFlags n statusValid (bc_index s))" if "connectable ?B n"
      using Cons.prems(6) that by (simp add: marks_ok_def valid_set)
    moreover have "inOrder (txsAt ?B n)" using Cons.prems(7) n(4) by (simp add: spendsBack_def)
    ultimately show ?thesis using verifyAttach_checked [OF Cons.prems(1,2) _ n(3,4) False, of ns env] Cons.prems(3) n(1) go kept by metis
  qed
qed

subsection \<open>The nodes to detach and to attach\<close>

lemma detachLoop_path: "f \<in> set (lineage t) \<Longrightarrow> pathDown t (detachLoop f t) f"
proof (induction t)
  case (BlockNode g p a)
  show ?case
  proof (cases "BlockNode g p a = f")
    case False
    then have "f \<in> set (lineage p)" using BlockNode.prems by auto
    moreover from this have "p \<noteq> NoNode" by (cases p) auto
    ultimately show ?thesis using BlockNode.IH(1) False by simp
  next
    case True
    then show ?thesis unfolding True [symmetric] by simp
  qed
qed simp

lemma pathUp_snoc: "pathUp f ns p \<Longrightarrow> n_parent n = p \<Longrightarrow> pathUp f (ns @ [n]) n"
  by (induction ns arbitrary: f) auto

lemma pathUp_last: "pathUp f ns t \<Longrightarrow> ns \<noteq> [] \<Longrightarrow> last ns = t"
  by (induction ns arbitrary: f) auto

lemma attachLoop_path:
  assumes "attachLoop bi f n acc = (False, ns)" and "f \<in> set (lineage n)"
  shows "\<exists>ms. ns = ms @ acc \<and> pathUp f ms n \<and> set ms \<subseteq> set (lineage n) \<and> (\<forall>m \<in> set ms. n_parent m \<noteq> NoNode)"
  using assms
proof (induction n arbitrary: acc)
  case (BlockNode g p a)
  let ?n = "BlockNode g p a"
  show ?case
  proof (cases "?n = f")
    case True
    then show ?thesis using BlockNode.prems(1) unfolding True [symmetric] by (intro exI [of _ "[]"]) simp
  next
    case False
    have p: "f \<in> set (lineage p)" "p \<noteq> NoNode"
    proof -
      show "f \<in> set (lineage p)" using BlockNode.prems(2) False by auto
      then show "p \<noteq> NoNode" by (cases p) auto
    qed
    have "attachLoop bi f p (?n # acc) = (False, ns)" using BlockNode.prems(1) False by (auto split: if_splits)
    from BlockNode.IH(1) [OF this p(1)] obtain ms where
      ms: "ns = ms @ ?n # acc" "pathUp f ms p" "set ms \<subseteq> set (lineage p)" "\<forall>m \<in> set ms. n_parent m \<noteq> NoNode" by blast
    then show ?thesis using pathUp_snoc [OF ms(2), of ?n] p(2) by (intro exI [of _ "ms @ [?n]"]) auto
  qed
qed simp

lemma reorganize_nodes:
  assumes "getReorganizeNodes node s = (Ok (detach, attach), s1)" and "view_of t (bc_bestChain s)" and "block_ok node"
    and "set (lineage node) \<inter> set (lineage t) \<noteq> {}"
  shows "(\<exists>bi. s1 = s\<lparr>bc_index := bi\<rparr>) \<and> (detach = [] \<and> attach = [] \<or> s1 = s \<and> (\<exists>f. f \<noteq> NoNode \<and> f \<in> set (lineage t) \<and> pathDown t detach f \<and> pathUp f attach node \<and>
     set attach \<subseteq> set (lineage node) \<and> (\<forall>m \<in> set attach. n_parent m \<noteq> NoNode)))"
proof -
  let ?f = "findFork node (bc_bestChain s)"
  have f: "?f \<noteq> NoNode" "?f \<in> set (lineage node)" "?f \<in> set (lineage t)" using findFork_highest [OF assms(2,3)] assms(4) by blast+
  obtain bad ns where loop: "attachLoop (bc_index s) ?f node [] = (bad, ns)" by fastforce
  have idx: "\<exists>bi. s1 = s\<lparr>bc_index := bi\<rparr>"
    using assms(1) loop by (cases bad) (auto simp: getReorganizeNodes_def Let_def split: if_splits intro: exI [of _ "bc_index s"])
  show ?thesis
  proof (cases "KnownInvalid (NodeStatus (n_parent node) (bc_index s)) \<or> bad")
    case True
    then show ?thesis using assms(1) loop idx by (auto simp: getReorganizeNodes_def Let_def split: if_splits)
  next
    case False
    then have r: "detach = detachLoop ?f t" "attach = ns" "s1 = s" "attachLoop (bc_index s) ?f node [] = (False, ns)"
      using assms(1,2) loop view_tip [OF assms(2)] by (auto simp: getReorganizeNodes_def Let_def split: if_splits)
    from attachLoop_path [OF r(4) f(2)] detachLoop_path [OF f(3)] show ?thesis using idx f r by auto
  qed
qed

subsection \<open>A reorganisation\<close>

lemma new_view:
  "view_ok L (SetBestHash h NewUtxoViewpoint)" "overlay (SetBestHash h NewUtxoViewpoint) L = L" "v_bestHash (SetBestHash h NewUtxoViewpoint) = h"
  by (simp_all add: view_ok_def overlay_def v_known_def SetBestHash_def NewUtxoViewpoint_def fun_eq_iff)

lemma pathDown_first: "pathDown t ns f \<Longrightarrow> ns \<noteq> [] \<Longrightarrow> hd ns = t \<and> n_parent (last ns) = f"
proof (induction ns arbitrary: t)
  case (Cons n ns)
  then show ?case by (cases ns) auto
qed simp

lemma pathUp_first: "pathUp f ns t \<Longrightarrow> ns \<noteq> [] \<Longrightarrow> n_parent (hd ns) = f"
  by (cases ns) auto

text \<open>Verifying the nodes of a fork.\<close>

lemma verify_steps:
  assumes "tip (bc_bestChain s) = t" and "t \<noteq> NoNode" and "pathDown t detach f" and "f \<in> set (lineage t)" and "pathUp f attach node" and "\<not> (detach = [] \<and> attach = [])"
  shows "verifyReorganizationValidity parse env detach attach s =
    (bind_act (verifyDetach parse env detach (SetBestHash (hash_of t) NewUtxoViewpoint)) (\<lambda>(bs, vw).
      bind_act (verifyAttach parse env attach vw) (\<lambda>r. ret_act (map_sum id (\<lambda>abs. (bs, abs)) r)))) s"
  using assms(1,2,6) pathDown_first [OF assms(3)] pathUp_first [OF assms(5)] lineage_some [OF assms(4)] by (auto simp: verifyReorganizationValidity_def Let_def)

lemma verify_spec:
  assumes "chain_inv parse t s" and "pathDown t detach f" and "f \<in> set (lineage t)" and "pathUp f attach node"
    and "\<forall>n \<in> set attach. branch_ok (db_blocks s) n \<and> n_parent n \<noteq> NoNode" and "marks_ok (db_blocks s) attach (bc_index s)"
    and "verifyReorganizationValidity parse env detach attach s = (r, s')" and "spendsBack (db_blocks s) attach"
  shows "checks parse s s' \<and> marks_kept s s' \<and>
    (\<forall>bs. r = Ok (Inr bs) \<longrightarrow> bs = (map (\<lambda>n. (blockAt (db_blocks s) n, spendsAt (db_blocks s) n)) detach, map (blockAt (db_blocks s)) attach) \<and>
       (\<forall>n \<in> set attach. connectable (db_blocks s) n)) \<and>
    (\<forall>e. r = Ok (Inl e) \<longrightarrow> KnownInvalid (NodeStatus node (bc_index s')))"
proof (cases "detach = [] \<and> attach = []")
  case True
  then show ?thesis using assms(1,7) checks_cache [of parse s "bc_utxoCache s"] by (auto simp: verifyReorganizationValidity_def Let_def same_ledger_def chain_inv_def marks_kept_def)
next
  case False
  let ?L = "ledger parse (bc_utxoCache s)" and ?B = "db_blocks s" and ?vw = "SetBestHash (hash_of t) NewUtxoViewpoint"
  have t: "tip (bc_bestChain s) = t" "t \<noteq> NoNode" "?L = ledgerAt ?B t" "t \<in> set (lineage t)"
    using chain_tip [OF assms(1)] assms(1) lineage_self [of t] by (auto simp: chain_inv_def)
  have ov: "overlay ?vw ?L = ledgerAt ?B t" using t(3) by (simp only: new_view(2))
  obtain vw s1 where d: "verifyDetach parse env detach ?vw s = (Ok (map (\<lambda>n. (blockAt ?B n, spendsAt ?B n)) detach, vw), s1)"
    "checks parse s s1" "bc_index s1 = bc_index s" "view_ok ?L vw" "overlay vw ?L = ledgerAt ?B f"
    using verifyDetach_spec [OF assms(1,2) t(4) new_view(1) ov new_view(3)] by blast
  note same = checks_same [OF d(2)]
  obtain r2 s2 where a: "verifyAttach parse env attach vw s1 = (r2, s2)" by fastforce
  have at: "attached parse s1 attach (r2, s2)"
    using verifyAttach_spec [of parse s1 vw f attach node env] assms(4-6,8) d a by (simp add: same)
  note steps = verify_steps [OF t(1,2) assms(2-4) False, of parse env]
  have run: "(r, s') = (case r2 of Ok x \<Rightarrow> Ok (map_sum id (\<lambda>abs. (map (\<lambda>n. (blockAt ?B n, spendsAt ?B n)) detach, abs)) x)
      | Err e \<Rightarrow> Err e | Panic e \<Rightarrow> Panic e | Blocked \<Rightarrow> Blocked, s2)"
    using assms(7) a unfolding steps by (simp add: bind_act_apply(1) [of "verifyDetach parse env detach ?vw", OF d(1)])
      (simp add: bind_act_def act_defs split: outcome.splits)
  have "marks_kept s s1" by (rule marks_same) (simp_all add: same d(3))
  then have c: "checks parse s s2" "marks_kept s s2" using at checks_trans [OF d(2)] marks_trans by (auto simp: attached_def)
  show ?thesis
  proof (cases r2)
    case (Ok x)
    then show ?thesis using run at c pathUp_last [OF assms(4)] by (cases x) (auto simp: attached_def same)
  qed (use run c in auto)
qed

lemma nodes_marks: "getReorganizeNodes node s = (r, s1) \<Longrightarrow> marks_kept s s1"
proof -
  assume "getReorganizeNodes node s = (r, s1)"
  then consider "s1 = s" | "s1 = s\<lparr>bc_index := SetStatusFlags node statusInvalidAncestor (bc_index s)\<rparr>"
    | ns where "s1 = s\<lparr>bc_index := fold (\<lambda>n. SetStatusFlags n statusInvalidAncestor) ns (bc_index s)\<rparr>"
    by (auto simp: getReorganizeNodes_def Let_def split: if_splits prod.splits bool.splits)
  then show ?thesis
    using marks_same [of s s] marks_set [of s s statusInvalidAncestor node] marks_fold [of s s] valid_flags(3) by cases simp_all
qed

lemma reorganize_spec:
  assumes "env_ok env" and "key_laws parse" and "chain_inv parse t s" and "bc_pruneTarget s = 0"
    and "branch_ok (db_blocks s) node" and "set (lineage node) \<inter> set (lineage t) \<noteq> {}" and "marks_ok (db_blocks s) (lineage node) (bc_index s)"
    and "getReorganizeNodes node s = (Ok (detach, attach), s1)"
    and "\<forall>m \<in> set (lineage node) - set (lineage t). KnownValid (NodeStatus m (bc_index s)) \<or> inOrder (txsAt (db_blocks s) m)"
  shows "\<exists>r s2. reorganizeChain parse env detach attach s1 = (r, s2) \<and>
    (if \<exists>bs. fst (verifyReorganizationValidity parse env detach attach s1) = Ok (Inr bs)
     then r = Ok None \<and> chain_inv parse (if detach = [] \<and> attach = [] then t else node) s2
     else r \<noteq> Ok None \<and> chain_inv parse t s2 \<and> (\<forall>e. r = Ok (Some e) \<longrightarrow> KnownInvalid (NodeStatus node (bc_index s2)))) \<and>
    marks_kept s s2"
proof -
  have inv: "view_of t (bc_bestChain s)" "block_ok node" using assms(3,5) by (simp_all add: chain_inv_def branch_ok_def)
  note nodes = reorganize_nodes [OF assms(8) inv assms(6)]
  then have t: "tip (bc_bestChain s1) = t" "chain_inv parse t s1" "t \<noteq> NoNode" using assms(3) chain_tip [OF assms(3)] by (auto simp: chain_inv_def)
  have k1: "marks_kept s s1" using nodes_marks [OF assms(8)] .
  show ?thesis
  proof (cases "detach = [] \<and> attach = []")
    case True
    then have "verifyReorganizationValidity parse env detach attach s1 = (Ok (Inr ([], [])), s1)" by (simp add: verifyReorganizationValidity_def Let_def)
    then show ?thesis using True t k1 by (simp add: reorganizeChain_def bind_act_def act_defs)
  next
    case False
    let ?B = "db_blocks s"
    obtain f where f: "s1 = s" "f \<in> set (lineage t)" "pathDown t detach f" "pathUp f attach node" "set attach \<subseteq> set (lineage node)"
      "\<forall>m \<in> set attach. n_parent m \<noteq> NoNode" using nodes False by blast
    have br: "\<forall>n \<in> set attach. branch_ok ?B n \<and> n_parent n \<noteq> NoNode" using f(5,6) branch_mem [OF assms(5)] by blast
    have mk: "marks_ok ?B attach (bc_index s)" using assms(7) f(5) by (auto simp: marks_ok_def)
    have ord: "spendsBack ?B attach" using spendsBackI [OF assms(3,5,7,9)] f(5) by (auto simp: spendsBack_def)
    obtain v s2 where v: "verifyReorganizationValidity parse env detach attach s = (v, s2)" by fastforce
    note ver = verify_spec [OF assms(3) f(3,2,4) br mk v ord]
    have inv2: "chain_inv parse t s2" using checks_chain [OF assms(3)] ver by blast
    show ?thesis
    proof (cases "\<exists>bs. v = Ok (Inr bs)")
      case False
      then have "reorganizeChain parse env detach attach s = (case v of Ok (Inl e) \<Rightarrow> Ok (Some e) | Ok (Inr _) \<Rightarrow> Ok None | Err e \<Rightarrow> Err e | Panic e \<Rightarrow> Panic e | Blocked \<Rightarrow> Blocked, s2)"
        using v by (auto simp: reorganizeChain_def bind_act_def act_defs split: outcome.split sum.split)
      then show ?thesis using False ver inv2 v f(1) by (auto split: outcome.splits sum.splits)
    next
      case True
      then have bs: "v = Ok (Inr (map (\<lambda>n. (blockAt ?B n, spendsAt ?B n)) detach, map (blockAt ?B) attach))" "\<forall>n \<in> set attach. connectable ?B n"
        using ver by auto
      have k: "db_blocks s2 = ?B" "bc_pruneTarget s2 = 0" "tip (bc_bestChain s2) = t" using ver checks_same [of parse s s2] assms(4) chain_tip [OF inv2] by auto
      let ?vw = "SetBestHash (hash_of t) NewUtxoViewpoint"
      from detachAll_spec [OF assms(1,2) f(3) inv2 new_view(1,2)] obtain s3 where
        s3: "detachAll parse env (zip detach (map (\<lambda>n. (blockAt ?B n, spendsAt ?B n)) detach)) ?vw s2 = (Ok (), s3)" "chain_inv parse f s3" "keeps s2 s3"
        unfolding k(1) by blast
      have k3: "db_blocks s3 = ?B" "bc_pruneTarget s3 = 0" using s3(3) k by (simp_all add: keeps_def)
      have "\<forall>n \<in> set attach. branch_ok (db_blocks s3) n \<and> connectable (db_blocks s3) n" using br bs(2) k3(1) by simp
      from attachAll_spec [OF assms(1,2) f(4) s3(2) this k3(2)] obtain s4 where
        s4: "attachAll parse env (zip attach (map (blockAt ?B) attach)) s3 = (Ok (), s4)" "chain_inv parse node s4" "keeps s3 s4" unfolding k3(1) by blast
      have "marks_kept s s4" using ver marks_trans marks_keeps [OF keeps_trans [OF s3(3) s4(3)]] by blast
      have "reorganizeChain parse env detach attach s = (Ok None, s4)"
        using v bs(1) k(3) t(3) s3(1) s4(1) by (simp add: reorganizeChain_def bind_act_def act_defs)
      with \<open>marks_kept s s4\<close> show ?thesis using v bs(1) f(1) s4(2) False by auto
    qed
  qed
qed

lemma verifyAttach_marked:
  assumes "cache_inv parse (bc_utxoCache s)" and "view_ok (ledger parse (bc_utxoCache s)) vw"
    and "overlay vw (ledger parse (bc_utxoCache s)) = ledgerAt (db_blocks s) f" and "pathUp f ns t"
    and "\<forall>n \<in> set ns. branch_ok (db_blocks s) n \<and> n_parent n \<noteq> NoNode \<and> KnownValid (NodeStatus n (bc_index s)) \<and> connectable (db_blocks s) n"
  shows "\<exists>bs s'. verifyAttach parse env ns vw s = (Ok (Inr bs), s')"
  using assms
proof (induction ns arbitrary: f s vw)
  case (Cons n ns)
  have n: "n_parent n = f" "pathUp n ns t" "branch_ok (db_blocks s) n" "n_parent n \<noteq> NoNode" "KnownValid (NodeStatus n (bc_index s))" "connectable (db_blocks s) n"
    using Cons.prems(4,5) by simp_all
  from verifyAttach_valid [OF Cons.prems(1,2) _ n(3,4,6,5), of env ns] Cons.prems(3) n(1) obtain vw' s1 where
    g: "verifyAttach parse env (n # ns) vw s = bind_act (verifyAttach parse env ns vw') (\<lambda>r. ret_act (map_sum id ((#) (blockAt (db_blocks s) n)) r)) s1"
      "checks parse s s1" "bc_index s1 = bc_index s" "view_ok (ledger parse (bc_utxoCache s)) vw'"
      "overlay vw' (ledger parse (bc_utxoCache s)) = ledgerAt (db_blocks s) n" by metis
  note same = checks_same [OF g(2)]
  have "\<exists>bs s'. verifyAttach parse env ns vw' s1 = (Ok (Inr bs), s')"
    using Cons.IH [of s1 vw' n] g(3-5) n(2) Cons.prems(5) by (simp add: same)
  then show ?case unfolding g(1) by (auto simp: bind_act_def act_defs)
qed (simp add: act_defs)

subsection \<open>The best chain\<close>

lemma chain_inv_index [simp]: "chain_inv parse t (s\<lparr>bc_index := bi\<rparr>) = chain_inv parse t s" "chain_inv parse t (s\<lparr>db_blockIndex := d\<rparr>) = chain_inv parse t s"
  by (simp_all add: chain_inv_def)

lemma flushIndex_inv: "flushIndex env s = (Ok (), snd (flushIndex env s)) \<and> chain_inv parse t (snd (flushIndex env s)) = chain_inv parse t s \<and>
  bi_status (bc_index (snd (flushIndex env s))) = bi_status (bc_index s) \<and> db_blocks (snd (flushIndex env s)) = db_blocks s \<and>
  bc_pruneTarget (snd (flushIndex env s)) = bc_pruneTarget s \<and> bc_bestChain (snd (flushIndex env s)) = bc_bestChain s"
  using flushIndex_eq [of env s] by auto

lemma valid_or: "KnownValid (st OR statusValid)"
  by (simp add: KnownValid_def bit.conj_disj_distrib2 or_eq_0_iff) (simp add: statusValid_def)

text \<open>The last part of extending the main chain, after the checks.\<close>

lemma extend_rest:
  assumes "env_ok env" and "key_laws parse" and "chain_inv parse (n_parent n) s" and "branch_ok (db_blocks s) n"
    and "connectable (db_blocks s) n" and "bc_pruneTarget s = 0" and "fast \<or> KnownValid (NodeStatus n (bc_index s))"
  shows "\<exists>s'. connectValidated parse env n (blockAt (db_blocks s) n) fast s = (Ok (Inr True), s') \<and> chain_inv parse n s' \<and> marks_kept s s'"
proof -
  let ?b = "blockAt (db_blocks s) n"
  obtain s2 where a: "attachBlock parse env n ?b s = (Ok (), s2)" "chain_inv parse n s2" "keeps s s2"
    using attachBlock_spec [OF assms(1-6)] by blast
  from a(1) obtain stxos s1 where c: "on_cache (cache_connectTransactions parse (b_txs ?b) (height_of n) (Some [])) s = (Ok stxos, s1)"
    "connectBlock parse env n ?b (the stxos) s1 = (Ok (), s2)" by (auto simp: attachBlock_def ok_bind)
  let ?s = "s2\<lparr>bc_index := SetStatusFlags n statusValid (bc_index s2)\<rparr>"
  have f: "flushIndex env ?s = (Ok (), snd (flushIndex env ?s))" "chain_inv parse n (snd (flushIndex env ?s))"
    using flushIndex_inv [of env ?s parse n] a(2) by simp_all
  have ks: "marks_kept s ?s" using marks_set [OF marks_keeps [OF a(3)], of statusValid n] assms(5) by blast
  have "marks_kept ?s (snd (flushIndex env ?s))" by (rule marks_same) (use flushIndex_inv [of env ?s parse n] in simp_all)
  then obtain s3 where s3: "flushIndex env ?s = (Ok (), s3)" "chain_inv parse n s3" "marks_kept s s3" using f marks_trans [OF ks] by blast
  have "KnownValid (NodeStatus n (bc_index s2)) \<or> fast" using assms(7) a(3) by (auto simp: keeps_def NodeStatus_def)
  then show ?thesis using c s3 a(2) marks_keeps [OF a(3)] by (auto simp: connectValidated_def bind_act_def act_defs on_index_def)
qed

lemma extend_spec:
  assumes "env_ok env" and "key_laws parse" and "chain_inv parse t s" and "bc_pruneTarget s = 0" and "branch_ok (db_blocks s) n"
    and "n_parent n = t" and "marks_ok (db_blocks s) [n] (bc_index s)" and "connectBestChain parse env n (blockAt (db_blocks s) n) False s = (r, s')"
    and "inOrder (txsAt (db_blocks s) n)"
  shows "chain_inv parse (if r = Ok (Inr True) then n else t) s' \<and> marks_kept s s'"
proof -
  let ?B = "db_blocks s" and ?b = "blockAt (db_blocks s) n" and ?c = "bc_utxoCache s" and ?vw = "SetBestHash (hash_of t) NewUtxoViewpoint"
  have t: "t \<noteq> NoNode" "tip (bc_bestChain s) = t" using chain_tip [OF assms(3)] by auto
  then have p: "n_parent n \<noteq> NoNode" using assms(6) by simp
  obtain b where b: "?B (hash_of n) = Some b" "txsAt ?B n = b_txs b" "bh_PrevBlock (b_header b) = hash_of t" "proper (height_of n) (b_txs b)" "inOrder (b_txs b)" "onceEach (b_txs b)"
    using block_at [OF assms(5) p] assms(6,9) by metis
  have bb: "?b = b" by (simp add: blockAt_def b(1))
  have prev: "bh_PrevBlock (b_header ?b) = hash_of t" using b(3) bb by simp
  show ?thesis
  proof (cases "KnownValid (NodeStatus n (bc_index s))")
    case True
    have con: "connectable ?B n" using assms(7) True p by (simp add: marks_ok_def)
    have "connectBestChain parse env n ?b False s = connectValidated parse env n ?b True s"
      using t prev True by (simp add: connectBestChain_def Let_def)
    with extend_rest [OF assms(1,2) assms(3) [folded assms(6)] assms(5) con assms(4), of True] assms(8) show ?thesis by auto
  next
    case False
    obtain rc c1 where rc: "checkConnectBlock parse (che_connect env n) n ?b ?vw [] ?c = (rc, c1)" by fastforce
    have ci: "cache_inv parse ?c" "ledger parse ?c = ledgerAt ?B t" using assms(3) by (simp_all add: chain_inv_def)
    have ov: "overlay ?vw (ledger parse ?c) = ledgerAt ?B (n_parent n)" using ci(2) assms(6) by (simp only: new_view(2))
    note chk = attach_checked [OF ci(1) new_view(1) ov b(4,5,6) rc [unfolded bb]]
    define s1 where "s1 = s\<lparr>bc_utxoCache := c1\<rparr>"
    have i1: "chain_inv parse t s1" using chain_inv_cache [OF assms(3)] chk by (simp add: s1_def)
    have k1: "marks_kept s s1" by (rule marks_same) (simp_all add: s1_def)
    have k2: "marks_kept s (snd (flushIndex env (s1\<lparr>bc_index := SetStatusFlags n fl (bc_index s1)\<rparr>)))" if "KnownValid fl \<longrightarrow> connectable ?B n" for fl
      using marks_trans [OF marks_set [OF k1 that]] marks_same flushIndex_inv by (metis (no_types, lifting))
    have run: "connectBestChain parse env n ?b False s = (case rc of
        Ok (Inl e) \<Rightarrow> (Ok (Inl e), snd (flushIndex env (s1\<lparr>bc_index := SetStatusFlags n statusValidateFailed (bc_index s1)\<rparr>)))
      | Ok (Inr _) \<Rightarrow> connectValidated parse env n ?b False (snd (flushIndex env (s1\<lparr>bc_index := SetStatusFlags n statusValid (bc_index s1)\<rparr>)))
      | Err e \<Rightarrow> (Err e, s1) | Panic e \<Rightarrow> (Panic e, s1) | Blocked \<Rightarrow> (Blocked, s1))"
      using t prev False rc flushIndex_inv [of env "s1\<lparr>bc_index := SetStatusFlags n statusValidateFailed (bc_index s1)\<rparr>"]
        flushIndex_inv [of env "s1\<lparr>bc_index := SetStatusFlags n statusValid (bc_index s1)\<rparr>"]
      by (simp add: connectBestChain_def Let_def)
        (auto simp: bind_act_def on_cache_def on_index_def act_defs s1_def split: outcome.split sum.split prod.splits)
    show ?thesis
    proof (cases "\<exists>x. rc = Ok (Inr x)")
      case True
      let ?s = "s1\<lparr>bc_index := SetStatusFlags n statusValid (bc_index s1)\<rparr>"
      define s2 where "s2 = snd (flushIndex env ?s)"
      have s2: "chain_inv parse t s2" "db_blocks s2 = ?B" "bc_pruneTarget s2 = 0" "KnownValid (NodeStatus n (bc_index s2))"
        using flushIndex_inv [of env ?s parse t] i1 assms(4) valid_or by (simp_all add: s2_def s1_def NodeStatus_def SetStatusFlags_def)
      have con: "connectable ?B n" using True chk b(2) by (auto simp: connectable_def)
      then have k3: "marks_kept s s2" using k2 by (simp add: s2_def)
      from con extend_rest [OF assms(1,2), of n s2 False] s2 assms(5,6) marks_trans [OF k3]
      have "\<exists>s'. connectValidated parse env n ?b False s2 = (Ok (Inr True), s') \<and> chain_inv parse n s' \<and> marks_kept s s'"
        by auto
      then show ?thesis using run True assms(8) by (auto simp: s2_def)
    next
      case no: False
      then show ?thesis using run assms(8) i1 k1 k2 [of statusValidateFailed] valid_flags(2)
          flushIndex_inv [of env "s1\<lparr>bc_index := SetStatusFlags n statusValidateFailed (bc_index s1)\<rparr>" parse t]
        by (auto split: outcome.splits sum.splits)
    qed
  qed
qed

lemma lineage_sub: "m \<in> set (lineage n) \<Longrightarrow> n \<in> set (lineage t) \<Longrightarrow> m \<in> set (lineage t)"
  by (induction t) auto

lemma parent_some:
  assumes "n_parent n \<noteq> NoNode"
  shows "n \<noteq> NoNode" "n \<in> set (lineage n)" "n_parent n \<in> set (lineage n)"
proof -
  show n: "n \<noteq> NoNode" using assms by auto
  show "n \<in> set (lineage n)" "n_parent n \<in> set (lineage n)" using lineage_self [OF n] lineage_self [OF assms] by auto
qed

lemma attachLoop_bad: "m \<in> set (lineage n) \<Longrightarrow> m \<notin> set (lineage f) \<Longrightarrow> KnownInvalid (NodeStatus m bi) \<Longrightarrow> \<exists>ns. attachLoop bi f n acc = (True, ns)"
proof (induction n arbitrary: acc)
  case (BlockNode g p a)
  then show ?case by (cases "BlockNode g p a = f") auto
qed simp

lemma attachLoop_invalid: "attachLoop bi f n acc = (True, ns) \<Longrightarrow> \<exists>m \<in> set (lineage n). KnownInvalid (NodeStatus m bi)"
  by (induction n arbitrary: acc) (auto split: if_splits)

lemma reorganize_empty:
  assumes "getReorganizeNodes node s = (Ok ([], []), s1)" and "view_of t (bc_bestChain s)" and "block_ok node" and "n_parent node \<noteq> NoNode"
    and "set (lineage node) \<inter> set (lineage t) \<noteq> {}"
  shows "node = t \<or> (\<exists>m \<in> set (lineage node). KnownInvalid (NodeStatus m (bc_index s)))"
proof -
  let ?f = "findFork node (bc_bestChain s)"
  have f: "?f \<in> set (lineage node)" "?f \<in> set (lineage t)" using findFork_highest [OF assms(2,3)] assms(5) by blast+
  note parent_some(3) [OF assms(4)]
  then show ?thesis
    using assms(1) attachLoop_invalid [of "bc_index s" ?f node "[]"] attachLoop_path [OF _ f(1), of "bc_index s" "[]" "[]"] detachLoop_path [OF f(2)] view_tip [OF assms(2)] assms(4)
    by (auto simp: getReorganizeNodes_def Let_def split: if_splits prod.splits bool.splits)
qed

lemma best_chain_spec:
  assumes "env_ok env" and "key_laws parse" and "chain_inv parse t s" and "bc_pruneTarget s = 0"
    and "branch_ok (db_blocks s) node" and "n_parent node \<noteq> NoNode" and "set (lineage node) \<inter> set (lineage t) \<noteq> {}"
    and "marks_ok (db_blocks s) (lineage node) (bc_index s)" and "hash_of (n_parent node) = hash_of t \<longrightarrow> n_parent node = t"
    and "connectBestChain parse env node (blockAt (db_blocks s) node) False s = (r, s')"
    and "\<forall>m \<in> set (lineage node) - set (lineage t). KnownValid (NodeStatus m (bc_index s)) \<or> inOrder (txsAt (db_blocks s) m)"
  shows "\<exists>t'. chain_inv parse t' s' \<and>
    (t' = t \<or> t' = node \<and> r = Ok (Inr True) \<and> (n_parent node = t \<or> n_workSum (blk t) < n_workSum (blk node))) \<and>
    (r = Ok (Inr True) \<longrightarrow> t' = node \<or> (\<exists>m \<in> set (lineage node). KnownInvalid (NodeStatus m (bc_index s)))) \<and>
    marks_kept s s'"
proof -
  let ?b = "blockAt (db_blocks s) node"
  have t: "t \<noteq> NoNode" "tip (bc_bestChain s) = t" "view_of t (bc_bestChain s)" "block_ok node"
    using chain_tip [OF assms(3)] assms(3,5) by (auto simp: chain_inv_def branch_ok_def)
  have n: "node \<noteq> NoNode" "node \<in> set (lineage node)" using parent_some [OF assms(6)] by auto
  have prev: "bh_PrevBlock (b_header ?b) = hash_of (n_parent node)" using block_at [OF assms(5,6)] by (metis blockAt_def option.sel)
  show ?thesis
  proof (cases "hash_of (n_parent node) = hash_of t")
    case True
    then have p: "n_parent node = t" using assms(9) by blast
    have "marks_ok (db_blocks s) [node] (bc_index s)" using assms(8) n(2) by (simp add: marks_ok_def)
    moreover have "inOrder (txsAt (db_blocks s) node)" using spendsBackI [OF assms(3,5,8,11)] assms(6) n(2) by (simp add: spendsBack_def)
    ultimately show ?thesis using extend_spec [OF assms(1-5) p _ assms(10)] p by (auto split: if_splits)
  next
    case False
    show ?thesis
    proof (cases "n_workSum (blk node) \<le> n_workSum (blk t)")
      case True
      then have "s' = s" "r \<noteq> Ok (Inr True)" "marks_kept s s" using assms(10) marks_same [of s s] False t(1,2) prev by (auto simp: connectBestChain_def Let_def split: if_splits)
      then show ?thesis using assms(3) by blast
    next
      case work: False
      obtain g s1 where g: "getReorganizeNodes node s = (Ok g, s1)"
      proof -
        obtain bad ns where "attachLoop (bc_index s) (findFork node (bc_bestChain s)) node [] = (bad, ns)" by fastforce
        then show ?thesis using that assms(6)
          by (cases "KnownInvalid (NodeStatus (n_parent node) (bc_index s))"; cases bad) (auto simp: getReorganizeNodes_def Let_def)
      qed
      obtain detach attach where ga: "g = (detach, attach)" by fastforce
      obtain v s2 where v: "reorganizeChain parse env detach attach s1 = (v, s2)" by fastforce
      have r: "(r, s') = (case v of Ok None \<Rightarrow> (Ok (Inr True), snd (flushIndex env s2)) | Ok (Some e) \<Rightarrow> (Ok (Inl e), snd (flushIndex env s2))
          | Err e \<Rightarrow> (Err e, snd (flushIndex env s2)) | Panic e \<Rightarrow> (Panic e, s2) | Blocked \<Rightarrow> (Blocked, s2))"
        using assms(10) False work t(1,2) prev g ga v by (simp add: connectBestChain_def Let_def bind_act_def split: outcome.splits option.splits)
      note spec = reorganize_spec [OF assms(1-5,7,8) g [unfolded ga] assms(11)]
      have none: "chain_inv parse (if detach = [] \<and> attach = [] then t else node) s2" if "v = Ok None" using spec v that by (auto split: if_splits)
      have some: "chain_inv parse t s2" if "v \<noteq> Ok None" using spec v that by (auto split: if_splits)
      have k2: "marks_kept s s2" using spec v by auto
      have "marks_kept s2 (snd (flushIndex env s2))" by (rule marks_same) (use flushIndex_inv [of env s2] in simp_all)
      then have k: "marks_kept s s'" using r k2 marks_trans [OF k2] by (auto split: outcome.splits option.splits)
      have fl: "chain_inv parse x (snd (flushIndex env s2)) = chain_inv parse x s2" for x using flushIndex_inv [of env s2 parse x] by blast
      show ?thesis
      proof (cases "v = Ok None")
        case True
        have "node = t \<or> (\<exists>m \<in> set (lineage node). KnownInvalid (NodeStatus m (bc_index s)))" if "detach = [] \<and> attach = []"
          using reorganize_empty [of node s s1 t] g ga that t(3,4) assms(6,7) by simp
        moreover have "node \<noteq> t" using work by auto
        ultimately show ?thesis using True r none fl work k by (cases "detach = [] \<and> attach = []") (auto intro: exI [of _ t] exI [of _ node])
      next
        case no: False
        then have "chain_inv parse t s'" "r \<noteq> Ok (Inr True)" using r some fl by (auto split: outcome.splits option.splits)
        then show ?thesis using k by blast
      qed
    qed
  qed
qed

lemma invalid_branch_spec:
  assumes "chain_inv parse t s" and "block_ok node" and "n_parent node \<noteq> NoNode" and "bh_PrevBlock (b_header b) \<noteq> hash_of t"
    and "n_workSum (blk t) < n_workSum (blk node)" and "m \<in> set (lineage node)" and "m \<notin> set (lineage t)" and "KnownInvalid (NodeStatus m (bc_index s))"
  shows "\<exists>s'. connectBestChain parse env node b fastAdd s = (Ok (Inr True), s') \<and> bc_bestChain s' = bc_bestChain s \<and> chain_inv parse t s' \<and> tip (bc_bestChain s') \<noteq> node"
proof -
  let ?f = "findFork node (bc_bestChain s)"
  have t: "t \<noteq> NoNode" "tip (bc_bestChain s) = t" "view_of t (bc_bestChain s)" using chain_tip [OF assms(1)] assms(1) by (auto simp: chain_inv_def)
  have "m \<notin> set (lineage ?f)"
    using findFork_highest [OF t(3) assms(2)] assms(7) lineage_sub [of m ?f t] by (cases "?f = NoNode") auto
  from attachLoop_bad [OF assms(6) this assms(8)] obtain ns where "attachLoop (bc_index s) ?f node [] = (True, ns)" by blast
  then obtain bi where "getReorganizeNodes node s = (Ok ([], []), s\<lparr>bc_index := bi\<rparr>)" 
    using assms(3) by (cases "KnownInvalid (NodeStatus (n_parent node) (bc_index s))") (auto simp: getReorganizeNodes_def Let_def)
  moreover have "reorganizeChain parse env [] [] (s\<lparr>bc_index := bi\<rparr>) = (Ok None, s\<lparr>bc_index := bi\<rparr>)" for bi
    using t(1,2) by (simp add: reorganizeChain_def verifyReorganizationValidity_def bind_act_def act_defs)
  ultimately have "connectBestChain parse env node b fastAdd s = (Ok (Inr True), snd (flushIndex env (s\<lparr>bc_index := bi\<rparr>)))"
    using assms(4,5) t(1,2) by (simp add: connectBestChain_def Let_def bind_act_def)
  moreover have "tip (bc_bestChain s) \<noteq> node" using t(2) assms(5) by auto
  ultimately show ?thesis using flushIndex_inv [of env "s\<lparr>bc_index := bi\<rparr>" parse t] assms(1) by auto
qed

subsection \<open>Statements\<close>

text \<open>C3: A reorganisation happens completely or not at all.  Let cache, database, journals and chain view be those of the branch of \<open>t\<close>.  For the
  nodes that \<open>getReorganizeNodes\<close> finds for \<open>node\<close>, \<open>reorganizeChain\<close> succeeds exactly if the verification succeeds.  If it does and the lists
  are not both empty, the chain then has \<open>node\<close> as its tip, and cache and database have the ledger that the blocks of its branch leave, although blocks
  were detached through their journals and written around the cache.  If both lists are empty, as they are when an ancestor is
  known to be invalid, it succeeds and the chain of \<open>t\<close> is as it was.  If it does not succeed, the chain of \<open>t\<close> is as it was, and after a broken rule \<open>node\<close> is marked
  as invalid.  In every case the stored blocks stay and only blocks that can be connected become marked as valid.  It is assumed that \<open>node\<close> is in the tree of
  \<open>t\<close>; that the blocks of its branch are stored, have passed the context-free checks, and have no transaction twice; that those
  marked as valid can be connected; and that those off the main chain that are not marked as valid spend no output of
  a later transaction of the block or of the same one, which the checks do not ensure.  Pruning is off, neither the optional
  indexes nor the warnings of unknown rules fail, and public keys are parsed as the secp256k1 library documents.\<close>

theorem reorganization_all_or_nothing:
  assumes "env_ok env" and "key_laws parse" and "chain_inv parse t s" and "bc_pruneTarget s = 0"
    and "branch_ok (db_blocks s) node" and "set (lineage node) \<inter> set (lineage t) \<noteq> {}" and "marks_ok (db_blocks s) (lineage node) (bc_index s)"
    and "getReorganizeNodes node s = (Ok (detach, attach), s1)"
    and "\<forall>m \<in> set (lineage node) - set (lineage t). KnownValid (NodeStatus m (bc_index s)) \<or> inOrder (txsAt (db_blocks s) m)"
  shows "\<exists>r s2. reorganizeChain parse env detach attach s1 = (r, s2) \<and>
    (if \<exists>bs. fst (verifyReorganizationValidity parse env detach attach s1) = Ok (Inr bs)
     then r = Ok None \<and> chain_inv parse (if detach = [] \<and> attach = [] then t else node) s2
     else r \<noteq> Ok None \<and> chain_inv parse t s2 \<and> (\<forall>e. r = Ok (Some e) \<longrightarrow> KnownInvalid (NodeStatus node (bc_index s2)))) \<and>
    marks_kept s s2"
  using assms by (rule reorganize_spec)

text \<open>C4: The best chain stays consistent.  Let a block be handed to \<open>connectBestChain\<close> without the fast flag.  However the call ends, the chain afterwards
  is the consistent chain of the old tip or of the new block; it moves only to a block that extends the tip or has more work, and only
  with the answer that the block is on the main chain.  This answer is right unless an ancestor of the block is known to be
  invalid.  The stored blocks stay, and only blocks that can be connected become marked as valid.  The assumptions are those of a
  reorganisation: the block is not a genesis block and is in the tree of the tip; the blocks of its branch are stored, have passed the context-free
  checks, and have no transaction twice; those marked as valid can be connected; those off the main chain that are not
  marked as valid spend no output of a later transaction of the block or of the same one, which the checks do not
  ensure; a parent with the hash of the tip is the tip; pruning is off, neither the optional indexes nor the warnings of unknown
  rules fail, and public keys are parsed as the secp256k1 library documents.\<close>

theorem best_chain_invariant:
  assumes "env_ok env" and "key_laws parse" and "chain_inv parse t s" and "bc_pruneTarget s = 0"
    and "branch_ok (db_blocks s) node" and "n_parent node \<noteq> NoNode" and "set (lineage node) \<inter> set (lineage t) \<noteq> {}"
    and "marks_ok (db_blocks s) (lineage node) (bc_index s)" and "hash_of (n_parent node) = hash_of t \<longrightarrow> n_parent node = t"
    and "connectBestChain parse env node (blockAt (db_blocks s) node) False s = (r, s')"
    and "\<forall>m \<in> set (lineage node) - set (lineage t). KnownValid (NodeStatus m (bc_index s)) \<or> inOrder (txsAt (db_blocks s) m)"
  shows "\<exists>t'. chain_inv parse t' s' \<and>
    (t' = t \<or> t' = node \<and> r = Ok (Inr True) \<and> (n_parent node = t \<or> n_workSum (blk t) < n_workSum (blk node))) \<and>
    (r = Ok (Inr True) \<longrightarrow> t' = node \<or> (\<exists>m \<in> set (lineage node). KnownInvalid (NodeStatus m (bc_index s)))) \<and>
    marks_kept s s'"
  using assms by (rule best_chain_spec)

text \<open>C36: A block on an invalid branch is reported as part of the main chain.  If a block further back than the parent is known to be invalid,
  \<open>getReorganizeNodes\<close> returns two empty lists, the reorganisation with nothing to do succeeds, and \<open>connectBestChain\<close> answers that
  the block is on the main chain, which has not changed.\<close>

theorem invalid_branch_reported:
  assumes "chain_inv parse t s" and "block_ok node" and "n_parent node \<noteq> NoNode" and "bh_PrevBlock (b_header b) \<noteq> hash_of t"
    and "n_workSum (blk t) < n_workSum (blk node)" and "m \<in> set (lineage node)" and "m \<notin> set (lineage t)" and "KnownInvalid (NodeStatus m (bc_index s))"
  shows "\<exists>s'. connectBestChain parse env node b fastAdd s = (Ok (Inr True), s') \<and> bc_bestChain s' = bc_bestChain s \<and> chain_inv parse t s' \<and> tip (bc_bestChain s') \<noteq> node"
  using assms by (rule invalid_branch_spec)

subsection \<open>Examples\<close>

lemma verify_marked:
  assumes "chain_inv parse t s" and "pathDown t detach f" and "f \<in> set (lineage t)" and "pathUp f attach node" and "attach \<noteq> []"
    and "\<forall>n \<in> set attach. branch_ok (db_blocks s) n \<and> n_parent n \<noteq> NoNode \<and> KnownValid (NodeStatus n (bc_index s)) \<and> connectable (db_blocks s) n"
  shows "\<exists>bs. fst (verifyReorganizationValidity parse env detach attach s) = Ok (Inr bs)"
proof -
  let ?L = "ledger parse (bc_utxoCache s)" and ?B = "db_blocks s" and ?vw = "SetBestHash (hash_of t) NewUtxoViewpoint"
  have t: "tip (bc_bestChain s) = t" "t \<noteq> NoNode" "?L = ledgerAt ?B t" "t \<in> set (lineage t)"
    using chain_tip [OF assms(1)] assms(1) lineage_self [of t] by (auto simp: chain_inv_def)
  have ov: "overlay ?vw ?L = ledgerAt ?B t" using t(3) by (simp only: new_view(2))
  obtain bs vw s1 where d: "verifyDetach parse env detach ?vw s = (Ok (bs, vw), s1)"
    "checks parse s s1" "bc_index s1 = bc_index s" "view_ok ?L vw" "overlay vw ?L = ledgerAt ?B f"
    using verifyDetach_spec [OF assms(1,2) t(4) new_view(1) ov new_view(3)] by blast
  note same = checks_same [OF d(2)]
  obtain bs' s2 where "verifyAttach parse env attach vw s1 = (Ok (Inr bs'), s2)"
    using verifyAttach_marked [of parse s1 vw f attach node env] assms(4,6) d by (auto simp: same)
  then show ?thesis
    using d(1) assms(5) verify_steps [OF t(1,2) assms(2-4), of parse env] by (simp add: bind_act_def act_defs)
qed

text \<open>Blocks with only a coinbase, on the two branches of the example tree.\<close>

definition demoCoinbase :: "octets \<Rightarrow> MsgTx" where
  "demoCoinbase h = payCoinbase\<lparr>tx_hash := of_nat (length (filter (\<lambda>b. b = 1) h)) # replicate 31 0\<rparr>"

definition demoBlock :: "blockNode \<Rightarrow> block" where
  "demoBlock n = payBlock\<lparr>b_header := (b_header payBlock)\<lparr>bh_PrevBlock := hash_of (n_parent n)\<rparr>, b_hash := hash_of n, b_txs := [demoCoinbase (hash_of n)]\<rparr>"

definition demoNodes :: "blockNode list" where
  "demoNodes = [demoChain 1, demoChain 2, demoChain 3, demoFork]"

definition demoBlocks :: "octets \<rightharpoonup> block" where
  "demoBlocks = map_of (map (\<lambda>n. (hash_of n, demoBlock n)) demoNodes)"

definition demoChainEnv :: chainEnv where
  "demoChainEnv = \<lparr>che_connect = (\<lambda>_. firstEnv), che_adjusted = 0, che_now = 0, che_warnUnknownRules = (\<lambda>_. None),
     che_PruneBlocks = (\<lambda>_ _. []), che_indexConnect = (\<lambda>_ _. None), che_indexDisconnect = (\<lambda>_ _. None), che_fetchByHash = (\<lambda>_. Ok None),
     che_dirty = (\<lambda>_. []), che_entries = (\<lambda>v. map (\<lambda>p. (p, v p)) (sorted_list_of_set (dom v)))\<rparr>"

definition demoGenesis :: BlockChain where
  "demoGenesis = \<lparr>bc_index = \<lparr>bi_index = Map.empty, bi_status = (\<lambda>_. statusValid), bi_dirty = {}\<rparr>, bc_bestChain = demoBranch 1,
     bc_utxoCache = firstCache\<lparr>stateConsistency := Some (demoName 1)\<rparr>,
     bc_stateSnapshot = bestStateOf (demoChain 1) (demoBlock (demoChain 1)) 1 1600000000, bc_pruneTarget = 0, bc_sent = [],
     db_blocks = demoBlocks, db_spendJournal = Map.empty, db_mainChain = (Map.empty, Map.empty), 
     db_chainState = Some (dbPutBestState (bestStateOf (demoChain 1) (demoBlock (demoChain 1)) 1 1600000000) 1), db_blockIndex = Map.empty\<rparr>"

definition demoForked :: BlockChain where
  "demoForked = snd (attachBlock oneKey demoChainEnv demoFork (blockAt demoBlocks demoFork) demoGenesis)"

lemma demo_env: "env_ok demoChainEnv"
  by (auto simp: env_ok_def demoChainEnv_def enumerates_def comp_def)

lemma demo_hashes:
  "hash_of (demoChain 1) = demoName 1" "hash_of (demoChain 2) = demoName 2" "hash_of (demoChain 3) = demoName 3" "hash_of demoFork = demoName 10"
  "n_parent (demoChain 1) = NoNode" "n_parent (demoChain 2) = demoChain 1" "n_parent (demoChain 3) = demoChain 2" "n_parent demoFork = demoChain 1"
  "demoChain 1 \<noteq> NoNode" "demoChain 2 \<noteq> NoNode" "demoChain 3 \<noteq> NoNode" "demoFork \<noteq> NoNode"
  "height_of (demoChain 2) = 1" "height_of (demoChain 3) = 2" "height_of demoFork = 1"
  using demoChain_parts [of 0] demoChain_parts [of 1] demoChain_parts [of 2] demoChain_height [of 0] demoChain_height [of 1] demoChain_height [of 2]
    newBlockNode_parts [of demoHash "demoHeaderAt 9" "demoChain 1"] newBlockNode_copies [of demoHash "demoHeaderAt 9" "demoChain 1"]
  by (simp_all add: demoFork_def numeral_2_eq_2 numeral_3_eq_3 demoHash_def demoHeaderAt_def del: demoChain.simps(2))

lemma demo_work: "n_workSum (blk (demoChain (Suc i))) = int (Suc i) * CalcWork 0x1d00ffff" "n_workSum (blk demoFork) = 2 * CalcWork 0x1d00ffff" "0 < CalcWork 0x1d00ffff"
proof -
  have bits: "bh_Bits (demoHeaderAt j) = 0x1d00ffff" for j by (simp add: demoHeaderAt_def)
  show w: "n_workSum (blk (demoChain (Suc i))) = int (Suc i) * CalcWork 0x1d00ffff" for i
  proof (induction i)
    case (Suc i)
    have "n_workSum (blk (demoChain (Suc (Suc i)))) = n_workSum (blk (demoChain (Suc i))) + CalcWork 0x1d00ffff"
      using newBlockNode_parts(5) [of demoHash "demoHeaderAt (Suc i)" "demoChain (Suc i)"] demoChain_parts(1) [of i] by (simp add: bits)
    then show ?case using Suc by (simp add: algebra_simps del: demoChain.simps)
  qed (simp add: newBlockNode_parts bits)
  show "n_workSum (blk demoFork) = 2 * CalcWork 0x1d00ffff"
    using newBlockNode_parts [of demoHash "demoHeaderAt 9" "demoChain 1"] w [of 0] demo_hashes(9) by (simp add: demoFork_def demoHeaderAt_def del: demoChain.simps)
  show "0 < CalcWork 0x1d00ffff" by code_simp
qed

lemma demo_bounded: "n \<in> set demoNodes \<Longrightarrow> 0 \<le> n_workSum (blk n) \<and> n_workSum (blk n) < 256 ^ 64"
proof -
  have "CalcWork 0x1d00ffff = 4295032833" by code_simp
  then show "n \<in> set demoNodes \<Longrightarrow> 0 \<le> n_workSum (blk n) \<and> n_workSum (blk n) < 256 ^ 64"
    using demo_work(1) [of 0, folded One_nat_def] demo_work(1) [of 1] demo_work(1) [of 2] demo_work(2)
    by (auto simp: demoNodes_def numeral_2_eq_2 [symmetric] numeral_3_eq_3 [symmetric] simp del: One_nat_def demoChain.simps)
qed

lemma demo_lineage: "lineage (demoChain 1) = [demoChain 1]" "lineage (demoChain 2) = [demoChain 2, demoChain 1]"
  "lineage (demoChain 3) = [demoChain 3, demoChain 2, demoChain 1]" "lineage demoFork = [demoFork, demoChain 1]"
  using lineage_self [of "demoChain 1"] lineage_self [of "demoChain 2"] lineage_self [of "demoChain 3"] lineage_self [of demoFork]
  by (simp_all add: demo_hashes del: One_nat_def demoChain.simps)

lemma demo_block: "n \<in> set demoNodes \<Longrightarrow> demoBlocks (hash_of n) = Some (demoBlock n)"
  by (auto simp: demoBlocks_def demoNodes_def demo_hashes demoName_eq simp del: One_nat_def)

lemma demo_coinbase: "IsCoinBase (demoCoinbase h)" "proper ht [demoCoinbase h] \<longleftrightarrow> 0 \<le> ht \<and> ht < 2 ^ 31" "inOrder [demoCoinbase h]" "onceEach [demoCoinbase h]"
proof -
  show cb: "IsCoinBase (demoCoinbase h)" by (simp add: demoCoinbase_def IsCoinBase_def payCoinbase_def)
  show "inOrder [demoCoinbase h]" "onceEach [demoCoinbase h]" using cb by (simp_all add: spentOutpoints_def onceEach_def)
  show "proper ht [demoCoinbase h] \<longleftrightarrow> 0 \<le> ht \<and> ht < 2 ^ 31" using cb
    by (simp add: proper_def storable_tx_def) (simp add: demoCoinbase_def payCoinbase_def storable_def coinHash_nonzero zeroHash_def)
qed

lemma demo_stored: "n \<in> set demoNodes \<Longrightarrow> stored_block demoBlocks n"
proof -
  assume n: "n \<in> set demoNodes"
  then have "n_parent n \<noteq> NoNode \<Longrightarrow> 0 \<le> height_of n \<and> height_of n < 2 ^ 31" by (auto simp: demoNodes_def demo_hashes simp del: One_nat_def)
  with demo_block [OF n] demo_coinbase(1,2,4) demo_bounded [OF n] show ?thesis by (simp add: stored_block_def demoBlock_def)
qed

lemma demo_txs: "n \<in> set demoNodes \<Longrightarrow> txsAt demoBlocks n = [demoCoinbase (hash_of n)]"
  by (simp add: txsAt_def demo_block demoBlock_def)

lemma demo_branch: "branch_ok demoBlocks (demoChain 3)" "branch_ok demoBlocks demoFork" "branch_ok demoBlocks (demoChain 1)"
proof -
  have mem: "demoChain 1 \<in> set demoNodes" "demoChain 2 \<in> set demoNodes" "demoChain 3 \<in> set demoNodes" "demoFork \<in> set demoNodes"
    by (simp_all add: demoNodes_def del: One_nat_def)
  note simps = branch_ok_def demo_lineage demoChain_ok demoFork_ok demo_stored demo_txs mem demo_hashes demoName_eq demoName_ones demoCoinbase_def
  show "branch_ok demoBlocks (demoChain 3)" "branch_ok demoBlocks demoFork" "branch_ok demoBlocks (demoChain 1)"
    by (simp_all add: simps del: One_nat_def demoChain.simps)
qed

lemma demo_connectable: "n \<in> set demoNodes \<Longrightarrow> connectable demoBlocks n"
  by (simp add: connectable_def demo_txs canSpend_def demo_coinbase)

lemma demo_genesis: "chain_inv oneKey (demoChain 1) demoGenesis"
proof -
  have led: "ledgerAt demoBlocks (demoChain 1) = Map.empty"
    using demo_hashes(5,9) by (cases "demoChain 1") (simp_all del: One_nat_def demoChain.simps)
  have "CalcPastMedianTime (demoChain 1) = Ok 1600000000"
    by (simp add: CalcPastMedianTime_def medianTimeBlocks_def lastTimes_take demoChain_lineage upt_rec demoChain_parts(4) del: demoChain.simps)
  moreover have "demoChain 1 \<in> set demoNodes" by (simp add: demoNodes_def del: One_nat_def)
  ultimately have sync: "synced (demoChain 1) demoGenesis"
    by (intro syncedI [of _ 1600000000 1 _ 1]) (simp_all add: demoGenesis_def blockAt_def demo_block del: One_nat_def demoChain.simps)
  show ?thesis
    using demo_view [of 1] demo_branch(3) led sync unfolding chain_inv_def
    by (simp add: demoGenesis_def demo_hashes demo_lineage first_inv consistency_upd del: One_nat_def demoChain.simps)
qed

lemma demo_forked: "chain_inv oneKey demoFork demoForked" "keeps demoGenesis demoForked"
proof -
  have B: "db_blocks demoGenesis = demoBlocks" "bc_pruneTarget demoGenesis = 0" by (simp_all add: demoGenesis_def)
  have g: "chain_inv oneKey (n_parent demoFork) demoGenesis" using demo_genesis by (simp add: demo_hashes del: One_nat_def)
  have "demoFork \<in> set demoNodes" by (simp add: demoNodes_def)
  from attachBlock_spec [OF demo_env oneKey_laws g, unfolded B, OF demo_branch(2) demo_connectable [OF this] refl]
  show "chain_inv oneKey demoFork demoForked" "keeps demoGenesis demoForked" unfolding demoForked_def by auto
qed

lemma loops_node:
  "n \<noteq> NoNode \<Longrightarrow> attachLoop bi f n acc = (if n = f then (False, acc) else if KnownInvalid (NodeStatus n bi) then (True, acc) else attachLoop bi f (n_parent n) (n # acc))"
  "n \<noteq> NoNode \<Longrightarrow> detachLoop f n = (if n = f then [] else n # detachLoop f (n_parent n))"
  by (cases n; simp)+

lemma demo_status: "NodeStatus n (bc_index demoForked) = statusValid"
  using demo_forked(2) by (simp add: keeps_def NodeStatus_def demoGenesis_def)

lemma demo_nodes: "getReorganizeNodes (demoChain 3) demoForked = (Ok ([demoFork], [demoChain 2, demoChain 3]), demoForked)"
proof -
  have v: "view_of demoFork (bc_bestChain demoForked)" using demo_forked(1) by (simp add: chain_inv_def)
  have ne: "demoChain 3 \<noteq> demoChain 1" "demoChain 2 \<noteq> demoChain 1" "demoFork \<noteq> demoChain 1" "demoFork \<noteq> demoChain 2" "demoFork \<noteq> demoChain 3"
    by (auto dest!: arg_cong [of _ _ "\<lambda>n. hash_of n"] simp: demo_hashes demoName_eq simp del: One_nat_def demoChain.simps)
  have "findFork (demoChain 3) (bc_bestChain demoForked) = demoChain 1"
    using findFork_highest [OF v demoChain_ok [of 3]] ne by (auto simp: demo_lineage simp del: One_nat_def demoChain.simps)
  moreover have "\<not> KnownInvalid statusValid" by (simp add: KnownInvalid_def statusValid_def statusValidateFailed_def statusInvalidAncestor_def)
  ultimately show ?thesis using ne
    by (simp add: getReorganizeNodes_def Let_def demo_hashes demo_status loops_node view_tip [OF v] del: One_nat_def demoChain.simps)
qed

lemma demo_hyps:
  "bc_pruneTarget demoForked = 0" "branch_ok (db_blocks demoForked) (demoChain 3)" "set (lineage (demoChain 3)) \<inter> set (lineage demoFork) \<noteq> {}"
  "marks_ok (db_blocks demoForked) (lineage (demoChain 3)) (bc_index demoForked)" "db_blocks demoForked = demoBlocks"
  "\<forall>m \<in> set (lineage (demoChain 3)) - set (lineage demoFork). KnownValid (NodeStatus m (bc_index demoForked)) \<or> inOrder (txsAt (db_blocks demoForked) m)"
proof -
  show B: "db_blocks demoForked = demoBlocks" "bc_pruneTarget demoForked = 0" using demo_forked(2) by (simp_all add: keeps_def demoGenesis_def)
  show "branch_ok (db_blocks demoForked) (demoChain 3)" using demo_branch(1) B(1) by simp
  have "set (lineage (demoChain 3)) \<subseteq> set demoNodes" by (simp add: demoNodes_def demo_lineage del: One_nat_def demoChain.simps)
  then show "marks_ok (db_blocks demoForked) (lineage (demoChain 3)) (bc_index demoForked)" using demo_connectable by (auto simp: marks_ok_def B(1))
  show "\<forall>m \<in> set (lineage (demoChain 3)) - set (lineage demoFork). KnownValid (NodeStatus m (bc_index demoForked)) \<or> inOrder (txsAt (db_blocks demoForked) m)"
    by (simp add: demo_status KnownValid_def statusValid_def)
  show "set (lineage (demoChain 3)) \<inter> set (lineage demoFork) \<noteq> {}" by (simp add: demo_lineage del: One_nat_def demoChain.simps)
qed

lemma demo_verified: "\<exists>bs. fst (verifyReorganizationValidity oneKey demoChainEnv [demoFork] [demoChain 2, demoChain 3] demoForked) = Ok (Inr bs)"
proof -
  have mem: "demoChain 2 \<in> set demoNodes" "demoChain 3 \<in> set demoNodes" by (simp_all add: demoNodes_def del: demoChain.simps)
  have "\<forall>n \<in> set [demoChain 2, demoChain 3]. branch_ok (db_blocks demoForked) n \<and> n_parent n \<noteq> NoNode \<and> KnownValid (NodeStatus n (bc_index demoForked)) \<and>
      connectable (db_blocks demoForked) n"
    using demo_branch(1) branch_parent [OF demo_branch(1)] demo_connectable mem
    by (simp add: demo_hyps(5) demo_hashes demo_status KnownValid_def del: One_nat_def demoChain.simps) (simp add: statusValid_def)
  then show ?thesis
    using verify_marked [OF demo_forked(1), of "[demoFork]" "demoChain 1" "[demoChain 2, demoChain 3]" "demoChain 3" demoChainEnv]
    by (auto simp: demo_hashes demo_lineage simp del: One_nat_def demoChain.simps)
qed

theorem reorganization_all_or_nothing_witness:
  "\<exists>s. getReorganizeNodes (demoChain 3) demoForked = (Ok ([demoFork], [demoChain 2, demoChain 3]), demoForked) \<and>
    reorganizeChain oneKey demoChainEnv [demoFork] [demoChain 2, demoChain 3] demoForked = (Ok None, s) \<and>
    tip (bc_bestChain s) = demoChain 3 \<and> ledger oneKey (bc_utxoCache s) = ledgerAt (db_blocks s) (demoChain 3)"
proof -
  obtain s where "reorganizeChain oneKey demoChainEnv [demoFork] [demoChain 2, demoChain 3] demoForked = (Ok None, s)" "chain_inv oneKey (demoChain 3) s"
    using reorganization_all_or_nothing [OF demo_env oneKey_laws demo_forked(1) demo_hyps(1-4) demo_nodes demo_hyps(6)] demo_verified by auto
  moreover from this(2) have "tip (bc_bestChain s) = demoChain 3" "ledger oneKey (bc_utxoCache s) = ledgerAt (db_blocks s) (demoChain 3)"
    using chain_tip [of oneKey "demoChain 3" s] by (simp_all add: chain_inv_def)
  ultimately show ?thesis using demo_nodes by blast
qed

lemma demo_reorganized:
  "\<exists>s. reorganizeChain oneKey demoChainEnv [demoFork] [demoChain 2, demoChain 3] demoForked = (Ok None, s) \<and> chain_inv oneKey (demoChain 3) s"
  using reorganize_spec [OF demo_env oneKey_laws demo_forked(1) demo_hyps(1-4) demo_nodes demo_hyps(6)] demo_verified by auto

theorem best_chain_invariant_witness:
  "\<exists>s. connectBestChain oneKey demoChainEnv (demoChain 3) (demoBlock (demoChain 3)) False demoForked = (Ok (Inr True), s) \<and>
    tip (bc_bestChain s) = demoChain 3 \<and> chain_inv oneKey (demoChain 3) s"
proof -
  obtain s where s: "reorganizeChain oneKey demoChainEnv [demoFork] [demoChain 2, demoChain 3] demoForked = (Ok None, s)" using demo_reorganized by blast
  have t: "tip (bc_bestChain demoForked) = demoFork" using chain_tip [OF demo_forked(1)] by blast
  have w: "n_workSum (blk demoFork) < n_workSum (blk (demoChain 3))" using demo_work(1) [of 2] demo_work(2,3) by (simp add: numeral_3_eq_3)
  have ne: "hash_of (demoChain 2) \<noteq> hash_of demoFork" by (simp add: demo_hashes demoName_eq)
  have b: "blockAt (db_blocks demoForked) (demoChain 3) = demoBlock (demoChain 3)"
    using demo_block [of "demoChain 3"] demo_hyps(5) by (simp add: blockAt_def demoNodes_def del: demoChain.simps)
  have prev: "bh_PrevBlock (b_header (demoBlock (demoChain 3))) = hash_of (demoChain 2)" by (simp add: demoBlock_def demo_hashes)
  have run: "connectBestChain oneKey demoChainEnv (demoChain 3) (demoBlock (demoChain 3)) False demoForked = (Ok (Inr True), snd (flushIndex demoChainEnv s))"
    using s t w ne prev demo_nodes demo_hashes(12) by (simp add: connectBestChain_def Let_def bind_act_def del: demoChain.simps)
  have "n_parent (demoChain 3) \<noteq> NoNode" "hash_of (n_parent (demoChain 3)) = hash_of demoFork \<longrightarrow> n_parent (demoChain 3) = demoFork"
    using ne by (simp_all add: demo_hashes)
  from best_chain_invariant [OF demo_env oneKey_laws demo_forked(1) demo_hyps(1,2) this(1) demo_hyps(3,4) this(2) run [folded b] demo_hyps(6)]
  have "chain_inv oneKey (demoChain 3) (snd (flushIndex demoChainEnv s))"
    using demo_status by (auto simp: KnownInvalid_def statusValid_def statusValidateFailed_def statusInvalidAncestor_def)
  then show ?thesis using run chain_tip by blast
qed

text \<open>A branch whose second block failed, and a block on top of its third block.\<close>

theorem invalid_branch_reported_witness:
  "\<exists>s. connectBestChain oneKey demoChainEnv (demoChain 4) (demoBlock (demoChain 4)) False
      (demoForked\<lparr>bc_index := SetStatusFlags (demoChain 2) statusValidateFailed (bc_index demoForked)\<rparr>) = (Ok (Inr True), s) \<and>
    tip (bc_bestChain s) = demoFork"
proof -
  let ?s = "demoForked\<lparr>bc_index := SetStatusFlags (demoChain 2) statusValidateFailed (bc_index demoForked)\<rparr>"
  have p: "n_parent (demoChain 4) = demoChain 3" using demoChain_parts(2) [of 3] by (simp add: numeral_eq_Suc)
  have i: "chain_inv oneKey demoFork ?s" using demo_forked(1) by simp
  have "n_parent (demoChain 4) \<noteq> NoNode" "bh_PrevBlock (b_header (demoBlock (demoChain 4))) \<noteq> hash_of demoFork"
    by (simp_all add: p demo_hashes demoBlock_def demoName_eq)
  moreover have "n_workSum (blk demoFork) < n_workSum (blk (demoChain 4))" using demo_work(1) [of 3] demo_work(2,3) by (simp add: numeral_eq_Suc)
  moreover have "demoChain 2 \<in> set (lineage (demoChain 4))" unfolding demoChain_in_lineage by (intro exI [of _ 1]) (simp add: numeral_eq_Suc)
  moreover have "demoChain 2 \<notin> set (lineage demoFork)"
  proof -
    have "hash_of (demoChain 2) \<noteq> hash_of demoFork" "hash_of (demoChain 2) \<noteq> hash_of (demoChain 1)"
      by (simp_all add: demo_hashes demoName_eq del: One_nat_def demoChain.simps)
    then show ?thesis by (auto simp: demo_lineage simp del: One_nat_def demoChain.simps)
  qed
  moreover have "KnownInvalid (NodeStatus (demoChain 2) (bc_index ?s))" by (simp add: invalid_set invalid_flags)
  ultimately obtain s where s: "connectBestChain oneKey demoChainEnv (demoChain 4) (demoBlock (demoChain 4)) False ?s = (Ok (Inr True), s)" "chain_inv oneKey demoFork s"
    using invalid_branch_reported [OF i demoChain_ok] by blast
  then show ?thesis using chain_tip by blast
qed

end
