(* ===== verification/Coin_Start.thy ===== *)
theory Coin_Start
  imports Coin_Reorg
begin

text \<open>
  Starting the coin node on its database (\<open>src/btcd/blockchain/chain.go\<close>, \<open>chainio.go\<close>, \<open>utxocache.go\<close>): a new chain state from the
  genesis block, or the block index and the best state as they are stored, and the replay of the blocks that the stored
  outputs lack after a crash.  A bucket that does not exist is empty; the migrations of old databases and the versions
  of the buckets are not modelled.  The hash of a header, the cursor of the database, the optional indexes, the caches
  of the deployments and the interrupt are parameters, in the record \<open>startEnv\<close>.

  The lemmas show that the index that was written is read back, whatever tree it holds, and that a node that crashes
  between any two blocks comes back with the chain, the best state and the ledger it had.
\<close>

declare split_paired_All [simp del] split_paired_Ex [simp del]

subsection \<open>Loading the block index\<close>

record startEnv =
  ste_blockHash :: "BlockHeader \<Rightarrow> octets"
  ste_cursor :: "bucket \<Rightarrow> (octets \<times> octets) list"
  ste_genesis :: block
  ste_checkpoints :: "int list"
  ste_cacheSize :: "64 word"
  ste_prune :: "64 word"
  ste_upgrade :: "string option"
  ste_indexInit :: "string option"
  ste_thresholds :: "string option"
  ste_interrupted :: "blockNode \<Rightarrow> bool"

definition addNode :: "blockNode \<Rightarrow> blockIndex \<Rightarrow> blockIndex" where
  "addNode n bi = bi\<lparr>bi_index := (bi_index bi)(hash_of n \<mapsto> n)\<rparr>"

definition setStatus :: "blockNode \<Rightarrow> blockStatus \<Rightarrow> blockIndex \<Rightarrow> blockIndex" where
  "setStatus n st bi = bi\<lparr>bi_status := (bi_status bi)(n := st)\<rparr>"

text \<open>The parent of the block of a row, given the node of the row before.\<close>

definition rowParent :: "BlockHeader \<Rightarrow> blockNode \<Rightarrow> blockIndex \<Rightarrow> blockNode outcome" where
  "rowParent header lastNode bi =
    (if lastNode = NoNode then Ok NoNode
     else if bh_PrevBlock header = hash_of lastNode then Ok lastNode
     else let parent = LookupNode (bh_PrevBlock header) bi in
       if parent = NoNode then Err ''initChainState: Could not find parent for block'' else Ok parent)"

fun loadRows :: "(BlockHeader \<Rightarrow> octets) \<Rightarrow> (octets \<times> octets) list \<Rightarrow> blockNode \<Rightarrow> (blockIndex, unit) act" where
  "loadRows blockHash [] lastNode = ret_act ()"
| "loadRows blockHash (row # rows) lastNode =
    bind_act (lift_out (deserializeBlockRow (snd row))) (\<lambda>(header, status).
    bind_act (\<lambda>bi. (rowParent header lastNode bi, bi)) (\<lambda>parent.
      let node = newBlockNode blockHash header parent in
      bind_act (upd_act (\<lambda>bi. addNode node (setStatus node status bi))) (\<lambda>_. loadRows blockHash rows node)))"

fun markValid :: "blockNode \<Rightarrow> blockIndex \<Rightarrow> blockIndex" where
  "markValid NoNode bi = bi"
| "markValid (BlockNode f p a) bi =
    markValid p (if KnownValid (NodeStatus (BlockNode f p a) bi) then bi else SetStatusFlags (BlockNode f p a) statusValid bi)"

subsection \<open>The chain state\<close>

definition load_index :: "(blockIndex, 'a) act \<Rightarrow> (BlockChain, 'a) act" where
  "load_index m s = (case m (bc_index s) of (r, bi) \<Rightarrow> (r, s\<lparr>bc_index := bi\<rparr>))"

definition dbStoreBlock :: "block \<Rightarrow> (octets \<rightharpoonup> block) \<Rightarrow> (octets \<rightharpoonup> block)" where
  "dbStoreBlock b B = (if B (b_hash b) \<noteq> None then B else B(b_hash b \<mapsto> b))"

definition createChainState :: "startEnv \<Rightarrow> (BlockChain, unit) act" where
  "createChainState ste =
    (let b = ste_genesis ste; node = newBlockNode (ste_blockHash ste) (b_header b) NoNode;
         state = bestStateOf node b (of_nat (length (b_txs b))) (n_timestamp (blk node)) in
     bind_act (SetTip node) (\<lambda>_.
     bind_act (on_index (\<lambda>bi. addNode node (setStatus node (statusDataStored OR statusValid) bi))) (\<lambda>_.
     bind_act (upd_act (\<lambda>s. s\<lparr>bc_stateSnapshot := state\<rparr>)) (\<lambda>_.
     dbUpdate (upd_act (\<lambda>s. s\<lparr>db_blockIndex := dbStoreBlockNode (bc_index s) node Map.empty,
       db_mainChain := dbPutBlockIndex (hash_of node) (height_of node) (Map.empty, Map.empty),
       db_spendJournal := Map.empty, bc_utxoCache := (bc_utxoCache s)\<lparr>utxoBucket := Map.empty\<rparr>,
       db_chainState := Some (dbPutBestState state (n_workSum (blk node))),
       db_blocks := dbStoreBlock b (db_blocks s)\<rparr>))))))"

definition initChainState :: "chainEnv \<Rightarrow> startEnv \<Rightarrow> (BlockChain, unit) act" where
  "initChainState env ste = (\<lambda>s. case db_chainState s of
      None \<Rightarrow> createChainState ste s
    | Some serializedData \<Rightarrow>
        bind_act (lift_out (deserializeBestChainState serializedData)) (\<lambda>state.
        bind_act (load_index (loadRows (ste_blockHash ste) (ste_cursor ste (db_blockIndex s)) NoNode)) (\<lambda>_.
        bind_act (get_act (\<lambda>s. LookupNode (bcs_hash state) (bc_index s))) (\<lambda>t.
          if t = NoNode then fail_act ''initChainState: cannot find chain tip in block index''
          else
            bind_act (SetTip t) (\<lambda>_.
            bind_act (\<lambda>s. (case db_blocks s (bcs_hash state) of None \<Rightarrow> Err ''block does not exist'' | Some b \<Rightarrow> Ok b, s)) (\<lambda>b.
            bind_act (on_index (markValid t)) (\<lambda>_.
            bind_act (lift_out (CalcPastMedianTime t)) (\<lambda>medianTime.
            bind_act (upd_act (\<lambda>s. s\<lparr>bc_stateSnapshot := bestStateOf t b (bcs_totalTxns state) medianTime\<rparr>)) (\<lambda>_.
            flushIndex env)))))))) s)"

subsection \<open>Replaying blocks\<close>

text \<open>The nodes from the child of \<open>fork\<close> to the tip.  Every node has a height of at least 0, and beyond the first block the loop dereferences
  a nil pointer.\<close>

fun replayNodes :: "blockNode \<Rightarrow> blockNode \<Rightarrow> blockNode list \<Rightarrow> blockNode list outcome" where
  "replayNodes fork NoNode attach = Panic ''nil pointer dereference''"
| "replayNodes fork (BlockNode f p a) attach =
    (if n_height f < 0 \<or> BlockNode f p a = fork then Ok attach else replayNodes fork p (BlockNode f p a # attach))"

fun replayAll :: "(octets \<Rightarrow> octets option) \<Rightarrow> chainEnv \<Rightarrow> (blockNode \<Rightarrow> bool) \<Rightarrow> blockNode list \<Rightarrow> (BlockChain, unit) act" where
  "replayAll parse env interrupted [] = ret_act ()"
| "replayAll parse env interrupted (n # ns) =
    bind_act (dbFetchBlockByNode n) (\<lambda>b.
    bind_act (on_cache (cache_connectTransactions parse (b_txs b) (height_of n) None)) (\<lambda>_.
    bind_act (dbUpdate (on_cache (cache_flush parse (che_now env) FlushIfNeeded (hash_of n)))) (\<lambda>_.
      if interrupted n then fail_act ''interrupt requested'' else replayAll parse env interrupted ns)))"

definition setLastFlush :: "chainEnv \<Rightarrow> octets \<Rightarrow> (BlockChain, unit) act" where
  "setLastFlush env h = on_cache (upd_act (\<lambda>c. c\<lparr>lastFlushHash := h, lastFlushTime := che_now env\<rparr>))"

definition InitConsistentState :: "(octets \<Rightarrow> octets option) \<Rightarrow> chainEnv \<Rightarrow> (blockNode \<Rightarrow> bool) \<Rightarrow> blockNode \<Rightarrow> (BlockChain, unit) act" where
  "InitConsistentState parse env interrupted t = (\<lambda>s.
     if t = NoNode then (Panic ''nil pointer dereference'', s)
     else case stateConsistency (bc_utxoCache s) of
       None \<Rightarrow> bind_act (on_cache (upd_act (\<lambda>c. c\<lparr>stateConsistency := Some (hash_of t)\<rparr>))) (\<lambda>_. setLastFlush env (hash_of t)) s
     | Some statusBytes \<Rightarrow>
         if length statusBytes \<noteq> 32 then (Err ''invalid hash length'', s)
         else if statusBytes = hash_of t then setLastFlush env (hash_of t) s
         else let lastFlushNode = LookupNode statusBytes (bc_index s) in
           if lastFlushNode = NoNode then (Panic ''nil pointer dereference'', s)
           else let fork = findFork lastFlushNode (bc_bestChain s) in
             if fork = NoNode then (Err ''last utxo consistency status contains hash that is not in best chain'', s)
             else bind_act (lift_out (replayNodes fork t [])) (\<lambda>attach.
               bind_act (replayAll parse env interrupted attach) (\<lambda>_. setLastFlush env (hash_of t))) s)"

text \<open>A chain on the database of \<open>s\<close>, before anything is loaded.\<close>

definition freshChain :: "startEnv \<Rightarrow> BlockChain \<Rightarrow> BlockChain" where
  "freshChain ste s = s\<lparr>bc_index := newBlockIndex, bc_bestChain := \<lparr>cv_nodes = []\<rparr>,
     bc_utxoCache := newUtxoCache (utxoBucket (bc_utxoCache s)) (stateConsistency (bc_utxoCache s)) (ste_cacheSize ste),
     bc_stateSnapshot := \<lparr>bs_Hash = zeroHash, bs_Height = 0, bs_Bits = 0, bs_BlockSize = 0, bs_BlockWeight = 0, bs_NumTxns = 0, bs_TotalTxns = 0, bs_MedianTime = 0\<rparr>,
     bc_pruneTarget := ste_prune ste, bc_sent := []\<rparr>"

fun checkpointsSorted :: "int \<Rightarrow> int list \<Rightarrow> bool" where
  "checkpointsSorted prev [] = True"
| "checkpointsSorted prev (h # hs) = (h > prev \<and> checkpointsSorted h hs)"

definition chain_New :: "(octets \<Rightarrow> octets option) \<Rightarrow> chainEnv \<Rightarrow> startEnv \<Rightarrow> (BlockChain, unit) act" where
  "chain_New parse env ste = (\<lambda>s.
     if \<not> checkpointsSorted 0 (ste_checkpoints ste) then (Err ''blockchain.New checkpoints are not sorted by height'', s)
     else
       bind_act (initChainState env ste) (\<lambda>_.
       bind_act (lift_err (ste_upgrade ste)) (\<lambda>_.
       bind_act (lift_err (ste_indexInit ste)) (\<lambda>_.
       bind_act (lift_err (ste_thresholds ste)) (\<lambda>_.
       bind_act (get_act (\<lambda>s. tip (bc_bestChain s))) (InitConsistentState parse env (ste_interrupted ste)))))) (freshChain ste s))"

subsection \<open>The cache at a block\<close>

text \<open>Cache and database have the ledger of the block \<open>n\<close>, the database alone that of the last consistent block.\<close>

definition cache_at :: "(octets \<Rightarrow> octets option) \<Rightarrow> (octets \<rightharpoonup> block) \<Rightarrow> blockNode \<Rightarrow> utxoCache \<Rightarrow> bool" where
  "cache_at parse B n c \<longleftrightarrow> cache_inv parse c \<and> ledger parse c = ledgerAt B n \<and>
     (\<exists>m \<in> set (lineage n). dbCoins parse c = ledgerAt B m \<and> stateConsistency c = Some (hash_of m))"

lemma chain_cache_at: "chain_inv parse t s \<Longrightarrow> cache_at parse (db_blocks s) t (bc_utxoCache s)"
  by (simp add: chain_inv_def cache_at_def)

lemma replay_step:
  assumes "key_laws parse" and "branch_ok (db_blocks s) n" and "connectable (db_blocks s) n" and "n_parent n \<noteq> NoNode"
    and "cache_at parse (db_blocks s) (n_parent n) (bc_utxoCache s)" and "\<not> interrupted n"
  shows "\<exists>c. replayAll parse env interrupted (n # ns) s = replayAll parse env interrupted ns (s\<lparr>bc_utxoCache := c\<rparr>) \<and>
    cache_at parse (db_blocks s) n c"
proof -
  let ?B = "db_blocks s" and ?c = "bc_utxoCache s" and ?p = "n_parent n" and ?txs = "txsAt (db_blocks s) n"
  obtain b where b: "?B (hash_of n) = Some b" "?txs = b_txs b" using block_at [OF assms(2,4)] by metis
  have inv: "cache_inv parse ?c" "ledger parse ?c = ledgerAt ?B ?p" using assms(5) by (simp_all add: cache_at_def)
  obtain m where m: "m \<in> set (lineage ?p)" "dbCoins parse ?c = ledgerAt ?B m" "stateConsistency ?c = Some (hash_of m)"
    using assms(5) by (auto simp: cache_at_def)
  obtain c1 where c1: "cache_connectTransactions parse ?txs (height_of n) None ?c = (Ok None, c1)" and
    m1: "cache_inv parse c1" "ledger parse c1 = ledgerAt ?B n" "dbCoins parse c1 = dbCoins parse ?c" "stateConsistency c1 = stateConsistency ?c"
    using connect_at [OF assms(1-4) inv m(1,2), of None] by auto
  obtain c2 where c2: "cache_flush parse (che_now env) FlushIfNeeded (hash_of n) c1 = (Ok (), c2)" "cache_inv parse c2" "ledger parse c2 = ledgerAt ?B n"
    "dbCoins parse c2 = dbCoins parse ?c \<and> stateConsistency c2 = stateConsistency ?c \<or> dbCoins parse c2 = ledgerAt ?B n \<and> stateConsistency c2 = Some (hash_of n)"
    using flush_db [OF m1(1), of "che_now env" FlushIfNeeded "hash_of n"] m1(2-4) by auto
  have lin: "lineage n = n # lineage ?p" using assms(4) by (intro lineage_self) auto
  have "cache_at parse ?B n c2" unfolding cache_at_def using c2(2-4) m lin by (metis list.set_intros)
  moreover have "replayAll parse env interrupted (n # ns) s = replayAll parse env interrupted ns (s\<lparr>bc_utxoCache := c2\<rparr>)"
    using assms(4,6) b c1 c2(1) by (auto simp: dbFetchBlockByNode_def bind_act_def act_defs on_cache_def dbUpdate_def)
  ultimately show ?thesis by blast
qed

lemma replayAll_spec:
  assumes "key_laws parse" and "\<forall>n. \<not> interrupted n" and "pathUp m ns t" and "cache_at parse (db_blocks s) m (bc_utxoCache s)"
    and "\<forall>n \<in> set ns. branch_ok (db_blocks s) n \<and> connectable (db_blocks s) n \<and> n_parent n \<noteq> NoNode"
  shows "\<exists>c. replayAll parse env interrupted ns s = (Ok (), s\<lparr>bc_utxoCache := c\<rparr>) \<and> cache_at parse (db_blocks s) t c"
  using assms(3-5)
proof (induction ns arbitrary: m s)
  case Nil
  then show ?case by (intro exI [of _ "bc_utxoCache s"]) (simp add: act_defs)
next
  case (Cons n ns)
  then have n: "n_parent n = m" "pathUp n ns t" by simp_all
  obtain c where c: "replayAll parse env interrupted (n # ns) s = replayAll parse env interrupted ns (s\<lparr>bc_utxoCache := c\<rparr>)"
    "cache_at parse (db_blocks s) n c"
    using replay_step [OF assms(1), of s n interrupted env ns] Cons.prems n(1) assms(2) by auto
  from Cons.IH [OF n(2), of "s\<lparr>bc_utxoCache := c\<rparr>"] c Cons.prems(3) show ?case by auto
qed

text \<open>The nodes to replay.\<close>

lemma replayNodes_path:
  "m \<in> set (lineage t) \<Longrightarrow> \<forall>k \<in> set (lineage t). 0 \<le> height_of k \<Longrightarrow>
    \<exists>ms. replayNodes m t acc = Ok (ms @ acc) \<and> pathUp m ms t \<and> set ms \<subseteq> set (lineage t) \<and> (\<forall>k \<in> set ms. n_parent k \<noteq> NoNode)"
proof (induction t arbitrary: acc)
  case (BlockNode f p a)
  let ?n = "BlockNode f p a"
  show ?case
  proof (cases "?n = m")
    case True
    then show ?thesis by (intro exI [of _ "[]"]) (use BlockNode.prems(2) in auto)
  next
    case False
    then have p: "m \<in> set (lineage p)" "p \<noteq> NoNode" using BlockNode.prems(1) by (auto dest: lineage_some)
    obtain ms where ms: "replayNodes m p (?n # acc) = Ok (ms @ ?n # acc)" "pathUp m ms p" "set ms \<subseteq> set (lineage p)" "\<forall>k \<in> set ms. n_parent k \<noteq> NoNode"
      using BlockNode.IH(1) [OF p(1), of "?n # acc"] BlockNode.prems(2) by auto
    have "\<not> n_height f < 0" using BlockNode.prems(2) by auto
    then show ?thesis using ms False p(2) pathUp_snoc [OF ms(2), of ?n] by (intro exI [of _ "ms @ [?n]"]) auto
  qed
qed simp

lemma lineage_lower: "block_ok n \<Longrightarrow> x \<in> set (lineage n) \<Longrightarrow> x = n \<or> height_of x < height_of n"
proof (induction n rule: block_ok.induct)
  case (2 f p a)
  then show ?case by (auto split: if_splits)
qed simp

lemma findFork_self:
  assumes "view_of t c" and "m \<in> set (lineage t)" and "block_ok m"
  shows "findFork m c = m"
proof -
  have "m \<in> set (lineage m) \<inter> set (lineage t)" using lineage_self [of m] lineage_some [OF assms(2)] assms(2) by simp
  with findFork_highest [OF assms(1,3)] have "findFork m c \<in> set (lineage m)" "height_of m \<le> height_of (findFork m c)" by blast+
  then show ?thesis using lineage_lower [OF assms(3)] by fastforce
qed

lemma flushTime_upd: "cache_at parse B n (c\<lparr>lastFlushHash := h, lastFlushTime := k\<rparr>) = cache_at parse B n c"
proof -
  have db: "dbCoins parse (c\<lparr>lastFlushHash := h, lastFlushTime := k\<rparr>) = dbCoins parse c" by (simp add: dbCoins_def)
  have "ledger parse (c\<lparr>lastFlushHash := h, lastFlushTime := k\<rparr>) = ledger parse c" by (rule ext) (simp add: ledger_def db split: option.split)
  then show ?thesis by (simp add: cache_at_def cache_inv_def db)
qed

lemma branch_nonneg: "branch_ok B t \<Longrightarrow> k \<in> set (lineage t) \<Longrightarrow> block_ok k \<and> 0 \<le> height_of k"
  using branch_mem [of B t k] block_ok_nonneg [of k] lineage_some [of k t] by (auto simp: branch_ok_def)

text \<open>Whatever block of the branch the stored outputs are at, the cache is at the tip afterwards.\<close>

lemma InitConsistentState_spec:
  assumes "key_laws parse" and "\<forall>n. \<not> interrupted n" and "view_of t (bc_bestChain s)" and "branch_ok (db_blocks s) t" and "m \<in> set (lineage t)"
    and "\<forall>k \<in> set (lineage t). n_parent k \<noteq> NoNode \<longrightarrow> connectable (db_blocks s) k"
    and "cache_at parse (db_blocks s) m (bc_utxoCache s)" and "stateConsistency (bc_utxoCache s) = Some (hash_of m)" and "length (hash_of m) = 32"
    and "LookupNode (hash_of m) (bc_index s) = m"
  shows "\<exists>c. InitConsistentState parse env interrupted t s = (Ok (), s\<lparr>bc_utxoCache := c\<rparr>) \<and> cache_at parse (db_blocks s) t c \<and> lastFlushHash c = hash_of t"
proof -
  let ?done = "\<lambda>c. c\<lparr>lastFlushHash := hash_of t, lastFlushTime := che_now env\<rparr>"
  have some: "t \<noteq> NoNode" "m \<noteq> NoNode" using assms(5) lineage_some by auto
  show ?thesis
  proof (cases "hash_of m = hash_of t")
    case True
    have "t \<in> set (lineage t)" using lineage_self [OF some(1)] by simp
    moreover have "inj_on hash_of (set (lineage t))" using assms(4) by (simp add: branch_ok_def distinct_map)
    ultimately have "m = t" using True assms(5) by (auto dest: inj_onD)
    then show ?thesis using assms(7-9) some(1)
      by (intro exI [of _ "?done (bc_utxoCache s)"]) (simp add: flushTime_upd InitConsistentState_def setLastFlush_def on_cache_def act_defs)
  next
    case False
    have fork: "findFork m (bc_bestChain s) = m" using findFork_self [OF assms(3,5)] branch_nonneg [OF assms(4,5)] by simp
    obtain ns where ns: "replayNodes m t [] = Ok ns" "pathUp m ns t" "set ns \<subseteq> set (lineage t)" "\<forall>k \<in> set ns. n_parent k \<noteq> NoNode"
      using replayNodes_path [OF assms(5), of "[]"] branch_nonneg [OF assms(4)] by auto
    have "\<forall>n \<in> set ns. branch_ok (db_blocks s) n \<and> connectable (db_blocks s) n \<and> n_parent n \<noteq> NoNode"
      using ns(3,4) assms(6) branch_mem [OF assms(4)] by blast
    from replayAll_spec [OF assms(1,2) ns(2) assms(7) this] obtain c where
      c: "replayAll parse env interrupted ns s = (Ok (), s\<lparr>bc_utxoCache := c\<rparr>)" "cache_at parse (db_blocks s) t c" by blast
    then show ?thesis using assms(8-10) some False fork ns(1)
      by (intro exI [of _ "?done c"]) (simp add: flushTime_upd InitConsistentState_def setLastFlush_def on_cache_def act_defs bind_act_def Let_def)
  qed
qed

subsection \<open>The rows of an index\<close>

text \<open>The cursor of the database lists the pairs of a bucket in the order of the bytes of their keys.\<close>

definition cursor_laws :: "(bucket \<Rightarrow> (octets \<times> octets) list) \<Rightarrow> bool" where
  "cursor_laws cursor \<longleftrightarrow> (\<forall>b. finite (dom b) \<longrightarrow> sorted (map fst (cursor b)) \<and> distinct (map fst (cursor b)) \<and> map_of (cursor b) = b)"

definition keyOf :: "blockNode \<Rightarrow> octets" where
  "keyOf n = blockIndexKey (hash_of n) (word_of_int (height_of n))"

definition rowOf :: "blockIndex \<Rightarrow> blockNode \<Rightarrow> octets" where
  "rowOf bi n = writeBlockHeader (nodeHeader n) @ [NodeStatus n bi]"

definition stored_index :: "blockIndex \<Rightarrow> bucket \<Rightarrow> bool" where
  "stored_index bi b \<longleftrightarrow> dom b = keyOf ` ran (bi_index bi) \<and> (\<forall>n \<in> ran (bi_index bi). b (keyOf n) = Some (rowOf bi n))"

text \<open>An index: a tree of nodes, each made from its header, with one root, and with fields in the range of their types.\<close>

definition node_fits :: "blockNode \<Rightarrow> bool" where
  "node_fits n \<longleftrightarrow> length (hash_of n) = 32 \<and> length (n_merkleRoot (blk n)) = 32 \<and> n_version (blk n) \<in> {- (2 ^ 31) ..< 2 ^ 31} \<and>
     n_timestamp (blk n) \<in> {0 ..< 2 ^ 32} \<and> height_of n < 2 ^ 31"

definition index_ok :: "(BlockHeader \<Rightarrow> octets) \<Rightarrow> blockIndex \<Rightarrow> bool" where
  "index_ok bh bi \<longleftrightarrow> finite (ran (bi_index bi)) \<and>
     (\<forall>h n. bi_index bi h = Some n \<longrightarrow> hash_of n = h \<and> n \<noteq> NoNode \<and> node_fits n \<and> newBlockNode bh (nodeHeader n) (n_parent n) = n \<and>
        (n_parent n \<noteq> NoNode \<longrightarrow> n_parent n \<in> ran (bi_index bi))) \<and>
     (\<forall>n \<in> ran (bi_index bi). \<forall>m \<in> ran (bi_index bi). n_parent n = NoNode \<longrightarrow> n_parent m = NoNode \<longrightarrow> n = m)"

lemma index_node:
  assumes "index_ok bh bi" and "n \<in> ran (bi_index bi)"
  shows "bi_index bi (hash_of n) = Some n" "n \<noteq> NoNode" "node_fits n" "newBlockNode bh (nodeHeader n) (n_parent n) = n"
    "n_parent n \<noteq> NoNode \<Longrightarrow> n_parent n \<in> ran (bi_index bi)"
  using assms by (auto simp: index_ok_def ran_def)

lemma index_height: "index_ok bh bi \<Longrightarrow> n \<in> ran (bi_index bi) \<Longrightarrow>
  (if n_parent n = NoNode then height_of n = 0 else height_of n = height_of (n_parent n) + 1) \<and> 0 \<le> height_of n"
proof (induction n)
  case (BlockNode f p a)
  note n = index_node [OF BlockNode.prems]
  have "height_of (newBlockNode bh (nodeHeader (BlockNode f p a)) p) = (if p = NoNode then 0 else height_of p + 1)"
    by (simp add: newBlockNode_def Let_def)
  then have "n_height f = (if p = NoNode then 0 else height_of p + 1)" using n(4) by simp
  moreover have "0 \<le> height_of p" if "p \<noteq> NoNode" using BlockNode.IH(1) [OF BlockNode.prems(1)] n(5) that by simp
  ultimately show ?case by auto
qed (auto dest: index_node(2))

text \<open>The keys are ordered by height.\<close>

lemma littleEndian_snoc: "littleEndian (xs @ [x]) = littleEndian xs + 256 ^ length xs * unat x"
  by (induction xs) (simp_all add: algebra_simps)

lemma littleEndian_less: "littleEndian xs < 256 ^ length xs"
proof (induction xs)
  case (Cons x xs)
  have "unat x < 256" using unsigned_less [of x, where ?'a = nat] by simp
  then have "unat x + 256 * littleEndian xs < 256 + 256 * littleEndian xs" by simp
  also have "\<dots> \<le> 256 * 256 ^ length xs" using Cons by simp
  finally show ?case by simp
qed simp

lemma bigEndian_mono: "length xs = length ys \<Longrightarrow> xs @ u \<le> ys @ v \<Longrightarrow> littleEndian (rev xs) \<le> littleEndian (rev ys)" for xs ys :: octets
proof (induction xs ys rule: list_induct2)
  case (Cons x xs y ys)
  then have "x < y \<or> x = y \<and> xs @ u \<le> ys @ v" by auto
  then show ?case
  proof
    assume "x < y"
    then have "256 ^ length xs * Suc (unat x) \<le> 256 ^ length xs * unat y" by (simp only: word_less_nat_alt Suc_le_eq mult_le_mono2)
    moreover have "littleEndian (rev xs) < 256 ^ length xs" using littleEndian_less [of "rev xs"] by simp
    ultimately show ?thesis using Cons.hyps by (simp add: littleEndian_snoc)
  next
    assume "x = y \<and> xs @ u \<le> ys @ v"
    then show ?thesis using Cons by (simp add: littleEndian_snoc)
  qed
qed simp

lemma keyOf_mono:
  assumes "0 \<le> height_of n" and "height_of n < 2 ^ 31" and "0 \<le> height_of m" and "height_of m < 2 ^ 31" and "keyOf n \<le> keyOf m"
  shows "height_of n \<le> height_of m"
proof -
  have h: "unat (word_of_int (height_of k) :: 32 word) = nat (height_of k)" if "0 \<le> height_of k" "height_of k < 2 ^ 31" for k
    using that by (simp add: unat_eq_nat_uint uint_word_of_int)
  have "littleEndian (rev (rev (putLE 4 (unat (word_of_int (height_of n) :: 32 word))))) \<le> littleEndian (rev (rev (putLE 4 (unat (word_of_int (height_of m) :: 32 word)))))"
    by (rule bigEndian_mono) (use assms(5) in \<open>simp_all add: keyOf_def blockIndexKey_def\<close>)
  then show ?thesis using assms(1-4) by (simp add: putLE_word h)
qed

lemma keyOf_inj: "index_ok bh bi \<Longrightarrow> inj_on keyOf (ran (bi_index bi))"
proof (rule inj_onI)
  fix n m
  assume a: "index_ok bh bi" "n \<in> ran (bi_index bi)" "m \<in> ran (bi_index bi)" "keyOf n = keyOf m"
  then have "hash_of n = hash_of m" by (simp add: keyOf_def blockIndexKey_def)
  then show "n = m" using index_node(1) [OF a(1,2)] index_node(1) [OF a(1,3)] by (metis option.inject)
qed

lemma row_read:
  assumes "node_fits n" and "n_parent n \<noteq> NoNode \<Longrightarrow> length (hash_of (n_parent n)) = 32"
  shows "deserializeBlockRow (rowOf bi n) = Ok (nodeHeader n, NodeStatus n bi)"
proof -
  have "readBlockHeader (rowOf bi n) = Ok (nodeHeader n, [NodeStatus n bi])"
    unfolding rowOf_def by (rule header_roundtrip) (use assms in \<open>auto simp: nodeHeader_def node_fits_def\<close>)
  then show ?thesis by (simp add: deserializeBlockRow_def)
qed

text \<open>Loading the rows of the nodes \<open>ns\<close>, in the order of their heights, when those of \<open>P\<close> have been loaded.\<close>

definition loads_nodes :: "blockIndex \<Rightarrow> blockNode set \<Rightarrow> blockIndex \<Rightarrow> bool" where
  "loads_nodes bi P bi' \<longleftrightarrow> bi_dirty bi' = {} \<and> (\<forall>n \<in> P. NodeStatus n bi' = NodeStatus n bi) \<and>
     (\<forall>h n. bi_index bi' h = Some n \<longleftrightarrow> n \<in> P \<and> hash_of n = h)"

lemma loads_step:
  assumes "index_ok bh bi" and "loads_nodes bi P bi'" and "insert n P \<subseteq> ran (bi_index bi)" and "n \<notin> P"
  shows "loads_nodes bi (insert n P) (addNode n (setStatus n (NodeStatus n bi) bi'))"
proof -
  have apart: "m = n" if "m \<in> P" "hash_of m = hash_of n" for m
    using index_node(1) [OF assms(1), of m] index_node(1) [OF assms(1), of n] assms(3) that by (metis insert_subset option.inject subsetD)
  show ?thesis unfolding loads_nodes_def addNode_def setStatus_def NodeStatus_def
    using assms(2,4) apart by (auto simp: loads_nodes_def NodeStatus_def)
qed

lemma rowParent_spec:
  assumes "index_ok bh bi" and "loads_nodes bi P bi'" and "n \<in> ran (bi_index bi)" and "P \<subseteq> ran (bi_index bi)"
    and "if P = {} then lastNode = NoNode \<and> n_parent n = NoNode else lastNode \<in> P \<and> n_parent n \<in> P"
  shows "rowParent (nodeHeader n) lastNode bi' = Ok (n_parent n)"
proof (cases "P = {}")
  case True
  then show ?thesis using assms(5) by (simp add: rowParent_def)
next
  case False
  then have p: "lastNode \<in> P" "n_parent n \<in> P" using assms(5) by simp_all
  then have some: "lastNode \<noteq> NoNode" "n_parent n \<noteq> NoNode" using index_node(2) [OF assms(1)] assms(4) by auto
  then have prev: "bh_PrevBlock (nodeHeader n) = hash_of (n_parent n)" by (simp add: nodeHeader_def)
  have "lastNode = n_parent n" if "hash_of (n_parent n) = hash_of lastNode"
    using index_node(1) [OF assms(1), of lastNode] index_node(1) [OF assms(1), of "n_parent n"] p assms(4) that by (metis option.inject subsetD)
  moreover have "bi_index bi' (hash_of (n_parent n)) = Some (n_parent n)" using p(2) assms(2) by (simp add: loads_nodes_def)
  ultimately show ?thesis using some by (simp add: rowParent_def prev LookupNode_def Let_def)
qed

lemma loadRows_spec:
  assumes "index_ok bh bi" and "loads_nodes bi P bi'" and "P \<union> set ns = ran (bi_index bi)" and "P \<inter> set ns = {}" and "distinct ns"
    and "sorted (map height_of ns)" and "P = {} \<Longrightarrow> lastNode = NoNode" and "P \<noteq> {} \<Longrightarrow> lastNode \<in> P \<and> (\<exists>g \<in> P. n_parent g = NoNode)"
  shows "\<exists>bi''. loadRows bh (map (\<lambda>n. (keyOf n, rowOf bi n)) ns) lastNode bi' = (Ok (), bi'') \<and> loads_nodes bi (ran (bi_index bi)) bi''"
  using assms(2-8)
proof (induction ns arbitrary: P lastNode bi')
  case Nil
  then show ?case by (simp add: act_defs)
next
  case (Cons n ns)
  let ?N = "ran (bi_index bi)"
  have n: "n \<in> ?N" "insert n P \<subseteq> ?N" "n \<notin> P" using Cons.prems(2,3) by auto
  note node = index_node [OF assms(1) n(1)]
  have early: "n_parent n \<in> P" if "n_parent n \<noteq> NoNode"
  proof -
    have "height_of (n_parent n) < height_of n" using index_height [OF assms(1) n(1)] that by simp
    then have "n_parent n \<notin> set (n # ns)" using Cons.prems(5) by auto
    then show ?thesis using node(5) [OF that] Cons.prems(2) by auto
  qed
  have root: "P = {}" if "n_parent n = NoNode"
  proof (rule ccontr)
    assume "P \<noteq> {}"
    then obtain g where "g \<in> P" "n_parent g = NoNode" using Cons.prems(7) by blast
    then have "g = n" using assms(1) n that unfolding index_ok_def by blast
    then show False using \<open>g \<in> P\<close> n(3) by simp
  qed
  have "if P = {} then lastNode = NoNode \<and> n_parent n = NoNode else lastNode \<in> P \<and> n_parent n \<in> P"
    using early root Cons.prems(6,7) by auto
  then have par: "rowParent (nodeHeader n) lastNode bi' = Ok (n_parent n)"
    using rowParent_spec [OF assms(1) Cons.prems(1) n(1)] Cons.prems(2) by blast
  have "length (hash_of (n_parent n)) = 32" if "n_parent n \<noteq> NoNode" using index_node(3) [OF assms(1) node(5) [OF that]] by (simp add: node_fits_def)
  then have row: "deserializeBlockRow (rowOf bi n) = Ok (nodeHeader n, NodeStatus n bi)" by (rule row_read [OF node(3)])
  let ?bi = "addNode n (setStatus n (NodeStatus n bi) bi')"
  have run: "loadRows bh (map (\<lambda>n. (keyOf n, rowOf bi n)) (n # ns)) lastNode bi' = loadRows bh (map (\<lambda>n. (keyOf n, rowOf bi n)) ns) n ?bi"
    using row par node(4) by (simp add: bind_act_def act_defs Let_def)
  have "\<exists>g \<in> insert n P. n_parent g = NoNode" using early root Cons.prems(7) by blast
  then show ?case unfolding run
    using Cons.prems(2-5) n(3) by (intro Cons.IH [OF loads_step [OF assms(1) Cons.prems(1) n(2,3)]]) auto
qed

lemma cursor_rows:
  assumes "index_ok bh bi" and "stored_index bi b" and "cursor_laws cursor"
  obtains ns where "cursor b = map (\<lambda>n. (keyOf n, rowOf bi n)) ns" "set ns = ran (bi_index bi)" "distinct ns" "sorted (map height_of ns)"
proof
  let ?N = "ran (bi_index bi)" and ?node = "the_inv_into (ran (bi_index bi)) keyOf"
  define ns where "ns = map (?node \<circ> fst) (cursor b)"
  have inj: "inj_on keyOf ?N" by (rule keyOf_inj [OF assms(1)])
  have dom: "dom b = keyOf ` ?N" "\<And>n. n \<in> ?N \<Longrightarrow> b (keyOf n) = Some (rowOf bi n)" using assms(2) by (simp_all add: stored_index_def)
  have "finite (dom b)" using dom(1) assms(1) by (simp add: index_ok_def)
  then have cur: "sorted (map fst (cursor b))" "distinct (map fst (cursor b))" "map_of (cursor b) = b" using assms(3) by (simp_all add: cursor_laws_def)
  have row: "\<exists>n \<in> ?N. r = (keyOf n, rowOf bi n) \<and> ?node (fst r) = n" if "r \<in> set (cursor b)" for r
  proof -
    have "b (fst r) = Some (snd r)" using map_of_is_SomeI [OF cur(2), of "fst r" "snd r"] that cur(3) by simp
    moreover from this obtain n where "n \<in> ?N" "fst r = keyOf n" using dom(1) by blast
    ultimately show ?thesis using dom(2) the_inv_into_f_f [OF inj] by (intro bexI [of _ n]) (auto intro: prod_eqI)
  qed
  then show "cursor b = map (\<lambda>n. (keyOf n, rowOf bi n)) ns" unfolding ns_def by (intro nth_equalityI) (auto dest!: nth_mem)
  then have keys: "map fst (cursor b) = map keyOf ns" by (simp add: comp_def)
  show "distinct ns" using cur(2) unfolding keys by (simp add: distinct_map)
  have sub: "set ns \<subseteq> ?N" using row unfolding ns_def by fastforce
  have "keyOf ` set ns = keyOf ` ?N" using keys cur(3) dom(1) by (metis dom_map_of_conv_image_fst list.set_map)
  then show "set ns = ?N" using inj sub by (metis inj_on_image_eq_iff order_refl)
  show "sorted (map height_of ns)" unfolding sorted_map
  proof (rule sorted_wrt_mono_rel)
    show "sorted_wrt (\<lambda>x y. keyOf x \<le> keyOf y) ns" using cur(1) unfolding keys by (simp add: sorted_map)
    fix x y
    assume "x \<in> set ns" "y \<in> set ns" "keyOf x \<le> keyOf y"
    moreover have "0 \<le> height_of k \<and> height_of k < 2 ^ 31" if "k \<in> set ns" for k
      using that sub index_height [OF assms(1), of k] index_node(3) [OF assms(1), of k] by (auto simp: node_fits_def)
    ultimately show "height_of x \<le> height_of y" using keyOf_mono [of x y] by blast
  qed
qed

lemma reload_spec:
  assumes "index_ok bh bi" and "stored_index bi b" and "cursor_laws cursor"
  shows "\<exists>bi'. loadRows bh (cursor b) NoNode newBlockIndex = (Ok (), bi') \<and> bi_index bi' = bi_index bi \<and> bi_dirty bi' = {} \<and>
    (\<forall>n \<in> ran (bi_index bi). NodeStatus n bi' = NodeStatus n bi)"
proof -
  obtain ns where ns: "cursor b = map (\<lambda>n. (keyOf n, rowOf bi n)) ns" "set ns = ran (bi_index bi)" "distinct ns" "sorted (map height_of ns)"
    by (rule cursor_rows [OF assms])
  have "loads_nodes bi {} newBlockIndex" by (simp add: loads_nodes_def newBlockIndex_def)
  from loadRows_spec [OF assms(1) this, of ns NoNode] ns obtain bi' where
    r: "loadRows bh (cursor b) NoNode newBlockIndex = (Ok (), bi')" "loads_nodes bi (ran (bi_index bi)) bi'" by auto
  have "bi_index bi' h = bi_index bi h" for h
  proof (cases "bi_index bi h")
    case None
    then have "hash_of n \<noteq> h" if "n \<in> ran (bi_index bi)" for n using index_node(1) [OF assms(1) that] by auto
    then show ?thesis using r(2) None by (auto simp: loads_nodes_def) (metis not_Some_eq)
  next
    case (Some n)
    then show ?thesis using r(2) assms(1) by (auto simp: loads_nodes_def index_ok_def ran_def)
  qed
  then show ?thesis using r by (auto simp: loads_nodes_def)
qed

lemma store_row: "dbStoreBlockNode bi n b = b(keyOf n \<mapsto> rowOf bi n)"
  by (simp add: dbStoreBlockNode_def keyOf_def rowOf_def)

lemma flush_stored:
  assumes "index_ok bh bi" and "set order = bi_dirty bi" and "bi_dirty bi \<subseteq> ran (bi_index bi)" and "dom b \<subseteq> keyOf ` ran (bi_index bi)"
    and "\<forall>n \<in> ran (bi_index bi) - bi_dirty bi. b (keyOf n) = Some (rowOf bi n)"
  shows "stored_index bi (snd (flushToDB order (bi, b)))"
proof -
  let ?N = "ran (bi_index bi)"
  have inj: "inj_on keyOf ?N" by (rule keyOf_inj [OF assms(1)])
  have "fold (dbStoreBlockNode bi) ns c k = (if k \<in> keyOf ` set ns then Some (rowOf bi (the_inv_into ?N keyOf k)) else c k)" if "set ns \<subseteq> ?N" for ns c k
    using that
  proof (induction ns arbitrary: c)
    case (Cons n ns)
    have "the_inv_into ?N keyOf (keyOf n) = n" using the_inv_into_f_f [OF inj] Cons.prems by simp
    then show ?case using Cons by (auto simp: store_row)
  qed simp
  from this [of order b] assms(2,3) have f: "fold (dbStoreBlockNode bi) order b k = (if k \<in> keyOf ` bi_dirty bi then Some (rowOf bi (the_inv_into ?N keyOf k)) else b k)" for k
    by simp
  have "snd (flushToDB order (bi, b)) = fold (dbStoreBlockNode bi) order b" using assms(2) by (cases "order = []") (auto simp: flushToDB_def)
  moreover have "fold (dbStoreBlockNode bi) order b (keyOf n) = Some (rowOf bi n)" if "n \<in> ?N" for n
  proof (cases "n \<in> bi_dirty bi")
    case True
    then show ?thesis using f the_inv_into_f_f [OF inj that] by simp
  next
    case False
    then have "keyOf n \<notin> keyOf ` bi_dirty bi" using inj_on_image_mem_iff [OF inj that assms(3)] by simp
    then show ?thesis using f assms(5) False that by simp
  qed
  moreover have "fold (dbStoreBlockNode bi) order b k = None" if "k \<notin> keyOf ` ?N" for k using f assms(3,4) that by auto
  ultimately show ?thesis unfolding stored_index_def by (auto simp: domIff) (metis option.distinct(1))
qed

subsection \<open>Starting after a crash\<close>

lemma lineage_shorter: "x \<in> set (lineage p) \<Longrightarrow> length (lineage x) \<le> length (lineage p)"
  by (induction p) auto

lemma markValid_spec:
  "bi_index (markValid t bi) = bi_index bi" "bi_status (markValid t bi) n =
    (if n \<in> set (lineage t) \<and> \<not> KnownValid (bi_status bi n) then bi_status bi n OR statusValid else bi_status bi n)"
proof (induction t arbitrary: bi)
  case (BlockNode f p a)
  let ?n = "BlockNode f p a"
  have new: "?n \<notin> set (lineage p)" using lineage_shorter [of ?n p] by auto
  { case 1 then show ?case using BlockNode.IH(1) by (simp add: SetStatusFlags_def) }
  { case 2 then show ?case using BlockNode.IH(2) new by (auto simp: SetStatusFlags_def NodeStatus_def) }
qed simp_all

lemma fresh_cache:
  assumes "cache_inv parse c" and "dbCoins parse c = ledgerAt B m" and "stateConsistency c = Some (hash_of m)" and "m \<noteq> NoNode"
  shows "cache_at parse B m (newUtxoCache (utxoBucket c) (stateConsistency c) k)"
proof -
  let ?c = "newUtxoCache (utxoBucket c) (stateConsistency c) k"
  have f: "ms_get (cachedEntries ?c) = Map.empty" "slice_ok (cachedEntries ?c)" "utxoBucket ?c = utxoBucket c" "stateConsistency ?c = stateConsistency c"
    by (simp_all add: newUtxoCache_def ms_get_def fun_eq_iff slice_ok_def)
  have db: "dbCoins parse ?c = dbCoins parse c" by (rule dbCoins_bucket [OF f(3)])
  have "ledger parse ?c = dbCoins parse c" by (rule ext) (simp add: ledger_def f(1) db)
  moreover have "cache_inv parse ?c" using assms(1) by (simp add: cache_inv_def f(1,2,3) db)
  ultimately show ?thesis using assms(2-4) f(4) db lineage_self [OF assms(4)] by (auto simp: cache_at_def)
qed

lemma index_lineage: "index_ok bh bi \<Longrightarrow> t \<in> ran (bi_index bi) \<Longrightarrow> set (lineage t) \<subseteq> ran (bi_index bi)"
proof (induction t)
  case (BlockNode f p a)
  note n = index_node(5) [OF BlockNode.prems]
  show ?case
  proof (cases "p = NoNode")
    case True
    then show ?thesis using BlockNode.prems(2) by simp
  next
    case False
    then show ?thesis using BlockNode.IH(1) [OF BlockNode.prems(1)] BlockNode.prems(2) n by simp
  qed
qed simp

text \<open>Loading the chain state that was stored.\<close>

lemma initChainState_spec:
  assumes "chain_inv parse t s" and "index_ok (ste_blockHash ste) (bc_index s)" and "stored_index (bc_index s) (db_blockIndex s)"
    and "t \<in> ran (bi_index (bc_index s))" and "cursor_laws (ste_cursor ste)"
  shows "\<exists>bi v d. initChainState env ste (freshChain ste s) =
      (Ok (), (freshChain ste s)\<lparr>bc_bestChain := v, bc_index := bi, bc_stateSnapshot := bc_stateSnapshot s, db_blockIndex := d\<rparr>) \<and>
    view_of t v \<and> bi_index bi = bi_index (bc_index s) \<and>
    (\<forall>n \<in> ran (bi_index bi). bi_status bi n =
      (if n \<in> set (lineage t) \<and> \<not> KnownValid (bi_status (bc_index s) n) then bi_status (bc_index s) n OR statusValid else bi_status (bc_index s) n))"
proof -
  let ?f = "freshChain ste s" and ?B = "db_blocks s"
  have t: "t \<noteq> NoNode" "block_ok t" "branch_ok ?B t" using assms(1) by (simp_all add: chain_inv_def branch_ok_def)
  obtain mt k w where sy: "CalcPastMedianTime t = Ok mt" "0 \<le> w" "w < 256 ^ 64" "bc_stateSnapshot s = bestStateOf t (blockAt ?B t) k mt"
    "db_chainState s = Some (dbPutBestState (bc_stateSnapshot s) w)"
    using assms(1) by (auto simp: chain_inv_def synced_def)
  note node = index_node [OF assms(2,4)]
  let ?st = "\<lparr>bcs_hash = hash_of t, bcs_height = word_of_int (height_of t), bcs_totalTxns = k, bcs_workSum = w\<rparr>"
  have "dbPutBestState (bc_stateSnapshot s) w = serializeBestChainState ?st"
    by (simp add: sy(4) dbPutBestState_def bestStateOf_def newBestState_def)
  then have de: "deserializeBestChainState (dbPutBestState (bc_stateSnapshot s) w) = Ok ?st"
    using best_state_roundtrip [of ?st] sy(2,3) node(3) by (simp add: node_fits_def)
  obtain bi where bi: "loadRows (ste_blockHash ste) (ste_cursor ste (db_blockIndex s)) NoNode newBlockIndex = (Ok (), bi)"
    "bi_index bi = bi_index (bc_index s)" "\<forall>n \<in> ran (bi_index (bc_index s)). NodeStatus n bi = NodeStatus n (bc_index s)"
    using reload_spec [OF assms(2,3,5)] by blast
  obtain v where v: "setTip t \<lparr>cv_nodes = []\<rparr> = Ok v" "view_of t v" using setTip_spec [of NoNode "\<lparr>cv_nodes = []\<rparr>" t] t(2) by (auto simp: view_of_def)
  have blk: "?B (hash_of t) = Some (blockAt ?B t)" using branch_block [OF t(3,1)] by (metis blockAt_def option.sel)
  define s1 where "s1 = ?f\<lparr>bc_bestChain := v, bc_index := markValid t bi, bc_stateSnapshot := bc_stateSnapshot s\<rparr>"
  obtain bi' d where fl: "flushIndex env s1 = (Ok (), s1\<lparr>bc_index := bi', db_blockIndex := d\<rparr>)" "bi_status bi' = bi_status (bc_index s1)"
    using flushIndex_eq by blast
  have "bi_index (bc_index (snd (flushIndex env s1))) = bi_index (bc_index s1)" by (simp add: flushIndex_def flushToDB_def act_defs)
  then have same: "bi_index bi' = bi_index (bc_index s1)" using fl(1) by simp
  have "initChainState env ste ?f = flushIndex env s1"
    using sy(1,4,5) de bi(1,2) node(1) v(1) blk t(1)
    by (simp add: initChainState_def freshChain_def load_index_def LookupNode_def SetTip_def on_index_def bind_act_def act_defs s1_def)
  then show ?thesis using fl same v(2) bi(2,3)
    by (intro exI [of _ bi'] exI [of _ v] exI [of _ d]) (simp add: s1_def markValid_spec NodeStatus_def)
qed

lemma cache_chain:
  assumes "chain_inv parse t s" and "cache_at parse (db_blocks s) t c" and "view_of t v" and "bc_utxoCache s' = c" and "bc_bestChain s' = v"
    and "db_blocks s' = db_blocks s" and "db_spendJournal s' = db_spendJournal s" and "bc_stateSnapshot s' = bc_stateSnapshot s" and "db_chainState s' = db_chainState s"
  shows "chain_inv parse t s'"
  using assms by (simp add: chain_inv_def cache_at_def synced_def)

lemma restart_spec:
  assumes "key_laws parse" and "cursor_laws (ste_cursor ste)" and "chain_inv parse t s" and "index_ok (ste_blockHash ste) (bc_index s)"
    and "stored_index (bc_index s) (db_blockIndex s)" and "t \<in> ran (bi_index (bc_index s))"
    and "checkpointsSorted 0 (ste_checkpoints ste)" and "ste_upgrade ste = None" and "ste_indexInit ste = None" and "ste_thresholds ste = None"
    and "\<forall>n. \<not> ste_interrupted ste n"
  shows "\<exists>s'. chain_New parse env ste s = (Ok (), s') \<and> chain_inv parse t s' \<and> bc_stateSnapshot s' = bc_stateSnapshot s \<and>
    bi_index (bc_index s') = bi_index (bc_index s) \<and> db_blocks s' = db_blocks s \<and> lastFlushHash (bc_utxoCache s') = hash_of t \<and>
    (\<forall>n \<in> ran (bi_index (bc_index s)). NodeStatus n (bc_index s') =
      (if n \<in> set (lineage t) \<and> \<not> KnownValid (NodeStatus n (bc_index s)) then NodeStatus n (bc_index s) OR statusValid else NodeStatus n (bc_index s)))"
proof -
  obtain bi v d where init: "initChainState env ste (freshChain ste s) =
      (Ok (), (freshChain ste s)\<lparr>bc_bestChain := v, bc_index := bi, bc_stateSnapshot := bc_stateSnapshot s, db_blockIndex := d\<rparr>)" "view_of t v"
    "bi_index bi = bi_index (bc_index s)" "\<forall>n \<in> ran (bi_index bi). bi_status bi n =
      (if n \<in> set (lineage t) \<and> \<not> KnownValid (bi_status (bc_index s) n) then bi_status (bc_index s) n OR statusValid else bi_status (bc_index s) n)"
    using initChainState_spec [OF assms(3-6,2)] by blast
  define s1 where "s1 = (freshChain ste s)\<lparr>bc_bestChain := v, bc_index := bi, bc_stateSnapshot := bc_stateSnapshot s, db_blockIndex := d\<rparr>"
  have inv: "cache_inv parse (bc_utxoCache s)" "branch_ok (db_blocks s) t"
    "\<forall>k \<in> set (lineage t). n_parent k \<noteq> NoNode \<longrightarrow> connectable (db_blocks s) k" using assms(3) by (simp_all add: chain_inv_def)
  obtain m where m: "m \<in> set (lineage t)" "dbCoins parse (bc_utxoCache s) = ledgerAt (db_blocks s) m" "stateConsistency (bc_utxoCache s) = Some (hash_of m)"
    using assms(3) by (auto simp: chain_inv_def)
  have node: "bi_index bi (hash_of m) = Some m" "length (hash_of m) = 32" "m \<noteq> NoNode"
    using index_node [OF assms(4), of m] index_lineage [OF assms(4,6)] m(1) init(3) by (auto simp: node_fits_def)
  have "cache_at parse (db_blocks s1) m (bc_utxoCache s1)" "stateConsistency (bc_utxoCache s1) = Some (hash_of m)"
    using fresh_cache [OF inv(1) m(2,3) node(3)] m(3) by (simp_all add: s1_def freshChain_def newUtxoCache_def)
  then obtain c where c: "InitConsistentState parse env (ste_interrupted ste) t s1 = (Ok (), s1\<lparr>bc_utxoCache := c\<rparr>)" "cache_at parse (db_blocks s) t c" "lastFlushHash c = hash_of t"
    using InitConsistentState_spec [OF assms(1,11), of t s1 m env] inv(2,3) m(1) node init(2) by (auto simp: s1_def freshChain_def LookupNode_def)
  have "tip (bc_bestChain s1) = t" using view_tip [OF init(2)] by (simp add: s1_def)
  then have "chain_New parse env ste s = (Ok (), s1\<lparr>bc_utxoCache := c\<rparr>)"
    using init(1) c(1) assms(7-10) by (simp add: chain_New_def s1_def [symmetric] bind_act_def act_defs lift_err_def)
  moreover have "chain_inv parse t (s1\<lparr>bc_utxoCache := c\<rparr>)"
    by (rule cache_chain [OF assms(3) c(2) init(2)]) (simp_all add: s1_def freshChain_def)
  ultimately show ?thesis using init(3,4) c(3) by (intro exI [of _ "s1\<lparr>bc_utxoCache := c\<rparr>"]) (simp add: s1_def freshChain_def NodeStatus_def)
qed

subsection \<open>The first start\<close>

lemma CalcWork_range: "0 \<le> CalcWork bits \<and> CalcWork bits < 256 ^ 64"
proof (cases "CompactToBig bits \<le> 0")
  case True
  then show ?thesis by (simp add: CalcWork_def Let_def)
next
  case False
  let ?d = "CompactToBig bits"
  have "2 ^ 256 div (?d + 1) \<le> 2 ^ 256 div 1" using False by (intro zdiv_mono2) simp_all
  moreover have "0 \<le> 2 ^ 256 div (?d + 1)" using False by (intro pos_imp_zdiv_nonneg_iff [THEN iffD2]) simp_all
  ultimately show ?thesis using False by (simp add: CalcWork_def Let_def)
qed

lemma empty_cache: "cache_inv parse (newUtxoCache Map.empty x k)" "dbCoins parse (newUtxoCache Map.empty x k) = Map.empty"
proof -
  let ?c = "newUtxoCache Map.empty x k"
  have c: "ms_get (cachedEntries ?c) = Map.empty" "slice_ok (cachedEntries ?c)" "utxoBucket ?c = Map.empty"
    by (simp_all add: newUtxoCache_def ms_get_def fun_eq_iff slice_ok_def)
  show db: "dbCoins parse ?c = Map.empty" by (simp add: dbCoins_def c(3) fetched_def dbFetchUtxoEntry_def fun_eq_iff)
  show "cache_inv parse ?c" by (simp add: cache_inv_def c db) (simp add: sound_def dbFetchUtxoEntry_def)
qed

lemma new_fields: "utxoBucket (newUtxoCache b x k) = b" "stateConsistency (newUtxoCache b x k) = x"
  by (simp_all add: newUtxoCache_def)

lemma first_start:
  assumes "db_chainState s = None" and "stateConsistency (bc_utxoCache s) = None" and "db_blocks s (b_hash (ste_genesis ste)) = None"
    and "ste_blockHash ste (b_header (ste_genesis ste)) = b_hash (ste_genesis ste)"
    and "checkpointsSorted 0 (ste_checkpoints ste)" and "ste_upgrade ste = None" and "ste_indexInit ste = None" and "ste_thresholds ste = None"
    and "g = newBlockNode (ste_blockHash ste) (b_header (ste_genesis ste)) NoNode"
  shows "\<exists>s'. chain_New parse env ste s = (Ok (), s') \<and> chain_inv parse g s' \<and> bi_index (bc_index s') = [hash_of g \<mapsto> g] \<and>
    stored_index (bc_index s') (db_blockIndex s')"
proof -
  let ?b = "ste_genesis ste"
  have g: "g \<noteq> NoNode" "n_parent g = NoNode" "height_of g = 0" "hash_of g = b_hash ?b" "block_ok g" "n_workSum (blk g) = CalcWork (bh_Bits (b_header ?b))"
    using newBlockNode_parts [of "ste_blockHash ste" "b_header ?b" NoNode] newBlockNode_copies [of "ste_blockHash ste" "b_header ?b" NoNode]
      newBlockNode_ok [of NoNode "ste_blockHash ste" "b_header ?b"] assms(4,9) by simp_all
  have lin: "lineage g = [g]" using lineage_self [OF g(1)] g(2) by simp
  obtain v where v: "setTip g \<lparr>cv_nodes = []\<rparr> = Ok v" "view_of g v" using setTip_spec [of NoNode "\<lparr>cv_nodes = []\<rparr>" g] g(5) by (auto simp: view_of_def)
  have mt: "CalcPastMedianTime g = Ok (n_timestamp (blk g))"
    using g(1,2) by (cases g) (simp_all add: CalcPastMedianTime_def medianTimeBlocks_def numeral_eq_Suc Let_def)
  let ?f = "freshChain ste s" and ?st = "bestStateOf g ?b (of_nat (length (b_txs ?b))) (n_timestamp (blk g))"
  define bi where "bi = addNode g (setStatus g (statusDataStored OR statusValid) newBlockIndex)"
  let ?c = "newUtxoCache Map.empty (Some (hash_of g)) (ste_cacheSize ste)\<lparr>lastFlushHash := hash_of g, lastFlushTime := che_now env\<rparr>"
  define s' where "s' = ?f\<lparr>bc_bestChain := v, bc_index := bi, bc_stateSnapshot := ?st, bc_utxoCache := ?c,
    db_blocks := (db_blocks s)(b_hash ?b \<mapsto> ?b), db_spendJournal := Map.empty, db_mainChain := dbPutBlockIndex (hash_of g) (height_of g) (Map.empty, Map.empty),
    db_chainState := Some (dbPutBestState ?st (n_workSum (blk g))), db_blockIndex := dbStoreBlockNode bi g Map.empty\<rparr>"
  have "chain_New parse env ste s = (Ok (), s')"
    using assms(1-3,5-8) v(1) g(1) view_tip [OF v(2)]
    by (simp add: chain_New_def initChainState_def createChainState_def Let_def assms(9) [symmetric] freshChain_def SetTip_def on_index_def dbUpdate_def
        dbStoreBlock_def InitConsistentState_def setLastFlush_def on_cache_def bind_act_def act_defs lift_err_def newUtxoCache_def s'_def bi_def)
  moreover have led: "ledgerAt B g = Map.empty" for B using g(1,2) by (cases g) simp_all
  have "cache_at parse (db_blocks s') g (newUtxoCache Map.empty (Some (hash_of g)) (ste_cacheSize ste))"
    using fresh_cache [OF empty_cache(1), of parse "Some (hash_of g)" 0 "db_blocks s'" g "ste_cacheSize ste"] by (simp add: empty_cache(2) new_fields led g(1))
  then have "cache_at parse (db_blocks s') g ?c" by (simp only: flushTime_upd)
  moreover have "branch_ok (db_blocks s') g"
    using CalcWork_range g by (simp add: branch_ok_def lin stored_block_def s'_def)
  moreover have "synced g s'" using CalcWork_range g by (intro syncedI [OF mt]) (simp_all add: s'_def blockAt_def)
  moreover have "bi_index bi = [hash_of g \<mapsto> g]" by (simp add: bi_def addNode_def setStatus_def newBlockIndex_def)
  ultimately show ?thesis using v(2) g(1,2) lin
    by (intro exI [of _ s']) (auto simp: chain_inv_def cache_at_def s'_def stored_index_def store_row)
qed

subsection \<open>Statements\<close>

text \<open>C5: A crash loses nothing.  Let cache, database and chain view be those of the branch of \<open>t\<close>, as every block leaves them, with any part of the outputs only in the cache, and let
  the rows of the block index be stored.  If the node stops and \<open>New\<close> opens the database again, it succeeds: the best chain, the best state and the nodes of
  the index are what they were, the blocks that the stored outputs lack have been replayed, and cache and database have the ledger of the branch of
  \<open>t\<close> again.  The blocks of the branch are marked as valid, the other marks are unchanged.  The cursor of the database lists a bucket by its keys, no upgrade or index fails, and
  nobody interrupts the start.\<close>

theorem restart_after_crash:
  assumes "key_laws parse" and "cursor_laws (ste_cursor ste)" and "chain_inv parse t s" and "index_ok (ste_blockHash ste) (bc_index s)"
    and "stored_index (bc_index s) (db_blockIndex s)" and "t \<in> ran (bi_index (bc_index s))"
    and "checkpointsSorted 0 (ste_checkpoints ste)" and "ste_upgrade ste = None" and "ste_indexInit ste = None" and "ste_thresholds ste = None"
    and "\<forall>n. \<not> ste_interrupted ste n"
  shows "\<exists>s'. chain_New parse env ste s = (Ok (), s') \<and> chain_inv parse t s' \<and> bc_stateSnapshot s' = bc_stateSnapshot s \<and>
    bi_index (bc_index s') = bi_index (bc_index s) \<and>
    (\<forall>n \<in> ran (bi_index (bc_index s)). NodeStatus n (bc_index s') =
      (if n \<in> set (lineage t) \<and> \<not> KnownValid (NodeStatus n (bc_index s)) then NodeStatus n (bc_index s) OR statusValid else NodeStatus n (bc_index s)))"
  using restart_spec [OF assms, of env] by blast

text \<open>C22: The block index that is flushed is read back.  Let \<open>bi\<close> be an index of a tree of nodes, and let the database have the rows of all nodes that are not marked as
  changed.  After \<open>flushToDB\<close>, reading the bucket in the order of its keys, as \<open>initChainState\<close> does, finds the parent of every row and gives the same nodes, with their work, their
  skip pointers and their statuses.\<close>

theorem index_roundtrip:
  assumes "index_ok bh bi" and "set order = bi_dirty bi" and "bi_dirty bi \<subseteq> ran (bi_index bi)" and "dom b \<subseteq> keyOf ` ran (bi_index bi)"
    and "\<forall>n \<in> ran (bi_index bi) - bi_dirty bi. b (keyOf n) = Some (rowOf bi n)" and "cursor_laws cursor"
  shows "\<exists>bi'. loadRows bh (cursor (snd (flushToDB order (bi, b)))) NoNode newBlockIndex = (Ok (), bi') \<and> bi_index bi' = bi_index bi \<and> bi_dirty bi' = {} \<and>
    (\<forall>n \<in> ran (bi_index bi). NodeStatus n bi' = NodeStatus n bi)"
  by (rule reload_spec [OF assms(1) flush_stored [OF assms(1-5)] assms(6)])

text \<open>After a start, the block of the last flush is taken to be the tip, whatever block the stored outputs are at.  Pruning then deletes blocks of
  the branch without a flush, also those that the next start would have to replay.\<close>

lemma recovery_overstates_flush:
  assumes "key_laws parse" and "cursor_laws (ste_cursor ste)" and "chain_inv parse t s" and "index_ok (ste_blockHash ste) (bc_index s)"
    and "stored_index (bc_index s) (db_blockIndex s)" and "t \<in> ran (bi_index (bc_index s))"
    and "checkpointsSorted 0 (ste_checkpoints ste)" and "ste_upgrade ste = None" and "ste_indexInit ste = None" and "ste_thresholds ste = None"
    and "\<forall>n. \<not> ste_interrupted ste n" and "k \<in> set (lineage t)" and "k \<noteq> t"
  shows "\<exists>s'. chain_New parse env ste s = (Ok (), s') \<and> \<not> flushNeededAfterPrune [hash_of k] (bc_index s') (lastFlushHash (bc_utxoCache s'))"
proof -
  obtain s' where s': "chain_New parse env ste s = (Ok (), s')" "lastFlushHash (bc_utxoCache s') = hash_of t" "bi_index (bc_index s') = bi_index (bc_index s)"
    using restart_spec [OF assms(1-11), of env] by blast
  have t: "bi_index (bc_index s) (hash_of t) = Some t" "bi_index (bc_index s) (hash_of k) = Some k" "t \<noteq> NoNode" "k \<noteq> NoNode"
    using index_node(1,2) [OF assms(4)] assms(6,12) index_lineage [OF assms(4,6)] by auto
  have "block_ok t" using assms(3) by (simp add: chain_inv_def branch_ok_def)
  then have "height_of k < height_of t" "0 \<le> height_of t" using lineage_lower [of t k] block_ok_nonneg [of t] assms(12,13) t(3) by auto
  then have "\<not> flushNeededAfterPrune [hash_of k] (bc_index s') (lastFlushHash (bc_utxoCache s'))"
    using t by (simp add: flushNeededAfterPrune_def LookupNode_def s'(2,3) Let_def)
  then show ?thesis using s'(1) by blast
qed

subsection \<open>Examples\<close>

definition demoIndex :: blockIndex where
  "demoIndex = \<lparr>bi_index = map_of (map (\<lambda>n. (hash_of n, n)) demoNodes), bi_status = (\<lambda>_. statusDataStored), bi_dirty = {}\<rparr>"

definition demoRows :: bucket where
  "demoRows = map_of (map (\<lambda>n. (keyOf n, rowOf demoIndex n)) demoNodes)"

definition demoStart :: startEnv where
  "demoStart = \<lparr>ste_blockHash = demoHash, ste_cursor = (\<lambda>b. map (\<lambda>k. (k, the (b k))) (sorted_list_of_set (dom b))), ste_genesis = demoBlock (demoChain 1),
     ste_checkpoints = [], ste_cacheSize = 1000000, ste_prune = 0, ste_upgrade = None, ste_indexInit = None, ste_thresholds = None,
     ste_interrupted = (\<lambda>_. False)\<rparr>"

lemma demo_cursor: "cursor_laws (ste_cursor demoStart)"
proof -
  have "map_of (map (\<lambda>k. (k, the (b k))) (sorted_list_of_set (dom b))) = b" if "finite (dom b)" for b :: bucket
    using that by (auto simp: fun_eq_iff map_of_map_restrict restrict_map_def domIff comp_def)
  then show ?thesis by (simp add: cursor_laws_def demoStart_def comp_def)
qed

lemma newBlockNode_again: "bh (nodeHeader (newBlockNode bh h p)) = bh h \<Longrightarrow> newBlockNode bh (nodeHeader (newBlockNode bh h p)) p = newBlockNode bh h p"
  by (simp add: newBlockNode_def nodeHeader_def Let_def)

lemma demo_made:
  assumes "n = newBlockNode demoHash (demoHeaderAt i) p" and "i < 32" and "p = NoNode \<or> 0 \<le> height_of p \<and> height_of p < 100"
  shows "newBlockNode demoHash (nodeHeader n) (n_parent n) = n \<and> node_fits n"
proof -
  have "demoHash (nodeHeader n) = demoHash (demoHeaderAt i)" by (simp add: assms(1) demoHash_def nodeHeader_def newBlockNode_parts)
  moreover have "hash_of n = demoName (Suc i)" "n_merkleRoot (blk n) = replicate 32 0" "n_version (blk n) = 0x20000001"
    "n_timestamp (blk n) = 1600000000 + int i" "height_of n = (if p = NoNode then 0 else height_of p + 1)"
    by (simp_all add: assms(1) newBlockNode_def Let_def demoHeaderAt_def demoHash_def)
  then have "node_fits n" using assms(2,3) by (auto simp: node_fits_def demoName_length)
  ultimately show ?thesis using newBlockNode_again [of demoHash "demoHeaderAt i" p] by (simp add: assms(1) newBlockNode_parts(2))
qed

lemma demo_node:
  assumes "n \<in> set demoNodes"
  shows "newBlockNode demoHash (nodeHeader n) (n_parent n) = n \<and> node_fits n"
proof -
  have h: "height_of (demoChain 1) = 0" using demoChain_height [of 0] by simp
  have eq: "demoChain 1 = newBlockNode demoHash (demoHeaderAt 0) NoNode" "demoChain 2 = newBlockNode demoHash (demoHeaderAt 1) (demoChain 1)"
    "demoChain 3 = newBlockNode demoHash (demoHeaderAt 2) (demoChain 2)" "demoFork = newBlockNode demoHash (demoHeaderAt 9) (demoChain 1)"
    by (simp_all add: demoFork_def numeral_2_eq_2 numeral_3_eq_3)
  have "n = demoChain 1 \<or> n = demoChain 2 \<or> n = demoChain 3 \<or> n = demoFork" using assms by (simp add: demoNodes_def del: One_nat_def)
  then show ?thesis
    using demo_made [OF eq(1)] demo_made [OF eq(2)] demo_made [OF eq(3)] demo_made [OF eq(4)] h demo_hashes(13) by (auto simp del: One_nat_def demoChain.simps)
qed

lemma demo_distinct: "distinct (map hash_of demoNodes)"
  by (simp add: demoNodes_def demo_hashes demoName_eq del: One_nat_def)

lemma demo_ran: "ran (bi_index demoIndex) = set demoNodes" "bi_index demoIndex (hash_of n) = Some n \<longleftrightarrow> n \<in> set demoNodes"
proof -
  have d: "distinct (map fst (map (\<lambda>n. (hash_of n, n)) demoNodes))" using demo_distinct by (simp add: comp_def)
  show "ran (bi_index demoIndex) = set demoNodes" using ran_distinct [OF d] by (simp add: demoIndex_def image_image)
  show "bi_index demoIndex (hash_of n) = Some n \<longleftrightarrow> n \<in> set demoNodes"
    using map_of_eq_Some_iff [OF d] by (auto simp: demoIndex_def)
qed

lemma demo_index_ok: "index_ok demoHash demoIndex"
proof -
  have "hash_of n = h" if "bi_index demoIndex h = Some n" for h n using that by (auto simp: demoIndex_def dest!: map_of_SomeD)
  moreover have "n \<noteq> NoNode \<and> (n_parent n \<noteq> NoNode \<longrightarrow> n_parent n \<in> set demoNodes) \<and> (n_parent n = NoNode \<longrightarrow> n = demoChain 1)" if "n \<in> set demoNodes" for n
    using that demo_hashes by (auto simp: demoNodes_def simp del: One_nat_def)
  ultimately show ?thesis using demo_node unfolding index_ok_def demo_ran(1) by (metis List.finite_set demo_ran(2))
qed

lemma demo_rows: "stored_index demoIndex demoRows"
proof -
  have inj: "inj_on keyOf (set demoNodes)" using keyOf_inj [OF demo_index_ok] demo_ran(1) by simp
  then have d: "distinct (map fst (map (\<lambda>n. (keyOf n, rowOf demoIndex n)) demoNodes))"
    using demo_distinct by (simp add: comp_def distinct_map)
  have "demoRows (keyOf n) = Some (rowOf demoIndex n)" if "n \<in> set demoNodes" for n
    using map_of_eq_Some_iff [OF d] that by (auto simp: demoRows_def)
  then show ?thesis unfolding stored_index_def demo_ran(1) by (simp add: demoRows_def dom_map_of_conv_image_fst image_image)
qed

definition demoCrashed :: BlockChain where
  "demoCrashed = demoForked\<lparr>bc_index := demoIndex, db_blockIndex := demoRows\<rparr>"

lemma demo_crashed: "chain_inv oneKey demoFork demoCrashed"
  using demo_forked(1) by (simp add: demoCrashed_def chain_inv_def)

theorem restart_after_crash_witness:
  "\<exists>s. chain_New oneKey demoChainEnv demoStart demoCrashed = (Ok (), s) \<and> tip (bc_bestChain s) = demoFork \<and>
    ledger oneKey (bc_utxoCache s) = ledgerAt (db_blocks s) demoFork \<and> LookupNode (demoName 3) (bc_index s) = demoChain 3 \<and>
    KnownValid (NodeStatus demoFork (bc_index s)) \<and> \<not> KnownValid (NodeStatus (demoChain 3) (bc_index s))"
proof -
  have mem: "demoFork \<in> set demoNodes" "demoChain 3 \<in> set demoNodes" "demoChain 3 \<notin> set (lineage demoFork)" "demoFork \<in> set (lineage demoFork)"
    using demo_hashes demoName_eq by (auto simp: demoNodes_def demo_lineage simp del: One_nat_def demoChain.simps)
  have s: "index_ok (ste_blockHash demoStart) (bc_index demoCrashed)" "stored_index (bc_index demoCrashed) (db_blockIndex demoCrashed)"
    "demoFork \<in> ran (bi_index (bc_index demoCrashed))"
    using demo_index_ok demo_rows mem(1) by (simp_all add: demoStart_def demoCrashed_def demo_ran(1))
  obtain s' where s': "chain_New oneKey demoChainEnv demoStart demoCrashed = (Ok (), s')" "chain_inv oneKey demoFork s'" "bi_index (bc_index s') = bi_index demoIndex"
    "\<forall>n \<in> set demoNodes. NodeStatus n (bc_index s') =
      (if n \<in> set (lineage demoFork) \<and> \<not> KnownValid (NodeStatus n demoIndex) then NodeStatus n demoIndex OR statusValid else NodeStatus n demoIndex)"
    using restart_after_crash [OF oneKey_laws demo_cursor demo_crashed s, of demoChainEnv] by (auto simp: demoStart_def demoCrashed_def demo_ran(1))
  have st: "NodeStatus n demoIndex = statusDataStored" for n by (simp add: demoIndex_def NodeStatus_def)
  have kv: "\<not> KnownValid statusDataStored" "KnownValid (statusDataStored OR statusValid)" by (simp_all add: KnownValid_def statusDataStored_def statusValid_def)
  have "tip (bc_bestChain s') = demoFork" "ledger oneKey (bc_utxoCache s') = ledgerAt (db_blocks s') demoFork"
    using s'(2) chain_tip [OF s'(2)] by (simp_all add: chain_inv_def)
  moreover have "LookupNode (demoName 3) (bc_index s') = demoChain 3"
    using demo_ran(2) [of "demoChain 3"] mem(2) demo_hashes(3) s'(3) by (simp add: LookupNode_def)
  moreover have "KnownValid (NodeStatus demoFork (bc_index s'))" "\<not> KnownValid (NodeStatus (demoChain 3) (bc_index s'))"
    using s'(4) mem st kv by simp_all
  ultimately show ?thesis using s'(1) by blast
qed

theorem index_roundtrip_witness:
  "\<exists>bi. loadRows demoHash (ste_cursor demoStart demoRows) NoNode newBlockIndex = (Ok (), bi) \<and> LookupNode (demoName 10) bi = demoFork"
proof -
  have "\<forall>n \<in> ran (bi_index demoIndex) - bi_dirty demoIndex. demoRows (keyOf n) = Some (rowOf demoIndex n)" "dom demoRows \<subseteq> keyOf ` ran (bi_index demoIndex)"
    "set [] = bi_dirty demoIndex" "bi_dirty demoIndex \<subseteq> ran (bi_index demoIndex)" "snd (flushToDB [] (demoIndex, demoRows)) = demoRows"
    using demo_rows by (auto simp: stored_index_def flushToDB_def demoIndex_def)
  with index_roundtrip [OF demo_index_ok _ _ _ _ demo_cursor, of "[]" demoRows] obtain bi where
    bi: "loadRows demoHash (ste_cursor demoStart demoRows) NoNode newBlockIndex = (Ok (), bi)" "bi_index bi = bi_index demoIndex" by auto
  have "demoFork \<in> set demoNodes" by (simp add: demoNodes_def)
  then have "LookupNode (demoName 10) bi = demoFork" using demo_ran(2) [of demoFork] demo_hashes(4) bi(2) by (simp add: LookupNode_def)
  with bi(1) show ?thesis by blast
qed

end
