(* ===== verification/Spec2Isabelle.thy ===== *)
theory Spec2Isabelle
  imports Bitshare_System Wallet_Handlers Proxy_Node Coin_TreapIter Coin_Deploy Coin_Start
begin

text \<open>
  A verification library for OrcaNet-Tuna, a market for files between peers that pay each other in a coin of
  their own.

  \<^bold>\<open>The program.\<close>  A user runs four services.  The \<^emph>\<open>file-sharing node\<close> (\<open>src/fileshare\<close>) announces files on a
  Kademlia DHT, serves them to other nodes over libp2p streams through a relay, downloads files, and offers
  a JSON-RPC service to the desktop client.  It pays for a download by an HTTP request to the \<^emph>\<open>wallet
  server\<close> (\<open>src/server\<close>), which starts, stops and configures the coin's daemon and wallet as child processes
  and runs \<open>btcctl\<close> commands for its HTTP handlers.  The daemon is the \<^emph>\<open>coin node\<close> (\<open>src/btcd\<close>, a fork of
  btcd with OrcaNet's parameters).  The \<^emph>\<open>proxy node\<close> (\<open>src/proxy\<close>) advertises HTTP proxies on the DHT
  and relays and logs the traffic of the proxy it runs.

  \<^bold>\<open>Vocabulary.\<close>
  \<^item> \<open>Orca_Prelude\<close>: the outcome of a Go call (value, error, panic, not returned), calls with effects as
    state transformers \<open>('s, 'a) act\<close>, and the locale \<open>frame_relation\<close>: for a reflexive and transitive relation
    between states, a call composed of calls that respect the relation respects it.  All invariants below are
    proved through interpretations of this locale and its extensions.
  \<^item> \<open>Go_Strings\<close>, \<open>Go_Floats\<close>: what the sources use of \<open>strings\<close>, \<open>fmt\<close>, \<open>time\<close>, and \<open>strconv\<close>, \<open>float32\<close> and
    \<open>float64\<close> with rounding, and the wrap-around of \<open>int64\<close>.

  \<^bold>\<open>File-sharing node.\<close>
  \<^item> \<open>Bitshare_Types\<close>: the structs of \<open>bitshare_structs.go\<close>, the package variables of \<open>main.go\<close> as the record
    \<open>node\<close>, and the record \<open>p2p\<close> of everything the node asks of libp2p, the codecs and the file system.
  \<^item> \<open>Bitshare_Net\<close>: every message sender and stream handler of \<open>bitshare.go\<close> but the transfer.
  \<^item> \<open>Bitshare_Transfer\<close>: \<open>sendFileToPeer\<close>, \<open>receiveFileRequests\<close>, \<open>receiveFileData\<close>, \<open>copyFromContainer\<close>.  A
    served file arrives byte for byte however the stream cuts it, if the header is alone in its read; if it is
    not, bytes are lost.  A file that is not provided is not served.  The sender returns once the download is not
    paused any more.
  \<^item> \<open>Bitshare_State\<close>: \<open>saveState\<close>, \<open>loadState\<close>; what survives a restart, if the strings of the state are valid UTF-8.
  \<^item> \<open>Bitshare_Rpc\<close>: every handler of \<open>rpcserver.go\<close> with \<open>utils.go\<close>.  When \<open>GetFile\<close> pays, whom and how much,
    also when metadata arrives between the check of the price and the payment, which then pays an unchecked price;
    what \<open>ProvideFile\<close> registers; what \<open>GetProviders\<close> finds after a file is provided, and what a failed lookup loses.
  \<^item> \<open>Bitshare_Node\<close>: creating and connecting the node, the relay, the command line, \<open>main\<close>.
  \<^item> \<open>Bitshare_System\<close>: the node as a machine that reacts to events.  The locale \<open>node_frame\<close> gives the frame
    of every handler; the invariant of the node's tables, the closing of a file that is no longer shared and
    the bound of the payments by the download requests hold for every sequence of events.

  \<^bold>\<open>Wallet server.\<close>
  \<^item> \<open>Wallet_Manager\<close>: \<open>manager.go\<close> over the record \<open>machine\<close> of the operating system.  The log of the
    server records every start and end of a process, the short-lived ones that create a wallet too.  For requests served
    one after the other no service is started while one runs; a mining address that is written to the
    configuration is read back.
  \<^item> \<open>Wallet_Handlers\<close>: the handlers of \<open>handlers.go\<close> and the routes of \<open>main.go\<close>.  The locale \<open>server_frame\<close> gives
    the frame of every request; sending coins checks the funds; what a login and a logout leave behind.

  \<^bold>\<open>Proxy node.\<close>  \<open>Proxy_Node\<close>: all of \<open>src/proxy/main.go\<close> over the record \<open>outside\<close>.  What a tunnel relays and
  counts, which commands have the effect they announce, and when the attempts to connect end.

  \<^bold>\<open>Coin node.\<close>
  \<^item> \<open>Coin_Treap\<close>, \<open>Coin_TreapIter\<close>: the ordered store of the block database
    (\<open>database/internal/treap\<close>).  The locale \<open>stack_contract\<close> is the interface of the parent stack, interpreted
    on the array with overflow slice of the code; the locale \<open>store_contract\<close> is the refinement of a finite map.
    An iterator visits exactly the pairs of its range, in order.
  \<^item> \<open>Coin_Compress\<close>: the encoding of unspent outputs (\<open>blockchain/compress.go\<close>), with its round trips and sizes.
  \<^item> \<open>Coin_Difficulty\<close>: compact targets, work, retargeting, the proof-of-work check, the subsidy, and the
    parameters of OrcaNet's main network.  Targets stay in range, accepted blocks add work, the supply is
    bounded, and the parameters let almost every block use the minimum difficulty.
  \<^item> \<open>Coin_Ledger\<close>: the checks of a transaction and the view of unspent outputs.  A checked transaction can be
    connected, creates no coins, and its inputs cannot be spent again.
  \<^item> \<open>Coin_Index\<close>, \<open>Coin_View\<close>: the tree of block headers (\<open>blockindex.go\<close>) and the view of its best branch
    (\<open>chainview.go\<close>).  The skip pointers find the ancestor that walking the parents finds, the median time never falls from a block to its
    child under the rule of the headers, the view after any sequence of tips is the branch of the last one, and fork points and locators
    are right.
  \<^item> \<open>Coin_Deploy\<close>: voting on rule changes (\<open>thresholdstate.go\<close>, \<open>versionbits.go\<close>, \<open>deployment_time_frame.go\<close>).  The cached walk over the
    windows computes the state that the votes define; an activation needs its votes; on this network two of the
    deployments have failed from the start.
  \<^item> \<open>Coin_Merkle\<close>: the two computations of the merkle root agree with each other and with a reference definition; what
    an accepted witness commitment commits to.
  \<^item> \<open>Coin_Store\<close>: the records of the database for unspent outputs and spent outputs (\<open>chainio.go\<close>), with their round trips; the
    locale \<open>coin_bucket\<close> is the bucket as a map.
  \<^item> \<open>Coin_Cache\<close>: the cache before the database (\<open>utxocache.go\<close>, \<open>sizehelper.go\<close>).  Its maps are the interface \<open>entry_map\<close>; cache and database
    refine the map of unspent outputs, under blocks and flushes; an output that is created twice comes back.
  \<^item> \<open>Coin_Sigops\<close>: the signature operations and the weight of transactions and blocks, without overflow for what
    fits in a block.
  \<^item> \<open>Coin_Block\<close>, \<open>Coin_Connect\<close>: the checks of a block, loading its inputs into a view, connecting and disconnecting
    it.  A checked block can be connected to the cache and creates no more than its subsidy; at most 21 million coins
    circulate on a chain of checked blocks.  Both assume that the transactions of a block are in the order of their spending and that their
    hashes are new to ledger and database; the checks do not ensure this below the BIP34 height, and \<open>Coin_Cache\<close> shows what
    happens otherwise.
  \<^item> \<open>Coin_State\<close>, \<open>Coin_Chain\<close>: the state of the chain in the database (best state, main chain, rows of the block index), connecting and
    disconnecting blocks, pruning, reorganisations and the choice of the best chain (\<open>chain.go\<close>, \<open>chainio.go\<close>).
  \<^item> \<open>Coin_Undo\<close>, \<open>Coin_Reorg\<close>: the specification is the ledger that the blocks of a branch leave unspent.  Undoing a block
    restores the ledger of its parent; a reorganisation carries out all of its blocks or none; every block given to the node leaves cache,
    database, journal and chain view in agreement with the branch of the tip, and marks as valid only blocks that can be connected.  Of the
    blocks to be attached it is assumed that no transaction of a branch occurs twice and that a block not yet marked as valid
    spends only what comes before; connected blocks are shown to.  A block behind an invalid one is reported as part of the
    main chain.
  \<^item> \<open>Coin_Start\<close>: opening the database: the first start, loading the block index and the best state, and replaying blocks
    (\<open>New\<close>, \<open>initChainState\<close>, \<open>InitConsistentState\<close>).  The index that is written is read back, and a node that crashes between any two
    blocks comes back with its chain, its best state and its ledger.

  \<^bold>\<open>Bounds and termination.\<close>  Machine integers are words or integers with the wrap-around written out; the sums of
  amounts are shown not to wrap from the checks of the code itself.  The round trip of an output assumes an
  amount below \<open>2 ^ 60\<close>, which every amount of the coin is, and a script shorter than \<open>2 ^ 32\<close> bytes, which
  every message is.  What arrives from outside (reads of a stream, polls, ticks, command lines) is a finite list; a loop
  that has consumed it without returning is \<open>Blocked\<close>, and the theorems about completion show \<open>Ok\<close>.  \<open>iterate\<close> takes the number of
  calls of \<open>Next\<close>, and its theorem holds for every number.  The loop over easier targets is a
  \<open>partial_function\<close>, shown to return for the parameters of the network (\<open>easiestLoop_returns\<close>); every other recursion has a
  termination proof.  So are the walks over the voting windows, the block locator and the merkle roots: that they return is part of
  the theorems about them.  Heights are below \<open>2 ^ 31\<close>, the range of the type that
  holds them.

  \<^bold>\<open>Parameters.\<close>  libp2p, the DHT, the JSON and gob codecs, SHA-256, secp256k1 keys, the random source, the clock,
  child processes and HTTP peers are fields of the records \<open>p2p\<close>, \<open>services\<close>, \<open>boot\<close>, \<open>machine\<close>, \<open>web\<close>, \<open>outside\<close>, \<open>connectEnv\<close>, \<open>chainEnv\<close>, \<open>startEnv\<close> and arguments
  such as \<open>parse\<close>.  Theorems that rely on their documented behaviour name it (\<open>gob_laws\<close>, \<open>state_codec\<close>, \<open>fair_order\<close>, \<open>put_validates\<close>,
  \<open>key_laws\<close>, \<open>env_ok\<close>, \<open>cursor_laws\<close>) and have a witness with a concrete instance.

  \<^bold>\<open>Not modelled.\<close>  \<open>startRPCServer\<close> and \<open>streamOutput\<close> (routing of a library, copying output to the terminal),
  \<open>createNewPeerID\<close> of the proxy (never called), log lines and sleeps; handlers run to completion one after the
  other, so data races on the maps of the node and of the wallet server are not covered.  Where a handler waits and then reads what
  another goroutine writes, that goroutine's part is an argument: the polls of \<open>sendFileToPeer\<close>, the ticks of \<open>GetFileMetaData\<close>, the metadata
  that arrives during \<open>GetFile\<close>.  Of the coin node: the immutable treap, whose
  sharing of nodes needs a heap; orphan blocks, the block files and the migration of old databases; the script
  engine, which is a parameter of the checks of a block; the mempool, the wire codec, peers and RPC.  The wallet daemon
  (\<open>src/btcwallet\<close>) and the desktop client are not modelled.
\<close>

end
